(* ===== verification/Prelude.thy ===== *)
theory Prelude
  imports Main "HOL-Library.Word"
begin

text \<open>
  Vocabulary shared by every theory of the development: the machine integers of the Rust
  sources, the two index shapes the engine builds everywhere (a hash map from a key to a set
  of members, and one from a key to a vector of members, both pruned when a member set becomes
  empty), ordered tree maps, and the hypotheses under which containers of the \<open>slotmap\<close> crate
  and the iteration order of hash tables enter the model.
\<close>

section \<open>Machine integers\<close>

type_synonym u8 = "8 word"
type_synonym u16 = "16 word"
type_synonym u32 = "32 word"
type_synonym u64 = "64 word"

text \<open>
  \<open>i32\<close> and \<open>i64\<close> are words read through \<^const>\<open>sint\<close>; the two synonyms only document which
  reading is meant.
\<close>

type_synonym i32 = "32 word"
type_synonym i64 = "64 word"

text \<open>Rust's checked operations on unsigned and on signed integers.\<close>

definition checked_add_u :: "'a::len word \<Rightarrow> 'a word \<Rightarrow> 'a word option" where
  "checked_add_u a b = (if unat a + unat b < 2 ^ LENGTH('a) then Some (a + b) else None)"

definition checked_mul_u :: "'a::len word \<Rightarrow> 'a word \<Rightarrow> 'a word option" where
  "checked_mul_u a b = (if unat a * unat b < 2 ^ LENGTH('a) then Some (a * b) else None)"

definition checked_sub_u :: "'a::len word \<Rightarrow> 'a word \<Rightarrow> 'a word option" where
  "checked_sub_u a b = (if b \<le> a then Some (a - b) else None)"

definition checked_add_i64 :: "i64 \<Rightarrow> i64 \<Rightarrow> i64 option" where
  "checked_add_i64 a b =
     (let s = sint a + sint b in if - (2 ^ 63) \<le> s \<and> s < 2 ^ 63 then Some (a + b) else None)"

definition u64_max :: u64 where
  "u64_max = - 1"

lemma unat_u64_max [simp]: "unat u64_max = 2 ^ 64 - 1"
  by (simp add: u64_max_def unsigned_minus_1_eq_mask mask_eq_exp_minus_1)

lemma u64_max_code [code_unfold]: "u64_max = 18446744073709551615"
  by (simp add: u64_max_def)

lemma checked_add_u_SomeD:
  fixes a b :: "'a::len word"
  assumes "checked_add_u a b = Some c"
  shows "unat c = unat a + unat b"
  using assms by (auto simp: checked_add_u_def unat_word_ariths split: if_splits)

lemma checked_add_u_None_iff:
  fixes a b :: "'a::len word"
  shows "checked_add_u a b = None \<longleftrightarrow> 2 ^ LENGTH('a) \<le> unat a + unat b"
  by (auto simp: checked_add_u_def)

lemma checked_add_u64_1_None_iff: "checked_add_u (a::u64) 1 = None \<longleftrightarrow> a = u64_max"
proof -
  have "unat a < 2 ^ 64" using unsigned_less [of a] by simp
  then have "2 ^ 64 \<le> unat a + 1 \<longleftrightarrow> unat a = 2 ^ 64 - 1" by linarith
  also have "\<dots> \<longleftrightarrow> a = u64_max" by (metis unat_u64_max word_unat_eq_iff)
  finally show ?thesis by (simp add: checked_add_u_None_iff)
qed

lemma unat_Suc_u64: "a \<noteq> u64_max \<Longrightarrow> unat (a + 1) = Suc (unat (a::u64))"
proof -
  assume "a \<noteq> u64_max"
  then obtain c where "checked_add_u a 1 = Some c"
    using checked_add_u64_1_None_iff [of a] by (cases "checked_add_u a 1") auto
  moreover from this have "c = a + 1" by (auto simp: checked_add_u_def split: if_splits)
  ultimately show ?thesis using checked_add_u_SomeD [of a 1 c] by simp
qed

lemma less_Suc_u64: "a \<noteq> u64_max \<Longrightarrow> b < a + 1 \<longleftrightarrow> b < a \<or> b = (a::u64)"
  by (simp add: word_less_nat_alt unat_Suc_u64 less_Suc_eq word_unat_eq_iff)

lemma unat_u64_less: "unat (a :: u64) < 2 ^ 64"
  using unsigned_less [of a] by simp

section \<open>Containers handed to the model\<close>

text \<open>
  A \<open>SlotMap\<close> of the \<open>slotmap\<close> crate is modelled by its contents, a partial map. Which key an
  insertion returns is decided inside the crate, so it is an argument of the operation that
  inserts, under the crate's documented guarantee that the key is not the key of a stored
  value. The order in which a slot map or a hash table is traversed is unspecified, so a loop
  over one takes the traversal as an argument: a list that enumerates the domain.
\<close>

definition fresh_key :: "'k \<Rightarrow> ('k \<rightharpoonup> 'v) \<Rightarrow> bool" where
  "fresh_key k m \<longleftrightarrow> m k = None"

definition enumerates :: "'k list \<Rightarrow> 'k set \<Rightarrow> bool" where
  "enumerates ks S \<longleftrightarrow> distinct ks \<and> set ks = S"

lemma enumeratesD [dest]: "enumerates ks S \<Longrightarrow> distinct ks" "enumerates ks S \<Longrightarrow> set ks = S"
  by (simp_all add: enumerates_def)

lemma enumerates_empty [simp]: "enumerates ks {} \<longleftrightarrow> ks = []"
  by (auto simp: enumerates_def)

lemma enumerates_length: "enumerates ks S \<Longrightarrow> length ks = card S"
  by (auto simp: enumerates_def distinct_card)

lemma ex_enumerates: "finite S \<Longrightarrow> \<exists>ks. enumerates ks S"
  using finite_distinct_list by (auto simp: enumerates_def)

text \<open>A rule for walking hash sets: a list of the elements for every finite set.\<close>

definition walks :: "('a set \<Rightarrow> 'a list) \<Rightarrow> bool" where
  "walks walk \<longleftrightarrow> (\<forall>S. finite S \<longrightarrow> enumerates (walk S) S)"

lemma walksD: "walks walk \<Longrightarrow> finite S \<Longrightarrow> set (walk S) = S" "walks walk \<Longrightarrow> finite S \<Longrightarrow> distinct (walk S)"
  by (auto simp: walks_def)

lemma walks_sorted: "walks (sorted_list_of_set :: 'a::linorder set \<Rightarrow> 'a list)"
  by (simp add: walks_def enumerates_def)

section \<open>Set-valued indexes\<close>

text \<open>
  \<open>index.entry(k).or_default().insert(v)\<close>, and its inverse that removes \<open>v\<close> and drops the key
  once its set is empty.
\<close>

named_theorems index_simps

definition set_index_add :: "'k \<Rightarrow> 'v \<Rightarrow> ('k \<rightharpoonup> 'v set) \<Rightarrow> ('k \<rightharpoonup> 'v set)" where
  "set_index_add k v m = m(k \<mapsto> insert v (case m k of None \<Rightarrow> {} | Some S \<Rightarrow> S))"

definition set_index_del :: "'k \<Rightarrow> 'v \<Rightarrow> ('k \<rightharpoonup> 'v set) \<Rightarrow> ('k \<rightharpoonup> 'v set)" where
  "set_index_del k v m =
     (case m k of None \<Rightarrow> m
      | Some S \<Rightarrow> if S - {v} = {} then m(k := None) else m(k \<mapsto> S - {v}))"

text \<open>The members of a key, none when the key is absent, and the relation an index stores.\<close>

definition members :: "('k \<rightharpoonup> 'v set) \<Rightarrow> 'k \<Rightarrow> 'v set" where
  "members m k = (case m k of None \<Rightarrow> {} | Some S \<Rightarrow> S)"

definition pruned :: "('k \<rightharpoonup> 'v set) \<Rightarrow> bool" where
  "pruned m \<longleftrightarrow> (\<forall>k. m k \<noteq> Some {})"

lemma members_empty [simp]: "members Map.empty k = {}"
  by (simp add: members_def)

lemma members_upd [simp]: "members (m(k := x)) j = (if j = k then (case x of None \<Rightarrow> {} | Some S \<Rightarrow> S) else members m j)"
  by (simp add: members_def)

lemma members_add [index_simps]:
  "members (set_index_add k v m) j = (if j = k then insert v (members m k) else members m j)"
  by (simp add: set_index_add_def members_def split: option.split)

lemma members_del [index_simps]:
  "members (set_index_del k v m) j = (if j = k then members m k - {v} else members m j)"
  by (auto simp: set_index_del_def members_def split: option.split)

lemma pruned_empty [simp]: "pruned Map.empty"
  by (simp add: pruned_def)

lemma pruned_add [index_simps]: "pruned m \<Longrightarrow> pruned (set_index_add k v m)"
  by (auto simp: pruned_def set_index_add_def)

lemma pruned_del [index_simps]: "pruned m \<Longrightarrow> pruned (set_index_del k v m)"
  by (auto simp: pruned_def set_index_del_def split: option.split)

lemma pruned_upd_None [simp]: "pruned m \<Longrightarrow> pruned (m(k := None))"
  by (simp add: pruned_def)

lemma pruned_dom_iff: "pruned m \<Longrightarrow> k \<in> dom m \<longleftrightarrow> members m k \<noteq> {}"
  by (auto simp: pruned_def members_def dom_def split: option.split)

lemma pruned_None_iff: "pruned m \<Longrightarrow> m k = None \<longleftrightarrow> members m k = {}"
  by (auto simp: pruned_def members_def split: option.split)

lemma members_Some: "m k = Some S \<Longrightarrow> members m k = S"
  by (simp add: members_def)

lemma pruned_eqI:
  assumes "pruned m" "pruned n" "\<And>k. members m k = members n k"
  shows "m = n"
proof
  fix k
  show "m k = n k"
    using assms(3) [of k] assms(1,2)
    by (auto simp: pruned_def members_def split: option.splits)
qed

section \<open>Vector-valued indexes\<close>

text \<open>
  \<open>index.entry(k).or_default().push(v)\<close>, and \<open>retain\<close> followed by dropping the key once its
  vector is empty.
\<close>

definition vec_index_push :: "'k \<Rightarrow> 'v \<Rightarrow> ('k \<rightharpoonup> 'v list) \<Rightarrow> ('k \<rightharpoonup> 'v list)" where
  "vec_index_push k v m = m(k \<mapsto> (case m k of None \<Rightarrow> [] | Some xs \<Rightarrow> xs) @ [v])"

definition vec_index_del :: "'k \<Rightarrow> 'v \<Rightarrow> ('k \<rightharpoonup> 'v list) \<Rightarrow> ('k \<rightharpoonup> 'v list)" where
  "vec_index_del k v m =
     (case m k of None \<Rightarrow> m
      | Some xs \<Rightarrow> (let ys = filter (\<lambda>x. x \<noteq> v) xs
                    in if ys = [] then m(k := None) else m(k \<mapsto> ys)))"

definition bucket :: "('k \<rightharpoonup> 'v list) \<Rightarrow> 'k \<Rightarrow> 'v list" where
  "bucket m k = (case m k of None \<Rightarrow> [] | Some xs \<Rightarrow> xs)"

definition vec_pruned :: "('k \<rightharpoonup> 'v list) \<Rightarrow> bool" where
  "vec_pruned m \<longleftrightarrow> (\<forall>k. m k \<noteq> Some [])"

lemma bucket_empty [simp]: "bucket Map.empty k = []"
  by (simp add: bucket_def)

lemma bucket_upd [simp]: "bucket (m(k := x)) j = (if j = k then (case x of None \<Rightarrow> [] | Some S \<Rightarrow> S) else bucket m j)"
  by (simp add: bucket_def)

lemma bucket_push [index_simps]:
  "bucket (vec_index_push k v m) j = (if j = k then bucket m k @ [v] else bucket m j)"
  by (simp add: vec_index_push_def bucket_def split: option.split)

lemma bucket_del [index_simps]:
  "bucket (vec_index_del k v m) j =
     (if j = k then filter (\<lambda>x. x \<noteq> v) (bucket m k) else bucket m j)"
  by (auto simp: vec_index_del_def bucket_def Let_def split: option.split)

lemma vec_pruned_empty [simp]: "vec_pruned Map.empty"
  by (simp add: vec_pruned_def)

lemma vec_pruned_push [index_simps]: "vec_pruned m \<Longrightarrow> vec_pruned (vec_index_push k v m)"
  by (auto simp: vec_pruned_def vec_index_push_def)

lemma vec_pruned_del [index_simps]: "vec_pruned m \<Longrightarrow> vec_pruned (vec_index_del k v m)"
  by (auto simp: vec_pruned_def vec_index_del_def Let_def split: option.split)

lemma vec_pruned_upd_None [simp]: "vec_pruned m \<Longrightarrow> vec_pruned (m(k := None))"
  by (simp add: vec_pruned_def)

lemma bucket_Some: "m k = Some xs \<Longrightarrow> bucket m k = xs"
  by (simp add: bucket_def)

lemma vec_pruned_None_iff: "vec_pruned m \<Longrightarrow> m k = None \<longleftrightarrow> bucket m k = []"
  by (auto simp: vec_pruned_def bucket_def split: option.split)

section \<open>Sorting by distinct keys\<close>

lemma sort_key_strict:
  assumes "distinct xs" "inj_on f (set xs)"
  shows "sorted_wrt (\<lambda>i j. f i < f j) (sort_key f xs)"
proof -
  have d: "distinct (map f (sort_key f xs))" using assms by (simp add: distinct_map)
  have "sorted_wrt (<) (map f (sort_key f xs))"
    using d strict_sorted_iff sorted_sort_key by blast
  then show ?thesis by (simp add: sorted_wrt_map)
qed

lemma sort_key_short: "length xs \<le> 1 \<Longrightarrow> sort_key f xs = xs"
  by (cases xs) auto

lemma find_sorted_first:
  assumes "sorted_wrt (\<lambda>i j. f i < (f j :: 'a::linorder)) xs" "find P xs = Some x"
  shows "x \<in> set xs" "P x" "y \<in> set xs \<Longrightarrow> P y \<Longrightarrow> f x \<le> f y"
proof -
  from assms(2) obtain n where n: "n < length xs" "P (xs ! n)" "x = xs ! n" "\<forall>m<n. \<not> P (xs ! m)"
    by (auto simp: find_Some_iff)
  then show "x \<in> set xs" "P x" by auto
  show "f x \<le> f y" if y: "y \<in> set xs" "P y"
  proof -
    from y(1) obtain m where m: "m < length xs" "y = xs ! m" by (auto simp: in_set_conv_nth)
    with n y(2) have "n \<le> m" by (meson not_le)
    moreover have "f (xs ! n) < f (xs ! m)" if "n < m"
      using assms(1) m(1) that by (auto simp: sorted_wrt_iff_nth_less)
    ultimately show ?thesis using n(3) m(2) by (cases "n = m") auto
  qed
qed

section \<open>Interning pools\<close>

text \<open>
  A hash map from names to ids beside the vector of names: the ids are exactly the positions of
  the names, which are distinct. The symbol table and the variable map are built of such pools.
\<close>

definition pool_ok :: "('s \<rightharpoonup> 'a::len word) \<Rightarrow> 's list \<Rightarrow> bool" where
  "pool_ok ids strs \<longleftrightarrow>
     length strs \<le> 2 ^ LENGTH('a) \<and>
     (\<forall>s i. ids s = Some i \<longleftrightarrow> unat i < length strs \<and> strs ! unat i = s)"

lemma pool_ok_empty [simp]: "pool_ok Map.empty []"
  by (simp add: pool_ok_def)

lemma pool_okD: "pool_ok ids strs \<Longrightarrow> ids s = Some i \<longleftrightarrow> unat i < length strs \<and> strs ! unat i = s"
  by (simp add: pool_ok_def)

lemma unat_pool_id: "n < 2 ^ LENGTH('a) \<Longrightarrow> unat (word_of_nat n :: 'a::len word) = n"
  by (simp add: unat_of_nat take_bit_nat_eq_self)

lemma pool_ok_None: "pool_ok (ids :: 's \<rightharpoonup> 'a::len word) strs \<Longrightarrow> ids s = None \<Longrightarrow> s \<notin> set strs"
proof
  assume ok: "pool_ok ids strs" and none: "ids s = None" and "s \<in> set strs"
  then obtain n where n: "n < length strs" "strs ! n = s" by (auto simp: in_set_conv_nth)
  moreover have "n < 2 ^ LENGTH('a)" using ok n by (simp add: pool_ok_def)
  ultimately have "ids s = Some (word_of_nat n)" using ok by (simp add: pool_okD unat_pool_id)
  with none show False by simp
qed

lemma pool_ok_unique:
  assumes "pool_ok ids strs" "pool_ok ids' strs" shows "ids = ids'"
proof
  fix s show "ids s = ids' s"
    using pool_okD [OF assms(1), of s] pool_okD [OF assms(2), of s] by (metis not_Some_eq)
qed

lemma pool_ok_push:
  fixes ids :: "'s \<rightharpoonup> 'a::len word"
  assumes ok: "pool_ok ids strs" and new: "ids s = None" and room: "length strs < 2 ^ LENGTH('a)"
  shows "pool_ok (ids(s \<mapsto> word_of_nat (length strs))) (strs @ [s])"
  unfolding pool_ok_def
proof (intro conjI allI)
  show "length (strs @ [s]) \<le> 2 ^ LENGTH('a)" using room by simp
  fix t and i :: "'a word"
  have eq: "word_of_nat (length strs) = i \<longleftrightarrow> unat i = length strs"
    using room by (metis unat_pool_id word_unat_eq_iff)
  show "(ids(s \<mapsto> word_of_nat (length strs))) t = Some i \<longleftrightarrow>
      unat i < length (strs @ [s]) \<and> (strs @ [s]) ! unat i = t"
    using pool_okD [OF ok, of t i] pool_ok_None [OF ok new]
    by (auto simp: eq nth_append less_Suc_eq)
qed

lemma pool_ok_pop:
  fixes ids :: "'s \<rightharpoonup> 'a::len word"
  assumes ok: "pool_ok ids strs" and ne: "strs \<noteq> []"
  shows "pool_ok (ids(last strs := None)) (butlast strs)"
  unfolding pool_ok_def
proof (intro conjI allI)
  show "length (butlast strs) \<le> 2 ^ LENGTH('a)" using ok by (simp add: pool_ok_def le_diff_conv)
  fix t and i :: "'a word"
  let ?l = "length strs - 1"
  have last: "last strs = strs ! ?l" using ne by (rule last_conv_nth)
  have l: "?l < length strs" using ne by simp
  then have ul: "unat (word_of_nat ?l :: 'a word) = ?l"
    using ok by (intro unat_pool_id) (simp add: pool_ok_def)
  have "ids (last strs) = Some (word_of_nat ?l)"
    using l ul by (simp only: pool_okD [OF ok] last)
  then have inj: "unat i = ?l" if "unat i < length strs" "strs ! unat i = last strs"
    using that pool_okD [OF ok, of "last strs" i] ul by auto
  show "(ids(last strs := None)) t = Some i \<longleftrightarrow>
      unat i < length (butlast strs) \<and> butlast strs ! unat i = t"
  proof (cases "unat i < ?l")
    case True
    then have "strs ! unat i \<noteq> last strs" using inj by linarith
    with True show ?thesis using pool_okD [OF ok, of t i] by (auto simp: nth_butlast)
  next
    case False
    then have "unat i < length strs \<Longrightarrow> unat i = ?l" by simp
    then show ?thesis using pool_okD [OF ok, of t i] last False by auto
  qed
qed

end
