(* ===== verification/Ordered_Set.thy ===== *)
theory Ordered_Set
  imports Prelude
begin

text \<open>
  \<open>ordered_set.rs\<close>: insertion-ordered membership as a hash table of doubly linked entries, with
  a table-free mode for up to two keys. The abstract value is a distinct list, oldest key first.
  The capacity of the hash table decides between the modes. How it changes is the hash table's
  business, so every operation that touches the table takes the new capacity as an argument;
  all that is documented of it is that it is at least the number of entries.
  An \<open>unwrap\<close> that fails is the value \<open>None\<close>; the refinement lemmas show there is none.
\<close>

section \<open>The specification: distinct lists\<close>

definition ls_insert :: "'k \<Rightarrow> 'k list \<Rightarrow> bool \<times> 'k list" where
  "ls_insert k xs = (if k \<in> set xs then (False, xs) else (True, xs @ [k]))"

definition ls_remove :: "'k \<Rightarrow> 'k list \<Rightarrow> bool \<times> 'k list" where
  "ls_remove k xs = (k \<in> set xs, filter (\<lambda>x. x \<noteq> k) xs)"

datatype 'k set_op = Insert 'k | Remove 'k | Clear

fun ls_apply :: "'k set_op \<Rightarrow> 'k list \<Rightarrow> bool \<times> 'k list" where
  "ls_apply (Insert k) xs = ls_insert k xs"
| "ls_apply (Remove k) xs = ls_remove k xs"
| "ls_apply Clear xs = (True, [])"

lemma ls_apply_distinct: "distinct xs \<Longrightarrow> distinct (snd (ls_apply op xs))"
  by (cases op) (auto simp: ls_insert_def ls_remove_def)

lemma set_ls_insert [simp]: "set (snd (ls_insert k xs)) = insert k (set xs)"
  by (auto simp: ls_insert_def)

lemma set_ls_remove [simp]: "set (snd (ls_remove k xs)) = set xs - {k}"
  by (auto simp: ls_remove_def)

lemma distinct_ls_insert [simp]: "distinct xs \<Longrightarrow> distinct (snd (ls_insert k xs))"
  by (auto simp: ls_insert_def)

lemma distinct_ls_remove [simp]: "distinct xs \<Longrightarrow> distinct (snd (ls_remove k xs))"
  by (auto simp: ls_remove_def)

section \<open>The implementation\<close>

record 'k links =
  previous :: "'k option"
  next_key :: "'k option"

record 'k ordered_set =
  os_capacity :: nat
  os_entries :: "'k \<rightharpoonup> 'k links"
  os_first :: "'k option"
  os_last :: "'k option"

definition os_default :: "'k ordered_set" where
  "os_default = \<lparr>os_capacity = 0, os_entries = Map.empty, os_first = None, os_last = None\<rparr>"

definition os_insert :: "nat \<Rightarrow> 'k \<Rightarrow> 'k ordered_set \<Rightarrow> (bool \<times> 'k ordered_set) option" where
  "os_insert cap key s =
     (if os_capacity s = 0 then
        if os_first s = None then Some (True, s\<lparr>os_first := Some key, os_last := Some key\<rparr>)
        else if os_first s = Some key \<or> os_last s = Some key then Some (False, s)
        else if os_first s = os_last s then Some (True, s\<lparr>os_last := Some key\<rparr>)
        else (case (os_first s, os_last s) of
                (Some first, Some middle) \<Rightarrow>
                  Some (True, s\<lparr>os_capacity := cap,
                    os_entries := (os_entries s)
                      (first \<mapsto> \<lparr>previous = None, next_key = Some middle\<rparr>,
                       middle \<mapsto> \<lparr>previous = Some first, next_key = Some key\<rparr>,
                       key \<mapsto> \<lparr>previous = Some middle, next_key = None\<rparr>),
                    os_last := Some key\<rparr>)
              | _ \<Rightarrow> None)
      else
        (case os_entries s key of
           Some _ \<Rightarrow> Some (False, s)
         | None \<Rightarrow>
             (let es = (os_entries s)(key \<mapsto> \<lparr>previous = os_last s, next_key = None\<rparr>)
              in case os_last s of
                   Some p \<Rightarrow>
                     (case es p of
                        Some l \<Rightarrow> Some (True, s\<lparr>os_capacity := cap,
                          os_entries := es(p \<mapsto> l\<lparr>next_key := Some key\<rparr>), os_last := Some key\<rparr>)
                      | None \<Rightarrow> None)
                 | None \<Rightarrow> Some (True, s\<lparr>os_capacity := cap, os_entries := es,
                                        os_first := Some key, os_last := Some key\<rparr>))))"

definition os_unlink :: "'k links \<Rightarrow> 'k ordered_set \<Rightarrow> 'k ordered_set option" where
  "os_unlink l s =
     Option.bind
       (case previous l of
          Some p \<Rightarrow>
            (case os_entries s p of
               Some lp \<Rightarrow> Some (s\<lparr>os_entries := (os_entries s)(p \<mapsto> lp\<lparr>next_key := next_key l\<rparr>)\<rparr>)
             | None \<Rightarrow> None)
        | None \<Rightarrow> Some (s\<lparr>os_first := next_key l\<rparr>))
       (\<lambda>s. case next_key l of
          Some n \<Rightarrow>
            (case os_entries s n of
               Some ln \<Rightarrow> Some (s\<lparr>os_entries := (os_entries s)(n \<mapsto> ln\<lparr>previous := previous l\<rparr>)\<rparr>)
             | None \<Rightarrow> None)
        | None \<Rightarrow> Some (s\<lparr>os_last := previous l\<rparr>))"

definition os_remove :: "nat \<Rightarrow> 'k \<Rightarrow> 'k ordered_set \<Rightarrow> (bool \<times> 'k ordered_set) option" where
  "os_remove cap key s =
     (if os_capacity s = 0 then
        if os_first s = Some key then
          (if os_first s = os_last s then Some (True, s\<lparr>os_first := None, os_last := None\<rparr>)
           else Some (True, s\<lparr>os_first := os_last s\<rparr>))
        else if os_last s = Some key then Some (True, s\<lparr>os_last := os_first s\<rparr>)
        else Some (False, s)
      else
        (case os_entries s key of
           None \<Rightarrow> Some (False, s)
         | Some l \<Rightarrow>
             map_option (Pair True)
               (os_unlink l (s\<lparr>os_capacity := cap, os_entries := (os_entries s)(key := None)\<rparr>))))"

definition os_contains :: "'k \<Rightarrow> 'k ordered_set \<Rightarrow> bool" where
  "os_contains key s \<longleftrightarrow>
     (if os_capacity s = 0 then os_first s = Some key \<or> os_last s = Some key
      else os_entries s key \<noteq> None)"

definition os_len :: "'k ordered_set \<Rightarrow> nat" where
  "os_len s =
     (if os_capacity s = 0 then of_bool (os_first s \<noteq> None) + of_bool (os_first s \<noteq> os_last s)
      else card (dom (os_entries s)))"

definition os_is_empty :: "'k ordered_set \<Rightarrow> bool" where
  "os_is_empty s \<longleftrightarrow> os_first s = None"

definition os_clear :: "nat \<Rightarrow> 'k ordered_set \<Rightarrow> 'k ordered_set" where
  "os_clear cap s =
     s\<lparr>os_capacity := cap, os_entries := Map.empty, os_first := None, os_last := None\<rparr>"

text \<open>The double-ended iterator; \<open>next\<close> and \<open>next_back\<close> return the item and the new state.\<close>

record 'k os_iter_state =
  it_front :: "'k option"
  it_back :: "'k option"
  it_remaining :: nat

definition os_iter :: "'k ordered_set \<Rightarrow> 'k os_iter_state" where
  "os_iter s = \<lparr>it_front = os_first s, it_back = os_last s, it_remaining = os_len s\<rparr>"

definition os_next :: "'k ordered_set \<Rightarrow> 'k os_iter_state \<Rightarrow> 'k option \<times> 'k os_iter_state" where
  "os_next s it =
     (if it_remaining it = 0 then (None, it)
      else case it_front it of
        None \<Rightarrow> (None, it)
      | Some front \<Rightarrow>
          (case os_entries s front of
             Some l \<Rightarrow> (Some front, it\<lparr>it_front := next_key l, it_remaining := it_remaining it - 1\<rparr>)
           | None \<Rightarrow>
               (let (it', key) =
                  (if os_first s = Some front then (it\<lparr>it_front := os_last s\<rparr>, os_first s)
                   else (it\<lparr>it_front := None\<rparr>, os_last s))
                in case key of
                     None \<Rightarrow> (None, it')
                   | Some k \<Rightarrow> (Some k, it'\<lparr>it_remaining := it_remaining it - 1\<rparr>))))"

definition os_next_back :: "'k ordered_set \<Rightarrow> 'k os_iter_state \<Rightarrow> 'k option \<times> 'k os_iter_state" where
  "os_next_back s it =
     (if it_remaining it = 0 then (None, it)
      else case it_back it of
        None \<Rightarrow> (None, it)
      | Some back \<Rightarrow>
          (case os_entries s back of
             Some l \<Rightarrow> (Some back, it\<lparr>it_back := previous l, it_remaining := it_remaining it - 1\<rparr>)
           | None \<Rightarrow>
               (let (it', key) =
                  (if os_first s = Some back then (it\<lparr>it_back := None\<rparr>, os_first s)
                   else (it\<lparr>it_back := os_first s\<rparr>, os_last s))
                in case key of
                     None \<Rightarrow> (None, it')
                   | Some k \<Rightarrow> (Some k, it'\<lparr>it_remaining := it_remaining it - 1\<rparr>))))"

text \<open>A caller's sequence of \<open>next\<close> (\<open>True\<close>) and \<open>next_back\<close> (\<open>False\<close>) calls, and its results.\<close>

fun os_drive :: "'k ordered_set \<Rightarrow> bool list \<Rightarrow> 'k os_iter_state \<Rightarrow> 'k option list" where
  "os_drive s [] it = []"
| "os_drive s (fwd # ds) it =
     (let (r, it') = (if fwd then os_next s it else os_next_back s it)
      in r # os_drive s ds it')"

fun ls_drive :: "bool list \<Rightarrow> 'k list \<Rightarrow> 'k option list" where
  "ls_drive [] xs = []"
| "ls_drive (_ # ds) [] = None # ls_drive ds []"
| "ls_drive (True # ds) (x # xs) = Some x # ls_drive ds xs"
| "ls_drive (False # ds) (x # xs) = Some (last (x # xs)) # ls_drive ds (butlast (x # xs))"

text \<open>
  Decoding a snapshot inserts the decoded keys in turn and rejects a repetition; \<open>caps i\<close> is the
  capacity after the insertion numbered \<open>i\<close>. Encoding lists the iterator's keys.
\<close>

fun os_deserialize :: "(nat \<Rightarrow> nat) \<Rightarrow> 'k list \<Rightarrow> 'k ordered_set \<Rightarrow> (unit + 'k ordered_set) option" where
  "os_deserialize caps [] s = Some (Inr s)"
| "os_deserialize caps (k # ks) s =
     (case os_insert (caps 0) k s of
        None \<Rightarrow> None
      | Some (fresh, s') \<Rightarrow>
          if \<not> fresh then Some (Inl ()) else os_deserialize (\<lambda>i. caps (Suc i)) ks s')"

definition os_serialize :: "'k ordered_set \<Rightarrow> 'k option list" where
  "os_serialize s = os_drive s (replicate (os_len s) True) (os_iter s)"

section \<open>Refinement\<close>

definition hd_opt :: "'k list \<Rightarrow> 'k option" where
  "hd_opt xs = (case xs of [] \<Rightarrow> None | x # _ \<Rightarrow> Some x)"

definition last_opt :: "'k list \<Rightarrow> 'k option" where
  "last_opt xs = (if xs = [] then None else Some (last xs))"

definition linked :: "('k \<rightharpoonup> 'k links) \<Rightarrow> 'k list \<Rightarrow> bool" where
  "linked m xs \<longleftrightarrow> dom m = set xs \<and>
     (\<forall>us x vs. xs = us @ x # vs \<longrightarrow> m x = Some \<lparr>previous = last_opt us, next_key = hd_opt vs\<rparr>)"

definition os_repr :: "'k ordered_set \<Rightarrow> 'k list \<Rightarrow> bool" where
  "os_repr s xs \<longleftrightarrow> distinct xs \<and> os_first s = hd_opt xs \<and> os_last s = last_opt xs \<and>
     (if os_capacity s = 0 then length xs \<le> 2 \<and> os_entries s = Map.empty
      else linked (os_entries s) xs)"

lemma opt_simps [simp]:
  "hd_opt [] = None" "hd_opt (x # xs) = Some x" "last_opt [] = None" "last_opt (xs @ [x]) = Some x"
  "last_opt [x] = Some x" "last_opt (x # y # xs) = last_opt (y # xs)"
  "hd_opt xs = None \<longleftrightarrow> xs = []" "last_opt xs = None \<longleftrightarrow> xs = []"
  by (auto simp: hd_opt_def last_opt_def split: list.splits)

lemma hd_opt_append: "hd_opt (xs @ ys) = (if xs = [] then hd_opt ys else hd_opt xs)"
  by (cases xs) simp_all

lemma last_opt_Cons: "last_opt (x # xs) = (if xs = [] then Some x else last_opt xs)"
  by (simp add: last_opt_def)

lemma last_opt_append: "last_opt (xs @ ys) = (if ys = [] then last_opt xs else last_opt ys)"
  by (auto simp: last_opt_def)

lemma linked_empty [simp]: "linked Map.empty []"
  by (simp add: linked_def)

lemma linkedD: "linked m (us @ x # vs) \<Longrightarrow> m x = Some \<lparr>previous = last_opt us, next_key = hd_opt vs\<rparr>"
  by (simp add: linked_def)

lemma linked_dom: "linked m xs \<Longrightarrow> dom m = set xs"
  by (simp add: linked_def)

lemma linked_None_iff: "linked m xs \<Longrightarrow> m k = None \<longleftrightarrow> k \<notin> set xs"
  using linked_dom by (auto simp: domIff)

lemma linked_nil: "linked m [] \<longleftrightarrow> m = Map.empty"
  by (auto simp: linked_def)

lemma linked_push_first: "linked m [] \<Longrightarrow> linked (m(k \<mapsto> \<lparr>previous = None, next_key = None\<rparr>)) [k]"
  by (auto simp: linked_nil linked_def Cons_eq_append_conv)

lemma linked_push:
  assumes m: "linked m (xs @ [p])" and k: "k \<notin> set (xs @ [p])" and d: "distinct (xs @ [p])"
  shows "linked (m(k \<mapsto> \<lparr>previous = Some p, next_key = None\<rparr>,
    p \<mapsto> \<lparr>previous = last_opt xs, next_key = Some k\<rparr>)) (xs @ [p, k])"
    (is "linked ?m _")
  unfolding linked_def
proof (intro conjI allI impI)
  show "dom ?m = set (xs @ [p, k])" using linked_dom [OF m] by auto
  fix us x vs assume eq: "xs @ [p, k] = us @ x # vs"
  then consider "vs = []" "x = k" "us = xs @ [p]" | "vs = [k]" "x = p" "us = xs"
    | ws where "vs = ws @ [p, k]" "xs = us @ x # ws"
    by (cases vs rule: rev_cases; cases "butlast vs" rule: rev_cases)
      (auto simp: append_eq_append_conv2 Cons_eq_append_conv append_eq_Cons_conv)
  then show "?m x = Some \<lparr>previous = last_opt us, next_key = hd_opt vs\<rparr>"
  proof cases
    case 1 then show ?thesis using k by auto
  next
    case 2 then show ?thesis by simp
  next
    case (3 ws)
    then have "x \<noteq> p" "x \<noteq> k" using d k by auto
    moreover have "m x = Some \<lparr>previous = last_opt us, next_key = hd_opt (ws @ [p])\<rparr>"
      using m 3 by (intro linkedD) simp
    ultimately show ?thesis using 3 by (simp add: hd_opt_append)
  qed
qed

text \<open>Unlinking: the neighbours of the removed key point at each other.\<close>

definition relink :: "('k \<rightharpoonup> 'k links) \<Rightarrow> 'k list \<Rightarrow> 'k list \<Rightarrow> ('k \<rightharpoonup> 'k links)" where
  "relink m us vs =
     (let m = (case last_opt us of None \<Rightarrow> m
               | Some p \<Rightarrow> m(p \<mapsto> \<lparr>previous = last_opt (butlast us), next_key = hd_opt vs\<rparr>))
      in case hd_opt vs of None \<Rightarrow> m
         | Some n \<Rightarrow> m(n \<mapsto> \<lparr>previous = last_opt us, next_key = hd_opt (tl vs)\<rparr>))"

lemma linked_relink:
  assumes m: "linked m (us @ k # vs)" and d: "distinct (us @ k # vs)"
  shows "linked (relink (m(k := None)) us vs) (us @ vs)"
  unfolding linked_def
proof (intro conjI allI impI)
  have dm: "dom m = insert k (set us \<union> set vs)" using linked_dom [OF m] by auto
  show "dom (relink (m(k := None)) us vs) = set (us @ vs)"
    using dm d by (auto simp: relink_def Let_def last_opt_def hd_opt_def domIff
        split: if_splits list.splits)
  fix as x bs assume eq: "us @ vs = as @ x # bs"
  then consider cs where "us = as @ x # cs" "bs = cs @ vs" | cs where "vs = cs @ x # bs" "as = us @ cs"
    by (auto simp: append_eq_append_conv2 Cons_eq_append_conv append_eq_Cons_conv)
  then show "relink (m(k := None)) us vs x = Some \<lparr>previous = last_opt as, next_key = hd_opt bs\<rparr>"
  proof cases
    case (1 cs)
    have "m x = Some \<lparr>previous = last_opt as, next_key = hd_opt (cs @ k # vs)\<rparr>"
      using m 1 by (intro linkedD) simp
    then show ?thesis
      using 1 d by (cases cs rule: rev_cases; cases vs)
        (auto simp: relink_def hd_opt_append last_opt_append last_opt_Cons butlast_append)
  next
    case (2 cs)
    have "m x = Some \<lparr>previous = last_opt (us @ k # cs), next_key = hd_opt bs\<rparr>"
      using m 2 by (intro linkedD) simp
    then show ?thesis
      using 2 d by (cases cs; cases us rule: rev_cases)
        (auto simp: relink_def hd_opt_append last_opt_append last_opt_Cons butlast_append)
  qed
qed


lemma os_repr_default [simp]: "os_repr os_default []"
  by (simp add: os_repr_def os_default_def)

lemma os_reprD:
  assumes "os_repr s xs"
  shows "distinct xs" "os_first s = hd_opt xs" "os_last s = last_opt xs"
  using assms by (simp_all add: os_repr_def)

text \<open>Up to two keys, as the table-free mode stores them.\<close>

lemma small_cases:
  assumes "os_repr s xs" "os_capacity s = 0"
  obtains "xs = []" "os_first s = None" "os_last s = None"
  | a where "xs = [a]" "os_first s = Some a" "os_last s = Some a"
  | a b where "xs = [a, b]" "a \<noteq> b" "os_first s = Some a" "os_last s = Some b"
proof -
  have "length xs = 0 \<or> length xs = 1 \<or> length xs = 2" and "distinct xs"
    using assms by (auto simp: os_repr_def le_Suc_eq numeral_2_eq_2)
  then consider "xs = []" | a where "xs = [a]" | a b where "xs = [a, b]" "a \<noteq> b"
    by (auto simp: length_Suc_conv numeral_2_eq_2)
  then show thesis
    using that os_reprD [OF assms(1)] by cases (auto simp: last_opt_def)
qed

lemma os_insert_refines:
  assumes s: "os_repr s xs" and cap: "length (snd (ls_insert k xs)) \<le> cap"
  obtains s' where "os_insert cap k s = Some (fst (ls_insert k xs), s')"
    "os_repr s' (snd (ls_insert k xs))"
proof (cases "os_capacity s = 0")
  case small: True
  then have e: "os_entries s = Map.empty" using s by (simp add: os_repr_def)
  from s small show thesis
  proof (cases rule: small_cases)
    case 1
    with small e show thesis
      by (intro that [of "s\<lparr>os_first := Some k, os_last := Some k\<rparr>"])
        (auto simp: os_insert_def ls_insert_def os_repr_def)
  next
    case (2 a)
    with small e s show thesis
      by (intro that [of "if k = a then s else s\<lparr>os_last := Some k\<rparr>"])
        (auto simp: os_insert_def ls_insert_def os_repr_def)
  next
    case (3 a b)
    let ?m = "[a \<mapsto> \<lparr>previous = None, next_key = Some b\<rparr>,
        b \<mapsto> \<lparr>previous = Some a, next_key = Some k\<rparr>, k \<mapsto> \<lparr>previous = Some b, next_key = None\<rparr>]"
    have "linked ?m [a, b, k]" if "k \<noteq> a" "k \<noteq> b"
      using that 3 by (auto simp: linked_def Cons_eq_append_conv)
    with 3 small e s cap show thesis
      by (intro that [of "if k = a \<or> k = b then s
            else s\<lparr>os_capacity := cap, os_entries := ?m, os_last := Some k\<rparr>"])
        (auto simp: os_insert_def ls_insert_def os_repr_def)
  qed
next
  case big: False
  then have m: "linked (os_entries s) xs" and d: "distinct xs" using s by (auto simp: os_repr_def)
  show thesis
  proof (cases "k \<in> set xs")
    case True
    then obtain l where "os_entries s k = Some l" using linked_dom [OF m] by auto
    with True big s show thesis by (intro that [of s]) (auto simp: os_insert_def ls_insert_def)
  next
    case False
    then have none: "os_entries s k = None" using linked_None_iff [OF m] by simp
    show thesis
    proof (cases xs rule: rev_cases)
      case Nil
      then have "os_entries s = Map.empty" using m by (simp add: linked_nil)
      then show thesis
        using Nil False big cap os_reprD [OF s] linked_push_first [of "os_entries s" k]
        by (intro that [of "s\<lparr>os_capacity := cap,
              os_entries := (os_entries s)(k \<mapsto> \<lparr>previous = None, next_key = None\<rparr>),
              os_first := Some k, os_last := Some k\<rparr>"])
          (auto simp: os_insert_def ls_insert_def os_repr_def)
    next
      case (snoc us p)
      have l: "os_entries s p = Some \<lparr>previous = last_opt us, next_key = None\<rparr>"
        using m snoc linkedD [of "os_entries s" us p "[]"] by simp
      show thesis
        using snoc False big cap none l os_reprD [OF s] m d
          linked_push [of "os_entries s" us p k]
        by (intro that [of "s\<lparr>os_capacity := cap,
              os_entries := (os_entries s)(k \<mapsto> \<lparr>previous = Some p, next_key = None\<rparr>,
                p \<mapsto> \<lparr>previous = last_opt us, next_key = Some k\<rparr>),
              os_last := Some k\<rparr>"])
          (auto simp: os_insert_def ls_insert_def os_repr_def hd_opt_append last_opt_append)
    qed
  qed
qed

lemma os_unlink_relink:
  assumes m: "linked m (us @ k # vs)" and d: "distinct (us @ k # vs)"
    and e: "os_entries s = m(k := None)" and f: "os_first s = hd_opt (us @ k # vs)"
    and l: "os_last s = last_opt (us @ k # vs)"
  shows "os_unlink \<lparr>previous = last_opt us, next_key = hd_opt vs\<rparr> s =
    Some (s\<lparr>os_entries := relink (m(k := None)) us vs, os_first := hd_opt (us @ vs),
            os_last := last_opt (us @ vs)\<rparr>)"
proof -
  have left: "m p = Some \<lparr>previous = last_opt ps, next_key = Some k\<rparr>" if "us = ps @ [p]" for ps p
    using m that linkedD [of m ps p "k # vs"] by simp
  have right: "m n = Some \<lparr>previous = Some k, next_key = hd_opt ns\<rparr>" if "vs = n # ns" for n ns
    using m that linkedD [of m "us @ [k]" n ns] by simp
  show ?thesis
    using left right d e f l
    by (cases us rule: rev_cases; cases vs)
      (auto simp: os_unlink_def relink_def hd_opt_append last_opt_append split: if_splits)
qed

lemma filter_remove_split: "distinct (us @ k # vs) \<Longrightarrow> filter (\<lambda>x. x \<noteq> k) (us @ k # vs) = us @ vs"
proof -
  assume "distinct (us @ k # vs)"
  then have "filter (\<lambda>x. x \<noteq> k) us = us" "filter (\<lambda>x. x \<noteq> k) vs = vs"
    by (auto simp: filter_id_conv)
  then show ?thesis by simp
qed

lemma os_remove_refines:
  assumes s: "os_repr s xs" and cap: "length (snd (ls_remove k xs)) \<le> cap"
  obtains s' where "os_remove cap k s = Some (fst (ls_remove k xs), s')"
    "os_repr s' (snd (ls_remove k xs))"
proof (cases "os_capacity s = 0")
  case small: True
  then have e: "os_entries s = Map.empty" using s by (simp add: os_repr_def)
  from s small show thesis
  proof (cases rule: small_cases)
    case 1
    with small s show thesis by (intro that [of s]) (auto simp: os_remove_def ls_remove_def)
  next
    case (2 a)
    with small e s show thesis
      by (intro that [of "if k = a then s\<lparr>os_first := None, os_last := None\<rparr> else s"])
        (auto simp: os_remove_def ls_remove_def os_repr_def)
  next
    case (3 a b)
    with small e s show thesis
      by (intro that [of "if k = a then s\<lparr>os_first := Some b\<rparr>
            else if k = b then s\<lparr>os_last := Some a\<rparr> else s"])
        (auto simp: os_remove_def ls_remove_def os_repr_def)
  qed
next
  case big: False
  then have m: "linked (os_entries s) xs" and d: "distinct xs" using s by (auto simp: os_repr_def)
  show thesis
  proof (cases "k \<in> set xs")
    case False
    then have "os_entries s k = None" using linked_None_iff [OF m] by simp
    moreover have "filter (\<lambda>x. x \<noteq> k) xs = xs" using False by (auto intro: filter_True)
    ultimately show thesis
      using False big s by (intro that [of s]) (auto simp: os_remove_def ls_remove_def)
  next
    case True
    then obtain us vs where xs: "xs = us @ k # vs" by (meson split_list)
    note d = d [unfolded xs] and m = m [unfolded xs]
    let ?s = "s\<lparr>os_capacity := cap, os_entries := (os_entries s)(k := None)\<rparr>"
    let ?t = "?s\<lparr>os_entries := relink ((os_entries s)(k := None)) us vs,
      os_first := hd_opt (us @ vs), os_last := last_opt (us @ vs)\<rparr>"
    have res: "snd (ls_remove k xs) = us @ vs"
      using d by (simp add: xs ls_remove_def filter_remove_split del: filter_append)
    have step: "os_remove cap k s = Some (True, ?t)"
      using os_unlink_relink [OF m d, of ?s] os_reprD [OF s] linkedD [OF m] big xs
      by (simp add: os_remove_def)
    have "os_repr ?t (us @ vs)"
    proof (cases "cap = 0")
      case True
      with cap res have "us @ vs = []" by simp
      moreover from this have "relink ((os_entries s)(k := None)) us vs = Map.empty"
        using linked_relink [OF m d] by (simp add: linked_nil)
      ultimately show ?thesis using True by (simp add: os_repr_def)
    next
      case False
      then show ?thesis using linked_relink [OF m d] d by (simp add: os_repr_def)
    qed
    with step res True show thesis by (intro that) (simp_all add: ls_remove_def)
  qed
qed


lemma os_clear_refines: "os_repr (os_clear cap s) []"
  by (simp add: os_repr_def os_clear_def)

lemma os_contains_refines: "os_repr s xs \<Longrightarrow> os_contains k s \<longleftrightarrow> k \<in> set xs"
proof (cases "os_capacity s = 0")
  case True
  assume s: "os_repr s xs"
  from s True show ?thesis by (cases rule: small_cases) (auto simp: os_contains_def True)
next
  case False
  assume "os_repr s xs"
  with False have "linked (os_entries s) xs" by (simp add: os_repr_def)
  from linked_None_iff [OF this] False show ?thesis by (simp add: os_contains_def del: not_None_eq)
qed

lemma os_len_refines: "os_repr s xs \<Longrightarrow> os_len s = length xs"
proof (cases "os_capacity s = 0")
  case True
  assume s: "os_repr s xs"
  from s True show ?thesis by (cases rule: small_cases) (auto simp: os_len_def True)
qed (auto simp: os_len_def os_repr_def linked_dom distinct_card)

lemma os_is_empty_refines: "os_repr s xs \<Longrightarrow> os_is_empty s \<longleftrightarrow> xs = []"
  by (simp add: os_is_empty_def os_repr_def)

text \<open>The iterator stands on a contiguous part of the list, the keys not yet returned.\<close>

definition it_repr :: "'k list \<Rightarrow> 'k os_iter_state \<Rightarrow> 'k list \<Rightarrow> bool" where
  "it_repr xs it ys \<longleftrightarrow> it_remaining it = length ys \<and>
     (ys \<noteq> [] \<longrightarrow> it_front it = hd_opt ys \<and> it_back it = last_opt ys \<and>
       (\<exists>us vs. xs = us @ ys @ vs))"

lemma os_next_refines:
  assumes s: "os_repr s xs" and it: "it_repr xs it (y # ys)"
  shows "fst (os_next s it) = Some y \<and> it_repr xs (snd (os_next s it)) ys"
proof -
  obtain us vs where xs: "xs = us @ y # ys @ vs" using it by (auto simp: it_repr_def)
  have mid: "\<exists>us vs. xs = us @ ys @ vs" using xs by (metis append_Cons append_assoc append_Nil)
  have it': "it_front it = Some y" "it_back it = last_opt (y # ys)" "it_remaining it = Suc (length ys)"
    using it by (auto simp: it_repr_def)
  show ?thesis
  proof (cases "os_capacity s = 0")
    case small: True
    then have e: "os_entries s = Map.empty" using s by (simp add: os_repr_def)
    from s small show ?thesis
      by (cases rule: small_cases)
        (use xs it' mid e in \<open>auto simp: os_next_def it_repr_def Cons_eq_append_conv append_eq_Cons_conv\<close>)
  next
    case False
    then have "os_entries s y = Some \<lparr>previous = last_opt us, next_key = hd_opt (ys @ vs)\<rparr>"
      using s xs linkedD by (auto simp: os_repr_def)
    then show ?thesis
      using it' mid by (auto simp: os_next_def it_repr_def hd_opt_append last_opt_Cons)
  qed
qed

lemma os_next_back_refines:
  assumes s: "os_repr s xs" and it: "it_repr xs it (ys @ [y])"
  shows "fst (os_next_back s it) = Some y \<and> it_repr xs (snd (os_next_back s it)) ys"
proof -
  obtain us vs where xs: "xs = us @ ys @ y # vs" using it by (auto simp: it_repr_def)
  have mid: "\<exists>us vs. xs = us @ ys @ vs" using xs by blast
  have it': "it_front it = hd_opt (ys @ [y])" "it_back it = Some y" "it_remaining it = Suc (length ys)"
    using it by (auto simp: it_repr_def)
  show ?thesis
  proof (cases "os_capacity s = 0")
    case small: True
    then have e: "os_entries s = Map.empty" using s by (simp add: os_repr_def)
    from s small show ?thesis
      by (cases rule: small_cases)
        (use xs it' mid e in \<open>auto simp: os_next_back_def it_repr_def Cons_eq_append_conv append_eq_Cons_conv\<close>)
  next
    case False
    then have "os_entries s y = Some \<lparr>previous = last_opt (us @ ys), next_key = hd_opt vs\<rparr>"
      using s xs linkedD [of "os_entries s" "us @ ys" y vs] by (simp add: os_repr_def)
    then show ?thesis
      using it' mid by (auto simp: os_next_back_def it_repr_def hd_opt_append last_opt_append)
  qed
qed

lemma it_repr_exhausted:
  "it_repr xs it [] \<Longrightarrow> os_next s it = (None, it) \<and> os_next_back s it = (None, it)"
  by (simp add: it_repr_def os_next_def os_next_back_def)

lemma os_drive_refines: "os_repr s xs \<Longrightarrow> it_repr xs it ys \<Longrightarrow> os_drive s ds it = ls_drive ds ys"
proof (induction ds ys arbitrary: it rule: ls_drive.induct)
  case (2 d ds)
  then show ?case using it_repr_exhausted [of xs it s] by (cases d) simp_all
next
  case (3 ds x xs')
  then show ?case
    using os_next_refines [of s xs it x xs'] by (simp add: case_prod_beta)
next
  case (4 ds x xs')
  have "it_repr xs it (butlast (x # xs') @ [last (x # xs')])"
    using "4.prems"(2) by (simp only: append_butlast_last_id list.distinct not_False_eq_True)
  from os_next_back_refines [OF "4.prems"(1) this] "4.IH" [OF "4.prems"(1)] show ?case
    by (simp only: os_drive.simps ls_drive.simps case_prod_beta if_False Let_def)
qed simp

lemma os_iter_repr: "os_repr s xs \<Longrightarrow> it_repr xs (os_iter s) xs"
  by (auto simp: it_repr_def os_iter_def os_len_refines os_reprD intro: exI [of _ "[]"])

lemma ls_drive_forward: "ls_drive (replicate (length xs) True) xs = map Some xs"
  by (induction xs) simp_all

lemma ls_drive_backward: "ls_drive (replicate (length xs) False) xs = map Some (rev xs)"
proof (induction xs rule: rev_induct)
  case (snoc x xs)
  then show ?case by (cases xs) simp_all
qed simp

lemma os_deserialize_refines:
  assumes "os_repr s xs" "\<And>i. length xs + i < caps i"
  shows "if distinct (xs @ ks)
    then (\<exists>s'. os_deserialize caps ks s = Some (Inr s') \<and> os_repr s' (xs @ ks))
    else os_deserialize caps ks s = Some (Inl ())"
  using assms
proof (induction caps ks s arbitrary: xs rule: os_deserialize.induct)
  case (1 caps s)
  then show ?case using os_reprD(1) [OF "1.prems"(1)] by simp
next
  case (2 caps k ks s)
  have cap: "length (snd (ls_insert k xs)) \<le> caps 0"
    using "2.prems"(2) [of 0] by (simp add: ls_insert_def)
  obtain s' where s': "os_insert (caps 0) k s = Some (fst (ls_insert k xs), s')"
      "os_repr s' (snd (ls_insert k xs))"
    using os_insert_refines [OF "2.prems"(1) cap] .
  show ?case
  proof (cases "k \<in> set xs")
    case True
    with s' show ?thesis by (auto simp: ls_insert_def)
  next
    case False
    moreover have "length (xs @ [k]) + i < caps (Suc i)" for i using "2.prems"(2) [of "Suc i"] by simp
    ultimately show ?thesis
      using s' "2.IH" [OF s'(1) refl, of "xs @ [k]"] by (auto simp: ls_insert_def split: if_splits)
  qed
qed


section \<open>The interface\<close>

text \<open>
  What the memories of the network use: a state with the keys it lists, and the three mutating
  operations as steps that answer whether membership changed.
\<close>

inductive run_ops :: "('k set_op \<Rightarrow> 's \<Rightarrow> bool \<Rightarrow> 's \<Rightarrow> bool) \<Rightarrow> 's \<Rightarrow> 'k set_op list \<Rightarrow> bool list \<Rightarrow> 's \<Rightarrow> bool"
  for step where
  run_nil: "run_ops step s [] [] s"
| run_cons: "step op s r s' \<Longrightarrow> run_ops step s' ops rs s'' \<Longrightarrow> run_ops step s (op # ops) (r # rs) s''"

inductive_cases run_ops_ConsE: "run_ops step s (op # ops) rs s'"

fun ls_run :: "'k set_op list \<Rightarrow> 'k list \<Rightarrow> bool list \<times> 'k list" where
  "ls_run [] xs = ([], xs)"
| "ls_run (op # ops) xs =
     (let (r, ys) = ls_apply op xs; (rs, zs) = ls_run ops ys in (r # rs, zs))"

locale ordered_membership =
  fixes ok :: "'s \<Rightarrow> bool" and elems :: "'s \<Rightarrow> 'k list"
    and step :: "'k set_op \<Rightarrow> 's \<Rightarrow> bool \<Rightarrow> 's \<Rightarrow> bool"
  assumes elems_distinct: "ok s \<Longrightarrow> distinct (elems s)"
    and step_elems: "ok s \<Longrightarrow> step op s r s' \<Longrightarrow> ok s' \<and> (r, elems s') = ls_apply op (elems s)"
    and step_total: "ok s \<Longrightarrow> \<exists>r s'. step op s r s'"
begin

lemma run_elems:
  "run_ops step s ops rs s' \<Longrightarrow> ok s \<Longrightarrow> ok s' \<and> (rs, elems s') = ls_run ops (elems s)"
proof (induction rule: run_ops.induct)
  case (run_cons op s r s' ops rs s'')
  then show ?case using step_elems [of s op r s'] by (auto split: prod.splits)
qed simp

lemma run_total: "ok s \<Longrightarrow> \<exists>rs s'. run_ops step s ops rs s'"
proof (induction ops arbitrary: s)
  case Nil
  then show ?case by (auto intro: run_nil)
next
  case (Cons op ops)
  then obtain r s' where st: "step op s r s'" using step_total by blast
  with Cons obtain rs s'' where "run_ops step s' ops rs s''" using step_elems by blast
  with st show ?case by (auto intro: run_cons)
qed

lemma reinsert_moves_to_back:
  "ok s \<Longrightarrow> k \<in> set (elems s) \<Longrightarrow> run_ops step s [Remove k, Insert k] rs s' \<Longrightarrow>
     elems s' = filter (\<lambda>x. x \<noteq> k) (elems s) @ [k]"
  using run_elems [of s "[Remove k, Insert k]" rs s'] by (simp add: ls_remove_def ls_insert_def)

end

definition os_elems :: "'k ordered_set \<Rightarrow> 'k list" where
  "os_elems s = map the (os_serialize s)"

fun os_apply :: "nat \<Rightarrow> 'k set_op \<Rightarrow> 'k ordered_set \<Rightarrow> (bool \<times> 'k ordered_set) option" where
  "os_apply cap (Insert k) s = os_insert cap k s"
| "os_apply cap (Remove k) s = os_remove cap k s"
| "os_apply cap Clear s = Some (True, os_clear cap s)"

text \<open>A step leaves the table any capacity that holds the members.\<close>

definition os_step :: "'k set_op \<Rightarrow> 'k ordered_set \<Rightarrow> bool \<Rightarrow> 'k ordered_set \<Rightarrow> bool" where
  "os_step op s r s' \<longleftrightarrow>
     (\<exists>cap. length (snd (ls_apply op (os_elems s))) \<le> cap \<and> os_apply cap op s = Some (r, s'))"

definition os_ok :: "'k ordered_set \<Rightarrow> bool" where
  "os_ok s \<longleftrightarrow> os_repr s (os_elems s)"

lemma os_serialize_repr: "os_repr s xs \<Longrightarrow> os_serialize s = map Some xs"
  by (simp add: os_serialize_def os_drive_refines [OF _ os_iter_repr] os_len_refines ls_drive_forward)

lemma os_elems_repr: "os_repr s xs \<Longrightarrow> os_elems s = xs"
  by (simp add: os_elems_def os_serialize_repr comp_def)

lemma os_ok_repr: "os_repr s xs \<Longrightarrow> os_ok s"
  by (simp add: os_ok_def os_elems_repr)

lemma os_apply_refines:
  assumes "os_repr s xs" "length (snd (ls_apply op xs)) \<le> cap"
  obtains s' where "os_apply cap op s = Some (fst (ls_apply op xs), s')"
    "os_repr s' (snd (ls_apply op xs))"
proof (cases op)
  case (Insert k)
  then show thesis using os_insert_refines [of s xs k cap] assms that by auto
next
  case (Remove k)
  then show thesis using os_remove_refines [of s xs k cap] assms that by auto
next
  case Clear
  then show thesis using that os_clear_refines [of cap s] by auto
qed

interpretation linked_set: ordered_membership os_ok os_elems os_step
proof
  fix s :: "'k ordered_set" and op r s'
  assume ok: "os_ok s"
  then have s: "os_repr s (os_elems s)" by (simp add: os_ok_def)
  show "distinct (os_elems s)" using s by (rule os_reprD)
  show "\<exists>r s'. os_step op s r s'"
    using os_apply_refines [OF s order_refl, of op] unfolding os_step_def by blast
  assume "os_step op s r s'"
  then obtain cap where "length (snd (ls_apply op (os_elems s))) \<le> cap" "os_apply cap op s = Some (r, s')"
    by (auto simp: os_step_def)
  with os_apply_refines [OF s this(1)]
  show "os_ok s' \<and> (r, os_elems s') = ls_apply op (os_elems s)"
    by (metis os_elems_repr os_ok_repr option.inject prod.collapse prod.inject)
qed

interpretation list_set: ordered_membership distinct "\<lambda>xs. xs" "\<lambda>op xs r ys. (r, ys) = ls_apply op xs"
proof
  fix xs ys :: "'k list" and op r
  assume d: "distinct xs"
  then show "distinct xs" .
  show "\<exists>r ys. (r, ys) = ls_apply op xs" by (metis prod.collapse)
  assume "(r, ys) = ls_apply op xs"
  with ls_apply_distinct [OF d, of op] show "distinct ys \<and> (r, ys) = ls_apply op xs"
    by (metis snd_conv)
qed

section \<open>Properties\<close>



text \<open>
  The iterator is a double-ended view of the keys: whatever sequence of \<open>next\<close> and
  \<open>next_back\<close> calls is made on a well-formed set, the answers are those of taking keys from
  the two ends of the key list, each key once and then \<open>None\<close> for ever.
\<close>

theorem ordered_set_iter_double_ended:
  assumes "os_repr s xs"
  shows "os_drive s calls (os_iter s) = ls_drive calls xs \<and>
    os_drive s (replicate (os_len s) True) (os_iter s) = map Some xs \<and>
    os_drive s (replicate (os_len s) False) (os_iter s) = map Some (rev xs)"
  using assms
  by (simp add: os_drive_refines [OF _ os_iter_repr] os_len_refines ls_drive_forward ls_drive_backward)

theorem ordered_set_iter_double_ended_witness:
  "os_drive \<lparr>os_capacity = 0, os_entries = Map.empty, os_first = Some (1::nat), os_last = Some 2\<rparr>
     [False, True, True] (os_iter \<lparr>os_capacity = 0, os_entries = Map.empty, os_first = Some 1, os_last = Some 2\<rparr>)
   = [Some 2, Some 1, None]"
  by (subst ordered_set_iter_double_ended [THEN conjunct1, of _ "[1, 2]"])
    (simp_all add: os_repr_def last_opt_def)

text \<open>
  Snapshots of ordered sets. Decoding a key sequence succeeds exactly when it has no
  repetition (otherwise it is the decoder's error, never a panic), and then the decoded set
  lists the sequence it was decoded from; so decoding what was encoded restores the key order.
\<close>

theorem ordered_set_deserialize:
  assumes "\<And>i. i < caps i"
  shows "if distinct ks
    then (\<exists>s. os_deserialize caps ks os_default = Some (Inr s) \<and> os_ok s \<and> os_serialize s = map Some ks)
    else os_deserialize caps ks os_default = Some (Inl ())"
  using os_deserialize_refines [OF os_repr_default, of caps ks] assms os_ok_repr os_serialize_repr
  by (auto split: if_splits)

theorem ordered_set_deserialize_witness:
  "os_deserialize Suc [4::nat, 4] os_default = Some (Inl ())"
  using ordered_set_deserialize [of Suc "[4, 4]"] by simp

end
