(* ===== verification/Comparators.thy ===== *)
theory Comparators
  imports Prelude
begin

text \<open>
  Rust's \<open>std::cmp::Ordering\<close> and the way \<open>#[derive(Ord)]\<close> and slices build comparison
  functions from those of their parts. The locale states the contract of \<open>Ord\<close> that sorted
  containers rely on: a total preorder whose ties are exactly the values \<open>Eq\<close> identifies.
\<close>

datatype rust_ordering = Less | Equal | Greater

fun reverse_ord :: "rust_ordering \<Rightarrow> rust_ordering" where
  "reverse_ord Less = Greater"
| "reverse_ord Equal = Equal"
| "reverse_ord Greater = Less"

fun then_ord :: "rust_ordering \<Rightarrow> rust_ordering \<Rightarrow> rust_ordering" where
  "then_ord Equal r = r"
| "then_ord l _ = l"

definition cmp_of :: "'a::linorder \<Rightarrow> 'a \<Rightarrow> rust_ordering" where
  "cmp_of a b = (if a < b then Less else if a = b then Equal else Greater)"

text \<open>\<open>std::cmp::Reverse\<close>.\<close>

definition cmp_rev :: "('a \<Rightarrow> 'a \<Rightarrow> rust_ordering) \<Rightarrow> 'a \<Rightarrow> 'a \<Rightarrow> rust_ordering" where
  "cmp_rev c a b = c b a"

text \<open>Derived comparison of a pair of fields, and of slices.\<close>

definition cmp_pair ::
  "('a \<Rightarrow> 'a \<Rightarrow> rust_ordering) \<Rightarrow> ('b \<Rightarrow> 'b \<Rightarrow> rust_ordering) \<Rightarrow> 'a \<times> 'b \<Rightarrow> 'a \<times> 'b \<Rightarrow> rust_ordering"
where
  "cmp_pair c d p q = then_ord (c (fst p) (fst q)) (d (snd p) (snd q))"

fun cmp_slice :: "('a \<Rightarrow> 'a \<Rightarrow> rust_ordering) \<Rightarrow> 'a list \<Rightarrow> 'a list \<Rightarrow> rust_ordering" where
  "cmp_slice c [] [] = Equal"
| "cmp_slice c [] (_ # _) = Less"
| "cmp_slice c (_ # _) [] = Greater"
| "cmp_slice c (x # xs) (y # ys) = then_ord (c x y) (cmp_slice c xs ys)"

definition cmp_on :: "('a \<Rightarrow> 'b) \<Rightarrow> ('b \<Rightarrow> 'b \<Rightarrow> rust_ordering) \<Rightarrow> 'a \<Rightarrow> 'a \<Rightarrow> rust_ordering" where
  "cmp_on f c a b = c (f a) (f b)"

lemma reverse_ord_simps [simp]:
  "reverse_ord (reverse_ord r) = r" "reverse_ord r = Equal \<longleftrightarrow> r = Equal"
  "reverse_ord r = Less \<longleftrightarrow> r = Greater" "reverse_ord r = Greater \<longleftrightarrow> r = Less"
  by (cases r; simp)+

lemma then_ord_Equal_iff [simp]: "then_ord l r = Equal \<longleftrightarrow> l = Equal \<and> r = Equal"
  by (cases l) auto

lemma reverse_then_ord: "reverse_ord (then_ord l r) = then_ord (reverse_ord l) (reverse_ord r)"
  by (cases l) auto

lemma then_ord_Less_iff: "then_ord l r = Less \<longleftrightarrow> l = Less \<or> l = Equal \<and> r = Less"
  by (cases l) auto

locale comparator =
  fixes cmp :: "'a \<Rightarrow> 'a \<Rightarrow> rust_ordering" and eqv :: "'a \<Rightarrow> 'a \<Rightarrow> bool"
  assumes cmp_Equal_iff: "cmp a b = Equal \<longleftrightarrow> eqv a b"
    and cmp_swap: "cmp b a = reverse_ord (cmp a b)"
    and cmp_Less_trans: "cmp a b = Less \<Longrightarrow> cmp b c = Less \<Longrightarrow> cmp a c = Less"
    and cmp_Equal_left: "cmp a b = Equal \<Longrightarrow> cmp a c = cmp b c"
begin

lemma refl_eqv: "eqv a a"
  using cmp_swap [of a a] cmp_Equal_iff by (cases "cmp a a") auto

lemma sym_eqv: "eqv a b \<Longrightarrow> eqv b a"
  unfolding cmp_Equal_iff [symmetric] by (subst cmp_swap) simp

lemma trans_eqv: "eqv a b \<Longrightarrow> eqv b c \<Longrightarrow> eqv a c"
  using cmp_Equal_left cmp_Equal_iff by metis

lemma equivp_eqv: "equivp eqv"
  by (rule equivpI) (auto intro!: reflpI sympI transpI intro: refl_eqv sym_eqv trans_eqv)

lemma cmp_Equal_right: "cmp a b = Equal \<Longrightarrow> cmp c a = cmp c b"
  using cmp_Equal_left cmp_swap by metis

lemma le_trans: "cmp a b \<noteq> Greater \<Longrightarrow> cmp b c \<noteq> Greater \<Longrightarrow> cmp a c \<noteq> Greater"
  by (metis cmp_Less_trans cmp_Equal_left cmp_Equal_right rust_ordering.exhaust
      rust_ordering.distinct(3) rust_ordering.distinct(5))

lemma total: "cmp a b \<noteq> Greater \<or> cmp b a \<noteq> Greater"
  using cmp_swap [of a b] by (cases "cmp a b") auto

lemma irrefl_Less: "cmp a a \<noteq> Less"
  using refl_eqv [of a] cmp_Equal_iff [of a a] by auto

end

lemma comparator_cmp_of: "comparator (cmp_of :: 'a::linorder \<Rightarrow> _) (=)"
  by unfold_locales (auto simp: cmp_of_def split: if_splits)

interpretation ord_cmp: comparator "cmp_of :: 'a::linorder \<Rightarrow> 'a \<Rightarrow> rust_ordering" "(=)"
  by (rule comparator_cmp_of)

lemma comparator_rev: "comparator c e \<Longrightarrow> comparator (cmp_rev c) e"
proof -
  assume "comparator c e"
  then show ?thesis
    unfolding comparator_def cmp_rev_def by (metis reverse_ord.simps(2))
qed

lemma comparator_on: "comparator c e \<Longrightarrow> comparator (cmp_on f c) (\<lambda>a b. e (f a) (f b))"
  unfolding comparator_def cmp_on_def by metis

lemma comparator_pair:
  assumes c: "comparator c e" and d: "comparator d g"
  shows "comparator (cmp_pair c d) (\<lambda>p q. e (fst p) (fst q) \<and> g (snd p) (snd q))"
proof
  fix p q r
  note laws = comparator.cmp_Less_trans [OF c] comparator.cmp_Less_trans [OF d]
    comparator.cmp_Equal_left [OF c] comparator.cmp_Equal_left [OF d]
    comparator.cmp_Equal_right [OF c] comparator.cmp_Equal_right [OF d]
  show "cmp_pair c d p q = Equal \<longleftrightarrow> e (fst p) (fst q) \<and> g (snd p) (snd q)"
    by (simp add: cmp_pair_def comparator.cmp_Equal_iff [OF c] comparator.cmp_Equal_iff [OF d])
  show "cmp_pair c d q p = reverse_ord (cmp_pair c d p q)"
    unfolding cmp_pair_def reverse_then_ord
    by (simp only: comparator.cmp_swap [OF c, of "fst p" "fst q"]
        comparator.cmp_swap [OF d, of "snd p" "snd q"] reverse_ord_simps)
  show "cmp_pair c d p r = Less" if "cmp_pair c d p q = Less" "cmp_pair c d q r = Less"
    using that laws(1) [of "fst p" "fst q" "fst r"] laws(2) [of "snd p" "snd q" "snd r"]
      laws(3) [of "fst p" "fst q" "fst r"] laws(5) [of "fst q" "fst r" "fst p"]
    unfolding cmp_pair_def then_ord_Less_iff by (elim disjE conjE) simp_all
  show "cmp_pair c d p r = cmp_pair c d q r" if "cmp_pair c d p q = Equal"
    using that laws(3) [of "fst p" "fst q" "fst r"] laws(4) [of "snd p" "snd q" "snd r"]
    by (simp add: cmp_pair_def)
qed

context comparator
begin

lemma slice_Equal_iff: "cmp_slice cmp xs ys = Equal \<longleftrightarrow> list_all2 eqv xs ys"
proof (induction xs arbitrary: ys)
  case (Cons x xs)
  then show ?case by (cases ys) (auto simp: cmp_Equal_iff)
qed (auto simp: cmp_slice.simps neq_Nil_conv elim: cmp_slice.elims)

lemma slice_swap: "cmp_slice cmp ys xs = reverse_ord (cmp_slice cmp xs ys)"
proof (induction xs arbitrary: ys)
  case Nil
  then show ?case by (cases ys) auto
next
  case (Cons x xs)
  then show ?case
    by (cases ys) (auto simp: reverse_then_ord cmp_swap [of x])
qed

lemma slice_Equal_left: "cmp_slice cmp xs ys = Equal \<Longrightarrow> cmp_slice cmp xs zs = cmp_slice cmp ys zs"
proof (induction xs arbitrary: ys zs)
  case Nil
  then show ?case by (cases ys; cases zs) auto
next
  case (Cons x xs)
  then obtain y ys' where ys: "ys = y # ys'" by (cases ys) auto
  with Cons.prems have x: "cmp x z = cmp y z" and tl: "cmp_slice cmp xs us = cmp_slice cmp ys' us"
    for z us by (auto intro: cmp_Equal_left Cons.IH)
  show ?case by (cases zs) (simp_all add: ys x tl)
qed

lemma slice_Less_trans:
  "cmp_slice cmp xs ys = Less \<Longrightarrow> cmp_slice cmp ys zs = Less \<Longrightarrow> cmp_slice cmp xs zs = Less"
proof (induction xs arbitrary: ys zs)
  case Nil
  then show ?case by (cases ys; cases zs) auto
next
  case (Cons x xs)
  then obtain y ys' where ys: "ys = y # ys'" by (cases ys) auto
  with Cons.prems obtain z zs' where zs: "zs = z # zs'" by (cases zs) auto
  from Cons.prems ys zs show ?case
    unfolding ys zs cmp_slice.simps then_ord_Less_iff
    using Cons.IH cmp_Less_trans cmp_Equal_left cmp_Equal_right by metis
qed

lemma comparator_slice: "comparator (cmp_slice cmp) (list_all2 eqv)"
  by unfold_locales
    (fact slice_Equal_iff slice_swap slice_Less_trans slice_Equal_left)+

end

end
