(* ===== verification/Symbols.thy ===== *)
theory Symbols
  imports Comparators "HOL-Library.Sublist"
begin

text \<open>
  \<open>encoding.rs\<close>, \<open>string.rs\<close> and \<open>symbol.rs\<close>: the text encodings, the encoding-aware string
  type and the symbol table with its two interning pools, checkpoints and rollback. Text is the
  list of its bytes; a Rust \<open>str\<close> is a byte list that \<open>utf8_valid\<close> accepts.
\<close>

type_synonym bytes = "u8 list"

section \<open>Bytes\<close>

definition is_ascii :: "bytes \<Rightarrow> bool" where
  "is_ascii s = list_all (\<lambda>b. b < 0x80) s"

definition continuation :: "u8 \<Rightarrow> bool" where
  "continuation b \<longleftrightarrow> 0x80 \<le> b \<and> b \<le> 0xBF"

text \<open>The validation of \<open>std::str::from_utf8\<close> (table 3-7 of the Unicode standard).\<close>

fun utf8_valid :: "bytes \<Rightarrow> bool" where
  "utf8_valid [] = True"
| "utf8_valid (a # s) =
     (if a < 0x80 then utf8_valid s
      else if 0xC2 \<le> a \<and> a \<le> 0xDF then
        (case s of b # s' \<Rightarrow> continuation b \<and> utf8_valid s' | _ \<Rightarrow> False)
      else if 0xE0 \<le> a \<and> a \<le> 0xEF then
        (case s of b # c # s' \<Rightarrow>
           (if a = 0xE0 then 0xA0 \<le> b \<and> b \<le> 0xBF
            else if a = 0xED then 0x80 \<le> b \<and> b \<le> 0x9F else continuation b)
           \<and> continuation c \<and> utf8_valid s'
         | _ \<Rightarrow> False)
      else if 0xF0 \<le> a \<and> a \<le> 0xF4 then
        (case s of b # c # d # s' \<Rightarrow>
           (if a = 0xF0 then 0x90 \<le> b \<and> b \<le> 0xBF
            else if a = 0xF4 then 0x80 \<le> b \<and> b \<le> 0x8F else continuation b)
           \<and> continuation c \<and> continuation d \<and> utf8_valid s'
         | _ \<Rightarrow> False)
      else False)"

definition from_utf8 :: "bytes \<Rightarrow> bytes option" where
  "from_utf8 s = (if utf8_valid s then Some s else None)"

lemma is_ascii_simps [simp]:
  "is_ascii []" "is_ascii (b # s) \<longleftrightarrow> b < 0x80 \<and> is_ascii s"
  by (simp_all add: is_ascii_def)

lemma ascii_utf8_valid: "is_ascii s \<Longrightarrow> utf8_valid s"
  by (induction s) simp_all

section \<open>Encodings\<close>

datatype string_encoding = AsciiMode | Utf8Mode | AsciiSymbolsUtf8Strings

definition default_encoding :: string_encoding where
  "default_encoding = Utf8Mode"

datatype encoding_error = NonAsciiSymbol bytes | NonAsciiString bytes

section \<open>Strings\<close>

datatype ferric_string = AsciiString bytes | Utf8String bytes

definition ferric_string_new :: "bytes \<Rightarrow> string_encoding \<Rightarrow> encoding_error + ferric_string" where
  "ferric_string_new s encoding =
     (case encoding of
        AsciiMode \<Rightarrow> if \<not> is_ascii s then Inl (NonAsciiString s) else Inr (AsciiString s)
      | Utf8Mode \<Rightarrow> Inr (Utf8String s)
      | AsciiSymbolsUtf8Strings \<Rightarrow> Inr (Utf8String s))"

fun as_bytes :: "ferric_string \<Rightarrow> bytes" where
  "as_bytes (AsciiString s) = s"
| "as_bytes (Utf8String s) = s"

text \<open>\<open>None\<close> is the panic of \<open>expect\<close>.\<close>

fun as_str :: "ferric_string \<Rightarrow> bytes option" where
  "as_str (AsciiString s) = from_utf8 s"
| "as_str (Utf8String s) = Some s"

definition string_len :: "ferric_string \<Rightarrow> nat" where
  "string_len s = length (as_bytes s)"

definition string_is_empty :: "ferric_string \<Rightarrow> bool" where
  "string_is_empty s \<longleftrightarrow> string_len s = 0"

definition string_eq :: "ferric_string \<Rightarrow> ferric_string \<Rightarrow> bool" where
  "string_eq a b \<longleftrightarrow> as_bytes a = as_bytes b"

definition string_cmp :: "ferric_string \<Rightarrow> ferric_string \<Rightarrow> rust_ordering" where
  "string_cmp a b = cmp_slice cmp_of (as_bytes a) (as_bytes b)"

text \<open>The invariant the constructor establishes, and that \<open>as_str\<close> relies on.\<close>

fun string_wf :: "ferric_string \<Rightarrow> bool" where
  "string_wf (AsciiString s) = is_ascii s"
| "string_wf (Utf8String s) = utf8_valid s"

lemma string_comparator: "comparator string_cmp string_eq"
proof -
  have "comparator (cmp_on as_bytes (cmp_slice cmp_of)) (\<lambda>a b. list_all2 (=) (as_bytes a) (as_bytes b))"
    by (rule comparator_on) (rule ord_cmp.comparator_slice)
  moreover have "cmp_on as_bytes (cmp_slice cmp_of) = string_cmp"
    by (simp add: fun_eq_iff cmp_on_def string_cmp_def)
  moreover have "(\<lambda>a b. list_all2 (=) (as_bytes a) (as_bytes b)) = string_eq"
    by (simp add: fun_eq_iff string_eq_def list_all2_eq)
  ultimately show ?thesis by simp
qed

interpretation string_ord: comparator string_cmp string_eq
  by (rule string_comparator)

lemma as_str_wf: "string_wf s \<Longrightarrow> as_str s = Some (as_bytes s)"
  by (cases s) (auto simp: from_utf8_def ascii_utf8_valid)

lemma ferric_string_new_wf:
  "utf8_valid s \<Longrightarrow> ferric_string_new s encoding = Inr f \<Longrightarrow> string_wf f \<and> as_bytes f = s"
  by (auto simp: ferric_string_new_def split: string_encoding.splits if_splits)

lemma ferric_string_new_Inl_iff:
  "ferric_string_new s encoding = Inl e \<longleftrightarrow>
     encoding = AsciiMode \<and> \<not> is_ascii s \<and> e = NonAsciiString s"
  by (auto simp: ferric_string_new_def split: string_encoding.splits if_splits)

section \<open>Symbols and the symbol table\<close>

datatype symbol_id = AsciiId u32 | Utf8Id u32

datatype symbol = Symbol symbol_id

datatype instance_name = InstanceName symbol

fun as_symbol :: "instance_name \<Rightarrow> symbol" where
  "as_symbol (InstanceName s) = s"

record symbol_table =
  ascii_to_id :: "bytes \<rightharpoonup> u32"
  ascii_strings :: "bytes list"
  utf8_to_id :: "bytes \<rightharpoonup> u32"
  utf8_strings :: "bytes list"

record symbol_table_checkpoint =
  ascii_len :: nat
  utf8_len :: nat

definition symbol_table_new :: symbol_table where
  "symbol_table_new =
     \<lparr>ascii_to_id = Map.empty, ascii_strings = [], utf8_to_id = Map.empty, utf8_strings = []\<rparr>"

definition checkpoint :: "symbol_table \<Rightarrow> symbol_table_checkpoint" where
  "checkpoint st =
     \<lparr>ascii_len = length (ascii_strings st), utf8_len = length (utf8_strings st)\<rparr>"

text \<open>One of the two loops of \<open>restore\<close>: pop the last string and forget its id.\<close>

function restore_pool :: "nat \<Rightarrow> (bytes \<rightharpoonup> u32) \<Rightarrow> bytes list \<Rightarrow> (bytes \<rightharpoonup> u32) \<times> bytes list" where
  "restore_pool n ids strs =
     (if n < length strs then restore_pool n (ids(last strs := None)) (butlast strs)
      else (ids, strs))"
  by auto
termination by (relation "measure (\<lambda>(n, ids, strs). length strs)") auto

declare restore_pool.simps [simp del]

text \<open>\<open>None\<close> is the assertion failure.\<close>

definition restore :: "symbol_table_checkpoint \<Rightarrow> symbol_table \<Rightarrow> symbol_table option" where
  "restore cp st =
     (if ascii_len cp \<le> length (ascii_strings st) \<and> utf8_len cp \<le> length (utf8_strings st) then
        (let (aids, astrs) = restore_pool (ascii_len cp) (ascii_to_id st) (ascii_strings st);
             (uids, ustrs) = restore_pool (utf8_len cp) (utf8_to_id st) (utf8_strings st)
         in Some (st\<lparr>ascii_to_id := aids, ascii_strings := astrs,
                     utf8_to_id := uids, utf8_strings := ustrs\<rparr>))
      else None)"

text \<open>The id is the length cast to \<open>u32\<close>, which wraps at \<open>2 ^ 32\<close>.\<close>

definition intern_ascii :: "bytes \<Rightarrow> symbol_table \<Rightarrow> symbol_id \<times> symbol_table" where
  "intern_ascii s st =
     (case ascii_to_id st s of
        Some i \<Rightarrow> (AsciiId i, st)
      | None \<Rightarrow>
          let i = word_of_nat (length (ascii_strings st))
          in (AsciiId i, st\<lparr>ascii_to_id := (ascii_to_id st)(s \<mapsto> i),
                            ascii_strings := ascii_strings st @ [s]\<rparr>))"

definition intern_utf8 :: "bytes \<Rightarrow> symbol_table \<Rightarrow> symbol_id \<times> symbol_table" where
  "intern_utf8 s st =
     (case utf8_to_id st s of
        Some i \<Rightarrow> (Utf8Id i, st)
      | None \<Rightarrow>
          let i = word_of_nat (length (utf8_strings st))
          in (Utf8Id i, st\<lparr>utf8_to_id := (utf8_to_id st)(s \<mapsto> i),
                           utf8_strings := utf8_strings st @ [s]\<rparr>))"

text \<open>Indexing out of range panics (\<open>None\<close>).\<close>

fun resolve :: "symbol_table \<Rightarrow> symbol_id \<Rightarrow> bytes option" where
  "resolve st (AsciiId i) =
     (if unat i < length (ascii_strings st) then Some (ascii_strings st ! unat i) else None)"
| "resolve st (Utf8Id i) =
     (if unat i < length (utf8_strings st) then Some (utf8_strings st ! unat i) else None)"

fun resolve_str :: "symbol_table \<Rightarrow> symbol_id \<Rightarrow> bytes option" where
  "resolve_str st (AsciiId i) =
     (if unat i < length (ascii_strings st) then from_utf8 (ascii_strings st ! unat i) else None)"
| "resolve_str st (Utf8Id i) =
     (if unat i < length (utf8_strings st) then Some (utf8_strings st ! unat i) else None)"

definition symtab_len :: "symbol_table \<Rightarrow> nat" where
  "symtab_len st = length (ascii_strings st) + length (utf8_strings st)"

definition symtab_is_empty :: "symbol_table \<Rightarrow> bool" where
  "symtab_is_empty st \<longleftrightarrow> symtab_len st = 0"

fun resolve_symbol :: "symbol_table \<Rightarrow> symbol \<Rightarrow> bytes option" where
  "resolve_symbol st (Symbol i) = resolve st i"

fun resolve_symbol_str :: "symbol_table \<Rightarrow> symbol \<Rightarrow> bytes option" where
  "resolve_symbol_str st (Symbol i) = resolve_str st i"

definition intern_symbol ::
  "bytes \<Rightarrow> string_encoding \<Rightarrow> symbol_table \<Rightarrow> (encoding_error + symbol) \<times> symbol_table" where
  "intern_symbol s encoding st =
     (case encoding of
        Utf8Mode \<Rightarrow> (let (i, st') = intern_utf8 s st in (Inr (Symbol i), st'))
      | _ \<Rightarrow> if \<not> is_ascii s then (Inl (NonAsciiSymbol s), st)
             else (let (i, st') = intern_ascii s st in (Inr (Symbol i), st')))"

definition find_symbol :: "symbol_table \<Rightarrow> bytes \<Rightarrow> string_encoding \<Rightarrow> symbol option" where
  "find_symbol st s encoding =
     (case encoding of
        Utf8Mode \<Rightarrow> map_option (\<lambda>i. Symbol (Utf8Id i)) (utf8_to_id st s)
      | _ \<Rightarrow> if \<not> is_ascii s then None
             else map_option (\<lambda>i. Symbol (AsciiId i)) (ascii_to_id st s))"

section \<open>The interning invariant\<close>

definition symtab_ok :: "symbol_table \<Rightarrow> bool" where
  "symtab_ok st \<longleftrightarrow>
     pool_ok (ascii_to_id st) (ascii_strings st) \<and> pool_ok (utf8_to_id st) (utf8_strings st) \<and>
     list_all is_ascii (ascii_strings st) \<and> list_all utf8_valid (utf8_strings st)"

text \<open>Neither pool has used up its \<open>2 ^ 32\<close> ids.\<close>

definition symtab_room :: "symbol_table \<Rightarrow> bool" where
  "symtab_room st \<longleftrightarrow> length (ascii_strings st) < 2 ^ 32 \<and> length (utf8_strings st) < 2 ^ 32"

lemma restore_pool_take:
  "pool_ok ids strs \<Longrightarrow> pool_ok (fst (restore_pool n ids strs)) (take n strs) \<and>
     snd (restore_pool n ids strs) = take n strs"
proof (induction n ids strs rule: restore_pool.induct)
  case (1 n ids strs)
  show ?case
  proof (cases "n < length strs")
    case True
    then have ne: "strs \<noteq> []" by auto
    have "take n (butlast strs) = take n strs"
      using True by (simp add: take_butlast)
    then show ?thesis
      using "1.IH" [OF True pool_ok_pop [OF "1.prems" ne]] True
      by (simp add: restore_pool.simps [of n ids strs] fun_upd_def)
  next
    case False
    then show ?thesis using "1.prems" by (simp add: restore_pool.simps [of n ids strs])
  qed
qed

lemma unat_symbol_index [simp]: "n < 2 ^ 32 \<Longrightarrow> unat (word_of_nat n :: u32) = n"
  by (rule unat_pool_id) simp

lemma symtab_room_new [simp]: "symtab_room symbol_table_new"
  by (simp add: symtab_room_def symbol_table_new_def)

lemma symtab_ok_new [simp]: "symtab_ok symbol_table_new"
  by (simp add: symtab_ok_def symbol_table_new_def)

text \<open>Interning in one pool, as both \<open>intern\<close> functions do it.\<close>

lemma intern_ascii_cases:
  obtains (old) i where "ascii_to_id st s = Some i" "intern_ascii s st = (AsciiId i, st)"
  | (new) "ascii_to_id st s = None"
      "intern_ascii s st = (AsciiId (word_of_nat (length (ascii_strings st))),
         st\<lparr>ascii_to_id := (ascii_to_id st)(s \<mapsto> word_of_nat (length (ascii_strings st))),
            ascii_strings := ascii_strings st @ [s]\<rparr>)"
  by (cases "ascii_to_id st s") (simp_all add: intern_ascii_def Let_def)

lemma intern_utf8_cases:
  obtains (old) i where "utf8_to_id st s = Some i" "intern_utf8 s st = (Utf8Id i, st)"
  | (new) "utf8_to_id st s = None"
      "intern_utf8 s st = (Utf8Id (word_of_nat (length (utf8_strings st))),
         st\<lparr>utf8_to_id := (utf8_to_id st)(s \<mapsto> word_of_nat (length (utf8_strings st))),
            utf8_strings := utf8_strings st @ [s]\<rparr>)"
  by (cases "utf8_to_id st s") (simp_all add: intern_utf8_def Let_def)

text \<open>Both pools only ever grow at the end.\<close>

definition symtab_extends :: "symbol_table \<Rightarrow> symbol_table \<Rightarrow> bool" where
  "symtab_extends st st' \<longleftrightarrow>
     prefix (ascii_strings st) (ascii_strings st') \<and> prefix (utf8_strings st) (utf8_strings st')"

lemma symtab_extends_refl [simp]: "symtab_extends st st"
  by (simp add: symtab_extends_def)

lemma symtab_extends_trans: "symtab_extends a b \<Longrightarrow> symtab_extends b c \<Longrightarrow> symtab_extends a c"
  by (auto simp: symtab_extends_def intro: prefix_order.trans)

lemma symtab_extends_resolve:
  "symtab_extends st st' \<Longrightarrow> resolve_symbol st syb = Some s \<Longrightarrow> resolve_symbol st' syb = Some s"
proof (induction st syb rule: resolve_symbol.induct)
  case (1 st i)
  then show ?case
    by (cases i) (auto simp: symtab_extends_def prefix_def nth_append split: if_splits)
qed

lemma intern_ascii_ok:
  assumes ok: "symtab_ok st" and room: "symtab_room st" and s: "is_ascii s"
    and step: "intern_ascii s st = (i, st')"
  shows "symtab_ok st' \<and> symtab_extends st st' \<and> resolve st' i = Some s \<and>
    (\<exists>n. i = AsciiId n \<and> ascii_to_id st' s = Some n)"
proof (cases s st rule: intern_ascii_cases)
  case (old n)
  then show ?thesis using ok step by (auto simp: symtab_ok_def pool_okD)
next
  case new
  have "pool_ok (ascii_to_id st') (ascii_strings st')"
    using new ok room step pool_ok_push [where 'a = 32] by (auto simp: symtab_ok_def symtab_room_def)
  then show ?thesis
    using new ok room step s by (auto simp: symtab_ok_def symtab_room_def symtab_extends_def)
qed

lemma intern_utf8_ok:
  assumes ok: "symtab_ok st" and room: "symtab_room st" and s: "utf8_valid s"
    and step: "intern_utf8 s st = (i, st')"
  shows "symtab_ok st' \<and> symtab_extends st st' \<and> resolve st' i = Some s \<and>
    (\<exists>n. i = Utf8Id n \<and> utf8_to_id st' s = Some n)"
proof (cases s st rule: intern_utf8_cases)
  case (old n)
  then show ?thesis using ok step by (auto simp: symtab_ok_def pool_okD)
next
  case new
  have "pool_ok (utf8_to_id st') (utf8_strings st')"
    using new ok room step pool_ok_push [where 'a = 32] by (auto simp: symtab_ok_def symtab_room_def)
  then show ?thesis
    using new ok room step s by (auto simp: symtab_ok_def symtab_room_def symtab_extends_def)
qed

text \<open>The encoding check, and which pool an accepted symbol goes to.\<close>

definition symbol_accepted :: "bytes \<Rightarrow> string_encoding \<Rightarrow> bool" where
  "symbol_accepted s encoding \<longleftrightarrow> encoding = Utf8Mode \<or> is_ascii s"

lemma intern_symbol_rejected:
  "\<not> symbol_accepted s encoding \<Longrightarrow> intern_symbol s encoding st = (Inl (NonAsciiSymbol s), st)"
  by (cases encoding) (simp_all add: intern_symbol_def symbol_accepted_def)

lemma intern_symbol_accepted:
  assumes ok: "symtab_ok st" and room: "symtab_room st" and s: "utf8_valid s"
    and acc: "symbol_accepted s encoding"
  obtains syb st' where "intern_symbol s encoding st = (Inr syb, st')" "symtab_ok st'"
    "symtab_extends st st'" "resolve_symbol st' syb = Some s" "find_symbol st' s encoding = Some syb"
proof (cases "encoding = Utf8Mode")
  case True
  obtain i st' where step: "intern_utf8 s st = (i, st')" by (cases "intern_utf8 s st")
  with True intern_utf8_ok [OF ok room s step] show thesis
    by (intro that [of "Symbol i" st']) (auto simp: intern_symbol_def find_symbol_def)
next
  case False
  obtain i st' where step: "intern_ascii s st = (i, st')" by (cases "intern_ascii s st")
  from False acc have a: "is_ascii s" by (simp add: symbol_accepted_def)
  with False intern_ascii_ok [OF ok room a step] step show thesis
    by (intro that [of "Symbol i" st'])
      (auto simp: intern_symbol_def find_symbol_def split: string_encoding.splits)
qed

lemma resolve_str_ok: "symtab_ok st \<Longrightarrow> resolve_symbol_str st syb = resolve_symbol st syb"
  by (induction st syb rule: resolve_symbol.induct, case_tac i)
    (auto simp: symtab_ok_def from_utf8_def list_all_length ascii_utf8_valid)

text \<open>Equal bytes in one pool have one id.\<close>

lemma find_symbol_resolve:
  assumes "symtab_ok st" "find_symbol st s encoding = Some syb"
  shows "resolve_symbol st syb = Some s"
  using assms
  by (cases encoding) (auto simp: find_symbol_def symtab_ok_def pool_okD split: if_splits)

inductive interns :: "symbol_table \<Rightarrow> symbol_table \<Rightarrow> bool" for st where
  interns_refl: "interns st st"
| interns_step: "interns st st' \<Longrightarrow> symtab_room st' \<Longrightarrow> utf8_valid s \<Longrightarrow>
    intern_symbol s encoding st' = (r, st'') \<Longrightarrow> interns st st''"

lemma interns_ok: "interns st st' \<Longrightarrow> symtab_ok st \<Longrightarrow> symtab_ok st' \<and> symtab_extends st st'"
proof (induction rule: interns.induct)
  case (interns_step st' s encoding r st'')
  then show ?case
    using intern_symbol_accepted [of st' s encoding] intern_symbol_rejected [of s encoding st']
    by (cases "symbol_accepted s encoding") (auto intro: symtab_extends_trans)
qed simp

lemma restore_extends:
  assumes "symtab_ok st" "symtab_ok st'" "symtab_extends st st'"
  shows "restore (checkpoint st) st' = Some st"
proof -
  let ?a = "restore_pool (ascii_len (checkpoint st)) (ascii_to_id st') (ascii_strings st')"
  let ?u = "restore_pool (utf8_len (checkpoint st)) (utf8_to_id st') (utf8_strings st')"
  have le: "ascii_len (checkpoint st) \<le> length (ascii_strings st')"
      "utf8_len (checkpoint st) \<le> length (utf8_strings st')"
    using assms(3) by (auto simp: checkpoint_def symtab_extends_def prefix_length_le)
  have tk: "take (ascii_len (checkpoint st)) (ascii_strings st') = ascii_strings st"
      "take (utf8_len (checkpoint st)) (utf8_strings st') = utf8_strings st"
    using assms(3) by (auto simp: checkpoint_def symtab_extends_def prefix_def)
  have a: "pool_ok (fst ?a) (ascii_strings st)" "snd ?a = ascii_strings st"
      and u: "pool_ok (fst ?u) (utf8_strings st)" "snd ?u = utf8_strings st"
    using restore_pool_take [of "ascii_to_id st'" "ascii_strings st'" "ascii_len (checkpoint st)"]
      restore_pool_take [of "utf8_to_id st'" "utf8_strings st'" "utf8_len (checkpoint st)"]
      assms(2) tk by (auto simp: symtab_ok_def)
  have "fst ?a = ascii_to_id st" "fst ?u = utf8_to_id st"
    using a u assms(1) by (auto simp: symtab_ok_def intro: pool_ok_unique)
  with a u le show ?thesis by (simp add: restore_def case_prod_beta)
qed

section \<open>Properties\<close>

text \<open>
  C11: Interning is correct on every branch. With text that is not ASCII in an ASCII symbol mode
  it reports \<open>NonAsciiSymbol\<close> and changes nothing; otherwise, while a pool id is left, it
  succeeds, the symbol resolves (as bytes and as text) to exactly the interned bytes, a later
  lookup finds it, the interning invariant is kept, and every symbol handed out before still
  resolves to what it did.
\<close>

theorem intern_symbol_correct:
  assumes "symtab_ok st" and "symtab_room st" and "utf8_valid s"
  shows "if symbol_accepted s encoding
    then (case intern_symbol s encoding st of
            (Inr syb, st') \<Rightarrow> symtab_ok st' \<and> resolve_symbol st' syb = Some s \<and>
               resolve_symbol_str st' syb = Some s \<and> find_symbol st' s encoding = Some syb \<and>
               (\<forall>old t. resolve_symbol st old = Some t \<longrightarrow> resolve_symbol st' old = Some t)
          | (Inl _, _) \<Rightarrow> False)
    else intern_symbol s encoding st = (Inl (NonAsciiSymbol s), st)"
proof (cases "symbol_accepted s encoding")
  case True
  from intern_symbol_accepted [OF assms True] obtain syb st'
    where "intern_symbol s encoding st = (Inr syb, st')" "symtab_ok st'" "symtab_extends st st'"
      "resolve_symbol st' syb = Some s" "find_symbol st' s encoding = Some syb" .
  with True show ?thesis by (auto simp: resolve_str_ok intro: symtab_extends_resolve)
qed (simp add: intern_symbol_rejected)

theorem intern_symbol_correct_witness:
  "case intern_symbol [104, 105] Utf8Mode symbol_table_new of
     (Inr syb, st') \<Rightarrow> resolve_symbol st' syb = Some [104, 105] | (Inl _, _) \<Rightarrow> False"
  using intern_symbol_correct [of symbol_table_new "[104, 105]" Utf8Mode]
  by (simp add: symbol_accepted_def split: prod.splits sum.splits)

text \<open>
  Symbols compare like their text. Two successive interning calls in the same encoding
  return equal symbols exactly when the texts are byte-for-byte equal.
\<close>

theorem intern_symbol_injective:
  assumes "symtab_ok st" and "symtab_room st" and "utf8_valid s"
    and "intern_symbol s encoding st = (Inr a, st')"
    and "symtab_room st'" and "utf8_valid t"
    and "intern_symbol t encoding st' = (Inr b, st'')"
  shows "a = b \<longleftrightarrow> s = t"
proof -
  have acc: "symbol_accepted s encoding" "symbol_accepted t encoding"
    using assms(4,7) by (metis Inl_Inr_False intern_symbol_rejected prod.inject)+
  from intern_symbol_accepted [OF assms(1-3) acc(1)] assms(4)
  have st': "symtab_ok st'" "resolve_symbol st' a = Some s" "find_symbol st' s encoding = Some a"
    by auto
  from intern_symbol_accepted [OF st'(1) assms(5,6) acc(2)] assms(7)
  have st'': "symtab_extends st' st''" "resolve_symbol st'' b = Some t"
    "find_symbol st'' t encoding = Some b" "symtab_ok st''" by auto
  have "resolve_symbol st'' a = Some s" using st' st'' by (auto intro: symtab_extends_resolve)
  moreover have "a = b" if "s = t"
  proof -
    have "intern_symbol s encoding st' = (Inr a, st')"
      using st'(3) acc(1)
      by (auto simp: intern_symbol_def find_symbol_def intern_ascii_def intern_utf8_def
          symbol_accepted_def split: string_encoding.splits if_splits)
    with that assms(7) show ?thesis by simp
  qed
  ultimately show ?thesis using st'' by auto
qed

text \<open>
  Rollback. Restoring a checkpoint after any sequence of interning calls (successful,
  repeated or rejected) gives back the very table the checkpoint was taken on.
\<close>

theorem restore_checkpoint:
  assumes "symtab_ok st" and "interns st st'"
  shows "restore (checkpoint st) st' = Some st"
  using interns_ok [OF assms(2,1)] by (simp add: restore_extends assms(1))

theorem restore_checkpoint_witness:
  "restore (checkpoint symbol_table_new)
     (snd (intern_symbol [104, 105] Utf8Mode symbol_table_new)) = Some symbol_table_new"
  by (rule restore_checkpoint [OF symtab_ok_new],
      rule interns_step [OF interns_refl symtab_room_new _ prod.collapse [symmetric]]) simp

theorem intern_symbol_injective_witness:
  "fst (intern_symbol [97] AsciiMode symbol_table_new) \<noteq>
   fst (intern_symbol [98] AsciiMode (snd (intern_symbol [97] AsciiMode symbol_table_new)))"
proof -
  obtain a b st' st'' where steps: "intern_symbol [97] AsciiMode symbol_table_new = (Inr a, st')"
      "intern_symbol [98] AsciiMode st' = (Inr b, st'')" "symtab_room st'"
    by (simp add: intern_symbol_def intern_ascii_def symbol_table_new_def symtab_room_def Let_def)
  have "a = b \<longleftrightarrow> [97::u8] = [98]"
    by (rule intern_symbol_injective [OF symtab_ok_new symtab_room_new _ steps(1,3) _ steps(2)]) simp_all
  with steps show ?thesis by simp
qed

text \<open>
  The constructor of strings enforces the encoding and its result is always readable:
  it fails exactly for text that is not ASCII in ASCII mode, and otherwise \<open>as_str\<close> does not
  panic and, like \<open>as_bytes\<close>, returns the very bytes given.
\<close>

theorem ferric_string_new_as_str:
  assumes "utf8_valid s"
  shows "case ferric_string_new s encoding of
      Inl e \<Rightarrow> encoding = AsciiMode \<and> \<not> is_ascii s \<and> e = NonAsciiString s
    | Inr f \<Rightarrow> (encoding = AsciiMode \<longrightarrow> is_ascii s) \<and> as_str f = Some s \<and> as_bytes f = s"
proof (cases "ferric_string_new s encoding")
  case (Inl e)
  with ferric_string_new_Inl_iff [of s encoding e] show ?thesis by auto
next
  case (Inr f)
  with ferric_string_new_wf [OF assms Inr] show ?thesis
    by (auto simp: as_str_wf ferric_string_new_def split: if_splits)
qed

theorem ferric_string_new_as_str_witness:
  "as_str (AsciiString [72, 105]) = Some [72, 105]"
  using ferric_string_new_as_str [of "[72, 105]" AsciiMode] by (simp add: ferric_string_new_def)

end
