(* ===== verification/Values.thy ===== *)
theory Values
  imports Symbols
begin

text \<open>
  \<open>value.rs\<close>: runtime values, their structural equality, the hashable atom keys of constant
  tests and slot indexes, and the surrogate enums through which values are serialised. A float
  is its IEEE 754 bit pattern, because that is all this file looks at. The identifiers and the
  timestamp of \<open>fact.rs\<close> that occur inside fact addresses are here too.
\<close>

section \<open>Identifiers\<close>

text \<open>Keys of slot maps: opaque, compared for equality only.\<close>

datatype fact_id = FactId nat
datatype template_id = TemplateId nat

type_synonym f64 = u64

text \<open>A timestamp is its counter.\<close>

type_synonym timestamp = u64

definition timestamp_zero :: timestamp where
  "timestamp_zero = 0"

text \<open>\<open>Timestamp::next\<close>; \<open>None\<close> is its panic.\<close>

definition timestamp_next :: "timestamp \<Rightarrow> timestamp option" where
  "timestamp_next t = checked_add_u t 1"

section \<open>Values\<close>

record external_address =
  type_id :: u32
  token :: u64

record fact_address_data =
  addr_fact_id :: fact_id
  addr_epoch :: u64
  addr_timestamp :: timestamp
  addr_public_index :: u64

text \<open>The dummy address is \<open>None\<close>.\<close>

type_synonym fact_address = "fact_address_data option"

definition fact_address_new :: "fact_id \<Rightarrow> u64 \<Rightarrow> timestamp \<Rightarrow> u64 \<Rightarrow> fact_address" where
  "fact_address_new i e t p =
     Some \<lparr>addr_fact_id = i, addr_epoch = e, addr_timestamp = t, addr_public_index = p\<rparr>"

fun fact_address_eq :: "fact_address \<Rightarrow> fact_address \<Rightarrow> bool" where
  "fact_address_eq None None = True"
| "fact_address_eq (Some a) (Some b) =
     ((addr_epoch a, addr_fact_id a, addr_timestamp a) =
      (addr_epoch b, addr_fact_id b, addr_timestamp b))"
| "fact_address_eq _ _ = False"

datatype val =
    VSymbol symbol
  | VString ferric_string
  | VInteger i64
  | VFloat f64
  | VMultifield "val list"
  | VExternalAddress external_address
  | VVoid
  | VInstanceName instance_name
  | VFactAddress fact_address

lemma size_zip_left [termination_simp]: "(x, y) \<in> set (zip xs ys) \<Longrightarrow> size x < Suc (size_list size xs)"
  by (meson le_imp_less_Suc size_list_estimation' order_refl set_zip_leftD)

fun structural_eq :: "val \<Rightarrow> val \<Rightarrow> bool" where
  "structural_eq (VSymbol a) w = (case w of VSymbol b \<Rightarrow> a = b | _ \<Rightarrow> False)"
| "structural_eq (VInstanceName a) w = (case w of VInstanceName b \<Rightarrow> a = b | _ \<Rightarrow> False)"
| "structural_eq (VFactAddress a) w = (case w of VFactAddress b \<Rightarrow> fact_address_eq a b | _ \<Rightarrow> False)"
| "structural_eq (VString a) w = (case w of VString b \<Rightarrow> string_eq a b | _ \<Rightarrow> False)"
| "structural_eq (VInteger a) w = (case w of VInteger b \<Rightarrow> a = b | _ \<Rightarrow> False)"
| "structural_eq (VFloat a) w = (case w of VFloat b \<Rightarrow> a = b | _ \<Rightarrow> False)"
| "structural_eq (VMultifield a) w =
     (case w of
        VMultifield b \<Rightarrow> length a = length b \<and> (\<forall>(x, y) \<in> set (zip a b). structural_eq x y)
      | _ \<Rightarrow> False)"
| "structural_eq (VExternalAddress a) w = (case w of VExternalAddress b \<Rightarrow> a = b | _ \<Rightarrow> False)"
| "structural_eq VVoid w = (case w of VVoid \<Rightarrow> True | _ \<Rightarrow> False)"

definition is_void :: "val \<Rightarrow> bool" where
  "is_void v \<longleftrightarrow> v = VVoid"

fun type_name :: "val \<Rightarrow> string" where
  "type_name (VSymbol _) = ''SYMBOL''"
| "type_name (VInstanceName _) = ''INSTANCE-NAME''"
| "type_name (VFactAddress _) = ''FACT-ADDRESS''"
| "type_name (VString _) = ''STRING''"
| "type_name (VInteger _) = ''INTEGER''"
| "type_name (VFloat _) = ''FLOAT''"
| "type_name (VMultifield _) = ''MULTIFIELD''"
| "type_name (VExternalAddress _) = ''EXTERNAL-ADDRESS''"
| "type_name VVoid = ''VOID''"

text \<open>\<open>From<i32>\<close>: sign extension.\<close>

definition value_of_i32 :: "i32 \<Rightarrow> val" where
  "value_of_i32 v = VInteger (scast v)"

text \<open>
  The normal form that structural equality compares: string encodings and the presentation
  index of fact addresses forgotten.
\<close>

definition canon_string :: "ferric_string \<Rightarrow> ferric_string" where
  "canon_string s = Utf8String (as_bytes s)"

definition canon_address :: "fact_address \<Rightarrow> fact_address" where
  "canon_address = map_option (\<lambda>a. a\<lparr>addr_public_index := 0\<rparr>)"

fun canon :: "val \<Rightarrow> val" where
  "canon (VString s) = VString (canon_string s)"
| "canon (VFactAddress a) = VFactAddress (canon_address a)"
| "canon (VMultifield vs) = VMultifield (map canon vs)"
| "canon v = v"

lemma canon_string_eq_iff [simp]: "canon_string a = canon_string b \<longleftrightarrow> string_eq a b"
  by (simp add: canon_string_def string_eq_def)

lemma forget_public_index_eq_iff:
  "a\<lparr>addr_public_index := 0\<rparr> = b\<lparr>addr_public_index := 0\<rparr> \<longleftrightarrow>
     addr_epoch a = addr_epoch b \<and> addr_fact_id a = addr_fact_id b \<and>
     addr_timestamp a = addr_timestamp (b :: fact_address_data)"
  by (cases a; cases b) auto

lemma canon_address_eq_iff [simp]: "canon_address a = canon_address b \<longleftrightarrow> fact_address_eq a b"
  by (induction a b rule: fact_address_eq.induct)
    (auto simp: canon_address_def forget_public_index_eq_iff)

lemma structural_eq_iff: "structural_eq a b \<longleftrightarrow> canon a = canon b"
proof (induction a b rule: structural_eq.induct)
  case (7 a w)
  show ?case
  proof (cases w)
    case (VMultifield b)
    have "map canon a = map canon b \<longleftrightarrow> list_all2 (\<lambda>x y. canon x = canon y) a b"
      by (simp add: list.rel_eq [symmetric] list.rel_map)
    also have "\<dots> \<longleftrightarrow> length a = length b \<and> (\<forall>(x, y) \<in> set (zip a b). structural_eq x y)"
      using "7.IH" [OF VMultifield] by (auto simp: list_all2_iff)
    finally show ?thesis by (simp add: VMultifield)
  qed simp_all
qed (simp_all split: val.split)

lemma structural_eq_refl [simp]: "structural_eq v v"
  by (simp add: structural_eq_iff)

lemma structural_eq_sym: "structural_eq a b \<Longrightarrow> structural_eq b a"
  by (simp add: structural_eq_iff)

lemma structural_eq_trans: "structural_eq a b \<Longrightarrow> structural_eq b c \<Longrightarrow> structural_eq a c"
  by (simp add: structural_eq_iff)

lemma structural_eq_type_name: "structural_eq a b \<Longrightarrow> type_name a = type_name b"
  by (cases a; cases b) simp_all

section \<open>Atom keys\<close>

datatype atom_key =
    KFactAddress fact_address
  | KSymbol symbol
  | KInstanceName instance_name
  | KString ferric_string
  | KInteger i64
  | KFloatBits u64
  | KExternalAddress u32 u64

fun atom_key_of :: "val \<Rightarrow> atom_key option" where
  "atom_key_of (VSymbol s) = Some (KSymbol s)"
| "atom_key_of (VInstanceName n) = Some (KInstanceName n)"
| "atom_key_of (VFactAddress a) = Some (KFactAddress a)"
| "atom_key_of (VString s) = Some (KString s)"
| "atom_key_of (VInteger i) = Some (KInteger i)"
| "atom_key_of (VFloat f) = Some (KFloatBits f)"
| "atom_key_of (VExternalAddress ea) = Some (KExternalAddress (type_id ea) (token ea))"
| "atom_key_of (VMultifield _) = None"
| "atom_key_of VVoid = None"

fun atom_to_value :: "atom_key \<Rightarrow> val" where
  "atom_to_value (KSymbol s) = VSymbol s"
| "atom_to_value (KInstanceName n) = VInstanceName n"
| "atom_to_value (KFactAddress a) = VFactAddress a"
| "atom_to_value (KString s) = VString s"
| "atom_to_value (KInteger i) = VInteger i"
| "atom_to_value (KFloatBits b) = VFloat b"
| "atom_to_value (KExternalAddress ty tok) = VExternalAddress \<lparr>type_id = ty, token = tok\<rparr>"

text \<open>Derived equality of keys, which uses the equalities of strings and of fact addresses.\<close>

fun atom_key_eq :: "atom_key \<Rightarrow> atom_key \<Rightarrow> bool" where
  "atom_key_eq (KFactAddress a) k = (case k of KFactAddress b \<Rightarrow> fact_address_eq a b | _ \<Rightarrow> False)"
| "atom_key_eq (KSymbol a) k = (case k of KSymbol b \<Rightarrow> a = b | _ \<Rightarrow> False)"
| "atom_key_eq (KInstanceName a) k = (case k of KInstanceName b \<Rightarrow> a = b | _ \<Rightarrow> False)"
| "atom_key_eq (KString a) k = (case k of KString b \<Rightarrow> string_eq a b | _ \<Rightarrow> False)"
| "atom_key_eq (KInteger a) k = (case k of KInteger b \<Rightarrow> a = b | _ \<Rightarrow> False)"
| "atom_key_eq (KFloatBits a) k = (case k of KFloatBits b \<Rightarrow> a = b | _ \<Rightarrow> False)"
| "atom_key_eq (KExternalAddress a x) k =
     (case k of KExternalAddress b y \<Rightarrow> a = b \<and> x = y | _ \<Rightarrow> False)"

text \<open>A hash map keyed by atom keys is a map on their normal forms.\<close>

fun key_norm :: "atom_key \<Rightarrow> atom_key" where
  "key_norm (KFactAddress a) = KFactAddress (canon_address a)"
| "key_norm (KString s) = KString (canon_string s)"
| "key_norm k = k"

lemma atom_key_eq_iff: "atom_key_eq a b \<longleftrightarrow> key_norm a = key_norm b"
  by (cases a; cases b) simp_all

lemma atom_key_of_to_value [simp]: "atom_key_of (atom_to_value k) = Some k"
  by (cases k) simp_all

lemma atom_to_value_of: "atom_key_of v = Some k \<Longrightarrow> atom_to_value k = v"
  by (induction v rule: atom_key_of.induct) auto

lemma atom_key_of_None_iff: "atom_key_of v = None \<longleftrightarrow> (\<exists>vs. v = VMultifield vs) \<or> v = VVoid"
  by (cases v) simp_all

lemma canon_atom: "canon (atom_to_value k) = atom_to_value (key_norm k)"
  by (cases k) simp_all

lemma atom_to_value_inj: "atom_to_value a = atom_to_value b \<longleftrightarrow> a = b"
  by (metis atom_key_of_to_value option.inject)

lemma atom_key_eq_structural:
  "atom_key_of v = Some a \<Longrightarrow> atom_key_of w = Some b \<Longrightarrow> atom_key_eq a b \<longleftrightarrow> structural_eq v w"
  using canon_atom [of a] canon_atom [of b] atom_to_value_of [of v a] atom_to_value_of [of w b]
  by (simp add: structural_eq_iff atom_key_eq_iff atom_to_value_inj)

section \<open>Serialisation surrogates\<close>

datatype value_surrogate =
    SSymbol symbol
  | SString ferric_string
  | SInteger i64
  | SFloat f64
  | SMultifield "value_surrogate list"
  | SVoid
  | SInstanceName instance_name
  | SFactAddress fact_address

text \<open>\<open>None\<close> is the serialisation error.\<close>

fun to_surrogate :: "val \<Rightarrow> value_surrogate option" where
  "to_surrogate (VFactAddress a) = Some (SFactAddress a)"
| "to_surrogate (VSymbol s) = Some (SSymbol s)"
| "to_surrogate (VInstanceName n) = Some (SInstanceName n)"
| "to_surrogate (VString s) = Some (SString s)"
| "to_surrogate (VInteger i) = Some (SInteger i)"
| "to_surrogate (VFloat f) = Some (SFloat f)"
| "to_surrogate (VMultifield vs) = map_option SMultifield (those (map to_surrogate vs))"
| "to_surrogate (VExternalAddress _) = None"
| "to_surrogate VVoid = Some SVoid"

fun from_surrogate :: "value_surrogate \<Rightarrow> val" where
  "from_surrogate (SFactAddress a) = VFactAddress a"
| "from_surrogate (SSymbol s) = VSymbol s"
| "from_surrogate (SString s) = VString s"
| "from_surrogate (SInteger i) = VInteger i"
| "from_surrogate (SFloat f) = VFloat f"
| "from_surrogate (SMultifield vs) = VMultifield (map from_surrogate vs)"
| "from_surrogate SVoid = VVoid"
| "from_surrogate (SInstanceName n) = VInstanceName n"

datatype atom_key_surrogate =
    SKSymbol symbol
  | SKString ferric_string
  | SKInteger i64
  | SKFloatBits u64
  | SKInstanceName instance_name
  | SKFactAddress fact_address

fun to_key_surrogate :: "atom_key \<Rightarrow> atom_key_surrogate option" where
  "to_key_surrogate (KFactAddress a) = Some (SKFactAddress a)"
| "to_key_surrogate (KSymbol s) = Some (SKSymbol s)"
| "to_key_surrogate (KInstanceName n) = Some (SKInstanceName n)"
| "to_key_surrogate (KString s) = Some (SKString s)"
| "to_key_surrogate (KInteger i) = Some (SKInteger i)"
| "to_key_surrogate (KFloatBits b) = Some (SKFloatBits b)"
| "to_key_surrogate (KExternalAddress _ _) = None"

fun from_key_surrogate :: "atom_key_surrogate \<Rightarrow> atom_key" where
  "from_key_surrogate (SKFactAddress a) = KFactAddress a"
| "from_key_surrogate (SKSymbol s) = KSymbol s"
| "from_key_surrogate (SKString s) = KString s"
| "from_key_surrogate (SKInteger i) = KInteger i"
| "from_key_surrogate (SKFloatBits b) = KFloatBits b"
| "from_key_surrogate (SKInstanceName n) = KInstanceName n"

lemma key_surrogate_roundtrip: "to_key_surrogate k = Some s \<Longrightarrow> from_key_surrogate s = k"
  by (cases k) auto

text \<open>An external address anywhere inside a value.\<close>

fun mentions_external :: "val \<Rightarrow> bool" where
  "mentions_external (VExternalAddress _) = True"
| "mentions_external (VMultifield vs) = list_ex mentions_external vs"
| "mentions_external _ = False"

lemma those_eq_Some_iff: "those xs = Some ys \<longleftrightarrow> xs = map Some ys"
  by (induction xs arbitrary: ys) (auto split: option.splits)

lemma those_eq_None_iff: "those xs = None \<longleftrightarrow> None \<in> set xs"
  by (induction xs) (auto split: option.splits)

lemma surrogate_roundtrip: "to_surrogate v = Some s \<Longrightarrow> from_surrogate s = v"
proof (induction v arbitrary: s)
  case (VMultifield vs)
  then obtain ts where ts: "s = SMultifield ts" "map to_surrogate vs = map Some ts"
    by (auto simp: those_eq_Some_iff)
  from ts(2) VMultifield.IH have "map from_surrogate ts = vs"
    by (auto simp: list_eq_iff_nth_eq)
  with ts show ?case by simp
qed auto

lemma to_surrogate_None_iff: "to_surrogate v = None \<longleftrightarrow> mentions_external v"
  by (induction v) (auto simp: those_eq_None_iff list_ex_iff image_iff eq_commute [of None])

section \<open>Properties\<close>

text \<open>
  Structural equality, the recursive comparison that duplicate suppression and pattern
  matching use, is an equivalence relation on all values (although IEEE equality of floats is
  not), it never identifies values of different types, and it ignores exactly the encoding of
  strings and the presentation index of fact addresses, at every depth.
\<close>

theorem structural_eq_equivalence:
  "equivp structural_eq \<and> (\<forall>a b. structural_eq a b \<longleftrightarrow> canon a = canon b) \<and>
   (\<forall>a b. structural_eq a b \<longrightarrow> type_name a = type_name b)"
  using structural_eq_type_name
  by (auto intro!: equivpI reflpI sympI transpI intro: structural_eq_sym structural_eq_trans
      simp: structural_eq_iff [symmetric])

theorem structural_eq_equivalence_witness:
  "structural_eq (VMultifield [VString (AsciiString [65]), VFloat 0])
     (VMultifield [VString (Utf8String [65]), VFloat 0]) \<and>
   \<not> structural_eq (VFloat 0) (VFloat 0x8000000000000000)"
proof -
  have "structural_eq a b \<longleftrightarrow> canon a = canon b" for a b
    using structural_eq_equivalence by blast
  then show ?thesis by (simp add: string_eq_def)
qed

text \<open>
  C12: Atom keys are faithful to values. A value has a key unless it is a multifield or void;
  the key converts back to that very value, and two keys are equal (as hash-table keys) exactly
  when their values are structurally equal, so an index lookup selects the same values as a
  comparison would.
\<close>

theorem atom_key_faithful:
  "(case atom_key_of v of
      None \<Rightarrow> v = VVoid \<or> (\<exists>vs. v = VMultifield vs)
    | Some a \<Rightarrow> atom_to_value a = v \<and>
        (case atom_key_of w of
           None \<Rightarrow> \<not> structural_eq v w
         | Some b \<Rightarrow> atom_key_eq a b = structural_eq v w))"
proof (cases "atom_key_of v")
  case None
  then show ?thesis by (auto simp: atom_key_of_None_iff)
next
  case (Some a)
  then show ?thesis
  proof (cases "atom_key_of w")
    case None
    then have "\<not> structural_eq v w"
      using Some by (cases v; cases w) auto
    with Some None show ?thesis by (simp add: atom_to_value_of)
  qed (simp add: atom_to_value_of atom_key_eq_structural)
qed


end
