(* ===== verification/Bindings.thy ===== *)
theory Bindings
  imports Values
begin

text \<open>
  \<open>binding.rs\<close>: the map from variable names to ids of a rule, and the binding sets that tokens
  carry. Sharing through \<open>Arc\<close> is invisible: a value reference is its value and the way it is
  stored.
\<close>

section \<open>Variable maps\<close>

type_synonym var_id = u16

record var_map =
  by_name :: "symbol \<rightharpoonup> var_id"
  by_id :: "symbol list"

datatype var_map_error = TooManyVariables

definition var_map_new :: var_map where
  "var_map_new = \<lparr>by_name = Map.empty, by_id = []\<rparr>"

definition get_or_create :: "symbol \<Rightarrow> var_map \<Rightarrow> (var_map_error + var_id) \<times> var_map" where
  "get_or_create name vm =
     (case by_name vm name of
        Some i \<Rightarrow> (Inr i, vm)
      | None \<Rightarrow>
          (let id_val = length (by_id vm)
           in if 65535 < id_val then (Inl TooManyVariables, vm)
              else (let i = word_of_nat id_val
                    in (Inr i, vm\<lparr>by_name := (by_name vm)(name \<mapsto> i), by_id := by_id vm @ [name]\<rparr>))))"

definition var_lookup :: "var_map \<Rightarrow> symbol \<Rightarrow> var_id option" where
  "var_lookup vm name = by_name vm name"

text \<open>\<open>None\<close> is the panic of indexing out of range.\<close>

definition var_name :: "var_map \<Rightarrow> var_id \<Rightarrow> symbol option" where
  "var_name vm i = (if unat i < length (by_id vm) then Some (by_id vm ! unat i) else None)"

definition var_map_len :: "var_map \<Rightarrow> nat" where
  "var_map_len vm = length (by_id vm)"

definition var_map_clear :: "var_map \<Rightarrow> var_map" where
  "var_map_clear vm = vm\<lparr>by_name := Map.empty, by_id := []\<rparr>"

definition var_map_ok :: "var_map \<Rightarrow> bool" where
  "var_map_ok vm \<longleftrightarrow> pool_ok (by_name vm) (by_id vm)"

lemma var_map_ok_new [simp]: "var_map_ok var_map_new" "var_map_ok (var_map_clear vm)"
  by (simp_all add: var_map_ok_def var_map_new_def var_map_clear_def)

section \<open>Binding sets\<close>

datatype value_ref = Inline val | Shared val

fun value_ref_new :: "val \<Rightarrow> value_ref" where
  "value_ref_new (VString s) = Shared (VString s)"
| "value_ref_new (VMultifield vs) = Shared (VMultifield vs)"
| "value_ref_new v = Inline v"

fun value_of_ref :: "value_ref \<Rightarrow> val" where
  "value_of_ref (Inline v) = v"
| "value_of_ref (Shared v) = v"

type_synonym binding_set = "value_ref option list"

definition binding_set_new :: binding_set where
  "binding_set_new = []"

definition binding_get :: "binding_set \<Rightarrow> var_id \<Rightarrow> value_ref option" where
  "binding_get bs var = (if unat var < length bs then bs ! unat var else None)"

definition binding_set :: "var_id \<Rightarrow> value_ref \<Rightarrow> binding_set \<Rightarrow> binding_set" where
  "binding_set var x bs =
     (let idx = unat var;
          bs = (if length bs \<le> idx then bs @ replicate (idx + 1 - length bs) None else bs)
      in bs[idx := Some x])"

definition extend_from :: "binding_set \<Rightarrow> binding_set \<Rightarrow> binding_set" where
  "extend_from bs other =
     fold (\<lambda>(idx, maybe_val) bs.
         case maybe_val of
           None \<Rightarrow> bs
         | Some x \<Rightarrow> (let var = word_of_nat idx
                      in if binding_get bs var = None then binding_set var x bs else bs))
       (enumerate 0 other) bs"

definition binding_capacity :: "binding_set \<Rightarrow> nat" where
  "binding_capacity bs = length bs"

definition bound_count :: "binding_set \<Rightarrow> nat" where
  "bound_count bs = length (filter (\<lambda>x. x \<noteq> None) bs)"

lemma value_of_ref_new [simp]: "value_of_ref (value_ref_new v) = v"
  by (cases v) simp_all

lemma binding_get_new [simp]: "binding_get binding_set_new v = None"
  by (simp add: binding_get_def binding_set_new_def)

lemma binding_get_set [simp]:
  "binding_get (binding_set v x bs) w = (if w = v then Some x else binding_get bs w)"
proof -
  have "unat v = unat w \<longleftrightarrow> w = v" by (auto simp: word_unat_eq_iff)
  then show ?thesis
    by (auto simp: binding_get_def binding_set_def Let_def nth_list_update nth_append)
qed

lemma bound_count_card: "bound_count bs = card {i. i < length bs \<and> bs ! i \<noteq> None}"
  unfolding bound_count_def by (simp only: length_filter_conv_card)

text \<open>One step of \<open>extend_from\<close>, and its loop from position \<open>n\<close> on.\<close>

lemma extend_from_loop:
  assumes "n + length other \<le> 2 ^ 16"
  shows "binding_get (fold (\<lambda>(idx, maybe_val) bs.
         case maybe_val of
           None \<Rightarrow> bs
         | Some x \<Rightarrow> (let var = word_of_nat idx
                      in if binding_get bs var = None then binding_set var x bs else bs))
       (enumerate n other) bs) v =
    (case binding_get bs v of
       Some x \<Rightarrow> Some x
     | None \<Rightarrow> if n \<le> unat v \<and> unat v < n + length other then other ! (unat v - n) else None)"
  using assms
proof (induction other arbitrary: n bs)
  case (Cons m other)
  have n: "unat (word_of_nat n :: var_id) = n" using Cons.prems by (intro unat_pool_id) simp
  then have eq: "v = word_of_nat n \<longleftrightarrow> unat v = n" by (auto simp: word_unat_eq_iff)
  have IH: "Suc n + length other \<le> 2 ^ 16" using Cons.prems by simp
  show ?case
    using n by (auto simp: Cons.IH [OF IH] Let_def eq nth_Cons' Suc_le_eq Suc_diff_Suc
        split: option.splits)
qed (auto split: option.split)

lemma extend_from_get:
  assumes "length other \<le> 2 ^ 16"
  shows "binding_get (extend_from bs other) v =
    (case binding_get bs v of Some x \<Rightarrow> Some x | None \<Rightarrow> binding_get other v)"
proof -
  have "binding_get other v = (if unat v < length other then other ! unat v else None)"
    by (simp add: binding_get_def)
  then show ?thesis
    using assms unfolding extend_from_def by (subst extend_from_loop) (simp_all split: option.split)
qed

section \<open>Properties\<close>

text \<open>
  C23: Variable maps hand out consecutive ids. Creating a variable returns the id a known name
  already has; a new name gets the next id, resolves to that name, is found again and leaves
  every earlier id alone; and the call is refused exactly when the name is new and all 65536
  ids are taken, without changing the map.
\<close>

theorem get_or_create_correct:
  assumes "var_map_ok vm"
  shows "case get_or_create name vm of
      (Inr i, vm') \<Rightarrow> var_map_ok vm' \<and> var_name vm' i = Some name \<and> var_lookup vm' name = Some i \<and>
        (case var_lookup vm name of Some j \<Rightarrow> j = i \<and> vm' = vm | None \<Rightarrow> unat i = var_map_len vm) \<and>
        (\<forall>j n. var_name vm j = Some n \<longrightarrow> var_name vm' j = Some n)
    | (Inl TooManyVariables, vm') \<Rightarrow> var_lookup vm name = None \<and> var_map_len vm = 65536 \<and> vm' = vm"
proof (cases "by_name vm name")
  case (Some i)
  with assms have "unat i < length (by_id vm) \<and> by_id vm ! unat i = name"
    using pool_okD [of "by_name vm" "by_id vm" name i] by (simp add: var_map_ok_def)
  with Some assms show ?thesis by (simp add: get_or_create_def var_lookup_def var_name_def)
next
  case None
  show ?thesis
  proof (cases "65535 < length (by_id vm)")
    case True
    with None assms show ?thesis
      by (simp add: get_or_create_def var_lookup_def var_map_len_def var_map_ok_def pool_ok_def)
  next
    case False
    then have u: "unat (word_of_nat (length (by_id vm)) :: var_id) = length (by_id vm)"
      by (intro unat_pool_id) simp
    have "pool_ok ((by_name vm)(name \<mapsto> word_of_nat (length (by_id vm)))) (by_id vm @ [name])"
      using assms None False by (intro pool_ok_push) (simp_all add: var_map_ok_def)
    with None False u show ?thesis
      by (auto simp: get_or_create_def var_lookup_def var_map_ok_def var_name_def var_map_len_def
          nth_append Let_def)
  qed
qed

theorem get_or_create_correct_witness:
  "fst (get_or_create (Symbol (Utf8Id 9)) var_map_new) \<noteq> Inl TooManyVariables"
  using get_or_create_correct [OF var_map_ok_new(1), of "Symbol (Utf8Id 9)"]
  by (auto simp: var_map_len_def var_map_new_def split: prod.splits)

text \<open>
  Extending a binding set is a left-biased union: for every variable, the binding it already
  had wins, and otherwise it gets the binding of the other set, as long as the other set has no
  more slots than there are variable ids.
\<close>

theorem extend_from_left_biased:
  assumes "binding_capacity other \<le> 65536"
  shows "binding_get (extend_from bs other) v =
    (case binding_get bs v of Some x \<Rightarrow> Some x | None \<Rightarrow> binding_get other v)"
  using assms by (intro extend_from_get) (simp add: binding_capacity_def)

theorem extend_from_left_biased_witness:
  "binding_get (extend_from [Some (Inline VVoid)] [Some (Inline (VInteger 1)), Some (Inline (VInteger 2))]) 1 =
     Some (Inline (VInteger 2))"
  using extend_from_left_biased [of "[Some (Inline (VInteger 1)), Some (Inline (VInteger 2))]"
      "[Some (Inline VVoid)]" 1]
  by (simp add: binding_capacity_def binding_get_def)

end
