(* ===== verification/Tokens.thy ===== *)
theory Tokens
  imports Bindings
begin

text \<open>
  \<open>token.rs\<close>: the store of partial matches with its two reverse indexes. Token ids come from a
  slot map whose keys carry a version, so the id of an insertion is one that no stored token is
  known under nor refers to as its parent. The order in which a hash set of tokens is walked is
  an argument. The loops over parent links terminate only on the invariant, so they are partial
  functions and their termination is a theorem.
\<close>

section \<open>State and operations\<close>

datatype token_id = TokenId nat

type_synonym node_id = u32

record token =
  tok_fact :: "fact_id option"
  tok_bindings :: binding_set
  tok_parent :: "token_id option"
  tok_owner :: node_id

record token_store =
  tokens :: "token_id \<rightharpoonup> token"
  sequence_matches :: "token_id \<rightharpoonup> nat list"
  fact_to_tokens :: "fact_id \<rightharpoonup> token_id set"
  parent_to_children :: "token_id \<rightharpoonup> token_id set"

definition token_store_new :: token_store where
  "token_store_new = \<lparr>tokens = Map.empty, sequence_matches = Map.empty,
     fact_to_tokens = Map.empty, parent_to_children = Map.empty\<rparr>"

definition token_insert :: "token_id \<Rightarrow> token \<Rightarrow> token_store \<Rightarrow> token_store" where
  "token_insert i t ts =
     (let ts = ts\<lparr>tokens := (tokens ts)(i \<mapsto> t)\<rparr>;
          ts = (case tok_fact t of
                  None \<Rightarrow> ts
                | Some f \<Rightarrow> ts\<lparr>fact_to_tokens := set_index_add f i (fact_to_tokens ts)\<rparr>)
      in case tok_parent t of
           None \<Rightarrow> ts
         | Some p \<Rightarrow> ts\<lparr>parent_to_children := set_index_add p i (parent_to_children ts)\<rparr>)"

definition insert_sequence_match :: "token_id \<Rightarrow> token \<Rightarrow> nat list \<Rightarrow> token_store \<Rightarrow> token_store" where
  "insert_sequence_match i t lengths ts =
     (let ts = token_insert i t ts
      in ts\<lparr>sequence_matches := (sequence_matches ts)(i \<mapsto> lengths)\<rparr>)"

definition match_lengths :: "token_store \<Rightarrow> token_id \<Rightarrow> nat list option" where
  "match_lengths ts i = sequence_matches ts i"

definition token_remove :: "token_id \<Rightarrow> token_store \<Rightarrow> token option \<times> token_store" where
  "token_remove i ts =
     (case tokens ts i of
        None \<Rightarrow> (None, ts)
      | Some t \<Rightarrow>
          (let ts = ts\<lparr>tokens := (tokens ts)(i := None)\<rparr>;
               ts = (if sequence_matches ts = Map.empty then ts
                     else ts\<lparr>sequence_matches := (sequence_matches ts)(i := None)\<rparr>);
               ts = (case tok_fact t of
                       None \<Rightarrow> ts
                     | Some f \<Rightarrow> ts\<lparr>fact_to_tokens := set_index_del f i (fact_to_tokens ts)\<rparr>);
               ts = (case tok_parent t of
                       None \<Rightarrow> ts
                     | Some p \<Rightarrow> ts\<lparr>parent_to_children := set_index_del p i (parent_to_children ts)\<rparr>);
               ts = ts\<lparr>parent_to_children := (parent_to_children ts)(i := None)\<rparr>
           in (Some t, ts)))"

text \<open>The stack of \<open>remove_cascade\<close>, its top first; \<open>walk\<close> lists a hash set in walking order.\<close>

partial_function (option) cascade_loop ::
  "(token_id set \<Rightarrow> token_id list) \<Rightarrow> token_id list \<Rightarrow> (token_id \<times> token) list \<Rightarrow> token_store \<Rightarrow>
   ((token_id \<times> token) list \<times> token_store) option"
where
  "cascade_loop walk stack removed ts =
     (case stack of
        [] \<Rightarrow> Some (removed, ts)
      | i # stack \<Rightarrow>
          (let stack = (case parent_to_children ts i of
                          None \<Rightarrow> stack | Some children \<Rightarrow> rev (walk children) @ stack);
               (r, ts) = token_remove i ts
           in cascade_loop walk stack
                (case r of None \<Rightarrow> removed | Some t \<Rightarrow> removed @ [(i, t)]) ts))"

definition remove_cascade ::
  "(token_id set \<Rightarrow> token_id list) \<Rightarrow> token_id \<Rightarrow> token_store \<Rightarrow>
   ((token_id \<times> token) list \<times> token_store) option" where
  "remove_cascade walk root ts = cascade_loop walk [root] [] ts"

definition token_clear :: "token_store \<Rightarrow> token_store" where
  "token_clear ts = ts\<lparr>tokens := Map.empty, sequence_matches := Map.empty,
     fact_to_tokens := Map.empty, parent_to_children := Map.empty\<rparr>"

text \<open>The chain from a token up to the root, in the order it is pushed.\<close>

partial_function (option) parent_chain ::
  "token_store \<Rightarrow> token_id option \<Rightarrow> token_id list \<Rightarrow> token_id list option"
where
  "parent_chain ts current chain =
     (case current of
        None \<Rightarrow> Some chain
      | Some i \<Rightarrow>
          parent_chain ts (case tokens ts i of None \<Rightarrow> None | Some t \<Rightarrow> tok_parent t) (chain @ [i]))"

definition collect_all_facts :: "token_store \<Rightarrow> token_id \<Rightarrow> fact_id list option" where
  "collect_all_facts ts i =
     map_option (\<lambda>chain. List.map_filter
         (\<lambda>j. case tokens ts j of None \<Rightarrow> None | Some t \<Rightarrow> tok_fact t) (rev chain))
       (parent_chain ts (Some i) [])"

definition tokens_containing :: "token_store \<Rightarrow> fact_id \<Rightarrow> token_id set" where
  "tokens_containing ts f = (case fact_to_tokens ts f of None \<Rightarrow> {} | Some S \<Rightarrow> S)"

definition children :: "token_store \<Rightarrow> token_id \<Rightarrow> token_id set" where
  "children ts i = (case parent_to_children ts i of None \<Rightarrow> {} | Some S \<Rightarrow> S)"

text \<open>The walk up from one affected token: does no ancestor belong to the affected set?\<close>

partial_function (option) is_retraction_root ::
  "token_store \<Rightarrow> token_id set \<Rightarrow> token_id \<Rightarrow> bool option"
where
  "is_retraction_root ts affected current =
     (case tokens ts current of
        None \<Rightarrow> Some True
      | Some t \<Rightarrow>
          (case tok_parent t of
             None \<Rightarrow> Some True
           | Some p \<Rightarrow> if p \<in> affected then Some False else is_retraction_root ts affected p))"

text \<open>\<open>order\<close> is the walking order of the affected set.\<close>

fun retraction_roots_loop :: "token_store \<Rightarrow> token_id set \<Rightarrow> token_id list \<Rightarrow> token_id list option" where
  "retraction_roots_loop ts affected [] = Some []"
| "retraction_roots_loop ts affected (i # order) =
     Option.bind (is_retraction_root ts affected i) (\<lambda>is_root.
       map_option (\<lambda>roots. if is_root then i # roots else roots)
         (retraction_roots_loop ts affected order))"

definition retraction_roots :: "token_store \<Rightarrow> token_id list \<Rightarrow> token_id list option" where
  "retraction_roots ts order = retraction_roots_loop ts (set order) order"

definition token_get :: "token_store \<Rightarrow> token_id \<Rightarrow> token option" where
  "token_get ts i = tokens ts i"

definition token_count :: "token_store \<Rightarrow> nat" where
  "token_count ts = card (dom (tokens ts))"

text \<open>\<open>Ok\<close> is \<open>True\<close>; the message of an error depends on the walking order and is left out.\<close>

definition validate_consistency :: "token_store \<Rightarrow> bool" where
  "validate_consistency ts \<longleftrightarrow>
     (\<forall>i \<in> dom (sequence_matches ts). \<exists>t. tokens ts i = Some t \<and> tok_fact t \<noteq> None) \<and>
     (\<forall>f S. fact_to_tokens ts f = Some S \<longrightarrow> (\<forall>i \<in> S. i \<in> dom (tokens ts))) \<and>
     (\<forall>p S. parent_to_children ts p = Some S \<longrightarrow>
        p \<in> dom (tokens ts) \<and> (\<forall>c \<in> S. c \<in> dom (tokens ts))) \<and>
     (\<forall>i t f. tokens ts i = Some t \<and> tok_fact t = Some f \<longrightarrow>
        (\<exists>S. fact_to_tokens ts f = Some S \<and> i \<in> S)) \<and>
     (\<forall>i t p. tokens ts i = Some t \<and> tok_parent t = Some p \<and> p \<in> dom (tokens ts) \<longrightarrow>
        (\<exists>S. parent_to_children ts p = Some S \<and> i \<in> S)) \<and>
     (\<forall>f S. fact_to_tokens ts f = Some S \<longrightarrow> S \<noteq> {}) \<and>
     (\<forall>p S. parent_to_children ts p = Some S \<longrightarrow> S \<noteq> {})"

section \<open>Invariant\<close>

definition parent_rel :: "token_store \<Rightarrow> (token_id \<times> token_id) set" where
  "parent_rel ts = {(p, c). \<exists>t. tokens ts c = Some t \<and> tok_parent t = Some p}"

definition ts_ok :: "token_store \<Rightarrow> bool" where
  "ts_ok ts \<longleftrightarrow> finite (dom (tokens ts)) \<and>
     (\<forall>i \<in> dom (sequence_matches ts). \<exists>t. tokens ts i = Some t \<and> tok_fact t \<noteq> None) \<and>
     pruned (fact_to_tokens ts) \<and> pruned (parent_to_children ts) \<and>
     (\<forall>f i. i \<in> members (fact_to_tokens ts) f \<longleftrightarrow> (\<exists>t. tokens ts i = Some t \<and> tok_fact t = Some f)) \<and>
     (\<forall>p c. c \<in> members (parent_to_children ts) p \<longleftrightarrow> p \<in> dom (tokens ts) \<and> (p, c) \<in> parent_rel ts) \<and>
     acyclic (parent_rel ts)"

text \<open>What slot-map versions guarantee of the id of an insertion.\<close>

definition never_used :: "token_id \<Rightarrow> token_store \<Rightarrow> bool" where
  "never_used i ts \<longleftrightarrow> fresh_key i (tokens ts) \<and> (\<forall>c. (i, c) \<notin> parent_rel ts)"

definition descendants :: "token_store \<Rightarrow> token_id \<Rightarrow> token_id set" where
  "descendants ts i = {c. (i, c) \<in> (parent_rel ts)\<^sup>*}"

lemma ts_ok_new [simp]: "ts_ok token_store_new"
  by (simp add: ts_ok_def token_store_new_def parent_rel_def acyclic_def)

lemma ts_ok_clear [simp]: "ts_ok (token_clear ts)"
  by (simp add: ts_ok_def token_clear_def parent_rel_def acyclic_def)

lemma children_eq: "children ts i = members (parent_to_children ts) i"
  by (simp add: children_def members_def)

lemma ts_okD:
  assumes "ts_ok ts"
  shows "finite (dom (tokens ts))" "pruned (fact_to_tokens ts)" "pruned (parent_to_children ts)"
    "i \<in> dom (sequence_matches ts) \<Longrightarrow> \<exists>t. tokens ts i = Some t \<and> tok_fact t \<noteq> None"
    "i \<in> members (fact_to_tokens ts) f \<longleftrightarrow> (\<exists>t. tokens ts i = Some t \<and> tok_fact t = Some f)"
    "c \<in> members (parent_to_children ts) p \<longleftrightarrow> p \<in> dom (tokens ts) \<and> (p, c) \<in> parent_rel ts"
    "acyclic (parent_rel ts)"
  using assms unfolding ts_ok_def by blast+

lemma members_Some_ex: "i \<in> members m k \<Longrightarrow> \<exists>S. m k = Some S \<and> i \<in> S"
  by (auto simp: members_def split: option.splits)

lemma parent_rel_iff: "(p, c) \<in> parent_rel ts \<longleftrightarrow> (\<exists>t. tokens ts c = Some t \<and> tok_parent t = Some p)"
  by (simp add: parent_rel_def)

lemma parent_rel_live: "(p, c) \<in> parent_rel ts \<Longrightarrow> c \<in> dom (tokens ts)"
  by (auto simp: parent_rel_iff)

lemma ts_ok_validate: "ts_ok ts \<Longrightarrow> validate_consistency ts"
proof -
  assume ok: "ts_ok ts"
  note kids = ts_okD(6) [OF ok] and toks = ts_okD(5) [OF ok]
  have ne: "S \<noteq> {}" if "parent_to_children ts p = Some S" for p S
    using ts_okD(3) [OF ok] that by (auto simp: pruned_def)
  have kid: "p \<in> dom (tokens ts) \<and> c \<in> dom (tokens ts)"
    if "parent_to_children ts p = Some S" "c \<in> S" for p S c
  proof -
    have "c \<in> members (parent_to_children ts) p" using that by (simp add: members_Some)
    with kids [of c p] show ?thesis using parent_rel_live by blast
  qed
  show ?thesis
    unfolding validate_consistency_def
  proof (intro conjI allI impI ballI)
    fix p S c assume S: "parent_to_children ts p = Some S"
    from ne [OF S] obtain d where "d \<in> S" by blast
    from kid [OF S this] show "p \<in> dom (tokens ts)" by blast
    show "c \<in> dom (tokens ts)" if "c \<in> S" using kid [OF S that] by blast
  next
    fix f S i assume "fact_to_tokens ts f = Some S" "i \<in> S"
    then have "i \<in> members (fact_to_tokens ts) f" by (simp add: members_Some)
    then show "i \<in> dom (tokens ts)" using toks [of i f] by blast
  next
    fix i t f assume "tokens ts i = Some t \<and> tok_fact t = Some f"
    then show "\<exists>S. fact_to_tokens ts f = Some S \<and> i \<in> S" by (intro members_Some_ex) (simp add: toks)
  next
    fix i t p assume "tokens ts i = Some t \<and> tok_parent t = Some p \<and> p \<in> dom (tokens ts)"
    then show "\<exists>S. parent_to_children ts p = Some S \<and> i \<in> S"
      by (intro members_Some_ex) (simp add: kids parent_rel_iff)
  next
    fix i assume "i \<in> dom (sequence_matches ts)"
    then show "\<exists>t. tokens ts i = Some t \<and> tok_fact t \<noteq> None" by (rule ts_okD(4) [OF ok])
  next
    fix f S assume "fact_to_tokens ts f = Some S"
    then show "S \<noteq> {}" using ts_okD(2) [OF ok] by (auto simp: pruned_def)
  qed (rule ne)
qed

end
