(* ===== verification/Token_Invariant.thy ===== *)
theory Token_Invariant
  imports Tokens
begin

text \<open>
  The token store keeps \<^const>\<open>ts_ok\<close>; cascading removal deletes exactly a subtree; the walks
  over parent links terminate and compute what they should.
\<close>

section \<open>Insertion and removal of one token\<close>

lemma token_insert_fields [simp]:
  "tokens (token_insert i t ts) = (tokens ts)(i \<mapsto> t)"
  "sequence_matches (token_insert i t ts) = sequence_matches ts"
  "fact_to_tokens (token_insert i t ts) =
     (case tok_fact t of None \<Rightarrow> fact_to_tokens ts | Some f \<Rightarrow> set_index_add f i (fact_to_tokens ts))"
  "parent_to_children (token_insert i t ts) =
     (case tok_parent t of None \<Rightarrow> parent_to_children ts | Some p \<Rightarrow> set_index_add p i (parent_to_children ts))"
  by (simp_all add: token_insert_def Let_def split: option.split)

lemma parent_rel_insert:
  "tokens ts i = None \<Longrightarrow> parent_rel (token_insert i t ts) =
     parent_rel ts \<union> (case tok_parent t of None \<Rightarrow> {} | Some p \<Rightarrow> {(p, i)})"
  by (auto simp: parent_rel_def split: option.splits if_splits)

text \<open>The parent a caller gives is a stored token.\<close>

definition parent_live :: "token \<Rightarrow> token_store \<Rightarrow> bool" where
  "parent_live t ts \<longleftrightarrow> (case tok_parent t of None \<Rightarrow> True | Some p \<Rightarrow> p \<in> dom (tokens ts))"

lemma acyclic_insert_leaf:
  assumes "acyclic r" "\<And>c. (i, c) \<notin> r" "p \<noteq> i"
  shows "acyclic (insert (p, i) r)"
proof -
  have "(i, p) \<notin> r\<^sup>*" using assms(2,3) by (metis converse_rtranclE)
  with assms(1) show ?thesis by (simp add: acyclic_insert)
qed

lemma token_insert_ok:
  assumes ok: "ts_ok ts" and new: "never_used i ts" and live: "parent_live t ts"
  shows "ts_ok (token_insert i t ts)"
proof -
  have fresh: "tokens ts i = None" "\<And>c. (i, c) \<notin> parent_rel ts"
    using new by (auto simp: never_used_def fresh_key_def)
  have pi: "p \<noteq> i" if "tok_parent t = Some p" for p
    using live that fresh(1) by (auto simp: parent_live_def)
  note rel = parent_rel_insert [OF fresh(1)]
  have "acyclic (parent_rel (token_insert i t ts))"
    using ts_okD(7) [OF ok] acyclic_insert_leaf [OF ts_okD(7) [OF ok] fresh(2)] pi
    by (simp add: rel split: option.split)
  moreover have "c \<in> members (parent_to_children (token_insert i t ts)) p \<longleftrightarrow>
      p \<in> dom (tokens (token_insert i t ts)) \<and> (p, c) \<in> parent_rel (token_insert i t ts)" for p c
    using ts_okD(6) [OF ok, of c p] live fresh(2)
    by (auto simp: rel index_simps parent_live_def split: option.splits)
  moreover have "j \<in> members (fact_to_tokens (token_insert i t ts)) f \<longleftrightarrow>
      (\<exists>u. tokens (token_insert i t ts) j = Some u \<and> tok_fact u = Some f)" for f j
    using ts_okD(5) [OF ok, of j f] fresh(1) by (auto simp: index_simps split: option.splits)
  moreover have "pruned (fact_to_tokens (token_insert i t ts))" "pruned (parent_to_children (token_insert i t ts))"
    using ts_okD(2,3) [OF ok] by (auto simp: index_simps split: option.split)
  moreover have "\<exists>u. tokens (token_insert i t ts) j = Some u \<and> tok_fact u \<noteq> None"
    if "j \<in> dom (sequence_matches (token_insert i t ts))" for j
    using ts_okD(4) [OF ok, of j] that fresh(1) by auto
  ultimately show ?thesis
    unfolding ts_ok_def using ts_okD(1) [OF ok] by simp
qed

lemma insert_sequence_match_ok:
  assumes "ts_ok ts" "never_used i ts" "parent_live t ts" "tok_fact t \<noteq> None"
  shows "ts_ok (insert_sequence_match i t ls ts)"
proof -
  let ?ts = "token_insert i t ts"
  have "ts_ok ?ts" by (rule token_insert_ok [OF assms(1-3)])
  moreover have "parent_rel (?ts\<lparr>sequence_matches := x\<rparr>) = parent_rel ?ts" for x
    by (simp add: parent_rel_def)
  ultimately show ?thesis
    using assms(4) by (simp add: ts_ok_def insert_sequence_match_def Let_def)
qed

lemma token_remove_unknown: "tokens ts i = None \<Longrightarrow> token_remove i ts = (None, ts)"
  by (simp add: token_remove_def)

lemma token_remove_known:
  assumes "tokens ts i = Some t"
  obtains ts' where "token_remove i ts = (Some t, ts')" "tokens ts' = (tokens ts)(i := None)"
    "sequence_matches ts' = (sequence_matches ts)(i := None)"
    "fact_to_tokens ts' = (case tok_fact t of None \<Rightarrow> fact_to_tokens ts
       | Some f \<Rightarrow> set_index_del f i (fact_to_tokens ts))"
    "parent_to_children ts' = (case tok_parent t of None \<Rightarrow> parent_to_children ts
       | Some p \<Rightarrow> set_index_del p i (parent_to_children ts))(i := None)"
  by (rule that [of "snd (token_remove i ts)"])
    (auto simp: token_remove_def assms Let_def split: option.split)

lemma token_remove_ok:
  assumes ok: "ts_ok ts" and t: "tokens ts i = Some t"
  obtains ts' where "token_remove i ts = (Some t, ts')" "ts_ok ts'" "tokens ts' = (tokens ts)(i := None)"
    "parent_rel ts' = parent_rel ts - UNIV \<times> {i}"
proof -
  obtain ts' where ts': "token_remove i ts = (Some t, ts')" "tokens ts' = (tokens ts)(i := None)"
    "sequence_matches ts' = (sequence_matches ts)(i := None)"
    "fact_to_tokens ts' = (case tok_fact t of None \<Rightarrow> fact_to_tokens ts
       | Some f \<Rightarrow> set_index_del f i (fact_to_tokens ts))"
    "parent_to_children ts' = (case tok_parent t of None \<Rightarrow> parent_to_children ts
       | Some p \<Rightarrow> set_index_del p i (parent_to_children ts))(i := None)"
    using token_remove_known [OF t] .
  have rel: "parent_rel ts' = parent_rel ts - UNIV \<times> {i}"
    by (auto simp: parent_rel_def ts'(2) split: if_splits)
  have "acyclic (parent_rel ts')"
    using ts_okD(7) [OF ok] unfolding rel by (rule acyclic_subset) blast
  moreover have "c \<in> members (parent_to_children ts') p \<longleftrightarrow> p \<in> dom (tokens ts') \<and> (p, c) \<in> parent_rel ts'" for p c
    using ts_okD(6) [OF ok, of c p] t
    by (auto simp: rel ts'(2,5) index_simps parent_rel_iff split: option.splits)
  moreover have "j \<in> members (fact_to_tokens ts') f \<longleftrightarrow> (\<exists>u. tokens ts' j = Some u \<and> tok_fact u = Some f)" for f j
    using ts_okD(5) [OF ok, of j f] t by (auto simp: ts'(2,4) index_simps split: option.splits)
  moreover have "pruned (fact_to_tokens ts')" "pruned (parent_to_children ts')"
    using ts_okD(2,3) [OF ok] by (auto simp: ts' index_simps split: option.split)
  moreover have "\<exists>u. tokens ts' j = Some u \<and> tok_fact u \<noteq> None" if "j \<in> dom (sequence_matches ts')" for j
    using ts_okD(4) [OF ok, of j] that by (auto simp: ts'(2,3) split: if_splits)
  moreover have "finite (dom (tokens ts'))" using ts_okD(1) [OF ok] by (simp add: ts'(2))
  ultimately have "ts_ok ts'" unfolding ts_ok_def by blast
  with ts' rel that show thesis by blast
qed

section \<open>Cascading removal\<close>

text \<open>The stored tokens reachable from a stack of ids.\<close>

definition below :: "token_store \<Rightarrow> token_id list \<Rightarrow> token_id set" where
  "below ts stack = {x. \<exists>s \<in> set stack \<inter> dom (tokens ts). (s, x) \<in> (parent_rel ts)\<^sup>*}"

lemma rtrancl_cut:
  "(s, x) \<in> r\<^sup>* \<Longrightarrow> (s, x) \<in> (r - UNIV \<times> {i})\<^sup>* \<or> x = i \<or>
     (\<exists>c. (i, c) \<in> r \<and> c \<noteq> i \<and> (c, x) \<in> (r - UNIV \<times> {i})\<^sup>*)"
proof (induction rule: rtrancl_induct)
  case (step y z)
  show ?case
  proof (cases "z = i")
    case False
    then have edge: "(y, z) \<in> r - UNIV \<times> {i}" using step.hyps by blast
    from step.IH show ?thesis
      using edge step.hyps(2) False by (meson rtrancl.rtrancl_into_rtrancl rtrancl.rtrancl_refl)
  qed simp
qed simp

lemma below_dead: "tokens ts i = None \<Longrightarrow> below ts (i # stack) = below ts stack"
  by (auto simp: below_def)

lemma below_step:
  assumes i: "i \<in> dom (tokens ts)" and tok: "tokens ts' = (tokens ts)(i := None)"
    and rel: "parent_rel ts' = parent_rel ts - UNIV \<times> {i}"
    and cs: "set cs = {c. (i, c) \<in> parent_rel ts}"
  shows "below ts (i # stack) = insert i (below ts' (cs @ stack))" "i \<notin> below ts' (cs @ stack)"
proof -
  let ?r = "parent_rel ts" and ?r' = "parent_rel ts - UNIV \<times> {i}"
  have sub: "?r'\<^sup>* \<subseteq> ?r\<^sup>*" by (intro rtrancl_mono) blast
  have not_i: "s = i" if "(s, i) \<in> ?r'\<^sup>*" for s
    using that by (metis DiffE SigmaI UNIV_I insertI1 rtranclE)
  show "i \<notin> below ts' (cs @ stack)"
    using not_i by (auto simp: below_def rel tok)
  have live: "c \<in> dom (tokens ts')" if "(i, c) \<in> ?r" "c \<noteq> i" for c
    using that parent_rel_live by (fastforce simp: tok)
  show "below ts (i # stack) = insert i (below ts' (cs @ stack))"
  proof (intro equalityI subsetI)
    fix x assume "x \<in> below ts (i # stack)"
    then obtain s where s: "s \<in> set (i # stack)" "s \<in> dom (tokens ts)" "(s, x) \<in> ?r\<^sup>*"
      by (auto simp: below_def)
    consider "(s, x) \<in> ?r'\<^sup>*" | "x = i" | c where "(i, c) \<in> ?r" "c \<noteq> i" "(c, x) \<in> ?r'\<^sup>*"
      using rtrancl_cut [OF s(3), of i] by blast
    then show "x \<in> insert i (below ts' (cs @ stack))"
    proof cases
      case 1
      show ?thesis
      proof (cases "s = i")
        case True
        show ?thesis
        proof (cases "x = i")
          case False
          then obtain c where c: "(i, c) \<in> ?r'" "(c, x) \<in> ?r'\<^sup>*"
            using 1 True by (metis converse_rtranclE)
          then show ?thesis using cs live [of c] by (auto simp: below_def rel)
        qed simp
      next
        case False
        then show ?thesis using 1 s by (auto simp: below_def rel tok)
      qed
    next
      case (3 c)
      then show ?thesis using cs live [of c] by (auto simp: below_def rel)
    qed simp
  next
    fix x assume "x \<in> insert i (below ts' (cs @ stack))"
    then consider "x = i" | s where "s \<in> set cs \<union> set stack" "s \<in> dom (tokens ts')" "(s, x) \<in> ?r'\<^sup>*"
      by (auto simp: below_def rel)
    then show "x \<in> below ts (i # stack)"
    proof cases
      case 1 then show ?thesis using i by (auto simp: below_def)
    next
      case (2 s)
      then have x: "(s, x) \<in> ?r\<^sup>*" using sub by blast
      show ?thesis
      proof (cases "s \<in> set cs")
        case True
        then have "(i, x) \<in> ?r\<^sup>*" using x cs by (auto intro: converse_rtrancl_into_rtrancl)
        then show ?thesis using i by (auto simp: below_def)
      next
        case False
        then show ?thesis using 2 x by (auto simp: below_def tok split: if_splits)
      qed
    qed
  qed
qed

lemma below_subset: "below ts stack \<subseteq> dom (tokens ts)"
  by (auto simp: below_def elim: rtranclE dest: parent_rel_live)

lemma finite_children: "ts_ok ts \<Longrightarrow> finite (children ts i)"
proof -
  assume ok: "ts_ok ts"
  have "children ts i \<subseteq> dom (tokens ts)"
    using ts_okD(6) [OF ok, of _ i] parent_rel_live [of i _ ts] unfolding children_eq by blast
  then show ?thesis using ts_okD(1) [OF ok] by (rule finite_subset)
qed

lemma children_dead: "ts_ok ts \<Longrightarrow> tokens ts i = None \<Longrightarrow> parent_to_children ts i = None"
proof -
  assume ok: "ts_ok ts" and "tokens ts i = None"
  then have "members (parent_to_children ts) i = {}" using ts_okD(6) [OF ok, of _ i] by auto
  then show ?thesis using ts_okD(3) [OF ok] by (simp add: pruned_None_iff)
qed

lemma cascade_loop_ok:
  assumes "ts_ok ts" and w: "walks walk"
  shows "\<exists>rs ts'. cascade_loop walk stack removed ts = Some (removed @ rs, ts') \<and> ts_ok ts' \<and>
    distinct (map fst rs) \<and> set rs = {(i, t). i \<in> below ts stack \<and> tokens ts i = Some t} \<and>
    tokens ts' = (\<lambda>i. if i \<in> below ts stack then None else tokens ts i)"
  using assms(1)
proof (induction "card (dom (tokens ts))" arbitrary: ts stack removed rule: less_induct)
  case less
  note outer = less.hyps and ok' = less.prems
  from ok' show ?case
  proof (induction stack arbitrary: removed)
    case Nil
    then show ?case by (auto simp: cascade_loop.simps below_def intro: exI [of _ "[]"])
  next
    case (Cons i stack)
    note ok = Cons.prems
    show ?case
    proof (cases "tokens ts i")
      case None
      have "cascade_loop walk (i # stack) removed ts = cascade_loop walk stack removed ts"
        using None by (subst cascade_loop.simps) (simp add: children_dead [OF ok None] token_remove_unknown)
      with Cons.IH [OF ok] None show ?thesis by (simp add: below_dead)
    next
      case (Some t)
      obtain ts1 where ts1: "token_remove i ts = (Some t, ts1)" "ts_ok ts1"
        "tokens ts1 = (tokens ts)(i := None)" "parent_rel ts1 = parent_rel ts - UNIV \<times> {i}"
        using token_remove_ok [OF ok Some] .
      define cs where "cs = (case parent_to_children ts i of None \<Rightarrow> [] | Some S \<Rightarrow> rev (walk S))"
      have "set cs = children ts i"
        using w finite_children [OF ok, of i]
        by (auto simp: cs_def children_def walks_def enumerates_def split: option.splits)
      then have cs: "set cs = {c. (i, c) \<in> parent_rel ts}"
        using ts_okD(6) [OF ok, of _ i] Some by (auto simp: children_eq)
      have i: "i \<in> dom (tokens ts)" using Some by auto
      have "dom (tokens ts1) = dom (tokens ts) - {i}" by (simp add: ts1(3))
      then have "card (dom (tokens ts1)) < card (dom (tokens ts))"
        using card_Diff1_less [OF ts_okD(1) [OF ok] i] by (simp only:)
      from outer [OF this ts1(2), of "cs @ stack" "removed @ [(i, t)]"] obtain rs ts' where
        loop: "cascade_loop walk (cs @ stack) (removed @ [(i, t)]) ts1 = Some ((removed @ [(i, t)]) @ rs, ts')"
          "ts_ok ts'" "distinct (map fst rs)"
          "set rs = {(j, u). j \<in> below ts1 (cs @ stack) \<and> tokens ts1 j = Some u}"
          "tokens ts' = (\<lambda>j. if j \<in> below ts1 (cs @ stack) then None else tokens ts1 j)" by blast
      note bel = below_step [OF i ts1(3,4) cs, of stack]
      have "cascade_loop walk (i # stack) removed ts =
          cascade_loop walk (cs @ stack) (removed @ [(i, t)]) ts1"
        by (subst cascade_loop.simps) (simp add: ts1(1) cs_def split: option.split)
      then have "cascade_loop walk (i # stack) removed ts = Some (removed @ ((i, t) # rs), ts')"
        using loop(1) by simp
      moreover have "distinct (map fst ((i, t) # rs))"
        using loop(3,4) bel(2) by force
      moreover have "set ((i, t) # rs) = {(j, u). j \<in> below ts (i # stack) \<and> tokens ts j = Some u}"
        using bel(2) Some by (auto simp: loop(4) bel(1) ts1(3) split: if_splits)
      moreover have "tokens ts' = (\<lambda>j. if j \<in> below ts (i # stack) then None else tokens ts j)"
        using bel(2) by (auto simp: loop(5) bel(1) ts1(3) fun_eq_iff)
      ultimately show ?thesis using loop(2) by blast
    qed
  qed
qed

lemma below_single: "i \<in> dom (tokens ts) \<Longrightarrow> below ts [i] = descendants ts i"
  by (auto simp: below_def descendants_def)

section \<open>Walks over parent links\<close>

lemma wf_parent_rel: "ts_ok ts \<Longrightarrow> wf (parent_rel ts)"
proof (rule finite_acyclic_wf)
  assume ok: "ts_ok ts"
  have "parent_rel ts \<subseteq> (\<lambda>c. (the (tok_parent (the (tokens ts c))), c)) ` dom (tokens ts)"
    by (force simp: parent_rel_def)
  then show "finite (parent_rel ts)" using ts_okD(1) [OF ok] by (meson finite_imageI finite_subset)
qed (rule ts_okD(7))

inductive ancestry :: "token_store \<Rightarrow> token_id \<Rightarrow> token_id list \<Rightarrow> bool" for ts where
  anc_dead: "tokens ts i = None \<Longrightarrow> ancestry ts i [i]"
| anc_root: "tokens ts i = Some t \<Longrightarrow> tok_parent t = None \<Longrightarrow> ancestry ts i [i]"
| anc_step: "tokens ts i = Some t \<Longrightarrow> tok_parent t = Some p \<Longrightarrow> ancestry ts p xs \<Longrightarrow>
    ancestry ts i (i # xs)"

lemma ancestry_ex:
  assumes ok: "ts_ok ts"
  shows "\<exists>xs. ancestry ts i xs"
proof (induction i rule: wf_induct_rule [OF wf_parent_rel [OF ok]])
  case (1 i)
  show ?case
  proof (cases "tokens ts i")
    case None
    then show ?thesis by (auto intro: anc_dead)
  next
    case (Some t)
    show ?thesis
    proof (cases "tok_parent t")
      case None
      with Some show ?thesis by (auto intro: anc_root)
    next
      case p: (Some p)
      then have "(p, i) \<in> parent_rel ts" using Some by (simp add: parent_rel_iff)
      with 1 obtain xs where "ancestry ts p xs" by blast
      with Some p show ?thesis by (auto intro: anc_step)
    qed
  qed
qed

lemma parent_chain_ancestry:
  "ancestry ts i xs \<Longrightarrow> parent_chain ts (Some i) chain = Some (chain @ xs)"
proof (induction arbitrary: chain rule: ancestry.induct)
  case (anc_dead i)
  then show ?case by (simp add: parent_chain.simps)
next
  case (anc_root i t)
  then show ?case by (simp add: parent_chain.simps)
next
  case (anc_step i t p xs)
  then show ?case by (subst parent_chain.simps) simp
qed

text \<open>The facts along an ancestry, root first.\<close>

definition own_fact :: "token_store \<Rightarrow> token_id \<Rightarrow> fact_id list" where
  "own_fact ts i = (case tokens ts i of None \<Rightarrow> [] | Some t \<Rightarrow>
     (case tok_fact t of None \<Rightarrow> [] | Some f \<Rightarrow> [f]))"

lemma collect_ancestry:
  "ancestry ts i xs \<Longrightarrow> collect_all_facts ts i = Some (concat (map (own_fact ts) (rev xs)))"
proof -
  have "List.map_filter (\<lambda>j. case tokens ts j of None \<Rightarrow> None | Some t \<Rightarrow> tok_fact t) ys =
      concat (map (own_fact ts) ys)" for ys
    by (induction ys) (auto simp: map_filter_simps own_fact_def split: option.split)
  then show "ancestry ts i xs \<Longrightarrow> ?thesis"
    by (simp add: collect_all_facts_def parent_chain_ancestry)
qed

lemma collect_all_facts_rec:
  assumes ok: "ts_ok ts"
  obtains fs where "collect_all_facts ts i = Some fs"
    "fs = (case tokens ts i of None \<Rightarrow> [] | Some t \<Rightarrow>
       (case tok_parent t of None \<Rightarrow> [] | Some p \<Rightarrow> the (collect_all_facts ts p)) @ own_fact ts i)"
proof -
  obtain xs where anc: "ancestry ts i xs" using ancestry_ex [OF ok] by blast
  then show thesis
  proof cases
    case anc_dead
    with collect_ancestry [OF anc] show thesis by (intro that) (simp_all add: own_fact_def)
  next
    case (anc_root t)
    with collect_ancestry [OF anc] show thesis by (intro that) simp_all
  next
    case (anc_step t p ys)
    with collect_ancestry [OF anc] collect_ancestry [OF anc_step(4)] show thesis
      by (intro that) simp_all
  qed
qed

lemma is_retraction_root_iff:
  assumes ok: "ts_ok ts"
  shows "is_retraction_root ts S i = Some (\<forall>a \<in> S. (a, i) \<notin> (parent_rel ts)\<^sup>+)"
proof (induction i rule: wf_induct_rule [OF wf_parent_rel [OF ok]])
  case (1 i)
  have up: "(a, i) \<in> (parent_rel ts)\<^sup>+ \<longleftrightarrow>
      (\<exists>p. (p, i) \<in> parent_rel ts \<and> (a = p \<or> (a, p) \<in> (parent_rel ts)\<^sup>+))" for a
    by (metis trancl.simps)
  show ?case
  proof (cases "\<exists>p. (p, i) \<in> parent_rel ts")
    case False
    then have "is_retraction_root ts S i = Some True"
      by (subst is_retraction_root.simps) (auto simp: parent_rel_iff split: option.split)
    moreover have "\<forall>a \<in> S. (a, i) \<notin> (parent_rel ts)\<^sup>+" using False up by blast
    ultimately show ?thesis by simp
  next
    case True
    then obtain p t where p: "tokens ts i = Some t" "tok_parent t = Some p" by (auto simp: parent_rel_iff)
    then have rel: "(q, i) \<in> parent_rel ts \<longleftrightarrow> q = p" for q by (auto simp: parent_rel_iff)
    have "is_retraction_root ts S i = (if p \<in> S then Some False else is_retraction_root ts S p)"
      by (subst is_retraction_root.simps) (simp add: p)
    with "1.IH" [of p] rel show ?thesis by (auto simp: up)
  qed
qed

lemma retraction_roots_eq:
  assumes ok: "ts_ok ts"
  shows "retraction_roots ts order =
    Some (filter (\<lambda>i. \<forall>a \<in> set order. (a, i) \<notin> (parent_rel ts)\<^sup>+) order)"
proof -
  have "retraction_roots_loop ts S xs = Some (filter P xs)"
    if "\<And>i. is_retraction_root ts S i = Some (P i)" for S xs P
    by (induction xs) (simp_all add: that)
  from this [OF is_retraction_root_iff [OF ok]] show ?thesis by (simp add: retraction_roots_def)
qed

text \<open>Every affected token lies below a root.\<close>

lemma root_above:
  assumes ok: "ts_ok ts" and i: "i \<in> S"
  shows "\<exists>r \<in> S. (\<forall>a \<in> S. (a, r) \<notin> (parent_rel ts)\<^sup>+) \<and> (r, i) \<in> (parent_rel ts)\<^sup>*"
  using i
proof (induction i rule: wf_induct_rule [OF wf_trancl [OF wf_parent_rel [OF ok]]])
  case (1 i)
  show ?case
  proof (cases "\<forall>a \<in> S. (a, i) \<notin> (parent_rel ts)\<^sup>+")
    case True
    with "1.prems" show ?thesis by blast
  next
    case False
    then obtain a where "a \<in> S" "(a, i) \<in> (parent_rel ts)\<^sup>+" by blast
    with "1.IH" show ?thesis by (meson rtrancl_trans trancl_into_rtrancl)
  qed
qed

section \<open>Reachable stores\<close>

inductive ts_reach :: "token_store \<Rightarrow> bool" where
  ts_new: "ts_reach token_store_new"
| ts_insert: "ts_reach ts \<Longrightarrow> never_used i ts \<Longrightarrow> parent_live t ts \<Longrightarrow> ts_reach (token_insert i t ts)"
| ts_insert_sequence: "ts_reach ts \<Longrightarrow> never_used i ts \<Longrightarrow> parent_live t ts \<Longrightarrow> tok_fact t \<noteq> None \<Longrightarrow>
    ts_reach (insert_sequence_match i t lengths ts)"
| ts_remove: "ts_reach ts \<Longrightarrow> token_remove i ts = (r, ts') \<Longrightarrow> ts_reach ts'"
| ts_cascade: "ts_reach ts \<Longrightarrow> walks walk \<Longrightarrow> remove_cascade walk i ts = Some (removed, ts') \<Longrightarrow> ts_reach ts'"
| ts_clear: "ts_reach ts \<Longrightarrow> ts_reach (token_clear ts)"

lemma token_remove_keeps: "ts_ok ts \<Longrightarrow> token_remove i ts = (r, ts') \<Longrightarrow> ts_ok ts'"
  by (cases "tokens ts i") (auto simp: token_remove_unknown elim: token_remove_ok)

section \<open>Properties\<close>

text \<open>
  C19: The token store stays consistent. Every store reachable by insertions (of tokens whose
  parent is stored), sequence matches, single removals that orphan children, cascading removals
  and clears satisfies the consistency check of the code and, beyond it, its parent links are
  acyclic and its two indexes list exactly the tokens they should.
\<close>

theorem token_store_consistent:
  assumes "ts_reach ts"
  shows "validate_consistency ts \<and> ts_ok ts"
proof -
  have "ts_ok ts"
    using assms
  proof (induction rule: ts_reach.induct)
    case (ts_remove ts i r ts')
    then show ?case by (blast intro: token_remove_keeps)
  next
    case (ts_cascade ts walk i removed ts')
    with cascade_loop_ok [OF ts_cascade.IH, of walk "[i]" "[]"] show ?case
      by (auto simp: remove_cascade_def)
  qed (simp_all add: token_insert_ok insert_sequence_match_ok)
  then show ?thesis by (simp add: ts_ok_validate)
qed

theorem token_store_consistent_witness:
  "validate_consistency (token_insert (TokenId 1)
     \<lparr>tok_fact = Some (FactId 0), tok_bindings = [], tok_parent = None, tok_owner = 0\<rparr> token_store_new)"
  by (rule token_store_consistent [THEN conjunct1], rule ts_insert [OF ts_new])
    (simp_all add: never_used_def fresh_key_def token_store_new_def parent_rel_def parent_live_def)

text \<open>
  C20: Cascading removal deletes exactly a subtree. On a consistent store it terminates, whatever
  order the hash sets are walked in; it returns the removed token and all its stored descendants,
  each once and with its contents, and leaves every other token untouched and the store
  consistent.
\<close>

theorem remove_cascade_exact:
  assumes "ts_ok ts" and "walks walk" and "root \<in> dom (tokens ts)"
  shows "case remove_cascade walk root ts of
      None \<Rightarrow> False
    | Some (removed, ts') \<Rightarrow> distinct (map fst removed) \<and>
        set removed = {(i, t). i \<in> descendants ts root \<and> tokens ts i = Some t} \<and>
        tokens ts' = (\<lambda>i. if i \<in> descendants ts root then None else tokens ts i) \<and> ts_ok ts'"
  using cascade_loop_ok [OF assms(1,2), of "[root]" "[]"] assms(3)
  by (auto simp: remove_cascade_def below_single)

text \<open>
  C21: Retraction roots are minimal and sufficient. On a consistent store the computation
  terminates for every set of affected tokens and answers exactly those with no proper ancestor
  in the set; no root lies below another, and every affected token lies below some root, so
  cascading from the roots removes every affected token and no subtree twice.
\<close>

theorem retraction_roots_exact:
  assumes "ts_ok ts"
  shows "case retraction_roots ts order of None \<Rightarrow> False | Some rs \<Rightarrow>
      rs = filter (\<lambda>i. \<forall>a \<in> set order. (a, i) \<notin> (parent_rel ts)\<^sup>+) order \<and>
      (\<forall>r \<in> set rs. \<forall>s \<in> set rs. r \<in> descendants ts s \<longrightarrow> r = s) \<and>
      set order \<subseteq> (\<Union>r \<in> set rs. descendants ts r)"
proof -
  let ?rs = "filter (\<lambda>i. \<forall>a \<in> set order. (a, i) \<notin> (parent_rel ts)\<^sup>+) order"
  have "r = s" if "r \<in> set ?rs" "s \<in> set ?rs" "r \<in> descendants ts s" for r s
    using that by (auto simp: descendants_def dest: rtranclD)
  moreover have "set order \<subseteq> (\<Union>r \<in> set ?rs. descendants ts r)"
    using root_above [OF assms, of _ "set order"] by (fastforce simp: descendants_def)
  ultimately show ?thesis
    by (simp only: retraction_roots_eq [OF assms] option.case) blast
qed

text \<open>
  C22: The facts of a match are read off in pattern order. Walking the parent chain terminates on
  a consistent store, and the list it yields is the parent's list followed by the token's own
  fact, if it has one; an id that is not stored has no facts.
\<close>

theorem collect_all_facts_pattern_order:
  assumes "ts_ok ts"
  shows "case collect_all_facts ts i of None \<Rightarrow> False | Some fs \<Rightarrow>
    fs = (case tokens ts i of
        None \<Rightarrow> []
      | Some t \<Rightarrow> (case tok_parent t of None \<Rightarrow> [] | Some p \<Rightarrow> the (collect_all_facts ts p)) @
                   (case tok_fact t of None \<Rightarrow> [] | Some f \<Rightarrow> [f]))"
  by (rule collect_all_facts_rec [OF assms, of i])
    (simp add: own_fact_def split: option.split)

text \<open>A store with a token and its child, to apply the theorems to.\<close>

definition sample_store :: token_store where
  "sample_store =
     token_insert (TokenId 2) \<lparr>tok_fact = Some (FactId 8), tok_bindings = [], tok_parent = Some (TokenId 1), tok_owner = 1\<rparr>
       (token_insert (TokenId 1) \<lparr>tok_fact = Some (FactId 7), tok_bindings = [], tok_parent = None, tok_owner = 0\<rparr>
         token_store_new)"

lemma sample_store_ok: "ts_ok sample_store"
  unfolding sample_store_def
  by (intro token_insert_ok ts_ok_new)
    (auto simp: never_used_def fresh_key_def parent_live_def token_store_new_def parent_rel_def)

lemma sample_store_tokens:
  "tokens sample_store =
     [TokenId 1 \<mapsto> \<lparr>tok_fact = Some (FactId 7), tok_bindings = [], tok_parent = None, tok_owner = 0\<rparr>,
      TokenId 2 \<mapsto> \<lparr>tok_fact = Some (FactId 8), tok_bindings = [], tok_parent = Some (TokenId 1), tok_owner = 1\<rparr>]"
  by (simp add: sample_store_def token_store_new_def)

lemma sample_child: "TokenId 2 \<in> descendants sample_store (TokenId 1)"
  by (auto simp: descendants_def parent_rel_def sample_store_tokens)

lemma walks_ex: "\<exists>walk. walks walk"
  unfolding walks_def by (metis ex_enumerates)

theorem remove_cascade_exact_witness:
  "\<exists>walk removed ts'. remove_cascade walk (TokenId 1) sample_store = Some (removed, ts') \<and>
     tokens ts' (TokenId 2) = None \<and> TokenId 2 \<in> fst ` set removed"
proof -
  obtain walk :: "token_id set \<Rightarrow> token_id list" where w: "walks walk" using walks_ex by blast
  have root: "TokenId 1 \<in> dom (tokens sample_store)" by (simp add: sample_store_tokens)
  from remove_cascade_exact [OF sample_store_ok w root] obtain removed ts' where
    res: "remove_cascade walk (TokenId 1) sample_store = Some (removed, ts')"
    "set removed = {(i, t). i \<in> descendants sample_store (TokenId 1) \<and> tokens sample_store i = Some t}"
    "tokens ts' = (\<lambda>i. if i \<in> descendants sample_store (TokenId 1) then None else tokens sample_store i)"
    by (auto split: option.splits prod.splits)
  obtain t where "tokens sample_store (TokenId 2) = Some t" by (simp add: sample_store_tokens)
  then have "TokenId 2 \<in> fst ` set removed" using res(2) sample_child by force
  with res(1,3) sample_child show ?thesis
    by (intro exI [of _ walk] exI [of _ removed] exI [of _ ts'] conjI) simp_all
qed

theorem retraction_roots_exact_witness:
  "retraction_roots sample_store [TokenId 2] \<noteq> None"
proof
  assume "retraction_roots sample_store [TokenId 2] = None"
  with retraction_roots_exact [OF sample_store_ok, of "[TokenId 2]"] show False by simp
qed

theorem collect_all_facts_pattern_order_witness:
  "collect_all_facts sample_store (TokenId 2) = Some [FactId 7, FactId 8]"
  using collect_all_facts_pattern_order [OF sample_store_ok, of "TokenId 2"]
    collect_all_facts_pattern_order [OF sample_store_ok, of "TokenId 1"]
  by (auto simp: sample_store_tokens split: option.splits)

end
