(* ===== verification/Tree_Map.thy ===== *)
theory Tree_Map
  imports Prelude
begin

text \<open>
  \<open>std::collections::BTreeMap\<close> as the list of its entries in ascending key order, with the
  operations the engine calls on it: \<open>insert\<close>, \<open>remove\<close>, \<open>get\<close>, \<open>first_key_value\<close>,
  \<open>pop_first\<close> and the range query for the first key after a bound. \<open>bt_ok\<close> is the invariant
  (keys strictly ascending); on it every operation acts on \<^const>\<open>map_of\<close> as on a map.
\<close>

type_synonym ('k, 'v) btree = "('k \<times> 'v) list"

fun bt_insert :: "'k::linorder \<Rightarrow> 'v \<Rightarrow> ('k, 'v) btree \<Rightarrow> ('k, 'v) btree" where
  "bt_insert k v [] = [(k, v)]"
| "bt_insert k v ((j, w) # ps) =
     (if k < j then (k, v) # (j, w) # ps
      else if k = j then (k, v) # ps
      else (j, w) # bt_insert k v ps)"

fun bt_remove :: "'k::linorder \<Rightarrow> ('k, 'v) btree \<Rightarrow> ('k, 'v) btree" where
  "bt_remove k [] = []"
| "bt_remove k ((j, w) # ps) = (if k = j then ps else (j, w) # bt_remove k ps)"

definition bt_get :: "'k::linorder \<Rightarrow> ('k, 'v) btree \<Rightarrow> 'v option" where
  "bt_get k t = map_of t k"

definition bt_first :: "('k, 'v) btree \<Rightarrow> ('k \<times> 'v) option" where
  "bt_first t = (case t of [] \<Rightarrow> None | p # _ \<Rightarrow> Some p)"

definition bt_first_after :: "'k::linorder \<Rightarrow> ('k, 'v) btree \<Rightarrow> ('k \<times> 'v) option" where
  "bt_first_after k t = find (\<lambda>(j, _). k < j) t"

definition bt_ok :: "('k::linorder, 'v) btree \<Rightarrow> bool" where
  "bt_ok t \<longleftrightarrow> sorted_wrt (<) (map fst t)"

text \<open>Building a tree map from a traversal, as \<open>collect\<close> does.\<close>

definition bt_of_list :: "('k::linorder \<times> 'v) list \<Rightarrow> ('k, 'v) btree" where
  "bt_of_list ps = fold (\<lambda>(k, v). bt_insert k v) ps []"

named_theorems bt_simps

lemma bt_ok_Nil [simp]: "bt_ok []"
  by (simp add: bt_ok_def)

lemma bt_ok_Cons: "bt_ok ((k, v) # ps) \<longleftrightarrow> (\<forall>j \<in> fst ` set ps. k < j) \<and> bt_ok ps"
  by (auto simp: bt_ok_def)

lemma bt_ok_distinct: "bt_ok t \<Longrightarrow> distinct (map fst t)"
  by (simp add: bt_ok_def strict_sorted_imp_sorted strict_sorted_iff)

lemma keys_bt_insert [bt_simps]: "fst ` set (bt_insert k v t) = insert k (fst ` set t)"
  by (induction k v t rule: bt_insert.induct) auto

lemma bt_insert_ok [bt_simps]: "bt_ok t \<Longrightarrow> bt_ok (bt_insert k v t)"
  by (induction k v t rule: bt_insert.induct) (auto simp: bt_ok_Cons keys_bt_insert)

lemma map_of_bt_insert [bt_simps]: "bt_ok t \<Longrightarrow> map_of (bt_insert k v t) = (map_of t)(k \<mapsto> v)"
proof (induction k v t rule: bt_insert.induct)
  case (2 k v j w ps)
  have absent: "map_of ps k = None" if "k \<le> j"
    using that "2.prems" by (force simp: bt_ok_Cons map_of_eq_None_iff)
  show ?case using 2 absent by (auto simp: bt_ok_Cons fun_eq_iff)
qed simp

lemma set_bt_insert_new: "k \<notin> fst ` set t \<Longrightarrow> set (bt_insert k v t) = insert (k, v) (set t)"
  by (induction k v t rule: bt_insert.induct) auto

lemma length_bt_insert_new: "k \<notin> fst ` set t \<Longrightarrow> length (bt_insert k v t) = Suc (length t)"
  by (induction k v t rule: bt_insert.induct) auto

lemma set_bt_remove_subset: "set (bt_remove k t) \<subseteq> set t"
  by (induction k t rule: bt_remove.induct) auto

lemma bt_remove_ok [bt_simps]: "bt_ok t \<Longrightarrow> bt_ok (bt_remove k t)"
proof (induction k t rule: bt_remove.induct)
  case (2 k j w ps)
  then show ?case
    using set_bt_remove_subset [of k ps] by (auto simp: bt_ok_Cons)
qed simp

lemma map_of_bt_remove [bt_simps]: "bt_ok t \<Longrightarrow> map_of (bt_remove k t) = (map_of t)(k := None)"
proof (induction k t rule: bt_remove.induct)
  case (2 k j w ps)
  have absent: "map_of ps j = None"
    using "2.prems" by (force simp: bt_ok_Cons map_of_eq_None_iff)
  show ?case using 2 absent by (auto simp: bt_ok_Cons fun_eq_iff)
qed (simp add: fun_eq_iff)

lemma set_bt_remove [bt_simps]: "bt_ok t \<Longrightarrow> set (bt_remove k t) = {p \<in> set t. fst p \<noteq> k}"
proof (induction k t rule: bt_remove.induct)
  case (2 k j w ps)
  then show ?case by (auto simp: bt_ok_Cons split: if_splits)
qed simp

lemma bt_remove_absent: "k \<notin> fst ` set t \<Longrightarrow> bt_remove k t = t"
  by (induction k t rule: bt_remove.induct) auto

lemma bt_remove_filter: "bt_ok t \<Longrightarrow> bt_remove k t = filter (\<lambda>p. fst p \<noteq> k) t"
proof (induction k t rule: bt_remove.induct)
  case (2 k j w ps)
  then show ?case by (auto simp: bt_ok_Cons intro!: filter_True [symmetric])
qed simp

lemma map_of_eq_Some_iff_bt: "bt_ok t \<Longrightarrow> map_of t k = Some v \<longleftrightarrow> (k, v) \<in> set t"
  by (simp add: bt_ok_distinct)

lemma bt_first_None_iff [simp]: "bt_first t = None \<longleftrightarrow> t = []"
  by (simp add: bt_first_def split: list.split)

lemma bt_first_least:
  assumes "bt_ok t" "bt_first t = Some (k, v)"
  shows "(k, v) \<in> set t" "(j, w) \<in> set t \<Longrightarrow> k \<le> j"
  using assms by (auto simp: bt_first_def bt_ok_Cons split: list.splits intro: less_imp_le)

lemma bt_first_after_SomeD:
  assumes "bt_ok t" "bt_first_after k t = Some (j, w)"
  shows "(j, w) \<in> set t" "k < j" "(i, u) \<in> set t \<Longrightarrow> k < i \<Longrightarrow> j \<le> i"
proof -
  from assms(2) have "\<exists>n<length t. (\<lambda>(j, _). k < j) (t ! n) \<and> (j, w) = t ! n \<and>
      (\<forall>m<n. \<not> (\<lambda>(j, _). k < j) (t ! m))"
    by (simp only: bt_first_after_def find_Some_iff)
  then obtain n where n: "n < length t" "t ! n = (j, w)" "k < j" "\<forall>m<n. \<not> k < fst (t ! m)"
    by (metis (mono_tags, lifting) case_prod_beta fst_conv)
  then show "(j, w) \<in> set t" "k < j" by (metis nth_mem)+
  show "j \<le> i" if i: "(i, u) \<in> set t" "k < i"
  proof -
    from i(1) obtain m where m: "m < length t" "t ! m = (i, u)" by (metis in_set_conv_nth)
    with n i have "n \<le> m" by (metis fst_conv not_le)
    moreover have "fst (t ! n) < fst (t ! m)" if "n < m"
      using assms(1) m(1) that by (auto simp: bt_ok_def sorted_wrt_iff_nth_less)
    ultimately show ?thesis using m n by (cases "n = m") auto
  qed
qed

lemma bt_first_after_None_iff: "bt_first_after k t = None \<longleftrightarrow> (\<forall>(j, w) \<in> set t. \<not> k < j)"
  by (auto simp: bt_first_after_def find_None_iff)

text \<open>Two ordered trees with the same entries are equal: traversal order never shows.\<close>

lemma bt_eqI:
  assumes "bt_ok s" "bt_ok t" "set s = set t"
  shows "s = t"
proof -
  have keys: "map fst s = map fst t"
    using assms by (intro strict_sorted_equal) (auto simp: bt_ok_def)
  have "map_of s = map_of t"
  proof
    fix k
    show "map_of s k = map_of t k"
      using assms map_of_eq_Some_iff_bt [OF assms(1), of k] map_of_eq_Some_iff_bt [OF assms(2), of k]
      by (metis not_Some_eq)
  qed
  moreover have "p = (fst p, the (map_of t (fst p)))" if "p \<in> set t" for p
    using that assms(2) by (metis map_of_eq_Some_iff_bt option.sel prod.collapse)
  moreover have "p = (fst p, the (map_of s (fst p)))" if "p \<in> set s" for p
    using that assms(1) by (metis map_of_eq_Some_iff_bt option.sel prod.collapse)
  ultimately have "t = map (\<lambda>k. (k, the (map_of t k))) (map fst t)"
      "s = map (\<lambda>k. (k, the (map_of t k))) (map fst s)"
    by (simp_all add: map_idI comp_def)
  with keys show ?thesis by metis
qed

lemma fold_bt_insert_ok: "bt_ok t \<Longrightarrow> bt_ok (fold (\<lambda>(k, v). bt_insert k v) ps t)"
  by (induction ps arbitrary: t) (auto simp: bt_simps)

lemma set_fold_bt_insert:
  assumes "distinct (map fst ps)" "fst ` set ps \<inter> fst ` set t = {}"
  shows "set (fold (\<lambda>(k, v). bt_insert k v) ps t) = set ps \<union> set t"
  using assms
proof (induction ps arbitrary: t)
  case (Cons p ps)
  obtain k v where p: "p = (k, v)" by (cases p)
  from Cons.prems p have "set (fold (\<lambda>(k, v). bt_insert k v) ps (bt_insert k v t)) =
      set ps \<union> set (bt_insert k v t)"
    by (intro Cons.IH) (auto simp: keys_bt_insert)
  also have "\<dots> = set (p # ps) \<union> set t"
    using Cons.prems p by (auto simp: set_bt_insert_new)
  finally show ?case by (simp add: p)
qed simp

lemma bt_of_list_ok [bt_simps]: "bt_ok (bt_of_list ps)"
  by (simp add: bt_of_list_def fold_bt_insert_ok)

lemma set_bt_of_list: "distinct (map fst ps) \<Longrightarrow> set (bt_of_list ps) = set ps"
  by (simp add: bt_of_list_def set_fold_bt_insert)

end
