(* ===== verification/Agenda_Keys.thy ===== *)
theory Agenda_Keys
  imports Comparators Tree_Map
begin

text \<open>
  The ordering keys of \<open>agenda.rs\<close> and \<open>strategy.rs\<close>. Derived \<open>Ord\<close> compares the variants of an
  enum by position and then their fields, and the fields of a struct from the first to the last.
  The keys are a linear order, so they can be the keys of a tree map.
\<close>

datatype conflict_resolution_strategy = Depth | Breadth | Lex | Mea

definition default_strategy :: conflict_resolution_strategy where
  "default_strategy = Depth"

type_synonym activation_seq = u64
type_synonym salience = i32

text \<open>Zero is an absent match; a fact is its timestamp plus one.\<close>

type_synonym recency_tag = u64

definition recency_absent :: recency_tag where
  "recency_absent = 0"

definition recency_from_timestamp :: "u64 \<Rightarrow> recency_tag option" where
  "recency_from_timestamp t = checked_add_u t 1"

definition recency_timestamp :: "recency_tag \<Rightarrow> u64 option" where
  "recency_timestamp r = checked_sub_u r 1"

lemma recency_roundtrip: "recency_from_timestamp t = Some r \<Longrightarrow> recency_timestamp r = Some t"
proof -
  assume r: "recency_from_timestamp t = Some r"
  then have "r = t + 1" by (auto simp: recency_from_timestamp_def checked_add_u_def split: if_splits)
  moreover from r have "unat r = unat t + 1"
    using checked_add_u_SomeD by (fastforce simp: recency_from_timestamp_def)
  ultimately show ?thesis by (simp add: recency_timestamp_def checked_sub_u_def word_le_nat_alt)
qed

datatype strategy_ord =
    DepthOrd activation_seq
  | BreadthOrd activation_seq
  | LexOrd "recency_tag list"
  | MeaOrd recency_tag "recency_tag list"

text \<open>The variant's position, as derived comparison uses it.\<close>

fun variant :: "strategy_ord \<Rightarrow> nat" where
  "variant (DepthOrd _) = 0"
| "variant (BreadthOrd _) = 1"
| "variant (LexOrd _) = 2"
| "variant (MeaOrd _ _) = 3"

text \<open>All fields but that of \<open>Breadth\<close> are wrapped in \<open>Reverse\<close>.\<close>

fun same_variant_cmp :: "strategy_ord \<Rightarrow> strategy_ord \<Rightarrow> rust_ordering" where
  "same_variant_cmp (DepthOrd a) (DepthOrd b) = cmp_rev cmp_of a b"
| "same_variant_cmp (BreadthOrd a) (BreadthOrd b) = cmp_of a b"
| "same_variant_cmp (LexOrd a) (LexOrd b) = cmp_rev (cmp_slice cmp_of) a b"
| "same_variant_cmp (MeaOrd a x) (MeaOrd b y) =
     then_ord (cmp_rev cmp_of a b) (cmp_rev (cmp_slice cmp_of) x y)"
| "same_variant_cmp a b = Equal"

definition strategy_cmp :: "strategy_ord \<Rightarrow> strategy_ord \<Rightarrow> rust_ordering" where
  "strategy_cmp a b =
     (if variant a = variant b then same_variant_cmp a b else cmp_of (variant a) (variant b))"

datatype agenda_key = AgendaKey
  (key_salience: salience) (key_strategy: strategy_ord) (key_complexity: u16) (key_seq: activation_seq)

definition key_cmp :: "agenda_key \<Rightarrow> agenda_key \<Rightarrow> rust_ordering" where
  "key_cmp a b =
     then_ord (cmp_rev (cmp_on sint cmp_of) (key_salience a) (key_salience b))
       (then_ord (strategy_cmp (key_strategy a) (key_strategy b))
         (then_ord (cmp_rev cmp_of (key_complexity a) (key_complexity b))
           (cmp_of (key_seq a) (key_seq b))))"

section \<open>A linear order\<close>

lemma comparator_eqI: "comparator c e \<Longrightarrow> (\<And>a b. e a b \<longleftrightarrow> f a b) \<Longrightarrow> comparator c f"
  by (subgoal_tac "e = f") (auto simp: fun_eq_iff)

lemma comparator_recency: "comparator (cmp_rev (cmp_slice (cmp_of :: recency_tag \<Rightarrow> _))) (=)"
  by (rule comparator_rev, rule comparator_eqI [OF ord_cmp.comparator_slice]) (simp add: list_all2_eq)

lemma comparator_mea:
  "comparator (cmp_pair (cmp_rev (cmp_of :: recency_tag \<Rightarrow> _)) (cmp_rev (cmp_slice (cmp_of :: recency_tag \<Rightarrow> _)))) (=)"
  by (rule comparator_eqI [OF comparator_pair [OF comparator_rev [OF comparator_cmp_of] comparator_recency]])
    (auto simp: prod_eq_iff)

lemma strategy_cmp_same:
  "strategy_cmp (DepthOrd a) (DepthOrd b) = cmp_rev cmp_of a b"
  "strategy_cmp (BreadthOrd a) (BreadthOrd b) = cmp_of a b"
  "strategy_cmp (LexOrd x) (LexOrd y) = cmp_rev (cmp_slice cmp_of) x y"
  "strategy_cmp (MeaOrd a x) (MeaOrd b y) = cmp_pair (cmp_rev cmp_of) (cmp_rev (cmp_slice cmp_of)) (a, x) (b, y)"
  by (simp_all add: strategy_cmp_def cmp_pair_def)

lemma strategy_cmp_diff: "variant a \<noteq> variant b \<Longrightarrow> strategy_cmp a b = cmp_of (variant a) (variant b)"
  by (simp add: strategy_cmp_def)

text \<open>An enum whose variants compare by position and, within one variant, by a comparator.\<close>

lemma comparator_variants:
  assumes diff: "\<And>a b. (v a :: nat) \<noteq> v b \<Longrightarrow> c a b = cmp_of (v a) (v b)"
    and same: "\<And>a. \<exists>(f :: 'b \<Rightarrow> 'c) d. comparator d (=) \<and> inj_on f {x. v x = v a} \<and>
      (\<forall>x y. v x = v a \<longrightarrow> v y = v a \<longrightarrow> c x y = d (f x) (f y))"
  shows "comparator c (=)"
proof
  fix a b e :: 'b
  obtain f :: "'b \<Rightarrow> 'c" and d where fd: "comparator d (=)" "inj_on f {x. v x = v a}"
    "\<forall>x y. v x = v a \<longrightarrow> v y = v a \<longrightarrow> c x y = d (f x) (f y)" using same [of a] by blast
  have eq: "c a b = Equal \<longleftrightarrow> a = b" for b
  proof (cases "v a = v b")
    case True
    then have "c a b = Equal \<longleftrightarrow> f a = f b" using fd comparator.cmp_Equal_iff [OF fd(1)] by simp
    also have "\<dots> \<longleftrightarrow> a = b" using fd(2) True by (auto dest: inj_onD)
    finally show ?thesis .
  qed (auto simp: diff cmp_of_def split: if_splits)
  then show "c a b = Equal \<longleftrightarrow> a = b" .
  show "c b a = reverse_ord (c a b)"
  proof (cases "v a = v b")
    case True
    then show ?thesis using fd comparator.cmp_swap [OF fd(1), of "f b" "f a"] by simp
  qed (auto simp: diff cmp_of_def)
  show "c a e = Less" if "c a b = Less" "c b e = Less"
  proof (cases "v a = v b \<and> v b = v e")
    case True
    then show ?thesis
      using that fd(3) comparator.cmp_Less_trans [OF fd(1), of "f a" "f b" "f e"] by simp
  next
    case False
    have le: "v a \<le> v b" "v b \<le> v e"
      using that diff [of a b] diff [of b e] by (auto simp: cmp_of_def split: if_splits)
        (metis nat_le_linear nat_less_le rust_ordering.distinct)+
    with False have "v a < v e" by auto
    then show ?thesis by (simp add: diff cmp_of_def)
  qed
  show "c a e = c b e" if "c a b = Equal" using that eq by simp
qed

fun strategy_fields :: "strategy_ord \<Rightarrow> recency_tag \<times> recency_tag list" where
  "strategy_fields (DepthOrd a) = (a, [])"
| "strategy_fields (BreadthOrd a) = (a, [])"
| "strategy_fields (LexOrd x) = (0, x)"
| "strategy_fields (MeaOrd a x) = (a, x)"

lemma comparator_breadth:
  "comparator (cmp_pair (cmp_of :: recency_tag \<Rightarrow> _) (cmp_rev (cmp_slice (cmp_of :: recency_tag \<Rightarrow> _)))) (=)"
  by (rule comparator_eqI [OF comparator_pair [OF comparator_cmp_of comparator_recency]])
    (auto simp: prod_eq_iff)

lemma cmp_refl_simps [simp]:
  "cmp_of a a = Equal" "cmp_rev c a b = Equal \<longleftrightarrow> c b a = Equal" "cmp_slice cmp_of xs xs = Equal"
  by (auto simp: cmp_of_def cmp_rev_def ord_cmp.slice_Equal_iff list.rel_eq)

lemma then_ord_Equal_right [simp]: "then_ord r Equal = r"
  by (cases r) simp_all

lemma comparator_strategy: "comparator strategy_cmp (=)"
proof (rule comparator_variants [where v = variant])
  show "variant a \<noteq> variant b \<Longrightarrow> strategy_cmp a b = cmp_of (variant a) (variant b)" for a b
    by (rule strategy_cmp_diff)
  fix a
  let ?d = "if variant a = 1 then cmp_pair (cmp_of :: recency_tag \<Rightarrow> _) (cmp_rev (cmp_slice (cmp_of :: recency_tag \<Rightarrow> _)))
    else cmp_pair (cmp_rev cmp_of) (cmp_rev (cmp_slice cmp_of))"
  have "comparator ?d (=)" by (simp add: comparator_mea comparator_breadth)
  moreover have "inj_on strategy_fields {x. variant x = variant a}"
  proof (rule inj_onI)
    fix x y assume "x \<in> {x. variant x = variant a}" "y \<in> {x. variant x = variant a}"
      "strategy_fields x = strategy_fields y"
    then show "x = y" by (cases x; cases y) auto
  qed
  moreover have "strategy_cmp x y = ?d (strategy_fields x) (strategy_fields y)"
    if "variant x = variant a" "variant y = variant a" for x y
    using that by (cases x; cases y)
      (auto simp: strategy_cmp_def cmp_pair_def cmp_rev_def cmp_of_def)
  ultimately show "\<exists>(f :: strategy_ord \<Rightarrow> recency_tag \<times> recency_tag list) d. comparator d (=) \<and> inj_on f {x. variant x = variant a} \<and>
      (\<forall>x y. variant x = variant a \<longrightarrow> variant y = variant a \<longrightarrow> strategy_cmp x y = d (f x) (f y))"
    by (intro exI [of _ strategy_fields] exI [of _ ?d] conjI allI impI)
qed

lemma comparator_salience: "comparator (cmp_rev (cmp_on sint cmp_of)) ((=) :: salience \<Rightarrow> _)"
  by (rule comparator_rev, rule comparator_eqI [OF comparator_on [OF comparator_cmp_of]])
    (metis signed_word_eqI)

lemma comparator_key: "comparator key_cmp (=)"
proof -
  let ?f = "\<lambda>k. (key_salience k, key_strategy k, key_complexity k, key_seq k)"
  have "key_cmp = cmp_on ?f (cmp_pair (cmp_rev (cmp_on sint cmp_of))
      (cmp_pair strategy_cmp (cmp_pair (cmp_rev cmp_of) cmp_of)))"
    by (simp add: fun_eq_iff key_cmp_def cmp_on_def cmp_pair_def)
  then show ?thesis
    by (elim ssubst) (rule comparator_eqI [OF comparator_on [OF comparator_pair [OF comparator_salience
        comparator_pair [OF comparator_strategy
          comparator_pair [OF comparator_rev [OF comparator_cmp_of] comparator_cmp_of]]]]],
      auto intro: agenda_key.expand)
qed

interpretation key_ord: comparator key_cmp "(=)"
  by (rule comparator_key)

instantiation agenda_key :: linorder
begin

definition less_eq_agenda_key :: "agenda_key \<Rightarrow> agenda_key \<Rightarrow> bool" where
  "less_eq_agenda_key a b \<longleftrightarrow> key_cmp a b \<noteq> Greater"

definition less_agenda_key :: "agenda_key \<Rightarrow> agenda_key \<Rightarrow> bool" where
  "less_agenda_key a b \<longleftrightarrow> key_cmp a b = Less"

instance
proof
  fix a b c :: agenda_key
  show "a < b \<longleftrightarrow> a \<le> b \<and> \<not> b \<le> a"
    using key_ord.cmp_swap [of b a] by (cases "key_cmp a b") (auto simp: less_agenda_key_def less_eq_agenda_key_def)
  show "a \<le> a" using key_ord.cmp_Equal_iff [of a a] by (simp add: less_eq_agenda_key_def)
  show "a \<le> b \<Longrightarrow> b \<le> c \<Longrightarrow> a \<le> c"
    unfolding less_eq_agenda_key_def by (rule key_ord.le_trans)
  show "a \<le> b \<or> b \<le> a"
    unfolding less_eq_agenda_key_def by (rule key_ord.total)
  show "a \<le> b \<Longrightarrow> b \<le> a \<Longrightarrow> a = b"
    using key_ord.cmp_swap [of b a] key_ord.cmp_Equal_iff [of a b]
    by (cases "key_cmp a b") (auto simp: less_eq_agenda_key_def)
qed

end

text \<open>What being first means: higher salience wins outright.\<close>

lemma key_le_salience: "a \<le> b \<Longrightarrow> sint (key_salience b) \<le> sint (key_salience a)"
  by (auto simp: less_eq_agenda_key_def key_cmp_def cmp_rev_def cmp_on_def cmp_of_def split: if_splits)

lemma key_le_strategy:
  "a \<le> b \<Longrightarrow> key_salience a = key_salience b \<Longrightarrow> strategy_cmp (key_strategy a) (key_strategy b) \<noteq> Greater"
  by (auto simp: less_eq_agenda_key_def key_cmp_def cmp_rev_def cmp_on_def cmp_of_def)

end
