(* ===== verification/Agenda.thy ===== *)
theory Agenda
  imports Agenda_Keys Tokens
begin

text \<open>
  \<open>agenda.rs\<close>: the activations of the engine in firing order. The id of an added activation and
  the walking order of the activation slot map are arguments; the ordering tree is a tree map
  over \<^typ>\<open>agenda_key\<close>.
\<close>

section \<open>State\<close>

datatype activation_id = ActivationId nat

type_synonym rule_id = u32

record activation =
  act_id :: activation_id
  act_rule :: rule_id
  act_token :: token_id
  act_salience :: salience
  act_complexity :: u16
  act_timestamp :: timestamp
  act_seq :: activation_seq
  act_recency :: "recency_tag list"

type_synonym rule_ordering = "rule_id \<rightharpoonup> (agenda_key, activation_id) btree"

record agenda =
  rule_ordering :: "rule_ordering option"
  ordering :: "(agenda_key, activation_id) btree"
  activations :: "activation_id \<rightharpoonup> activation"
  id_to_key :: "activation_id \<rightharpoonup> agenda_key"
  token_to_activations :: "token_id \<rightharpoonup> activation_id list"
  next_seq :: activation_seq
  strategy :: conflict_resolution_strategy

definition with_strategy :: "conflict_resolution_strategy \<Rightarrow> agenda" where
  "with_strategy s = \<lparr>rule_ordering = None, ordering = [], activations = Map.empty,
     id_to_key = Map.empty, token_to_activations = Map.empty, next_seq = 0, strategy = s\<rparr>"

definition agenda_new :: agenda where
  "agenda_new = with_strategy default_strategy"

section \<open>Operations\<close>

text \<open>\<open>index.entry(rule).or_default().insert(key, id)\<close> and its inverse.\<close>

definition add_rule_key :: "rule_id \<Rightarrow> agenda_key \<Rightarrow> activation_id \<Rightarrow> rule_ordering \<Rightarrow> rule_ordering" where
  "add_rule_key r k i index =
     index(r \<mapsto> bt_insert k i (case index r of None \<Rightarrow> [] | Some es \<Rightarrow> es))"

definition remove_rule_key :: "rule_ordering \<Rightarrow> rule_id \<Rightarrow> agenda_key \<Rightarrow> rule_ordering" where
  "remove_rule_key index r k =
     (case index r of
        None \<Rightarrow> index
      | Some entries \<Rightarrow>
          (let es = bt_remove k entries in if es = [] then index(r := None) else index(r \<mapsto> es)))"

definition sort_descending :: "recency_tag list \<Rightarrow> recency_tag list" where
  "sort_descending xs = rev (sort xs)"

definition build_key :: "conflict_resolution_strategy \<Rightarrow> activation \<Rightarrow> agenda_key" where
  "build_key s a =
     AgendaKey (act_salience a)
       (case s of
          Depth \<Rightarrow> DepthOrd (act_seq a)
        | Breadth \<Rightarrow> BreadthOrd (act_seq a)
        | Lex \<Rightarrow> LexOrd (sort_descending (act_recency a))
        | Mea \<Rightarrow> MeaOrd (case act_recency a of [] \<Rightarrow> recency_absent | r # _ \<Rightarrow> r)
                   (sort_descending (act_recency a)))
       (act_complexity a) (act_seq a)"

text \<open>Filling the emptied ordering tree and key map by a walk over the activations.\<close>

definition rebuild_ordering :: "activation_id list \<Rightarrow> agenda \<Rightarrow> agenda" where
  "rebuild_ordering walk ag =
     fold (\<lambda>i ag. case activations ag i of
             None \<Rightarrow> ag
           | Some a \<Rightarrow> (let key = build_key (strategy ag) a
                        in ag\<lparr>ordering := bt_insert key i (ordering ag),
                              id_to_key := (id_to_key ag)(i \<mapsto> key)\<rparr>))
       walk (ag\<lparr>ordering := [], id_to_key := Map.empty\<rparr>)"

definition seq_of :: "agenda \<Rightarrow> activation_id \<Rightarrow> activation_seq" where
  "seq_of ag i = (case activations ag i of None \<Rightarrow> 0 | Some a \<Rightarrow> act_seq a)"

text \<open>
  Renumbering in chronological order. The sequences of live activations differ, so the unstable
  sort has one result; \<open>walk\<close> lists the live activations.
\<close>

definition renumber :: "activation_id list \<Rightarrow> (activation_id \<rightharpoonup> activation) \<Rightarrow> (activation_id \<rightharpoonup> activation)" where
  "renumber chronological acts =
     fold (\<lambda>(n, i) acts. case acts i of
             None \<Rightarrow> acts | Some a \<Rightarrow> acts(i \<mapsto> a\<lparr>act_seq := word_of_nat n\<rparr>))
       (enumerate 0 chronological) acts"

definition rebase_sequences :: "activation_id list \<Rightarrow> agenda \<Rightarrow> agenda" where
  "rebase_sequences walk ag =
     (let chronological = sort_key (seq_of ag) walk;
          ag = ag\<lparr>rule_ordering := None, activations := renumber chronological (activations ag),
                  next_seq := word_of_nat (length chronological)\<rparr>
      in rebuild_ordering walk ag)"

definition agenda_add :: "activation_id list \<Rightarrow> activation_id \<Rightarrow> activation \<Rightarrow> agenda \<Rightarrow> agenda" where
  "agenda_add walk i a ag =
     (let ag = (if next_seq ag = u64_max then rebase_sequences walk ag else ag);
          a = a\<lparr>act_seq := next_seq ag\<rparr>;
          ag = ag\<lparr>next_seq := next_seq ag + 1\<rparr>;
          key = build_key (strategy ag) a
      in ag\<lparr>activations := (activations ag)(i \<mapsto> a\<lparr>act_id := i\<rparr>),
            ordering := bt_insert key i (ordering ag),
            rule_ordering := map_option (add_rule_key (act_rule a) key i) (rule_ordering ag),
            id_to_key := (id_to_key ag)(i \<mapsto> key),
            token_to_activations := vec_index_push (act_token a) i (token_to_activations ag)\<rparr>)"

text \<open>
  What the three ways of popping do once the entry \<open>(key, i)\<close> is out of the ordering; the early
  return on a missing activation leaves the rest as it is.
\<close>

definition finish_removal :: "agenda_key \<Rightarrow> activation_id \<Rightarrow> agenda \<Rightarrow> activation option \<times> agenda" where
  "finish_removal key i ag =
     (let ag = ag\<lparr>id_to_key := (id_to_key ag)(i := None)\<rparr>
      in case activations ag i of
           None \<Rightarrow> (None, ag)
         | Some a \<Rightarrow>
             (Some a, ag\<lparr>activations := (activations ag)(i := None),
                rule_ordering := map_option (\<lambda>index. remove_rule_key index (act_rule a) key) (rule_ordering ag),
                token_to_activations := vec_index_del (act_token a) i (token_to_activations ag)\<rparr>))"

definition agenda_pop :: "agenda \<Rightarrow> activation option \<times> agenda" where
  "agenda_pop ag =
     (case ordering ag of
        [] \<Rightarrow> (None, ag)
      | (key, i) # rest \<Rightarrow> finish_removal key i (ag\<lparr>ordering := rest\<rparr>))"

definition matches_at :: "(activation \<Rightarrow> bool) \<Rightarrow> agenda \<Rightarrow> activation_id \<Rightarrow> bool" where
  "matches_at p ag i \<longleftrightarrow> (case activations ag i of None \<Rightarrow> False | Some a \<Rightarrow> p a)"

definition pop_matching :: "(activation \<Rightarrow> bool) \<Rightarrow> agenda \<Rightarrow> activation option \<times> agenda" where
  "pop_matching p ag =
     (case ordering ag of
        [] \<Rightarrow> (None, ag)
      | (_, first) # rest \<Rightarrow>
          if matches_at p ag first then agenda_pop ag
          else
            (case find (\<lambda>(_, i). matches_at p ag i) rest of
               None \<Rightarrow> (None, ag)
             | Some (key, i) \<Rightarrow>
                 finish_removal key i (ag\<lparr>ordering := bt_remove key (ordering ag)\<rparr>)))"

definition build_rule_ordering :: "agenda \<Rightarrow> rule_ordering" where
  "build_rule_ordering ag =
     fold (\<lambda>(key, i) index. case activations ag i of
             None \<Rightarrow> index | Some a \<Rightarrow> add_rule_key (act_rule a) key i index)
       (ordering ag) Map.empty"

text \<open>\<open>Iterator::min_by\<close> on keys keeps the first of the least entries.\<close>

fun min_entry :: "(agenda_key \<times> activation_id) list \<Rightarrow> (agenda_key \<times> activation_id) option" where
  "min_entry [] = None"
| "min_entry (e # es) =
     (case min_entry es of
        None \<Rightarrow> Some e | Some e' \<Rightarrow> if fst e \<le> fst e' then Some e else Some e')"

text \<open>\<open>rules\<close> is the order in which the per-rule index is walked once it exists.\<close>

definition pop_matching_rule ::
  "(rule_ordering \<Rightarrow> rule_id list) \<Rightarrow> (rule_id \<Rightarrow> bool) \<Rightarrow> agenda \<Rightarrow> activation option \<times> agenda" where
  "pop_matching_rule rules p ag =
     (case ordering ag of
        [] \<Rightarrow> (None, ag)
      | (_, first) # _ \<Rightarrow>
          if matches_at (\<lambda>a. p (act_rule a)) ag first then agenda_pop ag
          else
            (let index = (case rule_ordering ag of Some index \<Rightarrow> index | None \<Rightarrow> build_rule_ordering ag);
                 ag = ag\<lparr>rule_ordering := Some index\<rparr>;
                 heads = List.map_filter (\<lambda>r. Option.bind (index r) bt_first) (filter p (rules index))
             in case min_entry heads of
                  None \<Rightarrow> (None, ag)
                | Some (key, i) \<Rightarrow>
                    finish_removal key i (ag\<lparr>ordering := bt_remove key (ordering ag)\<rparr>)))"

definition has_matching :: "activation_id list \<Rightarrow> (activation \<Rightarrow> bool) \<Rightarrow> agenda \<Rightarrow> bool" where
  "has_matching walk p ag \<longleftrightarrow> list_ex (\<lambda>i. matches_at p ag i) walk"

text \<open>One iteration of the loop over the activations of a token.\<close>

definition drop_for_token :: "activation_id \<Rightarrow> activation list \<times> agenda \<Rightarrow> activation list \<times> agenda" where
  "drop_for_token i st =
     (case st of (removed, ag) \<Rightarrow>
        (let ag = (case id_to_key ag i of
                     None \<Rightarrow> ag
                   | Some key \<Rightarrow>
                       (let ag = ag\<lparr>id_to_key := (id_to_key ag)(i := None),
                                    ordering := bt_remove key (ordering ag)\<rparr>
                        in case (rule_ordering ag, activations ag i) of
                             (Some index, Some a) \<Rightarrow>
                               ag\<lparr>rule_ordering := Some (remove_rule_key index (act_rule a) key)\<rparr>
                           | _ \<Rightarrow> ag))
         in case activations ag i of
              None \<Rightarrow> (removed, ag)
            | Some a \<Rightarrow> (removed @ [a], ag\<lparr>activations := (activations ag)(i := None)\<rparr>)))"

definition remove_activations_for_token :: "token_id \<Rightarrow> agenda \<Rightarrow> activation list \<times> agenda" where
  "remove_activations_for_token t ag =
     (case token_to_activations ag t of
        None \<Rightarrow> ([], ag)
      | Some act_ids \<Rightarrow>
          fold drop_for_token act_ids
            ([], ag\<lparr>token_to_activations := (token_to_activations ag)(t := None)\<rparr>))"

definition drop_for_rule :: "activation_id \<Rightarrow> activation list \<times> agenda \<Rightarrow> activation list \<times> agenda" where
  "drop_for_rule i st =
     (case st of (removed, ag) \<Rightarrow>
        (let ag = (case id_to_key ag i of
                     None \<Rightarrow> ag
                   | Some key \<Rightarrow> ag\<lparr>id_to_key := (id_to_key ag)(i := None),
                                    ordering := bt_remove key (ordering ag)\<rparr>)
         in case activations ag i of
              None \<Rightarrow> (removed, ag)
            | Some a \<Rightarrow>
                (removed @ [a], ag\<lparr>activations := (activations ag)(i := None),
                   token_to_activations := vec_index_del (act_token a) i (token_to_activations ag)\<rparr>)))"

definition remove_activations_for_rule ::
  "activation_id list \<Rightarrow> rule_id \<Rightarrow> agenda \<Rightarrow> activation list \<times> agenda" where
  "remove_activations_for_rule walk r ag =
     (let ag = ag\<lparr>rule_ordering := map_option (\<lambda>index. index(r := None)) (rule_ordering ag)\<rparr>;
          act_ids = filter (\<lambda>i. matches_at (\<lambda>a. act_rule a = r) ag i) walk
      in fold drop_for_rule act_ids ([], ag))"

definition agenda_len :: "agenda \<Rightarrow> nat" where
  "agenda_len ag = card (dom (activations ag))"

definition agenda_get :: "agenda \<Rightarrow> activation_id \<Rightarrow> activation option" where
  "agenda_get ag i = activations ag i"

definition iter_ordered :: "agenda \<Rightarrow> activation list" where
  "iter_ordered ag = List.map_filter (\<lambda>(_, i). activations ag i) (ordering ag)"

definition set_strategy ::
  "activation_id list \<Rightarrow> conflict_resolution_strategy \<Rightarrow> agenda \<Rightarrow> conflict_resolution_strategy \<times> agenda" where
  "set_strategy walk s ag =
     (strategy ag,
      if strategy ag \<noteq> s then rebuild_ordering walk (ag\<lparr>strategy := s, rule_ordering := None\<rparr>) else ag)"

definition agenda_clear :: "agenda \<Rightarrow> agenda" where
  "agenda_clear ag = ag\<lparr>rule_ordering := None, ordering := [], activations := Map.empty,
     id_to_key := Map.empty, token_to_activations := Map.empty, next_seq := 0\<rparr>"

text \<open>The code's own check; the error message is left out.\<close>

definition agenda_consistent :: "agenda \<Rightarrow> bool" where
  "agenda_consistent ag \<longleftrightarrow>
     (\<forall>(key, i) \<in> set (ordering ag). i \<in> dom (activations ag) \<and> id_to_key ag i = Some key) \<and>
     (\<forall>i key. id_to_key ag i = Some key \<longrightarrow>
        i \<in> dom (activations ag) \<and> bt_get key (ordering ag) = Some i) \<and>
     (\<forall>t ids. token_to_activations ag t = Some ids \<longrightarrow>
        ids \<noteq> [] \<and> distinct ids \<and>
        (\<forall>i \<in> set ids. \<exists>a. activations ag i = Some a \<and> act_token a = t)) \<and>
     (\<forall>i a. activations ag i = Some a \<longrightarrow>
        (\<exists>key. id_to_key ag i = Some key \<and> bt_get key (ordering ag) = Some i) \<and>
        (\<exists>ids. token_to_activations ag (act_token a) = Some ids \<and> i \<in> set ids)) \<and>
     inj_on (seq_of ag) (dom (activations ag)) \<and>
     (\<forall>i a. activations ag i = Some a \<longrightarrow>
        i = act_id a \<and> act_seq a < next_seq ag \<and> id_to_key ag i = Some (build_key (strategy ag) a)) \<and>
     (\<forall>index. rule_ordering ag = Some index \<longrightarrow> index = build_rule_ordering ag)"

section \<open>Invariant\<close>

definition entry_set :: "agenda \<Rightarrow> (agenda_key \<times> activation_id) set" where
  "entry_set ag = {(key, i). \<exists>a. activations ag i = Some a \<and> key = build_key (strategy ag) a}"

definition rule_entries :: "agenda \<Rightarrow> rule_id \<Rightarrow> (agenda_key \<times> activation_id) set" where
  "rule_entries ag r =
     {(key, i). \<exists>a. activations ag i = Some a \<and> key = build_key (strategy ag) a \<and> act_rule a = r}"

definition rule_index_ok :: "agenda \<Rightarrow> rule_ordering \<Rightarrow> bool" where
  "rule_index_ok ag index \<longleftrightarrow>
     (\<forall>r. case index r of
        None \<Rightarrow> rule_entries ag r = {}
      | Some es \<Rightarrow> es \<noteq> [] \<and> bt_ok es \<and> set es = rule_entries ag r)"

definition acts_ok :: "(activation_id \<rightharpoonup> activation) \<Rightarrow> activation_seq \<Rightarrow> bool" where
  "acts_ok acts next \<longleftrightarrow> finite (dom acts) \<and>
     (\<forall>i a. acts i = Some a \<longrightarrow> act_id a = i \<and> act_seq a < next) \<and>
     (\<forall>i j a b. acts i = Some a \<longrightarrow> acts j = Some b \<longrightarrow> act_seq a = act_seq b \<longrightarrow> i = j)"

definition token_index_ok :: "agenda \<Rightarrow> bool" where
  "token_index_ok ag \<longleftrightarrow> vec_pruned (token_to_activations ag) \<and>
     (\<forall>t. distinct (bucket (token_to_activations ag) t) \<and>
          set (bucket (token_to_activations ag) t) =
            {i. \<exists>a. activations ag i = Some a \<and> act_token a = t})"

definition ag_ok :: "agenda \<Rightarrow> bool" where
  "ag_ok ag \<longleftrightarrow> acts_ok (activations ag) (next_seq ag) \<and>
     bt_ok (ordering ag) \<and> set (ordering ag) = entry_set ag \<and>
     (\<forall>i. id_to_key ag i = map_option (build_key (strategy ag)) (activations ag i)) \<and>
     token_index_ok ag \<and>
     (\<forall>index. rule_ordering ag = Some index \<longrightarrow> rule_index_ok ag index)"

end
