(* ===== verification/Agenda_Invariant.thy ===== *)
theory Agenda_Invariant
  imports Agenda
begin

text \<open>
  The agenda keeps \<^const>\<open>ag_ok\<close>: adding and removing one entry of the ordering, rebuilding it,
  and renumbering the sequences before they run out.
\<close>

section \<open>Keys of live activations\<close>

lemma key_seq_build [simp]: "key_seq (build_key s a) = act_seq a" "key_salience (build_key s a) = act_salience a"
  by (simp_all add: build_key_def)

lemma acts_okD:
  assumes "acts_ok acts next"
  shows "finite (dom acts)" "acts i = Some a \<Longrightarrow> act_id a = i" "acts i = Some a \<Longrightarrow> act_seq a < next"
    "acts i = Some a \<Longrightarrow> acts j = Some b \<Longrightarrow> act_seq a = act_seq b \<Longrightarrow> i = j"
  using assms unfolding acts_ok_def by blast+

lemma ag_okD:
  assumes "ag_ok ag"
  shows "acts_ok (activations ag) (next_seq ag)" "bt_ok (ordering ag)" "set (ordering ag) = entry_set ag"
    "id_to_key ag i = map_option (build_key (strategy ag)) (activations ag i)"
    "token_index_ok ag" "rule_ordering ag = Some index \<Longrightarrow> rule_index_ok ag index"
  using assms unfolding ag_ok_def by blast+

lemma entry_iff: "(k, i) \<in> entry_set ag \<longleftrightarrow> (\<exists>a. activations ag i = Some a \<and> k = build_key (strategy ag) a)"
  by (simp add: entry_set_def)

lemma rule_entry_iff: "(k, i) \<in> rule_entries ag r \<longleftrightarrow>
    (\<exists>a. activations ag i = Some a \<and> k = build_key (strategy ag) a \<and> act_rule a = r)"
  by (simp add: rule_entries_def)

lemma key_unique:
  assumes "acts_ok acts next" "acts i = Some a" "acts j = Some b" "build_key s a = build_key s b"
  shows "i = j"
proof -
  have "act_seq a = act_seq b" using assms(4) by (metis key_seq_build(1))
  then show ?thesis using acts_okD(4) assms by blast
qed

section \<open>Removing one entry\<close>

lemma rule_index_remove:
  assumes ok: "rule_index_ok ag index" and acts: "acts_ok (activations ag) (next_seq ag)"
    and a: "activations ag i = Some a"
    and acts': "activations ag' = (activations ag)(i := None)" and s: "strategy ag' = strategy ag"
  shows "rule_index_ok ag' (remove_rule_key index (act_rule a) (build_key (strategy ag) a))"
proof -
  let ?k = "build_key (strategy ag) a" and ?r = "act_rule a"
  have ent: "rule_entries ag' r = rule_entries ag r - {(?k, i)}" for r
    using a by (auto simp: rule_entries_def acts' s)
  have mem: "(?k, i) \<in> rule_entries ag ?r" using a by (simp add: rule_entry_iff)
  have at: "case index r of None \<Rightarrow> rule_entries ag r = {}
      | Some es \<Rightarrow> es \<noteq> [] \<and> bt_ok es \<and> set es = rule_entries ag r" for r
    using ok unfolding rule_index_ok_def by blast
  obtain es where es: "index ?r = Some es" "bt_ok es" "set es = rule_entries ag ?r"
    using at [of ?r] mem by (cases "index ?r") auto
  have uniq: "j = i" if "(?k, j) \<in> set es" for j
  proof -
    from that obtain b where "activations ag j = Some b" "?k = build_key (strategy ag) b"
      unfolding es(3) rule_entry_iff by blast
    from key_unique [OF acts a this] show ?thesis by simp
  qed
  have "{p \<in> set es. fst p \<noteq> ?k} = set es - {(?k, i)}"
    by (auto dest: uniq)
  then have rem: "set (bt_remove ?k es) = rule_entries ag' ?r"
    by (simp only: set_bt_remove [OF es(2)] ent es(3))
  have other: "rule_entries ag' r = rule_entries ag r" if "r \<noteq> ?r" for r
  proof -
    have "(?k, i) \<notin> rule_entries ag r" using that a by (simp add: rule_entry_iff)
    then show ?thesis by (simp add: ent)
  qed
  show ?thesis
    unfolding rule_index_ok_def
  proof
    fix r
    show "case remove_rule_key index ?r ?k r of None \<Rightarrow> rule_entries ag' r = {}
        | Some es \<Rightarrow> es \<noteq> [] \<and> bt_ok es \<and> set es = rule_entries ag' r"
    proof (cases "r = ?r")
      case True
      have "remove_rule_key index ?r ?k ?r = (if bt_remove ?k es = [] then None else Some (bt_remove ?k es))"
        by (simp add: remove_rule_key_def es(1) Let_def)
      with True rem bt_remove_ok [OF es(2), of ?k] show ?thesis
        by (cases "bt_remove ?k es = []") auto
    next
      case False
      then have "remove_rule_key index ?r ?k r = index r"
        by (auto simp: remove_rule_key_def es Let_def)
      with at [of r] other [OF False] show ?thesis by (simp split: option.splits)
    qed
  qed
qed

lemma token_index_remove:
  assumes ok: "token_index_ok ag" and a: "activations ag i = Some a"
    and acts': "activations ag' = (activations ag)(i := None)"
    and tok: "token_to_activations ag' = vec_index_del (act_token a) i (token_to_activations ag)"
  shows "token_index_ok ag'"
  using ok a unfolding token_index_ok_def tok acts'
  by (auto simp: index_simps)

lemma ordering_remove:
  assumes ok: "ag_ok ag" and a: "activations ag i = Some a"
    and acts': "activations ag' = (activations ag)(i := None)" and s: "strategy ag' = strategy ag"
  shows "set (bt_remove (build_key (strategy ag) a) (ordering ag)) = entry_set ag'"
proof -
  have "j = i" if "(build_key (strategy ag) a, j) \<in> entry_set ag" for j
  proof -
    from that obtain b where "activations ag j = Some b" "build_key (strategy ag) a = build_key (strategy ag) b"
      unfolding entry_iff by blast
    from key_unique [OF ag_okD(1) [OF ok] a this] show ?thesis by simp
  qed
  then show ?thesis
    using a by (auto simp: set_bt_remove [OF ag_okD(2) [OF ok]] ag_okD(3) [OF ok] entry_set_def acts' s)
qed

lemma ag_ok_removeI:
  assumes ok: "ag_ok ag" and a: "activations ag i = Some a"
    and acts': "activations ag' = (activations ag)(i := None)" and s: "strategy ag' = strategy ag"
    and seq: "next_seq ag' = next_seq ag"
    and ord: "ordering ag' = bt_remove (build_key (strategy ag) a) (ordering ag)"
    and idk: "id_to_key ag' = (id_to_key ag)(i := None)"
    and tok: "token_to_activations ag' = vec_index_del (act_token a) i (token_to_activations ag)"
    and rul: "rule_ordering ag' = map_option (\<lambda>index. remove_rule_key index (act_rule a)
        (build_key (strategy ag) a)) (rule_ordering ag)"
  shows "ag_ok ag'"
  unfolding ag_ok_def
proof (intro conjI allI impI)
  note acts = ag_okD(1) [OF ok]
  show "acts_ok (activations ag') (next_seq ag')"
    using acts by (auto simp: acts_ok_def acts' seq split: if_splits)
  show "bt_ok (ordering ag')" using ag_okD(2) [OF ok] by (simp add: ord bt_remove_ok)
  show "set (ordering ag') = entry_set ag'" unfolding ord by (rule ordering_remove [OF ok a acts' s])
  show "id_to_key ag' j = map_option (build_key (strategy ag')) (activations ag' j)" for j
    using ag_okD(4) [OF ok] by (simp add: idk acts' s)
  show "token_index_ok ag'" by (rule token_index_remove [OF ag_okD(5) [OF ok] a acts' tok])
  show "rule_index_ok ag' index" if "rule_ordering ag' = Some index" for index
    using that rule_index_remove [OF _ acts a acts' s] ag_okD(6) [OF ok] by (auto simp: rul)
qed

lemma finish_removal_ok:
  assumes ok: "ag_ok ag" and a: "activations ag i = Some a"
  obtains ag' where
    "finish_removal (build_key (strategy ag) a) i
       (ag\<lparr>ordering := bt_remove (build_key (strategy ag) a) (ordering ag)\<rparr>) = (Some a, ag')"
    "ag_ok ag'" "activations ag' = (activations ag)(i := None)" "strategy ag' = strategy ag"
    "next_seq ag' = next_seq ag"
proof -
  let ?k = "build_key (strategy ag) a"
  let ?r = "finish_removal ?k i (ag\<lparr>ordering := bt_remove ?k (ordering ag)\<rparr>)"
  have fst: "fst ?r = Some a" by (simp add: finish_removal_def a Let_def)
  have "ag_ok (snd ?r)"
    by (rule ag_ok_removeI [OF ok a]) (simp_all add: finish_removal_def a Let_def)
  moreover have "activations (snd ?r) = (activations ag)(i := None)" "strategy (snd ?r) = strategy ag"
    "next_seq (snd ?r) = next_seq ag" by (simp_all add: finish_removal_def a Let_def)
  ultimately show thesis using fst that [of "snd ?r"] by (metis prod.collapse)
qed

section \<open>Adding one entry\<close>

lemma rule_index_add:
  assumes ok: "rule_index_ok ag index" and new: "activations ag i = None"
    and fresh: "\<And>j b. activations ag j = Some b \<Longrightarrow> build_key (strategy ag) b \<noteq> build_key (strategy ag) a"
    and acts': "activations ag' = (activations ag)(i \<mapsto> a)" and s: "strategy ag' = strategy ag"
  shows "rule_index_ok ag' (add_rule_key (act_rule a) (build_key (strategy ag) a) i index)"
  unfolding rule_index_ok_def
proof
  fix r
  let ?k = "build_key (strategy ag) a"
  have ent: "rule_entries ag' r = (if r = act_rule a then insert (?k, i) (rule_entries ag r) else rule_entries ag r)"
    using new by (auto simp: rule_entries_def acts' s split: if_splits)
  have es: "case index r of None \<Rightarrow> rule_entries ag r = {}
      | Some es \<Rightarrow> es \<noteq> [] \<and> bt_ok es \<and> set es = rule_entries ag r"
    using ok unfolding rule_index_ok_def by blast
  have absent: "?k \<notin> fst ` rule_entries ag r"
  proof
    assume "?k \<in> fst ` rule_entries ag r"
    then obtain j b where "activations ag j = Some b" "?k = build_key (strategy ag) b"
      by (auto simp: rule_entries_def)
    with fresh show False by metis
  qed
  show "case add_rule_key (act_rule a) ?k i index r of None \<Rightarrow> rule_entries ag' r = {}
      | Some es \<Rightarrow> es \<noteq> [] \<and> bt_ok es \<and> set es = rule_entries ag' r"
  proof (cases "r = act_rule a")
    case True
    define old where "old = (case index r of None \<Rightarrow> [] | Some es \<Rightarrow> es)"
    have "bt_ok old" "set old = rule_entries ag r" using es by (auto simp: old_def split: option.splits)
    then have "bt_ok (bt_insert ?k i old)" "set (bt_insert ?k i old) = rule_entries ag' r"
      using absent True ent by (simp_all add: bt_insert_ok set_bt_insert_new)
    moreover have "bt_insert ?k i old \<noteq> []" using \<open>set (bt_insert ?k i old) = _\<close> ent True by auto
    ultimately show ?thesis using True by (simp add: add_rule_key_def old_def)
  qed (use es ent in \<open>simp add: add_rule_key_def split: option.splits\<close>)
qed

lemma ag_ok_addI:
  assumes ok: "ag_ok ag" and new: "activations ag i = None" and room: "next_seq ag \<noteq> u64_max"
    and a: "act_id a = i" "act_seq a = next_seq ag"
    and acts': "activations ag' = (activations ag)(i \<mapsto> a)" and s: "strategy ag' = strategy ag"
    and seq: "next_seq ag' = next_seq ag + 1"
    and ord: "ordering ag' = bt_insert (build_key (strategy ag) a) i (ordering ag)"
    and idk: "id_to_key ag' = (id_to_key ag)(i \<mapsto> build_key (strategy ag) a)"
    and tok: "token_to_activations ag' = vec_index_push (act_token a) i (token_to_activations ag)"
    and rul: "rule_ordering ag' = map_option (add_rule_key (act_rule a) (build_key (strategy ag) a) i)
        (rule_ordering ag)"
  shows "ag_ok ag'"
  unfolding ag_ok_def
proof (intro conjI allI impI)
  note acts = ag_okD(1) [OF ok]
  have older: "act_seq b < act_seq a" if "activations ag j = Some b" for j b
    using acts_okD(3) [OF acts that] a by simp
  have fresh: "build_key (strategy ag) b \<noteq> build_key (strategy ag) a" if "activations ag j = Some b" for j b
    using older [OF that] by (metis key_seq_build(1) less_irrefl)
  show "acts_ok (activations ag') (next_seq ag')"
  proof -
    have ne: "activations ag j = Some b \<Longrightarrow> act_seq b \<noteq> next_seq ag" for j b
      using older [of j b] a by auto
    show ?thesis
      unfolding acts_ok_def acts' seq
    proof (intro conjI allI impI)
      fix j b
      assume j: "((activations ag)(i \<mapsto> a)) j = Some b"
      show "act_id b = j"
        using j acts_okD(2) [OF acts, of j b] a by (simp split: if_splits)
      show "act_seq b < next_seq ag + 1"
        using j acts_okD(3) [OF acts, of j b] a room by (simp add: less_Suc_u64 split: if_splits)
      fix k c
      assume k: "((activations ag)(i \<mapsto> a)) k = Some c" and eq: "act_seq b = act_seq c"
      show "j = k"
      proof (cases "j = i")
        case True
        with j eq have "act_seq c = next_seq ag" using a(2) by simp
        with k ne [of k c] True show ?thesis by (cases "k = i") auto
      next
        case False
        with j have jb: "activations ag j = Some b" by simp
        show ?thesis
        proof (cases "k = i")
          case True
          with k a(2) have "act_seq c = next_seq ag" by simp
          with ne [OF jb] eq show ?thesis by simp
        next
          case False
          with k have "activations ag k = Some c" by simp
          from acts_okD(4) [OF acts jb this eq] show ?thesis .
        qed
      qed
    qed (use acts_okD(1) [OF acts] in simp)
  qed
  show "bt_ok (ordering ag')" using ag_okD(2) [OF ok] by (simp add: ord bt_insert_ok)
  have "build_key (strategy ag) a \<notin> fst ` set (ordering ag)"
  proof
    assume "build_key (strategy ag) a \<in> fst ` set (ordering ag)"
    then obtain j b where "activations ag j = Some b" "build_key (strategy ag) a = build_key (strategy ag) b"
      by (auto simp: ag_okD(3) [OF ok] entry_iff)
    with fresh show False by metis
  qed
  then show "set (ordering ag') = entry_set ag'"
    using new by (auto simp: ord set_bt_insert_new ag_okD(3) [OF ok] entry_set_def acts' s split: if_splits)
  show "id_to_key ag' j = map_option (build_key (strategy ag')) (activations ag' j)" for j
    using ag_okD(4) [OF ok] by (simp add: idk acts' s)
  show "token_index_ok ag'"
    using ag_okD(5) [OF ok] new unfolding token_index_ok_def tok acts'
    by (auto simp: index_simps)
  show "rule_index_ok ag' index" if "rule_ordering ag' = Some index" for index
    using that rule_index_add [OF _ new fresh acts' s] ag_okD(6) [OF ok] by (auto simp: rul)
qed

section \<open>Rebuilding the ordering\<close>

lemma rebuild_loop:
  assumes "set walk \<subseteq> dom (activations ag)"
  shows "fold (\<lambda>i ag. case activations ag i of
             None \<Rightarrow> ag
           | Some a \<Rightarrow> (let key = build_key (strategy ag) a
                        in ag\<lparr>ordering := bt_insert key i (ordering ag),
                              id_to_key := (id_to_key ag)(i \<mapsto> key)\<rparr>)) walk ag =
    ag\<lparr>ordering := fold (\<lambda>(k, i). bt_insert k i)
          (map (\<lambda>i. (build_key (strategy ag) (the (activations ag i)), i)) walk) (ordering ag),
       id_to_key := (\<lambda>i. if i \<in> set walk then Some (build_key (strategy ag) (the (activations ag i)))
          else id_to_key ag i)\<rparr>"
  using assms
proof (induction walk arbitrary: ag)
  case (Cons i walk)
  then obtain a where "activations ag i = Some a" by auto
  with Cons show ?case by (simp add: Let_def fun_eq_iff)
qed simp

lemma rebuild_ordering_ok:
  assumes acts: "acts_ok (activations ag) (next_seq ag)" and tok: "token_index_ok ag"
    and walk: "enumerates walk (dom (activations ag))" and rul: "rule_ordering ag = None"
  shows "ag_ok (rebuild_ordering walk ag)"
    "activations (rebuild_ordering walk ag) = activations ag"
    "strategy (rebuild_ordering walk ag) = strategy ag"
    "next_seq (rebuild_ordering walk ag) = next_seq ag"
proof -
  let ?ag = "ag\<lparr>ordering := [], id_to_key := Map.empty\<rparr>"
  let ?key = "\<lambda>i. build_key (strategy ag) (the (activations ag i))"
  have dom: "set walk = dom (activations ag)" "distinct walk" using walk by auto
  have sub: "set walk \<subseteq> dom (activations ?ag)" using dom by simp
  have eq: "rebuild_ordering walk ag = ?ag\<lparr>ordering := bt_of_list (map (\<lambda>i. (?key i, i)) walk),
      id_to_key := (\<lambda>i. if i \<in> set walk then Some (?key i) else None)\<rparr>"
    unfolding rebuild_ordering_def rebuild_loop [OF sub] bt_of_list_def by (simp cong: if_cong)
  then show fields: "activations (rebuild_ordering walk ag) = activations ag"
    "strategy (rebuild_ordering walk ag) = strategy ag"
    "next_seq (rebuild_ordering walk ag) = next_seq ag" by simp_all
  have "inj_on ?key (dom (activations ag))"
  proof (rule inj_onI)
    fix i j assume "i \<in> dom (activations ag)" "j \<in> dom (activations ag)" "?key i = ?key j"
    then show "i = j" using key_unique [OF acts, of i _ j] by auto
  qed
  then have "distinct (map fst (map (\<lambda>i. (?key i, i)) walk))"
    using dom by (simp add: comp_def distinct_map)
  then have "set (bt_of_list (map (\<lambda>i. (?key i, i)) walk)) = (\<lambda>i. (?key i, i)) ` dom (activations ag)"
    by (simp add: set_bt_of_list dom)
  also have "\<dots> = entry_set (rebuild_ordering walk ag)"
    by (force simp: entry_set_def fields)
  finally have ents: "set (ordering (rebuild_ordering walk ag)) = entry_set (rebuild_ordering walk ag)"
    by (simp add: eq)
  show "ag_ok (rebuild_ordering walk ag)"
    unfolding ag_ok_def
  proof (intro conjI allI impI)
    show "acts_ok (activations (rebuild_ordering walk ag)) (next_seq (rebuild_ordering walk ag))"
      using acts by (simp add: fields)
    show "bt_ok (ordering (rebuild_ordering walk ag))" by (simp add: eq bt_of_list_ok)
    show "id_to_key (rebuild_ordering walk ag) i = map_option (build_key (strategy (rebuild_ordering walk ag)))
        (activations (rebuild_ordering walk ag) i)" for i
      using dom(1) by (cases "activations ag i") (auto simp: eq)
    show "token_index_ok (rebuild_ordering walk ag)" using tok by (simp add: eq token_index_ok_def)
    show "rule_index_ok (rebuild_ordering walk ag) index"
      if "rule_ordering (rebuild_ordering walk ag) = Some index" for index
      using that rul by (simp add: eq)
  qed (rule ents)
qed

section \<open>Renumbering\<close>

lemma renumber_loop_other:
  "i \<notin> set xs \<Longrightarrow> fold (\<lambda>(n, i) acts. case acts i of
             None \<Rightarrow> acts | Some a \<Rightarrow> acts(i \<mapsto> a\<lparr>act_seq := word_of_nat n\<rparr>)) (enumerate n xs) acts i = acts i"
  by (induction xs arbitrary: n acts) (auto split: option.split)

lemma renumber_loop_nth:
  "distinct xs \<Longrightarrow> k < length xs \<Longrightarrow> fold (\<lambda>(n, i) acts. case acts i of
             None \<Rightarrow> acts | Some a \<Rightarrow> acts(i \<mapsto> a\<lparr>act_seq := word_of_nat n\<rparr>)) (enumerate n xs) acts (xs ! k) =
    map_option (\<lambda>a. a\<lparr>act_seq := word_of_nat (n + k)\<rparr>) (acts (xs ! k))"
proof (induction xs arbitrary: n acts k)
  case (Cons x xs)
  show ?case
  proof (cases k)
    case 0
    then show ?thesis using Cons.prems by (simp add: renumber_loop_other split: option.split)
  next
    case (Suc l)
    then have "xs ! l \<noteq> x" using Cons.prems by auto
    moreover have "(case acts x of None \<Rightarrow> acts | Some a \<Rightarrow> acts(x \<mapsto> a\<lparr>act_seq := word_of_nat n\<rparr>)) j = acts j"
      if "j \<noteq> x" for j using that by (simp split: option.split)
    ultimately show ?thesis using Suc Cons.IH [of l "Suc n"] Cons.prems by simp
  qed
qed simp

text \<open>
  Renumbering live activations in chronological order: \<open>xs\<close> lists them oldest first. New
  sequences are positions, so they order activations as the old ones did.
\<close>

lemma renumber_ok:
  assumes acts: "acts_ok acts nxt" and xs: "distinct xs" "set xs = dom acts"
    and sorted: "sorted_wrt (\<lambda>i j. act_seq (the (acts i)) < act_seq (the (acts j))) xs"
    and len: "length xs < 2 ^ 64"
  shows "acts_ok (renumber xs acts) (word_of_nat (length xs))"
    "dom (renumber xs acts) = dom acts"
    "acts i = Some a \<Longrightarrow> \<exists>n. renumber xs acts i = Some (a\<lparr>act_seq := n\<rparr>)"
    "acts i = Some a \<Longrightarrow> acts j = Some b \<Longrightarrow>
      act_seq (the (renumber xs acts i)) < act_seq (the (renumber xs acts j)) \<longleftrightarrow> act_seq a < act_seq b"
proof -
  have nth: "renumber xs acts (xs ! k) = map_option (\<lambda>a. a\<lparr>act_seq := word_of_nat k\<rparr>) (acts (xs ! k))"
    if "k < length xs" for k
    using renumber_loop_nth [OF xs(1) that, of 0 acts] by (simp add: renumber_def)
  have other: "renumber xs acts i = None" if "i \<notin> dom acts" for i
    using renumber_loop_other [of i xs 0 acts] that xs(2) by (simp add: renumber_def domIff)
  have un: "unat (word_of_nat k :: activation_seq) = k" if "k \<le> length xs" for k
    using that len by (intro unat_pool_id) simp
  have pos: "\<exists>k<length xs. i = xs ! k \<and> renumber xs acts i = Some (a\<lparr>act_seq := word_of_nat k\<rparr>)"
    if "acts i = Some a" for i a
  proof -
    have "i \<in> set xs" using that xs(2) by auto
    then obtain k where "k < length xs" "i = xs ! k" by (auto simp: in_set_conv_nth)
    with nth [of k] that show ?thesis by auto
  qed
  show renumbered: "\<exists>n. renumber xs acts i = Some (a\<lparr>act_seq := n\<rparr>)" if "acts i = Some a" for i a
    using pos [OF that] by blast
  show dom: "dom (renumber xs acts) = dom acts"
  proof (intro equalityI subsetI)
    fix i assume "i \<in> dom (renumber xs acts)"
    then show "i \<in> dom acts" using other [of i] by (meson domIff)
  next
    fix i assume "i \<in> dom acts"
    then obtain a where "acts i = Some a" by auto
    from renumbered [OF this] show "i \<in> dom (renumber xs acts)" by auto
  qed
  have inv: "\<exists>a k. acts i = Some a \<and> k < length xs \<and> i = xs ! k \<and> c = a\<lparr>act_seq := word_of_nat k\<rparr>"
    if "renumber xs acts i = Some c" for i c
  proof -
    have "i \<in> dom acts" unfolding dom [symmetric] using that by (rule domI)
    then obtain a where a: "acts i = Some a" by auto
    from pos [OF a] that obtain k where "k < length xs" "i = xs ! k" "c = a\<lparr>act_seq := word_of_nat k\<rparr>"
      by auto
    with a show ?thesis by blast
  qed
  show "acts_ok (renumber xs acts) (word_of_nat (length xs))"
    unfolding acts_ok_def
  proof (intro conjI allI impI)
    show "finite (dom (renumber xs acts))" using dom acts_okD(1) [OF acts] by simp
    fix i c assume c: "renumber xs acts i = Some c"
    from inv [OF c] obtain a k where ak: "acts i = Some a" "k < length xs" "i = xs ! k"
      "c = a\<lparr>act_seq := word_of_nat k\<rparr>" by blast
    show "act_id c = i" using acts_okD(2) [OF acts ak(1)] ak(4) by simp
    show "act_seq c < word_of_nat (length xs)"
      using ak un [of k] un [of "length xs"] by (simp add: word_less_nat_alt)
    fix j d assume d: "renumber xs acts j = Some d" and eq: "act_seq c = act_seq d"
    from inv [OF d] obtain b l where "l < length xs" "j = xs ! l" "d = b\<lparr>act_seq := word_of_nat l\<rparr>" by blast
    moreover from this ak eq have "(word_of_nat k :: activation_seq) = word_of_nat l" by simp
    ultimately have "k = l" using ak(2) un [of k] un [of l] by (metis less_imp_le)
    with ak(3) \<open>j = xs ! l\<close> show "i = j" by simp
  qed
  show "act_seq (the (renumber xs acts i)) < act_seq (the (renumber xs acts j)) \<longleftrightarrow> act_seq a < act_seq b"
    if a: "acts i = Some a" and b: "acts j = Some b"
  proof -
    from pos [OF a] obtain k where k: "k < length xs" "i = xs ! k"
      "renumber xs acts i = Some (a\<lparr>act_seq := word_of_nat k\<rparr>)" by blast
    from pos [OF b] obtain l where l: "l < length xs" "j = xs ! l"
      "renumber xs acts j = Some (b\<lparr>act_seq := word_of_nat l\<rparr>)" by blast
    have mono: "act_seq (the (acts (xs ! m))) < act_seq (the (acts (xs ! n)))" if "m < n" "n < length xs" for m n
      using sorted that by (auto simp: sorted_wrt_iff_nth_less)
    have "k < l \<longleftrightarrow> act_seq a < act_seq b"
      using mono [of k l] mono [of l k] k(1,2) l(1,2) a b by (cases k l rule: linorder_cases) auto
    with k l un [of k] un [of l] show ?thesis by (simp add: word_less_nat_alt)
  qed
qed

end
