(* ===== verification/Agenda_Properties.thy ===== *)
theory Agenda_Properties
  imports Agenda_Invariant
begin

text \<open>
  The operations of the agenda: each keeps the invariant, popping yields an activation that no
  other one beats, and no operation reorders what stays on the agenda.
\<close>

section \<open>The order of the agenda\<close>

definition key_at :: "agenda \<Rightarrow> activation_id \<Rightarrow> agenda_key" where
  "key_at ag i = build_key (strategy ag) (the (activations ag i))"

lemma ordering_key_at: "ag_ok ag \<Longrightarrow> (k, i) \<in> set (ordering ag) \<longleftrightarrow> i \<in> dom (activations ag) \<and> k = key_at ag i"
  by (auto simp: ag_okD(3) entry_iff key_at_def)

lemma ordering_ids:
  assumes ok: "ag_ok ag"
  shows "set (map snd (ordering ag)) = dom (activations ag)"
    "sorted_wrt (\<lambda>i j. key_at ag i < key_at ag j) (map snd (ordering ag))"
proof -
  show "set (map snd (ordering ag)) = dom (activations ag)"
    using ordering_key_at [OF ok] by force
  have "sorted_wrt (\<lambda>p q. fst p < fst q) (ordering ag)"
    using ag_okD(2) [OF ok] by (simp add: bt_ok_def sorted_wrt_map)
  then have "sorted_wrt (\<lambda>p q. key_at ag (snd p) < key_at ag (snd q)) (ordering ag)"
    by (rule sorted_wrt_mono_rel [rotated]) (auto simp: ordering_key_at [OF ok])
  then show "sorted_wrt (\<lambda>i j. key_at ag i < key_at ag j) (map snd (ordering ag))"
    by (simp add: sorted_wrt_map)
qed

lemma sorted_by_unique:
  fixes f :: "'a \<Rightarrow> 'b::linorder"
  assumes "sorted_wrt (\<lambda>i j. f i < f j) xs" "sorted_wrt (\<lambda>i j. f i < f j) ys" "set xs = set ys"
  shows "xs = ys"
proof -
  have keys: "map f xs = map f ys"
    using assms by (intro strict_sorted_equal) (auto simp: sorted_wrt_map)
  have "distinct (map f xs)"
    using assms(1) by (simp add: sorted_wrt_map [symmetric] strict_sorted_iff)
  then have "inj_on f (set xs)" by (simp add: distinct_map)
  with keys assms(3) show ?thesis by (metis inj_on_map_eq_map Un_absorb)
qed

lemma same_order:
  assumes ok: "ag_ok ag" and ok': "ag_ok ag'" and dom: "dom (activations ag') = dom (activations ag)"
    and keys: "\<And>i j. i \<in> dom (activations ag) \<Longrightarrow> j \<in> dom (activations ag) \<Longrightarrow>
      key_at ag' i < key_at ag' j \<longleftrightarrow> key_at ag i < key_at ag j"
  shows "map snd (ordering ag') = map snd (ordering ag)"
proof (rule sorted_by_unique)
  show "sorted_wrt (\<lambda>i j. key_at ag i < key_at ag j) (map snd (ordering ag))"
    by (rule ordering_ids(2) [OF ok])
  show "sorted_wrt (\<lambda>i j. key_at ag i < key_at ag j) (map snd (ordering ag'))"
  proof (rule sorted_wrt_mono_rel [OF _ ordering_ids(2) [OF ok']])
    fix i j assume "i \<in> set (map snd (ordering ag'))" "j \<in> set (map snd (ordering ag'))"
      "key_at ag' i < key_at ag' j"
    then show "key_at ag i < key_at ag j"
      using keys unfolding ordering_ids(1) [OF ok'] dom by blast
  qed
  show "set (map snd (ordering ag')) = set (map snd (ordering ag))"
    by (simp only: ordering_ids(1) [OF ok] ordering_ids(1) [OF ok'] dom)
qed

section \<open>Rebasing\<close>

lemma acts_card: "acts_ok acts nxt \<Longrightarrow> card (dom acts) \<le> unat nxt"
proof -
  assume acts: "acts_ok acts nxt"
  let ?f = "\<lambda>i. unat (act_seq (the (acts i)))"
  have "inj_on ?f (dom acts)"
  proof (rule inj_onI)
    fix i j assume i: "i \<in> dom acts" and j: "j \<in> dom acts" and eq: "?f i = ?f j"
    from i j obtain a b where "acts i = Some a" "acts j = Some b" by auto
    moreover from this eq have "act_seq a = act_seq b" by (simp add: word_unat_eq_iff)
    ultimately show "i = j" using acts_okD(4) [OF acts] by blast
  qed
  moreover have "?f ` dom acts \<subseteq> {..<unat nxt}"
    using acts_okD(3) [OF acts] by (auto simp: word_less_nat_alt)
  ultimately have "card (dom acts) \<le> card {..<unat nxt}" by (intro card_inj_on_le) auto
  then show ?thesis by simp
qed

lemma build_key_renumber:
  assumes "n < m \<longleftrightarrow> act_seq a < act_seq b" "m < n \<longleftrightarrow> act_seq b < act_seq a"
  shows "build_key s (a\<lparr>act_seq := n\<rparr>) < build_key s (b\<lparr>act_seq := m\<rparr>) \<longleftrightarrow> build_key s a < build_key s b"
proof -
  have "cmp_of n m = cmp_of (act_seq a) (act_seq b)" "cmp_of m n = cmp_of (act_seq b) (act_seq a)"
    using assms by (auto simp: cmp_of_def)
  then show ?thesis
    by (cases s) (simp_all add: less_agenda_key_def key_cmp_def build_key_def strategy_cmp_def cmp_rev_def)
qed

lemma rebase_ok:
  assumes ok: "ag_ok ag" and walk: "enumerates walk (dom (activations ag))"
  shows "ag_ok (rebase_sequences walk ag)"
    "dom (activations (rebase_sequences walk ag)) = dom (activations ag)"
    "strategy (rebase_sequences walk ag) = strategy ag"
    "unat (next_seq (rebase_sequences walk ag)) = card (dom (activations ag))"
    "map snd (ordering (rebase_sequences walk ag)) = map snd (ordering ag)"
    "activations ag i = Some a \<Longrightarrow> \<exists>n. activations (rebase_sequences walk ag) i = Some (a\<lparr>act_seq := n\<rparr>)"
proof -
  note acts = ag_okD(1) [OF ok]
  define xs where "xs = sort_key (seq_of ag) walk"
  have live: "seq_of ag i = act_seq (the (activations ag i))" if "i \<in> dom (activations ag)" for i
    using that by (auto simp: seq_of_def)
  have xs: "distinct xs" "set xs = dom (activations ag)" "length xs = card (dom (activations ag))"
    using walk by (auto simp: xs_def dest: enumerates_length)
  have "inj_on (seq_of ag) (set walk)"
  proof (rule inj_onI)
    fix i j assume ij: "i \<in> set walk" "j \<in> set walk" "seq_of ag i = seq_of ag j"
    then have "i \<in> dom (activations ag)" "j \<in> dom (activations ag)" using walk by auto
    then obtain a b where "activations ag i = Some a" "activations ag j = Some b" by blast
    moreover from this ij(3) have "act_seq a = act_seq b" by (simp add: seq_of_def)
    ultimately show "i = j" using acts_okD(4) [OF acts] by blast
  qed
  then have "sorted_wrt (\<lambda>i j. seq_of ag i < seq_of ag j) xs"
    using walk by (auto simp: xs_def intro!: sort_key_strict)
  then have sorted: "sorted_wrt (\<lambda>i j. act_seq (the (activations ag i)) < act_seq (the (activations ag j))) xs"
    by (rule sorted_wrt_mono_rel [rotated]) (simp add: live xs(2))
  have len: "length xs < 2 ^ 64"
    using acts_card [OF acts] unat_u64_less [of "next_seq ag"] xs(3) by simp
  note ren = renumber_ok [OF acts xs(1,2) sorted len]
  define ag1 where "ag1 = ag\<lparr>rule_ordering := None, activations := renumber xs (activations ag),
      next_seq := word_of_nat (length xs)\<rparr>"
  have eq: "rebase_sequences walk ag = rebuild_ordering walk ag1"
    by (simp add: rebase_sequences_def xs_def ag1_def Let_def)
  have same: "(\<exists>a. renumber xs (activations ag) i = Some a \<and> act_token a = t) \<longleftrightarrow>
      (\<exists>a. activations ag i = Some a \<and> act_token a = t)" for i t
  proof (cases "activations ag i")
    case None
    then have "renumber xs (activations ag) i = None" using ren(2) by (metis domIff)
    with None show ?thesis by simp
  next
    case (Some a)
    with ren(3) [OF Some] show ?thesis by auto
  qed
  have tok: "token_index_ok ag1"
    using ag_okD(5) [OF ok] by (simp add: token_index_ok_def ag1_def same)
  have walk1: "enumerates walk (dom (activations ag1))" using walk by (simp add: ag1_def ren(2))
  have acts1: "acts_ok (activations ag1) (next_seq ag1)" using ren(1) by (simp add: ag1_def)
  have none: "rule_ordering ag1 = None" by (simp add: ag1_def)
  note reb = rebuild_ordering_ok [OF acts1 tok walk1 none]
  show ok': "ag_ok (rebase_sequences walk ag)" using reb(1) by (simp add: eq)
  show dom: "dom (activations (rebase_sequences walk ag)) = dom (activations ag)"
    using reb(2) ren(2) by (simp add: eq ag1_def)
  show str: "strategy (rebase_sequences walk ag) = strategy ag" using reb(3) by (simp add: eq ag1_def)
  show "unat (next_seq (rebase_sequences walk ag)) = card (dom (activations ag))"
    using reb(4) len xs(3) unat_pool_id [where 'a = 64, of "length xs"] by (simp add: eq ag1_def)
  show new: "\<exists>n. activations (rebase_sequences walk ag) i = Some (a\<lparr>act_seq := n\<rparr>)"
    if "activations ag i = Some a" for i a
    using ren(3) [OF that] reb(2) by (simp add: eq ag1_def)
  show "map snd (ordering (rebase_sequences walk ag)) = map snd (ordering ag)"
  proof (rule same_order [OF ok ok' dom])
    fix i j assume "i \<in> dom (activations ag)" "j \<in> dom (activations ag)"
    then obtain a b where ab: "activations ag i = Some a" "activations ag j = Some b" by blast
    obtain n m where nm: "activations (rebase_sequences walk ag) i = Some (a\<lparr>act_seq := n\<rparr>)"
      "activations (rebase_sequences walk ag) j = Some (b\<lparr>act_seq := m\<rparr>)"
      using new [OF ab(1)] new [OF ab(2)] by blast
    have "n < m \<longleftrightarrow> act_seq a < act_seq b" "m < n \<longleftrightarrow> act_seq b < act_seq a"
      using ren(4) [OF ab] ren(4) [OF ab(2,1)] nm reb(2) by (simp_all add: eq ag1_def)
    from build_key_renumber [OF this] show "key_at (rebase_sequences walk ag) i < key_at (rebase_sequences walk ag) j \<longleftrightarrow>
        key_at ag i < key_at ag j" by (simp add: key_at_def nm ab str)
  qed
qed

section \<open>Adding\<close>

text \<open>Fewer live activations than sequence numbers.\<close>

definition agenda_room :: "agenda \<Rightarrow> bool" where
  "agenda_room ag \<longleftrightarrow> card (dom (activations ag)) < 2 ^ 64 - 1"

lemma bt_insert_snd:
  "k \<notin> fst ` set t \<Longrightarrow> i \<notin> snd ` set t \<Longrightarrow> filter (\<lambda>j. j \<noteq> i) (map snd (bt_insert k i t)) = map snd t"
proof (induction k i t rule: bt_insert.induct)
  case (2 k v j w ps)
  then have "filter (\<lambda>j. j \<noteq> v) (map snd ps) = map snd ps" by (auto simp: filter_id_conv)
  with 2 show ?case by auto
qed simp

lemma agenda_add_ok:
  assumes ok: "ag_ok ag" and new: "fresh_key i (activations ag)" and room: "agenda_room ag"
    and walk: "enumerates walk (dom (activations ag))"
  shows "ag_ok (agenda_add walk i a ag)"
    "filter (\<lambda>j. j \<noteq> i) (map snd (ordering (agenda_add walk i a ag))) = map snd (ordering ag)"
    "strategy (agenda_add walk i a ag) = strategy ag"
    "dom (activations (agenda_add walk i a ag)) = insert i (dom (activations ag))"
    "\<exists>n. activations (agenda_add walk i a ag) i = Some (a\<lparr>act_id := i, act_seq := n\<rparr>) \<and>
       (\<forall>j b. j \<noteq> i \<longrightarrow> activations (agenda_add walk i a ag) j = Some b \<longrightarrow> act_seq b < n)"
    "j \<noteq> i \<Longrightarrow> map_option (\<lambda>b. b\<lparr>act_seq := 0\<rparr>) (activations (agenda_add walk i a ag) j) =
       map_option (\<lambda>b. b\<lparr>act_seq := 0\<rparr>) (activations ag j)"
proof -
  define ag1 where "ag1 = (if next_seq ag = u64_max then rebase_sequences walk ag else ag)"
  note reb = rebase_ok [OF ok walk]
  have ok1: "ag_ok ag1" and dom1: "dom (activations ag1) = dom (activations ag)"
    and str1: "strategy ag1 = strategy ag" and ord1: "map snd (ordering ag1) = map snd (ordering ag)"
    using ok reb by (simp_all add: ag1_def)
  have same1: "map_option (\<lambda>b. b\<lparr>act_seq := 0\<rparr>) (activations ag1 j) =
       map_option (\<lambda>b. b\<lparr>act_seq := 0\<rparr>) (activations ag j)" for j
  proof (cases "activations ag j")
    case None
    then have "activations ag1 j = None" using dom1 by (metis domIff)
    with None show ?thesis by simp
  next
    case (Some b)
    with reb(6) [OF Some] show ?thesis by (auto simp: ag1_def)
  qed
  have room1: "next_seq ag1 \<noteq> u64_max"
  proof
    assume max: "next_seq ag1 = u64_max"
    show False
    proof (cases "next_seq ag = u64_max")
      case True
      then have "unat (u64_max :: u64) = card (dom (activations ag))"
        using reb(4) max by (simp add: ag1_def)
      with room show False by (simp add: agenda_room_def)
    qed (use max in \<open>simp add: ag1_def\<close>)
  qed
  have new1: "activations ag1 i = None" using new dom1 by (simp add: fresh_key_def domIff) (metis domIff)
  let ?a = "a\<lparr>act_seq := next_seq ag1, act_id := i\<rparr>" and ?ag = "agenda_add walk i a ag"
  have key: "build_key s (a\<lparr>act_seq := n\<rparr>) = build_key s (a\<lparr>act_seq := n, act_id := i\<rparr>)" for s n
    by (cases s) (simp_all add: build_key_def)
  have fields: "activations ?ag = (activations ag1)(i \<mapsto> ?a)" "strategy ?ag = strategy ag1"
    "next_seq ?ag = next_seq ag1 + 1"
    "ordering ?ag = bt_insert (build_key (strategy ag1) ?a) i (ordering ag1)"
    "id_to_key ?ag = (id_to_key ag1)(i \<mapsto> build_key (strategy ag1) ?a)"
    "token_to_activations ?ag = vec_index_push (act_token ?a) i (token_to_activations ag1)"
    "rule_ordering ?ag = map_option (add_rule_key (act_rule ?a) (build_key (strategy ag1) ?a) i) (rule_ordering ag1)"
    by (simp_all add: agenda_add_def ag1_def [symmetric] Let_def key)
  show "ag_ok ?ag"
    by (rule ag_ok_addI [OF ok1 new1 room1 _ _ fields(1-3) fields(4-7)]) simp_all
  show "strategy ?ag = strategy ag" by (simp add: fields str1)
  show "dom (activations ?ag) = insert i (dom (activations ag))" by (simp add: fields dom1)
  have older: "act_seq b < next_seq ag1" if "activations ag1 j = Some b" for j b
    using acts_okD(3) [OF ag_okD(1) [OF ok1] that] .
  then show "\<exists>n. activations ?ag i = Some (a\<lparr>act_id := i, act_seq := n\<rparr>) \<and>
       (\<forall>j b. j \<noteq> i \<longrightarrow> activations ?ag j = Some b \<longrightarrow> act_seq b < n)"
    by (intro exI [of _ "next_seq ag1"]) (simp add: fields)
  show "map_option (\<lambda>b. b\<lparr>act_seq := 0\<rparr>) (activations ?ag j) =
       map_option (\<lambda>b. b\<lparr>act_seq := 0\<rparr>) (activations ag j)" if "j \<noteq> i" for j
    using that same1 [of j] by (simp add: fields)
  have "i \<notin> snd ` set (ordering ag1)"
    using ordering_ids(1) [OF ok1] new1 by (simp add: domIff)
  moreover have "build_key (strategy ag1) ?a \<notin> fst ` set (ordering ag1)"
  proof
    assume "build_key (strategy ag1) ?a \<in> fst ` set (ordering ag1)"
    then obtain j b where "activations ag1 j = Some b" "build_key (strategy ag1) ?a = build_key (strategy ag1) b"
      by (auto simp: ag_okD(3) [OF ok1] entry_iff)
    moreover from this have "act_seq ?a = act_seq b" by (metis key_seq_build(1))
    ultimately show False using older by fastforce
  qed
  ultimately show "filter (\<lambda>j. j \<noteq> i) (map snd (ordering ?ag)) = map snd (ordering ag)"
    unfolding fields(4) ord1 [symmetric] by (intro bt_insert_snd)
qed

section \<open>Popping\<close>

text \<open>The entry of an activation that satisfies \<open>p\<close> and is beaten by none that does.\<close>

definition best :: "agenda \<Rightarrow> (activation \<Rightarrow> bool) \<Rightarrow> activation_id \<Rightarrow> bool" where
  "best ag p i \<longleftrightarrow> matches_at p ag i \<and> (\<forall>j. matches_at p ag j \<longrightarrow> key_at ag i \<le> key_at ag j)"

lemma matches_live: "matches_at p ag i \<Longrightarrow> i \<in> dom (activations ag)"
  by (auto simp: matches_at_def split: option.splits)

lemma find_best:
  assumes ok: "ag_ok ag"
  shows "case find (\<lambda>(_, i). matches_at p ag i) (ordering ag) of
      None \<Rightarrow> \<forall>i. \<not> matches_at p ag i
    | Some (k, i) \<Rightarrow> best ag p i \<and> k = key_at ag i"
proof (cases "find (\<lambda>(_, i). matches_at p ag i) (ordering ag)")
  case None
  have "\<not> matches_at p ag i" for i
  proof
    assume m: "matches_at p ag i"
    then have "(key_at ag i, i) \<in> set (ordering ag)" using matches_live ordering_key_at [OF ok] by blast
    with None m show False unfolding find_None_iff by auto
  qed
  with None show ?thesis by simp
next
  case (Some e)
  obtain k i where e: "e = (k, i)" by (cases e)
  have "sorted_wrt (\<lambda>p q. fst p < fst q) (ordering ag)"
    using ag_okD(2) [OF ok] by (simp add: bt_ok_def sorted_wrt_map)
  note first = find_sorted_first [OF this Some]
  have k: "k = key_at ag i" and mi: "matches_at p ag i"
    using first(1,2) ordering_key_at [OF ok] by (auto simp: e)
  have "key_at ag i \<le> key_at ag j" if m: "matches_at p ag j" for j
  proof -
    have "(key_at ag j, j) \<in> set (ordering ag)" using m matches_live ordering_key_at [OF ok] by blast
    from first(3) [OF this] m k e show ?thesis by simp
  qed
  with k mi e Some show ?thesis by (simp add: best_def)
qed

lemma pop_matching_find:
  assumes ok: "ag_ok ag"
  shows "pop_matching p ag =
    (case find (\<lambda>(_, i). matches_at p ag i) (ordering ag) of
       None \<Rightarrow> (None, ag)
     | Some (key, i) \<Rightarrow> finish_removal key i (ag\<lparr>ordering := bt_remove key (ordering ag)\<rparr>))"
  by (cases "ordering ag") (auto simp: pop_matching_def agenda_pop_def)

lemma agenda_pop_find:
  assumes ok: "ag_ok ag"
  shows "agenda_pop ag = pop_matching (\<lambda>_. True) ag"
proof (cases "ordering ag")
  case (Cons e rest)
  obtain k i where e: "e = (k, i)" by (cases e)
  have "i \<in> dom (activations ag)" using ordering_key_at [OF ok, of k i] Cons e by simp
  then have "matches_at (\<lambda>_. True) ag i" by (auto simp: matches_at_def)
  with Cons e show ?thesis by (simp add: pop_matching_def)
qed (simp add: agenda_pop_def pop_matching_def)

lemma finish_best:
  assumes ok: "ag_ok ag" and b: "best ag p i"
  obtains a ag' where
    "finish_removal (key_at ag i) i (ag\<lparr>ordering := bt_remove (key_at ag i) (ordering ag)\<rparr>) = (Some a, ag')"
    "activations ag i = Some a" "p a" "ag_ok ag'" "activations ag' = (activations ag)(i := None)"
    "strategy ag' = strategy ag" "next_seq ag' = next_seq ag"
proof -
  obtain a where a: "activations ag i = Some a" "p a"
    using b by (auto simp: best_def matches_at_def split: option.splits)
  then have "key_at ag i = build_key (strategy ag) a" by (simp add: key_at_def)
  with finish_removal_ok [OF ok a(1)] a that show thesis by metis
qed

lemma pop_matching_ok:
  assumes ok: "ag_ok ag"
  obtains (none) "pop_matching p ag = (None, ag)" "\<forall>i. \<not> matches_at p ag i"
  | (some) i a ag' where "pop_matching p ag = (Some a, ag')" "best ag p i" "activations ag i = Some a"
      "p a" "ag_ok ag'" "activations ag' = (activations ag)(i := None)" "strategy ag' = strategy ag"
proof (cases "find (\<lambda>(_, i). matches_at p ag i) (ordering ag)")
  case None
  with find_best [OF ok, of p] pop_matching_find [OF ok, of p] show thesis by (intro none) simp_all
next
  case (Some e)
  obtain k i where e: "e = (k, i)" by (cases e)
  from find_best [OF ok, of p] Some e have b: "best ag p i" "k = key_at ag i" by auto
  from finish_best [OF ok b(1)] obtain a ag' where
    "finish_removal (key_at ag i) i (ag\<lparr>ordering := bt_remove (key_at ag i) (ordering ag)\<rparr>) = (Some a, ag')"
    "activations ag i = Some a" "p a" "ag_ok ag'" "activations ag' = (activations ag)(i := None)"
    "strategy ag' = strategy ag" by metis
  with Some e b pop_matching_find [OF ok, of p] show thesis
    by (intro some [of a ag' i]) simp_all
qed

section \<open>The per-rule index\<close>

lemma build_rule_ordering_loop:
  assumes "\<And>k i. (k, i) \<in> set es \<Longrightarrow> \<exists>a. activations ag i = Some a"
    and "distinct (map fst es)" and "\<And>r. bt_ok (bucket m r)" and "vec_pruned m"
    and "\<And>r. fst ` set (bucket m r) \<inter> fst ` set es = {}"
  defines "m' \<equiv> fold (\<lambda>(key, i) index. case activations ag i of
             None \<Rightarrow> index | Some a \<Rightarrow> add_rule_key (act_rule a) key i index) es m"
  shows "vec_pruned m' \<and> bt_ok (bucket m' r) \<and> set (bucket m' r) =
    set (bucket m r) \<union> {(k, i) \<in> set es. matches_at (\<lambda>a. act_rule a = r) ag i}"
  using assms(1-5) unfolding m'_def
proof (induction es arbitrary: m)
  case (Cons e es)
  obtain k i where e: "e = (k, i)" by (cases e)
  obtain a where a: "activations ag i = Some a" using Cons.prems(1) [of k i] e by auto
  let ?m = "add_rule_key (act_rule a) k i m"
  have buck: "bucket ?m q = (if q = act_rule a then bt_insert k i (bucket m q) else bucket m q)" for q
    by (simp add: add_rule_key_def bucket_def)
  have kq: "k \<notin> fst ` set (bucket m q)" for q using Cons.prems(5) [of q] e by auto
  have "bt_insert k i xs \<noteq> []" for xs by (cases xs) (auto split: if_splits)
  then have pr: "vec_pruned ?m" using Cons.prems(4) by (auto simp: vec_pruned_def add_rule_key_def)
  have "vec_pruned (fold (\<lambda>(key, i) index. case activations ag i of
             None \<Rightarrow> index | Some a \<Rightarrow> add_rule_key (act_rule a) key i index) es ?m) \<and>
     bt_ok (bucket (fold (\<lambda>(key, i) index. case activations ag i of
             None \<Rightarrow> index | Some a \<Rightarrow> add_rule_key (act_rule a) key i index) es ?m) r) \<and>
     set (bucket (fold (\<lambda>(key, i) index. case activations ag i of
             None \<Rightarrow> index | Some a \<Rightarrow> add_rule_key (act_rule a) key i index) es ?m) r) =
     set (bucket ?m r) \<union> {(k, i) \<in> set es. matches_at (\<lambda>a. act_rule a = r) ag i}"
  proof (rule Cons.IH)
    show "fst ` set (bucket ?m q) \<inter> fst ` set es = {}" for q
      using Cons.prems(2) Cons.prems(5) [of q] e by (auto simp: buck keys_bt_insert)
  qed (use Cons.prems e pr in \<open>auto simp: buck bt_insert_ok\<close>)
  then show ?case
    using kq [of r] by (auto simp: e a buck set_bt_insert_new matches_at_def)
qed simp

lemma build_rule_ordering_ok:
  assumes ok: "ag_ok ag"
  shows "rule_index_ok ag (build_rule_ordering ag)"
proof -
  have live: "\<exists>a. activations ag i = Some a" if "(k, i) \<in> set (ordering ag)" for k i
    using that ordering_key_at [OF ok] by blast
  have "distinct (map fst (ordering ag))" using ag_okD(2) [OF ok] by (rule bt_ok_distinct)
  note loop = build_rule_ordering_loop [OF live this, where m = Map.empty, simplified, folded build_rule_ordering_def]
  have ents: "{(k, i) \<in> set (ordering ag). matches_at (\<lambda>a. act_rule a = r) ag i} = rule_entries ag r" for r
    by (auto simp: ag_okD(3) [OF ok] entry_iff rule_entry_iff matches_at_def)
  show ?thesis
    unfolding rule_index_ok_def
  proof
    fix r
    show "case build_rule_ordering ag r of None \<Rightarrow> rule_entries ag r = {}
        | Some es \<Rightarrow> es \<noteq> [] \<and> bt_ok es \<and> set es = rule_entries ag r"
      using loop [where r = r] ents [of r] by (auto simp: bucket_def vec_pruned_def split: option.splits)
  qed
qed

lemma min_entry_least:
  "min_entry es = None \<longleftrightarrow> es = []"
  "min_entry es = Some e \<Longrightarrow> e \<in> set es \<and> (\<forall>e' \<in> set es. fst e \<le> fst e')"
proof (induction es arbitrary: e)
  case (Cons x es)
  {
    case 1 show ?case by (auto split: option.splits)
  next
    case 2
    then show ?case using Cons.IH
      by (cases "min_entry es") (auto split: if_splits intro: order_trans)
  }
qed simp_all

end
