(* ===== verification/Agenda_Results.thy ===== *)
theory Agenda_Results
  imports Agenda_Properties
begin

text \<open>
  What the agenda promises its callers: the accelerated selection by rule is the plain one, bulk
  removals, strategy changes and clearing keep the invariant, every reachable agenda passes the
  code's own consistency check, and what is popped is what the strategy asks for.
\<close>

section \<open>Selection by rule\<close>

definition used_index :: "agenda \<Rightarrow> rule_ordering" where
  "used_index ag = (case rule_ordering ag of Some index \<Rightarrow> index | None \<Rightarrow> build_rule_ordering ag)"

lemma rule_index_ok_ordering [simp]: "rule_index_ok (ag\<lparr>rule_ordering := x\<rparr>) index = rule_index_ok ag index"
  by (simp add: rule_index_ok_def rule_entries_def cong: option.case_cong)

lemma ag_ok_rule_ordering:
  assumes "ag_ok (ag\<lparr>rule_ordering := x\<rparr>)" and "\<And>index. rule_ordering ag = Some index \<Longrightarrow> rule_index_ok ag index"
  shows "ag_ok ag"
  using assms unfolding ag_ok_def by (simp add: entry_set_def token_index_ok_def)

lemma ag_ok_set_rule_ordering:
  assumes "ag_ok ag" and "\<And>index. x = Some index \<Longrightarrow> rule_index_ok ag index"
  shows "ag_ok (ag\<lparr>rule_ordering := x\<rparr>)"
  using assms unfolding ag_ok_def by (simp add: entry_set_def token_index_ok_def)

lemma used_index_ok: "ag_ok ag \<Longrightarrow> rule_index_ok ag (used_index ag)"
  using ag_okD(6) build_rule_ordering_ok by (simp add: used_index_def split: option.split)

lemma rule_index_at:
  assumes "rule_index_ok ag index"
  shows "case index r of None \<Rightarrow> rule_entries ag r = {}
      | Some es \<Rightarrow> es \<noteq> [] \<and> bt_ok es \<and> set es = rule_entries ag r"
  using assms unfolding rule_index_ok_def by blast

lemma rule_index_unique:
  assumes "rule_index_ok ag x" "rule_index_ok ag y"
  shows "x = y"
proof
  fix r show "x r = y r"
    using rule_index_at [OF assms(1), of r] rule_index_at [OF assms(2), of r] 
    by (cases "x r"; cases "y r") (auto intro: bt_eqI)
qed

definition rule_heads :: "rule_id list \<Rightarrow> rule_ordering \<Rightarrow> (agenda_key \<times> activation_id) list" where
  "rule_heads rs index = List.map_filter (\<lambda>r. Option.bind (index r) bt_first) rs"

lemma set_map_filter: "y \<in> set (List.map_filter f xs) \<longleftrightarrow> (\<exists>x \<in> set xs. f x = Some y)"
  by (force simp: List.map_filter_def)

lemma rule_heads_best:
  assumes ok: "ag_ok ag" and idx: "rule_index_ok ag index" and rs: "enumerates rs (dom index)"
  shows "case min_entry (rule_heads (filter p rs) index) of
      None \<Rightarrow> \<forall>i. \<not> matches_at (\<lambda>a. p (act_rule a)) ag i
    | Some (k, i) \<Rightarrow> best ag (\<lambda>a. p (act_rule a)) i \<and> k = key_at ag i"
proof -
  let ?h = "rule_heads (filter p rs) index" and ?p = "\<lambda>a. p (act_rule a)"
  have head: "\<exists>k' i'. (k', i') \<in> set ?h \<and> k' \<le> key_at ag j" if m: "matches_at ?p ag j" for j
  proof -
    from m obtain a where a: "activations ag j = Some a" "p (act_rule a)"
      by (auto simp: matches_at_def split: option.splits)
    then have ent: "(key_at ag j, j) \<in> rule_entries ag (act_rule a)"
      by (simp add: rule_entry_iff key_at_def)
    from rule_index_at [OF idx, of "act_rule a"] ent obtain es where
      es: "index (act_rule a) = Some es" "bt_ok es" "(key_at ag j, j) \<in> set es"
      by (cases "index (act_rule a)") auto
    then obtain k' i' where k': "bt_first es = Some (k', i')"
      by (cases es) (auto simp: bt_first_def)
    have "act_rule a \<in> set (filter p rs)" using a rs es(1) by (auto simp: enumerates_def)
    then have "(k', i') \<in> set ?h" using es(1) k' by (auto simp: rule_heads_def set_map_filter)
    moreover have "k' \<le> key_at ag j" by (rule bt_first_least(2) [OF es(2) k' es(3)])
    ultimately show ?thesis by blast
  qed
  have heads: "matches_at ?p ag i \<and> k = key_at ag i" if mem: "(k, i) \<in> set ?h" for k i
  proof -
    from mem obtain r es where r: "r \<in> set (filter p rs)" "index r = Some es" "bt_first es = Some (k, i)"
      by (auto simp: rule_heads_def set_map_filter bind_eq_Some_conv)
    from rule_index_at [OF idx, of r] r have "(k, i) \<in> rule_entries ag r"
      using bt_first_least(1) by fastforce
    with r(1) show ?thesis by (auto simp: rule_entry_iff matches_at_def key_at_def)
  qed
  show ?thesis
  proof (cases "min_entry ?h")
    case None
    then show ?thesis using head by (fastforce simp: min_entry_least(1))
  next
    case (Some e)
    obtain k i where e: "e = (k, i)" by (cases e)
    from min_entry_least(2) [OF Some] have "(k, i) \<in> set ?h" "\<forall>e' \<in> set ?h. k \<le> fst e'" by (simp_all add: e)
    with heads head Some e show ?thesis unfolding best_def by fastforce
  qed
qed

lemma best_unique:
  assumes ok: "ag_ok ag" and "best ag p i" "best ag p j"
  shows "i = j"
proof -
  from assms have "key_at ag i = key_at ag j" by (auto simp: best_def intro: antisym)
  moreover obtain a b where "activations ag i = Some a" "activations ag j = Some b"
    using assms by (auto simp: best_def dest!: matches_live)
  ultimately show ?thesis using key_unique [OF ag_okD(1) [OF ok]] by (metis key_at_def option.sel)
qed

lemma finish_removal_rule_ordering:
  "fst (finish_removal k i (ag\<lparr>rule_ordering := x\<rparr>)) = fst (finish_removal k i ag)"
  "(snd (finish_removal k i (ag\<lparr>rule_ordering := x\<rparr>)))\<lparr>rule_ordering := None\<rparr> =
     (snd (finish_removal k i ag))\<lparr>rule_ordering := None\<rparr>"
  by (simp_all add: finish_removal_def Let_def split: option.split)

text \<open>The same activation, the same agenda but for the per-rule index, which stays right.\<close>

lemma pop_matching_rule_eq:
  assumes ok: "ag_ok ag" and rs: "enumerates (rules (used_index ag)) (dom (used_index ag))"
  shows "fst (pop_matching_rule rules p ag) = fst (pop_matching (\<lambda>a. p (act_rule a)) ag)"
    "(snd (pop_matching_rule rules p ag))\<lparr>rule_ordering := None\<rparr> =
       (snd (pop_matching (\<lambda>a. p (act_rule a)) ag))\<lparr>rule_ordering := None\<rparr>"
    "ag_ok (snd (pop_matching_rule rules p ag))"
proof -
  let ?p = "\<lambda>a. p (act_rule a)" and ?idx = "used_index ag"
  let ?ag = "ag\<lparr>rule_ordering := Some ?idx\<rparr>"
  have ok': "ag_ok ?ag" using ok used_index_ok [OF ok] by (intro ag_ok_set_rule_ordering) simp_all
  have "fst (pop_matching_rule rules p ag) = fst (pop_matching ?p ag) \<and>
    (snd (pop_matching_rule rules p ag))\<lparr>rule_ordering := None\<rparr> =
      (snd (pop_matching ?p ag))\<lparr>rule_ordering := None\<rparr> \<and> ag_ok (snd (pop_matching_rule rules p ag))"
  proof (cases "ordering ag")
    case Nil
    then show ?thesis using ok by (simp add: pop_matching_rule_def pop_matching_def)
  next
    case (Cons e rest)
    obtain k0 i0 where e: "e = (k0, i0)" by (cases e)
    show ?thesis
    proof (cases "matches_at ?p ag i0")
      case True
      then have "pop_matching_rule rules p ag = pop_matching ?p ag"
        by (simp add: pop_matching_rule_def pop_matching_def Cons e)
      moreover have "ag_ok (snd (pop_matching ?p ag))"
        by (rule pop_matching_ok [OF ok, of ?p]) (use ok in simp_all)
      ultimately show ?thesis by simp
    next
      case False
      then have rule: "pop_matching_rule rules p ag =
          (case min_entry (rule_heads (filter p (rules ?idx)) ?idx) of
             None \<Rightarrow> (None, ?ag)
           | Some (k, i) \<Rightarrow> finish_removal k i (?ag\<lparr>ordering := bt_remove k (ordering ?ag)\<rparr>))"
        by (simp add: pop_matching_rule_def Cons e Let_def rule_heads_def used_index_def [symmetric] cong: option.case_cong)
      note plain = pop_matching_find [OF ok, of ?p]
      note b1 = find_best [OF ok, of ?p]
      note b2 = rule_heads_best [OF ok used_index_ok [OF ok] rs, of p]
      show ?thesis
      proof (cases "find (\<lambda>(_, i). matches_at ?p ag i) (ordering ag)")
        case None
        with b1 have none: "\<forall>i. \<not> matches_at ?p ag i" by simp
        then have "min_entry (rule_heads (filter p (rules ?idx)) ?idx) = None"
          using b2 by (auto simp: best_def split: option.splits)
        then show ?thesis using rule plain None ok' by simp
      next
        case (Some f)
        obtain k i where f: "f = (k, i)" by (cases f)
        from b1 Some f have bi: "best ag ?p i" "k = key_at ag i" by auto
        then obtain k' j where kj: "min_entry (rule_heads (filter p (rules ?idx)) ?idx) = Some (k', j)"
          using b2 by (cases "min_entry (rule_heads (filter p (rules ?idx)) ?idx)") (auto simp: best_def)
        then have "best ag ?p j" "k' = key_at ag j" using b2 by auto
        with bi best_unique [OF ok] have j: "j = i" "k' = k" by metis+
        have upd: "?ag\<lparr>ordering := bt_remove k (ordering ag)\<rparr> =
            (ag\<lparr>ordering := bt_remove k (ordering ag)\<rparr>)\<lparr>rule_ordering := Some ?idx\<rparr>" by simp
        have eq: "pop_matching_rule rules p ag =
            finish_removal k i (?ag\<lparr>ordering := bt_remove k (ordering ag)\<rparr>)"
          using rule by (simp add: kj j)
        have same: "matches_at ?p ?ag j = matches_at ?p ag j" "key_at ?ag j = key_at ag j" for j
          by (simp_all add: matches_at_def key_at_def)
        have "best ?ag ?p i" using bi(1) by (simp add: best_def same)
        from finish_best [OF ok' this] obtain a' ag' where
          "finish_removal (key_at ?ag i) i (?ag\<lparr>ordering := bt_remove (key_at ?ag i) (ordering ?ag)\<rparr>) = (Some a', ag')"
          "ag_ok ag'" by blast
        then have "ag_ok (snd (finish_removal k i (?ag\<lparr>ordering := bt_remove k (ordering ag)\<rparr>)))"
          by (simp add: same bi(2))
        moreover have "pop_matching ?p ag = finish_removal k i (ag\<lparr>ordering := bt_remove k (ordering ag)\<rparr>)"
          using plain by (simp add: Some f)
        ultimately show ?thesis
          unfolding eq upd by (simp only: finish_removal_rule_ordering simp_thms)
      qed
    qed
  qed
  then show "fst (pop_matching_rule rules p ag) = fst (pop_matching ?p ag)"
    "(snd (pop_matching_rule rules p ag))\<lparr>rule_ordering := None\<rparr> =
      (snd (pop_matching ?p ag))\<lparr>rule_ordering := None\<rparr>"
    "ag_ok (snd (pop_matching_rule rules p ag))" by blast+
qed

section \<open>Bulk removals\<close>

definition live_map :: "agenda \<Rightarrow> activation_id list \<Rightarrow> activation list" where
  "live_map ag ids = map (\<lambda>i. the (activations ag i)) ids"

text \<open>The state with the ids still to be visited back in the index of the token.\<close>

definition token_view :: "token_id \<Rightarrow> activation_id list \<Rightarrow> agenda \<Rightarrow> agenda" where
  "token_view t ids ag = ag\<lparr>token_to_activations :=
     (token_to_activations ag)(t := if ids = [] then None else Some ids)\<rparr>"

lemma drop_for_token_view:
  assumes ok: "ag_ok (token_view t (i # ids) ag)"
  obtains a ag' where "drop_for_token i (removed, ag) = (removed @ [a], ag')" "activations ag i = Some a"
    "act_token a = t" "ag_ok (token_view t ids ag')" "activations ag' = (activations ag)(i := None)"
    "strategy ag' = strategy ag" "token_to_activations ag' = token_to_activations ag" "i \<notin> set ids"
proof -
  let ?v = "token_view t (i # ids) ag"
  have vs: "activations ?v = activations ag" "strategy ?v = strategy ag" "id_to_key ?v = id_to_key ag"
    "ordering ?v = ordering ag" "rule_ordering ?v = rule_ordering ag" "next_seq ?v = next_seq ag"
    "token_to_activations ?v = (token_to_activations ag)(t \<mapsto> i # ids)"
    by (simp_all add: token_view_def)
  have "distinct (bucket (token_to_activations ?v) t) \<and>
      set (bucket (token_to_activations ?v) t) = {i. \<exists>a. activations ?v i = Some a \<and> act_token a = t}"
    using ag_okD(5) [OF ok] unfolding token_index_ok_def by blast
  then have "distinct (i # ids)" "set (i # ids) = {i. \<exists>a. activations ag i = Some a \<and> act_token a = t}"
    by (simp_all add: vs)
  moreover from this(2) have "i \<in> {i. \<exists>a. activations ag i = Some a \<and> act_token a = t}"
    by (metis list.set_intros(1))
  ultimately obtain a where a: "activations ag i = Some a" "act_token a = t" and i: "i \<notin> set ids" by auto
  let ?d = "drop_for_token i (removed, ag)"
  have key: "id_to_key ag i = Some (build_key (strategy ag) a)"
    using ag_okD(4) [OF ok, of i] a by (simp add: vs)
  have del: "vec_index_del t i ((token_to_activations ag)(t \<mapsto> i # ids)) =
      (token_to_activations ag)(t := if ids = [] then None else Some ids)"
  proof -
    have "filter (\<lambda>x. x \<noteq> i) ids = ids" using i by (auto simp: filter_id_conv)
    then show ?thesis by (simp add: vec_index_del_def Let_def)
  qed
  have "ag_ok (token_view t ids (snd ?d))"
    by (rule ag_ok_removeI [OF ok, unfolded vs, OF a(1)])
      (simp_all add: token_view_def drop_for_token_def key a del Let_def split: option.splits)
  moreover have "fst ?d = removed @ [a]" "activations (snd ?d) = (activations ag)(i := None)"
    "strategy (snd ?d) = strategy ag" "token_to_activations (snd ?d) = token_to_activations ag"
    by (simp_all add: drop_for_token_def key a Let_def split: option.splits)
  ultimately show thesis using a i that [of a "snd ?d"] by (metis prod.collapse)
qed

lemma drop_for_token_loop:
  assumes "ag_ok (token_view t ids ag)"
  obtains ag' where "fold drop_for_token ids (removed, ag) = (removed @ live_map ag ids, ag')"
    "ag_ok (token_view t [] ag')" "activations ag' = activations ag |` (- set ids)" "strategy ag' = strategy ag"
    "token_to_activations ag' = token_to_activations ag"
  using assms
proof (induction ids arbitrary: ag removed thesis)
  case Nil
  then show ?case by (simp add: live_map_def)
next
  case (Cons i ids)
  from drop_for_token_view [OF Cons.prems(2), of removed] obtain a ag1 where step:
    "drop_for_token i (removed, ag) = (removed @ [a], ag1)" "activations ag i = Some a"
    "ag_ok (token_view t ids ag1)" "activations ag1 = (activations ag)(i := None)"
    "strategy ag1 = strategy ag" "token_to_activations ag1 = token_to_activations ag" "i \<notin> set ids" by metis
  from Cons.IH [OF _ step(3), of "removed @ [a]"] obtain ag' where
    "fold drop_for_token ids (removed @ [a], ag1) = ((removed @ [a]) @ live_map ag1 ids, ag')"
    "ag_ok (token_view t [] ag')" "activations ag' = activations ag1 |` (- set ids)" "strategy ag' = strategy ag1"
    "token_to_activations ag' = token_to_activations ag1"
    by metis
  moreover have "live_map ag (i # ids) = a # live_map ag1 ids"
    using step(2,7) by (auto simp: live_map_def step(4))
  moreover have "((activations ag)(i := None)) |` (- set ids) = activations ag |` (- set (i # ids))"
    by (auto simp: restrict_map_def)
  ultimately show ?case using step by (intro Cons.prems(1) [of ag']) simp_all
qed

lemma remove_for_token_ok:
  assumes ok: "ag_ok ag"
  obtains ag' ids where "remove_activations_for_token t ag = (live_map ag ids, ag')" "ag_ok ag'"
    "distinct ids" "set ids = {i. \<exists>a. activations ag i = Some a \<and> act_token a = t}"
    "activations ag' = activations ag |` (- set ids)" "strategy ag' = strategy ag"
proof -
  define ids where "ids = bucket (token_to_activations ag) t"
  have ids: "distinct ids" "set ids = {i. \<exists>a. activations ag i = Some a \<and> act_token a = t}"
    and pr: "vec_pruned (token_to_activations ag)"
    using ag_okD(5) [OF ok] by (simp_all add: token_index_ok_def ids_def)
  let ?ag = "ag\<lparr>token_to_activations := (token_to_activations ag)(t := None)\<rparr>"
  have rem: "remove_activations_for_token t ag = fold drop_for_token ids ([], ?ag)"
    by (auto simp: remove_activations_for_token_def ids_def bucket_def fun_upd_idem split: option.split)
  have "token_view t ids ?ag = ag"
    using pr by (cases "token_to_activations ag t")
      (auto simp: token_view_def ids_def bucket_def vec_pruned_def fun_upd_idem)
  with ok have "ag_ok (token_view t ids ?ag)" by simp
  from drop_for_token_loop [OF this, of "[]"] obtain ag' where st:
    "fold drop_for_token ids ([], ?ag) = (live_map ?ag ids, ag')" "ag_ok (token_view t [] ag')"
    "activations ag' = activations ag |` (- set ids)" "strategy ag' = strategy ag"
    "token_to_activations ag' = token_to_activations ?ag" by auto
  moreover have "token_view t [] ag' = ag'" using st(5) by (simp add: token_view_def)
  moreover have "live_map ?ag ids = live_map ag ids" by (simp add: live_map_def)
  ultimately show thesis using that [of ids ag'] ids rem by simp
qed

lemma drop_for_rule_ok:
  assumes ok: "ag_ok (ag\<lparr>rule_ordering := None\<rparr>)" and a: "activations ag i = Some a"
  obtains ag' where "drop_for_rule i (removed, ag) = (removed @ [a], ag')"
    "ag_ok (ag'\<lparr>rule_ordering := None\<rparr>)" "activations ag' = (activations ag)(i := None)"
    "strategy ag' = strategy ag" "rule_ordering ag' = rule_ordering ag"
proof -
  let ?v = "ag\<lparr>rule_ordering := None\<rparr>" and ?d = "drop_for_rule i (removed, ag)"
  have vs: "activations ?v = activations ag" "strategy ?v = strategy ag" "id_to_key ?v = id_to_key ag"
    "ordering ?v = ordering ag" "rule_ordering ?v = None" "next_seq ?v = next_seq ag"
    "token_to_activations ?v = token_to_activations ag" by simp_all
  have key: "id_to_key ag i = Some (build_key (strategy ag) a)"
    using ag_okD(4) [OF ok, of i] a by simp
  have "ag_ok ((snd ?d)\<lparr>rule_ordering := None\<rparr>)"
    by (rule ag_ok_removeI [OF ok, unfolded vs, OF a]) (simp_all add: drop_for_rule_def key a Let_def)
  moreover have "fst ?d = removed @ [a]" "activations (snd ?d) = (activations ag)(i := None)"
    "strategy (snd ?d) = strategy ag" "rule_ordering (snd ?d) = rule_ordering ag"
    by (simp_all add: drop_for_rule_def key a Let_def)
  ultimately show thesis using that [of "snd ?d"] by (metis prod.collapse)
qed

lemma drop_for_rule_loop:
  assumes "ag_ok (ag\<lparr>rule_ordering := None\<rparr>)" "distinct ids" "set ids \<subseteq> dom (activations ag)"
  obtains ag' where "fold drop_for_rule ids (removed, ag) = (removed @ live_map ag ids, ag')"
    "ag_ok (ag'\<lparr>rule_ordering := None\<rparr>)" "activations ag' = activations ag |` (- set ids)"
    "strategy ag' = strategy ag" "rule_ordering ag' = rule_ordering ag"
  using assms
proof (induction ids arbitrary: ag removed thesis)
  case Nil
  then show ?case by (simp add: live_map_def)
next
  case (Cons i ids)
  from Cons.prems(4) obtain a where a: "activations ag i = Some a" by auto
  from drop_for_rule_ok [OF Cons.prems(2) a, of removed] obtain ag1 where step:
    "drop_for_rule i (removed, ag) = (removed @ [a], ag1)" "ag_ok (ag1\<lparr>rule_ordering := None\<rparr>)"
    "activations ag1 = (activations ag)(i := None)" "strategy ag1 = strategy ag"
    "rule_ordering ag1 = rule_ordering ag" by metis
  have "distinct ids" "set ids \<subseteq> dom (activations ag1)" using Cons.prems(3,4) by (auto simp: step(3))
  from Cons.IH [OF _ step(2) this, of "removed @ [a]"] obtain ag' where
    "fold drop_for_rule ids (removed @ [a], ag1) = ((removed @ [a]) @ live_map ag1 ids, ag')"
    "ag_ok (ag'\<lparr>rule_ordering := None\<rparr>)" "activations ag' = activations ag1 |` (- set ids)"
    "strategy ag' = strategy ag1" "rule_ordering ag' = rule_ordering ag1" by metis
  moreover have "live_map ag (i # ids) = a # live_map ag1 ids"
    using a Cons.prems(3) by (auto simp: live_map_def step(3))
  moreover have "((activations ag)(i := None)) |` (- set ids) = activations ag |` (- set (i # ids))"
    by (auto simp: restrict_map_def)
  ultimately show ?case using step by (intro Cons.prems(1) [of ag']) simp_all
qed

lemma remove_for_rule_ok:
  assumes ok: "ag_ok ag" and walk: "enumerates walk (dom (activations ag))"
  obtains ag' ids where "remove_activations_for_rule walk r ag = (live_map ag ids, ag')" "ag_ok ag'"
    "distinct ids" "set ids = {i. \<exists>a. activations ag i = Some a \<and> act_rule a = r}"
    "activations ag' = activations ag |` (- set ids)" "strategy ag' = strategy ag"
proof -
  let ?x = "map_option (\<lambda>index. index(r := None)) (rule_ordering ag)"
  let ?ag = "ag\<lparr>rule_ordering := ?x\<rparr>"
  define ids where "ids = filter (\<lambda>i. matches_at (\<lambda>a. act_rule a = r) ag i) walk"
  have ids: "distinct ids" "set ids = {i. \<exists>a. activations ag i = Some a \<and> act_rule a = r}"
    using walk by (auto simp: ids_def enumerates_def matches_at_def split: option.splits)
  have same: "matches_at p ?ag = matches_at p ag" for p by (simp add: matches_at_def fun_eq_iff)
  have rem: "remove_activations_for_rule walk r ag = fold drop_for_rule ids ([], ?ag)"
    by (simp add: remove_activations_for_rule_def ids_def same Let_def)
  have ok0: "ag_ok (?ag\<lparr>rule_ordering := None\<rparr>)" using ag_ok_set_rule_ordering [OF ok, of None] by simp
  have sub: "set ids \<subseteq> dom (activations ?ag)" using ids(2) by auto
  from drop_for_rule_loop [OF ok0 ids(1) sub, of "[]"] obtain ag' where st:
    "fold drop_for_rule ids ([], ?ag) = (live_map ?ag ids, ag')" "ag_ok (ag'\<lparr>rule_ordering := None\<rparr>)"
    "activations ag' = activations ag |` (- set ids)" "strategy ag' = strategy ag" "rule_ordering ag' = ?x"
    by auto
  have ent: "rule_entries ag' q = (if q = r then {} else rule_entries ag q)" for q
    by (auto simp: rule_entries_def st(3,4) ids(2) restrict_map_def)
  have "ag_ok ag'"
  proof (rule ag_ok_rule_ordering [OF st(2)])
    fix index assume "rule_ordering ag' = Some index"
    then obtain old where old: "rule_ordering ag = Some old" "index = old(r := None)"
      using st(5) by auto
    note at = rule_index_at [OF ag_okD(6) [OF ok old(1)]]
    show "rule_index_ok ag' index"
      unfolding rule_index_ok_def
    proof
      fix q show "case index q of None \<Rightarrow> rule_entries ag' q = {}
          | Some es \<Rightarrow> es \<noteq> [] \<and> bt_ok es \<and> set es = rule_entries ag' q"
        using at [of q] by (simp add: old(2) ent cong: option.case_cong)
    qed
  qed
  moreover have "live_map ?ag ids = live_map ag ids" by (simp add: live_map_def)
  ultimately show thesis using that [of ids ag'] ids rem st by simp
qed

section \<open>Strategy changes, clearing and iteration\<close>

lemma set_strategy_ok:
  assumes ok: "ag_ok ag" and walk: "enumerates walk (dom (activations ag))"
  shows "ag_ok (snd (set_strategy walk s ag))" "activations (snd (set_strategy walk s ag)) = activations ag"
    "strategy (snd (set_strategy walk s ag)) = s" "fst (set_strategy walk s ag) = strategy ag"
proof -
  let ?ag = "ag\<lparr>strategy := s, rule_ordering := None\<rparr>"
  have pre: "acts_ok (activations ?ag) (next_seq ?ag)" "token_index_ok ?ag"
    "enumerates walk (dom (activations ?ag))" "rule_ordering ?ag = None"
    using ag_okD(1,5) [OF ok] walk by (simp_all add: token_index_ok_def)
  note reb = rebuild_ordering_ok [OF pre]
  show "ag_ok (snd (set_strategy walk s ag))" "activations (snd (set_strategy walk s ag)) = activations ag"
    "strategy (snd (set_strategy walk s ag)) = s" "fst (set_strategy walk s ag) = strategy ag"
    using ok reb by (simp_all add: set_strategy_def)
qed

lemma ag_ok_empty:
  "activations ag = Map.empty \<Longrightarrow> ordering ag = [] \<Longrightarrow> id_to_key ag = Map.empty \<Longrightarrow>
    token_to_activations ag = Map.empty \<Longrightarrow> rule_ordering ag = None \<Longrightarrow> ag_ok ag"
  by (simp add: ag_ok_def acts_ok_def entry_set_def token_index_ok_def)

lemma with_strategy_ok: "ag_ok (with_strategy s)"
  by (rule ag_ok_empty) (simp_all add: with_strategy_def)

lemma agenda_clear_ok: "ag_ok (agenda_clear ag)"
  by (rule ag_ok_empty) (simp_all add: agenda_clear_def)

lemma map_filter_live:
  "(\<And>k i. (k, i) \<in> set es \<Longrightarrow> f i \<noteq> None) \<Longrightarrow>
    List.map_filter (\<lambda>(_, i). f i) es = map (\<lambda>i. the (f i)) (map snd es)"
proof (induction es)
  case (Cons e es)
  obtain k i where e: "e = (k, i)" by (cases e)
  from Cons.prems [of k i] e obtain a where "f i = Some a" by auto
  moreover have "\<And>k i. (k, i) \<in> set es \<Longrightarrow> f i \<noteq> None" by (meson Cons.prems list.set_intros(2))
  ultimately show ?case using Cons.IH e by (simp add: List.map_filter_def)
qed (simp add: List.map_filter_def)

lemma iter_ordered_map:
  assumes ok: "ag_ok ag"
  shows "iter_ordered ag = live_map ag (map snd (ordering ag))"
  unfolding iter_ordered_def live_map_def
  using ordering_key_at [OF ok] by (intro map_filter_live) blast

section \<open>The code's own check\<close>

lemma ag_ok_consistent:
  assumes ok: "ag_ok ag"
  shows "agenda_consistent ag"
proof -
  note acts = ag_okD(1) [OF ok] and key = ag_okD(4) [OF ok]
  have get: "bt_get k (ordering ag) = Some i \<longleftrightarrow> (k, i) \<in> entry_set ag" for k i
    by (simp add: bt_get_def map_of_eq_Some_iff_bt [OF ag_okD(2) [OF ok]] ag_okD(3) [OF ok])
  have tok: "vec_pruned (token_to_activations ag)"
    "distinct (bucket (token_to_activations ag) t)"
    "set (bucket (token_to_activations ag) t) = {i. \<exists>a. activations ag i = Some a \<and> act_token a = t}" for t
    using ag_okD(5) [OF ok] by (simp_all add: token_index_ok_def)
  have c1: "\<forall>(key, i) \<in> set (ordering ag). i \<in> dom (activations ag) \<and> id_to_key ag i = Some key"
    by (auto simp: ag_okD(3) [OF ok] entry_iff key)
  have c2: "\<forall>i key. id_to_key ag i = Some key \<longrightarrow>
      i \<in> dom (activations ag) \<and> bt_get key (ordering ag) = Some i"
    by (auto simp: key get entry_iff)
  have c3: "\<forall>t ids. token_to_activations ag t = Some ids \<longrightarrow> ids \<noteq> [] \<and> distinct ids \<and>
      (\<forall>i \<in> set ids. \<exists>a. activations ag i = Some a \<and> act_token a = t)"
  proof (intro allI impI)
    fix t ids assume "token_to_activations ag t = Some ids"
    with tok(1) tok(2,3) [of t] show "ids \<noteq> [] \<and> distinct ids \<and>
      (\<forall>i \<in> set ids. \<exists>a. activations ag i = Some a \<and> act_token a = t)"
      by (auto simp: bucket_def vec_pruned_def)
  qed
  have c4: "\<forall>i a. activations ag i = Some a \<longrightarrow>
      (\<exists>key. id_to_key ag i = Some key \<and> bt_get key (ordering ag) = Some i) \<and>
      (\<exists>ids. token_to_activations ag (act_token a) = Some ids \<and> i \<in> set ids)"
  proof (intro allI impI conjI)
    fix i a assume a: "activations ag i = Some a"
    then show "\<exists>key. id_to_key ag i = Some key \<and> bt_get key (ordering ag) = Some i"
      by (simp add: key get entry_iff)
    have "i \<in> set (bucket (token_to_activations ag) (act_token a))" using a by (simp add: tok(3))
    then show "\<exists>ids. token_to_activations ag (act_token a) = Some ids \<and> i \<in> set ids"
      by (cases "token_to_activations ag (act_token a)") (auto simp: bucket_def)
  qed
  have c5: "inj_on (seq_of ag) (dom (activations ag))"
    using acts_okD(4) [OF acts] by (auto simp: inj_on_def seq_of_def)
  have c6: "\<forall>i a. activations ag i = Some a \<longrightarrow>
      i = act_id a \<and> act_seq a < next_seq ag \<and> id_to_key ag i = Some (build_key (strategy ag) a)"
    using acts_okD(2,3) [OF acts] by (simp add: key)
  have c7: "\<forall>index. rule_ordering ag = Some index \<longrightarrow> index = build_rule_ordering ag"
    using rule_index_unique ag_okD(6) [OF ok] build_rule_ordering_ok [OF ok] by blast
  show ?thesis
    unfolding agenda_consistent_def by (intro conjI c1 c2 c3 c4 c5 c6 c7)
qed

section \<open>Reachable agendas\<close>

inductive agenda_reach :: "agenda \<Rightarrow> bool" where
  reach_new: "agenda_reach (with_strategy s)"
| reach_add: "agenda_reach ag \<Longrightarrow> fresh_key i (activations ag) \<Longrightarrow> agenda_room ag \<Longrightarrow>
    enumerates walk (dom (activations ag)) \<Longrightarrow> agenda_reach (agenda_add walk i a ag)"
| reach_pop: "agenda_reach ag \<Longrightarrow> agenda_reach (snd (agenda_pop ag))"
| reach_pop_matching: "agenda_reach ag \<Longrightarrow> agenda_reach (snd (pop_matching p ag))"
| reach_pop_rule: "agenda_reach ag \<Longrightarrow> enumerates (rules (used_index ag)) (dom (used_index ag)) \<Longrightarrow>
    agenda_reach (snd (pop_matching_rule rules q ag))"
| reach_remove_token: "agenda_reach ag \<Longrightarrow> agenda_reach (snd (remove_activations_for_token t ag))"
| reach_remove_rule: "agenda_reach ag \<Longrightarrow> enumerates walk (dom (activations ag)) \<Longrightarrow>
    agenda_reach (snd (remove_activations_for_rule walk r ag))"
| reach_set_strategy: "agenda_reach ag \<Longrightarrow> enumerates walk (dom (activations ag)) \<Longrightarrow>
    agenda_reach (snd (set_strategy walk s ag))"
| reach_clear: "agenda_reach ag \<Longrightarrow> agenda_reach (agenda_clear ag)"

lemma pop_matching_keeps: "ag_ok ag \<Longrightarrow> ag_ok (snd (pop_matching p ag))"
  by (rule pop_matching_ok [of ag p]) simp_all

lemma agenda_reach_ok: "agenda_reach ag \<Longrightarrow> ag_ok ag"
proof (induction rule: agenda_reach.induct)
  case (reach_pop ag)
  then show ?case by (simp add: agenda_pop_find pop_matching_keeps)
next
  case (reach_remove_token ag t)
  from remove_for_token_ok [OF reach_remove_token.IH, of t] show ?case by force
next
  case (reach_remove_rule ag walk r)
  from remove_for_rule_ok [OF reach_remove_rule.IH reach_remove_rule.hyps(2), of r] show ?case by force
qed (simp_all add: with_strategy_ok agenda_add_ok(1) pop_matching_keeps pop_matching_rule_eq(3)
    set_strategy_ok(1) agenda_clear_ok)

end
