(* ===== verification/Agenda_Order.thy ===== *)
theory Agenda_Order
  imports Agenda_Results "HOL-Library.Multiset"
begin

text \<open>
  The firing order in words: salience first, then the strategy, then complexity, then age; and
  the theorems on the agenda.
\<close>

section \<open>Which activation fires first\<close>

text \<open>
  \<open>ahead s a b\<close>: strategy \<open>s\<close> alone prefers \<open>a\<close>: the newer one (Depth), the older one (Breadth),
  the one with the later sorted recencies (Lex), the one with the later first pattern, then as
  Lex (Mea).
\<close>

definition first_recency :: "activation \<Rightarrow> recency_tag" where
  "first_recency a = (case act_recency a of [] \<Rightarrow> recency_absent | r # _ \<Rightarrow> r)"

definition lex_later :: "activation \<Rightarrow> activation \<Rightarrow> bool" where
  "lex_later a b \<longleftrightarrow> ord_class.lexordp (sort_descending (act_recency b)) (sort_descending (act_recency a))"

fun ahead :: "conflict_resolution_strategy \<Rightarrow> activation \<Rightarrow> activation \<Rightarrow> bool" where
  "ahead Depth a b \<longleftrightarrow> act_seq b < act_seq a"
| "ahead Breadth a b \<longleftrightarrow> act_seq a < act_seq b"
| "ahead Lex a b \<longleftrightarrow> lex_later a b"
| "ahead Mea a b \<longleftrightarrow>
     first_recency b < first_recency a \<or> first_recency b = first_recency a \<and> lex_later a b"

definition fires_first :: "conflict_resolution_strategy \<Rightarrow> activation \<Rightarrow> activation \<Rightarrow> bool" where
  "fires_first s a b \<longleftrightarrow>
     sint (act_salience b) < sint (act_salience a) \<or>
     act_salience a = act_salience b \<and>
       (ahead s a b \<or>
        \<not> ahead s b a \<and>
          (act_complexity b < act_complexity a \<or>
           act_complexity a = act_complexity b \<and> act_seq a < act_seq b))"

lemma cmp_slice_lexordp: "cmp_slice cmp_of xs ys = Less \<longleftrightarrow> ord_class.lexordp xs (ys :: 'a::linorder list)"
proof (induction xs arbitrary: ys)
  case (Cons x xs)
  then show ?case by (cases ys) (auto simp: then_ord_Less_iff cmp_of_def)
qed (auto simp: neq_Nil_conv elim: cmp_slice.elims)

lemma cmp_slice_Greater: "cmp_slice cmp_of xs ys = Greater \<longleftrightarrow> ord_class.lexordp ys (xs :: 'a::linorder list)"
  by (subst ord_cmp.slice_swap) (simp add: cmp_slice_lexordp)

lemma cmp_of_simps: "cmp_of a b = Less \<longleftrightarrow> a < b" "cmp_of a b = Equal \<longleftrightarrow> a = b" "cmp_of a b = Greater \<longleftrightarrow> b < a"
  by (auto simp: cmp_of_def)

lemma strategy_ahead:
  "strategy_cmp (key_strategy (build_key s a)) (key_strategy (build_key s b)) = Less \<longleftrightarrow> ahead s a b"
  by (cases s) (simp_all add: build_key_def strategy_cmp_def cmp_rev_def cmp_of_simps then_ord_Less_iff
      cmp_slice_lexordp lex_later_def first_recency_def)

lemma strategy_behind:
  "strategy_cmp (key_strategy (build_key s a)) (key_strategy (build_key s b)) = Greater \<longleftrightarrow> ahead s b a"
proof -
  have "strategy_cmp (key_strategy (build_key s b)) (key_strategy (build_key s a)) = Less \<longleftrightarrow>
      strategy_cmp (key_strategy (build_key s a)) (key_strategy (build_key s b)) = Greater"
    using comparator.cmp_swap [OF comparator_strategy] reverse_ord_simps(3) by metis
  then show ?thesis by (simp add: strategy_ahead)
qed

lemma key_less_fires_first:
  assumes "build_key s a < build_key s b"
  shows "fires_first s a b"
proof -
  have parts: "key_salience (build_key s c) = act_salience c" "key_complexity (build_key s c) = act_complexity c"
    "key_seq (build_key s c) = act_seq c" for c by (simp_all add: build_key_def)
  have sint: "sint x = sint y \<longleftrightarrow> x = y" for x y :: salience by (metis signed_word_eqI)
  let ?c = "strategy_cmp (key_strategy (build_key s a)) (key_strategy (build_key s b))"
  have "sint (act_salience b) < sint (act_salience a) \<or> act_salience a = act_salience b \<and>
      (?c = Less \<or> ?c = Equal \<and> (act_complexity b < act_complexity a \<or>
        act_complexity a = act_complexity b \<and> act_seq a < act_seq b))"
    using assms unfolding less_agenda_key_def key_cmp_def then_ord_Less_iff cmp_rev_def cmp_on_def
      cmp_of_simps parts sint by metis
  moreover have "?c = Equal \<Longrightarrow> \<not> ahead s b a" using strategy_behind [of s a b] by simp
  ultimately show ?thesis unfolding fires_first_def strategy_ahead by metis
qed

lemma best_fires_first:
  assumes ok: "ag_ok ag" and b: "best ag p i" and a: "activations ag i = Some a"
    and c: "activations ag j = Some c" "p c" "j \<noteq> i"
  shows "fires_first (strategy ag) a c"
proof (rule key_less_fires_first)
  have "key_at ag i \<le> key_at ag j" using b c by (auto simp: best_def matches_at_def)
  moreover have "key_at ag i \<noteq> key_at ag j"
    using key_unique [OF ag_okD(1) [OF ok] a c(1)] a c by (auto simp: key_at_def)
  ultimately show "build_key (strategy ag) a < build_key (strategy ag) c" using a c by (simp add: key_at_def)
qed

text \<open>The order is total on activations with different sequence numbers, and never both ways.\<close>

lemma fires_first_asym: "fires_first s a b \<Longrightarrow> \<not> fires_first s b a"
proof -
  assume "fires_first s a b"
  moreover have "\<not> (ahead s a b \<and> ahead s b a)" using strategy_ahead [of s a b] strategy_behind [of s a b] by auto
  ultimately show ?thesis by (auto simp: fires_first_def)
qed

section \<open>Iteration\<close>

lemma iter_ordered_props:
  assumes ok: "ag_ok ag"
  shows "sorted_wrt (\<lambda>a b. build_key (strategy ag) a < build_key (strategy ag) b) (iter_ordered ag)"
    "set (iter_ordered ag) = ran (activations ag)" "map act_id (iter_ordered ag) = map snd (ordering ag)"
proof -
  note ids = ordering_ids [OF ok]
  have iter: "iter_ordered ag = map (\<lambda>i. the (activations ag i)) (map snd (ordering ag))"
    using iter_ordered_map [OF ok] by (simp add: live_map_def)
  have "sorted_wrt (\<lambda>i j. build_key (strategy ag) (the (activations ag i)) <
      build_key (strategy ag) (the (activations ag j))) (map snd (ordering ag))"
    using ids(2) by (simp add: key_at_def)
  then show "sorted_wrt (\<lambda>a b. build_key (strategy ag) a < build_key (strategy ag) b) (iter_ordered ag)"
    unfolding iter sorted_wrt_map .
  have "set (iter_ordered ag) = (\<lambda>i. the (activations ag i)) ` dom (activations ag)"
    unfolding iter set_map [of "\<lambda>i. the (activations ag i)"] ids(1) ..
  also have "\<dots> = ran (activations ag)"
  proof (intro equalityI subsetI)
    fix a assume "a \<in> (\<lambda>i. the (activations ag i)) ` dom (activations ag)"
    then obtain i where "i \<in> dom (activations ag)" "a = the (activations ag i)" by (rule imageE)
    then show "a \<in> ran (activations ag)" by (auto intro: ranI)
  next
    fix a assume "a \<in> ran (activations ag)"
    then obtain i where "activations ag i = Some a" by (auto simp: ran_def)
    then show "a \<in> (\<lambda>i. the (activations ag i)) ` dom (activations ag)"
      by (intro image_eqI [of _ _ i]) auto
  qed
  finally show "set (iter_ordered ag) = ran (activations ag)" .
  have "act_id (the (activations ag i)) = i" if "i \<in> set (map snd (ordering ag))" for i
  proof -
    from that obtain a where "activations ag i = Some a" unfolding ids(1) by auto
    with acts_okD(2) [OF ag_okD(1) [OF ok] this] show ?thesis by simp
  qed
  then show "map act_id (iter_ordered ag) = map snd (ordering ag)"
    unfolding iter by (simp only: map_map [of act_id "\<lambda>i. the (activations ag i)"] comp_def map_idI)
qed

text \<open>What is on the agenda and the strategy decide the iteration.\<close>

lemma iter_ordered_filter:
  assumes ok: "ag_ok ag" and ok': "ag_ok ag'" and s: "strategy ag' = strategy ag"
    and ran: "ran (activations ag') = {a \<in> ran (activations ag). P a}"
  shows "iter_ordered ag' = filter P (iter_ordered ag)"
proof (rule sorted_by_unique)
  show "sorted_wrt (\<lambda>a b. build_key (strategy ag) a < build_key (strategy ag) b) (iter_ordered ag')"
    using iter_ordered_props(1) [OF ok'] by (simp add: s)
  show "sorted_wrt (\<lambda>a b. build_key (strategy ag) a < build_key (strategy ag) b) (filter P (iter_ordered ag))"
    using iter_ordered_props(1) [OF ok] by (rule sorted_wrt_filter)
  show "set (iter_ordered ag') = set (filter P (iter_ordered ag))"
    by (simp add: iter_ordered_props(2) [OF ok] iter_ordered_props(2) [OF ok'] ran)
qed

lemma removed_iter:
  assumes ok: "ag_ok ag" and ok': "ag_ok ag'" and s: "strategy ag' = strategy ag"
    and ids: "set ids = {i. \<exists>a. activations ag i = Some a \<and> Q a}" "distinct ids"
    and acts: "activations ag' = activations ag |` (- set ids)"
  shows "iter_ordered ag' = filter (\<lambda>a. \<not> Q a) (iter_ordered ag)"
    "mset (live_map ag ids) = mset (filter Q (iter_ordered ag))"
proof -
  show "iter_ordered ag' = filter (\<lambda>a. \<not> Q a) (iter_ordered ag)"
    by (rule iter_ordered_filter [OF ok ok' s]) (auto simp: acts ran_def restrict_map_def ids(1))
  have "inj_on (\<lambda>i. the (activations ag i)) (set ids)"
  proof (rule inj_onI)
    fix i j assume "i \<in> set ids" "j \<in> set ids" "the (activations ag i) = the (activations ag j)"
    then show "i = j" using acts_okD(2) [OF ag_okD(1) [OF ok]] by (auto simp: ids(1)) metis
  qed
  then have "distinct (live_map ag ids)" using ids(2) by (simp add: live_map_def distinct_map)
  moreover have "distinct (map (build_key (strategy ag)) (iter_ordered ag))"
    using iter_ordered_props(1) [OF ok] by (simp add: sorted_wrt_map [symmetric] strict_sorted_iff)
  then have "distinct (filter Q (iter_ordered ag))" by (simp add: distinct_map)
  moreover have "set (live_map ag ids) = set (filter Q (iter_ordered ag))"
    by (force simp: live_map_def ids(1) iter_ordered_props(2) [OF ok] ran_def)
  ultimately show "mset (live_map ag ids) = mset (filter Q (iter_ordered ag))"
    using set_eq_iff_mset_eq_distinct by blast
qed

section \<open>Theorems\<close>

definition sample_activation :: "nat \<Rightarrow> rule_id \<Rightarrow> token_id \<Rightarrow> salience \<Rightarrow> recency_tag list \<Rightarrow> activation" where
  "sample_activation n r t s rec = \<lparr>act_id = ActivationId n, act_rule = r, act_token = t, act_salience = s,
     act_complexity = 1, act_timestamp = 0, act_seq = 0, act_recency = rec\<rparr>"

text \<open>Three activations of two rules under \<open>Depth\<close>; the second has the higher salience.\<close>

definition sample_agenda1 :: agenda where
  "sample_agenda1 = agenda_add [] (ActivationId 0) (sample_activation 0 7 (TokenId 0) 0 [1]) (with_strategy Depth)"

definition sample_agenda2 :: agenda where
  "sample_agenda2 = agenda_add [ActivationId 0] (ActivationId 1) (sample_activation 1 8 (TokenId 1) 5 [2]) sample_agenda1"

definition sample_agenda3 :: agenda where
  "sample_agenda3 = agenda_add [ActivationId 1, ActivationId 0] (ActivationId 2)
     (sample_activation 2 7 (TokenId 1) 0 [3]) sample_agenda2"

lemmas sample_defs = sample_agenda1_def sample_agenda2_def sample_agenda3_def sample_activation_def
  agenda_add_def with_strategy_def u64_max_code Let_def build_key_def vec_index_push_def

lemma sample_agenda1_eq: "activations sample_agenda1 = [ActivationId 0 \<mapsto> sample_activation 0 7 (TokenId 0) 0 [1]]"
  by (simp add: sample_defs)

lemma sample_agenda2_eq: "activations sample_agenda2 = (activations sample_agenda1)
    (ActivationId 1 \<mapsto> (sample_activation 1 8 (TokenId 1) 5 [2])\<lparr>act_seq := 1\<rparr>)"
  by (simp add: sample_defs)

lemma sample_agenda3_eq: "activations sample_agenda3 = (activations sample_agenda2)
    (ActivationId 2 \<mapsto> (sample_activation 2 7 (TokenId 1) 0 [3])\<lparr>act_seq := 2\<rparr>)"
  by (simp add: sample_defs)

lemma sample_reach: "agenda_reach sample_agenda1" "agenda_reach sample_agenda2" "agenda_reach sample_agenda3"
proof -
  show r1: "agenda_reach sample_agenda1"
    unfolding sample_agenda1_def
    by (rule reach_add [OF reach_new]) (simp_all add: with_strategy_def fresh_key_def agenda_room_def)
  show r2: "agenda_reach sample_agenda2"
    unfolding sample_agenda2_def
    by (rule reach_add [OF r1]) (simp_all add: sample_agenda1_eq fresh_key_def agenda_room_def enumerates_def)
  show "agenda_reach sample_agenda3"
    unfolding sample_agenda3_def
    by (rule reach_add [OF r2])
      (auto simp: sample_agenda1_eq sample_agenda2_eq fresh_key_def agenda_room_def enumerates_def)
qed

lemma sample_iter: "map act_id (iter_ordered sample_agenda3) = [ActivationId 1, ActivationId 2, ActivationId 0]"
  by code_simp

text \<open>
  C14: In every agenda reachable by additions, pops, bulk removals, strategy changes and clears,
  the code's own consistency check holds, and iterating lists every live activation once, each
  before all those it fires before.
\<close>

theorem agenda_consistent_reachable:
  assumes "agenda_reach ag"
  shows "agenda_consistent ag \<and> set (iter_ordered ag) = ran (activations ag) \<and>
    sorted_wrt (fires_first (strategy ag)) (iter_ordered ag)"
proof -
  note ok = agenda_reach_ok [OF assms]
  have "sorted_wrt (fires_first (strategy ag)) (iter_ordered ag)"
    by (rule sorted_wrt_mono_rel [OF _ iter_ordered_props(1) [OF ok]]) (rule key_less_fires_first)
  then show ?thesis using ag_ok_consistent [OF ok] iter_ordered_props(2) [OF ok] by simp
qed

theorem agenda_consistent_reachable_witness:
  "agenda_consistent sample_agenda3 \<and> length (iter_ordered sample_agenda3) = 3"
proof -
  have "length (iter_ordered sample_agenda3) = 3" using arg_cong [OF sample_iter, of length] by simp
  with agenda_consistent_reachable [OF sample_reach(3)] show ?thesis by simp
qed

text \<open>
  C15: Popping with a filter answers nothing, changing nothing, exactly when no live activation
  passes it; otherwise it returns a live activation that passes and fires before every other one
  that passes, and removes that one only. The plain pop is the pop without a filter.
\<close>

theorem pop_fires_first:
  assumes "agenda_reach ag"
  shows "agenda_pop ag = pop_matching (\<lambda>_. True) ag \<and>
    (case pop_matching p ag of
       (None, ag') \<Rightarrow> ag' = ag \<and> (\<forall>a \<in> ran (activations ag). \<not> p a)
     | (Some a, ag') \<Rightarrow> p a \<and> activations ag (act_id a) = Some a \<and>
         activations ag' = (activations ag)(act_id a := None) \<and> strategy ag' = strategy ag \<and>
         (\<forall>i b. activations ag i = Some b \<and> p b \<and> i \<noteq> act_id a \<longrightarrow> fires_first (strategy ag) a b))"
proof -
  note ok = agenda_reach_ok [OF assms]
  show ?thesis
  proof (cases rule: pop_matching_ok [OF ok, of p, case_names none some])
    case none
    then show ?thesis by (auto simp: agenda_pop_find [OF ok] matches_at_def ran_def split: option.splits)
  next
    case (some i a ag')
    then have "act_id a = i" using acts_okD(2) [OF ag_okD(1) [OF ok]] by blast
    with some best_fires_first [OF ok some(2,3)] show ?thesis by (auto simp: agenda_pop_find [OF ok])
  qed
qed

theorem pop_fires_first_witness:
  "map_option act_id (fst (pop_matching (\<lambda>a. act_rule a = 7) sample_agenda3)) = Some (ActivationId 2) \<and>
   fires_first Depth ((sample_activation 2 7 (TokenId 1) 0 [3])\<lparr>act_seq := 2\<rparr>) (sample_activation 0 7 (TokenId 0) 0 [1])"
proof -
  have fst: "fst (pop_matching (\<lambda>a. act_rule a = 7) sample_agenda3) =
      Some ((sample_activation 2 7 (TokenId 1) 0 [3])\<lparr>act_seq := 2\<rparr>)" by code_simp
  have s: "strategy sample_agenda3 = Depth" by code_simp
  obtain ag' where pop: "pop_matching (\<lambda>a. act_rule a = 7) sample_agenda3 =
      (Some ((sample_activation 2 7 (TokenId 1) 0 [3])\<lparr>act_seq := 2\<rparr>), ag')"
    using fst by (metis prod.collapse)
  note best = pop_fires_first [OF sample_reach(3), of "\<lambda>a. act_rule a = 7", unfolded pop s prod.case option.case]
  have "\<forall>i b. activations sample_agenda3 i = Some b \<and> act_rule b = 7 \<and>
      i \<noteq> act_id ((sample_activation 2 7 (TokenId 1) 0 [3])\<lparr>act_seq := 2\<rparr>) \<longrightarrow>
      fires_first Depth ((sample_activation 2 7 (TokenId 1) 0 [3])\<lparr>act_seq := 2\<rparr>) b"
    using best by blast
  from this [rule_format, of "ActivationId 0" "sample_activation 0 7 (TokenId 0) 0 [1]"] fst
  show ?thesis by (simp add: sample_agenda3_eq sample_agenda2_eq sample_agenda1_eq sample_activation_def)
qed

text \<open>
  C16: The pop that selects by rule through the per-rule index, built when missing and walked in
  any order, returns the activation the scan of the whole ordering returns and leaves the same
  agenda, but for the per-rule index itself.
\<close>

theorem pop_matching_rule_equivalent:
  assumes "agenda_reach ag" and "enumerates (rules (used_index ag)) (dom (used_index ag))"
  shows "fst (pop_matching_rule rules p ag) = fst (pop_matching (\<lambda>a. p (act_rule a)) ag) \<and>
    (snd (pop_matching_rule rules p ag))\<lparr>rule_ordering := None\<rparr> =
      (snd (pop_matching (\<lambda>a. p (act_rule a)) ag))\<lparr>rule_ordering := None\<rparr>"
  using pop_matching_rule_eq(1,2) [where rules = rules and p = p, OF agenda_reach_ok [OF assms(1)] assms(2)]
  by (rule conjI)

theorem pop_matching_rule_equivalent_witness:
  "map_option act_id (fst (pop_matching_rule (\<lambda>_. [8, 7]) (\<lambda>r. r = 7) sample_agenda3)) = Some (ActivationId 2)"
proof -
  have "dom (used_index sample_agenda3) = {8, 7}"
    by (auto simp: used_index_def build_rule_ordering_def add_rule_key_def sample_defs)
  then have "enumerates [8, 7] (dom (used_index sample_agenda3))" by (simp add: enumerates_def)
  then have "fst (pop_matching_rule (\<lambda>_. [8, 7]) (\<lambda>r. r = 7) sample_agenda3) =
      fst (pop_matching (\<lambda>a. act_rule a = 7) sample_agenda3)"
    using pop_matching_rule_equivalent [OF sample_reach(3), of "\<lambda>_. [8, 7]" "\<lambda>r. r = 7"] by simp
  moreover have "map_option act_id (fst (pop_matching (\<lambda>a. act_rule a = 7) sample_agenda3)) = Some (ActivationId 2)"
    by code_simp
  ultimately show ?thesis by simp
qed

text \<open>
  C17: Adding an activation, also when the sequence numbers have run out and all are renumbered,
  keeps the order of the activations already there and everything about them but their sequence
  numbers; the added one is stored under its id with the latest sequence number.
\<close>

theorem agenda_add_keeps_order:
  assumes "agenda_reach ag" and "fresh_key i (activations ag)" and "agenda_room ag"
    and "enumerates walk (dom (activations ag))"
  shows "filter (\<lambda>j. j \<noteq> i) (map act_id (iter_ordered (agenda_add walk i a ag))) = map act_id (iter_ordered ag) \<and>
    (\<forall>j. j \<noteq> i \<longrightarrow> map_option (\<lambda>b. b\<lparr>act_seq := 0\<rparr>) (activations (agenda_add walk i a ag) j) =
       map_option (\<lambda>b. b\<lparr>act_seq := 0\<rparr>) (activations ag j)) \<and>
    (\<exists>n. activations (agenda_add walk i a ag) i = Some (a\<lparr>act_id := i, act_seq := n\<rparr>) \<and>
       (\<forall>j b. j \<noteq> i \<longrightarrow> activations (agenda_add walk i a ag) j = Some b \<longrightarrow> act_seq b < n))"
proof -
  note ok = agenda_reach_ok [OF assms(1)]
  note add = agenda_add_ok [OF ok assms(2-4)]
  show ?thesis
    using add(2,5,6) by (simp add: iter_ordered_props(3) [OF ok] iter_ordered_props(3) [OF add(1)])
qed

theorem agenda_add_keeps_order_witness:
  "filter (\<lambda>j. j \<noteq> ActivationId 2) (map act_id (iter_ordered sample_agenda3)) =
     map act_id (iter_ordered sample_agenda2) \<and> length (iter_ordered sample_agenda2) = 2"
proof -
  have pre: "fresh_key (ActivationId 2) (activations sample_agenda2)" "agenda_room sample_agenda2"
    "enumerates [ActivationId 1, ActivationId 0] (dom (activations sample_agenda2))"
    by (auto simp: sample_agenda1_eq sample_agenda2_eq fresh_key_def agenda_room_def enumerates_def)
  have "length (iter_ordered sample_agenda2) = 2" by code_simp
  with agenda_add_keeps_order [OF sample_reach(2) pre, of "sample_activation 2 7 (TokenId 1) 0 [3]"]
  show ?thesis by (simp add: sample_agenda3_def)
qed

text \<open>
  Changing the strategy answers the previous one, keeps every activation and re-sorts them
  under the new one; changing it back gives the previous order again.
\<close>

theorem set_strategy_resorts:
  assumes "agenda_reach ag" and "enumerates walk (dom (activations ag))"
  shows "case set_strategy walk s ag of
    (old, ag') \<Rightarrow> old = strategy ag \<and> strategy ag' = s \<and> activations ag' = activations ag \<and>
      sorted_wrt (fires_first s) (iter_ordered ag') \<and>
      iter_ordered (snd (set_strategy walk old ag')) = iter_ordered ag"
proof -
  note ok = agenda_reach_ok [OF assms(1)]
  let ?ag = "snd (set_strategy walk s ag)"
  let ?again = "snd (set_strategy walk (strategy ag) ?ag)"
  note st = set_strategy_ok [OF ok assms(2), of s]
  have "enumerates walk (dom (activations ?ag))" using assms(2) by (simp add: st)
  note again = set_strategy_ok [OF st(1) this, of "strategy ag"]
  have "sorted_wrt (fires_first s) (iter_ordered ?ag)"
    using sorted_wrt_mono_rel [OF _ iter_ordered_props(1) [OF st(1)]] key_less_fires_first st(3) by metis
  moreover have "iter_ordered ?again = filter (\<lambda>_. True) (iter_ordered ag)"
    by (rule iter_ordered_filter [OF ok again(1)]) (simp_all add: again st)
  ultimately show ?thesis using st by (simp add: split_beta)
qed

theorem set_strategy_resorts_witness:
  "map act_id (iter_ordered (snd (set_strategy [ActivationId 2, ActivationId 1, ActivationId 0] Breadth sample_agenda3))) =
     [ActivationId 1, ActivationId 0, ActivationId 2] \<and>
   sorted_wrt (fires_first Breadth)
     (iter_ordered (snd (set_strategy [ActivationId 2, ActivationId 1, ActivationId 0] Breadth sample_agenda3)))"
proof -
  have "enumerates [ActivationId 2, ActivationId 1, ActivationId 0] (dom (activations sample_agenda3))"
    by (auto simp: sample_agenda1_eq sample_agenda2_eq sample_agenda3_eq enumerates_def)
  from set_strategy_resorts [OF sample_reach(3) this, of Breadth]
  have "sorted_wrt (fires_first Breadth)
     (iter_ordered (snd (set_strategy [ActivationId 2, ActivationId 1, ActivationId 0] Breadth sample_agenda3)))"
    by (simp add: split_beta)
  moreover have "map act_id (iter_ordered (snd (set_strategy [ActivationId 2, ActivationId 1, ActivationId 0]
      Breadth sample_agenda3))) = [ActivationId 1, ActivationId 0, ActivationId 2]" by code_simp
  ultimately show ?thesis by simp
qed

text \<open>
  C18: Retracting a token, or unloading a rule, takes exactly the activations of that token or
  rule off the agenda and hands them back, and leaves all others in the order they had.
\<close>

theorem bulk_removal_exact:
  assumes "agenda_reach ag" and "enumerates walk (dom (activations ag))"
  shows "(case remove_activations_for_token t ag of (removed, ag') \<Rightarrow>
      mset removed = mset (filter (\<lambda>a. act_token a = t) (iter_ordered ag)) \<and>
      iter_ordered ag' = filter (\<lambda>a. act_token a \<noteq> t) (iter_ordered ag)) \<and>
    (case remove_activations_for_rule walk r ag of (removed, ag') \<Rightarrow>
      mset removed = mset (filter (\<lambda>a. act_rule a = r) (iter_ordered ag)) \<and>
      iter_ordered ag' = filter (\<lambda>a. act_rule a \<noteq> r) (iter_ordered ag))"
proof -
  note ok = agenda_reach_ok [OF assms(1)]
  obtain ag1 is1 where t:
    "remove_activations_for_token t ag = (live_map ag is1, ag1)" "ag_ok ag1" "distinct is1"
    "set is1 = {i. \<exists>a. activations ag i = Some a \<and> act_token a = t}"
    "activations ag1 = activations ag |` (- set is1)" "strategy ag1 = strategy ag"
    by (rule remove_for_token_ok [OF ok])
  obtain ag2 is2 where r:
    "remove_activations_for_rule walk r ag = (live_map ag is2, ag2)" "ag_ok ag2" "distinct is2"
    "set is2 = {i. \<exists>a. activations ag i = Some a \<and> act_rule a = r}"
    "activations ag2 = activations ag |` (- set is2)" "strategy ag2 = strategy ag"
    by (rule remove_for_rule_ok [OF ok assms(2)])
  from removed_iter [OF ok t(2,6,4,3,5)] removed_iter [OF ok r(2,6,4,3,5)] show ?thesis
    by (simp add: t(1) r(1))
qed

theorem bulk_removal_exact_witness:
  "map act_id (iter_ordered (snd (remove_activations_for_token (TokenId 1) sample_agenda3))) = [ActivationId 0] \<and>
   length (fst (remove_activations_for_token (TokenId 1) sample_agenda3)) = 2"
proof -
  have e: "enumerates [ActivationId 2, ActivationId 1, ActivationId 0] (dom (activations sample_agenda3))"
    by (auto simp: sample_agenda1_eq sample_agenda2_eq sample_agenda3_eq enumerates_def)
  have f: "filter (\<lambda>a. act_token a = TokenId 1) (iter_ordered sample_agenda3) =
      map (the \<circ> activations sample_agenda3) [ActivationId 1, ActivationId 2]"
    "map act_id (filter (\<lambda>a. act_token a \<noteq> TokenId 1) (iter_ordered sample_agenda3)) = [ActivationId 0]"
    by code_simp+
  from bulk_removal_exact [OF sample_reach(3) e, where t = "TokenId 1" and r = 0]
  have "mset (fst (remove_activations_for_token (TokenId 1) sample_agenda3)) =
      mset (filter (\<lambda>a. act_token a = TokenId 1) (iter_ordered sample_agenda3))"
    "iter_ordered (snd (remove_activations_for_token (TokenId 1) sample_agenda3)) =
      filter (\<lambda>a. act_token a \<noteq> TokenId 1) (iter_ordered sample_agenda3)"
    by (simp_all add: split_beta)
  moreover from this(1) have "length (fst (remove_activations_for_token (TokenId 1) sample_agenda3)) =
      length (filter (\<lambda>a. act_token a = TokenId 1) (iter_ordered sample_agenda3))"
    by (rule mset_eq_length)
  ultimately show ?thesis using f by (simp only: f length_map list.size) simp
qed

end
