(* ===== verification/Mirrored_Index.thy ===== *)
theory Mirrored_Index
  imports Tokens Ordered_Set
begin

text \<open>
  Two-way indexes: each entry of a forward index stands, turned around, in a reverse index from
  keys to sets. The blocker, support and alpha indexes are of this kind. An \<open>OrderedSet\<close> inside
  another container is the list of its keys in insertion order, which is what the linked
  implementation was shown to be. The walking order of a hash set is an argument.
\<close>

definition mirrored :: "('a \<Rightarrow> 'b set) \<Rightarrow> ('b \<rightharpoonup> 'a set) \<Rightarrow> bool" where
  "mirrored fwd rev_index \<longleftrightarrow> pruned rev_index \<and> (\<forall>a b. a \<in> members rev_index b \<longleftrightarrow> b \<in> fwd a)"

lemma mirrored_empty [simp]: "mirrored (\<lambda>_. {}) Map.empty"
  by (simp add: mirrored_def)

lemma members_empty_fun [simp]: "members Map.empty = (\<lambda>_. {})"
  by (simp add: fun_eq_iff)

lemma mirroredD: "mirrored fwd r \<Longrightarrow> pruned r" "mirrored fwd r \<Longrightarrow> a \<in> members r b \<longleftrightarrow> b \<in> fwd a"
  by (simp_all add: mirrored_def)

lemma mirrored_add:
  "mirrored fwd r \<Longrightarrow> fwd' = fwd(a := insert b (fwd a)) \<Longrightarrow> mirrored fwd' (set_index_add b a r)"
  by (auto simp: mirrored_def index_simps)

lemma mirrored_del:
  "mirrored fwd r \<Longrightarrow> fwd' = fwd(a := fwd a - {b}) \<Longrightarrow> mirrored fwd' (set_index_del b a r)"
  by (auto simp: mirrored_def index_simps)

text \<open>Dropping one forward key: its entries are deleted one by one, in any order.\<close>

definition unlink_all :: "'b list \<Rightarrow> 'a \<Rightarrow> ('b \<rightharpoonup> 'a set) \<Rightarrow> ('b \<rightharpoonup> 'a set)" where
  "unlink_all bs a r = fold (\<lambda>b r. set_index_del b a r) bs r"

lemma mirrored_unlink:
  "mirrored fwd r \<Longrightarrow> mirrored (fwd(a := fwd a - set bs)) (unlink_all bs a r)"
proof (induction bs arbitrary: fwd r)
  case (Cons b bs)
  have "fwd a - set (b # bs) = fwd a - {b} - set bs" by auto
  with Cons.IH [OF mirrored_del [OF Cons.prems refl, of a b]] show ?case
    by (simp add: unlink_all_def cong: if_cong)
qed (simp add: unlink_all_def)

lemma mirrored_unlink_key:
  assumes "mirrored fwd r" "set bs = fwd a" "fwd' = fwd(a := {})"
  shows "mirrored fwd' (unlink_all bs a r)"
  using mirrored_unlink [OF assms(1), of a bs] assms(2,3) by simp

text \<open>What the consistency checks of the code say of such a pair of indexes.\<close>

lemma mirrored_check:
  assumes m: "mirrored fwd r"
  shows "r b = Some S \<Longrightarrow> S \<noteq> {}" "r b = Some S \<Longrightarrow> a \<in> S \<Longrightarrow> b \<in> fwd a"
    "b \<in> fwd a \<Longrightarrow> \<exists>S. r b = Some S \<and> a \<in> S"
proof -
  show "r b = Some S \<Longrightarrow> S \<noteq> {}" using mirroredD(1) [OF m] by (auto simp: pruned_def)
  show "r b = Some S \<Longrightarrow> a \<in> S \<Longrightarrow> b \<in> fwd a"
    using mirroredD(2) [OF m, of a b] by (simp add: members_Some)
  show "b \<in> fwd a \<Longrightarrow> \<exists>S. r b = Some S \<and> a \<in> S"
    using mirroredD(2) [OF m, of a b] by (cases "r b") (auto simp: members_def)
qed

end
