(* ===== verification/Exists_Memory.thy ===== *)
theory Exists_Memory
  imports Mirrored_Index
begin

text \<open>
  \<open>exists.rs\<close>: the facts that support each parent token of an exists node, and the pass-through
  tokens of the supported parents.
\<close>

section \<open>State and operations\<close>

record exists_memory =
  em_id :: u32
  support :: "token_id \<rightharpoonup> fact_id set"
  satisfied :: "token_id \<rightharpoonup> token_id"
  fact_to_parents :: "fact_id \<rightharpoonup> token_id set"

definition exists_memory_new :: "u32 \<Rightarrow> exists_memory" where
  "exists_memory_new i =
     \<lparr>em_id = i, support = Map.empty, satisfied = Map.empty, fact_to_parents = Map.empty\<rparr>"

definition support_count :: "exists_memory \<Rightarrow> token_id \<Rightarrow> nat" where
  "support_count em p = (case support em p of None \<Rightarrow> 0 | Some S \<Rightarrow> card S)"

definition add_support :: "token_id \<Rightarrow> fact_id \<Rightarrow> exists_memory \<Rightarrow> nat \<times> exists_memory" where
  "add_support p f em =
     (let em = em\<lparr>support := set_index_add p f (support em)\<rparr>;
          em = em\<lparr>fact_to_parents := set_index_add f p (fact_to_parents em)\<rparr>
      in (case support em p of None \<Rightarrow> 0 | Some S \<Rightarrow> card S, em))"

definition remove_support :: "token_id \<Rightarrow> fact_id \<Rightarrow> exists_memory \<Rightarrow> (nat \<times> bool) \<times> exists_memory" where
  "remove_support p f em =
     (let was_removed = (case support em p of None \<Rightarrow> False | Some S \<Rightarrow> f \<in> S);
          em = em\<lparr>support := set_index_del p f (support em)\<rparr>;
          em = em\<lparr>fact_to_parents := set_index_del f p (fact_to_parents em)\<rparr>
      in ((support_count em p, was_removed), em))"

definition parents_supported_by :: "exists_memory \<Rightarrow> fact_id \<Rightarrow> token_id set" where
  "parents_supported_by em f = (case fact_to_parents em f of None \<Rightarrow> {} | Some S \<Rightarrow> S)"

definition set_satisfied :: "token_id \<Rightarrow> token_id \<Rightarrow> exists_memory \<Rightarrow> exists_memory" where
  "set_satisfied p pt em = em\<lparr>satisfied := (satisfied em)(p \<mapsto> pt)\<rparr>"

definition exists_passthrough :: "exists_memory \<Rightarrow> token_id \<Rightarrow> token_id option" where
  "exists_passthrough em p = satisfied em p"

definition remove_satisfied :: "token_id \<Rightarrow> exists_memory \<Rightarrow> token_id option \<times> exists_memory" where
  "remove_satisfied p em = (satisfied em p, em\<lparr>satisfied := (satisfied em)(p := None)\<rparr>)"

definition is_satisfied :: "exists_memory \<Rightarrow> token_id \<Rightarrow> bool" where
  "is_satisfied em p \<longleftrightarrow> p \<in> dom (satisfied em)"

definition exists_remove_parent ::
  "(fact_id set \<Rightarrow> fact_id list) \<Rightarrow> token_id \<Rightarrow> exists_memory \<Rightarrow> exists_memory" where
  "exists_remove_parent walk p em =
     (let em = em\<lparr>satisfied := (satisfied em)(p := None)\<rparr>
      in case support em p of
           None \<Rightarrow> em
         | Some fs \<Rightarrow> em\<lparr>support := (support em)(p := None),
             fact_to_parents := fold (\<lambda>f parents. set_index_del f p parents) (walk fs) (fact_to_parents em)\<rparr>)"

definition exists_clear :: "exists_memory \<Rightarrow> exists_memory" where
  "exists_clear em = em\<lparr>support := Map.empty, satisfied := Map.empty, fact_to_parents := Map.empty\<rparr>"

definition exists_is_empty :: "exists_memory \<Rightarrow> bool" where
  "exists_is_empty em \<longleftrightarrow>
     support em = Map.empty \<and> satisfied em = Map.empty \<and> fact_to_parents em = Map.empty"

definition exists_consistent :: "exists_memory \<Rightarrow> bool" where
  "exists_consistent em \<longleftrightarrow>
     (\<forall>p S. support em p = Some S \<longrightarrow> S \<noteq> {} \<and>
        (\<forall>f \<in> S. \<exists>ps. fact_to_parents em f = Some ps \<and> p \<in> ps)) \<and>
     (\<forall>f ps. fact_to_parents em f = Some ps \<longrightarrow> ps \<noteq> {} \<and>
        (\<forall>p \<in> ps. \<exists>S. support em p = Some S \<and> f \<in> S)) \<and>
     (\<forall>p \<in> dom (satisfied em). 0 < support_count em p)"

section \<open>Invariant\<close>

text \<open>\<open>supports em f p\<close>: fact \<open>f\<close> is recorded as support of parent \<open>p\<close>.\<close>

definition supports :: "exists_memory \<Rightarrow> fact_id \<Rightarrow> token_id \<Rightarrow> bool" where
  "supports em f p \<longleftrightarrow> f \<in> members (support em) p"

definition exists_index_ok :: "exists_memory \<Rightarrow> bool" where
  "exists_index_ok em \<longleftrightarrow> pruned (support em) \<and> (\<forall>p. finite (members (support em) p)) \<and>
     mirrored (members (support em)) (fact_to_parents em)"

lemma support_count_eq: "support_count em p = card (members (support em) p)"
  by (simp add: support_count_def members_def split: option.split)

lemma support_count_pos:
  "exists_index_ok em \<Longrightarrow> 0 < support_count em p \<longleftrightarrow> (\<exists>f. supports em f p)"
  by (auto simp: support_count_eq supports_def exists_index_ok_def card_gt_0_iff)

lemma exists_index_new [simp]: "exists_index_ok (exists_memory_new i)" "exists_index_ok (exists_clear em)"
  by (simp_all add: exists_index_ok_def exists_memory_new_def exists_clear_def)

lemma exists_index_satisfied [simp]:
  "exists_index_ok (em\<lparr>satisfied := x\<rparr>) = exists_index_ok em" "supports (em\<lparr>satisfied := x\<rparr>) = supports em"
  by (simp_all add: exists_index_ok_def supports_def fun_eq_iff)

lemma members_add_fun: "members (set_index_add k v m) = (members m)(k := insert v (members m k))"
  by (auto simp: index_simps fun_eq_iff)

lemma members_del_fun: "members (set_index_del k v m) = (members m)(k := members m k - {v})"
  by (auto simp: index_simps fun_eq_iff)

lemma add_support_ok:
  assumes ok: "exists_index_ok em"
  shows "exists_index_ok (snd (add_support p f em))"
    "supports (snd (add_support p f em)) g q \<longleftrightarrow> g = f \<and> q = p \<or> supports em g q"
    "fst (add_support p f em) = support_count (snd (add_support p f em)) p"
    "satisfied (snd (add_support p f em)) = satisfied em"
    "em_id (snd (add_support p f em)) = em_id em"
proof -
  let ?em = "snd (add_support p f em)"
  have st: "support ?em = set_index_add p f (support em)"
    "fact_to_parents ?em = set_index_add f p (fact_to_parents em)"
    "satisfied ?em = satisfied em" "em_id ?em = em_id em"
    by (simp_all add: add_support_def Let_def)
  show "satisfied ?em = satisfied em" "em_id ?em = em_id em" by (fact st)+
  show "exists_index_ok ?em"
    using ok mirrored_add [of "members (support em)" "fact_to_parents em" _ p f]
    by (simp add: exists_index_ok_def st members_add_fun index_simps)
  show "supports ?em g q \<longleftrightarrow> g = f \<and> q = p \<or> supports em g q"
    by (auto simp: supports_def st index_simps)
  show "fst (add_support p f em) = support_count ?em p"
    by (simp add: add_support_def Let_def support_count_def)
qed

lemma remove_support_ok:
  assumes ok: "exists_index_ok em"
  shows "exists_index_ok (snd (remove_support p f em))"
    "supports (snd (remove_support p f em)) g q \<longleftrightarrow> supports em g q \<and> \<not> (g = f \<and> q = p)"
    "fst (remove_support p f em) = (support_count (snd (remove_support p f em)) p, supports em f p)"
    "satisfied (snd (remove_support p f em)) = satisfied em"
    "em_id (snd (remove_support p f em)) = em_id em"
proof -
  let ?em = "snd (remove_support p f em)"
  have st: "support ?em = set_index_del p f (support em)"
    "fact_to_parents ?em = set_index_del f p (fact_to_parents em)"
    "satisfied ?em = satisfied em" "em_id ?em = em_id em"
    by (simp_all add: remove_support_def Let_def)
  show "satisfied ?em = satisfied em" "em_id ?em = em_id em" by (fact st)+
  show "exists_index_ok ?em"
    using ok mirrored_del [of "members (support em)" "fact_to_parents em" _ p f]
    by (simp add: exists_index_ok_def st members_del_fun index_simps)
  show "supports ?em g q \<longleftrightarrow> supports em g q \<and> \<not> (g = f \<and> q = p)"
    by (auto simp: supports_def st index_simps)
  show "fst (remove_support p f em) = (support_count ?em p, supports em f p)"
    by (simp add: remove_support_def Let_def supports_def members_def split: option.split)
qed

lemma exists_remove_parent_ok:
  assumes ok: "exists_index_ok em" and w: "walks walk"
  shows "exists_index_ok (exists_remove_parent walk p em)"
    "supports (exists_remove_parent walk p em) g q \<longleftrightarrow> supports em g q \<and> q \<noteq> p"
    "satisfied (exists_remove_parent walk p em) = (satisfied em)(p := None)"
    "em_id (exists_remove_parent walk p em) = em_id em"
proof -
  let ?em = "exists_remove_parent walk p em"
  have st: "support ?em = (support em)(p := None)" "satisfied ?em = (satisfied em)(p := None)" "em_id ?em = em_id em"
    by (auto simp: exists_remove_parent_def Let_def fun_upd_idem split: option.split)
  have parents: "fact_to_parents ?em = unlink_all (walk (members (support em) p)) p (fact_to_parents em)"
  proof (cases "support em p")
    case None
    then have "walk (members (support em) p) = []" using walksD(1) [OF w, of "{}"] by (simp add: members_def)
    with None show ?thesis by (simp add: exists_remove_parent_def unlink_all_def)
  qed (simp add: exists_remove_parent_def unlink_all_def members_def)
  show "satisfied ?em = (satisfied em)(p := None)" "em_id ?em = em_id em" by (fact st)+
  have fwd: "members (support ?em) = (members (support em))(p := {})" by (auto simp: st fun_eq_iff)
  have fin: "finite (members (support em) p)" "mirrored (members (support em)) (fact_to_parents em)"
    using ok by (simp_all add: exists_index_ok_def)
  have "mirrored (members (support ?em)) (fact_to_parents ?em)"
    unfolding parents by (rule mirrored_unlink_key [OF fin(2) walksD(1) [OF w fin(1)] fwd])
  then show "exists_index_ok ?em"
    using ok by (simp add: exists_index_ok_def st)
  show "supports ?em g q \<longleftrightarrow> supports em g q \<and> q \<noteq> p" by (auto simp: supports_def st)
qed

section \<open>The life of an exists node\<close>

text \<open>
  How the network drives the memory: a parent that gains its first support gets a pass-through
  token, and a parent that loses its last one gives it up; a new parent gets all its supports
  and then its pass-through token.
\<close>

inductive exists_reach :: "exists_memory \<Rightarrow> bool" where
  exists_start: "exists_reach (exists_memory_new i)"
| exists_fact: "exists_reach em \<Longrightarrow> add_support p f em = (n, em') \<Longrightarrow>
    exists_reach (if support_count em p = 0 \<and> 0 < n then set_satisfied p pt em' else em')"
| exists_parent: "exists_reach em \<Longrightarrow> em' = fold (\<lambda>f em. snd (add_support p f em)) fs em \<Longrightarrow>
    exists_reach (if fs \<noteq> [] then set_satisfied p pt em' else em')"
| exists_retract: "exists_reach em \<Longrightarrow> remove_support p f em = ((n, was_removed), em') \<Longrightarrow>
    exists_reach (if was_removed \<and> n = 0 then snd (remove_satisfied p em') else em')"
| exists_drop: "exists_reach em \<Longrightarrow> walks walk \<Longrightarrow> exists_reach (exists_remove_parent walk p em)"
| exists_reset: "exists_reach em \<Longrightarrow> exists_reach (exists_clear em)"

definition exists_ok :: "exists_memory \<Rightarrow> bool" where
  "exists_ok em \<longleftrightarrow> exists_index_ok em \<and> (\<forall>p. p \<in> dom (satisfied em) \<longleftrightarrow> (\<exists>f. supports em f p))"

lemma add_supports_ok:
  assumes "exists_index_ok em"
  shows "exists_index_ok (fold (\<lambda>f em. snd (add_support p f em)) fs em)"
    "supports (fold (\<lambda>f em. snd (add_support p f em)) fs em) g q \<longleftrightarrow> g \<in> set fs \<and> q = p \<or> supports em g q"
    "satisfied (fold (\<lambda>f em. snd (add_support p f em)) fs em) = satisfied em"
  using assms by (induction fs arbitrary: em) (auto simp: add_support_ok)

lemma exists_reach_ok: "exists_reach em \<Longrightarrow> exists_ok em"
proof (induction rule: exists_reach.induct)
  case (exists_start i)
  then show ?case by (simp add: exists_ok_def supports_def exists_memory_new_def)
    (simp add: exists_index_ok_def)
next
  case (exists_fact em p f n em' pt)
  then have ok: "exists_index_ok em" and sat: "q \<in> dom (satisfied em) \<longleftrightarrow> (\<exists>f. supports em f q)" for q
    by (simp_all add: exists_ok_def)
  have em': "em' = snd (add_support p f em)" and n: "n = support_count em' p"
    using exists_fact.hyps(2) add_support_ok(3) [OF ok, of p f] by simp_all
  note add = add_support_ok [OF ok, of p f, folded em']
  have "0 < n" unfolding n support_count_pos [OF add(1)] using add(2) by blast
  moreover have "support_count em p = 0 \<longleftrightarrow> p \<notin> dom (satisfied em)"
    using sat [of p] support_count_pos [OF ok, of p] by auto
  ultimately show ?case using add(1,2,4) sat by (auto simp: exists_ok_def set_satisfied_def)
next
  case (exists_parent em em' p fs pt)
  then have ok: "exists_index_ok em" and sat: "q \<in> dom (satisfied em) \<longleftrightarrow> (\<exists>f. supports em f q)" for q
    by (simp_all add: exists_ok_def)
  note add = add_supports_ok [OF ok, of p fs, folded exists_parent.hyps(2)]
  show ?case
  proof (cases fs)
    case Nil
    then show ?thesis using exists_parent by simp
  next
    case (Cons f fs')
    have "q \<in> dom ((satisfied em)(p \<mapsto> pt)) \<longleftrightarrow> (\<exists>g. supports em' g q)" for q
      using add(2) [of _ q] sat [of q] Cons by (cases "q = p") auto
    then show ?thesis using add(1,3) Cons by (simp add: exists_ok_def set_satisfied_def)
  qed
next
  case (exists_retract em p f n was_removed em')
  then have ok: "exists_index_ok em" and sat: "q \<in> dom (satisfied em) \<longleftrightarrow> (\<exists>f. supports em f q)" for q
    by (simp_all add: exists_ok_def)
  have em': "em' = snd (remove_support p f em)" and n: "n = support_count em' p"
    and r: "was_removed = supports em f p"
    using exists_retract.hyps(2) remove_support_ok(3) [OF ok, of p f] by simp_all
  note rem = remove_support_ok [OF ok, of p f, folded em']
  have n0: "n = 0 \<longleftrightarrow> (\<nexists>g. supports em' g p)" unfolding n using support_count_pos [OF rem(1), of p] by auto
  show ?case
  proof (cases "was_removed \<and> n = 0")
    case True
    have "q \<in> dom ((satisfied em)(p := None)) \<longleftrightarrow> (\<exists>g. supports em' g q)" for q
      using rem(2) [of _ q] sat [of q] True n0 by (cases "q = p") auto
    then show ?thesis using rem(1,4) True by (simp add: exists_ok_def remove_satisfied_def)
  next
    case False
    have "(\<exists>g. supports em' g q) \<longleftrightarrow> (\<exists>g. supports em g q)" for q
      using rem(2) [of _ q] False n0 r by (cases "q = p") auto
    then show ?thesis using rem(1,4) False sat by (auto simp: exists_ok_def)
  qed
next
  case (exists_drop em walk p)
  then have ok: "exists_index_ok em" by (simp add: exists_ok_def)
  with exists_drop show ?case by (auto simp: exists_ok_def exists_remove_parent_ok)
next
  case (exists_reset em)
  then show ?case by (simp add: exists_ok_def) (simp add: exists_clear_def supports_def)
qed

text \<open>
  C24: In every exists memory the network can reach, a parent token has a pass-through token
  exactly when some fact supports it, and the memory passes the code's own consistency check.
\<close>

theorem exists_satisfied_iff_supported:
  assumes "exists_reach em"
  shows "exists_consistent em \<and> (is_satisfied em p \<longleftrightarrow> (\<exists>f. supports em f p)) \<and>
    support_count em p = card {f. supports em f p}"
proof -
  have ok: "exists_index_ok em" and sat: "q \<in> dom (satisfied em) \<longleftrightarrow> (\<exists>f. supports em f q)" for q
    using exists_reach_ok [OF assms] by (simp_all add: exists_ok_def)
  have m: "mirrored (members (support em)) (fact_to_parents em)" and pr: "pruned (support em)"
    using ok by (simp_all add: exists_index_ok_def)
  note check = mirrored_check [OF m]
  have "exists_consistent em"
    unfolding exists_consistent_def
  proof (intro conjI allI impI ballI)
    show "S \<noteq> {}" if "support em q = Some S" for q S using that pr by (auto simp: pruned_def)
    show "\<exists>ps. fact_to_parents em f = Some ps \<and> q \<in> ps" if "support em q = Some S" "f \<in> S" for q S f
      using check(3) [of f q] that by (simp add: members_Some)
    show "ps \<noteq> {}" if "fact_to_parents em f = Some ps" for f ps using check(1) [OF that] .
    show "\<exists>S. support em q = Some S \<and> f \<in> S" if "fact_to_parents em f = Some ps" "q \<in> ps" for f ps q
      using check(2) [OF that] by (auto simp: members_def split: option.splits)
    show "0 < support_count em q" if "q \<in> dom (satisfied em)" for q
      using that sat [of q] support_count_pos [OF ok, of q] by simp
  qed
  then show ?thesis
    using sat [of p] by (simp add: is_satisfied_def support_count_eq supports_def)
qed

theorem exists_satisfied_iff_supported_witness:
  "let em = set_satisfied (TokenId 1) (TokenId 2) (snd (add_support (TokenId 1) (FactId 3) (exists_memory_new 0)))
   in exists_consistent em \<and> is_satisfied em (TokenId 1) \<and> \<not> is_satisfied em (TokenId 2)"
proof -
  obtain n em' where add: "add_support (TokenId 1) (FactId 3) (exists_memory_new 0) = (n, em')"
    by (cases "add_support (TokenId 1) (FactId 3) (exists_memory_new 0)")
  have "0 < n" using add by (auto simp: add_support_def exists_memory_new_def set_index_add_def)
  with exists_fact [OF exists_start add, of "TokenId 2"]
  have "exists_reach (set_satisfied (TokenId 1) (TokenId 2) em')"
    by (simp add: support_count_def exists_memory_new_def)
  note this [THEN exists_satisfied_iff_supported]
  then show ?thesis using add
    by (auto simp: add_support_def exists_memory_new_def set_satisfied_def is_satisfied_def)
qed

text \<open>
  Recording a support adds exactly that pair and answers the number of supports the parent
  now has; removing one answers whether it was there and how many are left, and takes away
  exactly that pair; dropping a parent takes away all its supports and nothing else.
\<close>

theorem support_changes_exact:
  assumes "exists_reach em" and "walks walk"
  shows "(case add_support p f em of (n, em') \<Rightarrow>
      (\<forall>g q. supports em' g q \<longleftrightarrow> g = f \<and> q = p \<or> supports em g q) \<and> n = card {g. supports em' g p}) \<and>
    (case remove_support p f em of ((n, was_removed), em') \<Rightarrow>
      (\<forall>g q. supports em' g q \<longleftrightarrow> supports em g q \<and> \<not> (g = f \<and> q = p)) \<and>
      n = card {g. supports em' g p} \<and> (was_removed \<longleftrightarrow> supports em f p)) \<and>
    (\<forall>g q. supports (exists_remove_parent walk p em) g q \<longleftrightarrow> supports em g q \<and> q \<noteq> p)"
proof -
  have ok: "exists_index_ok em" using exists_reach_ok [OF assms(1)] by (simp add: exists_ok_def)
  have count: "support_count x p = card {g. supports x g p}" for x by (simp add: support_count_eq supports_def)
  show ?thesis
    using add_support_ok(2,3) [OF ok, of p f] remove_support_ok(2,3) [OF ok, of p f]
      exists_remove_parent_ok(2) [OF ok assms(2), of p]
    by (simp add: split_beta count)
qed

theorem support_changes_exact_witness:
  "\<exists>walk. \<not> supports (exists_remove_parent walk (TokenId 1) (exists_memory_new 0)) (FactId 3) (TokenId 1) \<and>
     fst (add_support (TokenId 1) (FactId 3) (exists_memory_new 0)) =
       card {g. supports (snd (add_support (TokenId 1) (FactId 3) (exists_memory_new 0))) g (TokenId 1)}"
proof -
  obtain walk :: "fact_id set \<Rightarrow> fact_id list" where w: "walks walk"
    unfolding walks_def by (metis ex_enumerates)
  from support_changes_exact [OF exists_start [of 0] w, where p = "TokenId 1" and f = "FactId 3"] show ?thesis
    by (intro exI [of _ walk]) (simp add: split_beta)
qed

end
