(* ===== verification/Negative_Memory.thy ===== *)
theory Negative_Memory
  imports Mirrored_Index
begin

text \<open>
  \<open>negative.rs\<close>: which facts block each parent token of a negative node, oldest blocker first, the
  position of each blocked parent in the chronology of blocks, and the pass-through tokens of
  the unblocked parents.
\<close>

section \<open>State and operations\<close>

record negative_memory =
  nm_id :: u32
  blocked :: "token_id \<rightharpoonup> fact_id list"
  block_order :: "token_id \<rightharpoonup> u64"
  fact_to_blocked :: "fact_id \<rightharpoonup> token_id set"
  unblocked :: "token_id \<rightharpoonup> token_id"

definition negative_memory_new :: "u32 \<Rightarrow> negative_memory" where
  "negative_memory_new i = \<lparr>nm_id = i, blocked = Map.empty, block_order = Map.empty,
     fact_to_blocked = Map.empty, unblocked = Map.empty\<rparr>"

definition add_blocker :: "token_id \<Rightarrow> fact_id \<Rightarrow> u64 \<Rightarrow> negative_memory \<Rightarrow> negative_memory" where
  "add_blocker p f order nm =
     (let nm = (if p \<notin> dom (blocked nm) then nm\<lparr>block_order := (block_order nm)(p \<mapsto> order)\<rparr> else nm);
          nm = nm\<lparr>blocked := (blocked nm)(p \<mapsto>
                 snd (ls_insert f (case blocked nm p of None \<Rightarrow> [] | Some bs \<Rightarrow> bs)))\<rparr>
      in nm\<lparr>fact_to_blocked := set_index_add f p (fact_to_blocked nm)\<rparr>)"

definition remove_blocker :: "token_id \<Rightarrow> fact_id \<Rightarrow> u64 \<Rightarrow> negative_memory \<Rightarrow> bool \<times> negative_memory" where
  "remove_blocker p f replacement nm =
     (let (now_unblocked, nm) =
            (case blocked nm p of
               None \<Rightarrow> (False, nm)
             | Some blockers \<Rightarrow>
                 (let was_primary = (hd_opt blockers = Some f);
                      rest = snd (ls_remove f blockers)
                  in if rest = [] then
                       (True, nm\<lparr>blocked := (blocked nm)(p := None), block_order := (block_order nm)(p := None)\<rparr>)
                     else
                       (False, nm\<lparr>blocked := (blocked nm)(p \<mapsto> rest),
                          block_order := (if was_primary then (block_order nm)(p \<mapsto> replacement) else block_order nm)\<rparr>)))
      in (now_unblocked, nm\<lparr>fact_to_blocked := set_index_del f p (fact_to_blocked nm)\<rparr>))"

definition negative_clear :: "negative_memory \<Rightarrow> negative_memory" where
  "negative_clear nm = nm\<lparr>blocked := Map.empty, block_order := Map.empty,
     fact_to_blocked := Map.empty, unblocked := Map.empty\<rparr>"

definition is_blocked :: "negative_memory \<Rightarrow> token_id \<Rightarrow> bool" where
  "is_blocked nm p \<longleftrightarrow> p \<in> dom (blocked nm)"

definition tokens_blocked_by :: "negative_memory \<Rightarrow> fact_id \<Rightarrow> token_id set" where
  "tokens_blocked_by nm f = (case fact_to_blocked nm f of None \<Rightarrow> {} | Some S \<Rightarrow> S)"

definition primary_blocker :: "negative_memory \<Rightarrow> token_id \<Rightarrow> fact_id option" where
  "primary_blocker nm p = Option.bind (blocked nm p) hd_opt"

definition block_order_of :: "negative_memory \<Rightarrow> token_id \<Rightarrow> u64 option" where
  "block_order_of nm p = block_order nm p"

definition set_unblocked :: "token_id \<Rightarrow> token_id \<Rightarrow> negative_memory \<Rightarrow> negative_memory" where
  "set_unblocked p pt nm = nm\<lparr>unblocked := (unblocked nm)(p \<mapsto> pt)\<rparr>"

definition negative_passthrough :: "negative_memory \<Rightarrow> token_id \<Rightarrow> token_id option" where
  "negative_passthrough nm p = unblocked nm p"

definition remove_unblocked :: "token_id \<Rightarrow> negative_memory \<Rightarrow> token_id option \<times> negative_memory" where
  "remove_unblocked p nm = (unblocked nm p, nm\<lparr>unblocked := (unblocked nm)(p := None)\<rparr>)"

definition is_unblocked :: "negative_memory \<Rightarrow> token_id \<Rightarrow> bool" where
  "is_unblocked nm p \<longleftrightarrow> p \<in> dom (unblocked nm)"

definition negative_remove_parent :: "token_id \<Rightarrow> negative_memory \<Rightarrow> negative_memory" where
  "negative_remove_parent p nm =
     (let nm = nm\<lparr>unblocked := (unblocked nm)(p := None)\<rparr>;
          nm = nm\<lparr>block_order := (block_order nm)(p := None)\<rparr>
      in case blocked nm p of
           None \<Rightarrow> nm
         | Some blockers \<Rightarrow> nm\<lparr>blocked := (blocked nm)(p := None),
             fact_to_blocked := fold (\<lambda>f ts. set_index_del f p ts) blockers (fact_to_blocked nm)\<rparr>)"

definition negative_is_empty :: "negative_memory \<Rightarrow> bool" where
  "negative_is_empty nm \<longleftrightarrow>
     blocked nm = Map.empty \<and> fact_to_blocked nm = Map.empty \<and> unblocked nm = Map.empty"

definition blocked_count :: "negative_memory \<Rightarrow> nat" where
  "blocked_count nm = card (dom (blocked nm))"

definition unblocked_count :: "negative_memory \<Rightarrow> nat" where
  "unblocked_count nm = card (dom (unblocked nm))"

definition negative_consistent :: "negative_memory \<Rightarrow> bool" where
  "negative_consistent nm \<longleftrightarrow>
     card (dom (block_order nm)) = card (dom (blocked nm)) \<and>
     (\<forall>p \<in> dom (blocked nm). p \<in> dom (block_order nm)) \<and>
     card (ran (block_order nm)) = card (dom (block_order nm)) \<and>
     (\<forall>p bs. blocked nm p = Some bs \<longrightarrow> bs \<noteq> [] \<and>
        (\<forall>f \<in> set bs. \<exists>ts. fact_to_blocked nm f = Some ts \<and> p \<in> ts)) \<and>
     (\<forall>f ts. fact_to_blocked nm f = Some ts \<longrightarrow> ts \<noteq> {} \<and>
        (\<forall>p \<in> ts. \<exists>bs. blocked nm p = Some bs \<and> f \<in> set bs)) \<and>
     (\<forall>p \<in> dom (unblocked nm). p \<notin> dom (blocked nm))"

section \<open>Invariant\<close>

definition blockers :: "negative_memory \<Rightarrow> token_id \<Rightarrow> fact_id list" where
  "blockers nm p = bucket (blocked nm) p"

definition blockers_ok :: "negative_memory \<Rightarrow> bool" where
  "blockers_ok nm \<longleftrightarrow> vec_pruned (blocked nm) \<and> (\<forall>p. distinct (blockers nm p)) \<and>
     mirrored (\<lambda>p. set (blockers nm p)) (fact_to_blocked nm) \<and>
     dom (block_order nm) = dom (blocked nm)"

lemma blockers_ok_new [simp]: "blockers_ok (negative_memory_new i)" "blockers_ok (negative_clear nm)"
  by (simp_all add: blockers_ok_def negative_memory_new_def negative_clear_def blockers_def)

lemma blocked_iff: "blockers_ok nm \<Longrightarrow> is_blocked nm p \<longleftrightarrow> blockers nm p \<noteq> []"
  unfolding is_blocked_def blockers_def using vec_pruned_None_iff [of "blocked nm" p]
  by (auto simp: blockers_ok_def)

lemma primary_eq: "primary_blocker nm p = hd_opt (blockers nm p)"
  by (simp add: primary_blocker_def blockers_def bucket_def hd_opt_def split: option.split)

lemma add_blocker_fields:
  assumes ok: "blockers_ok nm"
  shows "blockers (add_blocker p f order nm) = (blockers nm)(p := snd (ls_insert f (blockers nm p)))"
    "block_order (add_blocker p f order nm) =
       (if is_blocked nm p then block_order nm else (block_order nm)(p \<mapsto> order))"
    "unblocked (add_blocker p f order nm) = unblocked nm"
    "fact_to_blocked (add_blocker p f order nm) = set_index_add f p (fact_to_blocked nm)"
    "blocked (add_blocker p f order nm) = (blocked nm)(p \<mapsto> snd (ls_insert f (blockers nm p)))"
  by (auto simp: add_blocker_def Let_def blockers_def bucket_def is_blocked_def fun_eq_iff)

lemma add_blocker_ok:
  assumes ok: "blockers_ok nm"
  shows "blockers_ok (add_blocker p f order nm)"
proof -
  note fs = add_blocker_fields [OF ok, of p f order]
  have "snd (ls_insert f xs) \<noteq> []" for xs by (auto simp: ls_insert_def)
  moreover have "(\<lambda>q. set (((blockers nm)(p := snd (ls_insert f (blockers nm p)))) q)) =
      (\<lambda>q. set (blockers nm q))(p := insert f (set (blockers nm p)))" by (simp add: fun_eq_iff)
  then have "mirrored (\<lambda>q. set (blockers (add_blocker p f order nm) q)) (fact_to_blocked (add_blocker p f order nm))"
    unfolding fs using ok by (intro mirrored_add [of "\<lambda>p. set (blockers nm p)"]) (simp_all add: blockers_ok_def)
  ultimately show ?thesis
    using ok unfolding blockers_ok_def fs(1,2,5)
    by (auto simp: vec_pruned_def is_blocked_def split: if_splits)
qed

lemma remove_blocker_fields:
  fixes p :: token_id and f :: fact_id
  assumes ok: "blockers_ok nm"
  defines "rest \<equiv> snd (ls_remove f (blockers nm p))"
  shows "blockers (snd (remove_blocker p f order nm)) = (blockers nm)(p := rest)"
    "block_order (snd (remove_blocker p f order nm)) =
       (if rest = [] then (block_order nm)(p := None)
        else if primary_blocker nm p = Some f then (block_order nm)(p \<mapsto> order) else block_order nm)"
    "unblocked (snd (remove_blocker p f order nm)) = unblocked nm"
    "fact_to_blocked (snd (remove_blocker p f order nm)) = set_index_del f p (fact_to_blocked nm)"
    "blocked (snd (remove_blocker p f order nm)) = (blocked nm)(p := if rest = [] then None else Some rest)"
    "fst (remove_blocker p f order nm) \<longleftrightarrow> is_blocked nm p \<and> rest = []"
proof -
  have none: "block_order nm p = None" if "blocked nm p = None"
    using that ok unfolding blockers_ok_def by (metis domIff)
  show "blockers (snd (remove_blocker p f order nm)) = (blockers nm)(p := rest)"
    "block_order (snd (remove_blocker p f order nm)) =
       (if rest = [] then (block_order nm)(p := None)
        else if primary_blocker nm p = Some f then (block_order nm)(p \<mapsto> order) else block_order nm)"
    "unblocked (snd (remove_blocker p f order nm)) = unblocked nm"
    "fact_to_blocked (snd (remove_blocker p f order nm)) = set_index_del f p (fact_to_blocked nm)"
    "blocked (snd (remove_blocker p f order nm)) = (blocked nm)(p := if rest = [] then None else Some rest)"
    "fst (remove_blocker p f order nm) \<longleftrightarrow> is_blocked nm p \<and> rest = []"
    using none by (cases "blocked nm p";
      simp add: remove_blocker_def rest_def blockers_def bucket_def Let_def ls_remove_def is_blocked_def
        primary_blocker_def fun_eq_iff domIff)+
qed

lemma remove_blocker_ok:
  assumes ok: "blockers_ok nm"
  shows "blockers_ok (snd (remove_blocker p f order nm))"
proof -
  note fs = remove_blocker_fields [OF ok, of p f order]
  let ?rest = "snd (ls_remove f (blockers nm p))"
  have "(\<lambda>q. set (((blockers nm)(p := ?rest)) q)) =
      (\<lambda>q. set (blockers nm q))(p := set (blockers nm p) - {f})" by (simp add: fun_eq_iff)
  then have "mirrored (\<lambda>q. set (blockers (snd (remove_blocker p f order nm)) q))
      (fact_to_blocked (snd (remove_blocker p f order nm)))"
    unfolding fs using ok by (intro mirrored_del [of "\<lambda>p. set (blockers nm p)"]) (simp_all add: blockers_ok_def)
  moreover have "dom (block_order (snd (remove_blocker p f order nm))) = dom (blocked (snd (remove_blocker p f order nm)))"
  proof (cases "?rest = []")
    case False
    then have "blockers nm p \<noteq> []" by (auto simp: ls_remove_def)
    then have "p \<in> dom (blocked nm)" using blocked_iff [OF ok] by (simp add: is_blocked_def)
    with False ok show ?thesis unfolding fs by (auto simp: blockers_ok_def)
  qed (use ok in \<open>simp add: fs blockers_ok_def\<close>)
  ultimately show ?thesis
    using ok unfolding blockers_ok_def fs(1,5) by (auto simp: vec_pruned_def)
qed

lemma negative_remove_parent_fields:
  assumes ok: "blockers_ok nm"
  shows "blockers (negative_remove_parent p nm) = (blockers nm)(p := [])"
    "block_order (negative_remove_parent p nm) = (block_order nm)(p := None)"
    "unblocked (negative_remove_parent p nm) = (unblocked nm)(p := None)"
    "fact_to_blocked (negative_remove_parent p nm) = unlink_all (blockers nm p) p (fact_to_blocked nm)"
    "blocked (negative_remove_parent p nm) = (blocked nm)(p := None)"
  by (cases "blocked nm p";
      simp add: negative_remove_parent_def blockers_def bucket_def Let_def unlink_all_def fun_eq_iff)+

lemma negative_remove_parent_ok:
  assumes ok: "blockers_ok nm"
  shows "blockers_ok (negative_remove_parent p nm)"
proof -
  note fs = negative_remove_parent_fields [OF ok, of p]
  have "mirrored (\<lambda>q. set (((blockers nm)(p := [])) q)) (unlink_all (blockers nm p) p (fact_to_blocked nm))"
    using ok by (intro mirrored_unlink_key [of "\<lambda>p. set (blockers nm p)"]) (auto simp: blockers_ok_def fun_eq_iff)
  with ok show ?thesis unfolding blockers_ok_def fs by (auto simp: vec_pruned_def)
qed

section \<open>The life of a negative node\<close>

text \<open>
  How the network drives the memory. The order given to a new block, or to a block that moves to
  its next blocker, is newly allocated: no block has it. A fact that joins the blockers of an
  already blocked parent is passed the order 0, which is not used.
\<close>

inductive negative_reach :: "negative_memory \<Rightarrow> bool" where
  neg_start: "negative_reach (negative_memory_new i)"
| neg_pass: "negative_reach nm \<Longrightarrow> \<not> is_blocked nm p \<Longrightarrow> negative_reach (set_unblocked p pt nm)"
| neg_block: "negative_reach nm \<Longrightarrow> order \<notin> ran (block_order nm) \<Longrightarrow>
    negative_reach (add_blocker p f order (snd (remove_unblocked p nm)))"
| neg_support: "negative_reach nm \<Longrightarrow> is_blocked nm p \<Longrightarrow> negative_reach (add_blocker p f 0 nm)"
| neg_retract: "negative_reach nm \<Longrightarrow> order \<notin> ran (block_order nm) \<Longrightarrow>
    negative_reach (snd (remove_blocker p f order nm))"
| neg_retract_other: "negative_reach nm \<Longrightarrow> primary_blocker nm p \<noteq> Some f \<Longrightarrow>
    negative_reach (snd (remove_blocker p f 0 nm))"
| neg_drop: "negative_reach nm \<Longrightarrow> negative_reach (negative_remove_parent p nm)"
| neg_reset: "negative_reach nm \<Longrightarrow> negative_reach (negative_clear nm)"

definition injective_orders :: "('a \<rightharpoonup> 'b) \<Rightarrow> bool" where
  "injective_orders m \<longleftrightarrow> (\<forall>p q. m p \<noteq> None \<longrightarrow> m p = m q \<longrightarrow> p = q)"

lemma injective_orders_simps [simp]:
  "injective_orders Map.empty" "injective_orders m \<Longrightarrow> injective_orders (m(p := None))"
  "injective_orders m \<Longrightarrow> x \<notin> ran m \<Longrightarrow> injective_orders (m(p \<mapsto> x))"
  by (auto simp: injective_orders_def ran_def)

lemma injective_orders_card: "injective_orders m \<Longrightarrow> finite (dom m) \<Longrightarrow> card (ran m) = card (dom m)"
proof -
  assume inj: "injective_orders m" and fin: "finite (dom m)"
  have "inj_on (\<lambda>p. the (m p)) (dom m)"
    using inj by (fastforce simp: inj_on_def injective_orders_def)
  moreover have "ran m = (\<lambda>p. the (m p)) ` dom m" by (force simp: ran_def)
  ultimately show ?thesis by (simp add: card_image)
qed

definition negative_ok :: "negative_memory \<Rightarrow> bool" where
  "negative_ok nm \<longleftrightarrow> blockers_ok nm \<and> injective_orders (block_order nm) \<and> finite (dom (blocked nm)) \<and>
     (\<forall>p \<in> dom (unblocked nm). \<not> is_blocked nm p)"

lemma is_blocked_simps:
  assumes ok: "blockers_ok nm"
  shows "is_blocked (add_blocker p f order nm) q \<longleftrightarrow> q = p \<or> is_blocked nm q"
    "is_blocked (snd (remove_blocker p f order nm)) q \<longleftrightarrow>
       is_blocked nm q \<and> (q = p \<longrightarrow> set (blockers nm p) - {f} \<noteq> {})"
    "is_blocked (negative_remove_parent p nm) q \<longleftrightarrow> q \<noteq> p \<and> is_blocked nm q"
proof -
  have ne: "snd (ls_insert f xs) \<noteq> []" for xs by (auto simp: ls_insert_def)
  have empty: "snd (ls_remove f xs) = [] \<longleftrightarrow> set xs - {f} = {}" for xs
    by (metis set_empty set_ls_remove)
  show "is_blocked (add_blocker p f order nm) q \<longleftrightarrow> q = p \<or> is_blocked nm q"
    by (simp add: blocked_iff [OF ok] blocked_iff [OF add_blocker_ok [OF ok]] add_blocker_fields(1) [OF ok] ne)
  show "is_blocked (snd (remove_blocker p f order nm)) q \<longleftrightarrow>
       is_blocked nm q \<and> (q = p \<longrightarrow> set (blockers nm p) - {f} \<noteq> {})"
    by (auto simp: blocked_iff [OF ok] blocked_iff [OF remove_blocker_ok [OF ok]]
        remove_blocker_fields(1) [OF ok] empty)
  show "is_blocked (negative_remove_parent p nm) q \<longleftrightarrow> q \<noteq> p \<and> is_blocked nm q"
    by (simp add: blocked_iff [OF ok] blocked_iff [OF negative_remove_parent_ok [OF ok]]
        negative_remove_parent_fields(1) [OF ok])
qed

lemma negative_reach_ok: "negative_reach nm \<Longrightarrow> negative_ok nm"
proof (induction rule: negative_reach.induct)
  case (neg_start i)
  then show ?case by (simp add: negative_ok_def) (simp add: negative_memory_new_def)
next
  case (neg_pass nm p pt)
  have "blockers (set_unblocked p pt nm) = blockers nm" "is_blocked (set_unblocked p pt nm) = is_blocked nm"
    by (simp_all add: fun_eq_iff blockers_def is_blocked_def set_unblocked_def)
  then show ?case using neg_pass
    by (simp add: negative_ok_def blockers_ok_def) (simp add: set_unblocked_def)
next
  case (neg_block nm order p f)
  let ?nm = "snd (remove_unblocked p nm)"
  have same: "blockers ?nm = blockers nm" "is_blocked ?nm = is_blocked nm" "block_order ?nm = block_order nm"
    "blocked ?nm = blocked nm" "unblocked ?nm = (unblocked nm)(p := None)" "fact_to_blocked ?nm = fact_to_blocked nm"
    by (simp_all add: fun_eq_iff blockers_def is_blocked_def remove_unblocked_def)
  have ok: "blockers_ok ?nm" using neg_block.IH by (simp add: negative_ok_def blockers_ok_def same)
  note fs = add_blocker_fields [OF ok, of p f order, unfolded same]
  show ?case
    unfolding negative_ok_def
    using add_blocker_ok [OF ok] neg_block is_blocked_simps(1) [OF ok, of p f order]
    by (auto simp: negative_ok_def fs same)
next
  case (neg_support nm p f)
  then have ok: "blockers_ok nm" by (simp add: negative_ok_def)
  note fs = add_blocker_fields [OF ok, of p f 0]
  show ?case
    unfolding negative_ok_def
    using add_blocker_ok [OF ok] neg_support is_blocked_simps(1) [OF ok, of p f 0]
    by (auto simp: negative_ok_def fs)
next
  case (neg_retract nm order p f)
  then have ok: "blockers_ok nm" by (simp add: negative_ok_def)
  note fs = remove_blocker_fields [OF ok, of p f order]
  show ?case
    unfolding negative_ok_def
    using remove_blocker_ok [OF ok] neg_retract is_blocked_simps(2) [OF ok, of p f order]
    by (auto simp: negative_ok_def fs)
next
  case (neg_retract_other nm p f)
  then have ok: "blockers_ok nm" by (simp add: negative_ok_def)
  note fs = remove_blocker_fields [OF ok, of p f 0]
  show ?case
    unfolding negative_ok_def
    using remove_blocker_ok [OF ok] neg_retract_other is_blocked_simps(2) [OF ok, of p f 0]
    by (auto simp: negative_ok_def fs)
next
  case (neg_drop nm p)
  then have ok: "blockers_ok nm" by (simp add: negative_ok_def)
  note fs = negative_remove_parent_fields [OF ok, of p]
  show ?case
    unfolding negative_ok_def
    using negative_remove_parent_ok [OF ok] neg_drop is_blocked_simps(3) [OF ok]
    by (auto simp: negative_ok_def fs)
next
  case (neg_reset nm)
  then show ?case by (simp add: negative_ok_def) (simp add: negative_clear_def)
qed

text \<open>
  C25: Every negative memory the network can reach passes the code's own consistency check; a
  parent is blocked exactly when some fact is recorded as blocking it, and then has no
  pass-through token and a place in the chronology that no other parent has.
\<close>

theorem negative_blocking_consistent:
  assumes "negative_reach nm"
  shows "negative_consistent nm \<and>
    (is_blocked nm p \<longleftrightarrow> (\<exists>f. p \<in> tokens_blocked_by nm f)) \<and>
    (is_blocked nm p \<longrightarrow> \<not> is_unblocked nm p \<and>
       (\<exists>n. block_order_of nm p = Some n \<and> (\<forall>q. block_order_of nm q = Some n \<longrightarrow> q = p)))"
proof -
  have neg: "negative_ok nm" by (rule negative_reach_ok [OF assms])
  then have ok: "blockers_ok nm" and inj: "injective_orders (block_order nm)"
    and fin: "finite (dom (blocked nm))" and un: "\<forall>p \<in> dom (unblocked nm). \<not> is_blocked nm p"
    by (simp_all add: negative_ok_def)
  have m: "mirrored (\<lambda>p. set (blockers nm p)) (fact_to_blocked nm)" and pr: "vec_pruned (blocked nm)"
    and dom: "dom (block_order nm) = dom (blocked nm)"
    using ok by (simp_all add: blockers_ok_def)
  note check = mirrored_check [OF m]
  have rev_iff: "p \<in> tokens_blocked_by nm f \<longleftrightarrow> f \<in> set (blockers nm p)" for p f
    using mirroredD(2) [OF m, of p f] by (simp add: tokens_blocked_by_def members_def)
  have "negative_consistent nm"
    unfolding negative_consistent_def
  proof (intro conjI allI impI ballI)
    show "card (dom (block_order nm)) = card (dom (blocked nm))" by (simp add: dom)
    show "q \<in> dom (block_order nm)" if "q \<in> dom (blocked nm)" for q using that by (simp add: dom)
    show "card (ran (block_order nm)) = card (dom (block_order nm))"
      using injective_orders_card [OF inj] fin by (simp add: dom)
    show "bs \<noteq> []" if "blocked nm q = Some bs" for q bs using that pr by (auto simp: vec_pruned_def)
    show "\<exists>ts. fact_to_blocked nm f = Some ts \<and> q \<in> ts" if "blocked nm q = Some bs" "f \<in> set bs" for q bs f
      using check(3) [of f q] that by (simp add: blockers_def bucket_Some)
    show "ts \<noteq> {}" if "fact_to_blocked nm f = Some ts" for f ts using check(1) [OF that] .
    show "\<exists>bs. blocked nm q = Some bs \<and> f \<in> set bs" if "fact_to_blocked nm f = Some ts" "q \<in> ts" for f ts q
      using check(2) [OF that] by (cases "blocked nm q") (auto simp: blockers_def bucket_def)
    show "q \<notin> dom (blocked nm)" if "q \<in> dom (unblocked nm)" for q
      using that un by (simp add: is_blocked_def)
  qed
  moreover have "is_blocked nm p \<longleftrightarrow> (\<exists>f. p \<in> tokens_blocked_by nm f)"
    by (cases "blockers nm p") (auto simp: blocked_iff [OF ok] rev_iff)
  moreover have "\<exists>n. block_order_of nm p = Some n \<and> (\<forall>q. block_order_of nm q = Some n \<longrightarrow> q = p)"
    if "is_blocked nm p"
  proof -
    have "p \<in> dom (block_order nm)" using that by (simp add: dom is_blocked_def)
    then obtain n where "block_order nm p = Some n" by auto
    with inj show ?thesis unfolding injective_orders_def block_order_of_def by (metis option.distinct(1))
  qed
  ultimately show ?thesis using un by (auto simp: is_unblocked_def)
qed

text \<open>Two facts block one parent, a third blocks another.\<close>

definition sample_negative :: negative_memory where
  "sample_negative = add_blocker (TokenId 2) (FactId 3) 6 (add_blocker (TokenId 1) (FactId 2) 0
     (add_blocker (TokenId 1) (FactId 1) 5 (negative_memory_new 0)))"

lemmas sample_negative_defs = sample_negative_def add_blocker_def negative_memory_new_def ls_insert_def
  Let_def is_blocked_def set_index_add_def

lemma sample_negative_reach: "negative_reach sample_negative"
proof -
  have id: "snd (remove_unblocked p (add_blocker q f n nm)) = add_blocker q f n (snd (remove_unblocked p nm))"
    "snd (remove_unblocked p (negative_memory_new i)) = negative_memory_new i" for p q f n nm i
    by (simp_all add: remove_unblocked_def add_blocker_def negative_memory_new_def Let_def)
  have "negative_reach (add_blocker (TokenId 1) (FactId 1) 5 (negative_memory_new 0))"
    using neg_block [OF neg_start [of 0], of 5 "TokenId 1" "FactId 1"] unfolding id
    by (simp add: negative_memory_new_def)
  from neg_support [OF this, of "TokenId 1" "FactId 2"]
  have "negative_reach (add_blocker (TokenId 1) (FactId 2) 0 (add_blocker (TokenId 1) (FactId 1) 5 (negative_memory_new 0)))"
    by (simp add: sample_negative_defs)
  from neg_block [OF this, of 6 "TokenId 2" "FactId 3"] show ?thesis
    unfolding id sample_negative_def by (simp add: sample_negative_defs)
qed

theorem negative_blocking_consistent_witness:
  "negative_consistent sample_negative \<and> is_blocked sample_negative (TokenId 1) \<and>
   \<not> is_unblocked sample_negative (TokenId 1)"
proof -
  have "is_blocked sample_negative (TokenId 1)" by (simp add: sample_negative_defs)
  with negative_blocking_consistent [OF sample_negative_reach, of "TokenId 1"] show ?thesis by simp
qed

text \<open>
  C26: Removing a blocker lets the parent through exactly when it was its only blocker; otherwise
  the remaining blockers keep their order, and the parent's place in the chronology moves, to the
  given position, exactly when the oldest blocker was removed. No other parent changes.
\<close>

theorem remove_blocker_exact:
  assumes "negative_reach nm"
  shows "case remove_blocker p f order nm of (now_unblocked, nm') \<Rightarrow>
    (now_unblocked \<longleftrightarrow> blockers nm p = [f]) \<and>
    blockers nm' p = filter (\<lambda>g. g \<noteq> f) (blockers nm p) \<and>
    primary_blocker nm' p = hd_opt (filter (\<lambda>g. g \<noteq> f) (blockers nm p)) \<and>
    block_order_of nm' p =
      (if blockers nm' p = [] then None
       else if primary_blocker nm p = Some f then Some order else block_order_of nm p) \<and>
    (\<forall>q. q \<noteq> p \<longrightarrow> blockers nm' q = blockers nm q \<and> block_order_of nm' q = block_order_of nm q) \<and>
    unblocked nm' = unblocked nm"
proof -
  have ok: "blockers_ok nm" using negative_reach_ok [OF assms] by (simp add: negative_ok_def)
  note fs = remove_blocker_fields [OF ok, of p f order]
  have d: "distinct (blockers nm p)" using ok by (simp add: blockers_ok_def)
  have "filter (\<lambda>g. g \<noteq> f) xs = [] \<and> xs \<noteq> [] \<longleftrightarrow> xs = [f]" if "distinct xs" for xs :: "fact_id list"
  proof (cases xs)
    case (Cons g gs)
    then show ?thesis using that by (cases gs) (auto simp: filter_empty_conv)
  qed simp
  from this [OF d] show ?thesis
    by (auto simp: split_beta fs blocked_iff [OF ok] ls_remove_def primary_eq block_order_of_def)
qed

theorem remove_blocker_exact_witness:
  "case remove_blocker (TokenId 1) (FactId 1) 7 sample_negative of (now_unblocked, nm') \<Rightarrow>
     \<not> now_unblocked \<and> blockers nm' (TokenId 1) = [FactId 2] \<and> block_order_of nm' (TokenId 1) = Some 7"
proof -
  have b: "blockers sample_negative (TokenId 1) = [FactId 1, FactId 2]"
    by (simp add: blockers_def bucket_def sample_negative_defs)
  then have "primary_blocker sample_negative (TokenId 1) = Some (FactId 1)"
    by (simp add: primary_eq hd_opt_def)
  with remove_blocker_exact [OF sample_negative_reach, of "TokenId 1" "FactId 1" 7] b show ?thesis
    by (simp add: split_beta)
qed

end
