(* ===== verification/Ncc_Memory.thy ===== *)
theory Ncc_Memory
  imports Mirrored_Index
begin

text \<open>
  \<open>ncc.rs\<close>: the subnetwork results that block each parent token of a negated conjunction. A parent
  has a count of its results, the results themselves oldest first, the one that is responsible
  for the block, and its place in the chronology of blocks. Counts are \<open>usize\<close> and bounded by the
  number of tokens in memory, so they are natural numbers.
\<close>

section \<open>State and operations\<close>

record ncc_memory =
  ncc_id :: u32
  result_count :: "token_id \<rightharpoonup> nat"
  result_owner :: "token_id \<rightharpoonup> token_id"
  parent_results :: "token_id \<rightharpoonup> token_id list"
  primary_result :: "token_id \<rightharpoonup> token_id"
  ncc_block_order :: "token_id \<rightharpoonup> u64"
  ncc_unblocked :: "token_id \<rightharpoonup> token_id"

definition ncc_memory_new :: "u32 \<Rightarrow> ncc_memory" where
  "ncc_memory_new i = \<lparr>ncc_id = i, result_count = Map.empty, result_owner = Map.empty,
     parent_results = Map.empty, primary_result = Map.empty, ncc_block_order = Map.empty,
     ncc_unblocked = Map.empty\<rparr>"

definition result_count_of :: "ncc_memory \<Rightarrow> token_id \<Rightarrow> nat" where
  "result_count_of nm p = (case result_count nm p of None \<Rightarrow> 0 | Some n \<Rightarrow> n)"

definition increment_results :: "token_id \<Rightarrow> ncc_memory \<Rightarrow> nat \<times> ncc_memory" where
  "increment_results p nm =
     (let count = (case result_count nm p of None \<Rightarrow> 0 | Some n \<Rightarrow> n) + 1
      in (count, nm\<lparr>result_count := (result_count nm)(p \<mapsto> count)\<rparr>))"

definition add_result :: "token_id \<Rightarrow> token_id \<Rightarrow> u64 \<Rightarrow> ncc_memory \<Rightarrow> (nat \<times> nat) \<times> ncc_memory" where
  "add_result p r order nm =
     (case result_owner nm r of
        Some q \<Rightarrow> ((result_count_of nm q, result_count_of nm q), nm)
      | None \<Rightarrow>
          (let old_count = result_count_of nm p;
               (new_count, nm) = increment_results p nm;
               nm = nm\<lparr>result_owner := (result_owner nm)(r \<mapsto> p)\<rparr>;
               nm = nm\<lparr>parent_results := (parent_results nm)(p \<mapsto>
                      snd (ls_insert r (case parent_results nm p of None \<Rightarrow> [] | Some rs \<Rightarrow> rs)))\<rparr>;
               nm = (if old_count = 0
                     then nm\<lparr>primary_result := (primary_result nm)(p \<mapsto> r),
                             ncc_block_order := (ncc_block_order nm)(p \<mapsto> order)\<rparr>
                     else nm)
           in ((old_count, new_count), nm)))"

definition decrement_results :: "token_id \<Rightarrow> ncc_memory \<Rightarrow> nat \<times> ncc_memory" where
  "decrement_results p nm =
     (case result_count nm p of
        None \<Rightarrow> (0, nm)
      | Some count \<Rightarrow>
          (let new_count = (if 0 < count then count - 1 else count)
           in (new_count, nm\<lparr>result_count := (result_count nm)(p := if new_count = 0 then None else Some new_count)\<rparr>)))"

definition remove_result_support :: "token_id \<Rightarrow> ncc_memory \<Rightarrow> (token_id \<times> nat) option \<times> ncc_memory" where
  "remove_result_support r nm =
     (case result_owner nm r of
        None \<Rightarrow> (None, nm)
      | Some p \<Rightarrow>
          (let nm = nm\<lparr>result_owner := (result_owner nm)(r := None)\<rparr>;
               nm = (case parent_results nm p of
                       None \<Rightarrow> nm
                     | Some results \<Rightarrow>
                         (let rest = snd (ls_remove r results)
                          in nm\<lparr>parent_results := (parent_results nm)(p := if rest = [] then None else Some rest)\<rparr>));
               (new_count, nm) = decrement_results p nm
           in (Some (p, new_count), nm)))"

definition reassign_primary :: "token_id \<Rightarrow> u64 \<Rightarrow> ncc_memory \<Rightarrow> bool \<times> ncc_memory" where
  "reassign_primary p order nm =
     (case Option.bind (parent_results nm p) hd_opt of
        Some r \<Rightarrow> (True, nm\<lparr>primary_result := (primary_result nm)(p \<mapsto> r),
                              ncc_block_order := (ncc_block_order nm)(p \<mapsto> order)\<rparr>)
      | None \<Rightarrow> (False, nm\<lparr>primary_result := (primary_result nm)(p := None),
                              ncc_block_order := (ncc_block_order nm)(p := None)\<rparr>))"

definition remove_result :: "token_id \<Rightarrow> u64 \<Rightarrow> ncc_memory \<Rightarrow> (token_id \<times> nat) option \<times> ncc_memory" where
  "remove_result r replacement nm =
     (case remove_result_support r nm of
        (None, nm) \<Rightarrow> (None, nm)
      | (Some (p, n), nm) \<Rightarrow>
          (Some (p, n), if primary_result nm p = Some r then snd (reassign_primary p replacement nm) else nm))"

definition ncc_set_unblocked :: "token_id \<Rightarrow> token_id \<Rightarrow> ncc_memory \<Rightarrow> ncc_memory" where
  "ncc_set_unblocked p pt nm = nm\<lparr>ncc_unblocked := (ncc_unblocked nm)(p \<mapsto> pt)\<rparr>"

definition ncc_passthrough :: "ncc_memory \<Rightarrow> token_id \<Rightarrow> token_id option" where
  "ncc_passthrough nm p = ncc_unblocked nm p"

definition ncc_remove_unblocked :: "token_id \<Rightarrow> ncc_memory \<Rightarrow> token_id option \<times> ncc_memory" where
  "ncc_remove_unblocked p nm = (ncc_unblocked nm p, nm\<lparr>ncc_unblocked := (ncc_unblocked nm)(p := None)\<rparr>)"

definition ncc_is_blocked :: "ncc_memory \<Rightarrow> token_id \<Rightarrow> bool" where
  "ncc_is_blocked nm p \<longleftrightarrow> 0 < result_count_of nm p"

definition ncc_remove_parent :: "token_id \<Rightarrow> ncc_memory \<Rightarrow> ncc_memory" where
  "ncc_remove_parent p nm =
     (let nm = nm\<lparr>result_count := (result_count nm)(p := None)\<rparr>;
          nm = (case parent_results nm p of
                  None \<Rightarrow> nm
                | Some results \<Rightarrow> nm\<lparr>parent_results := (parent_results nm)(p := None),
                    result_owner := fold (\<lambda>r m. m(r := None)) results (result_owner nm)\<rparr>)
      in nm\<lparr>primary_result := (primary_result nm)(p := None),
            ncc_block_order := (ncc_block_order nm)(p := None),
            ncc_unblocked := (ncc_unblocked nm)(p := None)\<rparr>)"

definition ncc_clear :: "ncc_memory \<Rightarrow> ncc_memory" where
  "ncc_clear nm = nm\<lparr>result_count := Map.empty, result_owner := Map.empty, parent_results := Map.empty,
     primary_result := Map.empty, ncc_block_order := Map.empty, ncc_unblocked := Map.empty\<rparr>"

definition ncc_is_empty :: "ncc_memory \<Rightarrow> bool" where
  "ncc_is_empty nm \<longleftrightarrow> result_count nm = Map.empty \<and> result_owner nm = Map.empty \<and>
     ncc_unblocked nm = Map.empty \<and> parent_results nm = Map.empty \<and>
     primary_result nm = Map.empty \<and> ncc_block_order nm = Map.empty"

definition ncc_consistent :: "ncc_memory \<Rightarrow> bool" where
  "ncc_consistent nm \<longleftrightarrow>
     card (dom (result_count nm)) = card (dom (parent_results nm)) \<and>
     card (dom (result_count nm)) = card (dom (primary_result nm)) \<and>
     card (dom (result_count nm)) = card (dom (ncc_block_order nm)) \<and>
     (\<forall>p n. result_count nm p = Some n \<longrightarrow>
        (\<exists>rs r. parent_results nm p = Some rs \<and> length rs = n \<and> primary_result nm p = Some r \<and>
           r \<in> set rs \<and> hd_opt rs = Some r \<and> p \<in> dom (ncc_block_order nm) \<and>
           (\<forall>r \<in> set rs. result_owner nm r = Some p))) \<and>
     (\<forall>p \<in> dom (ncc_unblocked nm). p \<notin> dom (result_count nm)) \<and>
     (\<forall>p n. result_count nm p = Some n \<longrightarrow> 0 < n) \<and>
     (\<forall>r p. result_owner nm r = Some p \<longrightarrow> p \<in> dom (result_count nm)) \<and>
     (\<forall>p n. result_count nm p = Some n \<longrightarrow> card {r. result_owner nm r = Some p} = n)"

section \<open>Invariant\<close>

definition results :: "ncc_memory \<Rightarrow> token_id \<Rightarrow> token_id list" where
  "results nm p = bucket (parent_results nm) p"

text \<open>
  What always holds of the counts and the result lists; the primary results are right except for
  the parents in \<open>Q\<close>, whose primary result a cascade has taken away and not yet settled.
\<close>

definition ncc_ok_but :: "token_id set \<Rightarrow> ncc_memory \<Rightarrow> bool" where
  "ncc_ok_but Q nm \<longleftrightarrow> vec_pruned (parent_results nm) \<and> finite (dom (parent_results nm)) \<and>
     (\<forall>p. distinct (results nm p)) \<and>
     (\<forall>p r. r \<in> set (results nm p) \<longleftrightarrow> result_owner nm r = Some p) \<and>
     (\<forall>p. result_count nm p = (if results nm p = [] then None else Some (length (results nm p)))) \<and>
     (\<forall>p. p \<notin> Q \<longrightarrow> primary_result nm p = hd_opt (results nm p)) \<and>
     (\<forall>p. p \<notin> Q \<longrightarrow> (p \<in> dom (ncc_block_order nm) \<longleftrightarrow> results nm p \<noteq> []))"

abbreviation ncc_ok :: "ncc_memory \<Rightarrow> bool" where
  "ncc_ok \<equiv> ncc_ok_but {}"

lemma ncc_ok_new [simp]: "ncc_ok (ncc_memory_new i)" "ncc_ok (ncc_clear nm)"
  by (simp_all add: ncc_ok_but_def ncc_memory_new_def ncc_clear_def results_def hd_opt_def)

lemma ncc_okD:
  assumes "ncc_ok_but Q nm"
  shows "vec_pruned (parent_results nm)" "finite (dom (parent_results nm))" "distinct (results nm p)"
    "r \<in> set (results nm p) \<longleftrightarrow> result_owner nm r = Some p"
    "result_count nm p = (if results nm p = [] then None else Some (length (results nm p)))"
    "p \<notin> Q \<Longrightarrow> primary_result nm p = hd_opt (results nm p)"
    "p \<notin> Q \<Longrightarrow> p \<in> dom (ncc_block_order nm) \<longleftrightarrow> results nm p \<noteq> []"
  using assms unfolding ncc_ok_but_def by blast+

lemma result_count_of_eq: "ncc_ok_but Q nm \<Longrightarrow> result_count_of nm p = length (results nm p)"
  by (simp add: result_count_of_def ncc_okD(5))

lemma add_result_ok:
  fixes p r :: token_id and order :: u64
  assumes ok: "ncc_ok_but Q nm" and new: "result_owner nm r = None"
  defines "nm' \<equiv> snd (add_result p r order nm)"
  shows "ncc_ok_but (if results nm p = [] then Q - {p} else Q) nm'"
    "results nm' = (results nm)(p := results nm p @ [r])"
    "fst (add_result p r order nm) = (length (results nm p), Suc (length (results nm p)))"
    "ncc_block_order nm' = (if results nm p = [] then (ncc_block_order nm)(p \<mapsto> order) else ncc_block_order nm)"
    "ncc_unblocked nm' = ncc_unblocked nm"
    "primary_result nm' = (if results nm p = [] then (primary_result nm)(p \<mapsto> r) else primary_result nm)"
proof -
  have count: "(case result_count nm p of None \<Rightarrow> 0 | Some n \<Rightarrow> n) = length (results nm p)"
    by (simp add: ncc_okD(5) [OF ok])
  have r: "r \<notin> set (results nm q)" for q using new by (simp add: ncc_okD(4) [OF ok])
  have pres: "(case parent_results nm p of None \<Rightarrow> [] | Some rs \<Rightarrow> rs) = results nm p"
    by (simp add: results_def bucket_def)
  have ins: "snd (ls_insert r (case parent_results nm p of None \<Rightarrow> [] | Some rs \<Rightarrow> rs)) = results nm p @ [r]"
    unfolding pres using r [of p] by (simp add: ls_insert_def)
  have fs: "result_count nm' = (result_count nm)(p \<mapsto> Suc (length (results nm p)))"
    "result_owner nm' = (result_owner nm)(r \<mapsto> p)"
    "parent_results nm' = (parent_results nm)(p \<mapsto> results nm p @ [r])"
    "primary_result nm' = (if results nm p = [] then (primary_result nm)(p \<mapsto> r) else primary_result nm)"
    "ncc_block_order nm' = (if results nm p = [] then (ncc_block_order nm)(p \<mapsto> order) else ncc_block_order nm)"
    "ncc_unblocked nm' = ncc_unblocked nm"
    "fst (add_result p r order nm) = (length (results nm p), Suc (length (results nm p)))"
    by (simp_all add: nm'_def add_result_def new increment_results_def result_count_of_def count ins Let_def)
  show "fst (add_result p r order nm) = (length (results nm p), Suc (length (results nm p)))"
    "ncc_block_order nm' = (if results nm p = [] then (ncc_block_order nm)(p \<mapsto> order) else ncc_block_order nm)"
    "ncc_unblocked nm' = ncc_unblocked nm"
    "primary_result nm' = (if results nm p = [] then (primary_result nm)(p \<mapsto> r) else primary_result nm)"
    by (fact fs)+
  show res: "results nm' = (results nm)(p := results nm p @ [r])"
    by (simp add: fun_eq_iff fs results_def)
  show "ncc_ok_but (if results nm p = [] then Q - {p} else Q) nm'"
    unfolding ncc_ok_but_def res
  proof (intro conjI allI impI)
    show "vec_pruned (parent_results nm')" "finite (dom (parent_results nm'))"
      using ncc_okD(1,2) [OF ok] by (simp_all add: fs vec_pruned_def)
    fix q
    show "distinct (((results nm)(p := results nm p @ [r])) q)"
      using ncc_okD(3) [OF ok] r by simp
    show "s \<in> set (((results nm)(p := results nm p @ [r])) q) \<longleftrightarrow> result_owner nm' s = Some q" for s
      using ncc_okD(4) [OF ok] new by (auto simp: fs)
    show "result_count nm' q = (if ((results nm)(p := results nm p @ [r])) q = [] then None
        else Some (length (((results nm)(p := results nm p @ [r])) q)))"
      using ncc_okD(5) [OF ok] by (simp add: fs)
    assume q: "q \<notin> (if results nm p = [] then Q - {p} else Q)"
    show "primary_result nm' q = hd_opt (((results nm)(p := results nm p @ [r])) q)"
      using q ncc_okD(6) [OF ok, of q] by (auto simp: fs hd_opt_def split: list.split if_splits)
    show "q \<in> dom (ncc_block_order nm') \<longleftrightarrow> ((results nm)(p := results nm p @ [r])) q \<noteq> []"
      using q ncc_okD(7) [OF ok, of q] by (auto simp: fs split: if_splits)
  qed
qed

lemma hd_opt_filter: "hd_opt xs \<noteq> Some r \<Longrightarrow> hd_opt (filter (\<lambda>s. s \<noteq> r) xs) = hd_opt xs"
  by (cases xs) (auto simp: hd_opt_def)

lemma filter_no_hd: "xs \<noteq> [] \<Longrightarrow> hd_opt xs \<noteq> Some r \<Longrightarrow> filter (\<lambda>s. s \<noteq> r) xs \<noteq> []"
  by (cases xs) (auto simp: hd_opt_def)

lemma length_filter_distinct: "distinct xs \<Longrightarrow> r \<in> set xs \<Longrightarrow> length (filter (\<lambda>s. s \<noteq> r) xs) = length xs - 1"
proof -
  assume d: "distinct xs" and r: "r \<in> set xs"
  have "set (filter (\<lambda>s. s \<noteq> r) xs) = set xs - {r}" by auto
  then have "length (filter (\<lambda>s. s \<noteq> r) xs) = card (set xs - {r})"
    using d by (metis distinct_card distinct_filter)
  with d r show ?thesis by (simp add: distinct_card)
qed

lemma remove_support_result_ok:
  assumes ok: "ncc_ok_but Q nm" and r: "result_owner nm r = Some p"
  defines "rest \<equiv> filter (\<lambda>s. s \<noteq> r) (results nm p)" and "nm' \<equiv> snd (remove_result_support r nm)"
  shows "ncc_ok_but (if primary_result nm p = Some r then insert p Q else Q) nm'"
    "results nm' = (results nm)(p := rest)" "fst (remove_result_support r nm) = Some (p, length rest)"
    "primary_result nm' = primary_result nm" "ncc_block_order nm' = ncc_block_order nm"
    "ncc_unblocked nm' = ncc_unblocked nm"
proof -
  have mem: "r \<in> set (results nm p)" using r by (simp add: ncc_okD(4) [OF ok])
  then have ne: "results nm p \<noteq> []" by auto
  then have pr: "parent_results nm p = Some (results nm p)"
    by (auto simp: results_def bucket_def split: option.splits)
  have len: "length rest = length (results nm p) - 1"
    unfolding rest_def by (rule length_filter_distinct [OF ncc_okD(3) [OF ok] mem])
  have cnt: "result_count nm p = Some (length (results nm p))" using ne by (simp add: ncc_okD(5) [OF ok])
  have z: "length (results nm p) - Suc 0 = 0 \<longleftrightarrow> rest = []" using len by (metis One_nat_def length_0_conv)
  have fs: "result_count nm' = (result_count nm)(p := if rest = [] then None else Some (length rest))"
    "result_owner nm' = (result_owner nm)(r := None)"
    "parent_results nm' = (parent_results nm)(p := if rest = [] then None else Some rest)"
    "primary_result nm' = primary_result nm" "ncc_block_order nm' = ncc_block_order nm"
    "ncc_unblocked nm' = ncc_unblocked nm" "fst (remove_result_support r nm) = Some (p, length rest)"
    using ne len z by (simp_all add: nm'_def remove_result_support_def r pr cnt decrement_results_def Let_def
        ls_remove_def rest_def [symmetric])
  show "fst (remove_result_support r nm) = Some (p, length rest)"
    "primary_result nm' = primary_result nm" "ncc_block_order nm' = ncc_block_order nm"
    "ncc_unblocked nm' = ncc_unblocked nm" by (fact fs)+
  show res: "results nm' = (results nm)(p := rest)" by (simp add: fun_eq_iff fs results_def)
  show "ncc_ok_but (if primary_result nm p = Some r then insert p Q else Q) nm'"
    unfolding ncc_ok_but_def res
  proof (intro conjI allI impI)
    show "vec_pruned (parent_results nm')" "finite (dom (parent_results nm'))"
      using ncc_okD(1,2) [OF ok] by (simp_all add: fs vec_pruned_def)
    fix q
    show "distinct (((results nm)(p := rest)) q)" using ncc_okD(3) [OF ok] by (simp add: rest_def)
    show "s \<in> set (((results nm)(p := rest)) q) \<longleftrightarrow> result_owner nm' s = Some q" for s
      using ncc_okD(4) [OF ok] r by (auto simp: fs rest_def)
    show "result_count nm' q = (if ((results nm)(p := rest)) q = [] then None
        else Some (length (((results nm)(p := rest)) q)))"
      using ncc_okD(5) [OF ok] by (simp add: fs)
    assume q: "q \<notin> (if primary_result nm p = Some r then insert p Q else Q)"
    then have "q \<notin> Q" by (auto split: if_splits)
    note prim = ncc_okD(6,7) [OF ok this]
    have hd: "hd_opt (results nm p) \<noteq> Some r" if "q = p" using that q prim(1) by (auto split: if_splits)
    show "primary_result nm' q = hd_opt (((results nm)(p := rest)) q)"
      using prim(1) hd by (simp add: fs rest_def hd_opt_filter)
    show "q \<in> dom (ncc_block_order nm') \<longleftrightarrow> ((results nm)(p := rest)) q \<noteq> []"
      using prim(2) hd filter_no_hd [OF ne] by (auto simp: fs rest_def)
  qed
qed

lemma reassign_primary_ok:
  fixes p :: token_id and order :: u64
  assumes ok: "ncc_ok_but Q nm"
  defines "nm' \<equiv> snd (reassign_primary p order nm)"
  shows "ncc_ok_but (Q - {p}) nm'" "results nm' = results nm"
    "fst (reassign_primary p order nm) \<longleftrightarrow> results nm p \<noteq> []"
    "primary_result nm' = (primary_result nm)(p := hd_opt (results nm p))"
    "ncc_block_order nm' = (ncc_block_order nm)(p := if results nm p = [] then None else Some order)"
    "ncc_unblocked nm' = ncc_unblocked nm"
proof -
  have hd: "Option.bind (parent_results nm p) hd_opt = hd_opt (results nm p)"
    by (simp add: results_def bucket_def split: option.split)
  have fs: "result_count nm' = result_count nm" "result_owner nm' = result_owner nm"
    "parent_results nm' = parent_results nm"
    "primary_result nm' = (primary_result nm)(p := hd_opt (results nm p))"
    "ncc_block_order nm' = (ncc_block_order nm)(p := if results nm p = [] then None else Some order)"
    "ncc_unblocked nm' = ncc_unblocked nm" "fst (reassign_primary p order nm) \<longleftrightarrow> results nm p \<noteq> []"
    unfolding nm'_def reassign_primary_def hd by (cases "results nm p"; simp add: hd_opt_def)+
  show "fst (reassign_primary p order nm) \<longleftrightarrow> results nm p \<noteq> []"
    "primary_result nm' = (primary_result nm)(p := hd_opt (results nm p))"
    "ncc_block_order nm' = (ncc_block_order nm)(p := if results nm p = [] then None else Some order)"
    "ncc_unblocked nm' = ncc_unblocked nm" by (fact fs)+
  show res: "results nm' = results nm" by (simp add: fun_eq_iff fs results_def)
  show "ncc_ok_but (Q - {p}) nm'"
    using ok unfolding ncc_ok_but_def res fs by (auto simp: domIff)
qed

lemma ncc_remove_parent_ok:
  fixes p :: token_id
  assumes ok: "ncc_ok_but Q nm"
  defines "nm' \<equiv> ncc_remove_parent p nm"
  shows "ncc_ok_but (Q - {p}) nm'" "results nm' = (results nm)(p := [])"
    "ncc_unblocked nm' = (ncc_unblocked nm)(p := None)"
    "ncc_block_order nm' = (ncc_block_order nm)(p := None)"
proof -
  have fold: "fold (\<lambda>r m. m(r := None)) rs m = (\<lambda>s. if s \<in> set rs then None else m s)" for rs and m :: "token_id \<rightharpoonup> token_id"
    by (induction rs arbitrary: m) (auto simp: fun_eq_iff)
  have fs: "result_count nm' = (result_count nm)(p := None)"
    "result_owner nm' = (\<lambda>s. if s \<in> set (results nm p) then None else result_owner nm s)"
    "parent_results nm' = (parent_results nm)(p := None)"
    "primary_result nm' = (primary_result nm)(p := None)"
    "ncc_block_order nm' = (ncc_block_order nm)(p := None)"
    "ncc_unblocked nm' = (ncc_unblocked nm)(p := None)"
    by (cases "parent_results nm p";
        simp add: nm'_def ncc_remove_parent_def Let_def fold results_def bucket_def fun_upd_idem)+
  show "ncc_unblocked nm' = (ncc_unblocked nm)(p := None)"
    "ncc_block_order nm' = (ncc_block_order nm)(p := None)" by (fact fs)+
  show res: "results nm' = (results nm)(p := [])" by (simp add: fun_eq_iff fs results_def)
  have own: "result_owner nm s = Some q \<Longrightarrow> s \<in> set (results nm p) \<longleftrightarrow> q = p" for s q
    by (simp add: ncc_okD(4) [OF ok])
  show "ncc_ok_but (Q - {p}) nm'"
    unfolding ncc_ok_but_def res
  proof (intro conjI allI impI)
    show "vec_pruned (parent_results nm')" "finite (dom (parent_results nm'))"
      using ncc_okD(1,2) [OF ok] by (simp_all add: fs)
    fix q
    show "distinct (((results nm)(p := [])) q)" using ncc_okD(3) [OF ok] by simp
    show "s \<in> set (((results nm)(p := [])) q) \<longleftrightarrow> result_owner nm' s = Some q" for s
      using own [of s q] by (auto simp: fs ncc_okD(4) [OF ok])
    show "result_count nm' q = (if ((results nm)(p := [])) q = [] then None
        else Some (length (((results nm)(p := [])) q)))"
      using ncc_okD(5) [OF ok] by (simp add: fs)
    assume q: "q \<notin> Q - {p}"
    show "primary_result nm' q = hd_opt (((results nm)(p := [])) q)"
      using q ncc_okD(6) [OF ok, of q] by (auto simp: fs hd_opt_def)
    show "q \<in> dom (ncc_block_order nm') \<longleftrightarrow> ((results nm)(p := [])) q \<noteq> []"
      using q ncc_okD(7) [OF ok, of q] by (auto simp: fs)
  qed
qed

section \<open>The life of a negated conjunction\<close>

text \<open>
  How the network drives the memory. \<open>Q\<close> holds the parents whose responsible result a cascade has
  removed and whose transition is still to be settled: while it is, other results may come and
  go. A result that blocks its parent first takes the parent's pass-through token away, and a
  parent gets one only while it has no results.
\<close>

inductive ncc_reach :: "token_id set \<Rightarrow> ncc_memory \<Rightarrow> bool" where
  ncc_start: "ncc_reach {} (ncc_memory_new i)"
| ncc_pass: "ncc_reach Q nm \<Longrightarrow> \<not> ncc_is_blocked nm p \<Longrightarrow> ncc_reach Q (ncc_set_unblocked p pt nm)"
| ncc_result: "ncc_reach Q nm \<Longrightarrow> result_owner nm r = None \<Longrightarrow> add_result p r order nm = ((old, new), nm') \<Longrightarrow>
    ncc_reach (if old = 0 then Q - {p} else Q) (if old = 0 \<and> new = 1 then snd (ncc_remove_unblocked p nm') else nm')"
| ncc_retract: "ncc_reach Q nm \<Longrightarrow> result_owner nm r = Some p \<Longrightarrow>
    ncc_reach (if primary_result nm p = Some r then insert p Q else Q) (snd (remove_result_support r nm))"
| ncc_settle: "ncc_reach Q nm \<Longrightarrow> ncc_reach (Q - {p}) (snd (reassign_primary p order nm))"
| ncc_remove: "ncc_reach {} nm \<Longrightarrow> ncc_reach {} (snd (remove_result r order nm))"
| ncc_drop: "ncc_reach Q nm \<Longrightarrow> ncc_reach (Q - {p}) (ncc_remove_parent p nm)"
| ncc_reset: "ncc_reach Q nm \<Longrightarrow> ncc_reach {} (ncc_clear nm)"

definition ncc_inv :: "token_id set \<Rightarrow> ncc_memory \<Rightarrow> bool" where
  "ncc_inv Q nm \<longleftrightarrow> ncc_ok_but Q nm \<and> (\<forall>p \<in> dom (ncc_unblocked nm). results nm p = [])"

lemma ncc_ok_unblocked [simp]: "ncc_ok_but Q (nm\<lparr>ncc_unblocked := x\<rparr>) = ncc_ok_but Q nm"
  "results (nm\<lparr>ncc_unblocked := x\<rparr>) = results nm"
proof -
  show r: "results (nm\<lparr>ncc_unblocked := x\<rparr>) = results nm" by (simp add: results_def fun_eq_iff)
  show "ncc_ok_but Q (nm\<lparr>ncc_unblocked := x\<rparr>) = ncc_ok_but Q nm" by (simp add: ncc_ok_but_def r)
qed

lemma remove_result_inv:
  assumes inv: "ncc_inv {} nm"
  shows "ncc_inv {} (snd (remove_result r order nm))"
proof (cases "result_owner nm r")
  case None
  then show ?thesis using inv by (simp add: remove_result_def remove_result_support_def)
next
  case (Some p)
  from inv have ok: "ncc_ok nm" and un: "\<forall>q \<in> dom (ncc_unblocked nm). results nm q = []"
    by (simp_all add: ncc_inv_def)
  let ?nm = "snd (remove_result_support r nm)"
  note rem = remove_support_result_ok [OF ok Some]
  have un': "\<forall>q \<in> dom (ncc_unblocked ?nm). results ?nm q = []" using un by (simp add: rem(2,6))
  have eq: "snd (remove_result r order nm) =
      (if primary_result nm p = Some r then snd (reassign_primary p order ?nm) else ?nm)"
    using rem(3,4) by (simp add: remove_result_def split_beta)
  show ?thesis
  proof (cases "primary_result nm p = Some r")
    case True
    from True rem(1) have "ncc_ok_but {p} ?nm" by simp
    from reassign_primary_ok(1,2,6) [OF this, of p order] True un' show ?thesis
      unfolding eq by (simp add: ncc_inv_def)
  next
    case False
    with rem(1) un' show ?thesis by (simp add: eq ncc_inv_def)
  qed
qed

lemma ncc_reach_inv: "ncc_reach Q nm \<Longrightarrow> ncc_inv Q nm"
proof (induction rule: ncc_reach.induct)
  case (ncc_start i)
  then show ?case by (simp add: ncc_inv_def) (simp add: ncc_memory_new_def)
next
  case (ncc_pass Q nm p pt)
  then have ok: "ncc_ok_but Q nm" by (simp add: ncc_inv_def)
  have "results nm p = []" using ncc_pass.hyps(2) by (simp add: ncc_is_blocked_def result_count_of_eq [OF ok])
  with ncc_pass show ?case by (simp add: ncc_inv_def ncc_set_unblocked_def)
next
  case (ncc_result Q nm r p order old new nm')
  then have ok: "ncc_ok_but Q nm" and un: "\<forall>p \<in> dom (ncc_unblocked nm). results nm p = []"
    by (simp_all add: ncc_inv_def)
  have nm': "nm' = snd (add_result p r order nm)" and on: "(old, new) = fst (add_result p r order nm)"
    using ncc_result.hyps(3) by simp_all
  note add = add_result_ok [OF ok ncc_result.hyps(2), of p order, folded nm' on]
  have old: "old = 0 \<longleftrightarrow> results nm p = []" "old = 0 \<Longrightarrow> new = 1" using add(3) by auto
  have un': "results nm' q = []" if "q \<in> dom (ncc_unblocked nm')" "old = 0 \<longrightarrow> q \<noteq> p" for q
    using that un old by (auto simp: add(2,5))
  show ?case
    using add(1) un' old by (auto simp: ncc_inv_def ncc_remove_unblocked_def)
next
  case (ncc_retract Q nm r p)
  then have ok: "ncc_ok_but Q nm" and un: "\<forall>p \<in> dom (ncc_unblocked nm). results nm p = []"
    by (simp_all add: ncc_inv_def)
  note rem = remove_support_result_ok [OF ok ncc_retract.hyps(2)]
  show ?case using rem(1) un by (simp add: ncc_inv_def rem(2,6))
next
  case (ncc_settle Q nm p order)
  then have ok: "ncc_ok_but Q nm" by (simp add: ncc_inv_def)
  from reassign_primary_ok(1,2,6) [OF ok, of p order] ncc_settle show ?case by (simp add: ncc_inv_def)
next
  case (ncc_remove nm r order)
  then show ?case by (intro remove_result_inv)
next
  case (ncc_drop Q nm p)
  then have ok: "ncc_ok_but Q nm" by (simp add: ncc_inv_def)
  from ncc_remove_parent_ok(1-3) [OF ok, of p] ncc_drop show ?case by (auto simp: ncc_inv_def)
next
  case (ncc_reset Q nm)
  then show ?case by (simp add: ncc_inv_def) (simp add: ncc_clear_def)
qed

lemma ncc_ok_consistent:
  assumes ok: "ncc_ok nm" and un: "\<forall>p \<in> dom (ncc_unblocked nm). results nm p = []"
  shows "ncc_consistent nm"
proof -
  have prim: "primary_result nm p = hd_opt (results nm p)" and ord: "p \<in> dom (ncc_block_order nm) \<longleftrightarrow> results nm p \<noteq> []"
    for p using ncc_okD(6,7) [OF ok] by simp_all
  note cnt = ncc_okD(5) [OF ok] and own = ncc_okD(4) [OF ok] and d = ncc_okD(3) [OF ok]
  have pr: "parent_results nm p = (if results nm p = [] then None else Some (results nm p))" for p
    using vec_pruned_None_iff [OF ncc_okD(1) [OF ok], of p]
    by (cases "parent_results nm p") (auto simp: results_def bucket_def)
  have doms: "dom (result_count nm) = {p. results nm p \<noteq> []}" "dom (parent_results nm) = {p. results nm p \<noteq> []}"
    "dom (primary_result nm) = {p. results nm p \<noteq> []}" "dom (ncc_block_order nm) = {p. results nm p \<noteq> []}"
    using ord by (auto simp: cnt pr prim dom_def hd_opt_def split: list.splits if_splits)
  have owned: "{r. result_owner nm r = Some p} = set (results nm p)" for p using own by auto
  show ?thesis
    unfolding ncc_consistent_def
  proof (intro conjI allI impI ballI)
    show "card (dom (result_count nm)) = card (dom (parent_results nm))"
      "card (dom (result_count nm)) = card (dom (primary_result nm))"
      "card (dom (result_count nm)) = card (dom (ncc_block_order nm))" by (simp_all only: doms)
    fix p n assume c: "result_count nm p = Some n"
    then have ne: "results nm p \<noteq> []" and n: "n = length (results nm p)" by (auto simp: cnt split: if_splits)
    then obtain r where r: "hd_opt (results nm p) = Some r" "r \<in> set (results nm p)"
      by (cases "results nm p") auto
    show "\<exists>rs r. parent_results nm p = Some rs \<and> length rs = n \<and> primary_result nm p = Some r \<and>
           r \<in> set rs \<and> hd_opt rs = Some r \<and> p \<in> dom (ncc_block_order nm) \<and>
           (\<forall>r \<in> set rs. result_owner nm r = Some p)"
      using ne n r own ord by (intro exI [of _ "results nm p"] exI [of _ r]) (auto simp: pr prim)
    show "0 < n" using ne n by simp
    show "card {r. result_owner nm r = Some p} = n"
      unfolding owned using d n by (simp add: distinct_card)
  next
    fix p assume "p \<in> dom (ncc_unblocked nm)"
    with un have "results nm p = []" by blast
    then show "p \<notin> dom (result_count nm)" by (simp add: doms)
  next
    fix r p assume "result_owner nm r = Some p"
    then have "r \<in> set (results nm p)" by (simp add: own)
    then show "p \<in> dom (result_count nm)" by (auto simp: doms)
  qed
qed


text \<open>
  Removing a result, when no transition is pending, answers nothing exactly for an unknown
  result; otherwise it answers the parent and how many results are left, keeps the other results
  in order with the oldest one responsible, and moves the parent in the chronology exactly when
  the responsible result was removed and another one survives.
\<close>

theorem remove_result_exact:
  assumes "ncc_reach {} nm"
  shows "case remove_result r order nm of
      (None, nm') \<Rightarrow> result_owner nm r = None \<and> nm' = nm
    | (Some (p, n), nm') \<Rightarrow> result_owner nm r = Some p \<and>
        results nm' = (results nm)(p := filter (\<lambda>s. s \<noteq> r) (results nm p)) \<and>
        n = length (results nm' p) \<and> primary_result nm' p = hd_opt (results nm' p) \<and>
        ncc_block_order nm' p =
          (if results nm' p = [] then None
           else if primary_result nm p = Some r then Some order else ncc_block_order nm p)"
proof (cases "result_owner nm r")
  case None
  then show ?thesis by (simp add: remove_result_def remove_result_support_def)
next
  case (Some p)
  have ok: "ncc_ok nm" using ncc_reach_inv [OF assms] by (simp add: ncc_inv_def)
  have ok': "ncc_ok (snd (remove_result r order nm))"
    using remove_result_inv [OF ncc_reach_inv [OF assms]] by (simp add: ncc_inv_def)
  let ?nm = "snd (remove_result_support r nm)"
  note rem = remove_support_result_ok [OF ok Some]
  have eq: "remove_result r order nm = (Some (p, length (filter (\<lambda>s. s \<noteq> r) (results nm p))),
      if primary_result nm p = Some r then snd (reassign_primary p order ?nm) else ?nm)"
    using rem(3,4) by (simp add: remove_result_def split_beta)
  let ?nm' = "snd (remove_result r order nm)"
  have okQ: "ncc_ok_but (if primary_result nm p = Some r then insert p {} else {}) ?nm" by (rule rem(1))
  have res: "results ?nm' = (results nm)(p := filter (\<lambda>s. s \<noteq> r) (results nm p))"
    using reassign_primary_ok(2) [OF okQ, of p order] by (simp add: eq rem(2))
  have ord: "ncc_block_order ?nm' p = (if results ?nm' p = [] then None
      else if primary_result nm p = Some r then Some order else ncc_block_order nm p)"
  proof (cases "primary_result nm p = Some r")
    case True
    then show ?thesis using reassign_primary_ok(2,5) [OF okQ, of p order] by (simp add: eq rem(2))
  next
    case False
    have "p \<in> dom (ncc_block_order ?nm') \<longleftrightarrow> results ?nm' p \<noteq> []" using ncc_okD(7) [OF ok'] by simp
    with False show ?thesis by (auto simp: eq rem(5) domIff)
  qed
  have "primary_result ?nm' p = hd_opt (results ?nm' p)" using ncc_okD(6) [OF ok'] by simp
  moreover obtain nm' where "remove_result r order nm = (Some (p, length (filter (\<lambda>s. s \<noteq> r) (results nm p))), nm')"
    using eq by blast
  ultimately show ?thesis using res ord Some by simp
qed

text \<open>Two results of one parent.\<close>

definition sample_ncc :: ncc_memory where
  "sample_ncc = snd (add_result (TokenId 1) (TokenId 8) 4 (snd (add_result (TokenId 1) (TokenId 7) 3 (ncc_memory_new 0))))"

lemmas sample_ncc_defs = sample_ncc_def ncc_memory_new_def add_result_def increment_results_def
  result_count_of_def ls_insert_def Let_def

lemma sample_ncc_reach: "ncc_reach {} sample_ncc"
proof -
  let ?nm = "ncc_memory_new 0" and ?p = "TokenId 1"
  obtain o1 n1 m1 where a1: "add_result ?p (TokenId 7) 3 ?nm = ((o1, n1), m1)" by (metis prod.collapse)
  obtain o2 n2 m2 where a2: "add_result ?p (TokenId 8) 4 m1 = ((o2, n2), m2)" by (metis prod.collapse)
  have m1: "m1 = snd (add_result ?p (TokenId 7) 3 ?nm)" and m2: "m2 = sample_ncc"
    using a1 a2 by (simp_all add: sample_ncc_def)
  have u: "snd (ncc_remove_unblocked ?p m1) = m1" "o1 = 0" "o2 = 1"
    using a1 a2 by (auto simp: ncc_remove_unblocked_def sample_ncc_defs)
  have f: "result_owner ?nm (TokenId 7) = None" by (simp add: sample_ncc_defs)
  from ncc_result [OF ncc_start f a1] u have r1: "ncc_reach {} m1" by (simp split: if_splits)
  have f: "result_owner m1 (TokenId 8) = None" by (simp add: m1 sample_ncc_defs)
  from ncc_result [OF r1 f a2] u m2 show ?thesis by simp
qed


theorem remove_result_exact_witness:
  "case remove_result (TokenId 7) 9 sample_ncc of
     (res, nm') \<Rightarrow> res = Some (TokenId 1, 1) \<and> primary_result nm' (TokenId 1) = Some (TokenId 8) \<and>
       ncc_block_order nm' (TokenId 1) = Some 9"
proof -
  have own: "result_owner sample_ncc (TokenId 7) = Some (TokenId 1)"
    and res: "results sample_ncc (TokenId 1) = [TokenId 7, TokenId 8]"
    and pri: "primary_result sample_ncc (TokenId 1) = Some (TokenId 7)"
    by (simp_all add: sample_ncc_defs results_def bucket_def)
  obtain x nm' where rr: "remove_result (TokenId 7) 9 sample_ncc = (x, nm')" by force
  note exact = remove_result_exact [OF sample_ncc_reach, of "TokenId 7" 9, unfolded rr prod.case]
  show ?thesis
  proof (cases x)
    case None
    with exact own show ?thesis by simp
  next
    case (Some pn)
    obtain p n where "pn = (p, n)" by (cases pn)
    with Some exact own res pri rr show ?thesis by (auto simp: hd_opt_def)
  qed
qed

end
