(* ===== verification/Block_Orders.thy ===== *)
theory Block_Orders
  imports Negative_Memory Ncc_Memory
begin

text \<open>
  The chronology of blocks in \<open>rete.rs\<close>: every blocked parent of a negative or negated-conjunction
  memory, and every reservation of a pending batch, holds a number of one network-wide sequence.
  The loop through mutable references is a loop over the cells that hold the numbers; their
  walking order is an argument.
\<close>

section \<open>State and operations\<close>

type_synonym reservation = "node_id \<times> token_id"

record ncc_batch =
  reserved_orders :: "reservation \<rightharpoonup> u64"
  suspended_reserved :: "(reservation \<rightharpoonup> u64) list"

record block_state =
  neg_memories :: "negative_memory list"
  ncc_memories :: "ncc_memory list"
  pending_batch :: "ncc_batch option"
  next_block_order :: u64

datatype order_cell =
    NegCell nat token_id
  | NccCell nat token_id
  | ReservedCell reservation
  | SuspendedCell nat reservation

fun order_at :: "block_state \<Rightarrow> order_cell \<Rightarrow> u64 option" where
  "order_at bs (NegCell m p) = (if m < length (neg_memories bs) then block_order (neg_memories bs ! m) p else None)"
| "order_at bs (NccCell m p) = (if m < length (ncc_memories bs) then ncc_block_order (ncc_memories bs ! m) p else None)"
| "order_at bs (ReservedCell k) = (case pending_batch bs of None \<Rightarrow> None | Some b \<Rightarrow> reserved_orders b k)"
| "order_at bs (SuspendedCell j k) =
     (case pending_batch bs of
        None \<Rightarrow> None
      | Some b \<Rightarrow> if j < length (suspended_reserved b) then (suspended_reserved b ! j) k else None)"

text \<open>Writing through the reference to a cell.\<close>

fun set_order :: "order_cell \<Rightarrow> u64 \<Rightarrow> block_state \<Rightarrow> block_state" where
  "set_order (NegCell m p) n bs = bs\<lparr>neg_memories := (neg_memories bs)
     [m := (neg_memories bs ! m)\<lparr>block_order := (block_order (neg_memories bs ! m))(p \<mapsto> n)\<rparr>]\<rparr>"
| "set_order (NccCell m p) n bs = bs\<lparr>ncc_memories := (ncc_memories bs)
     [m := (ncc_memories bs ! m)\<lparr>ncc_block_order := (ncc_block_order (ncc_memories bs ! m))(p \<mapsto> n)\<rparr>]\<rparr>"
| "set_order (ReservedCell k) n bs = bs\<lparr>pending_batch :=
     map_option (\<lambda>b. b\<lparr>reserved_orders := (reserved_orders b)(k \<mapsto> n)\<rparr>) (pending_batch bs)\<rparr>"
| "set_order (SuspendedCell j k) n bs = bs\<lparr>pending_batch :=
     map_option (\<lambda>b. b\<lparr>suspended_reserved := (suspended_reserved b)
       [j := (suspended_reserved b ! j)(k \<mapsto> n)]\<rparr>) (pending_batch bs)\<rparr>"

definition order_cells :: "block_state \<Rightarrow> order_cell set" where
  "order_cells bs = dom (order_at bs)"

definition write_orders :: "nat \<Rightarrow> order_cell list \<Rightarrow> block_state \<Rightarrow> block_state" where
  "write_orders n orders bs = fold (\<lambda>(index, c). set_order c (word_of_nat index)) (enumerate n orders) bs"

text \<open>\<open>None\<close> is the panic of \<open>checked_add(1).expect(..)\<close>.\<close>

definition allocate_block_order :: "order_cell list \<Rightarrow> block_state \<Rightarrow> (u64 \<times> block_state) option" where
  "allocate_block_order walk bs =
     (let bs = (if next_block_order bs = u64_max
                then (let orders = sort_key (\<lambda>c. the (order_at bs c)) walk;
                          bs = write_orders 0 orders bs
                      in bs\<lparr>next_block_order := word_of_nat (length orders)\<rparr>)
                else bs);
          order = next_block_order bs
      in map_option (\<lambda>next. (order, bs\<lparr>next_block_order := next\<rparr>)) (checked_add_u order 1))"

text \<open>The check on restoring a snapshot, when no batch is pending; the messages are left out.\<close>

definition installed_cells :: "block_state \<Rightarrow> order_cell set" where
  "installed_cells bs = {c \<in> order_cells bs. case c of NegCell _ _ \<Rightarrow> True | NccCell _ _ \<Rightarrow> True | _ \<Rightarrow> False}"

definition validate_block_orders :: "block_state \<Rightarrow> bool" where
  "validate_block_orders bs \<longleftrightarrow>
     (\<forall>c \<in> installed_cells bs. the (order_at bs c) < next_block_order bs) \<and>
     inj_on (\<lambda>c. the (order_at bs c)) (installed_cells bs)"

section \<open>Renumbering\<close>

lemma order_at_set:
  assumes "order_at bs c \<noteq> None"
  shows "order_at (set_order c n bs) d = (if d = c then Some n else order_at bs d)"
  using assms
  by (cases c; cases d) (auto simp: nth_list_update split: option.splits if_splits)

lemma order_at_next [simp]: "order_at (bs\<lparr>next_block_order := n\<rparr>) = order_at bs"
proof
  show "order_at (bs\<lparr>next_block_order := n\<rparr>) c = order_at bs c" for c
    by (cases c) (auto split: option.split)
qed

lemma next_set_order [simp]: "next_block_order (set_order c n bs) = next_block_order bs"
  by (cases c) simp_all

text \<open>What a state holds besides its orders.\<close>

definition same_frame :: "block_state \<Rightarrow> block_state \<Rightarrow> bool" where
  "same_frame bs bs' \<longleftrightarrow>
     map (\<lambda>nm. nm\<lparr>block_order := Map.empty\<rparr>) (neg_memories bs') = map (\<lambda>nm. nm\<lparr>block_order := Map.empty\<rparr>) (neg_memories bs) \<and>
     map (\<lambda>nm. nm\<lparr>ncc_block_order := Map.empty\<rparr>) (ncc_memories bs') =
       map (\<lambda>nm. nm\<lparr>ncc_block_order := Map.empty\<rparr>) (ncc_memories bs)"

lemma same_frame_refl [simp]: "same_frame bs bs"
  by (simp add: same_frame_def)

lemma same_frame_trans: "same_frame a b \<Longrightarrow> same_frame b c \<Longrightarrow> same_frame a c"
  by (simp add: same_frame_def)

lemma map_update_same: "f x = f (xs ! i) \<Longrightarrow> map f (xs[i := x]) = map f xs"
  by (cases "i < length xs") (simp_all add: map_update list_update_same_conv list_update_beyond)

lemma same_frame_set: "same_frame bs (set_order c n bs)"
  by (cases c) (simp_all add: same_frame_def map_update_same)

lemma set_orders_loop:
  assumes "distinct cs" "\<And>c. c \<in> set cs \<Longrightarrow> order_at bs c \<noteq> None"
  shows "(\<forall>k<length cs. order_at (write_orders n cs bs) (cs ! k) = Some (word_of_nat (n + k))) \<and>
    (\<forall>d. d \<notin> set cs \<longrightarrow> order_at (write_orders n cs bs) d = order_at bs d) \<and>
    next_block_order (write_orders n cs bs) = next_block_order bs \<and> same_frame bs (write_orders n cs bs)"
  using assms
proof (induction cs arbitrary: bs n)
  case (Cons c cs)
  let ?bs = "set_order c (word_of_nat n) bs"
  have at: "order_at ?bs e = (if e = c then Some (word_of_nat n) else order_at bs e)" for e
    using Cons.prems by (intro order_at_set) simp
  have pre: "distinct cs" "\<And>e. e \<in> set cs \<Longrightarrow> order_at ?bs e \<noteq> None"
    using Cons.prems by (auto simp: at)
  have step: "write_orders n (c # cs) bs = write_orders (Suc n) cs ?bs" by (simp add: write_orders_def)
  note IH = Cons.IH [OF pre, of "Suc n", folded step]
  have c: "c \<notin> set cs" using Cons.prems by simp
  have "order_at (write_orders n (c # cs) bs) ((c # cs) ! k) = Some (word_of_nat (n + k))"
    if "k < length (c # cs)" for k
    using that IH c by (cases k) (auto simp: at)
  moreover have "order_at (write_orders n (c # cs) bs) d = order_at bs d" if "d \<notin> set (c # cs)" for d
    using that IH by (simp add: at)
  ultimately show ?case using IH same_frame_trans [OF same_frame_set] by auto
qed (simp add: write_orders_def)

lemma set_orders:
  assumes "distinct cs" "\<And>c. c \<in> set cs \<Longrightarrow> order_at bs c \<noteq> None"
  shows "k < length cs \<Longrightarrow> order_at (write_orders n cs bs) (cs ! k) = Some (word_of_nat (n + k))"
    "d \<notin> set cs \<Longrightarrow> order_at (write_orders n cs bs) d = order_at bs d"
    "next_block_order (write_orders n cs bs) = next_block_order bs" "same_frame bs (write_orders n cs bs)"
  using set_orders_loop [OF assms] by blast+

section \<open>Allocation\<close>

text \<open>Every number is below the counter, no two cells hold the same one, and there is room.\<close>

definition orders_ok :: "block_state \<Rightarrow> bool" where
  "orders_ok bs \<longleftrightarrow> finite (order_cells bs) \<and>
     (\<forall>c n. order_at bs c = Some n \<longrightarrow> n < next_block_order bs) \<and>
     (\<forall>c d n. order_at bs c = Some n \<longrightarrow> order_at bs d = Some n \<longrightarrow> c = d)"

lemma orders_ok_validate: "orders_ok bs \<Longrightarrow> validate_block_orders bs"
  by (force simp: orders_ok_def validate_block_orders_def installed_cells_def order_cells_def inj_on_def)

lemma rebase_orders:
  assumes ok: "orders_ok bs" and walk: "enumerates walk (order_cells bs)"
    and room: "card (order_cells bs) < 2 ^ 64"
  defines "cs \<equiv> sort_key (\<lambda>c. the (order_at bs c)) walk"
  shows "order_at bs c = Some n \<Longrightarrow> \<exists>k<length cs. order_at (write_orders 0 cs bs) c = Some (word_of_nat k)"
    "order_at bs c = None \<Longrightarrow> order_at (write_orders 0 cs bs) c = None"
    "order_at bs c = Some n \<Longrightarrow> order_at bs d = Some m \<Longrightarrow>
       the (order_at (write_orders 0 cs bs) c) < the (order_at (write_orders 0 cs bs) d) \<longleftrightarrow> n < m"
    "length cs = card (order_cells bs)" "same_frame bs (write_orders 0 cs bs)"
proof -
  have cs: "distinct cs" "set cs = order_cells bs" "length cs = card (order_cells bs)"
    using walk by (auto simp: cs_def dest: enumerates_length)
  have live: "\<And>c. c \<in> set cs \<Longrightarrow> order_at bs c \<noteq> None" by (auto simp: cs(2) order_cells_def)
  have "inj_on (\<lambda>c. the (order_at bs c)) (set walk)"
    using ok walk by (auto simp: inj_on_def orders_ok_def order_cells_def enumerates_def)
  then have sorted: "sorted_wrt (\<lambda>c d. the (order_at bs c) < the (order_at bs d)) cs"
    using walk by (auto simp: cs_def intro!: sort_key_strict)
  note set = set_orders [OF cs(1) live, where n = 0]
  have pos: "\<exists>k<length cs. c = cs ! k \<and> order_at (write_orders 0 cs bs) c = Some (word_of_nat k)"
    if "order_at bs c = Some n" for c n
  proof -
    have "c \<in> set cs" using that by (auto simp: cs(2) order_cells_def)
    then obtain k where "k < length cs" "c = cs ! k" by (auto simp: in_set_conv_nth)
    with set(1) [of k] show ?thesis by auto
  qed
  show "\<exists>k<length cs. order_at (write_orders 0 cs bs) c = Some (word_of_nat k)" if "order_at bs c = Some n"
    using pos [OF that] by blast
  show "order_at (write_orders 0 cs bs) c = None" if "order_at bs c = None"
  proof -
    have "c \<notin> set cs" using that live by blast
    with set(2) that show ?thesis by simp
  qed
  show "the (order_at (write_orders 0 cs bs) c) < the (order_at (write_orders 0 cs bs) d) \<longleftrightarrow> n < m"
    if n: "order_at bs c = Some n" and m: "order_at bs d = Some m"
  proof -
    from pos [OF n] obtain k where k: "k < length cs" "c = cs ! k"
      "order_at (write_orders 0 cs bs) c = Some (word_of_nat k)" by blast
    from pos [OF m] obtain l where l: "l < length cs" "d = cs ! l"
      "order_at (write_orders 0 cs bs) d = Some (word_of_nat l)" by blast
    have mono: "the (order_at bs (cs ! i)) < the (order_at bs (cs ! j))" if "i < j" "j < length cs" for i j
      using sorted that by (auto simp: sorted_wrt_iff_nth_less)
    have "k < l \<longleftrightarrow> n < m"
      using mono [of k l] mono [of l k] k(1,2) l(1,2) n m by (cases k l rule: linorder_cases) auto
    moreover have "unat (word_of_nat i :: u64) = i" if "i < length cs" for i
      using that room cs(3) by (intro unat_pool_id) simp
    ultimately show ?thesis using k l by (simp add: word_less_nat_alt)
  qed
  show "length cs = card (order_cells bs)" "same_frame bs (write_orders 0 cs bs)"
    using cs(3) set(4) by simp_all
qed

lemma allocate_ok:
  assumes ok: "orders_ok bs" and walk: "enumerates walk (order_cells bs)"
    and room: "card (order_cells bs) < 2 ^ 64 - 1"
  obtains n bs' where "allocate_block_order walk bs = Some (n, bs')" "next_block_order bs' = n + 1"
    "n \<noteq> u64_max" "\<And>c m. order_at bs' c = Some m \<Longrightarrow> m < n" "order_cells bs' = order_cells bs"
    "\<And>c d. c \<in> order_cells bs \<Longrightarrow> d \<in> order_cells bs \<Longrightarrow>
       the (order_at bs' c) < the (order_at bs' d) \<longleftrightarrow> the (order_at bs c) < the (order_at bs d)"
    "same_frame bs bs'" "orders_ok bs'"
proof -
  define cs where "cs = sort_key (\<lambda>c. the (order_at bs c)) walk"
  define bs1 where "bs1 = (if next_block_order bs = u64_max
      then (write_orders 0 cs bs)\<lparr>next_block_order := word_of_nat (length cs)\<rparr> else bs)"
  have room': "card (order_cells bs) < 2 ^ 64" using room by simp
  note reb = rebase_orders [OF ok walk room', folded cs_def]
  have un: "unat (word_of_nat k :: u64) = k" if "k \<le> length cs" for k
    using that room reb(4) by (intro unat_pool_id) simp
  have less: "m < next_block_order bs1" if "order_at bs1 c = Some m" for c m
  proof (cases "next_block_order bs = u64_max")
    case True
    with that have m: "order_at (write_orders 0 cs bs) c = Some m" by (simp add: bs1_def)
    obtain n where "order_at bs c = Some n" using reb(2) [of c] m by (cases "order_at bs c") auto
    from reb(1) [OF this] m obtain k where "k < length cs" "m = word_of_nat k" by auto
    with True un [of k] un [of "length cs"] show ?thesis by (simp add: bs1_def word_less_nat_alt)
  next
    case False
    with that ok show ?thesis by (simp add: bs1_def orders_ok_def)
  qed
  have next1: "next_block_order bs1 \<noteq> u64_max"
  proof
    assume max: "next_block_order bs1 = u64_max"
    then have "unat (u64_max :: u64) = length cs"
      using un [of "length cs"] by (auto simp: bs1_def split: if_splits)
    with room reb(4) show False by simp
  qed
  have cells: "order_cells bs1 = order_cells bs"
  proof -
    have "order_at bs1 c = None \<longleftrightarrow> order_at bs c = None" for c
      using reb(1) [of c] reb(2) [of c] by (cases "order_at bs c") (auto simp: bs1_def)
    then show ?thesis unfolding order_cells_def dom_def by simp
  qed
  have mono: "the (order_at bs1 c) < the (order_at bs1 d) \<longleftrightarrow> the (order_at bs c) < the (order_at bs d)"
    if "c \<in> order_cells bs" "d \<in> order_cells bs" for c d
  proof -
    from that obtain n m where "order_at bs c = Some n" "order_at bs d = Some m" by (auto simp: order_cells_def)
    from reb(3) [OF this] this show ?thesis by (simp add: bs1_def)
  qed
  have frame: "same_frame bs bs1" using reb(5) by (simp add: bs1_def same_frame_def)
  let ?n = "next_block_order bs1" and ?bs = "bs1\<lparr>next_block_order := next_block_order bs1 + 1\<rparr>"
  have "checked_add_u ?n 1 = Some (?n + 1)"
    using checked_add_u64_1_None_iff [of ?n] next1 by (auto simp: checked_add_u_def split: if_splits)
  then have eq: "allocate_block_order walk bs = Some (?n, ?bs)"
    unfolding allocate_block_order_def Let_def cs_def [symmetric] bs1_def [symmetric] by simp
  have inj: "c = d" if "order_at bs1 c = Some m" "order_at bs1 d = Some m" for c d m
  proof -
    have "c \<in> order_cells bs1" "d \<in> order_cells bs1" using that by (simp_all add: order_cells_def domI)
    then have "c \<in> order_cells bs" "d \<in> order_cells bs" by (simp_all only: cells)
    moreover from this obtain x y where "order_at bs c = Some x" "order_at bs d = Some y"
      by (auto simp: order_cells_def)
    moreover from this mono [of c d] mono [of d c] that calculation have "x = y"
      by (metis less_irrefl not_less_iff_gr_or_eq option.sel)
    ultimately show ?thesis using ok by (simp add: orders_ok_def)
  qed
  have fin: "finite (order_cells bs)" using ok by (simp add: orders_ok_def)
  have ok': "orders_ok ?bs"
    unfolding orders_ok_def
  proof (intro conjI allI impI)
    show "finite (order_cells ?bs)" using fin cells by (simp add: order_cells_def)
    show "m < next_block_order ?bs" if "order_at ?bs c = Some m" for c m
      using less [of c m] that next1 by (simp add: less_Suc_u64)
    show "c = d" if "order_at ?bs c = Some m" "order_at ?bs d = Some m" for c d m
      using inj that by simp
  qed
  show thesis
    by (rule that [OF eq]) (use less cells mono frame next1 ok' in \<open>simp_all add: order_cells_def same_frame_def\<close>)
qed

text \<open>
  C28: Allocating a block order never fails while fewer than 2^64 - 1 parents are blocked or
  reserved, also when the counter has run out and all orders are renumbered; the number returned
  is greater than every one in use, all blocks keep their relative order, nothing but the orders
  changes, and orders stay pairwise different and below the counter, as the snapshot check asks.
\<close>

theorem allocate_block_order_fresh:
  assumes "orders_ok bs" and "enumerates walk (order_cells bs)" and "card (order_cells bs) < 2 ^ 64 - 1"
  shows "\<exists>n bs'. allocate_block_order walk bs = Some (n, bs') \<and>
    (\<forall>c m. order_at bs' c = Some m \<longrightarrow> m < n) \<and> order_cells bs' = order_cells bs \<and>
    (\<forall>c \<in> order_cells bs. \<forall>d \<in> order_cells bs.
       the (order_at bs' c) < the (order_at bs' d) \<longleftrightarrow> the (order_at bs c) < the (order_at bs d)) \<and>
    same_frame bs bs' \<and> orders_ok bs' \<and> validate_block_orders bs'"
  by (rule allocate_ok [OF assms]) (use orders_ok_validate in blast)

text \<open>An exhausted counter over one blocked parent of each kind.\<close>

definition sample_blocks :: block_state where
  "sample_blocks = \<lparr>neg_memories = [add_blocker (TokenId 1) (FactId 1) (u64_max - 1) (negative_memory_new 0)],
     ncc_memories = [snd (add_result (TokenId 2) (TokenId 3) (u64_max - 3) (ncc_memory_new 0))],
     pending_batch = None, next_block_order = u64_max\<rparr>"

lemma sample_blocks_at:
  "order_at sample_blocks c = (if c = NegCell 0 (TokenId 1) then Some (u64_max - 1)
     else if c = NccCell 0 (TokenId 2) then Some (u64_max - 3) else None)"
  by (cases c) (auto simp: sample_blocks_def add_blocker_def negative_memory_new_def add_result_def
      ncc_memory_new_def increment_results_def result_count_of_def Let_def)

theorem allocate_block_order_fresh_witness:
  "\<exists>n bs'. allocate_block_order [NegCell 0 (TokenId 1), NccCell 0 (TokenId 2)] sample_blocks = Some (n, bs') \<and>
     the (order_at bs' (NccCell 0 (TokenId 2))) < the (order_at bs' (NegCell 0 (TokenId 1)))"
proof -
  have cells: "order_cells sample_blocks = {NegCell 0 (TokenId 1), NccCell 0 (TokenId 2)}"
    unfolding order_cells_def dom_def sample_blocks_at by auto
  have a: "orders_ok sample_blocks"
    unfolding orders_ok_def cells sample_blocks_at
    by (auto simp: sample_blocks_def u64_max_code split: if_splits)
  have b: "enumerates [NegCell 0 (TokenId 1), NccCell 0 (TokenId 2)] (order_cells sample_blocks)"
    by (simp add: cells enumerates_def)
  have c: "card (order_cells sample_blocks) < 2 ^ 64 - 1" by (simp add: cells)
  obtain n bs' where "allocate_block_order [NegCell 0 (TokenId 1), NccCell 0 (TokenId 2)] sample_blocks = Some (n, bs')"
    "\<forall>c \<in> order_cells sample_blocks. \<forall>d \<in> order_cells sample_blocks.
       the (order_at bs' c) < the (order_at bs' d) \<longleftrightarrow>
       the (order_at sample_blocks c) < the (order_at sample_blocks d)"
    using allocate_block_order_fresh [OF a b c] by auto
  moreover have "the (order_at sample_blocks (NccCell 0 (TokenId 2))) < the (order_at sample_blocks (NegCell 0 (TokenId 1)))"
    by (simp add: sample_blocks_at u64_max_code del: order_at.simps)
  ultimately show ?thesis by (simp add: cells)
qed

end
