(* ===== verification/Floats.thy ===== *)
theory Floats
  imports Values
begin

text \<open>
  The operations on \<open>f64\<close> the matcher uses, on bit patterns: conversion from \<open>i64\<close>, addition and
  partial comparison, in IEEE 754 double precision with rounding to nearest even. Magnitudes are
  exact integers in units of 2^-1074, the least positive double.
\<close>

section \<open>Reading a bit pattern\<close>

definition f64_sign :: "f64 \<Rightarrow> bool" where
  "f64_sign b \<longleftrightarrow> 2 ^ 63 \<le> unat b"

definition f64_exp :: "f64 \<Rightarrow> nat" where
  "f64_exp b = unat b mod 2 ^ 63 div 2 ^ 52"

definition f64_frac :: "f64 \<Rightarrow> nat" where
  "f64_frac b = unat b mod 2 ^ 52"

definition f64_nan :: "f64 \<Rightarrow> bool" where
  "f64_nan b \<longleftrightarrow> f64_exp b = 2047 \<and> f64_frac b \<noteq> 0"

definition f64_inf :: "f64 \<Rightarrow> bool" where
  "f64_inf b \<longleftrightarrow> f64_exp b = 2047 \<and> f64_frac b = 0"

text \<open>An infinity reads as the magnitude after the greatest finite one.\<close>

definition f64_mag :: "f64 \<Rightarrow> nat" where
  "f64_mag b = (if f64_exp b = 0 then f64_frac b else (2 ^ 52 + f64_frac b) * 2 ^ (f64_exp b - 1))"

definition f64_scaled :: "f64 \<Rightarrow> int" where
  "f64_scaled b = (if f64_sign b then - int (f64_mag b) else int (f64_mag b))"

section \<open>Rounding\<close>

fun bit_length :: "nat \<Rightarrow> nat" where
  "bit_length n = (if n = 0 then 0 else Suc (bit_length (n div 2)))"

declare bit_length.simps [simp del]

text \<open>
  Keeping 53 bits: the exponent field is the number of bits dropped, the leading bit is added to
  it, and a carry out of the fraction moves the exponent on. Beyond the range comes infinity.
\<close>

definition round_bits :: "nat \<Rightarrow> nat" where
  "round_bits n =
     (let k = bit_length n - 53;
          q = n div 2 ^ k;
          r = n mod 2 ^ k;
          up = (2 ^ k < 2 * r \<or> 2 ^ k = 2 * r \<and> odd q)
      in min (2047 * 2 ^ 52) (k * 2 ^ 52 + q + (if up then 1 else 0)))"

definition f64_pack :: "bool \<Rightarrow> nat \<Rightarrow> f64" where
  "f64_pack s n = word_of_nat (round_bits n + (if s then 2 ^ 63 else 0))"

section \<open>Operations\<close>

definition f64_of_i64 :: "i64 \<Rightarrow> f64" where
  "f64_of_i64 i = f64_pack (sint i < 0) (nat \<bar>sint i\<bar> * 2 ^ 1074)"

definition f64_quiet_nan :: f64 where
  "f64_quiet_nan = 0x7FF8000000000000"

definition f64_add :: "f64 \<Rightarrow> f64 \<Rightarrow> f64" where
  "f64_add a b =
     (if f64_nan a \<or> f64_nan b then f64_quiet_nan
      else if f64_inf a then (if f64_inf b \<and> f64_sign a \<noteq> f64_sign b then f64_quiet_nan else a)
      else if f64_inf b then b
      else (let s = f64_scaled a + f64_scaled b
            in if s = 0 then f64_pack (f64_sign a \<and> f64_sign b) 0 else f64_pack (s < 0) (nat \<bar>s\<bar>)))"

definition f64_partial_cmp :: "f64 \<Rightarrow> f64 \<Rightarrow> rust_ordering option" where
  "f64_partial_cmp a b = (if f64_nan a \<or> f64_nan b then None else Some (cmp_of (f64_scaled a) (f64_scaled b)))"

section \<open>Rounding is exact on doubles\<close>

lemma bit_length_bounds: "0 < n \<Longrightarrow> 2 ^ (bit_length n - 1) \<le> n \<and> n < 2 ^ bit_length n \<and> 0 < bit_length n"
proof (induction n rule: bit_length.induct)
  case (1 n)
  have len: "bit_length n = Suc (bit_length (n div 2))" using "1.prems" by (subst bit_length.simps) simp
  show ?case
  proof (cases "n div 2 = 0")
    case True
    then have "n = 1" "bit_length (n div 2) = 0" using "1.prems" by (auto simp: bit_length.simps)
    then show ?thesis using len by simp
  next
    case False
    then have IH: "2 ^ (bit_length (n div 2) - 1) \<le> n div 2" "n div 2 < 2 ^ bit_length (n div 2)"
      "0 < bit_length (n div 2)" using 1 by simp_all
    then have "2 * 2 ^ (bit_length (n div 2) - 1) = (2 ^ bit_length (n div 2) :: nat)"
      by (simp add: power_eq_if)
    with IH len show ?thesis by simp linarith
  qed
qed

lemma bit_length_unique: "2 ^ l \<le> n \<Longrightarrow> n < 2 ^ Suc l \<Longrightarrow> bit_length n = Suc l"
proof -
  assume l: "2 ^ l \<le> n" "n < 2 ^ Suc l"
  have "0 < n" using l(1) by (metis less_le_trans zero_less_power zero_less_numeral)
  note b = bit_length_bounds [OF this]
  have "(2::nat) ^ l < 2 ^ bit_length n" "(2::nat) ^ (bit_length n - 1) < 2 ^ Suc l"
    using l b by linarith+
  then have "l < bit_length n" "bit_length n - 1 < Suc l"
    by (auto dest!: power_less_imp_less_exp [rotated] simp del: power_Suc)
  with b show ?thesis by linarith
qed

lemma round_bits_small: "n < 2 ^ 53 \<Longrightarrow> round_bits n = n"
proof -
  assume n: "n < 2 ^ 53"
  have "bit_length n \<le> 53"
  proof (cases "n = 0")
    case False
    then have "(2::nat) ^ (bit_length n - 1) < 2 ^ 53" "0 < bit_length n"
      using bit_length_bounds [of n] n by linarith+
    then show ?thesis by (metis Suc_diff_1 Suc_leI one_less_numeral_iff power_strict_increasing_iff semiring_norm(76))
  qed (simp add: bit_length.simps)
  with n show ?thesis by (simp add: round_bits_def)
qed

text \<open>A double is recovered from its sign and magnitude: rounding changes only what is not one.\<close>

lemma f64_parts:
  "unat b = (if f64_sign b then 2 ^ 63 else 0) + f64_exp b * 2 ^ 52 + f64_frac b"
  "f64_frac b < 2 ^ 52" "f64_exp b < 2 ^ 11"
proof -
  have u: "unat b < 2 ^ 64" by (rule unat_u64_less)
  have "unat b mod 2 ^ 63 mod 2 ^ 52 = unat b mod 2 ^ 52" by (simp add: mod_mod_cancel)
  then have low: "unat b mod 2 ^ 63 = f64_exp b * 2 ^ 52 + f64_frac b"
    unfolding f64_exp_def f64_frac_def by (metis div_mult_mod_eq)
  have hi: "unat b div 2 ^ 63 = (if f64_sign b then 1 else 0)"
  proof (cases "f64_sign b")
    case True
    then have "1 \<le> unat b div 2 ^ 63" "unat b div 2 ^ 63 < 2"
      using u by (auto simp: f64_sign_def less_mult_imp_div_less)
    with True show ?thesis by simp
  qed (simp add: f64_sign_def)
  have "unat b = (if f64_sign b then 1 else 0) * 2 ^ 63 + (f64_exp b * 2 ^ 52 + f64_frac b)"
    unfolding hi [symmetric] low [symmetric] by (simp only: div_mult_mod_eq)
  then show "unat b = (if f64_sign b then 2 ^ 63 else 0) + f64_exp b * 2 ^ 52 + f64_frac b"
    by (simp split: if_splits)
  show "f64_frac b < 2 ^ 52" by (simp add: f64_frac_def)
  show "f64_exp b < 2 ^ 11" unfolding f64_exp_def by (simp add: less_mult_imp_div_less)
qed

lemma round_bits_mag:
  assumes "f64_exp b < 2047"
  shows "round_bits (f64_mag b) = f64_exp b * 2 ^ 52 + f64_frac b"
proof -
  let ?e = "f64_exp b" and ?f = "f64_frac b"
  note f = f64_parts(2) [of b]
  consider "?e = 0" | "?e = 1" | "2 \<le> ?e" by linarith
  then show ?thesis
  proof cases
    case 3
    let ?m = "2 ^ 52 + ?f" and ?k = "?e - 1"
    have mag: "f64_mag b = ?m * 2 ^ ?k" using 3 by (simp add: f64_mag_def)
    have "2 ^ (52 + ?k) \<le> ?m * 2 ^ ?k" by (simp add: power_add)
    moreover have "?m * 2 ^ ?k < 2 ^ Suc (52 + ?k)"
    proof -
      have "?m * 2 ^ ?k < 2 ^ 53 * 2 ^ ?k" using f by simp
      also have "\<dots> = 2 ^ Suc (52 + ?k)" by (simp add: power_add)
      finally show ?thesis .
    qed
    ultimately have len: "bit_length (?m * 2 ^ ?k) = Suc (52 + ?k)" by (rule bit_length_unique)
    have "Suc (52 + ?k) - 53 = ?k" by simp
    then have "round_bits (?m * 2 ^ ?k) = min (2047 * 2 ^ 52) (?k * 2 ^ 52 + ?m)"
      unfolding round_bits_def len by (simp add: Let_def)
    also have "?k * 2 ^ 52 + ?m = ?e * 2 ^ 52 + ?f" using 3 by (cases ?e) simp_all
    also have "min (2047 * 2 ^ 52) (?e * 2 ^ 52 + ?f) = ?e * 2 ^ 52 + ?f"
      using assms f by simp
    finally show ?thesis by (simp only: mag)
  qed (use f in \<open>simp_all add: f64_mag_def round_bits_small\<close>)
qed

lemma f64_pack_mag: "f64_exp b < 2047 \<Longrightarrow> f64_pack (f64_sign b) (f64_mag b) = b"
proof -
  assume "f64_exp b < 2047"
  then have "round_bits (f64_mag b) + (if f64_sign b then 2 ^ 63 else 0) = unat b"
    using f64_parts(1) [of b] round_bits_mag [of b] by simp
  then show ?thesis by (simp add: f64_pack_def)
qed

text \<open>Comparison of numbers is total except for NaN, and mirrors.\<close>

lemma f64_partial_cmp_swap: "f64_partial_cmp b a = map_option reverse_ord (f64_partial_cmp a b)"
  by (simp add: f64_partial_cmp_def cmp_of_def)

end
