(* ===== verification/Facts.thy ===== *)
theory Facts
  imports Values Tree_Map
begin

text \<open>
  \<open>fact.rs\<close>: facts, the structural fingerprint, the symbol-indexed map and the fact base with its
  indexes by template, by relation, by fingerprint and by assertion order. \<open>FxHasher\<close> is the
  parameter \<open>finish\<close>, which turns the stream of writes into a 64-bit hash. The fact-id that the
  slot map returns for an insertion is the argument \<open>i\<close>; where the code walks the slot map or a
  hash set, the order of the walk is an argument too.
\<close>

section \<open>Symbol maps\<close>

record 'a symbol_map =
  sm_ascii :: "'a option list"
  sm_utf8 :: "'a option list"

definition symbol_map_new :: "'a symbol_map" where
  "symbol_map_new = \<lparr>sm_ascii = [], sm_utf8 = []\<rparr>"

text \<open>The slot of a key, \<open>None\<close> when the vector is too short.\<close>

fun sm_slot :: "'a symbol_map \<Rightarrow> symbol \<Rightarrow> 'a option option" where
  "sm_slot m (Symbol (AsciiId i)) =
     (if unat i < length (sm_ascii m) then Some (sm_ascii m ! unat i) else None)"
| "sm_slot m (Symbol (Utf8Id i)) =
     (if unat i < length (sm_utf8 m) then Some (sm_utf8 m ! unat i) else None)"

definition sm_get :: "'a symbol_map \<Rightarrow> symbol \<Rightarrow> 'a option" where
  "sm_get m k = Option.bind (sm_slot m k) (\<lambda>x. x)"

text \<open>\<open>resize_with (n, || None)\<close>, which never shortens here.\<close>

definition grow :: "nat \<Rightarrow> 'a option list \<Rightarrow> 'a option list" where
  "grow n xs = xs @ replicate (n - length xs) None"

fun sm_grow :: "symbol \<Rightarrow> 'a symbol_map \<Rightarrow> 'a symbol_map" where
  "sm_grow (Symbol (AsciiId i)) m =
     (if length (sm_ascii m) \<le> unat i then m\<lparr>sm_ascii := grow (unat i + 1) (sm_ascii m)\<rparr> else m)"
| "sm_grow (Symbol (Utf8Id i)) m =
     (if length (sm_utf8 m) \<le> unat i then m\<lparr>sm_utf8 := grow (unat i + 1) (sm_utf8 m)\<rparr> else m)"

text \<open>Writing through a slot reference; out of range there is no slot to write.\<close>

fun sm_write :: "symbol \<Rightarrow> 'a option \<Rightarrow> 'a symbol_map \<Rightarrow> 'a symbol_map" where
  "sm_write (Symbol (AsciiId i)) x m = m\<lparr>sm_ascii := (sm_ascii m)[unat i := x]\<rparr>"
| "sm_write (Symbol (Utf8Id i)) x m = m\<lparr>sm_utf8 := (sm_utf8 m)[unat i := x]\<rparr>"

text \<open>\<open>get_or_insert_with\<close> followed by an update \<open>g\<close> through the returned reference.\<close>

definition sm_update_or :: "symbol \<Rightarrow> 'a \<Rightarrow> ('a \<Rightarrow> 'a) \<Rightarrow> 'a symbol_map \<Rightarrow> 'a symbol_map" where
  "sm_update_or k dflt g m =
     (let m = sm_grow k m;
          x = (case sm_get m k of None \<Rightarrow> dflt | Some x \<Rightarrow> x)
      in sm_write k (Some (g x)) m)"

definition sm_remove :: "symbol \<Rightarrow> 'a symbol_map \<Rightarrow> 'a symbol_map" where
  "sm_remove k m = sm_write k None m"

definition remove_from_symbol_set_index ::
  "symbol \<Rightarrow> fact_id \<Rightarrow> fact_id set symbol_map \<Rightarrow> fact_id set symbol_map" where
  "remove_from_symbol_set_index k i m =
     (case sm_get m k of
        None \<Rightarrow> m
      | Some S \<Rightarrow>
          (let S' = S - {i}; m = sm_write k (Some S') m
           in if S' = {} then sm_remove k m else m))"

text \<open>The map a symbol map stands for, and its operations on it.\<close>

lemma sm_get_new [simp]: "sm_get symbol_map_new k = None"
  by (cases "(symbol_map_new :: 'a symbol_map, k)" rule: sm_slot.cases)
    (auto simp: sm_get_def symbol_map_new_def)

lemma grow_nth: "i < n \<Longrightarrow> length xs \<le> n \<Longrightarrow>
    grow n xs ! i = (if i < length xs then xs ! i else None)"
  by (simp add: grow_def nth_append)

lemma length_grow [simp]: "length (grow n xs) = max n (length xs)"
  by (simp add: grow_def)

lemma word_unat_neq: "(i :: u32) \<noteq> j \<Longrightarrow> unat i \<noteq> unat j"
  by (simp add: word_unat_eq_iff)

lemma sm_get_grow [simp]: "sm_get (sm_grow k m) j = sm_get m j"
proof -
  obtain a b where k: "k = Symbol a" and j: "j = Symbol b" by (metis symbol.exhaust)
  show ?thesis
    by (cases a; cases b) (auto simp: k j sm_get_def grow_nth)
qed

lemma sm_slot_grow: "sm_slot (sm_grow k m) k \<noteq> None"
  by (induction k m rule: sm_grow.induct) auto

lemma sm_get_write:
  "sm_slot m k \<noteq> None \<or> x = None \<Longrightarrow> sm_get (sm_write k x m) = (sm_get m)(k := x)"
proof
  fix j assume dom: "sm_slot m k \<noteq> None \<or> x = None"
  obtain a b where k: "k = Symbol a" and j: "j = Symbol b" by (metis symbol.exhaust)
  show "sm_get (sm_write k x m) j = ((sm_get m)(k := x)) j"
    using dom by (cases a; cases b)
      (auto simp: k j sm_get_def nth_list_update dest: word_unat_neq split: if_splits)
qed

lemma sm_get_update_or:
  "sm_get (sm_update_or k d g m) = (sm_get m)(k \<mapsto> g (case sm_get m k of None \<Rightarrow> d | Some x \<Rightarrow> x))"
proof -
  have "sm_get (sm_grow k m) = sm_get m" by (simp add: fun_eq_iff)
  then show ?thesis
    by (simp add: sm_update_or_def Let_def sm_get_write sm_slot_grow del: not_None_eq)
qed

lemma sm_get_remove [simp]: "sm_get (sm_remove k m) = (sm_get m)(k := None)"
  by (simp add: sm_remove_def sm_get_write)

lemma sm_get_remove_from_set_index:
  "sm_get (remove_from_symbol_set_index k i m) = set_index_del k i (sm_get m)"
proof (cases "sm_get m k")
  case None
  then show ?thesis by (simp add: remove_from_symbol_set_index_def set_index_del_def)
next
  case (Some S)
  then have "sm_slot m k \<noteq> None" by (cases "sm_slot m k") (simp_all add: sm_get_def)
  then show ?thesis
    by (simp add: Some remove_from_symbol_set_index_def set_index_del_def sm_get_write Let_def
        del: not_None_eq)
qed

section \<open>Facts and their fingerprint\<close>

record ordered_fact =
  relation :: symbol
  fact_fields :: "val list"

record template_fact =
  template_id :: template_id
  slots :: "val list"

datatype fact = Ordered ordered_fact | Template template_fact

definition values_structural_eq :: "val list \<Rightarrow> val list \<Rightarrow> bool" where
  "values_structural_eq a b \<longleftrightarrow> length a = length b \<and> (\<forall>(x, y) \<in> set (zip a b). structural_eq x y)"

definition ordered_structural_eq :: "ordered_fact \<Rightarrow> ordered_fact \<Rightarrow> bool" where
  "ordered_structural_eq a b \<longleftrightarrow> relation a = relation b \<and> values_structural_eq (fact_fields a) (fact_fields b)"

definition template_structural_eq :: "template_fact \<Rightarrow> template_fact \<Rightarrow> bool" where
  "template_structural_eq a b \<longleftrightarrow>
     template_id a = template_id b \<and> values_structural_eq (slots a) (slots b)"

fun fact_structural_eq :: "fact \<Rightarrow> fact \<Rightarrow> bool" where
  "fact_structural_eq (Ordered a) (Ordered b) = ordered_structural_eq a b"
| "fact_structural_eq (Template a) (Template b) = template_structural_eq a b"
| "fact_structural_eq _ _ = False"

text \<open>What \<open>Hash\<close> implementations feed to a hasher.\<close>

datatype hash_write =
    WriteU8 u8 | WriteU32 u32 | WriteU64 u64 | WriteI64 i64 | WriteUsize nat | WriteIsize nat
  | WriteBytes bytes | WriteFactKey fact_id | WriteTemplateKey template_id

fun hash_symbol :: "symbol \<Rightarrow> hash_write list" where
  "hash_symbol (Symbol (AsciiId i)) = [WriteIsize 0, WriteU32 i]"
| "hash_symbol (Symbol (Utf8Id i)) = [WriteIsize 1, WriteU32 i]"

definition hash_string :: "ferric_string \<Rightarrow> hash_write list" where
  "hash_string s = [WriteUsize (length (as_bytes s)), WriteBytes (as_bytes s)]"

fun hash_fact_address :: "fact_address \<Rightarrow> hash_write list" where
  "hash_fact_address None = [WriteIsize 0]"
| "hash_fact_address (Some a) =
     [WriteIsize 1, WriteU64 (addr_epoch a), WriteFactKey (addr_fact_id a), WriteU64 (addr_timestamp a)]"

fun hash_value_structurally :: "val \<Rightarrow> hash_write list" where
  "hash_value_structurally (VSymbol s) = WriteU8 0 # hash_symbol s"
| "hash_value_structurally (VString s) = WriteU8 1 # hash_string s"
| "hash_value_structurally (VInteger i) = [WriteU8 2, WriteI64 i]"
| "hash_value_structurally (VFloat f) = [WriteU8 3, WriteU64 f]"
| "hash_value_structurally (VMultifield vs) =
     WriteU8 4 # WriteUsize (length vs) # concat (map hash_value_structurally vs)"
| "hash_value_structurally (VExternalAddress a) = [WriteU8 5, WriteU32 (type_id a), WriteU64 (token a)]"
| "hash_value_structurally VVoid = [WriteU8 6]"
| "hash_value_structurally (VFactAddress a) = WriteU8 8 # hash_fact_address a"
| "hash_value_structurally (VInstanceName n) = WriteU8 7 # hash_symbol (as_symbol n)"

fun fact_writes :: "fact \<Rightarrow> hash_write list" where
  "fact_writes (Ordered f) =
     WriteU8 0 # hash_symbol (relation f) @ WriteUsize (length (fact_fields f)) #
       concat (map hash_value_structurally (fact_fields f))"
| "fact_writes (Template f) =
     WriteU8 1 # WriteTemplateKey (template_id f) # WriteUsize (length (slots f)) #
       concat (map hash_value_structurally (slots f))"

type_synonym hasher = "hash_write list \<Rightarrow> u64"

definition structural_fingerprint :: "hasher \<Rightarrow> fact \<Rightarrow> u64" where
  "structural_fingerprint finish f = finish (fact_writes f)"

lemma hash_value_canon: "hash_value_structurally (canon v) = hash_value_structurally v"
proof (induction v)
  case (VMultifield vs)
  then have "concat (map (hash_value_structurally \<circ> canon) vs) = concat (map hash_value_structurally vs)"
    by (intro arg_cong [of _ _ concat] map_cong) simp_all
  then show ?case by simp
next
  case (VFactAddress a)
  then show ?case by (cases a) (simp_all add: canon_address_def)
qed (simp_all add: hash_string_def canon_string_def)

lemma values_structural_eq_iff: "values_structural_eq a b \<longleftrightarrow> map canon a = map canon b"
  using structural_eq_iff [of "VMultifield a" "VMultifield b"]
  by (simp add: values_structural_eq_def)

lemma values_hash_eq:
  assumes "values_structural_eq a b"
  shows "map hash_value_structurally a = map hash_value_structurally b"
proof -
  have "map hash_value_structurally (map canon a) = map hash_value_structurally (map canon b)"
    using assms by (simp add: values_structural_eq_iff)
  then show ?thesis by (simp add: comp_def hash_value_canon)
qed

lemma fact_structural_eq_fingerprint:
  "fact_structural_eq f g \<Longrightarrow> structural_fingerprint finish f = structural_fingerprint finish g"
  by (induction f g rule: fact_structural_eq.induct)
    (auto simp: structural_fingerprint_def ordered_structural_eq_def template_structural_eq_def
      values_structural_eq_def dest!: values_hash_eq [unfolded values_structural_eq_def])

lemma fact_structural_eq_refl [simp]: "fact_structural_eq f f"
  by (cases f) (simp_all add: ordered_structural_eq_def template_structural_eq_def values_structural_eq_iff)

lemma fact_structural_eq_equivp: "equivp fact_structural_eq"
proof (rule equivpI)
  show "symp fact_structural_eq"
  proof (rule sympI)
    show "fact_structural_eq f g \<Longrightarrow> fact_structural_eq g f" for f g
      by (induction f g rule: fact_structural_eq.induct)
        (auto simp: ordered_structural_eq_def template_structural_eq_def values_structural_eq_iff)
  qed
  show "transp fact_structural_eq"
  proof (rule transpI)
    show "fact_structural_eq f g \<Longrightarrow> fact_structural_eq g h \<Longrightarrow> fact_structural_eq f h" for f g h
      by (cases f; cases g; cases h)
        (auto simp: ordered_structural_eq_def template_structural_eq_def values_structural_eq_iff)
  qed
qed (simp add: reflpI)

end
