(* ===== verification/Fact_Base.thy ===== *)
theory Fact_Base
  imports Facts
begin

text \<open>
  The fact base of \<open>fact.rs\<close>: its state, its operations and the invariant that ties the five
  indexes to the stored facts.
\<close>

section \<open>State\<close>

record fact_entry =
  entry_fact :: fact
  entry_id :: fact_id
  entry_timestamp :: timestamp

datatype fact_insertion_result = Inserted fact_id | Duplicate fact_id

datatype fact_error = FactTimestampExhausted

record fact_base =
  facts :: "fact_id \<rightharpoonup> fact_entry"
  by_template :: "template_id \<rightharpoonup> fact_id set"
  by_relation :: "fact_id set symbol_map"
  by_structural_fingerprint :: "(u64 \<rightharpoonup> fact_id list) option"
  by_template_chronology :: "template_id \<rightharpoonup> (timestamp, fact_id) btree"
  by_relation_chronology :: "symbol \<rightharpoonup> (timestamp, fact_id) btree"
  next_timestamp :: timestamp

definition fact_base_new :: fact_base where
  "fact_base_new = \<lparr>facts = Map.empty, by_template = Map.empty, by_relation = symbol_map_new,
     by_structural_fingerprint = Some Map.empty, by_template_chronology = Map.empty,
     by_relation_chronology = Map.empty, next_timestamp = timestamp_zero\<rparr>"

section \<open>Operations\<close>

text \<open>
  The timestamp of a stored fact. It is only asked of facts that are stored at that moment
  (\<open>self.facts[id]\<close> just after the insertion of \<open>id\<close>, or for an id the walk over the facts
  yielded), so the value for other ids is never used.
\<close>

definition fact_time :: "fact_base \<Rightarrow> fact_id \<Rightarrow> timestamp" where
  "fact_time fb i = (case facts fb i of Some e \<Rightarrow> entry_timestamp e | None \<Rightarrow> 0)"

definition insert_fact ::
  "fact_id \<Rightarrow> fact \<Rightarrow> u64 option \<Rightarrow> fact_base \<Rightarrow> (fact_error + fact_id) \<times> fact_base" where
  "insert_fact i f fingerprint fb =
     (case checked_add_u (next_timestamp fb) 1 of
        None \<Rightarrow> (Inl FactTimestampExhausted, fb)
      | Some next \<Rightarrow>
          (let fb' = fb\<lparr>next_timestamp := next,
                 facts := (facts fb)(i \<mapsto>
                   \<lparr>entry_fact = f, entry_id = i, entry_timestamp = next_timestamp fb\<rparr>)\<rparr>
           in (Inr i,
               (case (by_structural_fingerprint fb', fingerprint) of
                  (Some index, Some fp) \<Rightarrow>
                    fb'\<lparr>by_structural_fingerprint := Some (vec_index_push fp i index)\<rparr>
                | _ \<Rightarrow> fb'))))"

definition ensure_assertion_capacity :: "fact_base \<Rightarrow> fact_error + unit" where
  "ensure_assertion_capacity fb =
     (case checked_add_u (next_timestamp fb) 1 of
        None \<Rightarrow> Inl FactTimestampExhausted | Some _ \<Rightarrow> Inr ())"

text \<open>
  The lazy rebuild: \<open>walk\<close> is the slot map's iteration order. Only vectors with several ids are
  sorted; their timestamps differ, so the unstable sort has one possible result.
\<close>

definition ensure_structural_index :: "hasher \<Rightarrow> fact_id list \<Rightarrow> fact_base \<Rightarrow> fact_base" where
  "ensure_structural_index finish walk fb =
     (if by_structural_fingerprint fb \<noteq> None then fb
      else
        (let index = fold (\<lambda>i index.
               (case facts fb i of
                  Some e \<Rightarrow> vec_index_push (structural_fingerprint finish (entry_fact e)) i index
                | None \<Rightarrow> index)) walk Map.empty
         in fb\<lparr>by_structural_fingerprint := Some (\<lambda>fp. map_option
               (\<lambda>candidates. if 1 < length candidates then sort_key (fact_time fb) candidates
                              else candidates) (index fp))\<rparr>))"

text \<open>The outer \<open>None\<close> is the panic of \<open>expect\<close>.\<close>

definition find_equivalent_with_fingerprint :: "fact_base \<Rightarrow> fact \<Rightarrow> u64 \<Rightarrow> fact_id option option" where
  "find_equivalent_with_fingerprint fb f fp =
     (case by_structural_fingerprint fb of
        None \<Rightarrow> None
      | Some index \<Rightarrow>
          Some (case index fp of
                  None \<Rightarrow> None
                | Some candidates \<Rightarrow>
                    find (\<lambda>i. case facts fb i of
                            Some e \<Rightarrow> fact_structural_eq (entry_fact e) f | None \<Rightarrow> False) candidates))"

definition find_equivalent ::
  "hasher \<Rightarrow> fact_id list \<Rightarrow> fact \<Rightarrow> fact_base \<Rightarrow> (fact_id option \<times> fact_base) option" where
  "find_equivalent finish walk f fb =
     (let fb = ensure_structural_index finish walk fb
      in map_option (\<lambda>r. (r, fb))
           (find_equivalent_with_fingerprint fb f (structural_fingerprint finish f)))"

definition insert_indexed ::
  "fact_id \<Rightarrow> fact \<Rightarrow> u64 option \<Rightarrow> fact_base \<Rightarrow> (fact_error + fact_id) \<times> fact_base" where
  "insert_indexed i f fingerprint fb =
     (case f of
        Ordered ordered \<Rightarrow>
          (case insert_fact i f fingerprint fb of
             (Inl e, fb) \<Rightarrow> (Inl e, fb)
           | (Inr i, fb) \<Rightarrow>
               (let rel = relation ordered;
                    fb = fb\<lparr>by_relation := sm_update_or rel {} (insert i) (by_relation fb)\<rparr>
                in (Inr i,
                    case by_relation_chronology fb rel of
                      None \<Rightarrow> fb
                    | Some chron \<Rightarrow>
                        fb\<lparr>by_relation_chronology :=
                            (by_relation_chronology fb)(rel \<mapsto> bt_insert (fact_time fb i) i chron)\<rparr>)))
      | Template template \<Rightarrow>
          (case insert_fact i f fingerprint fb of
             (Inl e, fb) \<Rightarrow> (Inl e, fb)
           | (Inr i, fb) \<Rightarrow>
               (let tid = template_id template;
                    fb = fb\<lparr>by_template := set_index_add tid i (by_template fb)\<rparr>
                in (Inr i,
                    case by_template_chronology fb tid of
                      None \<Rightarrow> fb
                    | Some chron \<Rightarrow>
                        fb\<lparr>by_template_chronology :=
                            (by_template_chronology fb)(tid \<mapsto> bt_insert (fact_time fb i) i chron)\<rparr>))))"

definition try_assert_fact ::
  "hasher \<Rightarrow> fact_id list \<Rightarrow> fact_id \<Rightarrow> fact \<Rightarrow> bool \<Rightarrow> fact_base \<Rightarrow>
   ((fact_error + fact_insertion_result) \<times> fact_base) option" where
  "try_assert_fact finish walk i f allow_duplicates fb =
     (let insert_it = (\<lambda>fingerprint fb.
            (case insert_indexed i f fingerprint fb of
               (Inl e, fb) \<Rightarrow> (Inl e, fb) | (Inr i, fb) \<Rightarrow> (Inr (Inserted i), fb)))
      in if allow_duplicates then Some (insert_it None (fb\<lparr>by_structural_fingerprint := None\<rparr>))
         else
           (let fb = ensure_structural_index finish walk fb;
                fp = structural_fingerprint finish f
            in case find_equivalent_with_fingerprint fb f fp of
                 None \<Rightarrow> None
               | Some (Some existing) \<Rightarrow> Some (Inr (Duplicate existing), fb)
               | Some None \<Rightarrow> Some (insert_it (Some fp) fb)))"

definition try_assert_distinct_fact ::
  "hasher \<Rightarrow> fact_id \<Rightarrow> fact \<Rightarrow> fact_base \<Rightarrow> (fact_error + fact_id) \<times> fact_base" where
  "try_assert_distinct_fact finish i f fb =
     insert_indexed i f
       (map_option (\<lambda>_. structural_fingerprint finish f) (by_structural_fingerprint fb)) fb"

text \<open>\<open>None\<close> is the panic on exhausted timestamps.\<close>

definition assert_fact ::
  "hasher \<Rightarrow> fact_id list \<Rightarrow> fact_id \<Rightarrow> fact \<Rightarrow> bool \<Rightarrow> fact_base \<Rightarrow>
   (fact_insertion_result \<times> fact_base) option" where
  "assert_fact finish walk i f allow_duplicates fb =
     (case try_assert_fact finish walk i f allow_duplicates fb of
        Some (Inr r, fb) \<Rightarrow> Some (r, fb) | _ \<Rightarrow> None)"

definition assert_ordered ::
  "hasher \<Rightarrow> fact_id list \<Rightarrow> fact_id \<Rightarrow> symbol \<Rightarrow> val list \<Rightarrow> fact_base \<Rightarrow> (fact_id \<times> fact_base) option" where
  "assert_ordered finish walk i rel vs fb =
     (case assert_fact finish walk i (Ordered \<lparr>relation = rel, fact_fields = vs\<rparr>) True fb of
        Some (Inserted i, fb) \<Rightarrow> Some (i, fb) | _ \<Rightarrow> None)"

definition assert_template ::
  "hasher \<Rightarrow> fact_id list \<Rightarrow> fact_id \<Rightarrow> template_id \<Rightarrow> val list \<Rightarrow> fact_base \<Rightarrow> (fact_id \<times> fact_base) option" where
  "assert_template finish walk i tid vs fb =
     (case assert_fact finish walk i (Template \<lparr>template_id = tid, slots = vs\<rparr>) True fb of
        Some (Inserted i, fb) \<Rightarrow> Some (i, fb) | _ \<Rightarrow> None)"

definition retract :: "hasher \<Rightarrow> fact_id \<Rightarrow> fact_base \<Rightarrow> fact_entry option \<times> fact_base" where
  "retract finish i fb =
     (case facts fb i of
        None \<Rightarrow> (None, fb)
      | Some e \<Rightarrow>
          (let fb = fb\<lparr>facts := (facts fb)(i := None)\<rparr>;
               fingerprint = map_option (\<lambda>_. structural_fingerprint finish (entry_fact e))
                 (by_structural_fingerprint fb);
               fb = (case entry_fact e of
                  Ordered ordered \<Rightarrow>
                    (let rel = relation ordered;
                         fb = fb\<lparr>by_relation := remove_from_symbol_set_index rel i (by_relation fb)\<rparr>
                     in case by_relation_chronology fb rel of
                          None \<Rightarrow> fb
                        | Some chron \<Rightarrow> fb\<lparr>by_relation_chronology :=
                            (by_relation_chronology fb)(rel \<mapsto> bt_remove (entry_timestamp e) chron)\<rparr>)
                | Template template \<Rightarrow>
                    (let tid = template_id template;
                         fb = fb\<lparr>by_template := set_index_del tid i (by_template fb)\<rparr>
                     in case by_template_chronology fb tid of
                          None \<Rightarrow> fb
                        | Some chron \<Rightarrow> fb\<lparr>by_template_chronology :=
                            (by_template_chronology fb)(tid \<mapsto> bt_remove (entry_timestamp e) chron)\<rparr>));
               fb = (case (by_structural_fingerprint fb, fingerprint) of
                  (Some index, Some fp) \<Rightarrow>
                    fb\<lparr>by_structural_fingerprint := Some (vec_index_del fp i index)\<rparr>
                | _ \<Rightarrow> fb)
           in (Some e, fb)))"

definition fact_base_get :: "fact_base \<Rightarrow> fact_id \<Rightarrow> fact_entry option" where
  "fact_base_get fb i = facts fb i"

definition facts_by_relation :: "fact_base \<Rightarrow> symbol \<Rightarrow> fact_id set" where
  "facts_by_relation fb rel = (case sm_get (by_relation fb) rel of None \<Rightarrow> {} | Some S \<Rightarrow> S)"

definition facts_by_template :: "fact_base \<Rightarrow> template_id \<Rightarrow> fact_id set" where
  "facts_by_template fb tid = (case by_template fb tid of None \<Rightarrow> {} | Some S \<Rightarrow> S)"

text \<open>The lookup both cursors end with.\<close>

definition chronology_next ::
  "u64 option \<Rightarrow> (timestamp, fact_id) btree \<Rightarrow> (fact_id \<times> u64) option" where
  "chronology_next after chron =
     map_option (\<lambda>(t, i). (i, t))
       (case after of Some t \<Rightarrow> bt_first_after t chron | None \<Rightarrow> bt_first chron)"

text \<open>The tree built on the first use of a cursor, from a walk over the ids of the index.\<close>

definition chronology_of :: "fact_base \<Rightarrow> fact_id list \<Rightarrow> (timestamp, fact_id) btree" where
  "chronology_of fb walk =
     bt_of_list (List.map_filter
       (\<lambda>i. map_option (\<lambda>e. (entry_timestamp e, i)) (facts fb i)) walk)"

definition next_template_fact_after ::
  "fact_id list \<Rightarrow> template_id \<Rightarrow> u64 option \<Rightarrow> fact_base \<Rightarrow> (fact_id \<times> u64) option \<times> fact_base" where
  "next_template_fact_after walk tid after fb =
     (case by_template_chronology fb tid of
        Some chron \<Rightarrow> (chronology_next after chron, fb)
      | None \<Rightarrow>
          (let chron = chronology_of fb walk
           in (chronology_next after chron,
               fb\<lparr>by_template_chronology := (by_template_chronology fb)(tid \<mapsto> chron)\<rparr>)))"

definition next_relation_fact_after ::
  "fact_id list \<Rightarrow> symbol \<Rightarrow> u64 option \<Rightarrow> fact_base \<Rightarrow> (fact_id \<times> u64) option \<times> fact_base" where
  "next_relation_fact_after walk rel after fb =
     (case by_relation_chronology fb rel of
        Some chron \<Rightarrow> (chronology_next after chron, fb)
      | None \<Rightarrow>
          (let chron = chronology_of fb walk
           in (chronology_next after chron,
               fb\<lparr>by_relation_chronology := (by_relation_chronology fb)(rel \<mapsto> chron)\<rparr>)))"

definition fact_base_len :: "fact_base \<Rightarrow> nat" where
  "fact_base_len fb = card (dom (facts fb))"

definition fact_base_is_empty :: "fact_base \<Rightarrow> bool" where
  "fact_base_is_empty fb \<longleftrightarrow> fact_base_len fb = 0"

section \<open>Invariant\<close>

definition ids_where :: "(fact \<Rightarrow> bool) \<Rightarrow> fact_base \<Rightarrow> fact_id set" where
  "ids_where P fb = {i. case facts fb i of None \<Rightarrow> False | Some e \<Rightarrow> P (entry_fact e)}"

fun has_relation :: "symbol \<Rightarrow> fact \<Rightarrow> bool" where
  "has_relation r (Ordered f) = (relation f = r)"
| "has_relation r (Template f) = False"

fun has_template :: "template_id \<Rightarrow> fact \<Rightarrow> bool" where
  "has_template t (Template f) = (template_id f = t)"
| "has_template t (Ordered f) = False"

definition entries_ok :: "fact_base \<Rightarrow> bool" where
  "entries_ok fb \<longleftrightarrow> finite (dom (facts fb)) \<and>
     (\<forall>i e. facts fb i = Some e \<longrightarrow> entry_id e = i \<and> entry_timestamp e < next_timestamp fb) \<and>
     inj_on (fact_time fb) (dom (facts fb))"

definition chron_ok :: "fact_base \<Rightarrow> (fact \<Rightarrow> bool) \<Rightarrow> (timestamp, fact_id) btree \<Rightarrow> bool" where
  "chron_ok fb P chron \<longleftrightarrow> bt_ok chron \<and> set chron = (\<lambda>i. (fact_time fb i, i)) ` ids_where P fb"

definition candidates_ok :: "hasher \<Rightarrow> fact_base \<Rightarrow> (u64 \<rightharpoonup> fact_id list) \<Rightarrow> bool" where
  "candidates_ok finish fb index \<longleftrightarrow> vec_pruned index \<and>
     (\<forall>fp. sorted_wrt (\<lambda>i j. fact_time fb i < fact_time fb j) (bucket index fp) \<and>
           set (bucket index fp) = ids_where (\<lambda>f. structural_fingerprint finish f = fp) fb)"

definition fb_ok :: "hasher \<Rightarrow> fact_base \<Rightarrow> bool" where
  "fb_ok finish fb \<longleftrightarrow> entries_ok fb \<and>
     pruned (by_template fb) \<and> (\<forall>t. members (by_template fb) t = ids_where (has_template t) fb) \<and>
     pruned (sm_get (by_relation fb)) \<and>
     (\<forall>r. members (sm_get (by_relation fb)) r = ids_where (has_relation r) fb) \<and>
     (\<forall>index. by_structural_fingerprint fb = Some index \<longrightarrow> candidates_ok finish fb index) \<and>
     (\<forall>t chron. by_template_chronology fb t = Some chron \<longrightarrow> chron_ok fb (has_template t) chron) \<and>
     (\<forall>r chron. by_relation_chronology fb r = Some chron \<longrightarrow> chron_ok fb (has_relation r) chron)"

end
