(* ===== verification/Constant_Tests.thy ===== *)
theory Constant_Tests
  imports Floats Fact_Base
begin

text \<open>
  The tests of \<open>alpha.rs\<close>: constant tests on the fields of a fact, which read fields through a
  selector function, and the numeric comparisons they share with the join tests of \<open>rete.rs\<close>.
\<close>

section \<open>Selectors and tests\<close>

datatype slot_index = OrderedSlot nat | TemplateSlot nat

fun slot_number :: "slot_index \<Rightarrow> nat" where
  "slot_number (OrderedSlot i) = i"
| "slot_number (TemplateSlot i) = i"

datatype alpha_entry_type = EntryTemplate template_id | EntryOrdered symbol

datatype sequence_field = Single | Multi

datatype sequence_source = SourceOrdered | SourceTemplateSlot nat | SourceTemplateScalar nat

record sequence_segment =
  seg_source :: sequence_source
  seg_fields :: "sequence_field list"

datatype constant_test = ConstantTest (test_slot: slot_index) (test_type: constant_test_type)
  and constant_test_type =
    TEqual atom_key
  | TNotEqual atom_key
  | TEqualAny "atom_key list"
  | TGreaterThan atom_key
  | TLessThan atom_key
  | TGreaterOrEqual atom_key
  | TLessOrEqual atom_key
  | TEqualSlot slot_index
  | TNotEqualSlot slot_index
  | TEqualSlotOffset slot_index i64
  | TNotEqualSlotOffset slot_index i64
  | TGreaterThanSlotOffset slot_index i64
  | TLessThanSlotOffset slot_index i64
  | TGreaterOrEqualSlotOffset slot_index i64
  | TLessOrEqualSlotOffset slot_index i64
  | TOrderedFieldCount nat "nat option"
  | TSequence sequence_pattern
  | TAny "constant_test list list"
  and sequence_pattern =
    SequencePattern (plan_segments: "sequence_segment list") (plan_tests: "constant_test list")

definition get_slot_value :: "fact \<Rightarrow> slot_index \<Rightarrow> val option" where
  "get_slot_value f slot =
     (case (f, slot) of
        (Ordered od, OrderedSlot i) \<Rightarrow> if i < length (fact_fields od) then Some (fact_fields od ! i) else None
      | (Template t, TemplateSlot i) \<Rightarrow> if i < length (slots t) then Some (slots t ! i) else None
      | _ \<Rightarrow> None)"

section \<open>Numeric comparison\<close>

fun add_integer_offset :: "val \<Rightarrow> i64 \<Rightarrow> val option" where
  "add_integer_offset (VInteger i) off = map_option VInteger (checked_add_i64 i off)"
| "add_integer_offset (VFloat f) off = Some (VFloat (f64_add f (f64_of_i64 off)))"
| "add_integer_offset _ off = None"

fun compare_numeric_values :: "val \<Rightarrow> val \<Rightarrow> rust_ordering option" where
  "compare_numeric_values (VInteger a) w =
     (case w of VInteger b \<Rightarrow> Some (cmp_on sint cmp_of a b)
      | VFloat b \<Rightarrow> f64_partial_cmp (f64_of_i64 a) b | _ \<Rightarrow> None)"
| "compare_numeric_values (VFloat a) w =
     (case w of VInteger b \<Rightarrow> f64_partial_cmp a (f64_of_i64 b)
      | VFloat b \<Rightarrow> f64_partial_cmp a b | _ \<Rightarrow> None)"
| "compare_numeric_values _ w = None"

definition numeric_compare_matches :: "val \<Rightarrow> val \<Rightarrow> (rust_ordering \<Rightarrow> bool) \<Rightarrow> bool" where
  "numeric_compare_matches lhs rhs p = (case compare_numeric_values lhs rhs of None \<Rightarrow> False | Some r \<Rightarrow> p r)"

definition compare_test_key :: "val \<Rightarrow> atom_key \<Rightarrow> (rust_ordering \<Rightarrow> bool) \<Rightarrow> bool" where
  "compare_test_key slot_value key p = numeric_compare_matches slot_value (atom_to_value key) p"

definition compare_offset :: "val \<Rightarrow> val \<Rightarrow> i64 \<Rightarrow> (rust_ordering \<Rightarrow> bool) \<Rightarrow> bool" where
  "compare_offset lhs rhs off p =
     (case add_integer_offset rhs off of None \<Rightarrow> False | Some adjusted \<Rightarrow> numeric_compare_matches lhs adjusted p)"

definition atom_key_matches :: "val \<Rightarrow> (atom_key \<Rightarrow> bool) \<Rightarrow> bool" where
  "atom_key_matches v p = (case atom_key_of v of None \<Rightarrow> False | Some k \<Rightarrow> p k)"

type_synonym field_reader = "slot_index \<Rightarrow> val option"

definition compare_other_slot :: "field_reader \<Rightarrow> slot_index \<Rightarrow> (val \<Rightarrow> bool) \<Rightarrow> bool" where
  "compare_other_slot field other p = (case field other of None \<Rightarrow> False | Some w \<Rightarrow> p w)"

section \<open>Evaluation\<close>

lemma size_any_branch [termination_simp]:
  "t \<in> set branch \<Longrightarrow> branch \<in> set branches \<Longrightarrow> size t < Suc (size_list (size_list size) branches)"
proof -
  assume t: "t \<in> set branch" and b: "branch \<in> set branches"
  have "size t \<le> size_list size branch" using t by (simp add: size_list_estimation')
  also have "\<dots> \<le> size_list (size_list size) branches" using b by (simp add: size_list_estimation')
  finally show ?thesis by simp
qed

lemma size_constant_test_type: "size (test_type t) < size t"
  by (cases t) simp

fun evaluate_field_test :: "constant_test \<Rightarrow> field_reader \<Rightarrow> bool" where
  "evaluate_field_test (ConstantTest slot ty) field =
     (case field slot of
        None \<Rightarrow> False
      | Some v \<Rightarrow>
          (case ty of
             TOrderedFieldCount _ _ \<Rightarrow> False
           | TSequence _ \<Rightarrow> False
           | TAny branches \<Rightarrow> \<exists>branch \<in> set branches. \<forall>t \<in> set branch. evaluate_field_test t field
           | TEqual k \<Rightarrow> atom_key_matches v (\<lambda>slot_key. atom_key_eq slot_key k)
           | TNotEqual k \<Rightarrow> atom_key_matches v (\<lambda>slot_key. \<not> atom_key_eq slot_key k)
           | TEqualAny ks \<Rightarrow> atom_key_matches v (\<lambda>slot_key. \<exists>k \<in> set ks. atom_key_eq k slot_key)
           | TGreaterThan k \<Rightarrow> compare_test_key v k (\<lambda>r. r = Greater)
           | TLessThan k \<Rightarrow> compare_test_key v k (\<lambda>r. r = Less)
           | TGreaterOrEqual k \<Rightarrow> compare_test_key v k (\<lambda>r. r = Greater \<or> r = Equal)
           | TLessOrEqual k \<Rightarrow> compare_test_key v k (\<lambda>r. r = Less \<or> r = Equal)
           | TEqualSlot other \<Rightarrow> compare_other_slot field other (\<lambda>w. structural_eq v w)
           | TNotEqualSlot other \<Rightarrow> compare_other_slot field other (\<lambda>w. \<not> structural_eq v w)
           | TEqualSlotOffset other off \<Rightarrow>
               compare_other_slot field other (\<lambda>w. compare_offset v w off (\<lambda>r. r = Equal))
           | TNotEqualSlotOffset other off \<Rightarrow>
               compare_other_slot field other (\<lambda>w. \<not> compare_offset v w off (\<lambda>r. r = Equal))
           | TGreaterThanSlotOffset other off \<Rightarrow>
               compare_other_slot field other (\<lambda>w. compare_offset v w off (\<lambda>r. r = Greater))
           | TLessThanSlotOffset other off \<Rightarrow>
               compare_other_slot field other (\<lambda>w. compare_offset v w off (\<lambda>r. r = Less))
           | TGreaterOrEqualSlotOffset other off \<Rightarrow>
               compare_other_slot field other (\<lambda>w. compare_offset v w off (\<lambda>r. r = Greater \<or> r = Equal))
           | TLessOrEqualSlotOffset other off \<Rightarrow>
               compare_other_slot field other (\<lambda>w. compare_offset v w off (\<lambda>r. r = Less \<or> r = Equal))))"

declare evaluate_field_test.simps [simp del]

end
