(* ===== verification/Keyed_Index.thy ===== *)
theory Keyed_Index
  imports Constant_Tests Ordered_Set
begin

text \<open>
  Value indexes, the structure shared by the alpha memories (\<open>slot_indices\<close>) and the beta memories
  (\<open>var_indices\<close>): per indexed column, a map from atom keys to the members with that key, with no
  empty bucket and no empty column. The hash maps are keyed by normal forms of keys.
\<close>

section \<open>Operations on an index\<close>

type_synonym ('s, 'e) keyed_index = "'s \<rightharpoonup> (atom_key \<rightharpoonup> 'e list)"

text \<open>\<open>entry(column).or_default().entry(key).or_default()\<close>, updated by \<open>f\<close>.\<close>

definition index_put :: "('e list \<Rightarrow> 'e list) \<Rightarrow> 's \<Rightarrow> atom_key \<Rightarrow> ('s, 'e) keyed_index \<Rightarrow> ('s, 'e) keyed_index" where
  "index_put f s k ix =
     (let m = (case ix s of None \<Rightarrow> Map.empty | Some m \<Rightarrow> m)
      in ix(s \<mapsto> m(key_norm k \<mapsto> f (case m (key_norm k) of None \<Rightarrow> [] | Some es \<Rightarrow> es))))"

text \<open>Removal from a bucket, dropping the bucket and then the column once empty.\<close>

definition index_take :: "'e \<Rightarrow> 's \<Rightarrow> atom_key \<Rightarrow> ('s, 'e) keyed_index \<Rightarrow> ('s, 'e) keyed_index" where
  "index_take e s k ix =
     (case ix s of
        None \<Rightarrow> ix
      | Some m \<Rightarrow>
          (let m' = (case m (key_norm k) of
                 None \<Rightarrow> m
               | Some es \<Rightarrow>
                   (let rest = filter (\<lambda>x. x \<noteq> e) es
                    in if rest = [] then m(key_norm k := None) else m(key_norm k \<mapsto> rest)))
           in if m' = Map.empty then ix(s := None) else ix(s \<mapsto> m')))"

definition index_lookup :: "('s, 'e) keyed_index \<Rightarrow> 's \<Rightarrow> atom_key \<Rightarrow> 'e list option" where
  "index_lookup ix s k = Option.bind (ix s) (\<lambda>m. m (key_norm k))"

section \<open>What an index holds\<close>

definition nonempty :: "'a list \<Rightarrow> 'a list option" where
  "nonempty xs = (if xs = [] then None else Some xs)"

definition nonempty_map :: "('k \<rightharpoonup> 'v) \<Rightarrow> ('k \<rightharpoonup> 'v) option" where
  "nonempty_map m = (if m = Map.empty then None else Some m)"

definition has_key :: "('s \<Rightarrow> 'e \<Rightarrow> atom_key option) \<Rightarrow> 's \<Rightarrow> atom_key \<Rightarrow> 'e \<Rightarrow> bool" where
  "has_key key_of s k e \<longleftrightarrow> (case key_of s e of None \<Rightarrow> False | Some k' \<Rightarrow> key_norm k' = key_norm k)"

definition column :: "('s \<Rightarrow> 'e \<Rightarrow> atom_key option) \<Rightarrow> 'e list \<Rightarrow> 's \<Rightarrow> (atom_key \<rightharpoonup> 'e list)" where
  "column key_of elems s = (\<lambda>n. nonempty (filter (\<lambda>e. map_option key_norm (key_of s e) = Some n) elems))"

definition index_ok :: "('s \<Rightarrow> 'e \<Rightarrow> atom_key option) \<Rightarrow> 'e list \<Rightarrow> 's list \<Rightarrow> ('s, 'e) keyed_index \<Rightarrow> bool" where
  "index_ok key_of elems columns ix \<longleftrightarrow> distinct columns \<and>
     (\<forall>s. ix s = (if s \<in> set columns then nonempty_map (column key_of elems s) else None))"

lemma column_Nil [simp]: "column key_of [] s = Map.empty"
  by (simp add: column_def nonempty_def fun_eq_iff)

lemma index_ok_empty: "distinct columns \<Longrightarrow> index_ok key_of [] columns Map.empty"
  by (simp add: index_ok_def nonempty_map_def)

lemma index_lookup_ok:
  assumes "index_ok key_of elems columns ix" "s \<in> set columns"
  shows "index_lookup ix s k = nonempty (filter (has_key key_of s k) elems)"
proof -
  have "(map_option key_norm (key_of s e) = Some (key_norm k)) = has_key key_of s k e" for e
    by (auto simp: has_key_def split: option.splits)
  then have "column key_of elems s (key_norm k) = nonempty (filter (has_key key_of s k) elems)"
    by (simp add: column_def)
  with assms show ?thesis
    by (auto simp: index_lookup_def index_ok_def nonempty_map_def fun_eq_iff)
qed

text \<open>Both updates change one column, and do to it what the change of members does.\<close>

lemma index_put_column:
  assumes "f (case column key_of elems s (key_norm k) of None \<Rightarrow> [] | Some es \<Rightarrow> es) =
      (case column key_of elems s (key_norm k) of None \<Rightarrow> [] | Some es \<Rightarrow> es) @ [e]"
    and "key_of s e = Some k" and "ix s = nonempty_map (column key_of elems s)"
  shows "index_put f s k ix = ix(s := nonempty_map (column key_of (elems @ [e]) s))"
proof -
  let ?m = "column key_of elems s"
  have m: "(case ix s of None \<Rightarrow> Map.empty | Some m \<Rightarrow> m) = ?m"
    using assms(3) by (simp add: nonempty_map_def)
  have "column key_of (elems @ [e]) s = ?m(key_norm k \<mapsto> (case ?m (key_norm k) of None \<Rightarrow> [] | Some es \<Rightarrow> es) @ [e])"
    using assms(2) by (auto simp: column_def nonempty_def fun_eq_iff)
  then show ?thesis
    by (simp add: index_put_def m assms(1) nonempty_map_def Let_def)
qed

lemma column_no_key: "key_of s e = None \<Longrightarrow> column key_of (elems @ [e]) s = column key_of elems s"
  by (simp add: column_def)

lemma column_remove_no_key:
  "key_of s e = None \<Longrightarrow> column key_of (filter (\<lambda>x. x \<noteq> e) elems) s = column key_of elems s"
proof -
  assume "key_of s e = None"
  then have "(x \<noteq> e \<and> map_option key_norm (key_of s x) = Some n) = (map_option key_norm (key_of s x) = Some n)" for x n
    by auto
  then show ?thesis by (simp add: column_def conj_commute)
qed

lemma index_take_column:
  assumes "key_of s e = Some k" and "ix s = nonempty_map (column key_of elems s)"
  shows "index_take e s k ix = ix(s := nonempty_map (column key_of (filter (\<lambda>x. x \<noteq> e) elems) s))"
proof (cases "column key_of elems s = Map.empty")
  case True
  then have "column key_of (filter (\<lambda>x. x \<noteq> e) elems) s = Map.empty"
    by (auto simp: column_def nonempty_def fun_eq_iff filter_empty_conv split: if_splits)
  with True assms(2) show ?thesis by (auto simp: index_take_def nonempty_map_def)
next
  case False
  let ?m = "column key_of elems s"
  let ?m' = "case ?m (key_norm k) of None \<Rightarrow> ?m
      | Some es \<Rightarrow> (let rest = filter (\<lambda>x. x \<noteq> e) es
          in if rest = [] then ?m(key_norm k := None) else ?m(key_norm k \<mapsto> rest))"
  have "?m' n = column key_of (filter (\<lambda>x. x \<noteq> e) elems) s n" for n
  proof (cases "n = key_norm k")
    case True
    then show ?thesis
      by (auto simp: column_def nonempty_def Let_def conj_commute filter_empty_conv)
  next
    case False
    then have "(x \<noteq> e \<and> map_option key_norm (key_of s x) = Some n) = (map_option key_norm (key_of s x) = Some n)" for x
      using assms(1) by auto
    with False show ?thesis
      by (simp add: column_def Let_def conj_commute split: option.split)
  qed
  then have "?m' = column key_of (filter (\<lambda>x. x \<noteq> e) elems) s" by blast
  with False assms(2) show ?thesis by (simp add: index_take_def nonempty_map_def)
qed

text \<open>A loop over distinct columns, each step of which changes its own column only.\<close>

lemma fold_columns:
  assumes "\<And>s ix. s \<in> set ss \<Longrightarrow> ix s = ix0 s \<Longrightarrow> step s ix = ix(s := g s)" and "distinct ss"
  shows "fold step ss ix0 = (\<lambda>s. if s \<in> set ss then g s else ix0 s)"
proof -
  have "fold step ss ix = (\<lambda>s. if s \<in> set ss then g s else ix s)" if "\<forall>s \<in> set ss. ix s = ix0 s" for ix
    using assms that
  proof (induction ss arbitrary: ix)
    case (Cons s ss)
    have "step s ix = ix(s := g s)" by (rule Cons.prems(1)) (use Cons.prems in auto)
    moreover have "fold step ss (ix(s := g s)) = (\<lambda>s'. if s' \<in> set ss then g s' else (ix(s := g s)) s')"
      using Cons.prems by (intro Cons.IH) auto
    ultimately show ?case using Cons.prems(2) by (simp, intro ext) auto
  qed simp
  then show ?thesis by simp
qed

text \<open>Inserting a member, removing one, and filling a new column.\<close>

definition index_insert :: "('e list \<Rightarrow> 'e list) \<Rightarrow> ('s \<Rightarrow> atom_key option) \<Rightarrow> 's list \<Rightarrow> ('s, 'e) keyed_index \<Rightarrow>
    ('s, 'e) keyed_index" where
  "index_insert f key columns ix =
     fold (\<lambda>s ix. case key s of None \<Rightarrow> ix | Some k \<Rightarrow> index_put f s k ix) columns ix"

definition index_remove :: "'e \<Rightarrow> ('s \<Rightarrow> atom_key option) \<Rightarrow> 's list \<Rightarrow> ('s, 'e) keyed_index \<Rightarrow>
    ('s, 'e) keyed_index" where
  "index_remove e key columns ix =
     fold (\<lambda>s ix. case key s of None \<Rightarrow> ix | Some k \<Rightarrow> index_take e s k ix) columns ix"

definition index_fill :: "('e \<Rightarrow> 'e list \<Rightarrow> 'e list) \<Rightarrow> ('e \<Rightarrow> atom_key option) \<Rightarrow> 's \<Rightarrow> 'e list \<Rightarrow>
    ('s, 'e) keyed_index \<Rightarrow> ('s, 'e) keyed_index" where
  "index_fill f key s elems ix =
     fold (\<lambda>e ix. case key e of None \<Rightarrow> ix | Some k \<Rightarrow> index_put (f e) s k ix) elems ix"

definition appends :: "('e list \<Rightarrow> 'e list) \<Rightarrow> 'e \<Rightarrow> bool" where
  "appends f e \<longleftrightarrow> (\<forall>es. e \<notin> set es \<longrightarrow> f es = es @ [e])"

lemma column_members: "column key_of elems s n = Some es \<Longrightarrow> set es \<subseteq> set elems"
  by (auto simp: column_def nonempty_def split: if_splits)

lemma put_appends:
  assumes "appends f e" "e \<notin> set elems"
  shows "f (case column key_of elems s n of None \<Rightarrow> [] | Some es \<Rightarrow> es) =
    (case column key_of elems s n of None \<Rightarrow> [] | Some es \<Rightarrow> es) @ [e]"
  using assms column_members [of key_of elems s n] by (auto simp: appends_def split: option.split)

lemma index_insert_ok:
  assumes ok: "index_ok key_of elems columns ix" and "appends f e" "e \<notin> set elems"
    and key: "\<And>s. key s = key_of s e"
  shows "index_ok key_of (elems @ [e]) columns (index_insert f key columns ix)"
proof -
  have "index_insert f key columns ix =
      (\<lambda>s. if s \<in> set columns then nonempty_map (column key_of (elems @ [e]) s) else ix s)"
    unfolding index_insert_def
  proof (rule fold_columns)
    fix s ix' assume s: "s \<in> set columns" "ix' s = ix s"
    then have col: "ix' s = nonempty_map (column key_of elems s)" using ok by (simp add: index_ok_def)
    show "(case key s of None \<Rightarrow> ix' | Some k \<Rightarrow> index_put f s k ix') =
        ix'(s := nonempty_map (column key_of (elems @ [e]) s))"
    proof (cases "key_of s e")
      case None
      with col key show ?thesis by (auto simp: column_no_key)
    next
      case (Some k)
      with index_put_column [where f = f and key_of = key_of and s = s and k = k and ix = ix', OF put_appends [OF assms(2,3)] Some col] key show ?thesis by simp
    qed
  qed (use ok in \<open>simp add: index_ok_def\<close>)
  with ok show ?thesis by (auto simp: index_ok_def)
qed

lemma index_remove_ok:
  assumes ok: "index_ok key_of elems columns ix" and key: "\<And>s. key s = key_of s e"
  shows "index_ok key_of (filter (\<lambda>x. x \<noteq> e) elems) columns (index_remove e key columns ix)"
proof -
  have "index_remove e key columns ix =
      (\<lambda>s. if s \<in> set columns then nonempty_map (column key_of (filter (\<lambda>x. x \<noteq> e) elems) s) else ix s)"
    unfolding index_remove_def
  proof (rule fold_columns)
    fix s ix' assume s: "s \<in> set columns" "ix' s = ix s"
    then have col: "ix' s = nonempty_map (column key_of elems s)" using ok by (simp add: index_ok_def)
    show "(case key s of None \<Rightarrow> ix' | Some k \<Rightarrow> index_take e s k ix') =
        ix'(s := nonempty_map (column key_of (filter (\<lambda>x. x \<noteq> e) elems) s))"
    proof (cases "key_of s e")
      case None
      with col key show ?thesis by (auto simp: column_remove_no_key)
    next
      case (Some k)
      with index_take_column [where key_of = key_of and s = s and ix = ix', OF Some col] key show ?thesis by simp
    qed
  qed (use ok in \<open>simp add: index_ok_def\<close>)
  with ok show ?thesis by (auto simp: index_ok_def)
qed

lemma index_fill_ok:
  assumes ok: "index_ok key_of elems columns ix" and "s \<notin> set columns" "distinct elems"
    and "\<And>e. e \<in> set elems \<Longrightarrow> appends (f e) e \<and> key e = key_of s e"
  shows "index_ok key_of elems (columns @ [s]) (index_fill f key s elems ix)"
proof -
  have "index_fill f key s ms ix = ix(s := nonempty_map (column key_of ms s))"
    if "\<exists>rest. elems = ms @ rest" for ms
    using that
  proof (induction ms rule: rev_induct)
    case Nil
    then show ?case using ok assms(2) by (auto simp: index_fill_def index_ok_def nonempty_map_def)
  next
    case (snoc e ms)
    then have mem: "e \<in> set elems" "e \<notin> set ms" using assms(3) by auto
    have IH: "index_fill f key s ms ix = ix(s := nonempty_map (column key_of ms s))"
      using snoc by auto
    show ?case
    proof (cases "key_of s e")
      case None
      with IH assms(4) [OF mem(1)] show ?thesis by (simp add: index_fill_def column_no_key)
    next
      case (Some k)
      have "index_put (f e) s k (ix(s := nonempty_map (column key_of ms s))) =
          ix(s := nonempty_map (column key_of (ms @ [e]) s))"
        using index_put_column [where f = "f e" and key_of = key_of and s = s and k = k and elems = ms and e = e
            and ix = "ix(s := nonempty_map (column key_of ms s))"]
          put_appends [of "f e" e ms key_of s "key_norm k"] Some mem assms(4) by simp
      with Some IH assms(4) [OF mem(1)] show ?thesis by (simp add: index_fill_def)
    qed
  qed
  from this [of elems] ok assms(2) show ?thesis by (auto simp: index_ok_def)
qed

section \<open>Candidates\<close>

text \<open>
  The interface through which a join reads a memory: its members in order, which columns are
  indexed, and the lookup by key. The candidates it collects, from an index or by a scan, lose no
  member that an equality with the key needs.
\<close>

locale indexed_memory =
  fixes elems :: "'m \<Rightarrow> 'e list" and indexed :: "'m \<Rightarrow> 's \<Rightarrow> bool"
    and lookup :: "'m \<Rightarrow> 's \<Rightarrow> atom_key \<Rightarrow> 'e list option"
    and key_of :: "'s \<Rightarrow> 'e \<Rightarrow> atom_key option" and ok :: "'m \<Rightarrow> bool"
  assumes lookup_exact: "ok m \<Longrightarrow> indexed m s \<Longrightarrow> lookup m s k = nonempty (filter (has_key key_of s k) (elems m))"
begin

lemma lookup_default:
  "ok m \<Longrightarrow> indexed m s \<Longrightarrow> (case lookup m s k of None \<Rightarrow> [] | Some es \<Rightarrow> es) = filter (has_key key_of s k) (elems m)"
  by (simp add: lookup_exact nonempty_def)

lemma candidates_filter:
  assumes "ok m" "indexed m s" "\<And>e. e \<in> set (elems m) \<Longrightarrow> P e \<Longrightarrow> has_key key_of s k e"
  shows "filter P (case lookup m s k of None \<Rightarrow> [] | Some es \<Rightarrow> es) = filter P (elems m)"
  unfolding lookup_default [OF assms(1,2)] filter_filter
  by (rule filter_cong) (use assms(3) in auto)

end

end
