(* ===== verification/Alpha_Memory.thy ===== *)
theory Alpha_Memory
  imports Keyed_Index
begin

text \<open>
  Alpha memories (\<open>AlphaMemory\<close> of \<open>alpha.rs\<close>): the facts that pass one alpha path, in insertion
  order, with value indexes on requested slots.
\<close>

section \<open>Operations\<close>

datatype alpha_memory_id = AlphaMemoryId u32

record alpha_memory =
  mem_id :: alpha_memory_id
  mem_facts :: "fact_id list"
  slot_indices :: "(slot_index, fact_id) keyed_index"
  indexed_slots :: "slot_index list"

definition alpha_memory_new :: "alpha_memory_id \<Rightarrow> alpha_memory" where
  "alpha_memory_new i = \<lparr>mem_id = i, mem_facts = [], slot_indices = Map.empty, indexed_slots = []\<rparr>"

definition slot_key :: "fact \<Rightarrow> slot_index \<Rightarrow> atom_key option" where
  "slot_key f slot = Option.bind (get_slot_value f slot) atom_key_of"

definition alpha_insert :: "fact_id \<Rightarrow> fact \<Rightarrow> alpha_memory \<Rightarrow> alpha_memory" where
  "alpha_insert i f am =
     (case ls_insert i (mem_facts am) of
        (False, _) \<Rightarrow> am
      | (True, fs) \<Rightarrow> am\<lparr>mem_facts := fs,
          slot_indices := index_insert (\<lambda>fs. snd (ls_insert i fs)) (slot_key f) (indexed_slots am) (slot_indices am)\<rparr>)"

definition alpha_remove :: "fact_id \<Rightarrow> fact \<Rightarrow> alpha_memory \<Rightarrow> alpha_memory" where
  "alpha_remove i f am =
     (case ls_remove i (mem_facts am) of
        (False, _) \<Rightarrow> am
      | (True, fs) \<Rightarrow> am\<lparr>mem_facts := fs,
          slot_indices := index_remove i (slot_key f) (indexed_slots am) (slot_indices am)\<rparr>)"

definition request_index :: "slot_index \<Rightarrow> fact_base \<Rightarrow> alpha_memory \<Rightarrow> alpha_memory" where
  "request_index slot fb am =
     (if slot \<in> set (indexed_slots am) then am
      else am\<lparr>indexed_slots := indexed_slots am @ [slot],
        slot_indices := index_fill (\<lambda>i fs. snd (ls_insert i fs))
          (\<lambda>i. Option.bind (fact_base_get fb i) (\<lambda>entry. slot_key (entry_fact entry) slot))
          slot (mem_facts am) (slot_indices am)\<rparr>)"

text \<open>Panics on a memory that is not empty.\<close>

definition request_index_empty :: "slot_index \<Rightarrow> alpha_memory \<Rightarrow> alpha_memory option" where
  "request_index_empty slot am =
     (if mem_facts am \<noteq> [] then None
      else Some (if slot \<in> set (indexed_slots am) then am
                 else am\<lparr>indexed_slots := indexed_slots am @ [slot]\<rparr>))"

definition is_slot_indexed :: "alpha_memory \<Rightarrow> slot_index \<Rightarrow> bool" where
  "is_slot_indexed am slot \<longleftrightarrow> slot \<in> set (indexed_slots am)"

definition lookup_by_slot :: "alpha_memory \<Rightarrow> slot_index \<Rightarrow> atom_key \<Rightarrow> fact_id list option" where
  "lookup_by_slot am slot k = index_lookup (slot_indices am) slot k"

definition alpha_clear :: "alpha_memory \<Rightarrow> alpha_memory" where
  "alpha_clear am = am\<lparr>mem_facts := [], slot_indices := Map.empty\<rparr>"

definition alpha_contains :: "alpha_memory \<Rightarrow> fact_id \<Rightarrow> bool" where
  "alpha_contains am i \<longleftrightarrow> i \<in> set (mem_facts am)"

definition alpha_is_empty :: "alpha_memory \<Rightarrow> bool" where
  "alpha_is_empty am \<longleftrightarrow> mem_facts am = []"

definition alpha_len :: "alpha_memory \<Rightarrow> nat" where
  "alpha_len am = length (mem_facts am)"

section \<open>The indexes are exact\<close>

text \<open>\<open>content\<close> is the fact behind each identifier; identifiers are never given to another fact.\<close>

definition fact_key :: "(fact_id \<Rightarrow> fact) \<Rightarrow> slot_index \<Rightarrow> fact_id \<Rightarrow> atom_key option" where
  "fact_key content slot i = slot_key (content i) slot"

definition alpha_ok :: "(fact_id \<Rightarrow> fact) \<Rightarrow> alpha_memory \<Rightarrow> bool" where
  "alpha_ok content am \<longleftrightarrow> distinct (mem_facts am) \<and>
     index_ok (fact_key content) (mem_facts am) (indexed_slots am) (slot_indices am)"

interpretation alpha_index: indexed_memory mem_facts is_slot_indexed lookup_by_slot
  "fact_key content" "alpha_ok content" for content
  by unfold_locales (auto simp: alpha_ok_def lookup_by_slot_def is_slot_indexed_def intro: index_lookup_ok)

lemma appends_ls_insert: "appends (\<lambda>fs. snd (ls_insert i fs)) i"
  by (simp add: appends_def ls_insert_def)

lemma alpha_ok_new: "alpha_ok content (alpha_memory_new i)"
  by (simp add: alpha_ok_def alpha_memory_new_def index_ok_empty)

lemma mem_facts_insert [simp]:
  "mem_facts (alpha_insert i f am) = (if i \<in> set (mem_facts am) then mem_facts am else mem_facts am @ [i])"
  by (simp add: alpha_insert_def ls_insert_def)

lemma mem_facts_remove [simp]: "mem_facts (alpha_remove i f am) = filter (\<lambda>x. x \<noteq> i) (mem_facts am)"
  by (cases "i \<in> set (mem_facts am)") (auto simp: alpha_remove_def ls_remove_def intro!: filter_True [symmetric])

lemma alpha_ok_insert: "alpha_ok content am \<Longrightarrow> content i = f \<Longrightarrow> alpha_ok content (alpha_insert i f am)"
  by (auto simp: alpha_ok_def alpha_insert_def fact_key_def ls_insert_def appends_def intro!: index_insert_ok)

lemma alpha_ok_remove: "alpha_ok content am \<Longrightarrow> content i = f \<Longrightarrow> alpha_ok content (alpha_remove i f am)"
  by (cases "i \<in> set (mem_facts am)")
    (auto simp: alpha_ok_def alpha_remove_def fact_key_def ls_remove_def intro!: index_remove_ok)

definition agrees :: "(fact_id \<Rightarrow> fact) \<Rightarrow> fact_base \<Rightarrow> fact_id set \<Rightarrow> bool" where
  "agrees content fb S \<longleftrightarrow> (\<forall>i \<in> S. \<exists>entry. fact_base_get fb i = Some entry \<and> entry_fact entry = content i)"

lemma alpha_ok_request:
  assumes "alpha_ok content am" "agrees content fb (set (mem_facts am))"
  shows "alpha_ok content (request_index slot fb am)"
proof -
  have "Option.bind (fact_base_get fb i) (\<lambda>entry. slot_key (entry_fact entry) slot) = fact_key content slot i"
    if "i \<in> set (mem_facts am)" for i
    using assms(2) that by (auto simp: agrees_def fact_key_def)
  then show ?thesis
    using assms(1) by (auto simp: alpha_ok_def request_index_def appends_ls_insert intro!: index_fill_ok)
qed

lemma index_ok_add_column: "index_ok key_of [] columns ix \<Longrightarrow> s \<notin> set columns \<Longrightarrow> index_ok key_of [] (columns @ [s]) ix"
  by (auto simp: index_ok_def nonempty_map_def)

lemma alpha_ok_request_empty:
  "alpha_ok content am \<Longrightarrow> request_index_empty slot am = Some am' \<Longrightarrow> alpha_ok content am'"
  by (auto simp: alpha_ok_def request_index_empty_def intro!: index_ok_add_column split: if_splits)

lemma alpha_ok_clear: "alpha_ok content am \<Longrightarrow> alpha_ok content (alpha_clear am)"
  by (auto simp: alpha_ok_def alpha_clear_def index_ok_def nonempty_map_def)

inductive alpha_mem_reach :: "(fact_id \<Rightarrow> fact) \<Rightarrow> alpha_memory \<Rightarrow> bool" for content where
  mem_new: "alpha_mem_reach content (alpha_memory_new i)"
| mem_insert: "alpha_mem_reach content am \<Longrightarrow> alpha_mem_reach content (alpha_insert i (content i) am)"
| mem_remove: "alpha_mem_reach content am \<Longrightarrow> alpha_mem_reach content (alpha_remove i (content i) am)"
| mem_request: "alpha_mem_reach content am \<Longrightarrow> agrees content fb (set (mem_facts am)) \<Longrightarrow>
    alpha_mem_reach content (request_index slot fb am)"
| mem_request_empty: "alpha_mem_reach content am \<Longrightarrow> request_index_empty slot am = Some am' \<Longrightarrow>
    alpha_mem_reach content am'"
| mem_clear: "alpha_mem_reach content am \<Longrightarrow> alpha_mem_reach content (alpha_clear am)"

lemma alpha_mem_reach_ok: "alpha_mem_reach content am \<Longrightarrow> alpha_ok content am"
  by (induction rule: alpha_mem_reach.induct)
    (auto intro: alpha_ok_new alpha_ok_insert alpha_ok_remove alpha_ok_request alpha_ok_request_empty alpha_ok_clear)

text \<open>
  C35: However facts are inserted, removed and slots indexed, a lookup by key in an indexed slot of
  an alpha memory returns, in insertion order, exactly the stored facts whose value in that slot
  has this key, and nothing when there is none; slots that were never requested hold no index.
\<close>

theorem alpha_lookup_exact:
  assumes "alpha_mem_reach content am"
  shows "lookup_by_slot am slot k =
    (if is_slot_indexed am slot
     then nonempty (filter (\<lambda>i. case slot_key (content i) slot of None \<Rightarrow> False | Some k' \<Rightarrow> atom_key_eq k' k) (mem_facts am))
     else None)"
proof -
  have ok: "alpha_ok content am" by (rule alpha_mem_reach_ok [OF assms])
  have "has_key (fact_key content) slot k = (\<lambda>i. case slot_key (content i) slot of None \<Rightarrow> False | Some k' \<Rightarrow> atom_key_eq k' k)"
    by (simp add: fun_eq_iff has_key_def fact_key_def atom_key_eq_iff split: option.split)
  moreover have "lookup_by_slot am slot k = None" if "\<not> is_slot_indexed am slot"
    using ok that by (simp add: alpha_ok_def index_ok_def lookup_by_slot_def index_lookup_def is_slot_indexed_def)
  ultimately show ?thesis using alpha_index.lookup_exact [OF ok] by simp
qed

definition sample_alpha_fact :: "fact_id \<Rightarrow> fact" where
  "sample_alpha_fact i = Ordered \<lparr>relation = Symbol (AsciiId 0), fact_fields = [VInteger (case i of FactId n \<Rightarrow> of_nat n)]\<rparr>"

definition sample_alpha_memory :: alpha_memory where
  "sample_alpha_memory =
     alpha_insert (FactId 2) (sample_alpha_fact (FactId 2))
       (alpha_insert (FactId 1) (sample_alpha_fact (FactId 1))
         (the (request_index_empty (OrderedSlot 0) (alpha_memory_new (AlphaMemoryId 0)))))"

theorem alpha_lookup_exact_witness:
  "lookup_by_slot sample_alpha_memory (OrderedSlot 0) (KInteger 2) = Some [FactId 2]"
proof -
  obtain am where am: "request_index_empty (OrderedSlot 0) (alpha_memory_new (AlphaMemoryId 0)) = Some am"
    by (simp add: request_index_empty_def alpha_memory_new_def)
  have "alpha_mem_reach sample_alpha_fact sample_alpha_memory"
    unfolding sample_alpha_memory_def am option.sel
    by (intro mem_insert mem_request_empty [OF mem_new am])
  from alpha_lookup_exact [OF this, of "OrderedSlot 0" "KInteger 2"] show ?thesis
    by (simp add: sample_alpha_memory_def request_index_empty_def alpha_memory_new_def is_slot_indexed_def
        alpha_insert_def ls_insert_def slot_key_def get_slot_value_def sample_alpha_fact_def nonempty_def)
qed

end
