(* ===== verification/Sequence_Plans.thy ===== *)
theory Sequence_Plans
  imports Constant_Tests
begin

text \<open>
  The static part of \<open>sequence.rs\<close>: the logical fields of a sequence plan, their fixed physical
  positions, the rewriting of tests to physical selectors, and the validation of plans. Lengths
  and positions are natural numbers; where the code saturates at \<open>usize::MAX\<close>, so does the model.
\<close>

definition usize_max :: nat where
  "usize_max = 2 ^ 64 - 1"

definition saturating_add :: "nat \<Rightarrow> nat \<Rightarrow> nat" where
  "saturating_add a b = min (a + b) usize_max"

section \<open>Counting tests\<close>

lemma size_flatten: "size_list size (concat branches) \<le> size_list (size_list size) branches"
  by (induction branches) (auto simp: size_list_append)

text \<open>The stack of \<open>constant_test_count\<close>, its top first.\<close>

function test_count_loop :: "constant_test list \<Rightarrow> nat \<Rightarrow> nat" where
  "test_count_loop [] count = count"
| "test_count_loop (t # pending) count =
     (let count = saturating_add count 1
      in case test_type t of
           TAny branches \<Rightarrow>
             test_count_loop (rev (concat branches) @ pending)
               (fold (\<lambda>branch count. saturating_add count (if branch = [] then 1 else 0)) branches count)
         | _ \<Rightarrow> test_count_loop pending count)"
  by pat_completeness auto

lemma size_list_rev: "size_list f (rev xs) = size_list f xs"
  by (induction xs) (auto simp: size_list_append)

lemma size_any_test:
  assumes "test_type t = TAny branches"
  shows "size_list size (concat branches) < size t"
proof -
  obtain s ty where "t = ConstantTest s ty" by (cases t)
  with assms size_flatten [of branches] show ?thesis by simp
qed

termination test_count_loop
  by (relation "measure (\<lambda>(pending, _). size_list size pending)")
    (auto simp: size_list_append size_list_rev dest!: size_any_test)

definition constant_test_count :: "constant_test list \<Rightarrow> nat" where
  "constant_test_count tests = test_count_loop (rev tests) 0"

section \<open>Plans\<close>

definition logical_width :: "sequence_pattern \<Rightarrow> nat" where
  "logical_width plan = sum_list (map (\<lambda>seg. length (seg_fields seg)) (plan_segments plan))"

definition is_ordered :: "sequence_pattern \<Rightarrow> bool" where
  "is_ordered plan \<longleftrightarrow>
     (case plan_segments plan of [seg] \<Rightarrow> seg_source seg = SourceOrdered | _ \<Rightarrow> False)"

fun valid_logical_slot :: "sequence_pattern \<Rightarrow> slot_index \<Rightarrow> bool" where
  "valid_logical_slot plan (OrderedSlot i) \<longleftrightarrow> is_ordered plan \<and> i < logical_width plan"
| "valid_logical_slot plan (TemplateSlot i) \<longleftrightarrow> \<not> is_ordered plan \<and> i < logical_width plan"

fun template_selector :: "sequence_segment list \<Rightarrow> nat \<Rightarrow> slot_index option" where
  "template_selector [] i = None"
| "template_selector (seg # segs) i =
     (if i < length (seg_fields seg) then
        (case seg_source seg of SourceTemplateScalar physical \<Rightarrow> Some (TemplateSlot physical) | _ \<Rightarrow> None)
      else template_selector segs (i - length (seg_fields seg)))"

definition physical_selector :: "sequence_pattern \<Rightarrow> slot_index \<Rightarrow> slot_index option" where
  "physical_selector plan slot =
     (case slot of
        OrderedSlot i \<Rightarrow>
          (case plan_segments plan of
             [seg] \<Rightarrow>
               if seg_source seg = SourceOrdered then
                 (if i < length (seg_fields seg) \<and> (\<forall>f \<in> set (take (Suc i) (seg_fields seg)). f = Single)
                  then Some slot else None)
               else None
           | _ \<Rightarrow> None)
      | TemplateSlot i \<Rightarrow> template_selector (plan_segments plan) i)"

fun physical_test :: "sequence_pattern \<Rightarrow> constant_test \<Rightarrow> constant_test option" where
  "physical_test plan (ConstantTest slot ty) =
     (case physical_selector plan slot of
        None \<Rightarrow> None
      | Some mapped \<Rightarrow>
          map_option (ConstantTest mapped)
            (case ty of
               TEqualSlot other \<Rightarrow> map_option TEqualSlot (physical_selector plan other)
             | TNotEqualSlot other \<Rightarrow> map_option TNotEqualSlot (physical_selector plan other)
             | TEqualSlotOffset other off \<Rightarrow> map_option (\<lambda>s. TEqualSlotOffset s off) (physical_selector plan other)
             | TNotEqualSlotOffset other off \<Rightarrow> map_option (\<lambda>s. TNotEqualSlotOffset s off) (physical_selector plan other)
             | TGreaterThanSlotOffset other off \<Rightarrow> map_option (\<lambda>s. TGreaterThanSlotOffset s off) (physical_selector plan other)
             | TLessThanSlotOffset other off \<Rightarrow> map_option (\<lambda>s. TLessThanSlotOffset s off) (physical_selector plan other)
             | TGreaterOrEqualSlotOffset other off \<Rightarrow> map_option (\<lambda>s. TGreaterOrEqualSlotOffset s off) (physical_selector plan other)
             | TLessOrEqualSlotOffset other off \<Rightarrow> map_option (\<lambda>s. TLessOrEqualSlotOffset s off) (physical_selector plan other)
             | TAny branches \<Rightarrow> map_option TAny (those (map (\<lambda>branch. those (map (physical_test plan) branch)) branches))
             | TOrderedFieldCount _ _ \<Rightarrow> None
             | TSequence _ \<Rightarrow> None
             | other \<Rightarrow> Some other))"

declare physical_test.simps [simp del]

section \<open>Validation\<close>

datatype sequence_error =
    NoSegments
  | ScalarSourceWidth
  | OrderedNotOnly
  | RepeatedSource
  | TooManyTests
  | InvalidLogicalField
  | WholeFactTest
  | InvalidReference
  | WrongFactKind

definition max_alpha_tests :: nat where
  "max_alpha_tests = 64"

text \<open>The sources of the segments, none twice.\<close>

fun validate_sources :: "nat set \<Rightarrow> sequence_segment list \<Rightarrow> sequence_error + unit" where
  "validate_sources seen [] = Inr ()"
| "validate_sources seen (seg # segs) =
     (case (case seg_source seg of
              SourceTemplateSlot i \<Rightarrow> Inr i
            | SourceTemplateScalar i \<Rightarrow> if seg_fields seg = [Single] then Inr i else Inl ScalarSourceWidth
            | SourceOrdered \<Rightarrow> Inl OrderedNotOnly) of
        Inl e \<Rightarrow> Inl e
      | Inr i \<Rightarrow> if i \<in> seen then Inl RepeatedSource else validate_sources (insert i seen) segs)"

fun referenced_slot :: "constant_test_type \<Rightarrow> slot_index option" where
  "referenced_slot (TEqualSlot s) = Some s"
| "referenced_slot (TNotEqualSlot s) = Some s"
| "referenced_slot (TEqualSlotOffset s _) = Some s"
| "referenced_slot (TNotEqualSlotOffset s _) = Some s"
| "referenced_slot (TGreaterThanSlotOffset s _) = Some s"
| "referenced_slot (TLessThanSlotOffset s _) = Some s"
| "referenced_slot (TGreaterOrEqualSlotOffset s _) = Some s"
| "referenced_slot (TLessOrEqualSlotOffset s _) = Some s"
| "referenced_slot _ = None"

text \<open>The stack of pending tests, its top first.\<close>

function validate_tests :: "sequence_pattern \<Rightarrow> constant_test list \<Rightarrow> sequence_error + unit" where
  "validate_tests plan [] = Inr ()"
| "validate_tests plan (t # pending) =
     (if \<not> valid_logical_slot plan (test_slot t) then Inl InvalidLogicalField
      else
        (case test_type t of
           TAny branches \<Rightarrow> validate_tests plan (rev (concat branches) @ pending)
         | TOrderedFieldCount _ _ \<Rightarrow> Inl WholeFactTest
         | TSequence _ \<Rightarrow> Inl WholeFactTest
         | ty \<Rightarrow>
             (case referenced_slot ty of
                Some s \<Rightarrow> if valid_logical_slot plan s then validate_tests plan pending else Inl InvalidReference
              | None \<Rightarrow> validate_tests plan pending)))"
  by pat_completeness auto
termination
  by (relation "measure (\<lambda>(_, pending). size_list size pending)")
    (auto simp: size_list_append size_list_rev dest!: size_any_test)

definition validate_plan :: "sequence_pattern \<Rightarrow> sequence_error + unit" where
  "validate_plan plan =
     (if plan_segments plan = [] then Inl NoSegments
      else
        (case (if is_ordered plan then Inr () else validate_sources {} (plan_segments plan)) of
           Inl e \<Rightarrow> Inl e
         | Inr _ \<Rightarrow>
             if max_alpha_tests < constant_test_count (plan_tests plan) then Inl TooManyTests
             else validate_tests plan (rev (plan_tests plan))))"

definition validate_entry :: "sequence_pattern \<Rightarrow> alpha_entry_type \<Rightarrow> sequence_error + unit" where
  "validate_entry plan entry =
     (case validate_plan plan of
        Inl e \<Rightarrow> Inl e
      | Inr _ \<Rightarrow>
          if is_ordered plan \<noteq> (case entry of EntryOrdered _ \<Rightarrow> True | EntryTemplate _ \<Rightarrow> False)
          then Inl WrongFactKind else Inr ())"

section \<open>What counting and validation mean\<close>

text \<open>The nodes of a test: the test itself, the nodes below it, and one for an empty branch.\<close>

fun test_nodes :: "constant_test \<Rightarrow> nat" where
  "test_nodes (ConstantTest s ty) =
     Suc (case ty of
            TAny branches \<Rightarrow> sum_list (map (\<lambda>branch. if branch = [] then 1 else sum_list (map test_nodes branch)) branches)
          | _ \<Rightarrow> 0)"

declare test_nodes.simps [simp del]

lemma sum_branches:
  "sum_list (map (\<lambda>branch. if branch = [] then 1 else sum_list (map f branch)) branches) =
     sum_list (map f (concat branches)) + length (filter (\<lambda>b. b = []) (branches :: 'a list list))"
  by (induction branches) auto

lemma fold_empty_branches:
  "c \<le> usize_max \<Longrightarrow> fold (\<lambda>branch count. saturating_add count (if branch = [] then 1 else 0)) branches c =
     min (c + length (filter (\<lambda>b. b = []) branches)) usize_max"
  by (induction branches arbitrary: c) (auto simp: saturating_add_def min_def)

lemma test_count_loop_eq:
  "c \<le> usize_max \<Longrightarrow> test_count_loop pending c = min (c + sum_list (map test_nodes pending)) usize_max"
proof (induction pending c rule: test_count_loop.induct)
  case (2 t pending count)
  obtain s ty where t: "t = ConstantTest s ty" by (cases t)
  have c: "saturating_add count 1 \<le> usize_max" by (simp add: saturating_add_def)
  show ?case
  proof (cases "\<exists>branches. ty = TAny branches")
    case True
    then obtain branches where ty: "ty = TAny branches" by blast
    let ?e = "length (filter (\<lambda>b. b = []) branches)"
    let ?c = "fold (\<lambda>branch count. saturating_add count (if branch = [] then 1 else 0)) branches (saturating_add count 1)"
    have f: "?c = min (saturating_add count 1 + ?e) usize_max" by (rule fold_empty_branches [OF c])
    then have le: "?c \<le> usize_max" by linarith
    have nodes: "test_nodes t = Suc (sum_list (map test_nodes (concat branches)) + ?e)"
      using sum_branches [of test_nodes branches] by (simp add: t ty test_nodes.simps)
    have "test_count_loop (rev (concat branches) @ pending) ?c =
        min (?c + sum_list (map test_nodes (rev (concat branches) @ pending))) usize_max"
      by (rule "2.IH"(18) [OF refl _ le]) (simp add: t ty)
    also have "\<dots> = min (count + sum_list (map test_nodes (t # pending))) usize_max"
      using "2.prems" unfolding f by (simp add: nodes saturating_add_def rev_map [symmetric] min_def)
    finally show ?thesis by (simp add: t ty)
  next
    case False
    then have eq: "test_count_loop (t # pending) count = test_count_loop pending (saturating_add count 1)"
      by (cases ty) (simp_all add: t)
    have "test_count_loop pending (saturating_add count 1) =
        min (saturating_add count 1 + sum_list (map test_nodes pending)) usize_max"
      using False "2.IH"(1-17) [OF refl] c by (cases ty) (simp_all add: t)
    moreover have "test_nodes t = 1" using False by (cases ty) (simp_all add: t test_nodes.simps)
    ultimately show ?thesis using "2.prems" unfolding eq by (simp add: saturating_add_def min_def)
  qed
qed simp

lemma constant_test_count_eq:
  "constant_test_count tests = min (sum_list (map test_nodes tests)) usize_max"
  by (simp add: constant_test_count_def test_count_loop_eq rev_map [symmetric])

text \<open>A test whose selectors are logical fields of the plan and that needs no whole fact.\<close>

fun test_ok :: "sequence_pattern \<Rightarrow> constant_test \<Rightarrow> bool" where
  "test_ok plan (ConstantTest s ty) \<longleftrightarrow> valid_logical_slot plan s \<and>
     (case ty of
        TAny branches \<Rightarrow> \<forall>branch \<in> set branches. \<forall>t \<in> set branch. test_ok plan t
      | TOrderedFieldCount _ _ \<Rightarrow> False
      | TSequence _ \<Rightarrow> False
      | _ \<Rightarrow> (case referenced_slot ty of Some other \<Rightarrow> valid_logical_slot plan other | None \<Rightarrow> True))"

declare test_ok.simps [simp del]

lemma validate_tests_iff: "validate_tests plan pending = Inr () \<longleftrightarrow> (\<forall>t \<in> set pending. test_ok plan t)"
proof (induction plan pending rule: validate_tests.induct)
  case (2 plan t pending)
  obtain s ty where t: "t = ConstantTest s ty" by (cases t)
  show ?case
  proof (cases "valid_logical_slot plan s")
    case True
    show ?thesis
    proof (cases "\<exists>branches. ty = TAny branches")
      case True
      then obtain branches where ty: "ty = TAny branches" by blast
      have "validate_tests plan (rev (concat branches) @ pending) = Inr () \<longleftrightarrow>
          (\<forall>u \<in> set (rev (concat branches) @ pending). test_ok plan u)"
        using "2.IH" \<open>valid_logical_slot plan s\<close> by (simp add: t ty)
      with \<open>valid_logical_slot plan s\<close> show ?thesis by (auto simp: t ty test_ok.simps)
    next
      case False
      with \<open>valid_logical_slot plan s\<close> "2.IH" show ?thesis
        by (cases ty) (auto simp: t test_ok.simps)
    qed
  qed (simp add: t test_ok.simps)
qed simp

fun source_index :: "sequence_source \<Rightarrow> nat option" where
  "source_index (SourceTemplateSlot i) = Some i"
| "source_index (SourceTemplateScalar i) = Some i"
| "source_index SourceOrdered = None"

definition segment_ok :: "sequence_segment \<Rightarrow> bool" where
  "segment_ok seg \<longleftrightarrow>
     (case seg_source seg of
        SourceOrdered \<Rightarrow> False
      | SourceTemplateSlot _ \<Rightarrow> True
      | SourceTemplateScalar _ \<Rightarrow> seg_fields seg = [Single])"

lemma validate_sources_iff:
  "validate_sources seen segs = Inr () \<longleftrightarrow>
     (\<forall>seg \<in> set segs. segment_ok seg) \<and> distinct (map (\<lambda>seg. source_index (seg_source seg)) segs) \<and>
     (\<forall>seg \<in> set segs. \<forall>i. source_index (seg_source seg) = Some i \<longrightarrow> i \<notin> seen)"
proof (induction seen segs rule: validate_sources.induct)
  case (2 seen seg segs)
  let ?ix = "\<lambda>seg. source_index (seg_source seg)"
  have step: "validate_sources seen (seg # segs) = Inr () \<longleftrightarrow> segment_ok seg \<and>
      (\<exists>i. ?ix seg = Some i \<and> i \<notin> seen \<and> validate_sources (insert i seen) segs = Inr ())"
    by (cases "seg_source seg") (auto simp: segment_ok_def)
  have IH: "validate_sources (insert i seen) segs = Inr () \<longleftrightarrow> (\<forall>s \<in> set segs. segment_ok s) \<and>
      distinct (map ?ix segs) \<and> (\<forall>s \<in> set segs. \<forall>j. ?ix s = Some j \<longrightarrow> j \<notin> insert i seen)"
    if "segment_ok seg" "?ix seg = Some i" "i \<notin> seen" for i
    using that "2" by (cases "seg_source seg") (simp_all add: segment_ok_def)
  have some: "segment_ok seg \<Longrightarrow> \<exists>i. ?ix seg = Some i"
    by (cases "seg_source seg") (simp_all add: segment_ok_def)
  have mem: "?ix seg = Some i \<Longrightarrow> ?ix seg \<in> ?ix ` set segs \<longleftrightarrow> (\<exists>s \<in> set segs. ?ix s = Some i)" for i
    unfolding image_iff by metis
  show ?case
  proof (cases "segment_ok seg")
    case True
    then obtain i where i: "?ix seg = Some i" using some by blast
    show ?thesis
    proof (cases "i \<in> seen")
      case True
      with i show ?thesis by (auto simp: step simp del: validate_sources.simps)
    next
      case False
      have "validate_sources seen (seg # segs) = Inr () \<longleftrightarrow> validate_sources (insert i seen) segs = Inr ()"
        using \<open>segment_ok seg\<close> i False by (simp add: step del: validate_sources.simps)
      with IH [OF \<open>segment_ok seg\<close> i False] show ?thesis
        using \<open>segment_ok seg\<close> i False mem [OF i] by (simp del: validate_sources.simps) blast
    qed
  qed (simp add: step del: validate_sources.simps)
qed simp

text \<open>
  C29: A sequence plan is accepted exactly when it has a segment, is a single ordered segment or
  reads distinct template slots (scalar ones through one single field), has at most 64 test
  nodes, and every selector in its tests, however deeply nested, names a logical field of the
  plan, with no test of the whole fact among them.
\<close>

theorem validate_plan_iff:
  "validate_plan plan = Inr () \<longleftrightarrow>
     plan_segments plan \<noteq> [] \<and>
     (is_ordered plan \<or>
        (\<forall>seg \<in> set (plan_segments plan). segment_ok seg) \<and>
        distinct (map (\<lambda>seg. source_index (seg_source seg)) (plan_segments plan))) \<and>
     sum_list (map test_nodes (plan_tests plan)) \<le> 64 \<and>
     (\<forall>t \<in> set (plan_tests plan). test_ok plan t)"
proof -
  have "max_alpha_tests < constant_test_count (plan_tests plan) \<longleftrightarrow>
      \<not> sum_list (map test_nodes (plan_tests plan)) \<le> 64"
    by (auto simp: constant_test_count_eq max_alpha_tests_def usize_max_def)
  moreover have "(case x of Inl e \<Rightarrow> Inl e | Inr _ \<Rightarrow> y) = Inr () \<longleftrightarrow> x = Inr () \<and> y = Inr ()"
    for x :: "sequence_error + unit" and y by (cases x) auto
  ultimately show ?thesis
    by (auto simp: validate_plan_def validate_sources_iff validate_tests_iff)
qed

definition sample_plan :: sequence_pattern where
  "sample_plan = SequencePattern [\<lparr>seg_source = SourceOrdered, seg_fields = [Single, Multi, Multi]\<rparr>]
     [ConstantTest (OrderedSlot 0) (TEqual (KInteger 1)),
      ConstantTest (OrderedSlot 2) (TAny [[ConstantTest (OrderedSlot 0) (TEqualSlot (OrderedSlot 0))]])]"

theorem validate_plan_iff_witness:
  "validate_plan sample_plan = Inr () \<and> validate_plan (SequencePattern [] []) \<noteq> Inr ()"
proof -
  have "is_ordered sample_plan" "valid_logical_slot sample_plan (OrderedSlot 0)"
    "valid_logical_slot sample_plan (OrderedSlot 2)"
    by (simp_all add: sample_plan_def is_ordered_def logical_width_def)
  then have "validate_plan sample_plan = Inr ()"
    by (subst validate_plan_iff) (simp add: sample_plan_def test_ok.simps test_nodes.simps)
  moreover have "validate_plan (SequencePattern [] []) \<noteq> Inr ()"
    by (subst validate_plan_iff) simp
  ultimately show ?thesis ..
qed

end
