(* ===== verification/Sequence_Search.thy ===== *)
theory Sequence_Search
  imports Sequence_Plans
begin

text \<open>
  The search for splits in \<open>sequence.rs\<close>: how the fields of a fact can be divided among the fields
  of a plan, tests being run as soon as the fields they read are placed. The cells that cache a
  copied capture are invisible. The search yields its events in order; what a visitor sees before
  it breaks off is a prefix of them. \<open>None\<close> is a panic of an index or slice.
\<close>

section \<open>Splits\<close>

datatype field_ref = FieldSingle val | FieldMulti "val list"

record split_view =
  split_fact :: fact
  split_fields :: "field_ref list"
  split_lengths :: "nat list"

fun field_value :: "field_ref \<Rightarrow> val" where
  "field_value (FieldSingle v) = v"
| "field_value (FieldMulti vs) = VMultifield vs"

text \<open>The field a selector names, if it is of the kind of the fact.\<close>

definition selected_field :: "split_view \<Rightarrow> slot_index \<Rightarrow> field_ref option" where
  "selected_field sv slot =
     (case (slot, split_fact sv) of
        (OrderedSlot i, Ordered _) \<Rightarrow> if i < length (split_fields sv) then Some (split_fields sv ! i) else None
      | (TemplateSlot i, Template _) \<Rightarrow> if i < length (split_fields sv) then Some (split_fields sv ! i) else None
      | _ \<Rightarrow> None)"

definition split_get :: "split_view \<Rightarrow> slot_index \<Rightarrow> val option" where
  "split_get sv slot = map_option field_value (selected_field sv slot)"

definition split_capture :: "split_view \<Rightarrow> slot_index \<Rightarrow> val list option" where
  "split_capture sv slot =
     (case selected_field sv slot of Some (FieldMulti vs) \<Rightarrow> Some vs | _ \<Rightarrow> None)"

definition placed_fields :: "split_view \<Rightarrow> nat" where
  "placed_fields sv = length (split_fields sv)"

fun segment_values :: "sequence_source \<Rightarrow> fact \<Rightarrow> val list option" where
  "segment_values SourceOrdered f = (case f of Ordered od \<Rightarrow> Some (fact_fields od) | Template _ \<Rightarrow> None)"
| "segment_values (SourceTemplateSlot i) f =
     (case f of
        Template t \<Rightarrow>
          if i < length (slots t)
          then Some (case slots t ! i of VMultifield vs \<Rightarrow> vs | v \<Rightarrow> [v])
          else None
      | Ordered _ \<Rightarrow> None)"
| "segment_values (SourceTemplateScalar i) f =
     (case f of
        Template t \<Rightarrow> if i < length (slots t) then Some [slots t ! i] else None
      | Ordered _ \<Rightarrow> None)"

definition singles :: "sequence_field list \<Rightarrow> nat" where
  "singles fs = length (filter (\<lambda>f. f = Single) fs)"

definition segment_extra :: "sequence_field list \<Rightarrow> val list \<Rightarrow> nat option" where
  "segment_extra fs vs =
     (if singles fs \<le> length vs
      then (let extra = length vs - singles fs
            in if extra = 0 \<or> singles fs < length fs then Some extra else None)
      else None)"

fun test_extent :: "constant_test \<Rightarrow> nat" where
  "test_extent (ConstantTest slot ty) =
     max (saturating_add (slot_number slot) 1)
       (case ty of
          TAny branches \<Rightarrow> fold max (map test_extent (concat branches)) 0
        | _ \<Rightarrow> (case referenced_slot ty of Some s \<Rightarrow> saturating_add (slot_number s) 1 | None \<Rightarrow> 0))"

declare test_extent.simps [simp del]

section \<open>The search\<close>

datatype split_event = Step | Match split_view

type_synonym prefix_filter = "split_view \<Rightarrow> nat \<Rightarrow> bool \<Rightarrow> bool"

definition ready_tests_pass :: "sequence_pattern \<Rightarrow> prefix_filter \<Rightarrow> split_view \<Rightarrow> nat \<Rightarrow> bool \<Rightarrow> bool" where
  "ready_tests_pass plan pre sv checked complete \<longleftrightarrow>
     (\<forall>t \<in> set (plan_tests plan).
        test_extent t \<le> checked \<or>
        (placed_fields sv < test_extent t \<and> \<not> complete) \<or>
        evaluate_field_test t (split_get sv)) \<and>
     pre sv checked complete"

definition push_single :: "val \<Rightarrow> split_view \<Rightarrow> split_view" where
  "push_single v sv = sv\<lparr>split_fields := split_fields sv @ [FieldSingle v]\<rparr>"

definition push_capture :: "val list \<Rightarrow> split_view \<Rightarrow> split_view" where
  "push_capture vs sv = sv\<lparr>split_fields := split_fields sv @ [FieldMulti vs],
     split_lengths := split_lengths sv @ [length vs]\<rparr>"

text \<open>
  \<open>sources\<close> holds each segment's values and the length its captures share. The splits of a fact
  are placed from \<open>field\<close> of \<open>segment\<close> on, at \<open>offset\<close>, with \<open>extra\<close> values left for captures.
\<close>

function place ::
  "sequence_pattern \<Rightarrow> prefix_filter \<Rightarrow> (val list \<times> nat) list \<Rightarrow> nat \<Rightarrow> nat \<Rightarrow> nat \<Rightarrow> nat \<Rightarrow> nat \<Rightarrow>
   split_view \<Rightarrow> split_event list option"
where
  "place plan pre sources segment field offset extra checked sv =
     (if length (plan_segments plan) \<le> segment \<or> length sources \<le> segment then None
      else
        (let fields = seg_fields (plan_segments plan ! segment);
             vs = fst (sources ! segment)
         in if field = length fields then
              (if Suc segment < length (plan_segments plan) then
                 (if length sources \<le> Suc segment then None
                  else place plan pre sources (Suc segment) 0 0 (snd (sources ! Suc segment)) checked sv)
               else Some (if ready_tests_pass plan pre sv checked True then [Match sv] else []))
            else if length fields < field then None
            else if fields ! field = Single then
              (if offset < length vs
               then place plan pre sources segment (Suc field) (Suc offset) extra checked (push_single (vs ! offset) sv)
               else None)
            else if \<not> ready_tests_pass plan pre sv checked False then Some []
            else
              (let last = (\<forall>f \<in> set (drop (Suc field) fields). f = Single);
                   shortest = (if last then extra else 0)
               in map_option concat (those (map
                    (\<lambda>len.
                       if offset + len \<le> length vs
                       then map_option (\<lambda>events. (if last then [] else [Step]) @ events)
                              (place plan pre sources segment (Suc field) (offset + len) (extra - len)
                                 (placed_fields sv) (push_capture (take len (drop offset vs)) sv))
                       else None)
                    (rev [shortest..<Suc extra]))))))"
  by pat_completeness auto
termination
  by (relation "measures [\<lambda>(plan, _, _, segment, _). length (plan_segments plan) - segment,
      \<lambda>(plan, _, _, segment, field, _). length (seg_fields (plan_segments plan ! segment)) - field]") auto

declare place.simps [simp del]

text \<open>The sources of the segments, unless one is missing or cannot be filled.\<close>

definition search_sources :: "sequence_pattern \<Rightarrow> fact \<Rightarrow> (val list \<times> nat) list option" where
  "search_sources plan f =
     those (map (\<lambda>seg. Option.bind (segment_values (seg_source seg) f)
        (\<lambda>vs. map_option (\<lambda>extra. (vs, extra)) (segment_extra (seg_fields seg) vs))) (plan_segments plan))"

definition search_with_prefix :: "sequence_pattern \<Rightarrow> fact \<Rightarrow> prefix_filter \<Rightarrow> split_event list option" where
  "search_with_prefix plan f pre =
     (case search_sources plan f of
        None \<Rightarrow> Some []
      | Some [] \<Rightarrow> Some []
      | Some ((vs, extra) # rest) \<Rightarrow>
          place plan pre ((vs, extra) # rest) 0 0 0 extra 0
            \<lparr>split_fact = f, split_fields = [], split_lengths = []\<rparr>)"

definition search :: "sequence_pattern \<Rightarrow> fact \<Rightarrow> split_event list option" where
  "search plan f = search_with_prefix plan f (\<lambda>_ _ _. True)"

text \<open>The visitor that breaks off at the first match.\<close>

definition any_match :: "split_event list option \<Rightarrow> bool" where
  "any_match events \<longleftrightarrow> (case events of None \<Rightarrow> False | Some es \<Rightarrow> \<exists>e \<in> set es. e \<noteq> Step)"

definition admits :: "sequence_pattern \<Rightarrow> fact \<Rightarrow> bool" where
  "admits plan f \<longleftrightarrow> any_match (search plan f)"

definition accepts :: "sequence_pattern \<Rightarrow> split_view \<Rightarrow> bool" where
  "accepts plan sv \<longleftrightarrow> (\<forall>t \<in> set (plan_tests plan). evaluate_field_test t (split_get sv))"

text \<open>A whole-fact test: evaluation on a fact, as the alpha network does it.\<close>

definition evaluate_test :: "fact \<Rightarrow> constant_test \<Rightarrow> bool" where
  "evaluate_test f t =
     (case test_type t of
        TOrderedFieldCount lo hi \<Rightarrow>
          (case f of
             Ordered od \<Rightarrow> lo \<le> length (fact_fields od) \<and>
               (case hi of None \<Rightarrow> True | Some m \<Rightarrow> length (fact_fields od) \<le> m)
           | Template _ \<Rightarrow> False)
      | TSequence plan \<Rightarrow> admits plan f
      | _ \<Rightarrow> evaluate_field_test t (get_slot_value f))"

text \<open>Rebuilding one split from its recorded lengths.\<close>

fun project_fields :: "sequence_field list \<Rightarrow> val list \<Rightarrow> nat \<Rightarrow> nat list \<Rightarrow> field_ref list \<Rightarrow>
    (nat \<times> nat list \<times> field_ref list) option" where
  "project_fields [] vs offset lengths placed = Some (offset, lengths, placed)"
| "project_fields (Single # fs) vs offset lengths placed =
     (if offset + 1 \<le> length vs
      then project_fields fs vs (offset + 1) lengths (placed @ [FieldSingle (vs ! offset)])
      else None)"
| "project_fields (Multi # fs) vs offset lengths placed =
     (case lengths of
        [] \<Rightarrow> None
      | len # lengths \<Rightarrow>
          if usize_max < offset + len then None
          else if offset + len \<le> length vs
          then project_fields fs vs (offset + len) lengths (placed @ [FieldMulti (take len (drop offset vs))])
          else None)"

fun project_segments :: "sequence_segment list \<Rightarrow> fact \<Rightarrow> nat list \<Rightarrow> field_ref list \<Rightarrow>
    (nat list \<times> field_ref list) option" where
  "project_segments [] f lengths placed = Some (lengths, placed)"
| "project_segments (seg # segs) f lengths placed =
     Option.bind (segment_values (seg_source seg) f) (\<lambda>vs.
       Option.bind (project_fields (seg_fields seg) vs 0 lengths placed) (\<lambda>(offset, lengths, placed).
         if offset \<noteq> length vs then None else project_segments segs f lengths placed))"

definition project :: "sequence_pattern \<Rightarrow> fact \<Rightarrow> nat list \<Rightarrow> split_view option" where
  "project plan f lengths =
     Option.bind (project_segments (plan_segments plan) f lengths []) (\<lambda>(rest, placed).
       if rest = [] \<and> plan_segments plan \<noteq> []
       then Some \<lparr>split_fact = f, split_fields = placed, split_lengths = lengths\<rparr>
       else None)"

section \<open>All splits\<close>

text \<open>
  The reference: every way to divide values among fields, longest first captures first, and
  earlier segments outermost, with the lengths of the captures.
\<close>

fun segment_splits :: "sequence_field list \<Rightarrow> val list \<Rightarrow> (field_ref list \<times> nat list) list" where
  "segment_splits [] vs = (if vs = [] then [([], [])] else [])"
| "segment_splits (Single # fs) vs =
     (case vs of [] \<Rightarrow> [] | v # vs \<Rightarrow> map (\<lambda>(rs, ls). (FieldSingle v # rs, ls)) (segment_splits fs vs))"
| "segment_splits (Multi # fs) vs =
     concat (map (\<lambda>len. map (\<lambda>(rs, ls). (FieldMulti (take len vs) # rs, len # ls)) (segment_splits fs (drop len vs)))
       (rev [0..<Suc (length vs)]))"

fun plan_splits :: "sequence_segment list \<Rightarrow> fact \<Rightarrow> (field_ref list \<times> nat list) list" where
  "plan_splits [] f = [([], [])]"
| "plan_splits (seg # segs) f =
     (case segment_values (seg_source seg) f of
        None \<Rightarrow> []
      | Some vs \<Rightarrow> concat (map (\<lambda>(rs, ls). map (\<lambda>(rs', ls'). (rs @ rs', ls @ ls')) (plan_splits segs f))
                     (segment_splits (seg_fields seg) vs)))"

definition all_splits :: "sequence_pattern \<Rightarrow> fact \<Rightarrow> split_view list" where
  "all_splits plan f =
     (if plan_segments plan = [] then []
      else map (\<lambda>(rs, ls). \<lparr>split_fact = f, split_fields = rs, split_lengths = ls\<rparr>)
             (plan_splits (plan_segments plan) f))"

end
