(* ===== verification/Sequence_Correct.thy ===== *)
theory Sequence_Correct
  imports Sequence_Search
begin

text \<open>
  The split search is exact: it never panics and reports, in order, exactly the splits that pass
  all tests, although it prunes on partly placed splits. A staged filter, whose parts each need a
  number of leading fields, may be added; the join tests are one.
\<close>

section \<open>Tests read only the fields before their extent\<close>

lemma fold_max_le: "fold max xs (m::nat) \<le> n \<longleftrightarrow> m \<le> n \<and> (\<forall>x \<in> set xs. x \<le> n)"
  by (induction xs arbitrary: m) auto

lemma extent_slot: "saturating_add (slot_number s) 1 \<le> n \<Longrightarrow> n < usize_max \<Longrightarrow> slot_number s < n"
  by (auto simp: saturating_add_def)

lemma evaluate_field_test_cong:
  assumes "test_extent t \<le> n" "n < usize_max" "\<And>s. slot_number s < n \<Longrightarrow> field s = field' s"
  shows "evaluate_field_test t field = evaluate_field_test t field'"
  using assms
proof (induction t rule: test_extent.induct)
  case (1 slot ty)
  have ext: "saturating_add (slot_number slot) 1 \<le> n" using "1.prems"(1) by (simp add: test_extent.simps)
  then have slot: "field slot = field' slot" using "1.prems" extent_slot by blast
  have ref: "field s = field' s" if "referenced_slot ty = Some s" for s
  proof -
    have "saturating_add (slot_number s) 1 \<le> n"
      using "1.prems"(1) that by (cases ty) (simp_all add: test_extent.simps)
    then show ?thesis using "1.prems" extent_slot by blast
  qed
  show ?case
  proof (cases "\<exists>branches. ty = TAny branches")
    case True
    then obtain branches where ty: "ty = TAny branches" by blast
    have "evaluate_field_test t field = evaluate_field_test t field'" if "t \<in> set (concat branches)" for t
    proof (rule "1.IH" [OF ty that])
      show "test_extent t \<le> n"
        using "1.prems"(1) that by (auto simp: test_extent.simps ty fold_max_le)
    qed (use "1.prems" in auto)
    then have "(\<exists>branch \<in> set branches. \<forall>t \<in> set branch. evaluate_field_test t field) \<longleftrightarrow>
        (\<exists>branch \<in> set branches. \<forall>t \<in> set branch. evaluate_field_test t field')" by auto
    then show ?thesis by (simp add: evaluate_field_test.simps slot ty split: option.split)
  next
    case False
    with slot ref show ?thesis
      by (cases ty) (auto simp: evaluate_field_test.simps compare_other_slot_def split: option.split)
  qed
qed

definition extended :: "field_ref list \<Rightarrow> nat list \<Rightarrow> split_view \<Rightarrow> split_view" where
  "extended rs ls sv = sv\<lparr>split_fields := split_fields sv @ rs, split_lengths := split_lengths sv @ ls\<rparr>"

lemma extended_simps [simp]:
  "extended [] [] sv = sv" "extended (FieldSingle v # rs) ls sv = extended rs ls (push_single v sv)"
  "extended (FieldMulti vs # rs) (length vs # ls) sv = extended rs ls (push_capture vs sv)"
  "extended rs' ls' (extended rs ls sv) = extended (rs @ rs') (ls @ ls') sv"
  by (simp_all add: extended_def push_single_def push_capture_def)

lemma map_extended_single:
  "map (\<lambda>(rs, ls). extended rs ls sv) (map (\<lambda>(rs, ls). (FieldSingle v # rs, ls)) A) =
    map (\<lambda>(rs, ls). extended rs ls (push_single v sv)) A"
  by (induction A) auto

lemma map_extended_capture:
  assumes "len \<le> length vs"
  shows "map (\<lambda>(rs, ls). extended rs ls sv) (map (\<lambda>(rs, ls). (FieldMulti (take len vs) # rs, len # ls)) A) =
    map (\<lambda>(rs, ls). extended rs ls (push_capture (take len vs) sv)) A"
  using extended_simps(3) [of "take len vs"] assms by (induction A) auto

lemma placed_simps [simp]:
  "placed_fields (push_single v sv) = Suc (placed_fields sv)"
  "placed_fields (push_capture vs sv) = Suc (placed_fields sv)"
  "split_fact (push_single v sv) = split_fact sv" "split_fact (push_capture vs sv) = split_fact sv"
  "split_fact (extended rs ls sv) = split_fact sv"
  by (simp_all add: placed_fields_def push_single_def push_capture_def extended_def)

lemma selected_field_extended: "slot_number s < placed_fields sv \<Longrightarrow> selected_field (extended rs ls sv) s = selected_field sv s"
  by (cases s; cases "split_fact sv") (simp_all add: selected_field_def extended_def placed_fields_def nth_append)

lemma test_stable:
  "test_extent t \<le> placed_fields sv \<Longrightarrow> placed_fields sv < usize_max \<Longrightarrow>
    evaluate_field_test t (split_get (extended rs ls sv)) = evaluate_field_test t (split_get sv)"
  by (rule evaluate_field_test_cong) (auto simp: split_get_def selected_field_extended)

section \<open>Impossible splits\<close>

lemma segment_splits_short: "length vs < singles fs \<Longrightarrow> segment_splits fs vs = []"
proof (induction fs vs rule: segment_splits.induct)
  case (3 fs vs)
  then have "segment_splits fs (drop len vs) = []" if "len \<le> length vs" for len
    using that by (intro "3.IH") (auto simp: singles_def)
  from this this [of "length vs"] show ?case by (simp add: concat_eq_Nil_conv)
qed (auto simp: singles_def split: list.split)

lemma segment_splits_exact: "Multi \<notin> set fs \<Longrightarrow> length vs \<noteq> singles fs \<Longrightarrow> segment_splits fs vs = []"
proof (induction fs vs rule: segment_splits.induct)
  case (2 fs vs)
  then show ?case by (cases vs) (auto simp: singles_def)
qed (auto simp: singles_def)

lemma single_iff: "f = Single \<longleftrightarrow> f \<noteq> Multi"
  by (cases f) auto

lemma singles_less_iff: "singles fs < length fs \<longleftrightarrow> Multi \<in> set fs"
  by (induction fs) (auto simp: singles_def single_iff less_Suc_eq_le)

lemma concat_window:
  assumes "a \<le> b" "b \<le> n" "\<And>l. l \<le> n \<Longrightarrow> l < a \<or> b < l \<Longrightarrow> g l = []"
  shows "concat (map g (rev [0..<Suc n])) = concat (map g (rev [a..<Suc b]))"
proof -
  have "[0..<Suc n] = [0..<a] @ [a..<Suc n]"
    using upt_add_eq_append [of 0 a "Suc n - a"] assms(1,2) by simp
  also have "[a..<Suc n] = [a..<Suc b] @ [Suc b..<Suc n]"
    using upt_add_eq_append [of a "Suc b" "n - b"] assms(1,2) by simp
  finally have all: "[0..<Suc n] = [0..<a] @ [a..<Suc b] @ [Suc b..<Suc n]" .
  have none: "concat (map g (rev [0..<a])) = []" "concat (map g (rev [Suc b..<Suc n])) = []"
    using assms by (auto simp: concat_eq_Nil_conv simp del: upt_Suc)
  show ?thesis unfolding all rev_append map_append concat_append none by simp
qed

text \<open>Lists of results of a traversal that may panic, viewed through a distributive function.\<close>

lemma those_concat:
  assumes "\<And>x. x \<in> set xs \<Longrightarrow> \<exists>es. F x = Some es \<and> h es = g x"
    and "h [] = []" "\<And>a b. h (a @ b) = h a @ h b"
  shows "\<exists>es. map_option concat (those (map F xs)) = Some es \<and> h es = concat (map g xs)"
  using assms(1)
proof (induction xs)
  case (Cons x xs)
  then obtain es where "map_option concat (those (map F xs)) = Some es" "h es = concat (map g xs)" by auto
  moreover from Cons.prems [of x] obtain e where "F x = Some e" "h e = g x" by auto
  ultimately show ?case by (auto simp: assms(3))
qed (simp add: assms(2))

section \<open>The search is exact\<close>

definition matches :: "split_event list \<Rightarrow> split_view list" where
  "matches es = concat (map (\<lambda>e. case e of Step \<Rightarrow> [] | Match sv \<Rightarrow> [sv]) es)"

lemma matches_simps [simp]:
  "matches [] = []" "matches (Step # es) = matches es" "matches (Match sv # es) = sv # matches es"
  "matches (es @ es') = matches es @ matches es'"
  by (simp_all add: matches_def)

definition join_splits :: "('a list \<times> 'b list) list \<Rightarrow> ('a list \<times> 'b list) list \<Rightarrow> ('a list \<times> 'b list) list" where
  "join_splits A B = concat (map (\<lambda>(rs, ls). map (\<lambda>(rs', ls'). (rs @ rs', ls @ ls')) B) A)"

lemma join_splits_simps [simp]:
  "join_splits [] B = []" "join_splits [([], [])] B = B"
  "join_splits (A @ A') B = join_splits A B @ join_splits A' B"
  by (simp_all add: join_splits_def case_prod_beta)

lemma join_splits_prepend:
  "join_splits (map (\<lambda>(rs, ls). (r @ rs, l @ ls)) A) B = map (\<lambda>(rs, ls). (r @ rs, l @ ls)) (join_splits A B)"
  by (induction A) (auto simp: join_splits_def)

lemma join_splits_concat: "join_splits (concat As) B = concat (map (\<lambda>A. join_splits A B) As)"
  by (induction As) auto

lemma plan_splits_Cons:
  "plan_splits (seg # segs) f =
     (case segment_values (seg_source seg) f of
        None \<Rightarrow> [] | Some vs \<Rightarrow> join_splits (segment_splits (seg_fields seg) vs) (plan_splits segs f))"
  by (simp add: join_splits_def split: option.split)

declare plan_splits.simps(2) [simp del]

text \<open>
  A staged filter: each condition needs a number of leading fields, is decided by them, and is
  tested once, when they are placed.
\<close>

locale staged_filter =
  fixes plan :: sequence_pattern and pre :: prefix_filter
    and conds :: "'i set" and need :: "'i \<Rightarrow> nat" and holds :: "'i \<Rightarrow> split_view \<Rightarrow> bool"
  assumes ready_iff: "ready_tests_pass plan pre sv checked complete \<longleftrightarrow>
      (\<forall>i \<in> conds. need i \<le> checked \<or> (placed_fields sv < need i \<and> \<not> complete) \<or> holds i sv)"
    and stable: "i \<in> conds \<Longrightarrow> need i \<le> placed_fields sv \<Longrightarrow> placed_fields sv < usize_max \<Longrightarrow>
      holds i (extended rs ls sv) = holds i sv"
    and need_pos: "i \<in> conds \<Longrightarrow> 0 < need i"
begin

definition passes :: "split_view \<Rightarrow> bool" where
  "passes sv \<longleftrightarrow> (\<forall>i \<in> conds. holds i sv)"

definition settled :: "nat \<Rightarrow> split_view \<Rightarrow> bool" where
  "settled checked sv \<longleftrightarrow> checked \<le> placed_fields sv \<and> (\<forall>i \<in> conds. need i \<le> checked \<longrightarrow> holds i sv)"

lemma settled_single: "settled checked sv \<Longrightarrow> placed_fields sv < usize_max \<Longrightarrow> settled checked (push_single v sv)"
  using stable [of _ sv "[FieldSingle v]" "[]"] by (auto simp: settled_def)

lemma settled_capture:
  "settled checked sv \<Longrightarrow> placed_fields sv < usize_max \<Longrightarrow> ready_tests_pass plan pre sv checked False \<Longrightarrow>
    settled (placed_fields sv) (push_capture vs sv)"
  using stable [of _ sv "[FieldMulti vs]" "[length vs]"] by (force simp: settled_def ready_iff)

lemma not_ready: 
  assumes "\<not> ready_tests_pass plan pre sv checked False" "placed_fields sv < usize_max"
  shows "filter passes (map (\<lambda>(rs, ls). extended rs ls sv) A) = []"
proof -
  obtain i where "i \<in> conds" "need i \<le> placed_fields sv" "\<not> holds i sv"
    using assms(1) by (auto simp: ready_iff not_less)
  then have "\<not> passes (extended rs ls sv)" for rs ls
    using stable [of i sv rs ls] assms(2) by (auto simp: passes_def)
  then show ?thesis by (auto simp: filter_empty_conv)
qed

lemma ready_complete: "settled checked sv \<Longrightarrow> ready_tests_pass plan pre sv checked True \<longleftrightarrow> passes sv"
  by (auto simp: ready_iff settled_def passes_def)

text \<open>What is left to place, and that the values left are just enough for it.\<close>

definition rest_splits :: "fact \<Rightarrow> nat \<Rightarrow> nat \<Rightarrow> val list \<Rightarrow> (field_ref list \<times> nat list) list" where
  "rest_splits f segment field vs =
     join_splits (segment_splits (drop field (seg_fields (plan_segments plan ! segment))) vs)
       (plan_splits (drop (Suc segment) (plan_segments plan)) f)"

definition rest_width :: "nat \<Rightarrow> nat \<Rightarrow> nat" where
  "rest_width segment field =
     length (drop field (seg_fields (plan_segments plan ! segment))) +
     sum_list (map (length \<circ> seg_fields) (drop (Suc segment) (plan_segments plan)))"

definition fitting :: "sequence_field list \<Rightarrow> val list \<Rightarrow> nat \<Rightarrow> bool" where
  "fitting fs vs extra \<longleftrightarrow> length vs = singles fs + extra \<and> (Multi \<in> set fs \<or> extra = 0)"

definition sourced :: "fact \<Rightarrow> (val list \<times> nat) list \<Rightarrow> bool" where
  "sourced f sources \<longleftrightarrow>
     list_all2 (\<lambda>seg (vs, extra). segment_values (seg_source seg) f = Some vs \<and> fitting (seg_fields seg) vs extra)
       (plan_segments plan) sources"

abbreviation seg_at :: "nat \<Rightarrow> sequence_field list" where
  "seg_at segment \<equiv> seg_fields (plan_segments plan ! segment)"

lemma rest_splits_end:
  assumes "sourced f sources" "segment < length (plan_segments plan)" "fitting [] vs extra"
  shows "rest_splits f segment (length (seg_at segment)) vs =
    (if Suc segment < length (plan_segments plan)
     then rest_splits f (Suc segment) 0 (fst (sources ! Suc segment)) else [([], [])])"
proof -
  have vs: "vs = []" using assms(3) by (auto simp: fitting_def singles_def)
  show ?thesis
  proof (cases "Suc segment < length (plan_segments plan)")
    case True
    then have "segment_values (seg_source (plan_segments plan ! Suc segment)) f = Some (fst (sources ! Suc segment))"
      using assms(1) by (cases "sources ! Suc segment") (auto simp: sourced_def list_all2_conv_all_nth)
    with True vs show ?thesis
      by (simp add: rest_splits_def plan_splits_Cons flip: Cons_nth_drop_Suc [OF True])
  qed (simp add: rest_splits_def vs)
qed

lemma rest_width_end:
  "Suc segment < length (plan_segments plan) \<Longrightarrow>
    rest_width segment (length (seg_at segment)) = rest_width (Suc segment) 0"
  by (simp add: rest_width_def flip: Cons_nth_drop_Suc [of "Suc segment"])

lemma rest_width_Suc:
  "field < length (seg_at segment) \<Longrightarrow> rest_width segment field = Suc (rest_width segment (Suc field))"
  by (simp add: rest_width_def)

lemma sourced_fitting:
  "sourced f sources \<Longrightarrow> segment < length (plan_segments plan) \<Longrightarrow>
    fitting (seg_at segment) (fst (sources ! segment)) (snd (sources ! segment))"
  by (auto simp: sourced_def list_all2_conv_all_nth split: prod.splits)

lemma rest_splits_single:
  assumes "field < length (seg_at segment)" "seg_at segment ! field = Single"
  shows "rest_splits f segment field (v # vs) =
    map (\<lambda>(rs, ls). (FieldSingle v # rs, ls)) (rest_splits f segment (Suc field) vs)"
  using join_splits_prepend [of "[FieldSingle v]" "[]"] assms
  by (simp add: rest_splits_def flip: Cons_nth_drop_Suc [OF assms(1)])

lemma rest_splits_multi:
  assumes "field < length (seg_at segment)" "seg_at segment ! field \<noteq> Single"
  shows "rest_splits f segment field vs =
    concat (map (\<lambda>len. map (\<lambda>(rs, ls). (FieldMulti (take len vs) # rs, len # ls))
        (rest_splits f segment (Suc field) (drop len vs))) (rev [0..<Suc (length vs)]))"
proof -
  have "seg_at segment ! field = Multi" using assms(2) by (simp add: single_iff)
  then show ?thesis
    using join_splits_prepend [of "[FieldMulti (take len vs)]" "[len]" for len]
    by (simp add: rest_splits_def join_splits_concat comp_def del: upt_Suc flip: Cons_nth_drop_Suc [OF assms(1)])
qed

lemma multi_window:
  assumes "field < length (seg_at segment)" "seg_at segment ! field \<noteq> Single"
    and "fitting (drop field (seg_at segment)) vs extra"
    and "shortest = (if \<forall>f \<in> set (drop (Suc field) (seg_at segment)). f = Single then extra else 0)"
  shows "rest_splits f segment field vs =
    concat (map (\<lambda>len. map (\<lambda>(rs, ls). (FieldMulti (take len vs) # rs, len # ls))
        (rest_splits f segment (Suc field) (drop len vs))) (rev [shortest..<Suc extra]))" (is ?eq)
    and "len \<in> set (rev [shortest..<Suc extra]) \<Longrightarrow> len \<le> length vs \<and>
      fitting (drop (Suc field) (seg_at segment)) (drop len vs) (extra - len)" (is "?mem \<Longrightarrow> ?fit")
proof -
  have "seg_at segment ! field = Multi" using assms(2) by (simp add: single_iff)
  then have drop: "drop field (seg_at segment) = Multi # drop (Suc field) (seg_at segment)"
    using Cons_nth_drop_Suc [OF assms(1)] by simp
  let ?fs = "drop (Suc field) (seg_at segment)"
  have size: "length vs = singles ?fs + extra" using assms(3) by (simp add: drop fitting_def singles_def)
  have last: "(\<forall>f \<in> set ?fs. f = Single) \<longleftrightarrow> Multi \<notin> set ?fs" by (auto simp: single_iff)
  have "segment_splits ?fs (drop len vs) = []" if "len \<le> length vs" "len < shortest \<or> extra < len" for len
  proof (cases "extra < len")
    case False
    with that have "Multi \<notin> set ?fs" "len < extra"
      using assms(4) by (auto simp: last split: if_splits)
    with size that show ?thesis by (intro segment_splits_exact) auto
  qed (use size that in \<open>intro segment_splits_short, auto\<close>)
  then have none: "rest_splits f segment (Suc field) (drop len vs) = []"
    if "len \<le> length vs" "len < shortest \<or> extra < len" for len
    using that by (simp add: rest_splits_def)
  show ?eq
    unfolding rest_splits_multi [OF assms(1,2)]
    by (rule concat_window) (use none size assms(4) in auto)
  show ?fit if ?mem
    using that size assms(4) by (auto simp: fitting_def last split: if_splits)
qed

lemma place_exact:
  assumes "plan' = plan" "pre' = pre" "sourced f sources" "segment < length (plan_segments plan)"
    "field \<le> length (seg_at segment)" "offset \<le> length (fst (sources ! segment))"
    "fitting (drop field (seg_at segment)) (drop offset (fst (sources ! segment))) extra"
    "settled checked sv" "placed_fields sv + rest_width segment field < usize_max"
  shows "\<exists>es. place plan' pre' sources segment field offset extra checked sv = Some es \<and>
    matches es = filter passes (map (\<lambda>(rs, ls). extended rs ls sv)
      (rest_splits f segment field (drop offset (fst (sources ! segment)))))"
  using assms
proof (induction plan' pre' sources segment field offset extra checked sv rule: place.induct)
  case (1 plan' pre' sources segment field offset extra checked sv)
  note eqs = "1.prems"(1,2) and prems = "1.prems"(3-)
  have len: "length sources = length (plan_segments plan)"
    using prems(1) by (auto simp: sourced_def dest: list_all2_lengthD)
  have guard: "\<not> (length (plan_segments plan') \<le> segment \<or> length sources \<le> segment)"
    using prems(2) len eqs by simp
  let ?vs = "fst (sources ! segment)"
  consider (last) "field = length (seg_at segment)"
    | (single) "field < length (seg_at segment)" "seg_at segment ! field = Single"
    | (multi) "field < length (seg_at segment)" "seg_at segment ! field \<noteq> Single"
    using prems(3) by linarith
  then show ?case
  proof cases
    case last
    show ?thesis
    proof (cases "Suc segment < length (plan_segments plan)")
      case True
      have "fitting (drop 0 (seg_at (Suc segment))) (drop 0 (fst (sources ! Suc segment))) (snd (sources ! Suc segment))"
        using sourced_fitting [OF prems(1) True] by simp
      moreover have "placed_fields sv + rest_width (Suc segment) 0 < usize_max"
        using prems(7) last rest_width_end [OF True] by simp
      ultimately have "\<exists>es. place plan' pre' sources (Suc segment) 0 0 (snd (sources ! Suc segment)) checked sv = Some es \<and>
          matches es = filter passes (map (\<lambda>(rs, ls). extended rs ls sv)
            (rest_splits f (Suc segment) 0 (drop 0 (fst (sources ! Suc segment)))))"
        using True last len eqs by (intro "1.IH"(1) [OF guard refl refl] prems(1,6)) simp_all
      with True last prems len guard eqs rest_splits_end [OF prems(1,2), of "drop offset ?vs" extra]
      show ?thesis by (subst place.simps) simp
    next
      case False
      with last prems len guard eqs rest_splits_end [OF prems(1,2), of "drop offset ?vs" extra]
      show ?thesis by (subst place.simps) (simp add: ready_complete)
    qed
  next
    case single
    let ?v = "?vs ! offset"
    have drop: "drop field (seg_at segment) = Single # drop (Suc field) (seg_at segment)"
      using single by (metis Cons_nth_drop_Suc)
    have offset: "offset < length ?vs" using prems(5) by (simp add: drop fitting_def singles_def) arith
    have "fitting (drop (Suc field) (seg_at segment)) (drop (Suc offset) ?vs) extra"
      using prems(5) by (auto simp: drop fitting_def singles_def)
    moreover have "placed_fields (push_single ?v sv) + rest_width segment (Suc field) < usize_max"
      using prems(7) rest_width_Suc [OF single(1)] by simp
    moreover have "settled checked (push_single ?v sv)"
      using settled_single [OF prems(6)] prems(7) by simp
    ultimately have "\<exists>es. place plan' pre' sources segment (Suc field) (Suc offset) extra checked (push_single ?v sv) = Some es \<and>
        matches es = filter passes (map (\<lambda>(rs, ls). extended rs ls (push_single ?v sv))
          (rest_splits f segment (Suc field) (drop (Suc offset) ?vs)))"
      using single offset eqs by (intro "1.IH"(2) [OF guard refl refl] prems(1,2)) simp_all
    moreover have "rest_splits f segment field (drop offset ?vs) =
        map (\<lambda>(rs, ls). (FieldSingle ?v # rs, ls)) (rest_splits f segment (Suc field) (drop (Suc offset) ?vs))"
      using rest_splits_single [OF single] by (simp flip: Cons_nth_drop_Suc [OF offset])
    ultimately show ?thesis
      using single offset guard eqs by (subst place.simps) (simp add: map_extended_single del: map_map)
  next
    case multi
    show ?thesis
    proof (cases "ready_tests_pass plan pre sv checked False")
      case False
      with multi guard eqs prems(7) not_ready [OF False, of "rest_splits f segment field (drop offset ?vs)"]
      show ?thesis by (subst place.simps) simp
    next
      case True
      let ?fs = "drop (Suc field) (seg_at segment)" and ?w = "drop offset ?vs"
      define last where "last = (\<forall>f \<in> set ?fs. f = Single)"
      define shortest where "shortest = (if last then extra else 0)"
      let ?F = "\<lambda>len. if offset + len \<le> length ?vs
          then map_option (\<lambda>events. (if last then [] else [Step]) @ events)
            (place plan' pre' sources segment (Suc field) (offset + len) (extra - len)
              (placed_fields sv) (push_capture (take len ?w) sv))
          else None"
      let ?g = "\<lambda>len. filter passes (map (\<lambda>(rs, ls). extended rs ls sv)
          (map (\<lambda>(rs, ls). (FieldMulti (take len ?w) # rs, len # ls)) (rest_splits f segment (Suc field) (drop len ?w))))"
      note window = multi_window [OF multi prems(5) shortest_def [unfolded last_def]]
      have each: "\<exists>es. ?F len = Some es \<and> matches es = ?g len" if mem: "len \<in> set (rev [shortest..<Suc extra])" for len
      proof -
        have len: "len \<le> length ?w" and fit: "fitting ?fs (drop len ?w) (extra - len)" using window(2) [OF mem] by auto
        let ?sv = "push_capture (take len ?w) sv"
        have "settled (placed_fields sv) ?sv" using settled_capture [OF prems(6) _ True] prems(7) by simp
        moreover have "placed_fields ?sv + rest_width segment (Suc field) < usize_max"
          using prems(7) rest_width_Suc [OF multi(1)] by simp
        moreover have "fitting ?fs (drop (offset + len) ?vs) (extra - len)" using fit by (simp add: add.commute)
        ultimately have "\<exists>es. place plan' pre' sources segment (Suc field) (offset + len) (extra - len)
              (placed_fields sv) ?sv = Some es \<and>
            matches es = filter passes (map (\<lambda>(rs, ls). extended rs ls ?sv)
              (rest_splits f segment (Suc field) (drop (offset + len) ?vs)))"
          using multi eqs True len prems(4) mem
          by (intro "1.IH"(3) [OF guard refl refl _ _ _ _ last_def [folded eqs(1)] shortest_def] prems(1,2))
            (simp_all del: upt_Suc add: eqs)
        then show ?thesis
          using len prems(4) map_extended_capture [OF len] by (auto simp: add.commute simp del: map_map)
      qed
      have "\<exists>es. map_option concat (those (map ?F (rev [shortest..<Suc extra]))) = Some es \<and>
          matches es = concat (map ?g (rev [shortest..<Suc extra]))"
        by (rule those_concat [where F = ?F and g = ?g]) (use each in simp_all)
      moreover have "concat (map ?g (rev [shortest..<Suc extra])) =
          filter passes (map (\<lambda>(rs, ls). extended rs ls sv) (rest_splits f segment field ?w))"
        unfolding window(1) by (simp add: map_concat filter_concat comp_def del: upt_Suc)
      moreover have "place plan' pre' sources segment field offset extra checked sv =
          map_option concat (those (map ?F (rev [shortest..<Suc extra])))"
        using multi guard True eqs by (subst place.simps) (auto simp: Let_def last_def shortest_def simp del: upt_Suc)
      ultimately show ?thesis by simp
    qed
  qed
qed

lemma sources_exact:
  "(case those (map (\<lambda>seg. Option.bind (segment_values (seg_source seg) f)
        (\<lambda>vs. map_option (\<lambda>extra. (vs, extra)) (segment_extra (seg_fields seg) vs))) segs) of
      None \<Rightarrow> plan_splits segs f = []
    | Some sources \<Rightarrow> list_all2 (\<lambda>seg (vs, extra). segment_values (seg_source seg) f = Some vs \<and>
        fitting (seg_fields seg) vs extra) segs sources)"
proof (induction segs)
  case (Cons seg segs)
  show ?case
  proof (cases "segment_values (seg_source seg) f")
    case (Some vs)
    show ?thesis
    proof (cases "segment_extra (seg_fields seg) vs")
      case None
      then have "segment_splits (seg_fields seg) vs = []"
        by (auto simp: segment_extra_def Let_def singles_less_iff not_le intro: segment_splits_short segment_splits_exact split: if_splits)
      with None Some show ?thesis by (simp add: plan_splits_Cons)
    next
      case (Some extra)
      then have "fitting (seg_fields seg) vs extra"
        by (auto simp: segment_extra_def Let_def fitting_def singles_less_iff split: if_splits)
      with Some Cons.IH \<open>segment_values (seg_source seg) f = Some vs\<close> show ?thesis
        by (auto simp: plan_splits_Cons join_splits_def split: option.splits)
    qed
  qed (simp add: plan_splits_Cons)
qed simp

lemma search_with_prefix_exact:
  assumes "logical_width plan < usize_max"
  shows "\<exists>es. search_with_prefix plan f pre = Some es \<and> matches es = filter passes (all_splits plan f)"
proof (cases "search_sources plan f")
  case None
  then show ?thesis
    using sources_exact [where f = f and segs = "plan_segments plan"] by (simp add: search_with_prefix_def search_sources_def all_splits_def)
next
  case (Some sources)
  then have src: "sourced f sources"
    using sources_exact [where f = f and segs = "plan_segments plan"] by (simp add: search_sources_def sourced_def)
  show ?thesis
  proof (cases "plan_segments plan")
    case Nil
    with Some show ?thesis by (simp add: search_with_prefix_def search_sources_def all_splits_def)
  next
    case (Cons seg segs)
    with src obtain vs extra rest where sources: "sources = (vs, extra) # rest"
      by (auto simp: sourced_def list_all2_Cons1)
    let ?sv = "\<lparr>split_fact = f, split_fields = [], split_lengths = []\<rparr>"
    have start: "settled 0 ?sv" using need_pos by (fastforce simp: settled_def)
    have "\<exists>es. place plan pre sources 0 0 0 extra 0 ?sv = Some es \<and>
        matches es = filter passes (map (\<lambda>(rs, ls). extended rs ls ?sv) (rest_splits f 0 0 (drop 0 (fst (sources ! 0)))))"
      using sourced_fitting [OF src, of 0] Cons sources assms
      by (intro place_exact refl src start) (auto simp: rest_width_def logical_width_def placed_fields_def comp_def)
    moreover have "all_splits plan f = map (\<lambda>(rs, ls). extended rs ls ?sv) (rest_splits f 0 0 vs)"
      using src Cons sources
      by (auto simp: all_splits_def rest_splits_def plan_splits_Cons sourced_def extended_def)
    ultimately show ?thesis using Some sources by (simp add: search_with_prefix_def)
  qed
qed

end

end
