(* ===== verification/Sequence_Results.thy ===== *)
theory Sequence_Results
  imports Sequence_Correct
begin

text \<open>
  Results on \<open>sequence.rs\<close>: the search with the tests of the plan alone is exact, recorded splits
  are rebuilt from their lengths, and a test moved to the physical fact keeps its meaning.
\<close>

section \<open>The search without a further filter\<close>

lemma test_extent_pos: "0 < test_extent t"
  by (cases t) (simp add: test_extent.simps saturating_add_def usize_max_def)

interpretation plain: staged_filter plan "\<lambda>_ _ _. True" "set (plan_tests plan)" test_extent
  "\<lambda>t sv. evaluate_field_test t (split_get sv)" for plan
  by unfold_locales (auto simp: ready_tests_pass_def test_stable test_extent_pos)

lemma plain_passes: "plain.passes plan = accepts plan"
  by (simp add: fun_eq_iff plain.passes_def accepts_def)

lemma any_match_iff: "any_match (Some es) \<longleftrightarrow> matches es \<noteq> []"
proof -
  have "e \<noteq> Step \<longleftrightarrow> (\<exists>sv. e = Match sv)" for e by (cases e) auto
  then show ?thesis by (force simp: any_match_def matches_def split: split_event.splits)
qed

text \<open>
  C30: The split search never indexes out of range, and reports in order exactly the splits of the
  fact among the plan's fields that pass every test of the plan: testing prefixes early loses no
  split and admits none. So a plan admits a fact just when one of its splits is accepted.
\<close>

theorem search_exact:
  assumes "logical_width plan < usize_max"
  shows "(case search plan f of
      None \<Rightarrow> False
    | Some es \<Rightarrow> matches es = filter (accepts plan) (all_splits plan f)) \<and>
    (admits plan f \<longleftrightarrow> (\<exists>sv \<in> set (all_splits plan f). accepts plan sv))"
proof -
  obtain es where "search plan f = Some es" "matches es = filter (accepts plan) (all_splits plan f)"
    using plain.search_with_prefix_exact [OF assms] by (auto simp: search_def plain_passes)
  then show ?thesis by (auto simp: admits_def any_match_iff filter_empty_conv)
qed

definition sample_fact :: fact where
  "sample_fact = Ordered \<lparr>relation = Symbol (AsciiId 0), fact_fields = [VInteger 1, VInteger 2, VInteger 3]\<rparr>"

definition sample_split :: split_view where
  "sample_split = \<lparr>split_fact = sample_fact,
     split_fields = [FieldSingle (VInteger 1), FieldMulti [VInteger 2], FieldMulti [VInteger 3]],
     split_lengths = [1, 1]\<rparr>"

lemma sample_split_in: "sample_split \<in> set (all_splits sample_plan sample_fact)"
  by (simp add: all_splits_def plan_splits_Cons join_splits_def sample_plan_def sample_fact_def sample_split_def)

lemma sample_split_accepted: "accepts sample_plan sample_split"
  by (simp add: accepts_def sample_plan_def sample_split_def sample_fact_def evaluate_field_test.simps split_get_def
      selected_field_def atom_key_matches_def compare_other_slot_def)

theorem search_exact_witness: "admits sample_plan sample_fact"
proof -
  have "logical_width sample_plan < usize_max" by (simp add: logical_width_def sample_plan_def usize_max_def)
  from search_exact [OF this] sample_split_in sample_split_accepted show ?thesis by blast
qed

section \<open>Recorded splits\<close>

lemma segment_splits_Multi:
  "(rs, ls) \<in> set (segment_splits (Multi # fs) vs) \<longleftrightarrow>
    (\<exists>len rs' ls'. len \<le> length vs \<and> rs = FieldMulti (take len vs) # rs' \<and> ls = len # ls' \<and>
      (rs', ls') \<in> set (segment_splits fs (drop len vs)))"
  by (force simp: less_Suc_eq_le simp del: upt_Suc)

lemma project_fields_iff:
  assumes "offset \<le> length vs" "length vs \<le> usize_max"
  shows "project_fields fs vs offset lengths placed = Some (length vs, rest, placed') \<longleftrightarrow>
    (\<exists>rs ls. (rs, ls) \<in> set (segment_splits fs (drop offset vs)) \<and> lengths = ls @ rest \<and> placed' = placed @ rs)"
  using assms(1)
proof (induction fs arbitrary: offset lengths placed)
  case (Cons field fs)
  show ?case
  proof (cases field)
    case Single
    show ?thesis
    proof (cases "offset < length vs")
      case True
      with Cons.IH [of "Suc offset" lengths "placed @ [FieldSingle (vs ! offset)]"] Single show ?thesis
        by (auto simp flip: Cons_nth_drop_Suc)
    qed (use Single in simp)
  next
    case Multi
    show ?thesis
    proof (cases lengths)
      case (Cons len lengths')
      have "(\<exists>rs ls. (rs, ls) \<in> set (segment_splits (Multi # fs) (drop offset vs)) \<and>
            lengths = ls @ rest \<and> placed' = placed @ rs) \<longleftrightarrow>
          len \<le> length vs - offset \<and> (\<exists>rs ls. (rs, ls) \<in> set (segment_splits fs (drop (offset + len) vs)) \<and>
            lengths' = ls @ rest \<and> placed' = placed @ FieldMulti (take len (drop offset vs)) # rs)"
        by (auto simp: Cons add.commute segment_splits_Multi simp del: segment_splits.simps)
      moreover have "offset + len \<le> length vs \<longleftrightarrow> len \<le> length vs - offset"
        using Cons.prems by auto
      ultimately show ?thesis
        using Multi Cons assms(2) Cons.IH [of "offset + len" lengths' "placed @ [FieldMulti (take len (drop offset vs))]"]
        by auto
    qed (use Multi in \<open>auto simp: segment_splits_Multi simp del: segment_splits.simps\<close>)
  qed
qed (auto)

lemma project_segments_iff:
  assumes "\<And>seg vs. seg \<in> set segs \<Longrightarrow> segment_values (seg_source seg) f = Some vs \<Longrightarrow> length vs \<le> usize_max"
  shows "project_segments segs f lengths placed = Some (rest, placed') \<longleftrightarrow>
    (\<exists>rs ls. (rs, ls) \<in> set (plan_splits segs f) \<and> lengths = ls @ rest \<and> placed' = placed @ rs)"
  using assms
proof (induction segs arbitrary: lengths placed)
  case (Cons seg segs)
  show ?case
  proof (cases "segment_values (seg_source seg) f")
    case (Some vs)
    have "project_segments (seg # segs) f lengths placed = Some (rest, placed') \<longleftrightarrow>
        (\<exists>ls1 p1. project_fields (seg_fields seg) vs 0 lengths placed = Some (length vs, ls1, p1) \<and>
          project_segments segs f ls1 p1 = Some (rest, placed'))"
      using Some by (auto simp: bind_eq_Some_conv split: if_splits)
    also have "\<dots> \<longleftrightarrow> (\<exists>rs ls rs' ls'. (rs, ls) \<in> set (segment_splits (seg_fields seg) vs) \<and>
        (rs', ls') \<in> set (plan_splits segs f) \<and> lengths = ls @ ls' @ rest \<and> placed' = placed @ rs @ rs')"
    proof -
      have fields: "project_fields (seg_fields seg) vs 0 lengths placed = Some (length vs, ls1, p1) \<longleftrightarrow>
          (\<exists>rs ls. (rs, ls) \<in> set (segment_splits (seg_fields seg) vs) \<and> lengths = ls @ ls1 \<and> p1 = placed @ rs)" for ls1 p1
        using project_fields_iff [of 0 vs "seg_fields seg"] Cons.prems [OF _ Some] by simp
      have segs: "project_segments segs f ls1 p1 = Some (rest, placed') \<longleftrightarrow>
          (\<exists>rs' ls'. (rs', ls') \<in> set (plan_splits segs f) \<and> ls1 = ls' @ rest \<and> placed' = p1 @ rs')" for ls1 p1
        by (rule Cons.IH) (use Cons.prems in auto)
      show ?thesis unfolding fields segs by force
    qed
    also have "\<dots> \<longleftrightarrow> (\<exists>rs ls. (rs, ls) \<in> set (plan_splits (seg # segs) f) \<and> lengths = ls @ rest \<and> placed' = placed @ rs)"
      using Some by (fastforce simp: plan_splits_Cons join_splits_def)
    finally show ?thesis .
  qed (simp add: plan_splits_Cons)
qed auto

text \<open>
  C31: A recorded list of capture lengths is rebuilt to a split exactly when some split of the fact
  has these lengths, and then to that split: lengths determine the split, every enumerated split
  is recovered, and stale or malformed lengths are refused.
\<close>

theorem project_inverts_splits:
  assumes "\<And>seg vs. seg \<in> set (plan_segments plan) \<Longrightarrow> segment_values (seg_source seg) f = Some vs \<Longrightarrow>
      length vs \<le> usize_max"
  shows "project plan f lengths = Some sv \<longleftrightarrow> sv \<in> set (all_splits plan f) \<and> split_lengths sv = lengths"
  using project_segments_iff [of "plan_segments plan" f lengths "[]" "[]"] assms
  by (force simp: project_def all_splits_def bind_eq_Some_conv split: if_splits)

theorem project_inverts_splits_witness: "project sample_plan sample_fact [1, 1] = Some sample_split"
proof -
  have "length vs \<le> usize_max" if "seg \<in> set (plan_segments sample_plan)"
    "segment_values (seg_source seg) sample_fact = Some vs" for seg vs
    using that by (auto simp: sample_plan_def sample_fact_def usize_max_def)
  from project_inverts_splits [of sample_plan sample_fact "[1, 1]" sample_split, OF this] sample_split_in
  show ?thesis by (simp add: sample_split_def)
qed

section \<open>Tests moved to the physical fact\<close>

lemma segment_splits_length: "(rs, ls) \<in> set (segment_splits fs vs) \<Longrightarrow> length rs = length fs"
proof (induction fs arbitrary: vs rs ls)
  case (Cons field fs)
  then show ?case
    by (cases field) (auto simp: segment_splits_Multi simp del: segment_splits.simps(3) split: list.splits)
qed (auto split: if_splits)

lemma segment_splits_leading:
  assumes "(rs, ls) \<in> set (segment_splits fs vs)" "i < length fs" "\<forall>field \<in> set (take (Suc i) fs). field = Single"
  shows "i < length vs \<and> rs ! i = FieldSingle (vs ! i)"
  using assms
proof (induction fs arbitrary: vs rs ls i)
  case (Cons field fs)
  then obtain v vs' rs' where "field = Single" "vs = v # vs'" "rs = FieldSingle v # rs'"
    "(rs', ls) \<in> set (segment_splits fs vs')"
    by (auto split: list.splits)
  with Cons show ?case by (cases i) auto
qed simp

lemma template_selector_value:
  assumes "(rs, ls) \<in> set (plan_splits segs f)" "template_selector segs i = Some slot"
    and "\<forall>seg \<in> set segs. segment_ok seg"
  shows "i < length rs \<and> (\<exists>v t. f = Template t \<and> rs ! i = FieldSingle v \<and> get_slot_value f slot = Some v)"
  using assms
proof (induction segs arbitrary: i rs ls)
  case (Cons seg segs)
  from Cons.prems(1) obtain vs rs1 ls1 rs2 ls2 where vs: "segment_values (seg_source seg) f = Some vs"
    and split1: "(rs1, ls1) \<in> set (segment_splits (seg_fields seg) vs)"
    and split2: "(rs2, ls2) \<in> set (plan_splits segs f)" and rs: "rs = rs1 @ rs2"
    by (cases "segment_values (seg_source seg) f") (fastforce simp: plan_splits_Cons join_splits_def)+
  have len: "length rs1 = length (seg_fields seg)" by (rule segment_splits_length [OF split1])
  show ?case
  proof (cases "i < length (seg_fields seg)")
    case True
    then obtain physical where "seg_source seg = SourceTemplateScalar physical" "slot = TemplateSlot physical"
      using Cons.prems(2) by (auto split: sequence_source.splits)
    then show ?thesis
      using True Cons.prems(3) vs split1 rs
      by (auto simp: get_slot_value_def segment_ok_def split: fact.splits list.splits if_splits)
  next
    case False
    with Cons.IH [OF split2, of "i - length (seg_fields seg)"] Cons.prems(2,3) rs len show ?thesis
      by (auto simp: nth_append)
  qed
qed simp

lemma physical_selector_value:
  assumes "is_ordered plan \<or> (\<forall>seg \<in> set (plan_segments plan). segment_ok seg)"
    and "sv \<in> set (all_splits plan f)" "physical_selector plan slot = Some slot'"
  shows "split_get sv slot = get_slot_value f slot'"
proof -
  obtain rs ls where split: "(rs, ls) \<in> set (plan_splits (plan_segments plan) f)"
    and sv: "sv = \<lparr>split_fact = f, split_fields = rs, split_lengths = ls\<rparr>"
    using assms(2) by (auto simp: all_splits_def split: if_splits)
  show ?thesis
  proof (cases slot)
    case (OrderedSlot i)
    then obtain seg where plan: "plan_segments plan = [seg]" "seg_source seg = SourceOrdered" "slot' = slot"
      and i: "i < length (seg_fields seg)" "\<forall>field \<in> set (take (Suc i) (seg_fields seg)). field = Single"
      using assms(3) by (auto simp: physical_selector_def split: list.splits if_splits)
    with split obtain vs where vs: "segment_values SourceOrdered f = Some vs"
      and "(rs, ls) \<in> set (segment_splits (seg_fields seg) vs)"
      by (cases "segment_values SourceOrdered f") (auto simp: plan_splits_Cons join_splits_def)
    with segment_splits_leading [OF _ i] segment_splits_length i OrderedSlot plan sv show ?thesis
      by (force simp: split_get_def selected_field_def get_slot_value_def split: fact.splits)
  next
    case (TemplateSlot i)
    then have sel: "template_selector (plan_segments plan) i = Some slot'"
      using assms(3) by (simp add: physical_selector_def)
    then have "\<not> is_ordered plan"
      by (auto simp: is_ordered_def split: list.splits if_splits)
    with template_selector_value [OF split sel] assms(1) TemplateSlot sv show ?thesis
      by (auto simp: split_get_def selected_field_def)
  qed
qed

lemma map_Some_iff: "map F xs = map Some ys \<longleftrightarrow> list_all2 (\<lambda>x y. F x = Some y) xs ys"
  by (induction xs ys rule: list_induct2') auto

lemma evaluate_translated:
  assumes "\<And>slot slot'. physical_selector plan slot = Some slot' \<Longrightarrow> field slot = field' slot'"
    and "physical_test plan t = Some t'"
  shows "evaluate_field_test t field = evaluate_field_test t' field'"
  using assms
proof (induction plan t arbitrary: t' rule: physical_test.induct)
  case (1 plan slot ty)
  then obtain mapped where mapped: "physical_selector plan slot = Some mapped"
    by (auto simp: physical_test.simps split: option.splits)
  note read = "1.prems"(1)
  show ?case
  proof (cases "\<exists>branches. ty = TAny branches")
    case True
    then obtain branches where ty: "ty = TAny branches" ..
    obtain branches' where t': "t' = ConstantTest mapped (TAny branches')"
      and "map (\<lambda>branch. those (map (physical_test plan) branch)) branches = map Some branches'"
      using "1.prems"(2) mapped by (auto simp: physical_test.simps ty those_eq_Some_iff)
    then have "list_all2 (list_all2 (\<lambda>t t'. physical_test plan t = Some t')) branches branches'"
      by (simp add: map_Some_iff those_eq_Some_iff)
    then have "list_all2 (list_all2 (\<lambda>t t'. evaluate_field_test t field = evaluate_field_test t' field')) branches branches'"
      using "1.IH" [OF mapped ty _ _ read] by (fastforce intro: list.rel_mono_strong)
    then have "(\<exists>branch \<in> set branches. \<forall>t \<in> set branch. evaluate_field_test t field) \<longleftrightarrow>
        (\<exists>branch \<in> set branches'. \<forall>t \<in> set branch. evaluate_field_test t field')"
      by (auto simp: list_all2_conv_all_nth Bex_set_list_ex list_ex_length Ball_set_list_all list_all_length)
    then show ?thesis
      by (simp add: evaluate_field_test.simps ty t' read [OF mapped] split: option.split)
  next
    case False
    then show ?thesis
      using "1.prems"(2) mapped read [OF mapped] read
      by (cases ty) (auto simp: physical_test.simps evaluate_field_test.simps compare_other_slot_def split: option.splits)
  qed
qed

text \<open>
  C32: A test that can be moved from a valid plan to the alpha network is decided there, on the
  stored fact, exactly as it is decided on every split of the fact.
\<close>

theorem physical_test_sound:
  assumes "validate_plan plan = Inr ()" "physical_test plan t = Some t'" "sv \<in> set (all_splits plan f)"
  shows "evaluate_field_test t (split_get sv) = evaluate_test f t'"
proof -
  have "is_ordered plan \<or> (\<forall>seg \<in> set (plan_segments plan). segment_ok seg)"
    using assms(1) by (auto simp: validate_plan_def validate_sources_iff split: if_splits sum.splits)
  from evaluate_translated [OF physical_selector_value [OF this assms(3)] assms(2)]
  have "evaluate_field_test t (split_get sv) = evaluate_field_test t' (get_slot_value f)" .
  moreover have "test_type t' = TOrderedFieldCount lo hi \<Longrightarrow> False" "test_type t' = TSequence p \<Longrightarrow> False" for lo hi p
    using assms(2) by (cases t; cases "test_type t"; auto simp: physical_test.simps split: option.splits)+
  ultimately show ?thesis
    by (auto simp: evaluate_test_def split: constant_test_type.splits)
qed

lemma sample_plan_valid: "validate_plan sample_plan = Inr ()"
proof -
  have "is_ordered sample_plan" "valid_logical_slot sample_plan (OrderedSlot 0)"
    "valid_logical_slot sample_plan (OrderedSlot 2)"
    by (simp_all add: sample_plan_def is_ordered_def logical_width_def)
  then have "validate_tests sample_plan (rev (plan_tests sample_plan)) = Inr ()"
    unfolding validate_tests_iff by (simp add: sample_plan_def test_ok.simps)
  moreover have "constant_test_count (plan_tests sample_plan) = 3"
    by (simp add: constant_test_count_eq sample_plan_def test_nodes.simps usize_max_def)
  moreover have "plan_segments sample_plan \<noteq> []" by (simp add: sample_plan_def)
  ultimately show ?thesis
    using \<open>is_ordered sample_plan\<close> by (simp add: validate_plan_def max_alpha_tests_def)
qed

theorem physical_test_sound_witness:
  "evaluate_test sample_fact (ConstantTest (OrderedSlot 0) (TEqual (KInteger 1)))"
proof -
  let ?t = "ConstantTest (OrderedSlot 0) (TEqual (KInteger 1))"
  have "physical_test sample_plan ?t = Some ?t"
    by (simp add: physical_test.simps physical_selector_def sample_plan_def)
  from physical_test_sound [OF sample_plan_valid this sample_split_in] sample_split_accepted
  show ?thesis by (simp add: accepts_def sample_plan_def)
qed

end
