(* ===== verification/Join_Tests.thy ===== *)
theory Join_Tests
  imports Sequence_Results Tokens
begin

text \<open>
  The join tests of \<open>beta.rs\<close> and \<open>rete.rs\<close>, which compare fields of a fact with the bindings of a
  token, on whole facts and on the splits of sequence patterns.
\<close>

section \<open>Join tests\<close>

datatype join_test_type =
    JEqual
  | JNotEqual
  | JGreaterThan
  | JLessThan
  | JGreaterOrEqual
  | JLessOrEqual
  | JLexEqual
  | JLexNotEqual
  | JLexGreaterThan
  | JLexLessThan
  | JLexGreaterOrEqual
  | JLexLessOrEqual
  | JEqualOffset i64
  | JNotEqualOffset i64
  | JGreaterThanOffset i64
  | JLessThanOffset i64
  | JGreaterOrEqualOffset i64
  | JLessOrEqualOffset i64

record join_test =
  alpha_slot :: slot_index
  beta_var :: var_id
  join_type :: join_test_type

fun values_join_eq :: "val \<Rightarrow> val \<Rightarrow> bool option" where
  "values_join_eq (VSymbol a) w = (case w of VSymbol b \<Rightarrow> Some (a = b) | VVoid \<Rightarrow> None | _ \<Rightarrow> Some False)"
| "values_join_eq (VInstanceName a) w = (case w of VInstanceName b \<Rightarrow> Some (a = b) | VVoid \<Rightarrow> None | _ \<Rightarrow> Some False)"
| "values_join_eq (VInteger a) w = (case w of VInteger b \<Rightarrow> Some (a = b) | VVoid \<Rightarrow> None | _ \<Rightarrow> Some False)"
| "values_join_eq (VFloat a) w = (case w of VFloat b \<Rightarrow> Some (a = b) | VVoid \<Rightarrow> None | _ \<Rightarrow> Some False)"
| "values_join_eq (VString a) w = (case w of VString b \<Rightarrow> Some (string_eq a b) | VVoid \<Rightarrow> None | _ \<Rightarrow> Some False)"
| "values_join_eq (VExternalAddress a) w = (case w of VExternalAddress b \<Rightarrow> Some (a = b) | VVoid \<Rightarrow> None | _ \<Rightarrow> Some False)"
| "values_join_eq (VFactAddress a) w = (case w of VFactAddress b \<Rightarrow> Some (fact_address_eq a b) | VVoid \<Rightarrow> None | _ \<Rightarrow> Some False)"
| "values_join_eq (VMultifield a) w = (case w of VMultifield b \<Rightarrow> Some (structural_eq (VMultifield a) w) | VVoid \<Rightarrow> None | _ \<Rightarrow> Some False)"
| "values_join_eq VVoid w = None"

fun compare_lexeme_values :: "val \<Rightarrow> val \<Rightarrow> rust_ordering option" where
  "compare_lexeme_values (VString a) (VString b) = Some (string_cmp a b)"
| "compare_lexeme_values _ _ = None"

definition lexeme_compare_matches :: "val \<Rightarrow> val \<Rightarrow> (rust_ordering \<Rightarrow> bool) \<Rightarrow> bool" where
  "lexeme_compare_matches lhs rhs p = (case compare_lexeme_values lhs rhs of None \<Rightarrow> False | Some r \<Rightarrow> p r)"

definition offset_compare_matches :: "val \<Rightarrow> val \<Rightarrow> i64 \<Rightarrow> (rust_ordering \<Rightarrow> bool) \<Rightarrow> bool" where
  "offset_compare_matches fact_value token_value off p =
     (case add_integer_offset token_value off of
        None \<Rightarrow> False
      | Some adjusted_token \<Rightarrow> numeric_compare_matches fact_value adjusted_token p)"

fun join_values_match :: "join_test_type \<Rightarrow> val \<Rightarrow> val \<Rightarrow> bool" where
  "join_values_match JEqual v w = (values_join_eq v w = Some True)"
| "join_values_match JNotEqual v w = (values_join_eq v w = Some False)"
| "join_values_match JGreaterThan v w = numeric_compare_matches v w (\<lambda>r. r = Greater)"
| "join_values_match JLessThan v w = numeric_compare_matches v w (\<lambda>r. r = Less)"
| "join_values_match JGreaterOrEqual v w = numeric_compare_matches v w (\<lambda>r. r = Greater \<or> r = Equal)"
| "join_values_match JLessOrEqual v w = numeric_compare_matches v w (\<lambda>r. r = Less \<or> r = Equal)"
| "join_values_match JLexEqual v w = lexeme_compare_matches v w (\<lambda>r. r = Equal)"
| "join_values_match JLexNotEqual v w =
     (case compare_lexeme_values v w of None \<Rightarrow> False | Some r \<Rightarrow> r \<noteq> Equal)"
| "join_values_match JLexGreaterThan v w = lexeme_compare_matches v w (\<lambda>r. r = Greater)"
| "join_values_match JLexLessThan v w = lexeme_compare_matches v w (\<lambda>r. r = Less)"
| "join_values_match JLexGreaterOrEqual v w = lexeme_compare_matches v w (\<lambda>r. r = Greater \<or> r = Equal)"
| "join_values_match JLexLessOrEqual v w = lexeme_compare_matches v w (\<lambda>r. r = Less \<or> r = Equal)"
| "join_values_match (JEqualOffset off) v w = offset_compare_matches v w off (\<lambda>r. r = Equal)"
| "join_values_match (JNotEqualOffset off) v w =
     (case Option.bind (add_integer_offset w off) (compare_numeric_values v) of
        None \<Rightarrow> False | Some r \<Rightarrow> r \<noteq> Equal)"
| "join_values_match (JGreaterThanOffset off) v w = offset_compare_matches v w off (\<lambda>r. r = Greater)"
| "join_values_match (JLessThanOffset off) v w = offset_compare_matches v w off (\<lambda>r. r = Less)"
| "join_values_match (JGreaterOrEqualOffset off) v w = offset_compare_matches v w off (\<lambda>r. r = Greater \<or> r = Equal)"
| "join_values_match (JLessOrEqualOffset off) v w = offset_compare_matches v w off (\<lambda>r. r = Less \<or> r = Equal)"

definition bound_value :: "binding_set \<Rightarrow> var_id \<Rightarrow> val option" where
  "bound_value bs var = map_option value_of_ref (binding_get bs var)"

definition evaluate_join_fields :: "field_reader \<Rightarrow> binding_set option \<Rightarrow> join_test list \<Rightarrow> bool" where
  "evaluate_join_fields field bs tests \<longleftrightarrow>
     (\<forall>t \<in> set tests.
        case field (alpha_slot t) of
          None \<Rightarrow> False
        | Some fact_value \<Rightarrow>
            (case Option.bind bs (\<lambda>bs. bound_value bs (beta_var t)) of
               None \<Rightarrow> False
             | Some token_value \<Rightarrow> join_values_match (join_type t) fact_value token_value))"

definition evaluate_join :: "fact \<Rightarrow> token option \<Rightarrow> join_test list \<Rightarrow> bool" where
  "evaluate_join f tok tests = evaluate_join_fields (get_slot_value f) (map_option tok_bindings tok) tests"

definition indexable_tests :: "join_test list \<Rightarrow> sequence_pattern option \<Rightarrow> (slot_index \<times> var_id) list" where
  "indexable_tests tests sequence =
     List.map_filter (\<lambda>t.
       if join_type t \<noteq> JEqual then None
       else map_option (\<lambda>physical. (physical, beta_var t))
              (case sequence of
                 None \<Rightarrow> Some (alpha_slot t)
               | Some plan \<Rightarrow> physical_selector plan (alpha_slot t))) tests"

section \<open>Joins with the splits of a sequence pattern\<close>

text \<open>A capture is compared in place, without the copy that reading it through the split makes.\<close>

definition capture_join_matches :: "val list \<Rightarrow> val \<Rightarrow> join_test_type \<Rightarrow> bool" where
  "capture_join_matches vs tok ty =
     (let same = (case tok of
            VMultifield bound \<Rightarrow> length vs = length bound \<and> (\<forall>(v, b) \<in> set (zip vs bound). structural_eq v b)
          | _ \<Rightarrow> False)
      in case ty of
           JEqual \<Rightarrow> same
         | JNotEqual \<Rightarrow> tok \<noteq> VVoid \<and> \<not> same
         | _ \<Rightarrow> False)"

definition sequence_join_prefix_matches :: "binding_set \<Rightarrow> join_test list \<Rightarrow> prefix_filter" where
  "sequence_join_prefix_matches bs tests sv checked complete \<longleftrightarrow>
     (\<forall>t \<in> set tests.
        let need = saturating_add (slot_number (alpha_slot t)) 1
        in need \<le> checked \<or> (placed_fields sv < need \<and> \<not> complete) \<or>
           (case split_capture sv (alpha_slot t) of
              Some vs \<Rightarrow> (case bound_value bs (beta_var t) of
                 None \<Rightarrow> False
               | Some tok \<Rightarrow> capture_join_matches vs tok (join_type t))
            | None \<Rightarrow> evaluate_join_fields (split_get sv) (Some bs) [t]))"

definition any_split_matches :: "fact \<Rightarrow> token \<Rightarrow> join_test list \<Rightarrow> sequence_pattern \<Rightarrow> bool" where
  "any_split_matches f tok tests plan =
     any_match (search_with_prefix plan f (sequence_join_prefix_matches (tok_bindings tok) tests))"

definition evaluate_pattern :: "fact \<Rightarrow> token \<Rightarrow> join_test list \<Rightarrow> sequence_pattern option \<Rightarrow> bool" where
  "evaluate_pattern f tok tests sequence =
     (case sequence of
        Some plan \<Rightarrow> any_split_matches f tok tests plan
      | None \<Rightarrow> evaluate_join f (Some tok) tests)"

definition split_matches :: "split_view \<Rightarrow> binding_set \<Rightarrow> join_test list \<Rightarrow> sequence_pattern \<Rightarrow> bool" where
  "split_matches sv bs tests plan \<longleftrightarrow> accepts plan sv \<and> evaluate_join_fields (split_get sv) (Some bs) tests"

definition extract_split_bindings ::
  "(slot_index \<times> var_id) list \<Rightarrow> split_view \<Rightarrow> binding_set \<Rightarrow> binding_set" where
  "extract_split_bindings bindings sv bs =
     fold (\<lambda>(slot, var) bs.
         case split_get sv slot of None \<Rightarrow> bs | Some v \<Rightarrow> binding_set var (value_ref_new v) bs) bindings bs"

definition sequence_matches ::
  "fact \<Rightarrow> binding_set \<Rightarrow> join_test list \<Rightarrow> (slot_index \<times> var_id) list \<Rightarrow> sequence_pattern \<Rightarrow>
   (binding_set \<times> nat list) list option" where
  "sequence_matches f bs tests bindings plan =
     map_option (\<lambda>events. List.map_filter (\<lambda>e.
         case e of
           Step \<Rightarrow> None
         | Match sv \<Rightarrow> Some (extract_split_bindings bindings sv bs, split_lengths sv)) events)
       (search_with_prefix plan f (sequence_join_prefix_matches bs tests))"

section \<open>Pruned joins are exact\<close>

lemma values_join_eq_iff:
  "values_join_eq v w = (if v = VVoid \<or> w = VVoid then None else Some (structural_eq v w))"
  by (cases v) (auto split: val.split)

lemma capture_join_matches_eq: "capture_join_matches vs tok ty = join_values_match ty (VMultifield vs) tok"
  by (cases ty; cases tok)
    (auto simp: capture_join_matches_def values_join_eq_iff numeric_compare_matches_def lexeme_compare_matches_def
      offset_compare_matches_def split: option.split bind_splits)

definition join_extent :: "join_test \<Rightarrow> nat" where
  "join_extent t = saturating_add (slot_number (alpha_slot t)) 1"

lemma join_prefix_eq:
  "sequence_join_prefix_matches bs tests sv checked complete \<longleftrightarrow>
    (\<forall>t \<in> set tests. join_extent t \<le> checked \<or> (placed_fields sv < join_extent t \<and> \<not> complete) \<or>
      evaluate_join_fields (split_get sv) (Some bs) [t])"
proof -
  have "(case split_capture sv (alpha_slot t) of
        Some vs \<Rightarrow> (case bound_value bs (beta_var t) of
           None \<Rightarrow> False | Some tok \<Rightarrow> capture_join_matches vs tok (join_type t))
      | None \<Rightarrow> evaluate_join_fields (split_get sv) (Some bs) [t]) \<longleftrightarrow>
    evaluate_join_fields (split_get sv) (Some bs) [t]" for t
    by (auto simp: split_capture_def evaluate_join_fields_def split_get_def capture_join_matches_eq
        split: option.splits field_ref.splits)
  then show ?thesis by (simp add: sequence_join_prefix_matches_def join_extent_def Let_def)
qed

lemma join_test_stable:
  assumes "join_extent t \<le> placed_fields sv" "placed_fields sv < usize_max"
  shows "evaluate_join_fields (split_get (extended rs ls sv)) bs [t] = evaluate_join_fields (split_get sv) bs [t]"
proof -
  have "slot_number (alpha_slot t) < placed_fields sv"
    using assms extent_slot by (simp add: join_extent_def)
  then have "split_get (extended rs ls sv) (alpha_slot t) = split_get sv (alpha_slot t)"
    by (simp add: split_get_def selected_field_extended)
  then show ?thesis by (auto simp: evaluate_join_fields_def)
qed

interpretation joined: staged_filter plan "sequence_join_prefix_matches bs tests"
  "Inl ` set (plan_tests plan) \<union> Inr ` set tests" "case_sum test_extent join_extent"
  "\<lambda>i sv. case i of Inl t \<Rightarrow> evaluate_field_test t (split_get sv)
     | Inr t \<Rightarrow> evaluate_join_fields (split_get sv) (Some bs) [t]" for plan bs tests
proof
  show "ready_tests_pass plan (sequence_join_prefix_matches bs tests) sv checked complete \<longleftrightarrow>
    (\<forall>i \<in> Inl ` set (plan_tests plan) \<union> Inr ` set tests.
      case_sum test_extent join_extent i \<le> checked \<or>
      (placed_fields sv < case_sum test_extent join_extent i \<and> \<not> complete) \<or>
      (case i of Inl t \<Rightarrow> evaluate_field_test t (split_get sv)
       | Inr t \<Rightarrow> evaluate_join_fields (split_get sv) (Some bs) [t]))" for sv checked complete
    by (simp add: ready_tests_pass_def join_prefix_eq ball_Un)
next
  fix i sv rs ls
  assume "i \<in> Inl ` set (plan_tests plan) \<union> Inr ` set tests" "case_sum test_extent join_extent i \<le> placed_fields sv"
    "placed_fields sv < usize_max"
  then show "(case i of Inl t \<Rightarrow> evaluate_field_test t (split_get (extended rs ls sv))
       | Inr t \<Rightarrow> evaluate_join_fields (split_get (extended rs ls sv)) (Some bs) [t]) =
     (case i of Inl t \<Rightarrow> evaluate_field_test t (split_get sv)
       | Inr t \<Rightarrow> evaluate_join_fields (split_get sv) (Some bs) [t])"
    by (auto simp: test_stable join_test_stable split: sum.splits)
next
  show "i \<in> Inl ` set (plan_tests plan) \<union> Inr ` set tests \<Longrightarrow> 0 < case_sum test_extent join_extent i" for i
    by (auto simp: test_extent_pos join_extent_def saturating_add_def usize_max_def)
qed

lemma joined_passes: "joined.passes plan tests bs = (\<lambda>sv. split_matches sv bs tests plan)"
  by (auto simp: fun_eq_iff joined.passes_def split_matches_def accepts_def evaluate_join_fields_def ball_Un)

lemma map_filter_matches:
  "List.map_filter (\<lambda>e. case e of Step \<Rightarrow> None | Match sv \<Rightarrow> Some (g sv)) es = map g (matches es)"
  by (induction es) (auto simp: List.map_filter_simps matches_def split: split_event.splits)

lemma sequence_search_exact:
  assumes "logical_width plan < usize_max"
  obtains es where "search_with_prefix plan f (sequence_join_prefix_matches bs tests) = Some es"
    "matches es = filter (\<lambda>sv. split_matches sv bs tests plan) (all_splits plan f)"
  using joined.search_with_prefix_exact [OF assms, of f bs tests] by (auto simp: joined_passes)

lemma evaluate_pattern_splits:
  assumes "logical_width plan < usize_max"
  shows "evaluate_pattern f tok tests (Some plan) \<longleftrightarrow>
    (\<exists>sv \<in> set (all_splits plan f). split_matches sv (tok_bindings tok) tests plan)"
proof -
  obtain es where "search_with_prefix plan f (sequence_join_prefix_matches (tok_bindings tok) tests) = Some es"
    "matches es = filter (\<lambda>sv. split_matches sv (tok_bindings tok) tests plan) (all_splits plan f)"
    using sequence_search_exact [OF assms] .
  then show ?thesis
    by (auto simp: evaluate_pattern_def any_split_matches_def any_match_iff filter_empty_conv)
qed

lemma sequence_matches_splits:
  assumes "logical_width plan < usize_max"
  shows "sequence_matches f bs tests bindings plan =
    Some (map (\<lambda>sv. (extract_split_bindings bindings sv bs, split_lengths sv))
      (filter (\<lambda>sv. split_matches sv bs tests plan) (all_splits plan f)))"
proof -
  obtain es where "search_with_prefix plan f (sequence_join_prefix_matches bs tests) = Some es"
    "matches es = filter (\<lambda>sv. split_matches sv bs tests plan) (all_splits plan f)"
    using sequence_search_exact [OF assms] .
  then show ?thesis by (simp add: sequence_matches_def map_filter_matches)
qed

text \<open>
  C33: A fact matches a token through a pattern with a sequence plan exactly when some split of the
  fact passes the plan's tests and all join tests; the matches collected are those splits, in
  order, each with the parent's bindings extended by the split's fields and its capture lengths.
  Comparing captures in place and testing prefixes early change nothing.
\<close>

theorem sequence_join_exact:
  assumes "logical_width plan < usize_max"
  shows "(evaluate_pattern f tok tests (Some plan) \<longleftrightarrow>
      (\<exists>sv \<in> set (all_splits plan f). split_matches sv (tok_bindings tok) tests plan)) \<and>
    sequence_matches f bs tests bindings plan =
      Some (map (\<lambda>sv. (extract_split_bindings bindings sv bs, split_lengths sv))
        (filter (\<lambda>sv. split_matches sv bs tests plan) (all_splits plan f)))"
  using evaluate_pattern_splits [OF assms] sequence_matches_splits [OF assms] by blast

definition sample_token :: token where
  "sample_token = \<lparr>tok_fact = None, tok_bindings = binding_set 0 (value_ref_new (VMultifield [VInteger 2])) [],
     tok_parent = None, tok_owner = 0\<rparr>"

definition sample_join :: join_test where
  "sample_join = \<lparr>alpha_slot = OrderedSlot 1, beta_var = 0, join_type = JEqual\<rparr>"

theorem sequence_join_exact_witness: "evaluate_pattern sample_fact sample_token [sample_join] (Some sample_plan)"
proof -
  have "logical_width sample_plan < usize_max" by (simp add: logical_width_def sample_plan_def usize_max_def)
  moreover have "split_matches sample_split (tok_bindings sample_token) [sample_join] sample_plan"
    using sample_split_accepted
    by (simp add: split_matches_def evaluate_join_fields_def sample_join_def sample_token_def bound_value_def
        sample_split_def sample_fact_def split_get_def selected_field_def values_join_eq_iff)
  ultimately show ?thesis using sequence_join_exact sample_split_in by blast
qed

text \<open>
  C34: Where the operands of an inequality with an offset cannot be compared as numbers (not
  numeric, a not-a-number, or an integer overflow), the test between two fields of a fact accepts
  and the join test between a field and a binding rejects.
\<close>

theorem offset_inequality_incomparable:
  assumes "Option.bind (add_integer_offset w off) (compare_numeric_values v) = None"
    and "field slot = Some v" "field other = Some w"
  shows "evaluate_field_test (ConstantTest slot (TNotEqualSlotOffset other off)) field \<and>
    \<not> join_values_match (JNotEqualOffset off) v w"
  using assms
  by (auto simp: evaluate_field_test.simps compare_other_slot_def compare_offset_def numeric_compare_matches_def
      split: option.splits bind_splits)

theorem offset_inequality_incomparable_witness:
  "evaluate_field_test (ConstantTest (OrderedSlot 0) (TNotEqualSlotOffset (OrderedSlot 1) 1))
     (get_slot_value (Ordered \<lparr>relation = Symbol (AsciiId 0), fact_fields = [VSymbol (Symbol (AsciiId 0)), VInteger 1]\<rparr>)) \<and>
   \<not> join_values_match (JNotEqualOffset 1) (VSymbol (Symbol (AsciiId 0))) (VInteger 1)"
  by (rule offset_inequality_incomparable) (simp_all add: get_slot_value_def split: bind_split)

end
