(* ===== verification/Beta_Memory.thy ===== *)
theory Beta_Memory
  imports Alpha_Memory Join_Tests
begin

text \<open>
  Beta memories (\<open>BetaMemory\<close> of \<open>beta.rs\<close>): the tokens of one beta node in insertion order, value
  indexes on the variables that joins below compare for equality, and the ranks that give parents
  of negated conjunctions their chronology. The index buckets are vectors here, so an insertion
  appends without looking.
\<close>

section \<open>Operations\<close>

datatype beta_memory_id = BetaMemoryId u32

record ncc_parent_ranks =
  ranks :: "token_id \<rightharpoonup> u64"
  next_rank :: u64

record beta_memory =
  bm_id :: beta_memory_id
  bm_tokens :: "token_id list"
  var_indices :: "(var_id, token_id) keyed_index"
  indexed_vars :: "var_id list"
  parent_ranks :: "ncc_parent_ranks option"

definition beta_memory_new :: "beta_memory_id \<Rightarrow> beta_memory" where
  "beta_memory_new i = \<lparr>bm_id = i, bm_tokens = [], var_indices = Map.empty, indexed_vars = [], parent_ranks = None\<rparr>"

text \<open>\<open>enumerate\<close> over the members: each gets its position as rank.\<close>

definition rank_members :: "token_id list \<Rightarrow> (token_id \<rightharpoonup> u64)" where
  "rank_members ts = fold (\<lambda>(index, t) m. m(t \<mapsto> word_of_nat index)) (enumerate 0 ts) Map.empty"

definition enable_ncc_parent_ranks :: "beta_memory \<Rightarrow> beta_memory" where
  "enable_ncc_parent_ranks bm =
     (case parent_ranks bm of
        Some _ \<Rightarrow> bm
      | None \<Rightarrow> bm\<lparr>parent_ranks := Some
          \<lparr>ranks = rank_members (bm_tokens bm), next_rank = word_of_nat (length (bm_tokens bm))\<rparr>\<rparr>)"

definition ncc_parent_rank :: "beta_memory \<Rightarrow> token_id \<Rightarrow> u64 option" where
  "ncc_parent_rank bm t = Option.bind (parent_ranks bm) (\<lambda>r. ranks r t)"

definition record_ncc_parent_rank :: "token_id \<Rightarrow> beta_memory \<Rightarrow> beta_memory" where
  "record_ncc_parent_rank t bm =
     (case parent_ranks bm of
        None \<Rightarrow> bm
      | Some r \<Rightarrow>
          bm\<lparr>parent_ranks := Some
            (if next_rank r = u64_max
             then \<lparr>ranks = rank_members (bm_tokens bm), next_rank = word_of_nat (length (bm_tokens bm))\<rparr>
             else \<lparr>ranks = (ranks r)(t \<mapsto> next_rank r), next_rank = next_rank r + 1\<rparr>)\<rparr>)"

definition validate_ncc_parent_ranks :: "beta_memory \<Rightarrow> bool" where
  "validate_ncc_parent_ranks bm \<longleftrightarrow>
     (case parent_ranks bm of
        None \<Rightarrow> True
      | Some r \<Rightarrow> card (dom (ranks r)) = length (bm_tokens bm) \<and>
          (\<forall>t \<in> set (bm_tokens bm). \<exists>n. ranks r t = Some n \<and> n < next_rank r) \<and>
          sorted_wrt (\<lambda>t t'. the (ranks r t) < the (ranks r t')) (bm_tokens bm))"

definition binding_key :: "binding_set \<Rightarrow> var_id \<Rightarrow> atom_key option" where
  "binding_key bs var = Option.bind (bound_value bs var) atom_key_of"

definition request_var_index :: "var_id \<Rightarrow> token_store \<Rightarrow> beta_memory \<Rightarrow> beta_memory" where
  "request_var_index var ts bm =
     (if var \<in> set (indexed_vars bm) then bm
      else bm\<lparr>indexed_vars := indexed_vars bm @ [var],
        var_indices := index_fill (\<lambda>t es. es @ [t])
          (\<lambda>t. Option.bind (token_get ts t) (\<lambda>tok. binding_key (tok_bindings tok) var))
          var (bm_tokens bm) (var_indices bm)\<rparr>)"

text \<open>Panics on a memory that is not empty.\<close>

definition request_var_index_empty :: "var_id \<Rightarrow> beta_memory \<Rightarrow> beta_memory option" where
  "request_var_index_empty var bm =
     (if bm_tokens bm \<noteq> [] then None
      else Some (if var \<in> set (indexed_vars bm) then bm else bm\<lparr>indexed_vars := indexed_vars bm @ [var]\<rparr>))"

definition is_var_indexed :: "beta_memory \<Rightarrow> var_id \<Rightarrow> bool" where
  "is_var_indexed bm var \<longleftrightarrow> var \<in> set (indexed_vars bm)"

definition lookup_by_var :: "beta_memory \<Rightarrow> var_id \<Rightarrow> atom_key \<Rightarrow> token_id list option" where
  "lookup_by_var bm var k = index_lookup (var_indices bm) var k"

definition beta_insert :: "token_id \<Rightarrow> beta_memory \<Rightarrow> beta_memory" where
  "beta_insert t bm =
     (case ls_insert t (bm_tokens bm) of
        (False, _) \<Rightarrow> bm
      | (True, ts) \<Rightarrow> record_ncc_parent_rank t (bm\<lparr>bm_tokens := ts\<rparr>))"

definition beta_insert_indexed :: "token_id \<Rightarrow> binding_set \<Rightarrow> beta_memory \<Rightarrow> beta_memory" where
  "beta_insert_indexed t bs bm =
     (case ls_insert t (bm_tokens bm) of
        (False, _) \<Rightarrow> bm
      | (True, ts) \<Rightarrow>
          (let bm = record_ncc_parent_rank t (bm\<lparr>bm_tokens := ts\<rparr>)
           in bm\<lparr>var_indices := index_insert (\<lambda>es. es @ [t]) (binding_key bs) (indexed_vars bm) (var_indices bm)\<rparr>))"

definition beta_remove :: "token_id \<Rightarrow> beta_memory \<Rightarrow> beta_memory" where
  "beta_remove t bm =
     (let bm = bm\<lparr>bm_tokens := snd (ls_remove t (bm_tokens bm))\<rparr>
      in bm\<lparr>parent_ranks := map_option (\<lambda>r. r\<lparr>ranks := (ranks r)(t := None)\<rparr>) (parent_ranks bm)\<rparr>)"

definition beta_remove_indexed :: "token_id \<Rightarrow> binding_set \<Rightarrow> beta_memory \<Rightarrow> beta_memory" where
  "beta_remove_indexed t bs bm =
     (let bm = beta_remove t bm
      in bm\<lparr>var_indices := index_remove t (binding_key bs) (indexed_vars bm) (var_indices bm)\<rparr>)"

definition beta_contains :: "beta_memory \<Rightarrow> token_id \<Rightarrow> bool" where
  "beta_contains bm t \<longleftrightarrow> t \<in> set (bm_tokens bm)"

text \<open>Newest first.\<close>

definition beta_iter :: "beta_memory \<Rightarrow> token_id list" where
  "beta_iter bm = rev (bm_tokens bm)"

definition beta_is_empty :: "beta_memory \<Rightarrow> bool" where
  "beta_is_empty bm \<longleftrightarrow> bm_tokens bm = []"

definition beta_len :: "beta_memory \<Rightarrow> nat" where
  "beta_len bm = length (bm_tokens bm)"

definition beta_clear :: "beta_memory \<Rightarrow> beta_memory" where
  "beta_clear bm = bm\<lparr>bm_tokens := [], var_indices := Map.empty,
     parent_ranks := map_option (\<lambda>r. r\<lparr>ranks := Map.empty, next_rank := 0\<rparr>) (parent_ranks bm)\<rparr>"

section \<open>The indexes are exact\<close>

text \<open>\<open>bind t\<close> is the binding set of token \<open>t\<close>.\<close>

definition bound_key :: "(token_id \<Rightarrow> binding_set) \<Rightarrow> var_id \<Rightarrow> token_id \<Rightarrow> atom_key option" where
  "bound_key bind var t = binding_key (bind t) var"

definition beta_index_ok :: "(token_id \<Rightarrow> binding_set) \<Rightarrow> beta_memory \<Rightarrow> bool" where
  "beta_index_ok bind bm \<longleftrightarrow> distinct (bm_tokens bm) \<and>
     index_ok (bound_key bind) (bm_tokens bm) (indexed_vars bm) (var_indices bm)"

interpretation beta_index: indexed_memory bm_tokens is_var_indexed lookup_by_var "bound_key bind" "beta_index_ok bind" for bind
  by unfold_locales (auto simp: beta_index_ok_def lookup_by_var_def is_var_indexed_def intro: index_lookup_ok)

lemma record_rank_fields [simp]:
  "bm_tokens (record_ncc_parent_rank t bm) = bm_tokens bm" "var_indices (record_ncc_parent_rank t bm) = var_indices bm"
  "indexed_vars (record_ncc_parent_rank t bm) = indexed_vars bm" "bm_id (record_ncc_parent_rank t bm) = bm_id bm"
  by (simp_all add: record_ncc_parent_rank_def split: option.split)

lemma bm_tokens_updates [simp]:
  "bm_tokens (beta_insert_indexed t bs bm) = (if t \<in> set (bm_tokens bm) then bm_tokens bm else bm_tokens bm @ [t])"
  "bm_tokens (beta_insert t bm) = (if t \<in> set (bm_tokens bm) then bm_tokens bm else bm_tokens bm @ [t])"
  "bm_tokens (beta_remove_indexed t bs bm) = filter (\<lambda>x. x \<noteq> t) (bm_tokens bm)"
  "bm_tokens (beta_remove t bm) = filter (\<lambda>x. x \<noteq> t) (bm_tokens bm)"
  "bm_tokens (request_var_index var ts bm) = bm_tokens bm" "bm_tokens (beta_clear bm) = []"
  "bm_tokens (enable_ncc_parent_ranks bm) = bm_tokens bm" "bm_tokens (beta_memory_new i) = []"
  by (auto simp: beta_insert_indexed_def beta_insert_def beta_remove_indexed_def beta_remove_def ls_insert_def ls_remove_def
      request_var_index_def beta_clear_def enable_ncc_parent_ranks_def beta_memory_new_def Let_def split: option.split)

lemma appends_append: "appends (\<lambda>es. es @ [t]) t"
  by (simp add: appends_def)

lemma beta_index_ok_new: "beta_index_ok bind (beta_memory_new i)"
  by (simp add: beta_index_ok_def beta_memory_new_def index_ok_empty)

lemma beta_index_ok_insert:
  "beta_index_ok bind bm \<Longrightarrow> bind t = bs \<Longrightarrow> beta_index_ok bind (beta_insert_indexed t bs bm)"
  by (auto simp: beta_index_ok_def beta_insert_indexed_def bound_key_def ls_insert_def appends_append Let_def
      intro!: index_insert_ok)

lemma beta_index_ok_remove:
  "beta_index_ok bind bm \<Longrightarrow> bind t = bs \<Longrightarrow> beta_index_ok bind (beta_remove_indexed t bs bm)"
  by (auto simp: beta_index_ok_def beta_remove_indexed_def beta_remove_def bound_key_def ls_remove_def Let_def
      intro!: index_remove_ok)

lemma beta_index_ok_clear: "beta_index_ok bind bm \<Longrightarrow> beta_index_ok bind (beta_clear bm)"
  by (auto simp: beta_index_ok_def beta_clear_def index_ok_def nonempty_map_def)

lemma beta_index_ok_request:
  assumes "beta_index_ok bind bm"
    and "\<And>t. t \<in> set (bm_tokens bm) \<Longrightarrow> \<exists>tok. token_get ts t = Some tok \<and> tok_bindings tok = bind t"
  shows "beta_index_ok bind (request_var_index var ts bm)"
proof -
  have "Option.bind (token_get ts t) (\<lambda>tok. binding_key (tok_bindings tok) var) = bound_key bind var t"
    if "t \<in> set (bm_tokens bm)" for t
    using assms(2) [OF that] by (auto simp: bound_key_def)
  then show ?thesis
    using assms(1) by (auto simp: beta_index_ok_def request_var_index_def appends_append intro!: index_fill_ok)
qed

lemma beta_index_ok_request_empty:
  "beta_index_ok bind bm \<Longrightarrow> request_var_index_empty var bm = Some bm' \<Longrightarrow> beta_index_ok bind bm'"
  by (auto simp: beta_index_ok_def request_var_index_empty_def intro!: index_ok_add_column split: if_splits)

text \<open>Insertion without bindings is for the root memory, whose token binds nothing.\<close>

lemma column_no_keys: "(\<And>s. key_of s e = None) \<Longrightarrow> column key_of (elems @ [e]) = column key_of elems"
  by (simp add: column_def fun_eq_iff)

lemma beta_index_ok_insert_unbound:
  "beta_index_ok bind bm \<Longrightarrow> (\<And>var. binding_key (bind t) var = None) \<Longrightarrow> beta_index_ok bind (beta_insert t bm)"
  by (auto simp: beta_index_ok_def beta_insert_def ls_insert_def index_ok_def bound_key_def column_no_keys)

section \<open>Ranks\<close>

definition ranks_ok :: "beta_memory \<Rightarrow> bool" where
  "ranks_ok bm \<longleftrightarrow> (case parent_ranks bm of
       None \<Rightarrow> True
     | Some r \<Rightarrow> dom (ranks r) = set (bm_tokens bm) \<and> (\<forall>t n. ranks r t = Some n \<longrightarrow> n < next_rank r) \<and>
         sorted_wrt (\<lambda>t t'. the (ranks r t) < the (ranks r t')) (bm_tokens bm))"

lemma rank_members_loop:
  "distinct ts \<Longrightarrow> fold (\<lambda>(index, t) m. m(t \<mapsto> word_of_nat index)) (enumerate n ts) m t =
    (if t \<in> set ts then Some (word_of_nat (n + (THE k. k < length ts \<and> ts ! k = t))) else m t)"
proof (induction ts arbitrary: n m)
  case (Cons x ts)
  have later: "(THE k. k < length (x # ts) \<and> (x # ts) ! k = t) = Suc (THE k. k < length ts \<and> ts ! k = t)" if t: "t \<in> set ts"
  proof -
    obtain j where j: "j < length ts" "ts ! j = t" using t by (auto simp: in_set_conv_nth)
    have "(THE k. k < length ts \<and> ts ! k = t) = j"
      using j Cons.prems by (intro the_equality) (auto simp: nth_eq_iff_index_eq)
    moreover have "(THE k. k < length (x # ts) \<and> (x # ts) ! k = t) = Suc j"
      using j Cons.prems t by (intro the_equality) (auto simp: nth_Cons nth_eq_iff_index_eq split: nat.splits)
    ultimately show ?thesis by simp
  qed
  have "(THE k. k < length (x # ts) \<and> (x # ts) ! k = x) = 0"
    using Cons.prems by (intro the_equality) (auto simp: nth_Cons in_set_conv_nth split: nat.splits)
  with later Cons show ?case by simp
qed simp

lemma rank_members_nth: "distinct ts \<Longrightarrow> k < length ts \<Longrightarrow> rank_members ts (ts ! k) = Some (word_of_nat k)"
proof -
  assume "distinct ts" "k < length ts"
  moreover from this have "(THE j. j < length ts \<and> ts ! j = ts ! k) = k"
    by (intro the_equality) (auto simp: nth_eq_iff_index_eq)
  ultimately show ?thesis by (simp add: rank_members_def rank_members_loop)
qed

lemma rank_members_dom: "distinct ts \<Longrightarrow> dom (rank_members ts) = set ts"
  by (auto simp: rank_members_def rank_members_loop dom_def)

lemma less_u64_of_nat: "i < j \<Longrightarrow> j < 2 ^ 64 \<Longrightarrow> (word_of_nat i :: u64) < word_of_nat j"
  by (simp add: word_less_nat_alt unsigned_of_nat take_bit_nat_eq_self)

text \<open>Ranking all members anew, on first use or when the counter has run out.\<close>

lemma ranks_ok_rebase:
  assumes "distinct (bm_tokens bm)" "length (bm_tokens bm) < 2 ^ 64 - 1"
    and "parent_ranks bm = Some \<lparr>ranks = rank_members (bm_tokens bm), next_rank = word_of_nat (length (bm_tokens bm))\<rparr>"
  shows "ranks_ok bm"
proof -
  let ?ts = "bm_tokens bm"
  have "sorted_wrt (\<lambda>t t'. the (rank_members ?ts t) < the (rank_members ?ts t')) ?ts"
    using assms(1,2) by (auto simp: sorted_wrt_iff_nth_less rank_members_nth intro!: less_u64_of_nat)
  moreover have "n < word_of_nat (length ?ts)" if n: "rank_members ?ts t = Some n" for t n
  proof -
    from n have "t \<in> set ?ts" using rank_members_dom [OF assms(1)] by blast
    then obtain k where "k < length ?ts" "t = ?ts ! k" by (auto simp: in_set_conv_nth)
    with n assms show ?thesis by (auto simp: rank_members_nth intro!: less_u64_of_nat)
  qed
  ultimately show ?thesis using assms by (simp add: ranks_ok_def rank_members_dom)
qed

lemma ranks_ok_record:
  assumes ok: "ranks_ok bm" and t: "t \<notin> set (bm_tokens bm)" and distinct: "distinct (bm_tokens bm)"
    and room: "length (bm_tokens bm) < 2 ^ 64 - 2"
  shows "ranks_ok (record_ncc_parent_rank t (bm\<lparr>bm_tokens := bm_tokens bm @ [t]\<rparr>))"
proof (cases "parent_ranks bm")
  case None
  then show ?thesis by (simp add: ranks_ok_def record_ncc_parent_rank_def)
next
  case (Some r)
  show ?thesis
  proof (cases "next_rank r = u64_max")
    case True
    with Some distinct t room show ?thesis
      by (intro ranks_ok_rebase) (auto simp: record_ncc_parent_rank_def)
  next
    case False
    have below: "n < next_rank r + 1" if "n < next_rank r" for n
      using False that by (simp add: less_Suc_u64)
    have old: "dom (ranks r) = set (bm_tokens bm)" "\<And>t n. ranks r t = Some n \<Longrightarrow> n < next_rank r"
      "sorted_wrt (\<lambda>t t'. the (ranks r t) < the (ranks r t')) (bm_tokens bm)"
      using ok Some by (auto simp: ranks_ok_def)
    have new: "the (ranks r x) < next_rank r \<and> x \<noteq> t" if "x \<in> set (bm_tokens bm)" for x
    proof -
      have "x \<in> dom (ranks r)" unfolding old(1) by (rule that)
      then obtain n where n: "ranks r x = Some n" by blast
      from old(2) [OF n] n that t show ?thesis by auto
    qed
    have "sorted_wrt (\<lambda>x x'. the (((ranks r)(t \<mapsto> next_rank r)) x) < the (((ranks r)(t \<mapsto> next_rank r)) x')) (bm_tokens bm)"
      by (rule sorted_wrt_mono_rel [OF _ old(3)]) (use new in auto)
    then have "sorted_wrt (\<lambda>x x'. the (((ranks r)(t \<mapsto> next_rank r)) x) < the (((ranks r)(t \<mapsto> next_rank r)) x')) (bm_tokens bm @ [t])"
      using new by (auto simp: sorted_wrt_append)
    moreover have "next_rank r < next_rank r + 1" using False by (simp add: less_Suc_u64)
    ultimately show ?thesis
      using Some False old(1) below old(2) by (auto simp: ranks_ok_def record_ncc_parent_rank_def)
  qed
qed

lemma ranks_ok_indices [simp]: "ranks_ok (bm\<lparr>var_indices := x\<rparr>) = ranks_ok bm" "ranks_ok (bm\<lparr>indexed_vars := y\<rparr>) = ranks_ok bm"
  by (simp_all add: ranks_ok_def split: option.split)

lemma ranks_ok_insert:
  assumes "ranks_ok bm" "distinct (bm_tokens bm)" "length (bm_tokens bm) < 2 ^ 64 - 2"
  shows "ranks_ok (beta_insert_indexed t bs bm)" "ranks_ok (beta_insert t bm)"
  using assms ranks_ok_record by (auto simp: beta_insert_indexed_def beta_insert_def ls_insert_def Let_def)

lemma ranks_ok_remove: "ranks_ok bm \<Longrightarrow> ranks_ok (beta_remove_indexed t bs bm)"
  by (auto simp: ranks_ok_def beta_remove_indexed_def beta_remove_def ls_remove_def Let_def sorted_wrt_filter
      intro: sorted_wrt_mono_rel [rotated, OF sorted_wrt_filter] split: option.splits)

lemma ranks_ok_other:
  "ranks_ok bm \<Longrightarrow> ranks_ok (request_var_index var ts bm)" "ranks_ok (beta_clear bm)" "ranks_ok (beta_memory_new i)"
  "ranks_ok bm \<Longrightarrow> request_var_index_empty var bm = Some bm' \<Longrightarrow> ranks_ok bm'"
  by (auto simp: request_var_index_def request_var_index_empty_def ranks_ok_def beta_clear_def beta_memory_new_def
      split: option.splits if_splits)

lemma ranks_ok_enable:
  "ranks_ok bm \<Longrightarrow> distinct (bm_tokens bm) \<Longrightarrow> length (bm_tokens bm) < 2 ^ 64 - 1 \<Longrightarrow> ranks_ok (enable_ncc_parent_ranks bm)"
  by (cases "parent_ranks bm") (auto simp: enable_ncc_parent_ranks_def intro!: ranks_ok_rebase)

lemma ranks_ok_validate: "ranks_ok bm \<Longrightarrow> distinct (bm_tokens bm) \<Longrightarrow> validate_ncc_parent_ranks bm"
  by (fastforce simp: ranks_ok_def validate_ncc_parent_ranks_def distinct_card split: option.splits)

section \<open>Histories\<close>

inductive beta_mem_reach :: "(token_id \<Rightarrow> binding_set) \<Rightarrow> beta_memory \<Rightarrow> bool" for bind where
  beta_mem_new: "beta_mem_reach bind (beta_memory_new i)"
| beta_mem_insert: "beta_mem_reach bind bm \<Longrightarrow> length (bm_tokens bm) < 2 ^ 64 - 2 \<Longrightarrow>
    beta_mem_reach bind (beta_insert_indexed t (bind t) bm)"
| beta_mem_root: "beta_mem_reach bind bm \<Longrightarrow> length (bm_tokens bm) < 2 ^ 64 - 2 \<Longrightarrow> bind t = [] \<Longrightarrow>
    beta_mem_reach bind (beta_insert t bm)"
| beta_mem_remove: "beta_mem_reach bind bm \<Longrightarrow> beta_mem_reach bind (beta_remove_indexed t (bind t) bm)"
| beta_mem_request: "beta_mem_reach bind bm \<Longrightarrow>
    (\<And>t. t \<in> set (bm_tokens bm) \<Longrightarrow> \<exists>tok. token_get ts t = Some tok \<and> tok_bindings tok = bind t) \<Longrightarrow>
    beta_mem_reach bind (request_var_index var ts bm)"
| beta_mem_request_empty: "beta_mem_reach bind bm \<Longrightarrow> request_var_index_empty var bm = Some bm' \<Longrightarrow>
    beta_mem_reach bind bm'"
| beta_mem_ranks: "beta_mem_reach bind bm \<Longrightarrow> length (bm_tokens bm) < 2 ^ 64 - 1 \<Longrightarrow>
    beta_mem_reach bind (enable_ncc_parent_ranks bm)"
| beta_mem_clear: "beta_mem_reach bind bm \<Longrightarrow> beta_mem_reach bind (beta_clear bm)"

lemma beta_index_ok_enable: "beta_index_ok bind bm \<Longrightarrow> beta_index_ok bind (enable_ncc_parent_ranks bm)"
  by (simp add: beta_index_ok_def enable_ncc_parent_ranks_def split: option.split)

lemma binding_key_empty [simp]: "binding_key [] var = None"
  by (simp add: binding_key_def bound_value_def binding_get_def)

lemma beta_mem_reach_ok: "beta_mem_reach bind bm \<Longrightarrow> beta_index_ok bind bm \<and> ranks_ok bm"
proof (induction rule: beta_mem_reach.induct)
  case (beta_mem_root bm t)
  then show ?case by (simp add: beta_index_ok_insert_unbound ranks_ok_insert beta_index_ok_def [of _ bm])
qed (auto intro: beta_index_ok_new beta_index_ok_insert beta_index_ok_remove beta_index_ok_request
    beta_index_ok_request_empty beta_index_ok_enable beta_index_ok_clear
    ranks_ok_insert ranks_ok_remove ranks_ok_other ranks_ok_enable simp: beta_index_ok_def [THEN iffD1, THEN conjunct1])

end
