(* ===== verification/Join_Candidates.thy ===== *)
theory Join_Candidates
  imports Beta_Memory
begin

text \<open>
  The candidates of a join (\<open>collect_candidate_facts\<close> and \<open>collect_candidate_parent_tokens\<close> of
  \<open>rete.rs\<close>): large memories are read through a value index when the first indexable equality test
  allows it, all others are scanned. Filtering the candidates by the join is filtering the memory.
\<close>

definition index_scan_threshold :: nat where
  "index_scan_threshold = 16"

definition collect_candidate_facts :: "alpha_memory \<Rightarrow> (slot_index \<times> var_id) list \<Rightarrow> binding_set \<Rightarrow> fact_id list" where
  "collect_candidate_facts am index_tests parent_bindings =
     (if index_scan_threshold \<le> alpha_len am
      then (case index_tests of
              [] \<Rightarrow> mem_facts am
            | (slot, var) # _ \<Rightarrow>
                if is_slot_indexed am slot
                then (case binding_key parent_bindings var of
                        None \<Rightarrow> mem_facts am
                      | Some k \<Rightarrow> (case lookup_by_slot am slot k of None \<Rightarrow> [] | Some fs \<Rightarrow> fs))
                else mem_facts am)
      else mem_facts am)"

definition collect_candidate_parent_tokens :: "beta_memory \<Rightarrow> (slot_index \<times> var_id) list \<Rightarrow> fact \<Rightarrow> token_id list" where
  "collect_candidate_parent_tokens bm index_tests f =
     (if index_scan_threshold \<le> beta_len bm
      then (case index_tests of
              [] \<Rightarrow> beta_iter bm
            | (slot, var) # _ \<Rightarrow>
                if is_var_indexed bm var
                then (case slot_key f slot of
                        None \<Rightarrow> beta_iter bm
                      | Some k \<Rightarrow> (case lookup_by_var bm var k of None \<Rightarrow> [] | Some ts \<Rightarrow> rev ts))
                else beta_iter bm)
      else beta_iter bm)"

text \<open>What the rule compiler ensures of a pattern: its sequence plan is valid and of bounded width.\<close>

definition pattern_ok :: "sequence_pattern option \<Rightarrow> bool" where
  "pattern_ok sequence \<longleftrightarrow> (case sequence of None \<Rightarrow> True
     | Some plan \<Rightarrow> validate_plan plan = Inr () \<and> logical_width plan < usize_max)"

lemma structural_keys:
  assumes "structural_eq v w"
  shows "map_option key_norm (atom_key_of v) = map_option key_norm (atom_key_of w)"
proof -
  have "atom_key_of v = None \<longleftrightarrow> atom_key_of w = None"
    using assms by (cases v; cases w) (auto split: val.splits)
  then show ?thesis
    using assms atom_key_eq_structural [of v _ w] by (auto simp: atom_key_eq_iff [symmetric])
qed

lemma plan_sources_ok:
  "validate_plan plan = Inr () \<Longrightarrow> is_ordered plan \<or> (\<forall>seg \<in> set (plan_segments plan). segment_ok seg)"
  by (auto simp: validate_plan_def validate_sources_iff split: if_splits sum.splits)

text \<open>The equality test behind an index makes the fact's key and the binding's key the same.\<close>

lemma indexable_key:
  assumes "evaluate_pattern f tok tests sequence" "pattern_ok sequence"
    and "(slot, var) \<in> set (indexable_tests tests sequence)"
  shows "map_option key_norm (slot_key f slot) = map_option key_norm (binding_key (tok_bindings tok) var)"
proof -
  obtain t where t: "t \<in> set tests" "join_type t = JEqual" "beta_var t = var"
    and phys: "(case sequence of None \<Rightarrow> Some (alpha_slot t) | Some plan \<Rightarrow> physical_selector plan (alpha_slot t)) = Some slot"
    using assms(3) by (fastforce simp: indexable_tests_def List.map_filter_def split: if_splits option.splits)
  have pass: "\<exists>field. evaluate_join_fields field (Some (tok_bindings tok)) tests \<and> field (alpha_slot t) = get_slot_value f slot"
  proof (cases sequence)
    case None
    with assms(1) phys show ?thesis by (auto simp: evaluate_pattern_def evaluate_join_def)
  next
    case (Some plan)
    have plan: "validate_plan plan = Inr ()" "logical_width plan < usize_max"
      using assms(2) Some by (simp_all add: pattern_ok_def)
    obtain sv where sv: "sv \<in> set (all_splits plan f)" "split_matches sv (tok_bindings tok) tests plan"
      using assms(1) Some evaluate_pattern_splits [OF plan(2)] by blast
    have "split_get sv (alpha_slot t) = get_slot_value f slot"
      by (rule physical_selector_value [OF plan_sources_ok [OF plan(1)] sv(1)]) (use phys Some in simp)
    with sv(2) show ?thesis by (auto simp: split_matches_def)
  qed
  then obtain field where field: "evaluate_join_fields field (Some (tok_bindings tok)) tests"
    "field (alpha_slot t) = get_slot_value f slot" by blast
  from field(1) t(1) have "case field (alpha_slot t) of None \<Rightarrow> False
      | Some v \<Rightarrow> (case bound_value (tok_bindings tok) (beta_var t) of None \<Rightarrow> False
          | Some w \<Rightarrow> join_values_match (join_type t) v w)"
    unfolding evaluate_join_fields_def option.simps bind.simps by blast
  then obtain v w where "get_slot_value f slot = Some v" "bound_value (tok_bindings tok) var = Some w" "structural_eq v w"
    using t(2,3) field(2) by (auto simp: values_join_eq_iff split: option.splits if_splits)
  with structural_keys show ?thesis by (simp add: slot_key_def binding_key_def)
qed

lemma has_key_iff: "has_key key_of s k e \<longleftrightarrow> map_option key_norm (key_of s e) = Some (key_norm k)"
  by (auto simp: has_key_def split: option.split)

lemma candidate_facts_filter:
  assumes am: "alpha_ok content am" and plan: "pattern_ok sequence"
  shows "filter (\<lambda>i. evaluate_pattern (content i) tok tests sequence)
      (collect_candidate_facts am (indexable_tests tests sequence) (tok_bindings tok)) =
    filter (\<lambda>i. evaluate_pattern (content i) tok tests sequence) (mem_facts am)"
proof (cases "indexable_tests tests sequence")
  case (Cons st rest)
  obtain slot var where st: "st = (slot, var)" by (cases st)
  have "filter (\<lambda>i. evaluate_pattern (content i) tok tests sequence)
      (case lookup_by_slot am slot k of None \<Rightarrow> [] | Some fs \<Rightarrow> fs) =
    filter (\<lambda>i. evaluate_pattern (content i) tok tests sequence) (mem_facts am)"
    if "is_slot_indexed am slot" "binding_key (tok_bindings tok) var = Some k" for k
    by (rule alpha_index.candidates_filter [OF am that(1)])
      (use indexable_key [OF _ plan, of _ tok tests slot var] that(2) Cons st in \<open>simp add: has_key_iff fact_key_def\<close>)
  with Cons st show ?thesis by (simp add: collect_candidate_facts_def split: option.split)
qed (simp add: collect_candidate_facts_def)

lemma candidate_parents_filter:
  assumes bm: "beta_index_ok bind bm" and plan: "pattern_ok sequence"
    and P: "\<And>t. t \<in> set (bm_tokens bm) \<Longrightarrow> P t \<Longrightarrow> \<exists>tok. tok_bindings tok = bind t \<and> evaluate_pattern f tok tests sequence"
  shows "filter P (collect_candidate_parent_tokens bm (indexable_tests tests sequence) f) = filter P (beta_iter bm)"
proof (cases "indexable_tests tests sequence")
  case (Cons st rest)
  obtain slot var where st: "st = (slot, var)" by (cases st)
  have "filter P (rev (case lookup_by_var bm var k of None \<Rightarrow> [] | Some ts \<Rightarrow> ts)) = filter P (beta_iter bm)"
    if "is_var_indexed bm var" "slot_key f slot = Some k" for k
  proof -
    have "has_key (bound_key bind) var k t" if t: "t \<in> set (bm_tokens bm)" "P t" for t
    proof -
      obtain tok where "tok_bindings tok = bind t" "evaluate_pattern f tok tests sequence" using P [OF t] by blast
      with indexable_key [OF _ plan, of f tok tests slot var] \<open>slot_key f slot = Some k\<close> Cons st
      show ?thesis by (simp add: has_key_iff bound_key_def)
    qed
    from beta_index.candidates_filter [OF bm that(1) this] show ?thesis
      by (simp add: rev_filter [symmetric] beta_iter_def)
  qed
  moreover have "rev (case lookup_by_var bm var k of None \<Rightarrow> [] | Some ts \<Rightarrow> ts) =
      (case lookup_by_var bm var k of None \<Rightarrow> [] | Some ts \<Rightarrow> rev ts)" for k
    by (simp split: option.split)
  ultimately show ?thesis
    using Cons st by (auto simp: collect_candidate_parent_tokens_def split: option.split)
qed (simp add: collect_candidate_parent_tokens_def)

end
