(* ===== verification/Join_Results.thy ===== *)
theory Join_Results
  imports Join_Candidates Token_Invariant
begin

text \<open>
  What the value indexes and the ranks of the memories give the joins: reading a large memory
  through its index never changes what a join matches, and the ranks follow the order of entry.
\<close>

text \<open>
  C38: In every history of an alpha memory, the candidate facts the join collects for a parent
  token, by scan or through the value index, yield after the join's own tests exactly the facts of
  the memory that pass these tests, in the same order: the index neither loses, adds nor reorders
  matches, whatever the parent has bound.
\<close>

theorem candidate_facts_exact:
  assumes "alpha_mem_reach content am" and "pattern_ok sequence"
  shows "filter (\<lambda>i. evaluate_pattern (content i) tok tests sequence)
      (collect_candidate_facts am (indexable_tests tests sequence) (tok_bindings tok)) =
    filter (\<lambda>i. evaluate_pattern (content i) tok tests sequence) (mem_facts am)"
  by (rule candidate_facts_filter [OF alpha_mem_reach_ok [OF assms(1)] assms(2)])

definition indexed_facts :: alpha_memory where
  "indexed_facts = fold (\<lambda>n. alpha_insert (FactId (of_nat n)) (sample_alpha_fact (FactId (of_nat n)))) [0..<16]
     (the (request_index_empty (OrderedSlot 0) (alpha_memory_new (AlphaMemoryId 0))))"

definition index_join :: join_test where
  "index_join = \<lparr>alpha_slot = OrderedSlot 0, beta_var = 0, join_type = JEqual\<rparr>"

definition index_token :: token where
  "index_token = \<lparr>tok_fact = None, tok_bindings = binding_set 0 (value_ref_new (VInteger 7)) [], tok_parent = None, tok_owner = 0\<rparr>"

lemma inserted_reach:
  "alpha_mem_reach content am \<Longrightarrow> alpha_mem_reach content (fold (\<lambda>n. alpha_insert (FactId (of_nat n)) (content (FactId (of_nat n)))) ns am)"
  by (induction ns arbitrary: am) (auto intro: mem_insert)

lemma indexed_facts_reach: "alpha_mem_reach sample_alpha_fact indexed_facts"
proof -
  obtain am where am: "request_index_empty (OrderedSlot 0) (alpha_memory_new (AlphaMemoryId 0)) = Some am"
    by (simp add: request_index_empty_def alpha_memory_new_def)
  show ?thesis unfolding indexed_facts_def am option.sel
    by (intro inserted_reach mem_request_empty [OF mem_new am])
qed

lemma inserted_facts:
  "mem_facts (fold (\<lambda>n. alpha_insert (FactId (of_nat n)) (content n)) ns am) =
    fold (\<lambda>n fs. if FactId (of_nat n) \<in> set fs then fs else fs @ [FactId (of_nat n)]) ns (mem_facts am)"
  by (induction ns arbitrary: am) simp_all

lemma indexed_facts_members: "mem_facts indexed_facts = map (\<lambda>n. FactId (of_nat n)) [0..<16]"
proof -
  have "mem_facts (the (request_index_empty (OrderedSlot 0) (alpha_memory_new (AlphaMemoryId 0)))) = []"
    by (simp add: request_index_empty_def alpha_memory_new_def)
  then show ?thesis unfolding indexed_facts_def inserted_facts by (simp add: upt_rec)
qed

lemma index_join_matches:
  "evaluate_pattern (sample_alpha_fact (FactId n)) index_token [index_join] None \<longleftrightarrow> of_nat n = (7 :: 64 word)"
  by (simp add: evaluate_pattern_def evaluate_join_def evaluate_join_fields_def index_join_def index_token_def
      sample_alpha_fact_def get_slot_value_def bound_value_def binding_get_def binding_set_def values_join_eq_iff)

theorem candidate_facts_exact_witness:
  "filter (\<lambda>i. evaluate_pattern (sample_alpha_fact i) index_token [index_join] None)
     (collect_candidate_facts indexed_facts (indexable_tests [index_join] None) (tok_bindings index_token)) = [FactId 7]"
proof -
  have "pattern_ok None" by (simp add: pattern_ok_def)
  from candidate_facts_exact [OF indexed_facts_reach this, of index_token "[index_join]"] show ?thesis
    by (simp add: indexed_facts_members upt_rec index_join_matches)
qed

text \<open>
  C39: In every history of a beta memory, the candidate parent tokens collected for a new fact
  yield, after the join's tests, exactly the tokens of the memory that match the fact, newest first
  as the plain iteration has them.
\<close>

theorem candidate_parents_exact:
  assumes "beta_mem_reach (\<lambda>t. tok_bindings (stored t)) bm" and "pattern_ok sequence"
  shows "filter (\<lambda>t. evaluate_pattern f (stored t) tests sequence)
      (collect_candidate_parent_tokens bm (indexable_tests tests sequence) f) =
    filter (\<lambda>t. evaluate_pattern f (stored t) tests sequence) (rev (bm_tokens bm))"
  using candidate_parents_filter [OF conjunct1 [OF beta_mem_reach_ok [OF assms(1)]] assms(2),
      of "\<lambda>t. evaluate_pattern f (stored t) tests sequence" f tests]
  by (auto simp: beta_iter_def)

definition indexed_stored :: "token_id \<Rightarrow> token" where
  "indexed_stored t = \<lparr>tok_fact = None,
     tok_bindings = binding_set 0 (value_ref_new (VInteger (case t of TokenId n \<Rightarrow> of_nat (n mod 8)))) [],
     tok_parent = None, tok_owner = 0\<rparr>"

definition indexed_parents :: beta_memory where
  "indexed_parents = fold (\<lambda>n. beta_insert_indexed (TokenId n) (tok_bindings (indexed_stored (TokenId n)))) [0..<16]
     (the (request_var_index_empty 0 (beta_memory_new (BetaMemoryId 0))))"

lemma inserted_parents:
  "beta_mem_reach (\<lambda>t. tok_bindings (indexed_stored t)) bm \<Longrightarrow> bm_tokens bm = map TokenId [0..<n] \<Longrightarrow> n + k < 2 ^ 64 - 2 \<Longrightarrow>
    beta_mem_reach (\<lambda>t. tok_bindings (indexed_stored t))
      (fold (\<lambda>n. beta_insert_indexed (TokenId n) (tok_bindings (indexed_stored (TokenId n)))) [n..<n + k] bm) \<and>
    bm_tokens (fold (\<lambda>n. beta_insert_indexed (TokenId n) (tok_bindings (indexed_stored (TokenId n)))) [n..<n + k] bm) =
      map TokenId [0..<n + k]"
proof (induction k)
  case (Suc k)
  then show ?case using beta_mem_insert [of "\<lambda>t. tok_bindings (indexed_stored t)" _ "TokenId (n + k)"] by auto
qed simp

lemma indexed_parents_reach:
  "beta_mem_reach (\<lambda>t. tok_bindings (indexed_stored t)) indexed_parents" "bm_tokens indexed_parents = map TokenId [0..<16]"
proof -
  obtain bm where bm: "request_var_index_empty 0 (beta_memory_new (BetaMemoryId 0)) = Some bm" "bm_tokens bm = []"
    by (simp add: request_var_index_empty_def beta_memory_new_def)
  note start = beta_mem_request_empty [OF beta_mem_new bm(1)]
  show "beta_mem_reach (\<lambda>t. tok_bindings (indexed_stored t)) indexed_parents" "bm_tokens indexed_parents = map TokenId [0..<16]"
    using inserted_parents [OF start, of 0 16] unfolding indexed_parents_def bm(1) option.sel by (simp_all add: bm(2))
qed

lemma index_join_parents:
  "evaluate_pattern (sample_alpha_fact (FactId 7)) (indexed_stored (TokenId n)) [index_join] None \<longleftrightarrow>
    (of_nat (n mod 8) :: 64 word) = 7"
  by (auto simp add: evaluate_pattern_def evaluate_join_def evaluate_join_fields_def index_join_def indexed_stored_def
      sample_alpha_fact_def get_slot_value_def bound_value_def binding_get_def binding_set_def values_join_eq_iff)

theorem candidate_parents_exact_witness:
  "filter (\<lambda>t. evaluate_pattern (sample_alpha_fact (FactId 7)) (indexed_stored t) [index_join] None)
     (collect_candidate_parent_tokens indexed_parents (indexable_tests [index_join] None) (sample_alpha_fact (FactId 7))) =
   [TokenId 15, TokenId 7]"
proof -
  have "pattern_ok None" by (simp add: pattern_ok_def)
  from candidate_parents_exact [OF indexed_parents_reach(1) this, of "sample_alpha_fact (FactId 7)" "[index_join]"]
  show ?thesis by (simp add: indexed_parents_reach(2) upt_rec index_join_parents)
qed

text \<open>
  C40: In every history of a beta memory that keeps ranks of its tokens for negated conjunctions,
  exhausted rank counters included, the ranks pass the consistency check of the code, and sorting
  any listing of the tokens by rank gives them back in the order in which they entered the memory.
\<close>

theorem parent_ranks_chronological:
  assumes "beta_mem_reach bind bm"
  shows "validate_ncc_parent_ranks bm \<and>
    (parent_ranks bm \<noteq> None \<longrightarrow> distinct ts \<longrightarrow> set ts = set (bm_tokens bm) \<longrightarrow>
      sort_key (\<lambda>t. the (ncc_parent_rank bm t)) ts = bm_tokens bm)"
proof (intro conjI impI)
  from beta_mem_reach_ok [OF assms] have ok: "beta_index_ok bind bm" "ranks_ok bm" by simp_all
  then have d: "distinct (bm_tokens bm)" by (simp add: beta_index_ok_def)
  show "validate_ncc_parent_ranks bm" by (rule ranks_ok_validate [OF ok(2) d])
  assume r: "parent_ranks bm \<noteq> None" and ts: "distinct ts" "set ts = set (bm_tokens bm)"
  have strict: "sorted_wrt (\<lambda>t t'. the (ncc_parent_rank bm t) < the (ncc_parent_rank bm t')) (bm_tokens bm)"
    using ok(2) r by (auto simp: ranks_ok_def ncc_parent_rank_def)
  then have "sorted_wrt (<) (map (\<lambda>t. the (ncc_parent_rank bm t)) (bm_tokens bm))" by (simp add: sorted_wrt_map)
  then have bm: "sorted (map (\<lambda>t. the (ncc_parent_rank bm t)) (bm_tokens bm))"
    and inj: "inj_on (\<lambda>t. the (ncc_parent_rank bm t)) (set (bm_tokens bm))"
    by (auto simp: strict_sorted_iff distinct_map)
  show "sort_key (\<lambda>t. the (ncc_parent_rank bm t)) ts = bm_tokens bm"
    by (rule map_sorted_distinct_set_unique [where f = "\<lambda>t. the (ncc_parent_rank bm t)"])
      (use bm inj ts d in \<open>auto simp: distinct_map\<close>)
qed

theorem parent_ranks_chronological_witness:
  "sort_key (\<lambda>t. the (ncc_parent_rank (enable_ncc_parent_ranks indexed_parents) t)) (rev (map TokenId [0..<16])) =
    map TokenId [0..<16]"
proof -
  have "beta_mem_reach (\<lambda>t. tok_bindings (indexed_stored t)) (enable_ncc_parent_ranks indexed_parents)"
    by (rule beta_mem_ranks [OF indexed_parents_reach(1)]) (simp add: indexed_parents_reach(2))
  moreover have "bm_tokens (enable_ncc_parent_ranks indexed_parents) = map TokenId [0..<16]"
    by (simp add: indexed_parents_reach(2))
  moreover have "parent_ranks (enable_ncc_parent_ranks indexed_parents) \<noteq> None"
    by (simp add: enable_ncc_parent_ranks_def split: option.split)
  moreover have "distinct (rev (map TokenId [0..<16]))" by (simp add: distinct_map inj_on_def)
  ultimately show ?thesis
    using parent_ranks_chronological [of _ "enable_ncc_parent_ranks indexed_parents" "rev (map TokenId [0..<16])"]
    by simp
qed

end
