(* ===== verification/Alpha_Network.thy ===== *)
theory Alpha_Network
  imports Alpha_Memory Sequence_Search Tokens
begin

text \<open>
  The alpha network (\<open>AlphaNetwork\<close> of \<open>alpha.rs\<close>): entry nodes by kind of fact, chains of constant
  tests, memories attached to nodes, and the reverse index from facts to memories. Propagation is
  a recursion over the node graph; \<open>fuel\<close> bounds its depth, \<open>None\<close> is running out of it. Ids count
  up in 32 bits, wrapping at the end.
\<close>

section \<open>State\<close>

datatype alpha_node =
    EntryNode alpha_entry_type "node_id list" "alpha_memory_id option"
  | TestNode constant_test "node_id list" "alpha_memory_id option"

fun node_memory :: "alpha_node \<Rightarrow> alpha_memory_id option" where
  "node_memory (EntryNode _ _ mem) = mem"
| "node_memory (TestNode _ _ mem) = mem"

fun node_children :: "alpha_node \<Rightarrow> node_id list" where
  "node_children (EntryNode _ cs _) = cs"
| "node_children (TestNode _ cs _) = cs"

fun set_node_memory :: "alpha_memory_id option \<Rightarrow> alpha_node \<Rightarrow> alpha_node" where
  "set_node_memory mem (EntryNode e cs _) = EntryNode e cs mem"
| "set_node_memory mem (TestNode t cs _) = TestNode t cs mem"

fun set_node_children :: "node_id list \<Rightarrow> alpha_node \<Rightarrow> alpha_node" where
  "set_node_children cs (EntryNode e _ mem) = EntryNode e cs mem"
| "set_node_children cs (TestNode t _ mem) = TestNode t cs mem"

record alpha_network =
  nodes :: "alpha_node list"
  memories :: "alpha_memory list"
  entry_nodes :: "alpha_entry_type \<rightharpoonup> node_id"
  fact_to_memories :: "fact_id \<rightharpoonup> alpha_memory_id list"
  next_node_id :: u32
  next_memory_id :: u32

fun mem_index :: "alpha_memory_id \<Rightarrow> nat" where
  "mem_index (AlphaMemoryId m) = unat m"

definition list_get :: "'a list \<Rightarrow> nat \<Rightarrow> 'a option" where
  "list_get xs i = (if i < length xs then Some (xs ! i) else None)"

definition list_modify :: "nat \<Rightarrow> ('a \<Rightarrow> 'a) \<Rightarrow> 'a list \<Rightarrow> 'a list" where
  "list_modify i f xs = (if i < length xs then xs[i := f (xs ! i)] else xs)"

definition alpha_network_new :: alpha_network where
  "alpha_network_new = \<lparr>nodes = [], memories = [], entry_nodes = Map.empty, fact_to_memories = Map.empty,
     next_node_id = 0, next_memory_id = 0\<rparr>"

definition alpha_node_at :: "alpha_network \<Rightarrow> node_id \<Rightarrow> alpha_node option" where
  "alpha_node_at net n = list_get (nodes net) (unat n)"

definition alpha_memory_at :: "alpha_network \<Rightarrow> alpha_memory_id \<Rightarrow> alpha_memory option" where
  "alpha_memory_at net m = list_get (memories net) (mem_index m)"

section \<open>Building\<close>

definition create_entry_node :: "alpha_entry_type \<Rightarrow> alpha_network \<Rightarrow> node_id \<times> alpha_network" where
  "create_entry_node e net =
     (case entry_nodes net e of
        Some n \<Rightarrow> (n, net)
      | None \<Rightarrow>
          (let n = next_node_id net
           in (n, net\<lparr>next_node_id := n + 1, nodes := nodes net @ [EntryNode e [] None],
                 entry_nodes := (entry_nodes net)(e \<mapsto> n)\<rparr>)))"

definition create_constant_test_node :: "node_id \<Rightarrow> constant_test \<Rightarrow> alpha_network \<Rightarrow> node_id \<times> alpha_network" where
  "create_constant_test_node parent test net =
     (let n = next_node_id net
      in (n, net\<lparr>next_node_id := n + 1,
            nodes := list_modify (unat parent) (\<lambda>node. set_node_children (node_children node @ [n]) node)
              (nodes net @ [TestNode test [] None])\<rparr>))"

definition create_memory :: "node_id \<Rightarrow> alpha_network \<Rightarrow> alpha_memory_id \<times> alpha_network" where
  "create_memory n net =
     (let m = AlphaMemoryId (next_memory_id net)
      in (m, net\<lparr>next_memory_id := next_memory_id net + 1,
            memories := memories net @ [alpha_memory_new m],
            nodes := list_modify (unat n) (set_node_memory (Some m)) (nodes net)\<rparr>))"

definition fact_matches_entry_type :: "fact \<Rightarrow> alpha_entry_type \<Rightarrow> bool" where
  "fact_matches_entry_type f e =
     (case (f, e) of
        (Ordered od, EntryOrdered r) \<Rightarrow> relation od = r
      | (Template t, EntryTemplate i) \<Rightarrow> template_id t = i
      | _ \<Rightarrow> False)"

definition path_matches :: "alpha_entry_type \<Rightarrow> constant_test list \<Rightarrow> fact \<Rightarrow> bool" where
  "path_matches e ts f \<longleftrightarrow> fact_matches_entry_type f e \<and> (\<forall>t \<in> set ts. evaluate_test f t)"

text \<open>The body of the backfill loop: one fact enters the memory and the reverse index.\<close>

definition backfill_step :: "alpha_memory_id \<Rightarrow> fact_base \<Rightarrow> fact_id \<Rightarrow> alpha_network \<Rightarrow> alpha_network option" where
  "backfill_step m fb i net =
     Option.bind (fact_base_get fb i) (\<lambda>entry.
       map_option (\<lambda>am. net\<lparr>
           memories := list_modify (mem_index m) (\<lambda>_. alpha_insert i (entry_fact entry) am) (memories net),
           fact_to_memories := (fact_to_memories net)(i \<mapsto>
             (case fact_to_memories net i of
                Some ms \<Rightarrow> if m \<in> set ms then ms else ms @ [m]
              | None \<Rightarrow> [m]))\<rparr>)
         (alpha_memory_at net m))"

text \<open>\<open>walk\<close> is the iteration order of the facts; the matching ones are sorted by time of assertion.\<close>

definition backfill_memory ::
  "fact_id list \<Rightarrow> alpha_memory_id \<Rightarrow> alpha_entry_type \<Rightarrow> constant_test list \<Rightarrow> fact_base \<Rightarrow> alpha_network \<Rightarrow>
   alpha_network option" where
  "backfill_memory walk m e ts fb net =
     fold (\<lambda>i st. Option.bind st (backfill_step m fb i))
       (map snd (sort_key fst
          (List.map_filter (\<lambda>i.
             case fact_base_get fb i of
               None \<Rightarrow> None
             | Some entry \<Rightarrow>
                 if path_matches e ts (entry_fact entry) then Some (entry_timestamp entry, i) else None) walk)))
       (Some net)"

section \<open>Facts entering and leaving\<close>

definition node_passes :: "fact \<Rightarrow> alpha_node \<Rightarrow> bool" where
  "node_passes f node = (case node of TestNode t _ _ \<Rightarrow> evaluate_test f t | EntryNode _ _ _ \<Rightarrow> True)"

text \<open>The fact enters the memory of a node it reached.\<close>

definition enter_memory :: "fact_id \<Rightarrow> fact \<Rightarrow> alpha_node \<Rightarrow> alpha_memory list \<times> alpha_memory_id list \<Rightarrow>
    alpha_memory list \<times> alpha_memory_id list" where
  "enter_memory i f node = (\<lambda>(mems, accepted).
     case node_memory node of
       None \<Rightarrow> (mems, accepted)
     | Some m \<Rightarrow>
         if mem_index m < length mems
         then (mems[mem_index m := alpha_insert i f (mems ! mem_index m)], accepted @ [m])
         else (mems, accepted))"

fun propagate :: "alpha_node list \<Rightarrow> fact_id \<Rightarrow> fact \<Rightarrow> nat \<Rightarrow> node_id \<Rightarrow>
    alpha_memory list \<times> alpha_memory_id list \<Rightarrow> (alpha_memory list \<times> alpha_memory_id list) option" where
  "propagate ns i f 0 n st = None"
| "propagate ns i f (Suc fuel) n st =
     (case list_get ns (unat n) of
        None \<Rightarrow> Some st
      | Some node \<Rightarrow>
          if \<not> node_passes f node then Some st
          else fold (\<lambda>c st. Option.bind st (\<lambda>st. propagate ns i f fuel c st)) (node_children node)
                 (Some (enter_memory i f node st)))"

definition entry_type_of :: "fact \<Rightarrow> alpha_entry_type" where
  "entry_type_of f = (case f of Ordered od \<Rightarrow> EntryOrdered (relation od) | Template t \<Rightarrow> EntryTemplate (template_id t))"

definition alpha_assert_fact ::
  "nat \<Rightarrow> fact_id \<Rightarrow> fact \<Rightarrow> alpha_network \<Rightarrow> (alpha_memory_id list \<times> alpha_network) option" where
  "alpha_assert_fact fuel i f net =
     (case entry_nodes net (entry_type_of f) of
        None \<Rightarrow> Some ([], net)
      | Some n \<Rightarrow>
          map_option (\<lambda>(mems, accepted).
              (accepted, net\<lparr>memories := mems,
                 fact_to_memories := (if accepted \<noteq> [] then (fact_to_memories net)(i \<mapsto> accepted)
                                      else fact_to_memories net)\<rparr>))
            (propagate (nodes net) i f fuel n (memories net, [])))"

definition alpha_retract_fact :: "fact_id \<Rightarrow> fact \<Rightarrow> alpha_network \<Rightarrow> alpha_network" where
  "alpha_retract_fact i f net =
     (case fact_to_memories net i of
        None \<Rightarrow> net
      | Some ms \<Rightarrow> net\<lparr>fact_to_memories := (fact_to_memories net)(i := None),
          memories := fold (\<lambda>m. list_modify (mem_index m) (alpha_remove i f)) ms (memories net)\<rparr>)"

definition memories_containing_fact :: "alpha_network \<Rightarrow> fact_id \<Rightarrow> alpha_memory_id list" where
  "memories_containing_fact net i = (case fact_to_memories net i of None \<Rightarrow> [] | Some ms \<Rightarrow> ms)"

definition clear_all_memories :: "alpha_network \<Rightarrow> alpha_network" where
  "clear_all_memories net = net\<lparr>memories := map alpha_clear (memories net), fact_to_memories := Map.empty\<rparr>"

definition alpha_request_index :: "alpha_memory_id \<Rightarrow> slot_index \<Rightarrow> fact_base \<Rightarrow> alpha_network \<Rightarrow> alpha_network" where
  "alpha_request_index m slot fb net =
     net\<lparr>memories := list_modify (mem_index m) (request_index slot fb) (memories net)\<rparr>"

end
