(* ===== verification/Outcome.thy ===== *)
theory Outcome
  imports Prelude
begin

text \<open>
  Outcomes of the operations of the network. Besides returning, an operation can stop for a full
  store (a slot map at its documented capacity, or the chronology of blocks), by a panic, that is a
  failed \<open>expect\<close>, \<open>unwrap\<close> or index, or because the recursion depth given to the model ran out.
\<close>

datatype stop = OutOfFuel | Full | Panic

type_synonym 'a outcome = "stop + 'a"

definition and_then :: "'a outcome \<Rightarrow> ('a \<Rightarrow> 'b outcome) \<Rightarrow> 'b outcome" where
  "and_then m f = (case m of Inl e \<Rightarrow> Inl e | Inr x \<Rightarrow> f x)"

definition or_stop :: "stop \<Rightarrow> 'a option \<Rightarrow> 'a outcome" where
  "or_stop e x = (case x of None \<Rightarrow> Inl e | Some y \<Rightarrow> Inr y)"

text \<open>\<open>for x in xs { .. }\<close> over a state, stopping at the first iteration that stops.\<close>

primrec for_each :: "('a \<Rightarrow> 's \<Rightarrow> 's outcome) \<Rightarrow> 'a list \<Rightarrow> 's \<Rightarrow> 's outcome" where
  "for_each f [] s = Inr s"
| "for_each f (x # xs) s = and_then (f x s) (for_each f xs)"

lemma and_then_simps [simp]: "and_then (Inr x) f = f x" "and_then (Inl e) f = Inl e"
  by (simp_all add: and_then_def)

lemma or_stop_simps [simp]: "or_stop e (Some x) = Inr x" "or_stop e None = Inl e"
  by (simp_all add: or_stop_def)

lemma for_each_append: "for_each f (xs @ ys) s = and_then (for_each f xs s) (for_each f ys)"
proof (induction xs arbitrary: s)
  case (Cons x xs)
  then show ?case by (cases "f x s") simp_all
qed simp

text \<open>
  \<open>returns Q m\<close>: the operation returns a result with \<open>Q\<close> or stops for a full store; it neither
  panics nor runs out of fuel.
\<close>

definition returns :: "('a \<Rightarrow> bool) \<Rightarrow> 'a outcome \<Rightarrow> bool" where
  "returns Q m \<longleftrightarrow> (case m of Inl e \<Rightarrow> e = Full | Inr x \<Rightarrow> Q x)"

lemma returns_simps [simp]: "returns Q (Inr x) = Q x" "returns Q (Inl e) = (e = Full)"
  by (simp_all add: returns_def)

lemma returns_mono: "returns P m \<Longrightarrow> (\<And>x. P x \<Longrightarrow> Q x) \<Longrightarrow> returns Q m"
  by (auto simp: returns_def split: sum.splits)

lemma returns_and_then: "returns P m \<Longrightarrow> (\<And>x. P x \<Longrightarrow> returns Q (f x)) \<Longrightarrow> returns Q (and_then m f)"
  by (cases m) simp_all

lemma returns_or_stop: "x = Some y \<Longrightarrow> Q y \<Longrightarrow> returns Q (or_stop e x)"
  by simp

text \<open>Loops: an invariant that each iteration keeps.\<close>

lemma returns_for_each:
  assumes "I s" "\<And>x s. x \<in> set xs \<Longrightarrow> I s \<Longrightarrow> returns I (f x s)"
  shows "returns I (for_each f xs s)"
  using assms
proof (induction xs arbitrary: s)
  case (Cons x xs)
  have "returns I (f x s)" by (rule Cons.prems(2)) (use Cons.prems in simp_all)
  then show ?case unfolding for_each.simps
    by (rule returns_and_then) (rule Cons.IH, use Cons.prems(2) in auto)
qed simp

text \<open>Loops whose state evolves along a preorder.\<close>

lemma returns_for_each_along:
  assumes "I s" "\<And>s. R s s" "\<And>s t u. R s t \<Longrightarrow> R t u \<Longrightarrow> R s u"
    and "\<And>x s'. x \<in> set xs \<Longrightarrow> R s s' \<Longrightarrow> I s' \<Longrightarrow> returns (\<lambda>s''. I s'' \<and> R s' s'') (f x s')"
  shows "returns (\<lambda>s'. I s' \<and> R s s') (for_each f xs s)"
proof (rule returns_for_each)
  show "I s \<and> R s s" using assms by blast
  show "returns (\<lambda>s'. I s' \<and> R s s') (f x s')" if "x \<in> set xs" "I s' \<and> R s s'" for x s'
    by (rule returns_mono [OF assms(4)]) (use that assms(3) in blast)+
qed

end
