(* ===== verification/Beta_Network.thy ===== *)
theory Beta_Network
  imports Alpha_Network Join_Candidates Negative_Memory Ncc_Memory Exists_Memory Agenda_Keys Outcome
begin

text \<open>
  The beta network (\<open>BetaNetwork\<close> of \<open>beta.rs\<close>): the graph of join, test, negative, conjunction and
  terminal nodes with its memories, how the rule compiler builds it, and the questions asked of the
  graph. Walks over the graph end because parents come before children; they are partial functions.
\<close>

unbundle bit_operations_syntax

section \<open>State\<close>

datatype beta_node =
    Root beta_memory_id "node_id list"
  | Join node_id alpha_memory_id "join_test list" "sequence_pattern option" "(slot_index \<times> var_id) list"
      beta_memory_id "node_id list"
  | Predicate node_id u32 u32 beta_memory_id "node_id list"
  | Terminal node_id u32 salience u16
  | Negative node_id alpha_memory_id "join_test list" "sequence_pattern option" beta_memory_id u32 "node_id list"
  | Ncc node_id node_id beta_memory_id u32 "node_id list"
  | NccPartner node_id node_id u32
  | Exists node_id alpha_memory_id "join_test list" "sequence_pattern option" beta_memory_id u32 "node_id list"

fun child_nodes :: "beta_node \<Rightarrow> node_id list option" where
  "child_nodes (Root _ cs) = Some cs"
| "child_nodes (Join _ _ _ _ _ _ cs) = Some cs"
| "child_nodes (Predicate _ _ _ _ cs) = Some cs"
| "child_nodes (Negative _ _ _ _ _ _ cs) = Some cs"
| "child_nodes (Ncc _ _ _ _ cs) = Some cs"
| "child_nodes (Exists _ _ _ _ _ _ cs) = Some cs"
| "child_nodes (Terminal _ _ _ _) = None"
| "child_nodes (NccPartner _ _ _) = None"

fun parent_node :: "beta_node \<Rightarrow> node_id option" where
  "parent_node (Root _ _) = None"
| "parent_node (Join p _ _ _ _ _ _) = Some p"
| "parent_node (Predicate p _ _ _ _) = Some p"
| "parent_node (Terminal p _ _ _) = Some p"
| "parent_node (Negative p _ _ _ _ _ _) = Some p"
| "parent_node (Ncc p _ _ _ _) = Some p"
| "parent_node (NccPartner p _ _) = Some p"
| "parent_node (Exists p _ _ _ _ _ _) = Some p"

fun set_children :: "node_id list \<Rightarrow> beta_node \<Rightarrow> beta_node" where
  "set_children cs (Root m _) = Root m cs"
| "set_children cs (Join p a ts sq bs m _) = Join p a ts sq bs m cs"
| "set_children cs (Predicate p r i m _) = Predicate p r i m cs"
| "set_children cs (Negative p a ts sq m n _) = Negative p a ts sq m n cs"
| "set_children cs (Ncc p q m n _) = Ncc p q m n cs"
| "set_children cs (Exists p a ts sq m e _) = Exists p a ts sq m e cs"
| "set_children cs (Terminal p r s c) = Terminal p r s c"
| "set_children cs (NccPartner p n m) = NccPartner p n m"

text \<open>The beta memory a node owns (\<open>memory_id_for_node\<close>).\<close>

fun own_memory :: "beta_node \<Rightarrow> beta_memory_id option" where
  "own_memory (Root m _) = Some m"
| "own_memory (Join _ _ _ _ _ m _) = Some m"
| "own_memory (Predicate _ _ _ m _) = Some m"
| "own_memory (Negative _ _ _ _ m _ _) = Some m"
| "own_memory (Ncc _ _ m _ _) = Some m"
| "own_memory (Exists _ _ _ _ m _ _) = Some m"
| "own_memory (Terminal _ _ _ _) = None"
| "own_memory (NccPartner _ _ _) = None"

record ncc_entry_wait =
  wait_entry :: node_id
  wait_nested :: bool

record beta_network =
  beta_nodes :: "node_id \<rightharpoonup> beta_node"
  beta_memories :: "beta_memory list"
  beta_negs :: "negative_memory list"
  beta_nccs :: "ncc_memory list"
  beta_exists :: "exists_memory list"
  root_id :: node_id
  next_beta_node :: u32
  next_beta_memory :: u32
  next_neg_memory :: u32
  next_ncc_memory :: u32
  next_exists_memory :: u32
  alpha_to_joins :: "alpha_memory_id \<rightharpoonup> node_id list"
  alpha_to_negatives :: "alpha_memory_id \<rightharpoonup> node_id list"
  alpha_to_exists :: "alpha_memory_id \<rightharpoonup> node_id list"
  ncc_entry_waits :: "(node_id \<rightharpoonup> ncc_entry_wait) option"

definition beta_network_new :: "node_id \<Rightarrow> beta_network" where
  "beta_network_new root = \<lparr>beta_nodes = [root \<mapsto> Root (BetaMemoryId 0) []],
     beta_memories = [beta_memory_new (BetaMemoryId 0)], beta_negs = [], beta_nccs = [], beta_exists = [],
     root_id = root, next_beta_node = root + 1, next_beta_memory = 1, next_neg_memory = 0,
     next_ncc_memory = 0, next_exists_memory = 0, alpha_to_joins = Map.empty,
     alpha_to_negatives = Map.empty, alpha_to_exists = Map.empty, ncc_entry_waits = Some Map.empty\<rparr>"

section \<open>Lookups\<close>

fun beta_memory_index :: "beta_memory_id \<Rightarrow> nat" where
  "beta_memory_index (BetaMemoryId m) = unat m"

definition get_node :: "beta_network \<Rightarrow> node_id \<Rightarrow> beta_node option" where
  "get_node net n = beta_nodes net n"

definition memory_id_for_node :: "beta_network \<Rightarrow> node_id \<Rightarrow> beta_memory_id option" where
  "memory_id_for_node net n = Option.bind (get_node net n) own_memory"

definition get_memory :: "beta_network \<Rightarrow> beta_memory_id \<Rightarrow> beta_memory option" where
  "get_memory net m = list_get (beta_memories net) (beta_memory_index m)"

definition get_neg_memory :: "beta_network \<Rightarrow> u32 \<Rightarrow> negative_memory option" where
  "get_neg_memory net m = list_get (beta_negs net) (unat m)"

definition get_ncc_memory :: "beta_network \<Rightarrow> u32 \<Rightarrow> ncc_memory option" where
  "get_ncc_memory net m = list_get (beta_nccs net) (unat m)"

definition get_exists_memory :: "beta_network \<Rightarrow> u32 \<Rightarrow> exists_memory option" where
  "get_exists_memory net m = list_get (beta_exists net) (unat m)"

text \<open>Changing a memory through \<open>get_.._mut\<close>, a no-op when it does not exist.\<close>

definition with_beta_memory :: "beta_memory_id \<Rightarrow> (beta_memory \<Rightarrow> beta_memory) \<Rightarrow> beta_network \<Rightarrow> beta_network" where
  "with_beta_memory m f net = net\<lparr>beta_memories := list_modify (beta_memory_index m) f (beta_memories net)\<rparr>"

definition with_neg_memory :: "u32 \<Rightarrow> (negative_memory \<Rightarrow> negative_memory) \<Rightarrow> beta_network \<Rightarrow> beta_network" where
  "with_neg_memory m f net = net\<lparr>beta_negs := list_modify (unat m) f (beta_negs net)\<rparr>"

definition with_ncc_memory :: "u32 \<Rightarrow> (ncc_memory \<Rightarrow> ncc_memory) \<Rightarrow> beta_network \<Rightarrow> beta_network" where
  "with_ncc_memory m f net = net\<lparr>beta_nccs := list_modify (unat m) f (beta_nccs net)\<rparr>"

definition with_exists_memory :: "u32 \<Rightarrow> (exists_memory \<Rightarrow> exists_memory) \<Rightarrow> beta_network \<Rightarrow> beta_network" where
  "with_exists_memory m f net = net\<lparr>beta_exists := list_modify (unat m) f (beta_exists net)\<rparr>"

definition nodes_for_alpha :: "(alpha_memory_id \<rightharpoonup> node_id list) \<Rightarrow> alpha_memory_id \<Rightarrow> node_id list" where
  "nodes_for_alpha index a = (case index a of None \<Rightarrow> [] | Some ns \<Rightarrow> ns)"

section \<open>Building\<close>

definition ensure_node_capacity :: "beta_network \<Rightarrow> nat \<Rightarrow> nat + unit" where
  "ensure_node_capacity net required =
     (let available = unat ((- 1 :: u32) - next_beta_node net)
      in if available < required then Inl available else Inr ())"

definition allocate_node_id :: "beta_network \<Rightarrow> (node_id \<times> beta_network) outcome" where
  "allocate_node_id net =
     and_then (or_stop Panic (checked_add_u (next_beta_node net) 1)) (\<lambda>next.
       Inr (next_beta_node net, net\<lparr>next_beta_node := next\<rparr>))"

definition attach_child_to_parent :: "node_id \<Rightarrow> node_id \<Rightarrow> beta_network \<Rightarrow> beta_network" where
  "attach_child_to_parent parent child net =
     (case beta_nodes net parent of
        None \<Rightarrow> net
      | Some node \<Rightarrow>
          (case child_nodes node of
             None \<Rightarrow> net
           | Some cs \<Rightarrow> net\<lparr>beta_nodes := (beta_nodes net)(parent \<mapsto> set_children (cs @ [child]) node)\<rparr>))"

definition allocate_beta_memory :: "beta_network \<Rightarrow> beta_memory_id \<times> beta_network" where
  "allocate_beta_memory net =
     (let m = BetaMemoryId (next_beta_memory net)
      in (m, net\<lparr>next_beta_memory := next_beta_memory net + 1,
                 beta_memories := beta_memories net @ [beta_memory_new m]\<rparr>))"

definition add_node :: "node_id \<Rightarrow> beta_node \<Rightarrow> beta_network \<Rightarrow> beta_network" where
  "add_node n node net = net\<lparr>beta_nodes := (beta_nodes net)(n \<mapsto> node)\<rparr>"

definition subscribe :: "alpha_memory_id \<Rightarrow> node_id \<Rightarrow> (alpha_memory_id \<rightharpoonup> node_id list) \<Rightarrow>
    (alpha_memory_id \<rightharpoonup> node_id list)" where
  "subscribe a n index = index(a \<mapsto> nodes_for_alpha index a @ [n])"

definition create_join_node ::
  "node_id \<Rightarrow> alpha_memory_id \<Rightarrow> join_test list \<Rightarrow> (slot_index \<times> var_id) list \<Rightarrow> beta_network \<Rightarrow>
   ((node_id \<times> beta_memory_id) \<times> beta_network) outcome" where
  "create_join_node parent a tests bindings net =
     and_then (allocate_node_id net) (\<lambda>(n, net).
       let (m, net) = allocate_beta_memory net;
           net = add_node n (Join parent a tests None bindings m []) net;
           net = attach_child_to_parent parent n net
       in Inr ((n, m), net\<lparr>alpha_to_joins := subscribe a n (alpha_to_joins net)\<rparr>))"

definition set_sequence :: "node_id \<Rightarrow> sequence_pattern option \<Rightarrow> beta_network \<Rightarrow> beta_network outcome" where
  "set_sequence n sequence net =
     (case beta_nodes net n of
        Some (Join p a ts _ bs m cs) \<Rightarrow> Inr (add_node n (Join p a ts sequence bs m cs) net)
      | Some (Negative p a ts _ m nm cs) \<Rightarrow> Inr (add_node n (Negative p a ts sequence m nm cs) net)
      | Some (Exists p a ts _ m em cs) \<Rightarrow> Inr (add_node n (Exists p a ts sequence m em cs) net)
      | _ \<Rightarrow> Inl Panic)"

definition create_predicate_node ::
  "node_id \<Rightarrow> u32 \<Rightarrow> u32 \<Rightarrow> beta_network \<Rightarrow> ((node_id \<times> beta_memory_id) \<times> beta_network) outcome" where
  "create_predicate_node parent rule condition_index net =
     and_then (allocate_node_id net) (\<lambda>(n, net).
       let (m, net) = allocate_beta_memory net;
           net = add_node n (Predicate parent rule condition_index m []) net
       in Inr ((n, m), attach_child_to_parent parent n net))"

definition create_terminal_node ::
  "node_id \<Rightarrow> u32 \<Rightarrow> salience \<Rightarrow> u16 \<Rightarrow> beta_network \<Rightarrow> (node_id \<times> beta_network) outcome" where
  "create_terminal_node parent rule salience complexity net =
     and_then (allocate_node_id net) (\<lambda>(n, net).
       let net = add_node n (Terminal parent rule salience (complexity AND 0x07ff)) net
       in Inr (n, attach_child_to_parent parent n net))"

definition create_negative_node ::
  "node_id \<Rightarrow> alpha_memory_id \<Rightarrow> join_test list \<Rightarrow> beta_network \<Rightarrow>
   ((node_id \<times> beta_memory_id \<times> u32) \<times> beta_network) outcome" where
  "create_negative_node parent a tests net =
     and_then (allocate_node_id net) (\<lambda>(n, net).
       let (m, net) = allocate_beta_memory net;
           nm = next_neg_memory net;
           net = net\<lparr>next_neg_memory := nm + 1, beta_negs := beta_negs net @ [negative_memory_new nm]\<rparr>;
           net = add_node n (Negative parent a tests None m nm []) net;
           net = attach_child_to_parent parent n net
       in Inr ((n, m, nm), net\<lparr>alpha_to_negatives := subscribe a n (alpha_to_negatives net)\<rparr>))"

definition create_exists_node ::
  "node_id \<Rightarrow> alpha_memory_id \<Rightarrow> join_test list \<Rightarrow> beta_network \<Rightarrow>
   ((node_id \<times> beta_memory_id \<times> u32) \<times> beta_network) outcome" where
  "create_exists_node parent a tests net =
     and_then (allocate_node_id net) (\<lambda>(n, net).
       let (m, net) = allocate_beta_memory net;
           em = next_exists_memory net;
           net = net\<lparr>next_exists_memory := em + 1, beta_exists := beta_exists net @ [exists_memory_new em]\<rparr>;
           net = add_node n (Exists parent a tests None m em []) net;
           net = attach_child_to_parent parent n net
       in Inr ((n, m, em), net\<lparr>alpha_to_exists := subscribe a n (alpha_to_exists net)\<rparr>))"

definition allocate_ncc_memory :: "beta_network \<Rightarrow> u32 \<times> beta_network" where
  "allocate_ncc_memory net =
     (let i = next_ncc_memory net
      in (i, net\<lparr>next_ncc_memory := i + 1, beta_nccs := beta_nccs net @ [ncc_memory_new i]\<rparr>))"

definition create_ncc_node ::
  "node_id \<Rightarrow> node_id \<Rightarrow> u32 \<Rightarrow> beta_network \<Rightarrow> ((node_id \<times> beta_memory_id) \<times> beta_network) outcome" where
  "create_ncc_node parent partner ncc_memory net =
     and_then (or_stop Panic (memory_id_for_node net parent)) (\<lambda>pm.
     and_then (or_stop Panic (get_memory net pm)) (\<lambda>_.
     and_then (allocate_node_id (with_beta_memory pm enable_ncc_parent_ranks net)) (\<lambda>(n, net).
       let (m, net) = allocate_beta_memory net;
           net = add_node n (Ncc parent partner m ncc_memory []) net
       in Inr ((n, m), attach_child_to_parent parent n net))))"

definition create_ncc_partner ::
  "node_id \<Rightarrow> node_id \<Rightarrow> u32 \<Rightarrow> beta_network \<Rightarrow> (node_id \<times> beta_network) outcome" where
  "create_ncc_partner parent ncc ncc_memory net =
     and_then (allocate_node_id net) (\<lambda>(n, net).
       Inr (n, attach_child_to_parent parent n (add_node n (NccPartner parent ncc ncc_memory) net)))"

definition set_ncc_partner :: "node_id \<Rightarrow> node_id \<Rightarrow> beta_network \<Rightarrow> beta_network" where
  "set_ncc_partner ncc partner net =
     (case beta_nodes net ncc of
        Some (Ncc p _ m nm cs) \<Rightarrow> add_node ncc (Ncc p partner m nm cs) net
      | _ \<Rightarrow> net)"

section \<open>Subnetworks of negated conjunctions\<close>

text \<open>The climb from a node to the child of \<open>stop\<close> above it; the outer \<open>None\<close> is a climb without end.\<close>

partial_function (option) climb_to_child :: "beta_network \<Rightarrow> node_id \<Rightarrow> node_id \<Rightarrow> node_id option option" where
  "climb_to_child net stop current =
     (case Option.bind (get_node net current) parent_node of
        None \<Rightarrow> Some None
      | Some up \<Rightarrow> if up = stop then Some (Some current) else climb_to_child net stop up)"

definition ncc_subnetwork_entry :: "beta_network \<Rightarrow> node_id \<Rightarrow> node_id option option" where
  "ncc_subnetwork_entry net ncc =
     (case get_node net ncc of
        Some (Ncc parent partner _ _ _) \<Rightarrow> climb_to_child net parent partner
      | _ \<Rightarrow> Some None)"

definition is_ncc :: "beta_network \<Rightarrow> node_id \<Rightarrow> bool" where
  "is_ncc net n \<longleftrightarrow> (case get_node net n of Some (Ncc _ _ _ _ _) \<Rightarrow> True | _ \<Rightarrow> False)"

definition ncc_is_pure_double_negation :: "beta_network \<Rightarrow> node_id \<Rightarrow> bool option" where
  "ncc_is_pure_double_negation net ncc =
     (case get_node net ncc of
        Some (Ncc _ partner _ _ _) \<Rightarrow>
          map_option (\<lambda>entry. case entry of
              None \<Rightarrow> False
            | Some e \<Rightarrow> is_ncc net e \<and> Option.bind (get_node net partner) parent_node = Some e)
            (ncc_subnetwork_entry net ncc)
      | _ \<Rightarrow> Some False)"

partial_function (option) feeds_enclosing_loop :: "beta_network \<Rightarrow> node_id \<Rightarrow> node_id list \<Rightarrow> bool option" where
  "feeds_enclosing_loop net ncc pending =
     (case pending of
        [] \<Rightarrow> Some False
      | n # pending \<Rightarrow>
          (case get_node net n of
             Some (NccPartner _ target _) \<Rightarrow> if target < ncc then Some True else feeds_enclosing_loop net ncc pending
           | Some node \<Rightarrow> feeds_enclosing_loop net ncc
               (rev (filter (\<lambda>c. ncc < c) (case child_nodes node of None \<Rightarrow> [] | Some cs \<Rightarrow> cs)) @ pending)
           | None \<Rightarrow> feeds_enclosing_loop net ncc pending))"

definition ncc_feeds_enclosing_subnetwork :: "beta_network \<Rightarrow> node_id \<Rightarrow> bool option" where
  "ncc_feeds_enclosing_subnetwork net ncc = feeds_enclosing_loop net ncc [ncc]"

definition entry_wait_of :: "beta_network \<Rightarrow> node_id \<Rightarrow> bool \<Rightarrow> ncc_entry_wait option option" where
  "entry_wait_of net ncc nested =
     Option.bind (ncc_subnetwork_entry net ncc) (\<lambda>entry.
       case entry of
         None \<Rightarrow> Some None
       | Some e \<Rightarrow> map_option (\<lambda>pure.
           if nested \<or> pure then Some \<lparr>wait_entry = e, wait_nested = nested\<rparr> else None)
           (ncc_is_pure_double_negation net ncc))"

definition register_ncc_entry_wait :: "node_id \<Rightarrow> bool \<Rightarrow> beta_network \<Rightarrow> beta_network option" where
  "register_ncc_entry_wait ncc nested net =
     map_option (\<lambda>wait. case wait of
         None \<Rightarrow> net
       | Some w \<Rightarrow> net\<lparr>ncc_entry_waits := map_option (\<lambda>waits. waits(ncc \<mapsto> w)) (ncc_entry_waits net)\<rparr>)
       (entry_wait_of net ncc nested)"

text \<open>\<open>walk\<close> is the iteration order of the nodes.\<close>

definition ensure_ncc_entry_wait_index :: "node_id list \<Rightarrow> beta_network \<Rightarrow> beta_network option" where
  "ensure_ncc_entry_wait_index walk net =
     (case ncc_entry_waits net of
        Some _ \<Rightarrow> Some net
      | None \<Rightarrow>
          map_option (\<lambda>waits. net\<lparr>ncc_entry_waits := Some waits\<rparr>)
            (fold (\<lambda>n acc. Option.bind acc (\<lambda>waits.
                if is_ncc net n
                then Option.bind (ncc_feeds_enclosing_subnetwork net n) (\<lambda>nested.
                  map_option (\<lambda>wait. case wait of None \<Rightarrow> waits | Some w \<Rightarrow> waits(n \<mapsto> w))
                    (entry_wait_of net n nested))
                else Some waits)) walk (Some Map.empty)))"

definition ncc_entry_wait_for :: "beta_network \<Rightarrow> node_id \<Rightarrow> ncc_entry_wait option" where
  "ncc_entry_wait_for net n = Option.bind (ncc_entry_waits net) (\<lambda>waits. waits n)"

text \<open>Relinking: the subnetwork's own children of the parent have ids in \<open>ncc + 1..=partner\<close>.\<close>

definition in_subnetwork :: "node_id \<Rightarrow> node_id \<Rightarrow> node_id \<Rightarrow> bool" where
  "in_subnetwork ncc partner c \<longleftrightarrow> ncc + 1 \<le> c \<and> c \<le> partner"

definition insert_at :: "nat \<Rightarrow> 'a \<Rightarrow> 'a list \<Rightarrow> 'a list" where
  "insert_at i x xs = take i xs @ x # drop i xs"

definition position :: "('a \<Rightarrow> bool) \<Rightarrow> 'a list \<Rightarrow> nat option" where
  "position P xs = (let i = length (takeWhile (\<lambda>x. \<not> P x) xs) in if i < length xs then Some i else None)"

definition link_ncc_after_subnetwork :: "node_id \<Rightarrow> beta_network \<Rightarrow> beta_network option" where
  "link_ncc_after_subnetwork ncc net =
     (case get_node net ncc of
        Some (Ncc parent partner _ _ _) \<Rightarrow>
          if parent = root_id net then Some net
          else map_option (\<lambda>pure_double_negation.
            (case get_node net parent of
               None \<Rightarrow> net
             | Some node \<Rightarrow>
                 (case (node, child_nodes node) of
                    (Root _ _, _) \<Rightarrow> net
                  | (_, None) \<Rightarrow> net
                  | (_, Some cs) \<Rightarrow>
                      (let linked = filter (\<lambda>c. c \<noteq> ncc) cs;
                           second = length linked - 1;
                           slot = (if pure_double_negation
                                   then (case position (in_subnetwork ncc partner) linked of
                                           None \<Rightarrow> second | Some i \<Rightarrow> i)
                                   else second)
                       in add_node parent (set_children (insert_at slot ncc linked) node) net))))
            (ncc_is_pure_double_negation net ncc)
      | _ \<Rightarrow> Some net)"

section \<open>Installation and clearing\<close>

definition installation_frontier :: "node_id \<Rightarrow> beta_network \<Rightarrow> (node_id \<times> node_id) list" where
  "installation_frontier first_new net =
     List.map_filter (\<lambda>raw.
       let child = word_of_nat raw
       in case Option.bind (get_node net child) parent_node of
            None \<Rightarrow> None
          | Some parent \<Rightarrow> if parent < first_new then Some (parent, child) else None)
       [unat first_new..<unat (next_beta_node net)]"

definition clear_all_runtime :: "beta_network \<Rightarrow> beta_network" where
  "clear_all_runtime net = net\<lparr>
     beta_memories := map beta_clear (beta_memories net), beta_negs := map negative_clear (beta_negs net),
     beta_nccs := map ncc_clear (beta_nccs net), beta_exists := map exists_clear (beta_exists net)\<rparr>"

end
