(* ===== verification/Rete.thy ===== *)
theory Rete
  imports Beta_Network Block_Orders Agenda
begin

text \<open>
  The match network (\<open>ReteNetwork\<close> of \<open>rete.rs\<close>), first part: its state and the activations that carry
  tokens and facts through the beta network. All handlers are parameters of the one recursion of the
  network, the propagation of a token to children (\<open>go\<close>), which \<open>propagate_token\<close> closes. The
  accumulator of new activations, passed by reference in the code, is a field of the state.
\<close>

section \<open>State\<close>

datatype pending_event =
    EvPredicate node_id token_id rule_id u32
  | EvNccLeft node_id token_id
  | EvAutoFocus rule_id

record pending_ncc_result =
  res_partner :: node_id
  res_token :: token_id
  res_ncc :: node_id
  res_parent :: token_id

record pending_ncc_parent =
  waiting_results :: nat
  deferred_left :: bool

text \<open>The reservations of a batch are the part \<open>Block_Orders\<close> renumbers.\<close>

record ncc_result_batch =
  batch_results :: "pending_ncc_result list"
  batch_parents :: "node_id \<times> token_id \<rightharpoonup> pending_ncc_parent"
  batch_orders :: ncc_batch

definition ncc_result_batch_new :: ncc_result_batch where
  "ncc_result_batch_new = \<lparr>batch_results = [], batch_parents = Map.empty,
     batch_orders = \<lparr>reserved_orders = Map.empty, suspended_reserved = []\<rparr>\<rparr>"

record rete =
  r_alpha :: alpha_network
  r_beta :: beta_network
  r_tokens :: token_store
  r_agenda :: agenda
  disabled_rules :: "rule_id set"
  pending_events :: "pending_event list"
  pending_auto_focus_count :: nat
  pending_ncc_left_count :: nat
  auto_focus_rules :: "rule_id set"
  pending_ncc_results :: "ncc_result_batch option"
  block_counter :: u64
  tokens_issued :: nat
  activations_issued :: nat
  new_activations :: "activation_id list"

text \<open>
  What the containers decide: the keys that the slot maps issue, one after another, and the
  orders in which hash tables are walked.
\<close>

record host =
  token_key :: "nat \<Rightarrow> token_id"
  activation_key :: "nat \<Rightarrow> activation_id"
  walk_tokens :: "token_id set \<Rightarrow> token_id list"
  walk_facts :: "fact_id set \<Rightarrow> fact_id list"
  walk_activations :: "activation_id set \<Rightarrow> activation_id list"
  walk_nodes :: "node_id set \<Rightarrow> node_id list"
  walk_cells :: "order_cell set \<Rightarrow> order_cell list"

text \<open>A slot map never issues a key twice and has at most \<open>2 ^ 32 - 2\<close> elements.\<close>

definition host_ok :: "host \<Rightarrow> bool" where
  "host_ok h \<longleftrightarrow> inj (token_key h) \<and> inj (activation_key h) \<and> walks (walk_tokens h) \<and> walks (walk_facts h) \<and>
     walks (walk_activations h) \<and> walks (walk_nodes h) \<and> walks (walk_cells h)"

definition slot_map_capacity :: nat where
  "slot_map_capacity = 2 ^ 32 - 2"

type_synonym propagator = "token_id \<Rightarrow> node_id list \<Rightarrow> rete \<Rightarrow> rete outcome"

abbreviation update_beta :: "(beta_network \<Rightarrow> beta_network) \<Rightarrow> rete \<Rightarrow> rete" where
  "update_beta f r \<equiv> r\<lparr>r_beta := f (r_beta r)\<rparr>"

section \<open>Stores\<close>

definition block_view :: "rete \<Rightarrow> block_state" where
  "block_view r = \<lparr>neg_memories = beta_negs (r_beta r), ncc_memories = beta_nccs (r_beta r),
     pending_batch = map_option batch_orders (pending_ncc_results r), next_block_order = block_counter r\<rparr>"

definition set_block_view :: "block_state \<Rightarrow> rete \<Rightarrow> rete" where
  "set_block_view bs r = r\<lparr>
     r_beta := (r_beta r)\<lparr>beta_negs := neg_memories bs, beta_nccs := ncc_memories bs\<rparr>,
     pending_ncc_results := (case pending_batch bs of
         None \<Rightarrow> pending_ncc_results r
       | Some orders \<Rightarrow> map_option (\<lambda>b. b\<lparr>batch_orders := orders\<rparr>) (pending_ncc_results r)),
     block_counter := next_block_order bs\<rparr>"

definition allocate_order :: "host \<Rightarrow> rete \<Rightarrow> (u64 \<times> rete) outcome" where
  "allocate_order h r =
     (let bs = block_view r
      in and_then (or_stop Full (allocate_block_order (walk_cells h (order_cells bs)) bs)) (\<lambda>(order, bs).
           Inr (order, set_block_view bs r)))"

definition insert_token :: "host \<Rightarrow> token \<Rightarrow> nat list option \<Rightarrow> rete \<Rightarrow> (token_id \<times> rete) outcome" where
  "insert_token h tok lengths r =
     (if slot_map_capacity \<le> token_count (r_tokens r) then Inl Full
      else (let t = token_key h (tokens_issued r)
            in Inr (t, r\<lparr>tokens_issued := tokens_issued r + 1,
                 r_tokens := (case lengths of
                     None \<Rightarrow> token_insert t tok (r_tokens r)
                   | Some ls \<Rightarrow> insert_sequence_match t tok ls (r_tokens r))\<rparr>)))"

text \<open>A new token in the store and in the memory of its node, indexed by its bindings.\<close>

definition admit_token :: "host \<Rightarrow> token \<Rightarrow> nat list option \<Rightarrow> beta_memory_id \<Rightarrow> rete \<Rightarrow> (token_id \<times> rete) outcome" where
  "admit_token h tok lengths m r =
     and_then (insert_token h tok lengths r) (\<lambda>(t, r).
       Inr (t, update_beta (with_beta_memory m (beta_insert_indexed t (tok_bindings tok))) r))"

definition pass_through :: "node_id \<Rightarrow> token_id \<Rightarrow> token \<Rightarrow> token" where
  "pass_through node parent parent_token =
     \<lparr>tok_fact = None, tok_bindings = tok_bindings parent_token, tok_parent = Some parent, tok_owner = node\<rparr>"

definition add_activation :: "host \<Rightarrow> activation \<Rightarrow> rete \<Rightarrow> (activation_id \<times> rete) outcome" where
  "add_activation h a r =
     (if slot_map_capacity \<le> agenda_len (r_agenda r) then Inl Full
      else (let i = activation_key h (activations_issued r)
            in Inr (i, r\<lparr>activations_issued := activations_issued r + 1,
                 r_agenda := agenda_add (walk_activations h (dom (activations (r_agenda r)))) i a (r_agenda r)\<rparr>)))"

definition token_live :: "rete \<Rightarrow> token_id \<Rightarrow> bool" where
  "token_live r t \<longleftrightarrow> token_get (r_tokens r) t \<noteq> None"

section \<open>Terminal nodes\<close>

text \<open>The tags from a token up to the root, newest first; the outer \<open>None\<close> is a walk without end.\<close>

partial_function (option) recency_loop ::
  "beta_network \<Rightarrow> token_store \<Rightarrow> fact_base \<Rightarrow> token_id \<Rightarrow> recency_tag list \<Rightarrow> recency_tag list option option"
where
  "recency_loop net ts fb t acc =
     (case token_get ts t of
        None \<Rightarrow> Some None
      | Some tok \<Rightarrow>
          (case (case get_node net (tok_owner tok) of
                   None \<Rightarrow> None
                 | Some (Join _ _ _ _ _ _ _) \<Rightarrow>
                     Option.bind (tok_fact tok) (\<lambda>f. Option.bind (fact_base_get fb f) (\<lambda>entry.
                       map_option (\<lambda>tag. acc @ [tag]) (recency_from_timestamp (entry_timestamp entry))))
                 | Some (Negative _ _ _ _ _ _ _) \<Rightarrow> Some (acc @ [recency_absent])
                 | Some (Ncc _ _ _ _ _) \<Rightarrow> Some (acc @ [recency_absent])
                 | Some (Exists _ _ _ _ _ _ _) \<Rightarrow> Some (acc @ [recency_absent])
                 | Some (Predicate parent _ _ _ _) \<Rightarrow>
                     Some (if parent = root_id net then acc @ [recency_absent] else acc)
                 | Some (Root _ _) \<Rightarrow> Some (if acc = [] then acc @ [recency_absent] else acc)
                 | Some (Terminal _ _ _ _) \<Rightarrow> None
                 | Some (NccPartner _ _ _) \<Rightarrow> None) of
             None \<Rightarrow> Some None
           | Some acc \<Rightarrow>
               (case tok_parent tok of
                  None \<Rightarrow> Some (Some acc)
                | Some parent \<Rightarrow> recency_loop net ts fb parent acc)))"

definition activation_recency :: "rete \<Rightarrow> fact_base \<Rightarrow> token_id \<Rightarrow> recency_tag list option option" where
  "activation_recency r fb t =
     map_option (map_option rev) (recency_loop (r_beta r) (r_tokens r) fb t [])"

definition latest_timestamp :: "recency_tag list \<Rightarrow> timestamp" where
  "latest_timestamp recency =
     (case List.map_filter recency_timestamp recency of [] \<Rightarrow> timestamp_zero | t # ts \<Rightarrow> fold max ts t)"

definition terminal_activate ::
  "host \<Rightarrow> fact_base \<Rightarrow> rule_id \<Rightarrow> salience \<Rightarrow> u16 \<Rightarrow> token_id \<Rightarrow> rete \<Rightarrow> rete outcome" where
  "terminal_activate h fb rule salience complexity t r =
     (if rule \<in> disabled_rules r then Inr r
      else if \<not> token_live r t then Inr r
      else
        and_then (or_stop OutOfFuel (activation_recency r fb t)) (\<lambda>recency.
        and_then (or_stop Panic recency) (\<lambda>recency.
        and_then (add_activation h
            \<lparr>act_id = activation_key h (activations_issued r), act_rule = rule, act_token = t, act_salience = salience,
             act_complexity = complexity, act_timestamp = latest_timestamp recency, act_seq = 0, act_recency = recency\<rparr> r)
          (\<lambda>(i, r).
            let r = r\<lparr>new_activations := new_activations r @ [i]\<rparr>
            in Inr (if rule \<in> auto_focus_rules r
                    then r\<lparr>pending_events := pending_events r @ [EvAutoFocus rule],
                           pending_auto_focus_count := pending_auto_focus_count r + 1\<rparr>
                    else r)))))"

section \<open>Join nodes\<close>

definition extract_bindings :: "(slot_index \<times> var_id) list \<Rightarrow> fact \<Rightarrow> binding_set \<Rightarrow> binding_set" where
  "extract_bindings bindings f bs =
     fold (\<lambda>(slot, var) bs. case get_slot_value f slot of None \<Rightarrow> bs | Some v \<Rightarrow> binding_set var (value_ref_new v) bs)
       bindings bs"

definition emit_join_match ::
  "host \<Rightarrow> propagator \<Rightarrow> node_id \<Rightarrow> token_id \<Rightarrow> fact_id \<Rightarrow> binding_set \<Rightarrow> nat list option \<Rightarrow> rete \<Rightarrow> rete outcome" where
  "emit_join_match h go node parent f bindings lengths r =
     (case get_node (r_beta r) node of
        Some (Join _ _ _ _ _ m kids) \<Rightarrow>
          and_then (admit_token h
              \<lparr>tok_fact = Some f, tok_bindings = bindings, tok_parent = Some parent, tok_owner = node\<rparr> lengths m r)
            (\<lambda>(t, r). go t kids r)
      | _ \<Rightarrow> Inr r)"

fun emit_sequence_matches ::
  "host \<Rightarrow> propagator \<Rightarrow> node_id \<Rightarrow> token_id \<Rightarrow> fact_id \<Rightarrow> (binding_set \<times> nat list) list \<Rightarrow> rete \<Rightarrow> rete outcome" where
  "emit_sequence_matches h go node parent f [] r = Inr r"
| "emit_sequence_matches h go node parent f ((bindings, lengths) # ms) r =
     (if \<not> token_live r parent then Inr r
      else and_then (emit_join_match h go node parent f bindings (Some lengths) r)
             (emit_sequence_matches h go node parent f ms))"

definition propagate_join_fact ::
  "host \<Rightarrow> propagator \<Rightarrow> node_id \<Rightarrow> token_id \<Rightarrow> fact_id \<Rightarrow> fact \<Rightarrow> rete \<Rightarrow> rete outcome" where
  "propagate_join_fact h go node parent i f r =
     (case get_node (r_beta r) node of
        Some (Join _ _ tests sequence bindings _ _) \<Rightarrow>
          (case token_get (r_tokens r) parent of
             None \<Rightarrow> Inr r
           | Some parent_token \<Rightarrow>
               (case sequence of
                  None \<Rightarrow>
                    if \<not> evaluate_join f (Some parent_token) tests then Inr r
                    else emit_join_match h go node parent i (extract_bindings bindings f (tok_bindings parent_token)) None r
                | Some plan \<Rightarrow>
                    and_then (or_stop Panic (sequence_matches f (tok_bindings parent_token) tests bindings plan))
                      (\<lambda>ms. emit_sequence_matches h go node parent i ms r)))
      | _ \<Rightarrow> Inr r)"

definition left_activate :: "host \<Rightarrow> propagator \<Rightarrow> fact_base \<Rightarrow> node_id \<Rightarrow> token_id \<Rightarrow> rete \<Rightarrow> rete outcome" where
  "left_activate h go fb node parent r =
     (case get_node (r_beta r) node of
        Some (Join _ a tests sequence _ _ _) \<Rightarrow>
          (case (token_get (r_tokens r) parent, alpha_memory_at (r_alpha r) a) of
             (Some parent_token, Some am) \<Rightarrow>
               for_each (\<lambda>i r. case fact_base_get fb i of
                   None \<Rightarrow> Inr r
                 | Some entry \<Rightarrow> propagate_join_fact h go node parent i (entry_fact entry) r)
                 (collect_candidate_facts am (indexable_tests tests sequence) (tok_bindings parent_token)) r
           | _ \<Rightarrow> Inr r)
      | _ \<Rightarrow> Inr r)"

text \<open>The candidate facts that match a token, for negative and exists nodes.\<close>

definition matching_facts ::
  "fact_base \<Rightarrow> alpha_memory \<Rightarrow> join_test list \<Rightarrow> sequence_pattern option \<Rightarrow> token \<Rightarrow> fact_id list" where
  "matching_facts fb am tests sequence tok =
     filter (\<lambda>i. case fact_base_get fb i of
         None \<Rightarrow> False
       | Some entry \<Rightarrow> evaluate_pattern (entry_fact entry) tok tests sequence)
       (collect_candidate_facts am (indexable_tests tests sequence) (tok_bindings tok))"

section \<open>Negative and exists nodes\<close>

definition negative_left_activate ::
  "host \<Rightarrow> propagator \<Rightarrow> fact_base \<Rightarrow> node_id \<Rightarrow> token_id \<Rightarrow> rete \<Rightarrow> rete outcome" where
  "negative_left_activate h go fb node parent r =
     (case get_node (r_beta r) node of
        Some (Negative _ a tests sequence m nm kids) \<Rightarrow>
          (case (token_get (r_tokens r) parent, alpha_memory_at (r_alpha r) a) of
             (Some parent_token, Some am) \<Rightarrow>
               (let blocking = matching_facts fb am tests sequence parent_token
                in if blocking = []
                   then and_then (admit_token h (pass_through node parent parent_token) None m r) (\<lambda>(pt, r).
                          go pt kids (update_beta (with_neg_memory nm (set_unblocked parent pt)) r))
                   else and_then (allocate_order h r) (\<lambda>(order, r).
                          Inr (update_beta (with_neg_memory nm (fold (\<lambda>i. add_blocker parent i order) blocking)) r)))
           | _ \<Rightarrow> Inr r)
      | _ \<Rightarrow> Inr r)"

definition exists_left_activate ::
  "host \<Rightarrow> propagator \<Rightarrow> fact_base \<Rightarrow> node_id \<Rightarrow> token_id \<Rightarrow> rete \<Rightarrow> rete outcome" where
  "exists_left_activate h go fb node parent r =
     (case get_node (r_beta r) node of
        Some (Exists _ a tests sequence m em kids) \<Rightarrow>
          (case (token_get (r_tokens r) parent, alpha_memory_at (r_alpha r) a) of
             (Some parent_token, Some am) \<Rightarrow>
               (let supporting = matching_facts fb am tests sequence parent_token;
                    r = update_beta (with_exists_memory em
                          (fold (\<lambda>i em. snd (add_support parent i em)) supporting)) r
                in if supporting \<noteq> []
                   then and_then (admit_token h (pass_through node parent parent_token) None m r) (\<lambda>(pt, r).
                          go pt kids (update_beta (with_exists_memory em (set_satisfied parent pt)) r))
                   else Inr r)
           | _ \<Rightarrow> Inr r)
      | _ \<Rightarrow> Inr r)"

section \<open>Negated conjunctions\<close>

definition ncc_left_activate_now :: "host \<Rightarrow> propagator \<Rightarrow> node_id \<Rightarrow> token_id \<Rightarrow> rete \<Rightarrow> rete outcome" where
  "ncc_left_activate_now h go ncc parent r =
     (case get_node (r_beta r) ncc of
        Some (Ncc _ _ m cm kids) \<Rightarrow>
          (case Option.bind (pending_ncc_results r) (\<lambda>b. map_option (Pair b) (batch_parents b (ncc, parent))) of
             Some (b, pending) \<Rightarrow>
               Inr (r\<lparr>pending_ncc_results := Some (b\<lparr>batch_parents :=
                 (batch_parents b)((ncc, parent) \<mapsto> pending\<lparr>deferred_left := True\<rparr>)\<rparr>)\<rparr>)
           | None \<Rightarrow>
               (case get_ncc_memory (r_beta r) cm of
                  None \<Rightarrow> Inr r
                | Some nm \<Rightarrow>
                    if result_count_of nm parent = 0 \<and> ncc_passthrough nm parent = None
                    then (case token_get (r_tokens r) parent of
                            None \<Rightarrow> Inr r
                          | Some parent_token \<Rightarrow>
                              and_then (admit_token h (pass_through ncc parent parent_token) None m r) (\<lambda>(pt, r).
                                go pt kids (update_beta (with_ncc_memory cm (ncc_set_unblocked parent pt)) r)))
                    else Inr r))
      | _ \<Rightarrow> Inr r)"

definition ncc_left_activate :: "host \<Rightarrow> propagator \<Rightarrow> node_id \<Rightarrow> token_id \<Rightarrow> rete \<Rightarrow> rete outcome" where
  "ncc_left_activate h go ncc parent r =
     (if pending_auto_focus_count r < length (pending_events r)
      then Inr (r\<lparr>pending_events := pending_events r @ [EvNccLeft ncc parent],
                  pending_ncc_left_count := pending_ncc_left_count r + 1\<rparr>)
      else ncc_left_activate_now h go ncc parent r)"

text \<open>The first ancestor of a token that a given node owns.\<close>

partial_function (option) climb_to_owner :: "token_store \<Rightarrow> node_id \<Rightarrow> token_id \<Rightarrow> token_id option option" where
  "climb_to_owner ts owner current =
     (case token_get ts current of
        None \<Rightarrow> Some None
      | Some tok \<Rightarrow>
          (case tok_parent tok of
             None \<Rightarrow> Some None
           | Some p \<Rightarrow>
               (case token_get ts p of
                  None \<Rightarrow> Some None
                | Some parent_token \<Rightarrow>
                    if tok_owner parent_token = owner then Some (Some p) else climb_to_owner ts owner p)))"

definition find_ncc_owner_parent_token :: "rete \<Rightarrow> node_id \<Rightarrow> token_id \<Rightarrow> token_id option option" where
  "find_ncc_owner_parent_token r ncc result =
     (case get_node (r_beta r) ncc of
        Some (Ncc parent _ _ _ _) \<Rightarrow> climb_to_owner (r_tokens r) parent result
      | _ \<Rightarrow> Some None)"

text \<open>Partner nodes below the owner of a token: their memory and their conjunction node.\<close>

definition partners_below :: "beta_network \<Rightarrow> node_id \<Rightarrow> (u32 \<times> node_id) list" where
  "partners_below net owner =
     List.map_filter (\<lambda>c. case get_node net c of Some (NccPartner _ ncc cm) \<Rightarrow> Some (cm, ncc) | _ \<Rightarrow> None)
       (case Option.bind (get_node net owner) child_nodes of None \<Rightarrow> [] | Some cs \<Rightarrow> cs)"

record ncc_result_retraction =
  ret_order :: u64
  ret_memory :: u32
  ret_node :: node_id
  ret_parent :: token_id
  ret_result :: token_id

definition withdraw_result ::
  "token_id \<Rightarrow> u32 \<times> node_id \<Rightarrow> ncc_result_retraction list \<times> rete \<Rightarrow> (ncc_result_retraction list \<times> rete) outcome" where
  "withdraw_result result = (\<lambda>(cm, ncc) (transitions, r).
     case Option.bind (get_ncc_memory (r_beta r) cm) (\<lambda>nm. map_option (Pair nm) (result_owner nm result)) of
       None \<Rightarrow> Inr (transitions, r)
     | Some (nm, parent) \<Rightarrow>
         and_then (if primary_result nm parent = Some result
                   then and_then (or_stop Panic (ncc_block_order nm parent)) (\<lambda>order.
                          Inr (transitions @ [\<lparr>ret_order = order, ret_memory = cm, ret_node = ncc,
                            ret_parent = parent, ret_result = result\<rparr>]))
                   else Inr transitions)
           (\<lambda>transitions. Inr (transitions,
              update_beta (with_ncc_memory cm (\<lambda>nm. snd (remove_result_support result nm))) r)))"

definition collect_ncc_result_retractions ::
  "(token_id \<times> token) list \<Rightarrow> rete \<Rightarrow> (ncc_result_retraction list \<times> rete) outcome" where
  "collect_ncc_result_retractions removed r =
     (if beta_nccs (r_beta r) = [] then Inr ([], r)
      else for_each (\<lambda>(result, tok) (transitions, r).
          for_each (withdraw_result result) (partners_below (r_beta r) (tok_owner tok)) (transitions, r)) removed ([], r))"

definition apply_ncc_result_retraction :: "host \<Rightarrow> propagator \<Rightarrow> ncc_result_retraction \<Rightarrow> rete \<Rightarrow> rete outcome" where
  "apply_ncc_result_retraction h go tr r =
     (let cm = ret_memory tr; parent = ret_parent tr
      in case get_ncc_memory (r_beta r) cm of
           None \<Rightarrow> Inr r
         | Some nm \<Rightarrow>
             if primary_result nm parent \<noteq> Some (ret_result tr) then Inr r
             else if \<not> token_live r parent then Inr (update_beta (with_ncc_memory cm (ncc_remove_parent parent)) r)
             else
               and_then (if 0 < result_count_of nm parent then allocate_order h r else Inr (0, r)) (\<lambda>(order, r).
               case get_ncc_memory (r_beta r) cm of
                 None \<Rightarrow> Inl Panic
               | Some nm \<Rightarrow>
                   (let (reassigned, nm') = reassign_primary parent order nm;
                        r = update_beta (with_ncc_memory cm (\<lambda>_. nm')) r
                    in if reassigned then Inr r else ncc_left_activate h go (ret_node tr) parent r)))"

section \<open>Retracting tokens\<close>

text \<open>Forget a removed token as left parent in the memories of the children of its owner.\<close>

definition forget_parent :: "host \<Rightarrow> token_id \<Rightarrow> node_id \<Rightarrow> beta_network \<Rightarrow> beta_network" where
  "forget_parent h t child net =
     (case get_node net child of
        Some (Negative _ _ _ _ _ nm _) \<Rightarrow> with_neg_memory nm (negative_remove_parent t) net
      | Some (Ncc _ _ _ cm _) \<Rightarrow> with_ncc_memory cm (ncc_remove_parent t) net
      | Some (Exists _ _ _ _ _ em _) \<Rightarrow> with_exists_memory em (exists_remove_parent (walk_facts h) t) net
      | _ \<Rightarrow> net)"

definition cleanup_negative_memories_for_token :: "host \<Rightarrow> token_id \<Rightarrow> node_id \<Rightarrow> beta_network \<Rightarrow> beta_network" where
  "cleanup_negative_memories_for_token h t owner net =
     (if beta_negs net = [] \<and> beta_nccs net = [] \<and> beta_exists net = [] then net
      else (case Option.bind (get_node net owner) child_nodes of
              None \<Rightarrow> net
            | Some cs \<Rightarrow> fold (forget_parent h t) cs net))"

text \<open>A removed token leaves the agenda, the memory of its node and the bookkeeping of its children.\<close>

definition forget_token :: "host \<Rightarrow> token_id \<times> token \<Rightarrow> activation list \<times> rete \<Rightarrow> activation list \<times> rete" where
  "forget_token h = (\<lambda>(t, tok) (gone, r).
     let (acts, ag) = remove_activations_for_token t (r_agenda r);
         net = (case memory_id_for_node (r_beta r) (tok_owner tok) of
                  None \<Rightarrow> r_beta r
                | Some m \<Rightarrow> with_beta_memory m (beta_remove_indexed t (tok_bindings tok)) (r_beta r))
     in (gone @ acts, r\<lparr>r_agenda := ag,
           r_beta := cleanup_negative_memories_for_token h t (tok_owner tok) net\<rparr>))"

definition retract_token_cascade :: "host \<Rightarrow> propagator \<Rightarrow> token_id \<Rightarrow> rete \<Rightarrow> rete outcome" where
  "retract_token_cascade h go t r =
     and_then (or_stop OutOfFuel (remove_cascade (walk_tokens h) t (r_tokens r))) (\<lambda>(removed, ts).
     and_then (collect_ncc_result_retractions removed (r\<lparr>r_tokens := ts\<rparr>)) (\<lambda>(transitions, r).
       for_each (apply_ncc_result_retraction h go) (sort_key (\<lambda>tr. u64_max - ret_order tr) transitions)
         (snd (fold (forget_token h) removed ([], r)))))"

definition ncc_partner_apply_result ::
  "host \<Rightarrow> propagator \<Rightarrow> node_id \<Rightarrow> token_id \<Rightarrow> u64 option \<Rightarrow> rete \<Rightarrow> rete outcome" where
  "ncc_partner_apply_result h go partner result reserved r =
     (case get_node (r_beta r) partner of
        Some (NccPartner _ ncc cm) \<Rightarrow>
          and_then (or_stop OutOfFuel (find_ncc_owner_parent_token r ncc result)) (\<lambda>parent.
          case parent of
            None \<Rightarrow> Inr r
          | Some parent \<Rightarrow>
              and_then
                (if (case get_ncc_memory (r_beta r) cm of None \<Rightarrow> False | Some nm \<Rightarrow> result_count_of nm parent = 0)
                 then (case reserved of Some order \<Rightarrow> Inr (order, r) | None \<Rightarrow> allocate_order h r)
                 else Inr (0, r)) (\<lambda>(order, r).
              case get_ncc_memory (r_beta r) cm of
                None \<Rightarrow> Inr r
              | Some nm \<Rightarrow>
                  (let ((old_count, new_count), nm) = add_result parent result order nm;
                       r = update_beta (with_ncc_memory cm (\<lambda>_. nm)) r
                   in if old_count = 0 \<and> new_count = 1
                      then (case get_node (r_beta r) ncc of
                              Some (Ncc _ _ _ _ _) \<Rightarrow>
                                (let (pt, nm) = ncc_remove_unblocked parent nm;
                                     r = update_beta (with_ncc_memory cm (\<lambda>_. nm)) r
                                 in case pt of None \<Rightarrow> Inr r | Some pt \<Rightarrow> retract_token_cascade h go pt r)
                            | _ \<Rightarrow> Inr r)
                      else Inr r)))
      | _ \<Rightarrow> Inr r)"

definition ncc_partner_receive_result :: "host \<Rightarrow> propagator \<Rightarrow> node_id \<Rightarrow> token_id \<Rightarrow> rete \<Rightarrow> rete outcome" where
  "ncc_partner_receive_result h go partner result r =
     (case pending_ncc_results r of
        Some batch \<Rightarrow>
          (case get_node (r_beta r) partner of
             Some (NccPartner _ ncc _) \<Rightarrow>
               and_then (or_stop OutOfFuel (find_ncc_owner_parent_token r ncc result)) (\<lambda>parent.
               case parent of
                 None \<Rightarrow> Inr r
               | Some parent \<Rightarrow>
                   (let entry = (case batch_parents batch (ncc, parent) of
                          None \<Rightarrow> \<lparr>waiting_results = 0, deferred_left = False\<rparr> | Some e \<Rightarrow> e)
                    in Inr (r\<lparr>pending_ncc_results := Some (batch\<lparr>
                         batch_results := batch_results batch @
                           [\<lparr>res_partner = partner, res_token = result, res_ncc = ncc, res_parent = parent\<rparr>],
                         batch_parents := (batch_parents batch)((ncc, parent) \<mapsto>
                           entry\<lparr>waiting_results := waiting_results entry + 1\<rparr>)\<rparr>)\<rparr>)))
           | _ \<Rightarrow> Inr r)
      | None \<Rightarrow> ncc_partner_apply_result h go partner result None r)"

section \<open>Propagation\<close>

definition propagate_to_child :: "host \<Rightarrow> propagator \<Rightarrow> fact_base \<Rightarrow> token_id \<Rightarrow> node_id \<Rightarrow> rete \<Rightarrow> rete outcome" where
  "propagate_to_child h go fb t child r =
     (case get_node (r_beta r) child of
        None \<Rightarrow> Inr r
      | Some (Terminal _ rule salience complexity) \<Rightarrow> terminal_activate h fb rule salience complexity t r
      | Some (Join _ _ _ _ _ _ _) \<Rightarrow> left_activate h go fb child t r
      | Some (Predicate _ rule condition_index _ _) \<Rightarrow>
          Inr (r\<lparr>pending_events := pending_events r @ [EvPredicate child t rule condition_index]\<rparr>)
      | Some (Negative _ _ _ _ _ _ _) \<Rightarrow> negative_left_activate h go fb child t r
      | Some (Ncc _ _ _ _ _) \<Rightarrow> ncc_left_activate h go child t r
      | Some (NccPartner _ _ _) \<Rightarrow> ncc_partner_receive_result h go child t r
      | Some (Exists _ _ _ _ _ _ _) \<Rightarrow> exists_left_activate h go fb child t r
      | Some (Root _ _) \<Rightarrow> Inr r)"

text \<open>
  The order in which children are visited: newest first, except that a conjunction node that waits
  for its subnetwork entry is postponed until the entry has been visited. The order depends on the
  graph alone, which propagation leaves as it is, so it is computed before the visits.
  \<open>postponed\<close> maps entries to the nodes waiting for them, in order.
\<close>

type_synonym postponed = "(node_id \<times> node_id list) list"

fun postpone :: "node_id \<Rightarrow> node_id \<Rightarrow> postponed \<Rightarrow> postponed" where
  "postpone entry n [] = [(entry, [n])]"
| "postpone entry n ((k, ns) # ps) = (if k = entry then (k, ns @ [n]) # ps else (k, ns) # postpone entry n ps)"

fun take_released :: "node_id \<Rightarrow> postponed \<Rightarrow> (node_id list \<times> postponed) option" where
  "take_released entry [] = None"
| "take_released entry ((k, ns) # ps) =
     (if k = entry then Some (ns, ps)
      else map_option (\<lambda>(ms, qs). (ms, (k, ns) # qs)) (take_released entry ps))"

abbreviation postponed_size :: "postponed \<Rightarrow> nat" where
  "postponed_size ps \<equiv> sum_list (map (\<lambda>(k, ns). length ns) ps)"

lemma take_released_size:
  "take_released entry ps = Some (ns, qs) \<Longrightarrow> postponed_size ps = length ns + postponed_size qs"
  by (induction ps arbitrary: ns qs) (auto split: if_splits)

text \<open>Releasing the nodes that wait for a visited one, depth first.\<close>

function release :: "node_id list \<Rightarrow> postponed \<Rightarrow> node_id set \<Rightarrow> node_id list \<times> postponed \<times> node_id set" where
  "release [] postponed waiting = ([], postponed, waiting)"
| "release (n # ready) postponed waiting =
     (let (visited, rest) =
        (case take_released n postponed of
           None \<Rightarrow> release ready postponed (waiting - {n})
         | Some (next, postponed) \<Rightarrow> release (next @ ready) postponed (waiting - {n}))
      in (n # visited, rest))"
  by pat_completeness auto
termination
  by (relation "measure (\<lambda>(ready, postponed, waiting). length ready + postponed_size postponed)")
    (auto dest: take_released_size)

definition is_postponed :: "beta_network \<Rightarrow> node_id list \<Rightarrow> nat \<Rightarrow> node_id \<Rightarrow> node_id set \<Rightarrow> ncc_entry_wait option" where
  "is_postponed net kids index child waiting =
     (case ncc_entry_wait_for net child of
        None \<Rightarrow> None
      | Some wait \<Rightarrow>
          if wait_entry wait \<in> waiting \<or>
             (wait_nested wait \<and> wait_entry wait \<in> set (take index kids) \<and> wait_entry wait \<notin> set (drop index kids))
          then Some wait else None)"

fun visit_order_loop :: "beta_network \<Rightarrow> node_id list \<Rightarrow> nat \<Rightarrow> postponed \<Rightarrow> node_id set \<Rightarrow> node_id list" where
  "visit_order_loop net kids 0 postponed waiting = []"
| "visit_order_loop net kids (Suc index) postponed waiting =
     (let child = kids ! index
      in case is_postponed net kids index child waiting of
           Some wait \<Rightarrow>
             visit_order_loop net kids index (postpone (wait_entry wait) child postponed) (insert child waiting)
         | None \<Rightarrow>
             (case take_released child postponed of
                None \<Rightarrow> child # visit_order_loop net kids index postponed waiting
              | Some (released, postponed) \<Rightarrow>
                  (let (visited, postponed, waiting) = release released postponed waiting
                   in child # visited @ visit_order_loop net kids index postponed waiting)))"

definition visit_order :: "beta_network \<Rightarrow> node_id list \<Rightarrow> node_id list" where
  "visit_order net kids = visit_order_loop net kids (length kids) [] {}"

primrec propagate_token :: "nat \<Rightarrow> host \<Rightarrow> fact_base \<Rightarrow> propagator" where
  "propagate_token 0 h fb t kids r = Inl OutOfFuel"
| "propagate_token (Suc fuel) h fb t kids r =
     and_then (or_stop OutOfFuel
         (ensure_ncc_entry_wait_index (walk_nodes h (dom (beta_nodes (r_beta r)))) (r_beta r))) (\<lambda>net.
     for_each (propagate_to_child h (propagate_token fuel h fb) fb t) (visit_order net kids) (r\<lparr>r_beta := net\<rparr>))"

end
