(* ===== verification/Rete_Operations.thy ===== *)
theory Rete_Operations
  imports Rete "HOL-Library.Product_Lexorder"
begin

text \<open>
  The match network (\<open>rete.rs\<close>), second part: batches of conjunction results, activation by new
  facts, assertion, retraction, clearing, installation of rules, and the queue of pending events.
\<close>

section \<open>Batches of results\<close>

definition with_batch :: "(ncc_result_batch \<Rightarrow> ncc_result_batch) \<Rightarrow> rete \<Rightarrow> rete" where
  "with_batch f r = r\<lparr>pending_ncc_results := map_option f (pending_ncc_results r)\<rparr>"

abbreviation with_reserved ::
  "((reservation \<rightharpoonup> u64) \<Rightarrow> (reservation \<rightharpoonup> u64)) \<Rightarrow> rete \<Rightarrow> rete" where
  "with_reserved f \<equiv> with_batch (\<lambda>b. b\<lparr>batch_orders := (batch_orders b)\<lparr>reserved_orders := f (reserved_orders (batch_orders b))\<rparr>\<rparr>)"

definition reserved_for :: "rete \<Rightarrow> reservation \<Rightarrow> u64 option" where
  "reserved_for r k = Option.bind (pending_ncc_results r) (\<lambda>b. reserved_orders (batch_orders b) k)"

definition outer_rank :: "rete \<Rightarrow> pending_ncc_result \<Rightarrow> u64 option" where
  "outer_rank r e =
     (case get_node (r_beta r) (res_ncc e) of
        Some (Ncc owner _ _ _ _) \<Rightarrow>
          Option.bind (memory_id_for_node (r_beta r) owner) (\<lambda>m.
          Option.bind (get_memory (r_beta r) m) (\<lambda>bm. ncc_parent_rank bm (res_parent e)))
      | _ \<Rightarrow> None)"

text \<open>
  The order in which blocks are reserved: partner groups by first appearance, then outer parents
  newest first, those without a rank last; \<open>None\<close> is the least rank in Rust's order.
\<close>

definition reservation_key :: "pending_ncc_result list \<Rightarrow> rete \<Rightarrow> pending_ncc_result \<Rightarrow> nat \<times> nat" where
  "reservation_key pending r e =
     (length (takeWhile (\<lambda>e'. res_partner e' \<noteq> res_partner e) pending),
      (case outer_rank r e of None \<Rightarrow> 2 ^ 64 | Some n \<Rightarrow> 2 ^ 64 - 1 - unat n))"

definition reserve_order :: "host \<Rightarrow> u64 option \<Rightarrow> pending_ncc_result \<Rightarrow> rete \<Rightarrow> rete outcome" where
  "reserve_order h rank e r =
     (let key = (res_ncc e, res_parent e);
          unblocked = (case get_node (r_beta r) (res_ncc e) of
              Some (Ncc _ _ _ cm _) \<Rightarrow>
                (case get_ncc_memory (r_beta r) cm of None \<Rightarrow> False | Some nm \<Rightarrow> result_count_of nm (res_parent e) = 0)
            | _ \<Rightarrow> False)
      in if rank \<noteq> None \<and> unblocked \<and> reserved_for r key = None
         then and_then (allocate_order h r) (\<lambda>(order, r). Inr (with_reserved (\<lambda>m. m(key \<mapsto> order)) r))
         else Inr r)"

text \<open>One queued result is delivered; the last one of a parent releases a deferred left activation.\<close>

definition settle_result :: "host \<Rightarrow> propagator \<Rightarrow> pending_ncc_result \<Rightarrow> rete \<Rightarrow> rete outcome" where
  "settle_result h go e r =
     (let key = (res_ncc e, res_parent e)
      in and_then
        (if token_live r (res_token e)
         then (let order = reserved_for r key
               in ncc_partner_apply_result h go (res_partner e) (res_token e) order
                    (with_reserved (\<lambda>m. m(key := None)) r))
         else Inr r) (\<lambda>r.
      and_then (or_stop Panic (Option.bind (pending_ncc_results r) (\<lambda>b. batch_parents b key))) (\<lambda>p.
      and_then (or_stop Panic (if waiting_results p = 0 then None else Some (waiting_results p - 1))) (\<lambda>n.
        if n = 0
        then (let r = with_batch (\<lambda>b. b\<lparr>batch_parents := (batch_parents b)(key := None)\<rparr>) r
              in if deferred_left p then ncc_left_activate h go (res_ncc e) (res_parent e) r else Inr r)
        else Inr (with_batch (\<lambda>b. b\<lparr>batch_parents := (batch_parents b)(key \<mapsto> p\<lparr>waiting_results := n\<rparr>)\<rparr>) r)))))"

definition suspend_batch :: "rete \<Rightarrow> rete" where
  "suspend_batch = with_batch (\<lambda>b. b\<lparr>batch_orders := (batch_orders b)\<lparr>
     suspended_reserved := suspended_reserved (batch_orders b) @ [reserved_orders (batch_orders b)],
     reserved_orders := Map.empty\<rparr>\<rparr>)"

definition resume_batch :: "rete \<Rightarrow> rete outcome" where
  "resume_batch r =
     (case pending_ncc_results r of
        None \<Rightarrow> Inl Panic
      | Some b \<Rightarrow>
          (case suspended_reserved (batch_orders b) of
             [] \<Rightarrow> Inl Panic
           | s # ss \<Rightarrow> Inr (r\<lparr>pending_ncc_results := Some (b\<lparr>batch_orders :=
               \<lparr>reserved_orders = last (s # ss), suspended_reserved = butlast (s # ss)\<rparr>\<rparr>)\<rparr>)))"

definition queued_results :: "rete \<Rightarrow> pending_ncc_result list" where
  "queued_results r = (case pending_ncc_results r of None \<Rightarrow> [] | Some b \<Rightarrow> batch_results b)"

primrec drain_ncc_results :: "nat \<Rightarrow> host \<Rightarrow> propagator \<Rightarrow> rete \<Rightarrow> rete outcome" where
  "drain_ncc_results 0 h go r = Inl OutOfFuel"
| "drain_ncc_results (Suc fuel) h go r =
     (case pending_ncc_results r of
        None \<Rightarrow> Inl Panic
      | Some batch \<Rightarrow>
          (let pending = batch_results batch;
               r = with_batch (\<lambda>b. b\<lparr>batch_results := []\<rparr>) r
           in if pending = [] then Inr r
              else
                and_then (for_each (\<lambda>(rank, e). reserve_order h rank e)
                    (map (\<lambda>e. (outer_rank r e, e)) (sort_key (reservation_key pending r) pending)) r) (\<lambda>r.
                and_then (for_each (\<lambda>e r.
                    and_then (settle_result h go e r) (\<lambda>r.
                      if queued_results r = [] then Inr r
                      else and_then (drain_ncc_results fuel h go (suspend_batch r)) resume_batch)) pending r) (\<lambda>r.
                  drain_ncc_results fuel h go (with_reserved (\<lambda>_. Map.empty) r)))))"

definition flush_ncc_result_batch :: "nat \<Rightarrow> host \<Rightarrow> propagator \<Rightarrow> rete \<Rightarrow> rete outcome" where
  "flush_ncc_result_batch fuel h go r =
     and_then (drain_ncc_results fuel h go r) (\<lambda>r. Inr (r\<lparr>pending_ncc_results := None\<rparr>))"

text \<open>Work under a batch of its own, unless an enclosing batch is open or there is nothing to batch.\<close>

definition in_batch :: "nat \<Rightarrow> host \<Rightarrow> propagator \<Rightarrow> bool \<Rightarrow> (rete \<Rightarrow> rete outcome) \<Rightarrow> rete \<Rightarrow> rete outcome" where
  "in_batch fuel h go wanted work r =
     (if wanted \<and> pending_ncc_results r = None
      then and_then (work (r\<lparr>pending_ncc_results := Some ncc_result_batch_new\<rparr>)) (flush_ncc_result_batch fuel h go)
      else work r)"

section \<open>Activation by a new fact\<close>

datatype right_activation =
    RightJoin node_id "token_id list"
  | RightNegative node_id
  | RightExists node_id

fun activated_node :: "right_activation \<Rightarrow> node_id" where
  "activated_node (RightJoin n _) = n"
| "activated_node (RightNegative n) = n"
| "activated_node (RightExists n) = n"

definition node_memory_of :: "rete \<Rightarrow> node_id \<Rightarrow> beta_memory option" where
  "node_memory_of r n = Option.bind (memory_id_for_node (r_beta r) n) (get_memory (r_beta r))"

definition right_parent_candidates :: "rete \<Rightarrow> node_id \<Rightarrow> fact \<Rightarrow> token_id list" where
  "right_parent_candidates r node f =
     (case get_node (r_beta r) node of
        Some (Join parent _ tests sequence _ _ _) \<Rightarrow>
          (case node_memory_of r parent of
             None \<Rightarrow> []
           | Some bm \<Rightarrow> collect_candidate_parent_tokens bm (indexable_tests tests sequence) f)
      | _ \<Rightarrow> [])"

definition right_activate ::
  "nat \<Rightarrow> host \<Rightarrow> propagator \<Rightarrow> node_id \<Rightarrow> token_id list \<Rightarrow> fact_id \<Rightarrow> fact \<Rightarrow> rete \<Rightarrow> rete outcome" where
  "right_activate fuel h go node parents i f r =
     in_batch fuel h go (beta_nccs (r_beta r) \<noteq> [])
       (for_each (\<lambda>p. propagate_join_fact h go node p i f) parents) r"

definition negative_right_activate ::
  "host \<Rightarrow> propagator \<Rightarrow> node_id \<Rightarrow> fact_id \<Rightarrow> fact \<Rightarrow> rete \<Rightarrow> rete outcome" where
  "negative_right_activate h go node i f r =
     (case get_node (r_beta r) node of
        Some (Negative up _ tests sequence _ cm _) \<Rightarrow>
          (case get_neg_memory (r_beta r) cm of
             None \<Rightarrow> Inr r
           | Some nm \<Rightarrow>
               (let unblocked_entries = List.map_filter (\<lambda>p. map_option (Pair p) (negative_passthrough nm p))
                      (case node_memory_of r up of None \<Rightarrow> [] | Some bm \<Rightarrow> beta_iter bm);
                    blocked_parents = walk_tokens h (dom (blocked nm));
                    matching = (\<lambda>t. case token_get (r_tokens r) t of
                      None \<Rightarrow> False | Some tok \<Rightarrow> evaluate_pattern f tok tests sequence);
                    r = update_beta (with_neg_memory cm
                      (fold (\<lambda>p. add_blocker p i 0) (filter matching blocked_parents))) r;
                    to_block = filter (\<lambda>(p, pt). matching pt) unblocked_entries
                in for_each (\<lambda>(p, pt) r.
                     and_then (allocate_order h r) (\<lambda>(order, r).
                       retract_token_cascade h go pt (update_beta (with_neg_memory cm (\<lambda>nm.
                         add_blocker p i order (snd (remove_unblocked p nm)))) r))) to_block r))
      | _ \<Rightarrow> Inr r)"

definition exists_right_activate ::
  "host \<Rightarrow> propagator \<Rightarrow> node_id \<Rightarrow> fact_id \<Rightarrow> fact \<Rightarrow> rete \<Rightarrow> rete outcome" where
  "exists_right_activate h go node i f r =
     (case get_node (r_beta r) node of
        Some (Exists up _ tests sequence m em kids) \<Rightarrow>
          for_each (\<lambda>p r.
            case token_get (r_tokens r) p of
              None \<Rightarrow> Inr r
            | Some parent_token \<Rightarrow>
                if \<not> evaluate_pattern f parent_token tests sequence then Inr r
                else (case get_exists_memory (r_beta r) em of
                  None \<Rightarrow> Inr r
                | Some mem \<Rightarrow>
                    (let old_count = support_count mem p;
                         (new_count, mem) = add_support p i mem;
                         r = update_beta (with_exists_memory em (\<lambda>_. mem)) r
                     in if old_count = 0 \<and> 0 < new_count
                        then and_then (admit_token h (pass_through node p parent_token) None m r) (\<lambda>(pt, r).
                               go pt kids (update_beta (with_exists_memory em (set_satisfied p pt)) r))
                        else Inr r)))
            (case node_memory_of r up of
               None \<Rightarrow> []
             | Some bm \<Rightarrow> collect_candidate_parent_tokens bm (indexable_tests tests sequence) f) r
      | _ \<Rightarrow> Inr r)"

definition right_activations :: "rete \<Rightarrow> fact \<Rightarrow> alpha_memory_id list \<Rightarrow> right_activation list" where
  "right_activations r f affected =
     sort_key (\<lambda>a. - 1 - activated_node a)
       (concat (map (\<lambda>a.
          map (\<lambda>n. RightJoin n (right_parent_candidates r n f)) (nodes_for_alpha (alpha_to_joins (r_beta r)) a) @
          map RightNegative (nodes_for_alpha (alpha_to_negatives (r_beta r)) a) @
          map RightExists (nodes_for_alpha (alpha_to_exists (r_beta r)) a)) affected))"

fun run_right_activation ::
  "nat \<Rightarrow> host \<Rightarrow> propagator \<Rightarrow> fact_id \<Rightarrow> fact \<Rightarrow> right_activation \<Rightarrow> rete \<Rightarrow> rete outcome" where
  "run_right_activation fuel h go i f (RightJoin node parents) r = right_activate fuel h go node parents i f r"
| "run_right_activation fuel h go i f (RightNegative node) r = negative_right_activate h go node i f r"
| "run_right_activation fuel h go i f (RightExists node) r = exists_right_activate h go node i f r"

text \<open>\<open>fuel\<close> bounds the depth of the alpha network, of the beta network and of nested batches.\<close>

definition rete_assert_fact ::
  "nat \<Rightarrow> host \<Rightarrow> fact_base \<Rightarrow> fact_id \<Rightarrow> fact \<Rightarrow> rete \<Rightarrow> (activation_id list \<times> rete) outcome" where
  "rete_assert_fact fuel h fb i f r =
     and_then (or_stop OutOfFuel (alpha_assert_fact fuel i f (r_alpha r))) (\<lambda>(affected, alpha).
     (let r = r\<lparr>r_alpha := alpha, new_activations := []\<rparr>
      in and_then (for_each (run_right_activation fuel h (propagate_token fuel h fb) i f)
             (right_activations r f affected) r) (\<lambda>r. Inr (new_activations r, r))))"

section \<open>Retraction\<close>

datatype transition =
    NegativeTransition node_id token_id
  | NccTransition ncc_result_retraction

text \<open>The oldest alpha memory through which a removed result holds the fact; the walk follows removed tokens.\<close>

partial_function (option) retracted_memory_loop ::
  "beta_network \<Rightarrow> (token_id \<rightharpoonup> token) \<Rightarrow> fact_id \<Rightarrow> token_id option \<Rightarrow> u32 option \<Rightarrow> u32 option option"
where
  "retracted_memory_loop net removed f current oldest =
     (case Option.bind current removed of
        None \<Rightarrow> Some oldest
      | Some tok \<Rightarrow>
          retracted_memory_loop net removed f (tok_parent tok)
            (if tok_fact tok = Some f
             then (case get_node net (tok_owner tok) of
                     Some (Join _ (AlphaMemoryId a) _ _ _ _ _) \<Rightarrow> Some (case oldest of None \<Rightarrow> a | Some b \<Rightarrow> min b a)
                   | _ \<Rightarrow> oldest)
             else oldest))"

definition retracted_fact_memory :: "beta_network \<Rightarrow> (token_id \<rightharpoonup> token) \<Rightarrow> token_id \<Rightarrow> fact_id \<Rightarrow> u32 option option" where
  "retracted_fact_memory net removed result f = retracted_memory_loop net removed f (Some result) None"

definition withdraw_blocker ::
  "fact_id \<Rightarrow> alpha_memory_id \<Rightarrow> node_id \<Rightarrow> u32 \<Rightarrow> token_id \<Rightarrow>
   ((u32 \<times> u64) \<times> transition) list \<times> rete \<Rightarrow> (((u32 \<times> u64) \<times> transition) list \<times> rete) outcome" where
  "withdraw_blocker f a node cm parent = (\<lambda>(events, r).
     case get_neg_memory (r_beta r) cm of
       None \<Rightarrow> Inr (events, r)
     | Some nm \<Rightarrow>
         if primary_blocker nm parent = Some f
         then and_then (or_stop Panic (block_order_of nm parent)) (\<lambda>order.
                Inr (events @ [(((case a of AlphaMemoryId i \<Rightarrow> i), order), NegativeTransition node parent)], r))
         else Inr (events, update_beta (with_neg_memory cm (\<lambda>nm. snd (remove_blocker parent f 0 nm))) r))"

definition collect_negative_retractions ::
  "host \<Rightarrow> fact_id \<Rightarrow> alpha_memory_id list \<Rightarrow> rete \<Rightarrow> (((u32 \<times> u64) \<times> transition) list \<times> rete) outcome" where
  "collect_negative_retractions h f affected r =
     for_each (\<lambda>a (events, r).
       for_each (\<lambda>node (events, r).
         case get_node (r_beta r) node of
           Some (Negative _ _ _ _ _ cm _) \<Rightarrow>
             (case get_neg_memory (r_beta r) cm of
                None \<Rightarrow> Inr (events, r)
              | Some nm \<Rightarrow>
                  for_each (withdraw_blocker f a node cm) (walk_tokens h (tokens_blocked_by nm f)) (events, r))
         | _ \<Rightarrow> Inr (events, r)) (nodes_for_alpha (alpha_to_negatives (r_beta r)) a) (events, r)) affected ([], r)"

definition apply_negative_retraction ::
  "host \<Rightarrow> propagator \<Rightarrow> fact_id \<Rightarrow> node_id \<Rightarrow> token_id \<Rightarrow> rete \<Rightarrow> rete outcome" where
  "apply_negative_retraction h go f node parent r =
     (case token_get (r_tokens r) parent of
        None \<Rightarrow> Inr r
      | Some parent_token \<Rightarrow>
          (case get_node (r_beta r) node of
             Some (Negative _ _ _ _ m cm kids) \<Rightarrow>
               (case get_neg_memory (r_beta r) cm of
                  None \<Rightarrow> Inr r
                | Some nm \<Rightarrow>
                    if primary_blocker nm parent \<noteq> Some f then Inr r
                    else
                      and_then (allocate_order h r) (\<lambda>(order, r).
                      and_then (or_stop Panic (get_neg_memory (r_beta r) cm)) (\<lambda>nm.
                      let (now_unblocked, nm) = remove_blocker parent f order nm;
                          r = update_beta (with_neg_memory cm (\<lambda>_. nm)) r
                      in if \<not> now_unblocked then Inr r
                         else and_then (admit_token h (pass_through node parent parent_token) None m r) (\<lambda>(pt, r).
                                go pt kids (update_beta (with_neg_memory cm (set_unblocked parent pt)) r)))))
           | _ \<Rightarrow> Inr r))"

definition exists_handle_retraction ::
  "host \<Rightarrow> propagator \<Rightarrow> fact_id \<Rightarrow> alpha_memory_id list \<Rightarrow> rete \<Rightarrow> rete outcome" where
  "exists_handle_retraction h go f affected r =
     for_each (\<lambda>a r.
       for_each (\<lambda>node r.
         case get_node (r_beta r) node of
           Some (Exists _ _ _ _ _ em _) \<Rightarrow>
             (case get_exists_memory (r_beta r) em of
                None \<Rightarrow> Inr r
              | Some mem \<Rightarrow>
                  for_each (\<lambda>p r.
                    case get_exists_memory (r_beta r) em of
                      None \<Rightarrow> Inr r
                    | Some mem \<Rightarrow>
                        (let ((new_count, was_removed), mem) = remove_support p f mem
                         in if was_removed \<and> new_count = 0
                            then (let (pt, mem) = remove_satisfied p mem;
                                      r = update_beta (with_exists_memory em (\<lambda>_. mem)) r
                                  in case pt of None \<Rightarrow> Inr r | Some pt \<Rightarrow> retract_token_cascade h go pt r)
                            else Inr (update_beta (with_exists_memory em (\<lambda>_. mem)) r)))
                    (walk_tokens h (parents_supported_by mem f)) r)
         | _ \<Rightarrow> Inr r) (nodes_for_alpha (alpha_to_exists (r_beta r)) a) r) affected r"

definition run_transition :: "host \<Rightarrow> propagator \<Rightarrow> fact_id \<Rightarrow> transition \<Rightarrow> rete \<Rightarrow> rete outcome" where
  "run_transition h go f tr =
     (case tr of
        NegativeTransition node parent \<Rightarrow> apply_negative_retraction h go f node parent
      | NccTransition e \<Rightarrow> apply_ncc_result_retraction h go e)"

definition remove_roots ::
  "host \<Rightarrow> token_id list \<Rightarrow> (token_id \<times> token) list \<times> token_store \<Rightarrow> ((token_id \<times> token) list \<times> token_store) outcome" where
  "remove_roots h roots st =
     for_each (\<lambda>root (removed, ts).
       and_then (or_stop OutOfFuel (remove_cascade (walk_tokens h) root ts)) (\<lambda>(more, ts). Inr (removed @ more, ts)))
       roots st"

text \<open>Keys of transitions: alpha memory, conjunctions before negations, newest block first.\<close>

definition ncc_transition_key ::
  "beta_network \<Rightarrow> (token_id \<rightharpoonup> token) \<Rightarrow> fact_id \<Rightarrow> ncc_result_retraction \<Rightarrow>
   ((u32 \<times> nat \<times> u64) \<times> transition) outcome" where
  "ncc_transition_key net removed f e =
     and_then (or_stop OutOfFuel (retracted_fact_memory net removed (ret_result e) f)) (\<lambda>m.
       Inr (((case m of None \<Rightarrow> - 1 | Some i \<Rightarrow> i), 0, u64_max - ret_order e), NccTransition e))"

definition rete_retract_fact ::
  "nat \<Rightarrow> host \<Rightarrow> fact_base \<Rightarrow> fact_id \<Rightarrow> fact \<Rightarrow> rete \<Rightarrow> (activation list \<times> rete) outcome" where
  "rete_retract_fact fuel h fb i f r =
     (let go = propagate_token fuel h fb;
          affected = walk_tokens h (tokens_containing (r_tokens r) i)
      in and_then (or_stop OutOfFuel (retraction_roots (r_tokens r) affected)) (\<lambda>roots.
         and_then (remove_roots h roots ([], r_tokens r)) (\<lambda>(removed, ts).
         let alpha_mems = memories_containing_fact (r_alpha r) i;
             r = r\<lparr>r_tokens := ts, r_alpha := alpha_retract_fact i f (r_alpha r), new_activations := []\<rparr>
         in and_then (collect_ncc_result_retractions removed r) (\<lambda>(ncc_events, r).
         and_then (for_each (\<lambda>e keyed.
             and_then (ncc_transition_key (r_beta r) (map_of removed) i e) (\<lambda>k. Inr (keyed @ [k]))) ncc_events []) (\<lambda>ncc_keyed.
         and_then (collect_negative_retractions h i alpha_mems r) (\<lambda>(negative_events, r).
         let transitions = ncc_keyed @ map (\<lambda>((m, order), tr). ((m, 1, u64_max - order), tr)) negative_events;
             (gone, r) = fold (forget_token h) removed ([], r)
         in and_then (for_each (\<lambda>(_, tr). run_transition h go i tr) (sort_key fst transitions) r) (\<lambda>r.
            and_then (exists_handle_retraction h go i alpha_mems r) (\<lambda>r. Inr (gone, r)))))))))"

section \<open>Installation and clearing\<close>

definition root_token :: "node_id \<Rightarrow> token" where
  "root_token root = \<lparr>tok_fact = None, tok_bindings = binding_set_new, tok_parent = None, tok_owner = root\<rparr>"

definition seed_root_token :: "host \<Rightarrow> rete \<Rightarrow> (token_id \<times> rete) outcome" where
  "seed_root_token h r =
     (let root = root_id (r_beta r)
      in and_then (or_stop Panic (memory_id_for_node (r_beta r) root)) (\<lambda>m.
         case (case get_memory (r_beta r) m of None \<Rightarrow> [] | Some bm \<Rightarrow> beta_iter bm) of
           t # _ \<Rightarrow> Inr (t, r)
         | [] \<Rightarrow>
             and_then (insert_token h (root_token root) None r) (\<lambda>(t, r).
             and_then (or_stop Panic (get_memory (r_beta r) m)) (\<lambda>_.
               Inr (t, update_beta (with_beta_memory m (beta_insert t)) r)))))"

definition rete_new :: "host \<Rightarrow> conflict_resolution_strategy \<Rightarrow> rete outcome" where
  "rete_new h s =
     map_sum id snd (seed_root_token h
       \<lparr>r_alpha = alpha_network_new, r_beta = beta_network_new 100000, r_tokens = token_store_new,
        r_agenda = with_strategy s, disabled_rules = {}, pending_events = [], pending_auto_focus_count = 0,
        pending_ncc_left_count = 0, auto_focus_rules = {}, pending_ncc_results = None, block_counter = 0,
        tokens_issued = 0, activations_issued = 0, new_activations = []\<rparr>)"

definition clear_working_memory :: "nat \<Rightarrow> host \<Rightarrow> rete \<Rightarrow> rete outcome" where
  "clear_working_memory fuel h r =
     (let r = r\<lparr>r_alpha := clear_all_memories (r_alpha r), r_tokens := token_clear (r_tokens r),
            r_beta := clear_all_runtime (r_beta r), block_counter := 0, pending_events := [],
            pending_auto_focus_count := 0, pending_ncc_left_count := 0,
            r_agenda := with_strategy (strategy (r_agenda r)), activations_issued := 0\<rparr>
      in and_then (seed_root_token h r) (\<lambda>(t, r).
         case get_node (r_beta r) (root_id (r_beta r)) of
           Some (Root _ kids) \<Rightarrow> propagate_token fuel h fact_base_new t kids (r\<lparr>new_activations := []\<rparr>)
         | _ \<Rightarrow> Inr r))"

definition activate_root_children :: "nat \<Rightarrow> host \<Rightarrow> fact_base \<Rightarrow> node_id list \<Rightarrow> rete \<Rightarrow> rete outcome" where
  "activate_root_children fuel h fb kids r =
     (if kids = [] then Inr r
      else and_then (seed_root_token h r) (\<lambda>(t, r). propagate_token fuel h fb t kids (r\<lparr>new_activations := []\<rparr>)))"

text \<open>The order of installation edges: predicates and partners inside a new conjunction come before it.\<close>

fun shared_results_first :: "beta_network \<Rightarrow> (node_id \<times> node_id) list \<Rightarrow> (node_id \<times> node_id) list" where
  "shared_results_first net [] = []"
| "shared_results_first net (e # edges) =
     (let early = (case get_node net (snd e) of
            Some (Ncc _ partner _ _ _) \<Rightarrow> (\<lambda>c. in_subnetwork (snd e) partner (snd c) \<and>
              (case get_node net (snd c) of Some (Predicate _ _ _ _ _) \<Rightarrow> True | Some (NccPartner _ _ _) \<Rightarrow> True | _ \<Rightarrow> False))
          | _ \<Rightarrow> (\<lambda>c. False))
      in filter early edges @ e # shared_results_first net (filter (\<lambda>c. \<not> early c) edges))"

text \<open>Climbing from a partner to the parent of the nested conjunction without meeting a negation.\<close>

partial_function (option) positive_climb :: "beta_network \<Rightarrow> node_id \<Rightarrow> node_id option \<Rightarrow> bool option" where
  "positive_climb net parent current =
     (case current of
        None \<Rightarrow> Some False
      | Some n \<Rightarrow>
          if n = parent then Some True
          else (case get_node net n of
             None \<Rightarrow> Some False
           | Some (Negative _ _ _ _ _ _ _) \<Rightarrow> Some False
           | Some (Exists _ _ _ _ _ _ _) \<Rightarrow> Some False
           | Some (Ncc _ _ _ _ _) \<Rightarrow> Some False
           | Some node \<Rightarrow> positive_climb net parent (parent_node node)))"

definition is_positive_double_negation :: "beta_network \<Rightarrow> node_id \<Rightarrow> bool option" where
  "is_positive_double_negation net ncc =
     Option.bind (ncc_is_pure_double_negation net ncc) (\<lambda>pure.
       if \<not> pure then Some False
       else Option.bind (ncc_subnetwork_entry net ncc) (\<lambda>entry.
         case Option.bind entry (get_node net) of
           Some (Ncc parent partner _ _ _) \<Rightarrow>
             positive_climb net parent (Option.bind (get_node net partner) parent_node)
         | _ \<Rightarrow> Some False))"

definition rposition :: "('a \<Rightarrow> bool) \<Rightarrow> 'a list \<Rightarrow> nat option" where
  "rposition P xs = map_option (\<lambda>i. length xs - 1 - i) (position P (rev xs))"

definition prime_last :: "beta_network \<Rightarrow> node_id \<Rightarrow> (node_id \<times> node_id) list \<Rightarrow> (node_id \<times> node_id) list" where
  "prime_last net ncc edges =
     (case get_node net ncc of
        Some (Ncc _ partner _ _ _) \<Rightarrow>
          (case (position (\<lambda>(_, c). c = ncc) edges, rposition (\<lambda>(_, c). in_subnetwork ncc partner c) edges) of
             (Some i, Some j) \<Rightarrow>
               if i < j then insert_at j (edges ! i) (take i edges @ drop (Suc i) edges) else edges
           | _ \<Rightarrow> edges)
      | _ \<Rightarrow> edges)"

fun positive_double_negations :: "beta_network \<Rightarrow> node_id list \<Rightarrow> node_id list option" where
  "positive_double_negations net [] = Some []"
| "positive_double_negations net (n # ns) =
     Option.bind (is_positive_double_negation net n) (\<lambda>b.
       map_option (\<lambda>rest. if b then n # rest else rest) (positive_double_negations net ns))"

definition prime_positive_double_negations_last ::
  "beta_network \<Rightarrow> (node_id \<times> node_id) list \<Rightarrow> (node_id \<times> node_id) list option" where
  "prime_positive_double_negations_last net edges =
     map_option (\<lambda>deferred. fold (prime_last net) deferred edges) (positive_double_negations net (map snd edges))"

definition ncc_shared_results_first :: "beta_network \<Rightarrow> node_id \<Rightarrow> (node_id \<times> node_id) list option" where
  "ncc_shared_results_first net first_new =
     prime_positive_double_negations_last net (shared_results_first net (installation_frontier first_new net))"

definition is_partner :: "beta_network \<Rightarrow> node_id \<Rightarrow> bool" where
  "is_partner net n \<longleftrightarrow> (case get_node net n of Some (NccPartner _ _ _) \<Rightarrow> True | _ \<Rightarrow> False)"

definition initialize_edge :: "nat \<Rightarrow> host \<Rightarrow> fact_base \<Rightarrow> node_id \<times> node_id \<Rightarrow> rete \<Rightarrow> rete outcome" where
  "initialize_edge fuel h fb = (\<lambda>(parent, child) r.
     if parent = root_id (r_beta r) then activate_root_children fuel h fb [child] r
     else (case memory_id_for_node (r_beta r) parent of
             None \<Rightarrow> Inr r
           | Some m \<Rightarrow>
               (let parent_tokens = (case get_memory (r_beta r) m of None \<Rightarrow> [] | Some bm \<Rightarrow> beta_iter bm);
                    backfill = is_partner (r_beta r) child;
                    go = propagate_token fuel h fb
                in in_batch fuel h go backfill
                     (for_each (\<lambda>t. go t [child]) (if backfill then rev parent_tokens else parent_tokens)) r)))"

definition initialize_beta_frontier :: "nat \<Rightarrow> host \<Rightarrow> fact_base \<Rightarrow> node_id \<Rightarrow> rete \<Rightarrow> rete outcome" where
  "initialize_beta_frontier fuel h fb first_new r =
     and_then (or_stop OutOfFuel (ncc_shared_results_first (r_beta r) first_new)) (\<lambda>frontier.
       for_each (initialize_edge fuel h fb)
         (filter (\<lambda>(_, c). is_partner (r_beta r) c) frontier @ filter (\<lambda>(_, c). \<not> is_partner (r_beta r) c) frontier)
         (r\<lparr>new_activations := []\<rparr>))"

section \<open>Rules and pending events\<close>

definition disable_rule :: "host \<Rightarrow> rule_id \<Rightarrow> rete \<Rightarrow> rete" where
  "disable_rule h rule r = r\<lparr>disabled_rules := insert rule (disabled_rules r),
     r_agenda := snd (remove_activations_for_rule (walk_activations h (dom (activations (r_agenda r)))) rule (r_agenda r)),
     pending_events := filter (\<lambda>e. case e of EvPredicate _ _ rule' _ \<Rightarrow> rule' \<noteq> rule | _ \<Rightarrow> True) (pending_events r)\<rparr>"

definition set_rule_auto_focus :: "rule_id \<Rightarrow> bool \<Rightarrow> rete \<Rightarrow> rete" where
  "set_rule_auto_focus rule enabled r = r\<lparr>auto_focus_rules :=
     (if enabled then insert rule (auto_focus_rules r) else auto_focus_rules r - {rule})\<rparr>"

definition pop_pending_event :: "rete \<Rightarrow> pending_event option \<times> rete" where
  "pop_pending_event r =
     (case pending_events r of
        [] \<Rightarrow> (None, r)
      | e # es \<Rightarrow>
          (let r = r\<lparr>pending_events := es\<rparr>
           in (Some e,
               case e of
                 EvAutoFocus _ \<Rightarrow> r\<lparr>pending_auto_focus_count := pending_auto_focus_count r - 1\<rparr>
               | EvNccLeft _ _ \<Rightarrow> r\<lparr>pending_ncc_left_count := pending_ncc_left_count r - 1\<rparr>
               | EvPredicate _ _ _ _ \<Rightarrow> r)))"

definition pop_pending_predicate_match :: "rete \<Rightarrow> pending_event option \<times> rete" where
  "pop_pending_predicate_match r =
     (case position (\<lambda>e. case e of EvAutoFocus _ \<Rightarrow> False | _ \<Rightarrow> True) (pending_events r) of
        None \<Rightarrow> (None, r)
      | Some i \<Rightarrow>
          (case pending_events r ! i of
             EvPredicate n t rule c \<Rightarrow>
               (Some (EvPredicate n t rule c),
                r\<lparr>pending_events := take i (pending_events r) @ drop (Suc i) (pending_events r)\<rparr>)
           | _ \<Rightarrow> (None, r)))"

text \<open>Events generated by a resolution move to the front, before those that were waiting.\<close>

definition generated_first :: "nat \<Rightarrow> rete \<Rightarrow> rete" where
  "generated_first waiting r =
     r\<lparr>pending_events := drop waiting (pending_events r) @ take waiting (pending_events r)\<rparr>"

definition resolve_ncc_left_activation ::
  "nat \<Rightarrow> host \<Rightarrow> fact_base \<Rightarrow> node_id \<Rightarrow> token_id \<Rightarrow> rete \<Rightarrow> rete outcome" where
  "resolve_ncc_left_activation fuel h fb node parent r =
     (case get_node (r_beta r) node of
        Some (Ncc owner _ _ _ _) \<Rightarrow>
          (case token_get (r_tokens r) parent of
             None \<Rightarrow> Inr r
           | Some tok \<Rightarrow>
               if tok_owner tok \<noteq> owner then Inr r
               else and_then (ncc_left_activate_now h (propagate_token fuel h fb) node parent (r\<lparr>new_activations := []\<rparr>))
                      (\<lambda>r'. Inr (generated_first (length (pending_events r)) r')))
      | _ \<Rightarrow> Inr r)"

definition resolve_predicate_match ::
  "nat \<Rightarrow> host \<Rightarrow> fact_base \<Rightarrow> node_id \<Rightarrow> token_id \<Rightarrow> rule_id \<Rightarrow> u32 \<Rightarrow> bool \<Rightarrow> rete \<Rightarrow> rete outcome" where
  "resolve_predicate_match fuel h fb node parent rule condition_index passed r =
     (case token_get (r_tokens r) parent of
        None \<Rightarrow> Inr r
      | Some parent_token \<Rightarrow>
          (case get_node (r_beta r) node of
             Some (Predicate _ rule' condition_index' m kids) \<Rightarrow>
               if rule' \<noteq> rule \<or> condition_index' \<noteq> condition_index then Inr r
               else if \<not> passed then Inr r
               else
                 and_then (insert_token h (pass_through node parent parent_token) None r) (\<lambda>(t, r).
                 and_then (or_stop Panic (get_memory (r_beta r) m)) (\<lambda>_.
                 and_then (propagate_token fuel h fb t kids
                     ((update_beta (with_beta_memory m (beta_insert_indexed t (tok_bindings parent_token))) r)
                       \<lparr>new_activations := []\<rparr>)) (\<lambda>r'.
                   Inr (generated_first (length (pending_events r)) r'))))
           | _ \<Rightarrow> Inr r))"

end
