(* ===== verification/Rule_Compiler.thy ===== *)
theory Rule_Compiler
  imports Rete_Operations
begin

text \<open>
  The rule compiler (\<open>compiler.rs\<close>): rules as lists of conditions, their validation and variable
  maps, and the construction of alpha paths and beta nodes, which shares paths and joins through
  two caches. The texts of validation errors are constructors here; a position in a rule is the
  list of indexes that the text spells out.
\<close>

section \<open>Rules\<close>

record compilable_pattern =
  pat_entry :: alpha_entry_type
  pat_tests :: "constant_test list"
  pat_sequence :: "sequence_pattern option"
  variable_slots :: "(slot_index \<times> symbol) list"
  negated_variable_slots :: "(slot_index \<times> symbol \<times> join_test_type) list"
  pat_negated :: bool
  pat_exists :: bool

datatype compilable_condition =
    CondPattern compilable_pattern
  | CondPredicate u32
  | CondNcc "compilable_condition list"

record compilable_rule =
  rule_number :: rule_id
  rule_salience :: salience
  rule_patterns :: "compilable_pattern list"

record compile_result =
  result_rule :: rule_id
  terminal_node :: node_id
  alpha_memories :: "alpha_memory_id list"
  result_vars :: var_map

record compilation_plan =
  plan_salience :: salience
  plan_complexity :: u16
  planned :: "compilable_condition list"
  plan_vars :: var_map

definition with_complexity :: "u16 \<Rightarrow> compilation_plan \<Rightarrow> compilation_plan" where
  "with_complexity complexity plan = plan\<lparr>plan_complexity := and complexity 0x07ff\<rparr>"

fun condition_nodes :: "compilable_condition \<Rightarrow> nat" where
  "condition_nodes (CondPattern _) = 1"
| "condition_nodes (CondPredicate _) = 1"
| "condition_nodes (CondNcc subs) = 1 + (1 + sum_list (map condition_nodes subs))"

definition maximum_new_beta_nodes :: "compilable_condition list \<Rightarrow> nat" where
  "maximum_new_beta_nodes conditions = 1 + sum_list (map condition_nodes conditions)"

section \<open>Errors\<close>

datatype rule_position = PatternAt nat | ConditionAt "nat list"

datatype pattern_violation =
    BadSequence sequence_error
  | BadSequenceBinding
  | NestedWholeFactTest
  | EmptyNcc rule_position
  | CannotBeNegated rule_position
  | CannotBeExists rule_position
  | VariableReused rule_position slot_index slot_index

datatype limited_resource =
    RuleConditions | SequenceTests | AlphaTests | FieldCountTests | RemainingNodeIds

datatype compile_error =
    EmptyRule
  | VarMapOverflow
  | ResourceLimit limited_resource nat nat
  | InvalidPatterns "pattern_violation list"

type_synonym 'a compiled = "compile_error + 'a"

definition try_then :: "'a compiled \<Rightarrow> ('a \<Rightarrow> 'b compiled) \<Rightarrow> 'b compiled" where
  "try_then m f = (case m of Inl e \<Rightarrow> Inl e | Inr x \<Rightarrow> f x)"

definition max_rule_conditions :: nat where
  "max_rule_conditions = 64"

definition check_limit :: "limited_resource \<Rightarrow> nat \<Rightarrow> nat \<Rightarrow> unit compiled" where
  "check_limit resource required limit =
     (if limit < required then Inl (ResourceLimit resource required limit) else Inr ())"

definition finish_validation :: "pattern_violation list \<Rightarrow> unit compiled" where
  "finish_validation errors = (if errors = [] then Inr () else Inl (InvalidPatterns errors))"

section \<open>Validation\<close>

fun is_field_count :: "constant_test_type \<Rightarrow> bool" where
  "is_field_count (TOrderedFieldCount _ _) = True"
| "is_field_count _ = False"

text \<open>The stack of pending tests, its top first; whether a test stands inside a disjunction.\<close>

function check_nested_tests :: "(constant_test \<times> bool) list \<Rightarrow> unit compiled" where
  "check_nested_tests [] = Inr ()"
| "check_nested_tests ((t, nested) # pending) =
     (case test_type t of
        TAny branches \<Rightarrow> check_nested_tests (map (\<lambda>t. (t, True)) (rev (concat branches)) @ pending)
      | TOrderedFieldCount _ _ \<Rightarrow> if nested then Inl (InvalidPatterns [NestedWholeFactTest]) else check_nested_tests pending
      | TSequence _ \<Rightarrow> if nested then Inl (InvalidPatterns [NestedWholeFactTest]) else check_nested_tests pending
      | _ \<Rightarrow> check_nested_tests pending)"
  by pat_completeness auto

termination check_nested_tests
  by (relation "measure (size_list (\<lambda>e. size (fst e)))")
    (auto simp: size_list_append size_list_rev comp_def dest!: size_any_test)

definition validate_alpha_test_count :: "constant_test list \<Rightarrow> unit compiled" where
  "validate_alpha_test_count tests =
     (let field_count_tests = length (filter (\<lambda>t. is_field_count (test_type t)) tests)
      in try_then (check_limit FieldCountTests field_count_tests 1) (\<lambda>_.
         try_then (check_limit AlphaTests (constant_test_count tests - field_count_tests) max_alpha_tests) (\<lambda>_.
           check_nested_tests (map (\<lambda>t. (t, False)) (rev tests)))))"

definition validate_pattern_tests :: "compilable_pattern \<Rightarrow> unit compiled" where
  "validate_pattern_tests pat =
     try_then (validate_alpha_test_count (pat_tests pat)) (\<lambda>_.
       case pat_sequence pat of
         None \<Rightarrow> Inr ()
       | Some plan \<Rightarrow>
           (let sequence_test_count = constant_test_count (plan_tests plan)
            in try_then (check_limit SequenceTests sequence_test_count max_alpha_tests) (\<lambda>_.
               let alpha_value_tests = constant_test_count (pat_tests pat) -
                     length (filter (\<lambda>t. is_field_count (test_type t)) (pat_tests pat))
               in try_then (check_limit AlphaTests (saturating_add alpha_value_tests sequence_test_count) max_alpha_tests) (\<lambda>_.
                  case validate_entry plan (pat_entry pat) of
                    Inl e \<Rightarrow> Inl (InvalidPatterns [BadSequence e])
                  | Inr _ \<Rightarrow>
                      if (\<exists>(slot, _) \<in> set (variable_slots pat). \<not> valid_logical_slot plan slot) \<or>
                         (\<exists>(slot, _, _) \<in> set (negated_variable_slots pat). \<not> valid_logical_slot plan slot)
                      then Inl (InvalidPatterns [BadSequenceBinding]) else Inr ()))))"

text \<open>The slots bound so far by variable; each insertion returns the slot it replaces.\<close>

fun reused_variables :: "rule_position \<Rightarrow> (symbol \<rightharpoonup> slot_index) \<Rightarrow> (slot_index \<times> symbol) list \<Rightarrow> pattern_violation list" where
  "reused_variables pos bound [] = []"
| "reused_variables pos bound ((slot, var) # rest) =
     (case bound var of
        Some earlier \<Rightarrow> if earlier \<noteq> slot then [VariableReused pos earlier slot] else []
      | None \<Rightarrow> []) @ reused_variables pos (bound(var \<mapsto> slot)) rest"

definition validate_pattern_structure :: "compilable_pattern \<Rightarrow> rule_position \<Rightarrow> bool \<Rightarrow> bool \<Rightarrow> pattern_violation list" where
  "validate_pattern_structure pat pos allow_negated allow_exists =
     (if pat_negated pat \<and> \<not> allow_negated then [CannotBeNegated pos] else []) @
     (if pat_exists pat \<and> \<not> allow_exists then [CannotBeExists pos] else []) @
     reused_variables pos Map.empty (variable_slots pat)"

text \<open>Conditions inside a negated conjunction at \<open>pos\<close>, numbered from \<open>i\<close>.\<close>

fun validate_ncc_conditions :: "nat list \<Rightarrow> nat \<Rightarrow> compilable_condition list \<Rightarrow> pattern_violation list" where
  "validate_ncc_conditions pos i [] = []"
| "validate_ncc_conditions pos i (CondPattern pat # rest) =
     validate_pattern_structure pat (ConditionAt (pos @ [i])) True False @ validate_ncc_conditions pos (Suc i) rest"
| "validate_ncc_conditions pos i (CondPredicate _ # rest) = validate_ncc_conditions pos (Suc i) rest"
| "validate_ncc_conditions pos i (CondNcc subs # rest) =
     (if subs = [] then [EmptyNcc (ConditionAt (pos @ [i]))] else validate_ncc_conditions (pos @ [i]) 0 subs) @
     validate_ncc_conditions pos (Suc i) rest"

fun validate_top_conditions :: "nat \<Rightarrow> compilable_condition list \<Rightarrow> pattern_violation list" where
  "validate_top_conditions i [] = []"
| "validate_top_conditions i (CondPattern pat # rest) =
     validate_pattern_structure pat (ConditionAt [i]) True True @ validate_top_conditions (Suc i) rest"
| "validate_top_conditions i (CondPredicate _ # rest) = validate_top_conditions (Suc i) rest"
| "validate_top_conditions i (CondNcc subs # rest) =
     (if subs = [] then [EmptyNcc (ConditionAt [i])] else validate_ncc_conditions [i] 0 subs) @
     validate_top_conditions (Suc i) rest"

text \<open>The stack of pending conditions, its top first, and how many were inspected.\<close>

function check_conditions :: "compilable_condition list \<Rightarrow> nat \<Rightarrow> unit compiled" where
  "check_conditions [] inspected = Inr ()"
| "check_conditions (c # pending) inspected =
     try_then (check_limit RuleConditions (inspected + 1) max_rule_conditions) (\<lambda>_.
       case c of
         CondPattern pat \<Rightarrow> try_then (validate_pattern_tests pat) (\<lambda>_. check_conditions pending (inspected + 1))
       | CondNcc subs \<Rightarrow> check_conditions (rev subs @ pending) (inspected + 1)
       | CondPredicate _ \<Rightarrow> check_conditions pending (inspected + 1))"
  by pat_completeness auto
termination
  by (relation "measure (\<lambda>(pending, _). size_list size pending)") (auto simp: size_list_append size_list_rev)

definition validate_conditions :: "compilable_condition list \<Rightarrow> unit compiled" where
  "validate_conditions conditions =
     try_then (check_conditions (rev conditions) 0) (\<lambda>_. finish_validation (validate_top_conditions 0 conditions))"

fun validate_patterns_from :: "nat \<Rightarrow> compilable_pattern list \<Rightarrow> pattern_violation list" where
  "validate_patterns_from i [] = []"
| "validate_patterns_from i (pat # rest) =
     validate_pattern_structure pat (PatternAt i) True True @ validate_patterns_from (Suc i) rest"

definition validate_rule_patterns :: "compilable_pattern list \<Rightarrow> unit compiled" where
  "validate_rule_patterns patterns = finish_validation (validate_patterns_from 0 patterns)"

section \<open>Variables\<close>

fun register_variables :: "symbol list \<Rightarrow> var_map \<Rightarrow> var_map compiled" where
  "register_variables [] vm = Inr vm"
| "register_variables (name # names) vm =
     (case get_or_create name vm of (Inl _, _) \<Rightarrow> Inl VarMapOverflow | (Inr _, vm) \<Rightarrow> register_variables names vm)"

fun register_conditions :: "compilable_condition list \<Rightarrow> var_map \<Rightarrow> var_map compiled" where
  "register_conditions [] vm = Inr vm"
| "register_conditions (CondPattern pat # rest) vm =
     try_then (register_variables (map snd (variable_slots pat)) vm) (\<lambda>vm.
     try_then (register_variables (map (fst \<circ> snd) (negated_variable_slots pat)) vm) (register_conditions rest))"
| "register_conditions (CondPredicate _ # rest) vm = register_conditions rest vm"
| "register_conditions (CondNcc subs # rest) vm =
     try_then (register_conditions subs vm) (register_conditions rest)"

definition prepare_var_map :: "compilable_condition list \<Rightarrow> var_map compiled" where
  "prepare_var_map conditions = register_conditions conditions var_map_new"

text \<open>Sets of symbols, a byte per symbol of either encoding.\<close>

record symbol_set =
  ascii_marks :: "u8 list"
  utf8_marks :: "u8 list"

definition symbol_set_new :: symbol_set where
  "symbol_set_new = \<lparr>ascii_marks = [], utf8_marks = []\<rparr>"

definition marked :: "u8 list \<Rightarrow> u32 \<Rightarrow> bool" where
  "marked marks i \<longleftrightarrow> unat i < length marks \<and> marks ! unat i \<noteq> 0"

definition set_mark :: "u32 \<Rightarrow> u8 list \<Rightarrow> u8 list" where
  "set_mark i marks =
     (let marks = (if length marks \<le> unat i then marks @ replicate (unat i + 1 - length marks) 0 else marks)
      in marks[unat i := 1])"

fun symbol_in :: "symbol \<Rightarrow> symbol_set \<Rightarrow> bool" where
  "symbol_in (Symbol (AsciiId i)) S = marked (ascii_marks S) i"
| "symbol_in (Symbol (Utf8Id i)) S = marked (utf8_marks S) i"

fun symbol_insert :: "symbol \<Rightarrow> symbol_set \<Rightarrow> symbol_set" where
  "symbol_insert (Symbol (AsciiId i)) S = S\<lparr>ascii_marks := set_mark i (ascii_marks S)\<rparr>"
| "symbol_insert (Symbol (Utf8Id i)) S = S\<lparr>utf8_marks := set_mark i (utf8_marks S)\<rparr>"

definition symbol_extend :: "symbol list \<Rightarrow> symbol_set \<Rightarrow> symbol_set" where
  "symbol_extend names S = fold symbol_insert names S"

section \<open>Caches\<close>

text \<open>Structural equality of tests, as equality of normal forms of their keys.\<close>

primrec test_norm :: "constant_test \<Rightarrow> constant_test" and type_norm :: "constant_test_type \<Rightarrow> constant_test_type"
  and plan_norm :: "sequence_pattern \<Rightarrow> sequence_pattern"
where
  "test_norm (ConstantTest slot ty) = ConstantTest slot (type_norm ty)"
| "type_norm (TEqual k) = TEqual (key_norm k)"
| "type_norm (TNotEqual k) = TNotEqual (key_norm k)"
| "type_norm (TEqualAny ks) = TEqualAny (map key_norm ks)"
| "type_norm (TGreaterThan k) = TGreaterThan (key_norm k)"
| "type_norm (TLessThan k) = TLessThan (key_norm k)"
| "type_norm (TGreaterOrEqual k) = TGreaterOrEqual (key_norm k)"
| "type_norm (TLessOrEqual k) = TLessOrEqual (key_norm k)"
| "type_norm (TEqualSlot s) = TEqualSlot s"
| "type_norm (TNotEqualSlot s) = TNotEqualSlot s"
| "type_norm (TEqualSlotOffset s i) = TEqualSlotOffset s i"
| "type_norm (TNotEqualSlotOffset s i) = TNotEqualSlotOffset s i"
| "type_norm (TGreaterThanSlotOffset s i) = TGreaterThanSlotOffset s i"
| "type_norm (TLessThanSlotOffset s i) = TLessThanSlotOffset s i"
| "type_norm (TGreaterOrEqualSlotOffset s i) = TGreaterOrEqualSlotOffset s i"
| "type_norm (TLessOrEqualSlotOffset s i) = TLessOrEqualSlotOffset s i"
| "type_norm (TOrderedFieldCount lo hi) = TOrderedFieldCount lo hi"
| "type_norm (TSequence plan) = TSequence (plan_norm plan)"
| "type_norm (TAny branches) = TAny (map (map test_norm) branches)"
| "plan_norm (SequencePattern segs tests) = SequencePattern segs (map test_norm tests)"

record join_node_key =
  key_parent :: node_id
  key_memory :: alpha_memory_id
  key_tests :: "join_test list"
  key_bindings :: "(slot_index \<times> var_id) list"
  key_sequence :: "sequence_pattern option"

definition join_key_norm :: "join_node_key \<Rightarrow> join_node_key" where
  "join_key_norm k = k\<lparr>key_sequence := map_option plan_norm (key_sequence k)\<rparr>"

text \<open>Both caches are keyed by normal forms.\<close>

record rete_compiler =
  alpha_path_cache :: "alpha_entry_type \<times> constant_test list \<rightharpoonup> alpha_memory_id"
  join_node_cache :: "join_node_key \<rightharpoonup> node_id"
  next_rule_id :: u32

definition rete_compiler_new :: rete_compiler where
  "rete_compiler_new = \<lparr>alpha_path_cache = Map.empty, join_node_cache = Map.empty, next_rule_id = 1\<rparr>"

definition allocate_rule_id :: "rete_compiler \<Rightarrow> (rule_id \<times> rete_compiler) outcome" where
  "allocate_rule_id c =
     and_then (or_stop Panic (checked_add_u (next_rule_id c) 1)) (\<lambda>next. Inr (next_rule_id c, c\<lparr>next_rule_id := next\<rparr>))"

section \<open>Alpha paths and joins\<close>

text \<open>The tests of the alpha path of a pattern; a sequence plan with tests ends it.\<close>

definition path_tests :: "compilable_pattern \<Rightarrow> constant_test list" where
  "path_tests pat = pat_tests pat @
     (case pat_sequence pat of
        None \<Rightarrow> []
      | Some plan \<Rightarrow> if plan_tests plan = [] then [] else [ConstantTest (OrderedSlot 0) (TSequence plan)])"

fun alpha_chain :: "node_id \<Rightarrow> constant_test list \<Rightarrow> alpha_network \<Rightarrow> node_id \<times> alpha_network" where
  "alpha_chain n [] net = (n, net)"
| "alpha_chain n (t # ts) net = (let (n, net) = create_constant_test_node n t net in alpha_chain n ts net)"

definition ensure_alpha_path ::
  "host \<Rightarrow> fact_base \<Rightarrow> compilable_pattern \<Rightarrow> rete_compiler \<Rightarrow> alpha_network \<Rightarrow>
   (alpha_memory_id \<times> rete_compiler \<times> alpha_network) outcome" where
  "ensure_alpha_path h fb pat c alpha =
     (let tests = path_tests pat;
          key = (pat_entry pat, map test_norm tests)
      in case alpha_path_cache c key of
           Some m \<Rightarrow> Inr (m, c, alpha)
         | None \<Rightarrow>
             (let (entry, alpha) = create_entry_node (pat_entry pat) alpha;
                  (n, alpha) = alpha_chain entry tests alpha;
                  (m, alpha) = create_memory n alpha
              in and_then
                   (if fact_base_is_empty fb then Inr alpha
                    else or_stop Panic (backfill_memory (walk_facts h (dom (facts fb))) m (pat_entry pat) tests fb alpha))
                   (\<lambda>alpha. Inr (m, c\<lparr>alpha_path_cache := (alpha_path_cache c)(key \<mapsto> m)\<rparr>, alpha))))"

definition ensure_join_node ::
  "join_node_key \<Rightarrow> rete_compiler \<Rightarrow> beta_network \<Rightarrow> (node_id \<times> rete_compiler \<times> beta_network) outcome" where
  "ensure_join_node key c net =
     (case join_node_cache c (join_key_norm key) of
        Some n \<Rightarrow> Inr (n, c, net)
      | None \<Rightarrow>
          and_then (create_join_node (key_parent key) (key_memory key) (key_tests key) (key_bindings key) net)
            (\<lambda>((n, _), net).
          and_then (set_sequence n (key_sequence key) net) (\<lambda>net.
            Inr (n, c\<lparr>join_node_cache := (join_node_cache c)(join_key_norm key \<mapsto> n)\<rparr>, net))))"

section \<open>Patterns\<close>

record compile_state =
  cs_compiler :: rete_compiler
  cs_rete :: rete
  cs_bound :: symbol_set
  cs_memories :: "alpha_memory_id list"

text \<open>Bound variables are tested for equality, the others are extracted; the last list is of these.\<close>

fun split_variables ::
  "var_map \<Rightarrow> symbol_set \<Rightarrow> (slot_index \<times> symbol) list \<Rightarrow>
   (join_test list \<times> (slot_index \<times> var_id) list \<times> symbol list) outcome" where
  "split_variables vm bound [] = Inr ([], [], [])"
| "split_variables vm bound ((slot, var) # rest) =
     and_then (or_stop Panic (var_lookup vm var)) (\<lambda>v.
     and_then (split_variables vm bound rest) (\<lambda>(tests, bindings, names).
       if symbol_in var bound
       then Inr (\<lparr>alpha_slot = slot, beta_var = v, join_type = JEqual\<rparr> # tests, bindings, names)
       else Inr (tests, (slot, v) # bindings, var # names)))"

fun comparison_tests :: "var_map \<Rightarrow> (slot_index \<times> symbol \<times> join_test_type) list \<Rightarrow> join_test list outcome" where
  "comparison_tests vm [] = Inr []"
| "comparison_tests vm ((slot, var, ty) # rest) =
     and_then (or_stop Panic (var_lookup vm var)) (\<lambda>v.
     and_then (comparison_tests vm rest) (\<lambda>tests. Inr (\<lparr>alpha_slot = slot, beta_var = v, join_type = ty\<rparr> # tests)))"

definition request_alpha_indexes :: "fact_base \<Rightarrow> alpha_memory_id \<Rightarrow> (slot_index \<times> var_id) list \<Rightarrow> rete \<Rightarrow> rete" where
  "request_alpha_indexes fb m keys r = fold (\<lambda>(slot, _) r. r\<lparr>r_alpha := alpha_request_index m slot fb (r_alpha r)\<rparr>) keys r"

definition request_parent_indexes :: "node_id \<Rightarrow> (slot_index \<times> var_id) list \<Rightarrow> rete \<Rightarrow> rete" where
  "request_parent_indexes parent keys r =
     (if parent = root_id (r_beta r) then r
      else case memory_id_for_node (r_beta r) parent of
             None \<Rightarrow> r
           | Some m \<Rightarrow> fold (\<lambda>(_, var) r. update_beta (with_beta_memory m (request_var_index var (r_tokens r))) r) keys r)"

text \<open>The node of a pattern; only a positive one binds its variables for what follows.\<close>

definition attach_pattern ::
  "node_id \<Rightarrow> compilable_pattern \<Rightarrow> alpha_memory_id \<Rightarrow> join_test list \<Rightarrow> (slot_index \<times> var_id) list \<Rightarrow> symbol list \<Rightarrow>
   compile_state \<Rightarrow> (node_id \<times> compile_state) outcome" where
  "attach_pattern parent pat m tests bindings names st =
     (let net = r_beta (cs_rete st)
      in if pat_negated pat then
           and_then (create_negative_node parent m tests net) (\<lambda>((n, _), net).
           and_then (set_sequence n (pat_sequence pat) net) (\<lambda>net.
             Inr (n, st\<lparr>cs_rete := (cs_rete st)\<lparr>r_beta := net\<rparr>\<rparr>)))
         else if pat_exists pat then
           and_then (create_exists_node parent m tests net) (\<lambda>((n, _), net).
           and_then (set_sequence n (pat_sequence pat) net) (\<lambda>net.
             Inr (n, st\<lparr>cs_rete := (cs_rete st)\<lparr>r_beta := net\<rparr>\<rparr>)))
         else
           and_then (ensure_join_node \<lparr>key_parent = parent, key_memory = m, key_tests = tests, key_bindings = bindings,
               key_sequence = pat_sequence pat\<rparr> (cs_compiler st) net) (\<lambda>(n, c, net).
             Inr (n, st\<lparr>cs_compiler := c, cs_rete := (cs_rete st)\<lparr>r_beta := net\<rparr>,
               cs_bound := symbol_extend names (cs_bound st)\<rparr>)))"

definition compile_pattern ::
  "host \<Rightarrow> fact_base \<Rightarrow> var_map \<Rightarrow> compilable_pattern \<Rightarrow> node_id \<Rightarrow> compile_state \<Rightarrow> (node_id \<times> compile_state) outcome" where
  "compile_pattern h fb vm pat parent st =
     and_then (ensure_alpha_path h fb pat (cs_compiler st) (r_alpha (cs_rete st))) (\<lambda>(m, c, alpha).
     let st = st\<lparr>cs_compiler := c, cs_rete := (cs_rete st)\<lparr>r_alpha := alpha\<rparr>, cs_memories := cs_memories st @ [m]\<rparr>
     in and_then (split_variables vm (cs_bound st) (variable_slots pat)) (\<lambda>(equal_tests, bindings, names).
        and_then (comparison_tests vm (negated_variable_slots pat)) (\<lambda>other_tests.
        let tests = equal_tests @ other_tests;
            keys = indexable_tests tests (pat_sequence pat);
            st = st\<lparr>cs_rete := request_parent_indexes parent keys (request_alpha_indexes fb m keys (cs_rete st))\<rparr>
        in attach_pattern parent pat m tests bindings names st)))"

section \<open>Conditions\<close>

text \<open>
  One condition below a node. \<open>nested\<close> tells whether it stands inside a negated conjunction; the
  variables bound inside a conjunction are forgotten after it.
\<close>

fun compile_condition ::
    "host \<Rightarrow> fact_base \<Rightarrow> rule_id \<Rightarrow> var_map \<Rightarrow> bool \<Rightarrow> compilable_condition \<Rightarrow> node_id \<Rightarrow> compile_state \<Rightarrow>
     (node_id \<times> compile_state) outcome"
  and compile_each ::
    "host \<Rightarrow> fact_base \<Rightarrow> rule_id \<Rightarrow> var_map \<Rightarrow> bool \<Rightarrow> compilable_condition list \<Rightarrow> node_id \<Rightarrow> compile_state \<Rightarrow>
     (node_id \<times> compile_state) outcome"
where
  "compile_condition h fb rule vm nested (CondPattern pat) parent st = compile_pattern h fb vm pat parent st"
| "compile_condition h fb rule vm nested (CondPredicate index) parent st =
     and_then (create_predicate_node parent rule index (r_beta (cs_rete st))) (\<lambda>((n, _), net).
       Inr (n, st\<lparr>cs_rete := (cs_rete st)\<lparr>r_beta := net\<rparr>\<rparr>))"
| "compile_condition h fb rule vm nested (CondNcc subs) parent st =
     (let (k, net) = allocate_ncc_memory (r_beta (cs_rete st));
          placeholder = root_id net
      in and_then (create_ncc_node parent placeholder k net) (\<lambda>((ncc, _), net).
         let bound = cs_bound st;
             st = st\<lparr>cs_rete := (cs_rete st)\<lparr>r_beta := net\<rparr>\<rparr>
         in and_then (compile_each h fb rule vm True subs parent st) (\<lambda>(bottom, st).
            and_then (create_ncc_partner bottom ncc k (r_beta (cs_rete st))) (\<lambda>(partner, net).
            let net = set_ncc_partner ncc partner net
            in and_then (or_stop OutOfFuel (link_ncc_after_subnetwork ncc net)) (\<lambda>net.
               and_then (or_stop OutOfFuel (register_ncc_entry_wait ncc nested net)) (\<lambda>net.
                 Inr (ncc, st\<lparr>cs_rete := (cs_rete st)\<lparr>r_beta := net\<rparr>, cs_bound := bound\<rparr>)))))))"
| "compile_each h fb rule vm nested [] parent st = Inr (parent, st)"
| "compile_each h fb rule vm nested (c # cs) parent st =
     and_then (compile_condition h fb rule vm nested c parent st) (\<lambda>(n, st). compile_each h fb rule vm nested cs n st)"

section \<open>Rules\<close>

definition root_children :: "beta_network \<Rightarrow> node_id list" where
  "root_children net = (case get_node net (root_id net) of Some (Root _ kids) \<Rightarrow> kids | _ \<Rightarrow> [])"

definition compile_conditions_unchecked ::
  "nat \<Rightarrow> host \<Rightarrow> fact_base \<Rightarrow> rule_id \<Rightarrow> salience \<times> u16 \<Rightarrow> compilable_condition list \<Rightarrow> var_map \<Rightarrow>
   rete_compiler \<Rightarrow> rete \<Rightarrow> (compile_result \<times> rete_compiler \<times> rete) outcome" where
  "compile_conditions_unchecked fuel h fb rule = (\<lambda>(salience, complexity) conditions vm c r.
     let first_new = next_beta_node (r_beta r);
         root_only = fact_base_is_empty fb \<and> token_count (r_tokens r) = 1;
         existing = (if root_only then length (root_children (r_beta r)) else 0);
         st = \<lparr>cs_compiler = c, cs_rete = r, cs_bound = symbol_set_new, cs_memories = []\<rparr>
     in and_then (compile_each h fb rule vm False conditions (root_id (r_beta r)) st) (\<lambda>(parent, st).
        and_then (create_terminal_node parent rule salience complexity (r_beta (cs_rete st))) (\<lambda>(terminal, net).
        let r = (cs_rete st)\<lparr>r_beta := net\<rparr>
        in and_then
             (if root_only then activate_root_children fuel h fb (drop existing (root_children (r_beta r))) r
              else initialize_beta_frontier fuel h fb first_new r)
             (\<lambda>r. Inr (\<lparr>result_rule = rule, terminal_node = terminal, alpha_memories = cs_memories st,
                 result_vars = vm\<rparr>, cs_compiler st, r)))))"

definition ensure_capacity :: "beta_network \<Rightarrow> nat \<Rightarrow> unit compiled" where
  "ensure_capacity net required =
     (case ensure_node_capacity net required of
        Inl available \<Rightarrow> Inl (ResourceLimit RemainingNodeIds required available) | Inr _ \<Rightarrow> Inr ())"

definition plan_conditions :: "salience \<Rightarrow> compilable_condition list \<Rightarrow> compilation_plan compiled" where
  "plan_conditions salience conditions =
     try_then (validate_conditions conditions) (\<lambda>_.
     try_then (prepare_var_map conditions) (\<lambda>vm.
       Inr \<lparr>plan_salience = salience, plan_complexity = 0, planned = conditions, plan_vars = vm\<rparr>))"

definition install_condition_plan ::
  "nat \<Rightarrow> host \<Rightarrow> fact_base \<Rightarrow> rule_id \<Rightarrow> compilation_plan \<Rightarrow> rete_compiler \<Rightarrow> rete \<Rightarrow>
   (compile_result \<times> rete_compiler \<times> rete) outcome" where
  "install_condition_plan fuel h fb rule plan c r =
     compile_conditions_unchecked fuel h fb rule (plan_salience plan, plan_complexity plan) (planned plan) (plan_vars plan) c r"

text \<open>
  Compilation answers with an error, the compiler and the network as they were, or with what it
  installed.
\<close>

type_synonym compilation = "(compile_result compiled \<times> rete_compiler \<times> rete) outcome"

definition compile_with :: "var_map compiled \<Rightarrow> (var_map \<Rightarrow> (compile_result \<times> rete_compiler \<times> rete) outcome) \<Rightarrow> rete_compiler \<Rightarrow> rete \<Rightarrow> compilation" where
  "compile_with prepared install c r =
     (case prepared of
        Inl e \<Rightarrow> Inr (Inl e, c, r)
      | Inr vm \<Rightarrow> and_then (install vm) (\<lambda>(installed, c, r). Inr (Inr installed, c, r)))"

definition compile_conditions ::
  "nat \<Rightarrow> host \<Rightarrow> fact_base \<Rightarrow> rule_id \<Rightarrow> salience \<Rightarrow> compilable_condition list \<Rightarrow> rete_compiler \<Rightarrow> rete \<Rightarrow> compilation" where
  "compile_conditions fuel h fb rule salience conditions c r =
     compile_with
       (try_then (validate_conditions conditions) (\<lambda>_.
        try_then (prepare_var_map conditions) (\<lambda>vm.
        try_then (ensure_capacity (r_beta r) (maximum_new_beta_nodes conditions)) (\<lambda>_. Inr vm))))
       (\<lambda>vm. compile_conditions_unchecked fuel h fb rule (salience, 0) conditions vm c r) c r"

fun each_valid :: "compilable_pattern list \<Rightarrow> unit compiled" where
  "each_valid [] = Inr ()"
| "each_valid (pat # rest) = try_then (validate_pattern_tests pat) (\<lambda>_. each_valid rest)"

definition compile_rule ::
  "nat \<Rightarrow> host \<Rightarrow> fact_base \<Rightarrow> compilable_rule \<Rightarrow> rete_compiler \<Rightarrow> rete \<Rightarrow> compilation" where
  "compile_rule fuel h fb rule c r =
     (let patterns = rule_patterns rule; conditions = map CondPattern patterns
      in compile_with
           (try_then (if patterns = [] then Inl EmptyRule else Inr ()) (\<lambda>_.
            try_then (check_limit RuleConditions (length patterns) max_rule_conditions) (\<lambda>_.
            try_then (each_valid patterns) (\<lambda>_.
            try_then (validate_rule_patterns patterns) (\<lambda>_.
            try_then (prepare_var_map conditions) (\<lambda>vm.
            try_then (ensure_capacity (r_beta r) (maximum_new_beta_nodes conditions)) (\<lambda>_. Inr vm)))))))
           (\<lambda>vm. compile_conditions_unchecked fuel h fb (rule_number rule) (rule_salience rule, 0) conditions vm c r) c r)"

end
