(* ===== verification/Alpha_Paths.thy ===== *)
theory Alpha_Paths
  imports Alpha_Network
begin

text \<open>
  The node graph of the alpha network is a forest with entry nodes as roots. Each node has one
  path, an entry type and the tests down to it; propagation visits each node whose path the fact
  matches exactly once, and fuel equal to the number of nodes is enough.
\<close>

section \<open>Forests\<close>

definition child_of :: "alpha_node list \<Rightarrow> nat \<Rightarrow> nat \<Rightarrow> bool" where
  "child_of ns n c \<longleftrightarrow> n < length ns \<and> c \<in> unat ` set (node_children (ns ! n))"

definition forest :: "alpha_node list \<Rightarrow> bool" where
  "forest ns \<longleftrightarrow>
     (\<forall>n c. child_of ns n c \<longrightarrow> n < c \<and> c < length ns \<and> (\<exists>t cs m. ns ! c = TestNode t cs m)) \<and>
     (\<forall>n n' c. child_of ns n c \<longrightarrow> child_of ns n' c \<longrightarrow> n = n') \<and>
     (\<forall>n < length ns. distinct (node_children (ns ! n)))"

lemma forestD:
  "forest ns \<Longrightarrow> child_of ns n c \<Longrightarrow> n < c" "forest ns \<Longrightarrow> child_of ns n c \<Longrightarrow> c < length ns"
  "forest ns \<Longrightarrow> child_of ns n c \<Longrightarrow> \<exists>t cs m. ns ! c = TestNode t cs m"
  "forest ns \<Longrightarrow> child_of ns n c \<Longrightarrow> child_of ns n' c \<Longrightarrow> n = n'"
  "forest ns \<Longrightarrow> n < length ns \<Longrightarrow> distinct (node_children (ns ! n))"
  by (auto simp: forest_def)

inductive path :: "alpha_node list \<Rightarrow> nat \<Rightarrow> alpha_entry_type \<Rightarrow> constant_test list \<Rightarrow> bool" for ns where
  path_entry: "n < length ns \<Longrightarrow> ns ! n = EntryNode e cs m \<Longrightarrow> path ns n e []"
| path_test: "path ns p e ts \<Longrightarrow> child_of ns p c \<Longrightarrow> c < length ns \<Longrightarrow> ns ! c = TestNode t cs m \<Longrightarrow> path ns c e (ts @ [t])"

inductive_cases pathE: "path ns n e ts"

lemma path_less: "path ns n e ts \<Longrightarrow> n < length ns"
  by (induction rule: path.induct) auto

lemma path_unique: "path ns n e ts \<Longrightarrow> forest ns \<Longrightarrow> path ns n e' ts' \<Longrightarrow> e' = e \<and> ts' = ts"
proof (induction arbitrary: e' ts' rule: path.induct)
  case (path_entry n e cs m)
  from path_entry(4) show ?case by (rule pathE) (use path_entry in auto)
next
  case (path_test p e ts c t cs m)
  from path_test.prems(2) show ?case
  proof (rule pathE)
    fix p' ts'' t' cs' m' assume *: "ts' = ts'' @ [t']" "path ns p' e' ts''" "child_of ns p' c" "ns ! c = TestNode t' cs' m'"
    have "p' = p" using forestD(4) [OF path_test.prems(1) *(3) path_test.hyps(2)] .
    with path_test.IH [OF path_test.prems(1)] * path_test.hyps(4) show ?thesis by auto
  qed (use path_test.hyps in auto)
qed

section \<open>Visited nodes\<close>

fun visited :: "alpha_node list \<Rightarrow> fact \<Rightarrow> nat \<Rightarrow> nat \<Rightarrow> nat list" where
  "visited ns f 0 n = []"
| "visited ns f (Suc fuel) n =
     (if n < length ns \<and> node_passes f (ns ! n)
      then n # concat (map (\<lambda>c. visited ns f fuel (unat c)) (node_children (ns ! n)))
      else [])"

inductive reaches :: "alpha_node list \<Rightarrow> fact \<Rightarrow> nat \<Rightarrow> nat \<Rightarrow> bool" for ns f where
  reaches_self: "n < length ns \<Longrightarrow> node_passes f (ns ! n) \<Longrightarrow> reaches ns f n n"
| reaches_step: "node_passes f (ns ! n) \<Longrightarrow> child_of ns n c \<Longrightarrow> reaches ns f c k \<Longrightarrow> reaches ns f n k"

inductive_cases reachesE: "reaches ns f n k"

lemma reaches_le: "reaches ns f n k \<Longrightarrow> forest ns \<Longrightarrow> n \<le> k \<and> k < length ns"
  by (induction rule: reaches.induct) (auto dest: forestD(1))

lemma reaches_passes: "reaches ns f n k \<Longrightarrow> n < length ns \<and> node_passes f (ns ! n)"
  by (induction rule: reaches.induct) (auto simp: child_of_def)

lemma set_visited:
  assumes "forest ns" "length ns - n < fuel"
  shows "set (visited ns f fuel n) = {k. reaches ns f n k}"
  using assms(2)
proof (induction fuel arbitrary: n)
  case (Suc fuel)
  show ?case
  proof (cases "n < length ns \<and> node_passes f (ns ! n)")
    case True
    have "set (visited ns f fuel (unat c)) = {k. reaches ns f (unat c) k}" if "c \<in> set (node_children (ns ! n))" for c
    proof (rule Suc.IH)
      have "n < unat c" using that True by (intro forestD(1) [OF assms(1)]) (auto simp: child_of_def)
      then show "length ns - unat c < fuel" using Suc.prems True by linarith
    qed
    then have "set (visited ns f (Suc fuel) n) = insert n {k. \<exists>c. child_of ns n c \<and> reaches ns f c k}"
      using True by (auto simp: child_of_def)
    also have "\<dots> = {k. reaches ns f n k}"
      using True by (auto intro: reaches.intros elim: reachesE)
    finally show ?thesis .
  next
    case False
    then show ?thesis by (auto dest: reaches_passes)
  qed
qed simp

text \<open>Two nodes of which one reaches what the other reaches are on one branch.\<close>

lemma reaches_parent:
  assumes "reaches ns f n k" "forest ns" "n \<noteq> k"
  shows "\<exists>p. child_of ns p k \<and> reaches ns f n p"
  using assms
proof (induction rule: reaches.induct)
  case (reaches_step n c k)
  show ?case
  proof (cases "c = k")
    case True
    with reaches_step show ?thesis by (auto simp: child_of_def intro!: exI [of _ n] reaches_self)
  next
    case False
    with reaches_step obtain p where "child_of ns p k" "reaches ns f c p" by blast
    with reaches_step.hyps show ?thesis by (blast intro: reaches.reaches_step)
  qed
qed simp

lemma reaches_siblings:
  assumes "forest ns" "child_of ns n c" "child_of ns n c'" "reaches ns f c k" "reaches ns f c' k"
  shows "c = c'"
  using assms(4,5)
proof (induction k arbitrary: rule: less_induct)
  case (less k)
  have step: "c = c'" if "child_of ns n c" "child_of ns n c'" "c = k" "reaches ns f c' k" for c c'
  proof (rule ccontr)
    assume "c \<noteq> c'"
    with that reaches_parent [OF that(4) assms(1)] obtain p where "child_of ns p k" "reaches ns f c' p" by auto
    then have "reaches ns f c' n" using forestD(4) [OF assms(1)] that by blast
    then have "c' \<le> n" using reaches_le assms(1) by blast
    with forestD(1) [OF assms(1) that(2)] show False by simp
  qed
  show ?case
  proof (cases "c = k \<or> c' = k")
    case True
    then show ?thesis using step [of c c'] step [of c' c] assms(2,3) less.prems by blast
  next
    case False
    then obtain p p' where "child_of ns p k" "reaches ns f c p" "child_of ns p' k" "reaches ns f c' p'"
      using reaches_parent [OF _ assms(1)] less.prems by meson
    then show ?thesis
      using less.IH [of p] forestD(1,4) [OF assms(1)] by metis
  qed
qed

lemma distinct_concat_map:
  assumes "distinct cs" "\<And>c. c \<in> set cs \<Longrightarrow> distinct (g c)"
    and "\<And>c d. c \<in> set cs \<Longrightarrow> d \<in> set cs \<Longrightarrow> c \<noteq> d \<Longrightarrow> set (g c) \<inter> set (g d) = {}"
  shows "distinct (concat (map g cs))"
  using assms
proof (induction cs)
  case (Cons c cs)
  then have "set (g c) \<inter> set (concat (map g cs)) = {}" by fastforce
  with Cons show ?case by simp
qed simp

lemma distinct_visited:
  assumes "forest ns" "length ns - n < fuel"
  shows "distinct (visited ns f fuel n)"
  using assms(2)
proof (induction fuel arbitrary: n)
  case (Suc fuel)
  show ?case
  proof (cases "n < length ns \<and> node_passes f (ns ! n)")
    case True
    let ?cs = "node_children (ns ! n)"
    have child: "child_of ns n (unat c)" if "c \<in> set ?cs" for c using that True by (auto simp: child_of_def)
    then have fuel: "length ns - unat c < fuel" if "c \<in> set ?cs" for c
      using forestD(1) [OF assms(1) child [OF that]] Suc.prems True by linarith
    have sets: "set (visited ns f fuel (unat c)) = {k. reaches ns f (unat c) k}" if "c \<in> set ?cs" for c
      by (rule set_visited [OF assms(1) fuel [OF that]])
    have "distinct (concat (map (\<lambda>c. visited ns f fuel (unat c)) ?cs))"
    proof (rule distinct_concat_map)
      show "distinct ?cs" using forestD(5) [OF assms(1)] True by blast
      show "set (visited ns f fuel (unat c)) \<inter> set (visited ns f fuel (unat d)) = {}"
        if "c \<in> set ?cs" "d \<in> set ?cs" "c \<noteq> d" for c d
        using reaches_siblings [OF assms(1) child [OF that(1)] child [OF that(2)]] sets that
        by (auto simp: word_unat_eq_iff)
    qed (use Suc.IH fuel in blast)
    moreover have "\<not> reaches ns f (unat c) n" if "c \<in> set ?cs" for c
      using reaches_le [OF _ assms(1)] forestD(1) [OF assms(1) child [OF that]] by fastforce
    ultimately show ?thesis using True sets by auto
  qed auto
qed simp

lemma list_get_conv: "list_get xs n = (if n < length xs then Some (xs ! n) else None)"
  by (simp add: list_get_def)

lemma fold_bind_Some:
  assumes "\<And>c st. c \<in> set cs \<Longrightarrow> g c st = Some (h c st)"
  shows "fold (\<lambda>c st. Option.bind st (\<lambda>st. g c st)) cs (Some st) = Some (fold h cs st)"
  using assms by (induction cs arbitrary: st) auto

lemma fold_concat_map: "fold g (concat (map h cs)) st = fold (\<lambda>c. fold g (h c)) cs st"
  by (induction cs arbitrary: st) auto

lemma propagate_visited:
  assumes "forest ns" "length ns - unat n < fuel"
  shows "propagate ns i f fuel n st = Some (fold (\<lambda>k. enter_memory i f (ns ! k)) (visited ns f fuel (unat n)) st)"
  using assms(2)
proof (induction fuel arbitrary: n st)
  case (Suc fuel)
  show ?case
  proof (cases "unat n < length ns \<and> node_passes f (ns ! unat n)")
    case True
    have "propagate ns i f fuel c st = Some (fold (\<lambda>k. enter_memory i f (ns ! k)) (visited ns f fuel (unat c)) st)"
      if "c \<in> set (node_children (ns ! unat n))" for c st
    proof (rule Suc.IH)
      have "unat n < unat c" using that True by (intro forestD(1) [OF assms(1)]) (auto simp: child_of_def)
      then show "length ns - unat c < fuel" using Suc.prems True by linarith
    qed
    from fold_bind_Some [OF this] True show ?thesis
      by (simp add: list_get_conv fold_concat_map)
  qed (auto simp: list_get_conv)
qed simp

section \<open>Visited nodes and paths\<close>

lemma reaches_extend:
  "reaches ns f n p \<Longrightarrow> child_of ns p c \<Longrightarrow> c < length ns \<Longrightarrow> node_passes f (ns ! c) \<Longrightarrow> reaches ns f n c"
  by (induction rule: reaches.induct) (auto intro: reaches.intros)

lemma path_reaches:
  assumes "path ns n e ts" "\<forall>t \<in> set ts. evaluate_test f t"
    and "\<And>k cs m. k < length ns \<Longrightarrow> ns ! k = EntryNode e cs m \<Longrightarrow> k = root"
  shows "reaches ns f root n"
  using assms
proof (induction rule: path.induct)
  case (path_entry n e cs m)
  then show ?case using reaches_self [of n ns f] by (fastforce simp: node_passes_def)
next
  case (path_test p e ts c t cs m)
  then show ?case by (intro reaches_extend [OF _ path_test.hyps(2,3)]) (auto simp: node_passes_def)
qed

lemma reaches_path:
  assumes "reaches ns f n k" "path ns n e ts" "\<forall>t \<in> set ts. evaluate_test f t" "forest ns"
  shows "\<exists>ts'. path ns k e ts' \<and> (\<forall>t \<in> set ts'. evaluate_test f t)"
  using assms
proof (induction arbitrary: ts rule: reaches.induct)
  case (reaches_step n c k)
  obtain t cs m where c: "ns ! c = TestNode t cs m" using forestD(3) [OF \<open>forest ns\<close> reaches_step.hyps(2)] by blast
  have "path ns c e (ts @ [t])"
    using reaches_step.prems(1) reaches_step.hyps(2) forestD(2) [OF \<open>forest ns\<close>] c by (blast intro: path.path_test)
  moreover have "evaluate_test f t"
    using reaches_passes [OF reaches_step.hyps(3)] c by (simp add: node_passes_def)
  ultimately show ?case using reaches_step.IH [of "ts @ [t]"] reaches_step.prems by auto
qed blast

lemma visited_iff_matches:
  assumes "forest ns" "root < length ns" "ns ! root = EntryNode (entry_type_of f) cs m"
    and "\<And>k cs m. k < length ns \<Longrightarrow> ns ! k = EntryNode (entry_type_of f) cs m \<Longrightarrow> k = root"
    and "path ns n e ts" "length ns < fuel"
  shows "n \<in> set (visited ns f fuel root) \<longleftrightarrow> path_matches e ts f"
proof -
  have entry: "fact_matches_entry_type f e \<longleftrightarrow> e = entry_type_of f" for e
    by (cases f; cases e) (auto simp: fact_matches_entry_type_def entry_type_of_def)
  have "n \<in> set (visited ns f fuel root) \<longleftrightarrow> reaches ns f root n"
    using assms(6) by (subst set_visited [OF assms(1)]) auto
  also have "\<dots> \<longleftrightarrow> path_matches e ts f"
  proof
    assume "reaches ns f root n"
    then obtain ts' where "path ns n (entry_type_of f) ts'" "\<forall>t \<in> set ts'. evaluate_test f t"
      using reaches_path [OF _ path_entry [OF assms(2,3)] _ assms(1), of f n] by auto
    with path_unique [OF assms(5,1)] show "path_matches e ts f" by (auto simp: path_matches_def entry)
  next
    assume "path_matches e ts f"
    with assms(4,5) show "reaches ns f root n" by (intro path_reaches) (auto simp: path_matches_def entry)
  qed
  finally show ?thesis .
qed

end
