(* ===== verification/Alpha_Correct.thy ===== *)
theory Alpha_Correct
  imports Alpha_Paths
begin

text \<open>
  The alpha network is exact: at every moment each memory holds, in order of assertion, exactly the
  live facts that match its path, whether its nodes existed when a fact was asserted or were built
  and backfilled later; and the reverse index lists exactly the memories a fact is in.
\<close>

section \<open>Memories\<close>

lemma mem_index_inj [simp]: "mem_index m = mem_index m' \<longleftrightarrow> m = m'"
  by (cases m; cases m') (simp add: word_unat_eq_iff)

lemma length_list_modify [simp]: "length (list_modify k g xs) = length xs"
  by (simp add: list_modify_def)

lemma nth_list_modify: "j < length xs \<Longrightarrow> list_modify k g xs ! j = (if j = k then g (xs ! j) else xs ! j)"
  by (auto simp: list_modify_def)

lemma length_fold_modify [simp]: "length (fold (\<lambda>m. list_modify (mem_index m) g) ms mems) = length mems"
  by (induction ms arbitrary: mems) auto

lemma nth_fold_modify:
  "distinct ms \<Longrightarrow> j < length mems \<Longrightarrow>
    fold (\<lambda>m. list_modify (mem_index m) g) ms mems ! j = (if j \<in> mem_index ` set ms then g (mems ! j) else mems ! j)"
  by (induction ms arbitrary: mems) (auto simp: nth_list_modify image_iff)

definition entered :: "alpha_node list \<Rightarrow> nat list \<Rightarrow> alpha_memory_id list" where
  "entered ns ks = List.map_filter (\<lambda>k. node_memory (ns ! k)) ks"

lemma set_entered: "m \<in> set (entered ns ks) \<longleftrightarrow> (\<exists>k \<in> set ks. node_memory (ns ! k) = Some m)"
  by (auto simp: entered_def List.map_filter_def image_iff)

lemma distinct_entered:
  "distinct ks \<Longrightarrow> (\<And>k k' m. k \<in> set ks \<Longrightarrow> k' \<in> set ks \<Longrightarrow> node_memory (ns ! k) = Some m \<Longrightarrow>
    node_memory (ns ! k') = Some m \<Longrightarrow> k = k') \<Longrightarrow> distinct (entered ns ks)"
proof (induction ks)
  case (Cons k ks)
  have "distinct ks" using Cons.prems(1) by simp
  then have "distinct (entered ns ks)"
    by (rule Cons.IH) (rule Cons.prems(2), simp_all)
  moreover have "m \<notin> set (entered ns ks)" if m: "node_memory (ns ! k) = Some m" for m
  proof
    assume "m \<in> set (entered ns ks)"
    then obtain k' where k': "k' \<in> set ks" "node_memory (ns ! k') = Some m" by (auto simp: set_entered)
    have "k = k'" by (rule Cons.prems(2)) (use m k' in simp_all)
    with k' Cons.prems(1) show False by simp
  qed
  ultimately show ?case
    by (cases "node_memory (ns ! k)") (simp_all add: entered_def List.map_filter_simps)
qed (simp add: entered_def List.map_filter_simps)

lemma fold_enter:
  assumes "\<And>k m. k \<in> set ks \<Longrightarrow> node_memory (ns ! k) = Some m \<Longrightarrow> mem_index m < length mems"
  shows "fold (\<lambda>k. enter_memory i f (ns ! k)) ks (mems, acc) =
    (fold (\<lambda>m. list_modify (mem_index m) (alpha_insert i f)) (entered ns ks) mems, acc @ entered ns ks)"
  using assms
proof (induction ks arbitrary: mems acc)
  case (Cons k ks)
  have tail: "fold (\<lambda>k. enter_memory i f (ns ! k)) ks (mems', acc') =
      (fold (\<lambda>m. list_modify (mem_index m) (alpha_insert i f)) (entered ns ks) mems', acc' @ entered ns ks)"
    if "length mems' = length mems" for mems' acc'
    by (rule Cons.IH) (use Cons.prems that in auto)
  show ?case
  proof (cases "node_memory (ns ! k)")
    case None
    then have "enter_memory i f (ns ! k) (mems, acc) = (mems, acc)" "entered ns (k # ks) = entered ns ks"
      by (simp_all add: enter_memory_def entered_def List.map_filter_simps)
    with tail show ?thesis by simp
  next
    case (Some m)
    then have "enter_memory i f (ns ! k) (mems, acc) =
        (list_modify (mem_index m) (alpha_insert i f) mems, acc @ [m])" "entered ns (k # ks) = m # entered ns ks"
      using Cons.prems [of k m] by (simp_all add: enter_memory_def entered_def List.map_filter_simps list_modify_def)
    with tail show ?thesis by simp
  qed
qed (simp add: entered_def List.map_filter_simps)

section \<open>The invariant\<close>

definition net_shape :: "alpha_network \<Rightarrow> bool" where
  "net_shape net \<longleftrightarrow> forest (nodes net) \<and>
     (\<forall>n < length (nodes net). \<exists>e ts. path (nodes net) n e ts) \<and>
     next_node_id net = of_nat (length (nodes net)) \<and> length (nodes net) \<le> 2 ^ 32 \<and>
     next_memory_id net = of_nat (length (memories net)) \<and> length (memories net) \<le> 2 ^ 32 \<and>
     (\<forall>e n. entry_nodes net e = Some n \<longleftrightarrow>
        unat n < length (nodes net) \<and> (\<exists>cs m. nodes net ! unat n = EntryNode e cs m)) \<and>
     (\<forall>n < length (nodes net). \<forall>m. node_memory (nodes net ! n) = Some m \<longrightarrow> mem_index m < length (memories net)) \<and>
     (\<forall>n n' m. n < length (nodes net) \<longrightarrow> n' < length (nodes net) \<longrightarrow> node_memory (nodes net ! n) = Some m \<longrightarrow>
        node_memory (nodes net ! n') = Some m \<longrightarrow> n = n') \<and>
     (\<forall>m. mem_index m < length (memories net) \<longrightarrow> (\<exists>n < length (nodes net). node_memory (nodes net ! n) = Some m))"

definition holders :: "alpha_network \<Rightarrow> fact_id \<Rightarrow> alpha_memory_id set" where
  "holders net i = {m. mem_index m < length (memories net) \<and> i \<in> set (mem_facts (memories net ! mem_index m))}"

definition lists_holders :: "alpha_network \<Rightarrow> bool" where
  "lists_holders net \<longleftrightarrow> (\<forall>i. distinct (memories_containing_fact net i) \<and> fact_to_memories net i \<noteq> Some [] \<and>
     set (memories_containing_fact net i) = holders net i)"

definition net_filled :: "(fact_id \<Rightarrow> fact) \<Rightarrow> fact_id list \<Rightarrow> alpha_network \<Rightarrow> bool" where
  "net_filled content live net \<longleftrightarrow> distinct live \<and>
     (\<forall>am \<in> set (memories net). alpha_ok content am) \<and>
     (\<forall>n m e ts. path (nodes net) n e ts \<longrightarrow> node_memory (nodes net ! n) = Some m \<longrightarrow>
        mem_facts (memories net ! mem_index m) = filter (\<lambda>i. path_matches e ts (content i)) live) \<and>
     lists_holders net"

definition net_ok :: "(fact_id \<Rightarrow> fact) \<Rightarrow> fact_id list \<Rightarrow> alpha_network \<Rightarrow> bool" where
  "net_ok content live net \<longleftrightarrow> net_shape net \<and> net_filled content live net"

lemma net_shapeD:
  assumes "net_shape net"
  shows "forest (nodes net)" "n < length (nodes net) \<Longrightarrow> \<exists>e ts. path (nodes net) n e ts"
    "next_node_id net = of_nat (length (nodes net))" "length (nodes net) \<le> 2 ^ 32"
    "next_memory_id net = of_nat (length (memories net))" "length (memories net) \<le> 2 ^ 32"
    "entry_nodes net e = Some k \<longleftrightarrow> unat k < length (nodes net) \<and> (\<exists>cs m. nodes net ! unat k = EntryNode e cs m)"
    "n < length (nodes net) \<Longrightarrow> node_memory (nodes net ! n) = Some m \<Longrightarrow> mem_index m < length (memories net)"
    "n < length (nodes net) \<Longrightarrow> n' < length (nodes net) \<Longrightarrow> node_memory (nodes net ! n) = Some m \<Longrightarrow>
      node_memory (nodes net ! n') = Some m \<Longrightarrow> n = n'"
    "mem_index m < length (memories net) \<Longrightarrow> \<exists>n < length (nodes net). node_memory (nodes net ! n) = Some m"
  using assms unfolding net_shape_def by blast+

lemma holder_path:
  assumes "net_ok content live net" "m \<in> holders net i"
  obtains n e ts where "path (nodes net) n e ts" "node_memory (nodes net ! n) = Some m" "path_matches e ts (content i)" "i \<in> set live"
proof -
  from assms obtain n where n: "n < length (nodes net)" "node_memory (nodes net ! n) = Some m"
    using net_shapeD(10) by (force simp: net_ok_def holders_def)
  then obtain e ts where "path (nodes net) n e ts" using assms(1) net_shapeD(2) by (force simp: net_ok_def)
  with n assms that show ?thesis by (force simp: net_ok_def net_filled_def holders_def)
qed

lemma net_ok_new: "net_ok content [] alpha_network_new"
proof -
  have "\<not> path [] n e ts" for n e ts by (auto dest: path_less)
  then show ?thesis
    by (simp add: net_ok_def net_shape_def net_filled_def alpha_network_new_def forest_def child_of_def
        lists_holders_def memories_containing_fact_def holders_def)
qed

section \<open>Assertion and retraction\<close>

text \<open>A change of memories only, with what it does to the facts of each memory.\<close>

lemma net_shape_memories:
  "net_shape net \<Longrightarrow> nodes net' = nodes net \<Longrightarrow> entry_nodes net' = entry_nodes net \<Longrightarrow>
    next_node_id net' = next_node_id net \<Longrightarrow> next_memory_id net' = next_memory_id net \<Longrightarrow>
    length (memories net') = length (memories net) \<Longrightarrow> net_shape net'"
  by (simp add: net_shape_def)

lemma entry_root:
  assumes "net_shape net" "path (nodes net) n e ts"
  shows "\<exists>k. entry_nodes net e = Some k"
  using assms(2)
proof (induction rule: path.induct)
  case (path_entry n e cs m)
  then have "unat (of_nat n :: u32) = n"
    using net_shapeD(4) [OF assms(1)] by (simp add: unsigned_of_nat take_bit_nat_eq_self)
  with path_entry show ?case using net_shapeD(7) [OF assms(1), of e "of_nat n"] by auto
qed

lemma assert_result:
  assumes "net_shape net" "length (nodes net) < fuel"
  obtains ms where "alpha_assert_fact fuel i f net =
      Some (ms, net\<lparr>memories := fold (\<lambda>m. list_modify (mem_index m) (alpha_insert i f)) ms (memories net),
        fact_to_memories := (if ms \<noteq> [] then (fact_to_memories net)(i \<mapsto> ms) else fact_to_memories net)\<rparr>)"
    and "distinct ms" and "\<And>m. m \<in> set ms \<Longrightarrow> mem_index m < length (memories net)"
    and "\<And>n m e ts. path (nodes net) n e ts \<Longrightarrow> node_memory (nodes net ! n) = Some m \<Longrightarrow>
      m \<in> set ms \<longleftrightarrow> path_matches e ts f"
proof (cases "entry_nodes net (entry_type_of f)")
  case None
  have "fact_matches_entry_type f e \<Longrightarrow> e = entry_type_of f" for e
    by (cases f; cases e) (auto simp: fact_matches_entry_type_def entry_type_of_def)
  with None entry_root [OF assms(1)] have "\<not> path_matches e ts f" if "path (nodes net) n e ts" for n e ts
    using that by (fastforce simp: path_matches_def)
  with None show ?thesis by (intro that [of "[]"]) (auto simp: alpha_assert_fact_def)
next
  case (Some root)
  note shape = net_shapeD [OF assms(1)]
  define vs where "vs = visited (nodes net) f fuel (unat root)"
  let ?ms = "entered (nodes net) vs"
  have fuel: "length (nodes net) - unat root < fuel" using assms(2) by linarith
  have bound: "k < length (nodes net)" if "k \<in> set vs" for k
    using that set_visited [OF shape(1) fuel] reaches_le [OF _ shape(1)] by (auto simp: vs_def)
  have "distinct vs" unfolding vs_def by (rule distinct_visited [OF shape(1) fuel])
  then have distinct: "distinct ?ms"
    by (rule distinct_entered) (use bound shape(9) in blast)
  have "propagate (nodes net) i f fuel root (memories net, []) =
      Some (fold (\<lambda>m. list_modify (mem_index m) (alpha_insert i f)) ?ms (memories net), ?ms)"
    unfolding propagate_visited [OF shape(1) fuel] vs_def [symmetric]
    by (subst fold_enter) (use bound shape(8) in auto)
  moreover have "m \<in> set ?ms \<longleftrightarrow> path_matches e ts f"
    if path: "path (nodes net) n e ts" and m: "node_memory (nodes net ! n) = Some m" for n m e ts
  proof -
    obtain cs mem where root: "unat root < length (nodes net)" "nodes net ! unat root = EntryNode (entry_type_of f) cs mem"
      using Some shape(7) by blast
    have unique: "k = unat root" if "k < length (nodes net)" "nodes net ! k = EntryNode (entry_type_of f) cs mem" for k cs mem
    proof -
      have "unat (of_nat k :: u32) = k" using that(1) shape(4) by (simp add: unsigned_of_nat take_bit_nat_eq_self)
      then have "entry_nodes net (entry_type_of f) = Some (of_nat k)" using that shape(7) by auto
      with Some \<open>unat (of_nat k :: u32) = k\<close> show ?thesis by simp
    qed
    have "m \<in> set ?ms \<longleftrightarrow> n \<in> set vs"
      using m shape(9) bound path_less [OF path] by (auto simp: set_entered)
    also have "\<dots> \<longleftrightarrow> path_matches e ts f"
      unfolding vs_def by (rule visited_iff_matches [OF shape(1) root unique path assms(2)])
    finally show ?thesis .
  qed
  moreover have "mem_index m < length (memories net)" if "m \<in> set ?ms" for m
    using that bound shape(8) by (auto simp: set_entered)
  ultimately show ?thesis
    using Some distinct by (intro that [of ?ms]) (auto simp: alpha_assert_fact_def)
qed

lemma nth_memory_assert:
  assumes "net_ok content live net" "i \<notin> set live" "distinct ms" "mem_index m < length (memories net)"
  shows "mem_facts (fold (\<lambda>m. list_modify (mem_index m) (alpha_insert i f)) ms (memories net) ! mem_index m) =
    mem_facts (memories net ! mem_index m) @ (if m \<in> set ms then [i] else [])"
proof -
  have "i \<notin> set (mem_facts (memories net ! mem_index m))"
    using holder_path [OF assms(1), of m i] assms(2,4) by (auto simp: holders_def)
  then show ?thesis using assms(3,4) by (auto simp: nth_fold_modify image_iff)
qed

lemma net_ok_assert:
  assumes ok: "net_ok content live net" and new: "i \<notin> set live" and fuel: "length (nodes net) < fuel"
  obtains ms net' where "alpha_assert_fact fuel i (content i) net = Some (ms, net')"
    and "net_ok content (live @ [i]) net'" "distinct ms" "set ms = holders net' i" "nodes net' = nodes net"
proof -
  have shape: "net_shape net" and filled: "net_filled content live net" using ok by (simp_all add: net_ok_def)
  obtain ms where res: "alpha_assert_fact fuel i (content i) net =
      Some (ms, net\<lparr>memories := fold (\<lambda>m. list_modify (mem_index m) (alpha_insert i (content i))) ms (memories net),
        fact_to_memories := (if ms \<noteq> [] then (fact_to_memories net)(i \<mapsto> ms) else fact_to_memories net)\<rparr>)"
    and ms: "distinct ms" "\<And>m. m \<in> set ms \<Longrightarrow> mem_index m < length (memories net)"
    and exact: "\<And>n m e ts. path (nodes net) n e ts \<Longrightarrow> node_memory (nodes net ! n) = Some m \<Longrightarrow>
      m \<in> set ms \<longleftrightarrow> path_matches e ts (content i)"
    using assert_result [OF shape fuel, of i "content i"] by blast
  let ?net = "net\<lparr>memories := fold (\<lambda>m. list_modify (mem_index m) (alpha_insert i (content i))) ms (memories net),
        fact_to_memories := (if ms \<noteq> [] then (fact_to_memories net)(i \<mapsto> ms) else fact_to_memories net)\<rparr>"
  note nth = nth_memory_assert [OF ok new ms(1), of _ "content i"]
  have none: "holders net i = {}" using holder_path [OF ok] new by blast
  have holders: "holders ?net j = (if j = i then set ms else holders net j)" for j
    using none ms(2) by (auto simp: holders_def nth split: if_splits)
  have lists: "lists_holders net" using filled by (simp add: net_filled_def)
  then have "set (memories_containing_fact net i) = {}" "fact_to_memories net i \<noteq> Some []"
    using none by (simp_all add: lists_holders_def)
  then have "fact_to_memories net i = None"
    by (cases "fact_to_memories net i") (auto simp: memories_containing_fact_def)
  then have "memories_containing_fact ?net j = (if j = i then ms else memories_containing_fact net j)"
    "fact_to_memories ?net j = Some [] \<Longrightarrow> fact_to_memories net j = Some []" for j
    by (auto simp: memories_containing_fact_def split: if_splits)
  with lists ms(1) have "lists_holders ?net"
    unfolding lists_holders_def holders by auto
  moreover have "alpha_ok content am" if "am \<in> set (memories ?net)" for am
  proof -
    from that obtain j where j: "j < length (memories net)" "am = memories ?net ! j" by (auto simp: in_set_conv_nth)
    then have "alpha_ok content (memories net ! j)" using filled by (simp add: net_filled_def)
    with j ms(1) show ?thesis by (auto simp: nth_fold_modify alpha_ok_insert)
  qed
  moreover have "mem_facts (memories ?net ! mem_index m) = filter (\<lambda>i. path_matches e ts (content i)) (live @ [i])"
    if "path (nodes net) n e ts" "node_memory (nodes net ! n) = Some m" for n m e ts
    using that filled exact [OF that] net_shapeD(8) [OF shape path_less] by (simp add: nth net_filled_def)
  ultimately have "net_filled content (live @ [i]) ?net"
    using filled new by (auto simp: net_filled_def)
  moreover have "net_shape ?net" by (rule net_shape_memories [OF shape]) simp_all
  ultimately show ?thesis
    using that res ms(1) holders [of i] by (simp add: net_ok_def)
qed

text \<open>Steps that change each memory by a function and keep the reverse index in step with it.\<close>

lemma net_ok_memories:
  assumes ok: "net_ok content live net"
    and same: "nodes net' = nodes net" "entry_nodes net' = entry_nodes net" "next_node_id net' = next_node_id net"
      "next_memory_id net' = next_memory_id net" "length (memories net') = length (memories net)"
    and live: "live' = filter P live"
    and facts: "\<And>j. j < length (memories net) \<Longrightarrow>
      mem_facts (memories net' ! j) = filter P (mem_facts (memories net ! j)) \<and> alpha_ok content (memories net' ! j)"
    and index: "\<And>i. memories_containing_fact net' i = (if P i then memories_containing_fact net i else [])"
      "\<And>i. fact_to_memories net' i \<noteq> Some []"
  shows "net_ok content live' net'"
proof -
  have shape: "net_shape net" and filled: "net_filled content live net" using ok by (simp_all add: net_ok_def)
  have "holders net' i = (if P i then holders net i else {})" for i
    using facts by (auto simp: holders_def same)
  then have "lists_holders net'"
    using filled index by (simp add: lists_holders_def net_filled_def)
  moreover have "mem_facts (memories net' ! mem_index m) = filter (\<lambda>i. path_matches e ts (content i)) live'"
    if "path (nodes net') n e ts" "node_memory (nodes net' ! n) = Some m" for n m e ts
    using that filled facts [of "mem_index m"] net_shapeD(8) [OF shape path_less]
    by (simp add: same net_filled_def live conj_commute)
  moreover have "alpha_ok content am" if "am \<in> set (memories net')" for am
    using that facts by (auto simp: in_set_conv_nth same)
  ultimately have "net_filled content live' net'"
    using filled by (simp add: net_filled_def live)
  then show ?thesis using net_shape_memories [OF shape same] by (simp add: net_ok_def)
qed

lemma net_okD:
  assumes "net_ok content live net"
  shows "net_shape net" "distinct live" "am \<in> set (memories net) \<Longrightarrow> alpha_ok content am" "lists_holders net"
    "distinct (memories_containing_fact net i)" "set (memories_containing_fact net i) = holders net i"
    "fact_to_memories net i \<noteq> Some []"
    "path (nodes net) n e ts \<Longrightarrow> node_memory (nodes net ! n) = Some m \<Longrightarrow>
      mem_facts (memories net ! mem_index m) = filter (\<lambda>i. path_matches e ts (content i)) live"
  using assms unfolding net_ok_def net_filled_def lists_holders_def by auto

lemma memory_named:
  assumes "net_ok content live net" "k < length (memories net)"
  obtains m where "k = mem_index m"
proof (rule that)
  show "k = mem_index (AlphaMemoryId (of_nat k))"
    using assms(2) net_shapeD(6) [OF net_okD(1) [OF assms(1)]] by (simp add: unsigned_of_nat take_bit_nat_eq_self)
qed

lemma net_ok_retract:
  assumes ok: "net_ok content live net"
  shows "net_ok content (filter (\<lambda>j. j \<noteq> i) live) (alpha_retract_fact i (content i) net)"
proof (cases "fact_to_memories net i")
  case None
  then have "holders net i = {}" using net_okD(6) [OF ok, of i] by (simp add: memories_containing_fact_def)
  then have "filter (\<lambda>j. j \<noteq> i) (mem_facts (memories net ! k)) = mem_facts (memories net ! k)"
    if k: "k < length (memories net)" for k
  proof -
    obtain m where "k = mem_index m" using memory_named [OF ok k] .
    with k \<open>holders net i = {}\<close> have "i \<notin> set (mem_facts (memories net ! k))"
      by (auto simp: holders_def)
    then show ?thesis by (auto simp: filter_id_conv)
  qed
  with None show ?thesis
    by (intro net_ok_memories [OF ok, where P = "\<lambda>j. j \<noteq> i"])
      (auto simp: alpha_retract_fact_def memories_containing_fact_def net_okD [OF ok])
next
  case (Some ms)
  let ?net = "alpha_retract_fact i (content i) net"
  have ms: "distinct ms" "set ms = holders net i"
    using net_okD(5,6) [OF ok, of i] Some by (simp_all add: memories_containing_fact_def)
  have mems: "memories ?net = fold (\<lambda>m. list_modify (mem_index m) (alpha_remove i (content i))) ms (memories net)"
    using Some by (simp add: alpha_retract_fact_def)
  have "mem_facts (memories ?net ! k) = filter (\<lambda>j. j \<noteq> i) (mem_facts (memories net ! k)) \<and>
      alpha_ok content (memories ?net ! k)" if k: "k < length (memories net)" for k
  proof (cases "k \<in> mem_index ` set ms")
    case True
    with k ms(1) net_okD(3) [OF ok] show ?thesis
      by (simp add: mems nth_fold_modify alpha_ok_remove)
  next
    case False
    obtain m where m: "k = mem_index m" using memory_named [OF ok k] .
    with False have "m \<notin> set ms" by blast
    with m k have "i \<notin> set (mem_facts (memories net ! k))" by (simp add: ms(2) holders_def)
    then have "filter (\<lambda>j. j \<noteq> i) (mem_facts (memories net ! k)) = mem_facts (memories net ! k)"
      by (auto simp: filter_id_conv)
    with False k ms(1) net_okD(3) [OF ok] show ?thesis by (simp add: mems nth_fold_modify)
  qed
  with Some show ?thesis
    by (intro net_ok_memories [OF ok, where P = "\<lambda>j. j \<noteq> i"])
      (auto simp: alpha_retract_fact_def memories_containing_fact_def net_okD [OF ok])
qed

lemma net_ok_clear:
  assumes ok: "net_ok content live net"
  shows "net_ok content [] (clear_all_memories net)"
proof (rule net_ok_memories [OF ok, where P = "\<lambda>_. False"])
  show "mem_facts (memories (clear_all_memories net) ! k) = filter (\<lambda>_. False) (mem_facts (memories net ! k)) \<and>
      alpha_ok content (memories (clear_all_memories net) ! k)" if "k < length (memories net)" for k
    using that alpha_ok_clear [OF net_okD(3) [OF ok, of "memories net ! k"]]
    by (simp add: clear_all_memories_def) (simp add: alpha_clear_def)
qed (simp_all add: clear_all_memories_def memories_containing_fact_def)

lemma mem_facts_request [simp]: "mem_facts (request_index slot fb am) = mem_facts am"
  by (simp add: request_index_def)

lemma memory_live:
  assumes ok: "net_ok content live net" and "k < length (memories net)"
  shows "set (mem_facts (memories net ! k)) \<subseteq> set live"
proof
  fix i assume i: "i \<in> set (mem_facts (memories net ! k))"
  obtain m where "k = mem_index m" using memory_named [OF ok assms(2)] .
  with i assms(2) have "m \<in> holders net i" by (simp add: holders_def)
  then show "i \<in> set live" using holder_path [OF ok] by blast
qed

lemma net_ok_request:
  assumes ok: "net_ok content live net" and fb: "agrees content fb (set live)"
  shows "net_ok content live (alpha_request_index m slot fb net)"
proof (rule net_ok_memories [OF ok, where P = "\<lambda>_. True"])
  fix k assume k: "k < length (memories net)"
  have "agrees content fb (set (mem_facts (memories net ! k)))"
    using fb memory_live [OF ok k] by (auto simp: agrees_def)
  then have "alpha_ok content (request_index slot fb (memories net ! k))"
    using net_okD(3) [OF ok] k by (simp add: alpha_ok_request)
  with k show "mem_facts (memories (alpha_request_index m slot fb net) ! k) = filter (\<lambda>_. True) (mem_facts (memories net ! k)) \<and>
      alpha_ok content (memories (alpha_request_index m slot fb net) ! k)"
    using net_okD(3) [OF ok] by (auto simp: alpha_request_index_def nth_list_modify)
qed (simp_all add: alpha_request_index_def memories_containing_fact_def net_okD(7) [OF ok])

end
