(* ===== verification/Rete_Invariant.thy ===== *)
theory Rete_Invariant
  imports Rete_Operations Alpha_Correct Agenda_Results Token_Invariant
begin

text \<open>
  The invariant of the match network and how it evolves. It ties the stores together: the memory of
  a node holds exactly the stored tokens the node owns, a token's parent is owned by the parent
  node, a token of a join carries a fact of the join's alpha memory that matches its parent, and
  activations name stored tokens above their rule's terminal. The graph has a rank that grows from a
  node to its children and from a partner to its conjunction node; it bounds all recursion.
\<close>

section \<open>The graph\<close>

definition node_memory_at :: "beta_network \<Rightarrow> node_id \<Rightarrow> beta_memory option" where
  "node_memory_at net n = Option.bind (memory_id_for_node net n) (get_memory net)"

definition node_alpha :: "beta_node \<Rightarrow> alpha_memory_id option" where
  "node_alpha node = (case node of Join _ a _ _ _ _ _ \<Rightarrow> Some a | Negative _ a _ _ _ _ _ \<Rightarrow> Some a
     | Exists _ a _ _ _ _ _ \<Rightarrow> Some a | _ \<Rightarrow> None)"

definition node_plan :: "beta_node \<Rightarrow> sequence_pattern option" where
  "node_plan node = (case node of Join _ _ _ sq _ _ _ \<Rightarrow> sq | Negative _ _ _ sq _ _ _ \<Rightarrow> sq
     | Exists _ _ _ sq _ _ _ \<Rightarrow> sq | _ \<Rightarrow> None)"

text \<open>The negative, conjunction or exists memory of a node, by kind.\<close>

definition side_memory :: "beta_node \<Rightarrow> (nat \<times> u32) option" where
  "side_memory node = (case node of Negative _ _ _ _ _ nm _ \<Rightarrow> Some (0, nm) | Ncc _ _ _ cm _ \<Rightarrow> Some (1, cm)
     | Exists _ _ _ _ _ em _ \<Rightarrow> Some (2, em) | _ \<Rightarrow> None)"

text \<open>How many memories of a kind there are, and what the counters know of the nodes.\<close>

definition side_count :: "beta_network \<Rightarrow> nat \<Rightarrow> nat" where
  "side_count net kind = (if kind = 0 then length (beta_negs net) else if kind = 1 then length (beta_nccs net)
     else length (beta_exists net))"

definition counters_ok :: "(node_id \<Rightarrow> nat) \<Rightarrow> beta_network \<Rightarrow> bool" where
  "counters_ok rank net \<longleftrightarrow>
     (\<forall>n node. get_node net n = Some node \<longrightarrow> n < next_beta_node net \<and> rank n < 2 * unat (next_beta_node net)) \<and>
     (\<forall>n node kind k. get_node net n = Some node \<longrightarrow> side_memory node = Some (kind, k) \<longrightarrow> unat k < side_count net kind) \<and>
     next_beta_memory net = of_nat (length (beta_memories net)) \<and> next_neg_memory net = of_nat (length (beta_negs net)) \<and>
     next_ncc_memory net = of_nat (length (beta_nccs net)) \<and> next_exists_memory net = of_nat (length (beta_exists net)) \<and>
     length (beta_memories net) \<le> unat (next_beta_node net) \<and> length (beta_negs net) \<le> unat (next_beta_node net) \<and>
     length (beta_nccs net) \<le> unat (next_beta_node net) \<and> length (beta_exists net) \<le> unat (next_beta_node net)"

definition graph_ok :: "(node_id \<Rightarrow> nat) \<Rightarrow> beta_network \<Rightarrow> bool" where
  "graph_ok rank net \<longleftrightarrow>
     (\<exists>m cs. get_node net (root_id net) = Some (Root m cs)) \<and>
     (\<forall>n m cs. get_node net n = Some (Root m cs) \<longrightarrow> n = root_id net) \<and>
     (\<forall>n node cs c. get_node net n = Some node \<longrightarrow> child_nodes node = Some cs \<longrightarrow> c \<in> set cs \<longrightarrow>
        rank n < rank c \<and> (\<exists>child. get_node net c = Some child \<and> parent_node child = Some n)) \<and>
     (\<forall>n node p. get_node net n = Some node \<longrightarrow> parent_node node = Some p \<longrightarrow>
        (\<exists>above cs. get_node net p = Some above \<and> child_nodes above = Some cs \<and> n \<in> set cs)) \<and>
     (\<forall>n p ncc cm. get_node net n = Some (NccPartner p ncc cm) \<longrightarrow>
        rank n < rank ncc \<and> (\<exists>q m cs. get_node net ncc = Some (Ncc q n m cm cs))) \<and>
     (\<forall>n n' node node' k. get_node net n = Some node \<longrightarrow> get_node net n' = Some node' \<longrightarrow>
        side_memory node = Some k \<longrightarrow> side_memory node' = Some k \<longrightarrow> n = n') \<and>
     (\<forall>n node m. get_node net n = Some node \<longrightarrow> own_memory node = Some m \<longrightarrow>
        beta_memory_index m < length (beta_memories net)) \<and>
     (\<forall>n n' m. memory_id_for_node net n = Some m \<longrightarrow> memory_id_for_node net n' = Some m \<longrightarrow> n = n') \<and>
     (\<forall>n node. get_node net n = Some node \<longrightarrow> pattern_ok (node_plan node)) \<and>
     (\<forall>a n. n \<in> set (nodes_for_alpha (alpha_to_joins net) a) \<longrightarrow>
        (\<exists>p ts sq bs m cs. get_node net n = Some (Join p a ts sq bs m cs))) \<and>
     ncc_entry_waits net \<noteq> None \<and> counters_ok rank net"

lemma graph_okD:
  assumes "graph_ok rank net"
  shows "\<exists>m cs. get_node net (root_id net) = Some (Root m cs)"
    "get_node net n = Some (Root m cs) \<Longrightarrow> n = root_id net"
    "get_node net n = Some node \<Longrightarrow> child_nodes node = Some cs \<Longrightarrow> c \<in> set cs \<Longrightarrow> rank n < rank c"
    "get_node net n = Some node \<Longrightarrow> child_nodes node = Some cs \<Longrightarrow> c \<in> set cs \<Longrightarrow>
      \<exists>child. get_node net c = Some child \<and> parent_node child = Some n"
    "get_node net n = Some node \<Longrightarrow> parent_node node = Some p \<Longrightarrow>
      \<exists>above cs. get_node net p = Some above \<and> child_nodes above = Some cs \<and> n \<in> set cs"
    "get_node net n = Some (NccPartner p ncc cm) \<Longrightarrow> rank n < rank ncc"
    "get_node net n = Some (NccPartner p ncc cm) \<Longrightarrow> \<exists>q m cs. get_node net ncc = Some (Ncc q n m cm cs)"
    "get_node net n = Some node \<Longrightarrow> get_node net n' = Some node' \<Longrightarrow> side_memory node = Some k \<Longrightarrow>
      side_memory node' = Some k \<Longrightarrow> n = n'"
    "get_node net n = Some node \<Longrightarrow> own_memory node = Some mem \<Longrightarrow> beta_memory_index mem < length (beta_memories net)"
    "memory_id_for_node net n = Some mem \<Longrightarrow> memory_id_for_node net n' = Some mem \<Longrightarrow> n = n'"
    "get_node net n = Some node \<Longrightarrow> pattern_ok (node_plan node)"
    "n \<in> set (nodes_for_alpha (alpha_to_joins net) a) \<Longrightarrow> \<exists>p ts sq bs m cs. get_node net n = Some (Join p a ts sq bs m cs)"
    "ncc_entry_waits net \<noteq> None" "counters_ok rank net"
  using assms unfolding graph_ok_def by - (elim conjE, (assumption | fast | metis)[1])+

text \<open>What propagation leaves alone.\<close>

definition same_graph :: "beta_network \<Rightarrow> beta_network \<Rightarrow> bool" where
  "same_graph net net' \<longleftrightarrow> beta_nodes net' = beta_nodes net \<and> root_id net' = root_id net \<and>
     length (beta_memories net') = length (beta_memories net) \<and> length (beta_negs net') = length (beta_negs net) \<and>
     length (beta_nccs net') = length (beta_nccs net) \<and> length (beta_exists net') = length (beta_exists net) \<and>
     next_beta_node net' = next_beta_node net \<and> alpha_to_joins net' = alpha_to_joins net \<and>
     alpha_to_negatives net' = alpha_to_negatives net \<and> alpha_to_exists net' = alpha_to_exists net \<and>
     ncc_entry_waits net' = ncc_entry_waits net \<and> next_beta_memory net' = next_beta_memory net \<and>
     next_neg_memory net' = next_neg_memory net \<and> next_ncc_memory net' = next_ncc_memory net \<and>
     next_exists_memory net' = next_exists_memory net"

lemma same_graph_refl [simp]: "same_graph net net"
  by (simp add: same_graph_def)

lemma same_graph_trans: "same_graph a b \<Longrightarrow> same_graph b c \<Longrightarrow> same_graph a c"
  by (simp add: same_graph_def)

lemma same_graph_node: "same_graph net net' \<Longrightarrow> get_node net' = get_node net"
  by (simp add: same_graph_def get_node_def fun_eq_iff)

lemma same_graph_memory_id: "same_graph net net' \<Longrightarrow> memory_id_for_node net' = memory_id_for_node net"
  by (simp add: same_graph_node memory_id_for_node_def fun_eq_iff)

lemma counters_ok_same:
  assumes "counters_ok rank net" "same_graph net net'"
  shows "counters_ok rank net'"
proof -
  have "side_count net' = side_count net" "get_node net' = get_node net"
    using assms(2) by (auto simp: fun_eq_iff side_count_def same_graph_def get_node_def)
  with assms show ?thesis unfolding counters_ok_def by (simp add: same_graph_def)
qed

lemma graph_ok_same: "graph_ok rank net \<Longrightarrow> same_graph net net' \<Longrightarrow> graph_ok rank net'"
  unfolding graph_ok_def
  by (simp add: same_graph_node same_graph_memory_id) (use counters_ok_same in \<open>force simp: same_graph_def\<close>)

lemma same_graph_updates [simp]:
  "same_graph net (with_beta_memory m f net)" "same_graph net (with_neg_memory k g net)"
  "same_graph net (with_ncc_memory k g' net)" "same_graph net (with_exists_memory k g'' net)"
  by (simp_all add: same_graph_def with_beta_memory_def with_neg_memory_def with_ncc_memory_def with_exists_memory_def)

lemma get_node_updates [simp]:
  "get_node (with_beta_memory m f net) = get_node net" "get_node (with_neg_memory k g net) = get_node net"
  "get_node (with_ncc_memory k g' net) = get_node net" "get_node (with_exists_memory k g'' net) = get_node net"
  by (simp_all add: same_graph_node)

lemma memory_id_updates [simp]:
  "memory_id_for_node (with_beta_memory m f net) = memory_id_for_node net"
  "memory_id_for_node (with_neg_memory k g net) = memory_id_for_node net"
  "memory_id_for_node (with_ncc_memory k g' net) = memory_id_for_node net"
  "memory_id_for_node (with_exists_memory k g'' net) = memory_id_for_node net"
  by (simp_all add: same_graph_memory_id)

lemma get_memory_updates [simp]:
  "get_memory (with_neg_memory k g net) = get_memory net" "get_memory (with_ncc_memory k g' net) = get_memory net"
  "get_memory (with_exists_memory k g'' net) = get_memory net"
  by (simp_all add: get_memory_def with_neg_memory_def with_ncc_memory_def with_exists_memory_def fun_eq_iff)

lemma node_memory_updates [simp]:
  "node_memory_at (with_neg_memory k g net) = node_memory_at net" "node_memory_at (with_ncc_memory k g' net) = node_memory_at net"
  "node_memory_at (with_exists_memory k g'' net) = node_memory_at net"
  by (simp_all add: node_memory_at_def fun_eq_iff)

lemma get_memory_with:
  "get_memory (with_beta_memory m f net) m' =
    (if beta_memory_index m' = beta_memory_index m then map_option f (get_memory net m') else get_memory net m')"
  by (simp add: get_memory_def with_beta_memory_def list_get_def nth_list_modify)

lemma beta_memory_index_inj [simp]: "beta_memory_index m = beta_memory_index m' \<longleftrightarrow> m = m'"
  by (cases m; cases m') (simp add: word_unat_eq_iff)

lemma node_memory_with:
  assumes "graph_ok rank net" "memory_id_for_node net n = Some m"
  shows "node_memory_at (with_beta_memory m f net) n' =
    (if n' = n then map_option f (node_memory_at net n') else node_memory_at net n')"
proof (cases "n' = n")
  case True
  with assms(2) show ?thesis by (simp add: node_memory_at_def get_memory_with)
next
  case False
  then have "memory_id_for_node net n' \<noteq> Some m" using graph_okD(10) [OF assms(1) _ assms(2)] by blast
  with False show ?thesis by (auto simp: node_memory_at_def get_memory_with split: bind_split)
qed

lemma node_memory_ex:
  assumes "graph_ok rank net" "memory_id_for_node net n = Some m"
  obtains bm where "node_memory_at net n = Some bm" "get_memory net m = Some bm"
proof -
  obtain node where "get_node net n = Some node" "own_memory node = Some m"
    using assms(2) by (auto simp: memory_id_for_node_def bind_eq_Some_conv)
  from graph_okD(9) [OF assms(1) this] that assms(2) show ?thesis
    by (simp add: node_memory_at_def get_memory_def list_get_def)
qed

lemma own_memory_parent: "child_nodes node = Some cs \<Longrightarrow> own_memory node \<noteq> None"
  by (cases node) simp_all

section \<open>Tokens\<close>

definition bindings_of :: "token_store \<Rightarrow> token_id \<Rightarrow> binding_set" where
  "bindings_of ts t = (case tokens ts t of None \<Rightarrow> [] | Some tok \<Rightarrow> tok_bindings tok)"

text \<open>What a token of a node records of its parent.\<close>

definition derived :: "(fact_id \<Rightarrow> fact) \<Rightarrow> beta_node \<Rightarrow> token \<Rightarrow> token \<Rightarrow> bool" where
  "derived content node parent_token tok \<longleftrightarrow>
     (case node of
        Join _ _ tests sequence bindings _ _ \<Rightarrow>
          (\<exists>f. tok_fact tok = Some f \<and>
             (case sequence of
                None \<Rightarrow> evaluate_join (content f) (Some parent_token) tests \<and>
                  tok_bindings tok = extract_bindings bindings (content f) (tok_bindings parent_token)
              | Some plan \<Rightarrow> \<exists>sv \<in> set (all_splits plan (content f)).
                  split_matches sv (tok_bindings parent_token) tests plan \<and>
                  tok_bindings tok = extract_split_bindings bindings sv (tok_bindings parent_token)))
      | _ \<Rightarrow> tok_fact tok = None \<and> tok_bindings tok = tok_bindings parent_token)"

text \<open>A token as it should be, given the graph, the store and the alpha memories.\<close>

definition token_sound :: "(fact_id \<Rightarrow> fact) \<Rightarrow> alpha_network \<Rightarrow> beta_network \<Rightarrow> token_store \<Rightarrow> token \<Rightarrow> bool" where
  "token_sound content alpha net ts tok \<longleftrightarrow>
     (\<exists>node. get_node net (tok_owner tok) = Some node \<and> own_memory node \<noteq> None \<and>
        (case tok_parent tok of
           None \<Rightarrow> parent_node node = None \<and> tok_fact tok = None \<and> tok_bindings tok = []
         | Some p \<Rightarrow> \<exists>parent_token. tokens ts p = Some parent_token \<and> parent_node node = Some (tok_owner parent_token) \<and>
             derived content node parent_token tok) \<and>
        (\<forall>q a tests sq bs m cs f. node = Join q a tests sq bs m cs \<longrightarrow> tok_fact tok = Some f \<longrightarrow>
           (\<exists>am. alpha_memory_at alpha a = Some am \<and> f \<in> set (mem_facts am))))"

definition issued :: "host \<Rightarrow> rete \<Rightarrow> token_id \<Rightarrow> bool" where
  "issued h r t \<longleftrightarrow> (\<exists>k < tokens_issued r. t = token_key h k)"

definition tokens_ok :: "(fact_id \<Rightarrow> fact) \<Rightarrow> host \<Rightarrow> rete \<Rightarrow> bool" where
  "tokens_ok content h r \<longleftrightarrow> ts_ok (r_tokens r) \<and>
     (\<forall>t tok. tokens (r_tokens r) t = Some tok \<longrightarrow> issued h r t \<and>
        token_sound content (r_alpha r) (r_beta r) (r_tokens r) tok)"

definition memories_ok :: "rete \<Rightarrow> bool" where
  "memories_ok r \<longleftrightarrow>
     (\<forall>n bm. node_memory_at (r_beta r) n = Some bm \<longrightarrow> beta_index_ok (bindings_of (r_tokens r)) bm \<and>
        set (bm_tokens bm) = {t. \<exists>tok. tokens (r_tokens r) t = Some tok \<and> tok_owner tok = n})"

section \<open>Agenda, events and conjunctions\<close>

definition activation_sound :: "beta_network \<Rightarrow> token_store \<Rightarrow> activation \<Rightarrow> bool" where
  "activation_sound net ts a \<longleftrightarrow> (\<exists>tok n. tokens ts (act_token a) = Some tok \<and>
     get_node net n = Some (Terminal (tok_owner tok) (act_rule a) (act_salience a) (act_complexity a)))"

definition agenda_sound :: "host \<Rightarrow> rete \<Rightarrow> bool" where
  "agenda_sound h r \<longleftrightarrow> ag_ok (r_agenda r) \<and>
     (\<forall>i a. activations (r_agenda r) i = Some a \<longrightarrow> (\<exists>k < activations_issued r. i = activation_key h k) \<and>
        activation_sound (r_beta r) (r_tokens r) a)"

fun is_auto_focus :: "pending_event \<Rightarrow> bool" where
  "is_auto_focus (EvAutoFocus _) = True"
| "is_auto_focus _ = False"

fun is_ncc_left :: "pending_event \<Rightarrow> bool" where
  "is_ncc_left (EvNccLeft _ _) = True"
| "is_ncc_left _ = False"

text \<open>A token id known to belong to a node: it was issued, and the token is the node's or gone.\<close>

definition owned :: "host \<Rightarrow> rete \<Rightarrow> token_id \<Rightarrow> node_id \<Rightarrow> bool" where
  "owned h r t n \<longleftrightarrow> issued h r t \<and> (\<forall>tok. tokens (r_tokens r) t = Some tok \<longrightarrow> tok_owner tok = n)"

definition event_sound :: "host \<Rightarrow> rete \<Rightarrow> pending_event \<Rightarrow> bool" where
  "event_sound h r e \<longleftrightarrow> (case e of
     EvPredicate n t rule c \<Rightarrow> \<exists>q m cs. get_node (r_beta r) n = Some (Predicate q rule c m cs) \<and> owned h r t q
   | _ \<Rightarrow> True)"

definition events_ok :: "host \<Rightarrow> rete \<Rightarrow> bool" where
  "events_ok h r \<longleftrightarrow>
     pending_auto_focus_count r = length (filter is_auto_focus (pending_events r)) \<and>
     pending_ncc_left_count r = length (filter is_ncc_left (pending_events r)) \<and>
     (\<forall>e \<in> set (pending_events r). event_sound h r e)"

text \<open>What the side memory of a node knows of tokens: pass-throughs of the node, parents of its parent node.\<close>

definition side_ok :: "host \<Rightarrow> rete \<Rightarrow> node_id \<Rightarrow> beta_node \<Rightarrow> bool" where
  "side_ok h r n node \<longleftrightarrow>
     (case node of
        Negative q _ _ _ _ k _ \<Rightarrow> (\<forall>nm. get_neg_memory (r_beta r) k = Some nm \<longrightarrow>
          (\<forall>pt \<in> ran (unblocked nm). owned h r pt n) \<and> (\<forall>p \<in> dom (blocked nm). owned h r p q))
      | Ncc q _ _ k _ \<Rightarrow> (\<forall>nm. get_ncc_memory (r_beta r) k = Some nm \<longrightarrow>
          (\<forall>pt \<in> ran (ncc_unblocked nm). owned h r pt n) \<and> (\<forall>p \<in> ran (result_owner nm). owned h r p q))
      | Exists _ _ _ _ _ k _ \<Rightarrow> (\<forall>em. get_exists_memory (r_beta r) k = Some em \<longrightarrow>
          (\<forall>pt \<in> ran (satisfied em). owned h r pt n))
      | _ \<Rightarrow> True)"

definition sides_ok :: "host \<Rightarrow> rete \<Rightarrow> bool" where
  "sides_ok h r \<longleftrightarrow> (\<forall>n node. get_node (r_beta r) n = Some node \<longrightarrow> side_ok h r n node)"

text \<open>Every blocked parent has a place in the chronology, and the places are finitely many.\<close>

definition neg_kept :: "negative_memory \<Rightarrow> bool" where
  "neg_kept nm \<longleftrightarrow> finite (dom (block_order nm)) \<and> dom (blocked nm) \<subseteq> dom (block_order nm)"

definition ncc_kept :: "ncc_memory \<Rightarrow> bool" where
  "ncc_kept nm \<longleftrightarrow> finite (dom (ncc_block_order nm)) \<and> dom (primary_result nm) \<subseteq> dom (ncc_block_order nm)"

definition batch_kept :: "ncc_batch option \<Rightarrow> bool" where
  "batch_kept b \<longleftrightarrow> (case b of None \<Rightarrow> True
     | Some b \<Rightarrow> finite (dom (reserved_orders b)) \<and> (\<forall>m \<in> set (suspended_reserved b). finite (dom m)))"

definition orders_kept :: "block_state \<Rightarrow> bool" where
  "orders_kept bs \<longleftrightarrow> (\<forall>nm \<in> set (neg_memories bs). neg_kept nm) \<and> (\<forall>nm \<in> set (ncc_memories bs). ncc_kept nm) \<and>
     batch_kept (pending_batch bs)"

text \<open>\<open>outer\<close> are the results that enclosing drains have taken and not yet settled.\<close>

definition result_key :: "pending_ncc_result \<Rightarrow> node_id \<times> token_id" where
  "result_key e = (res_ncc e, res_parent e)"

definition result_sound :: "host \<Rightarrow> rete \<Rightarrow> pending_ncc_result \<Rightarrow> bool" where
  "result_sound h r e \<longleftrightarrow> (\<exists>q cm p m cs. get_node (r_beta r) (res_partner e) = Some (NccPartner q (res_ncc e) cm) \<and>
     get_node (r_beta r) (res_ncc e) = Some (Ncc p (res_partner e) m cm cs) \<and> owned h r (res_parent e) p)"

definition waiting_for :: "node_id \<times> token_id \<Rightarrow> pending_ncc_result list \<Rightarrow> nat" where
  "waiting_for k es = length (filter (\<lambda>e. result_key e = k) es)"

text \<open>A parent has an entry exactly while results for it wait, and the entry counts them.\<close>

definition counted :: "(node_id \<times> token_id \<rightharpoonup> pending_ncc_parent) \<Rightarrow> pending_ncc_result list \<Rightarrow> bool" where
  "counted parents es \<longleftrightarrow> (\<forall>k. case parents k of None \<Rightarrow> waiting_for k es = 0
     | Some p \<Rightarrow> 0 < waiting_results p \<and> waiting_results p = waiting_for k es)"

definition batch_ok :: "host \<Rightarrow> pending_ncc_result list \<Rightarrow> rete \<Rightarrow> bool" where
  "batch_ok h outer r \<longleftrightarrow>
     (case pending_ncc_results r of
        None \<Rightarrow> outer = []
      | Some b \<Rightarrow> (\<forall>e \<in> set (outer @ batch_results b). result_sound h r e) \<and>
          counted (batch_parents b) (outer @ batch_results b))"

section \<open>The invariant\<close>

definition root_ok :: "rete \<Rightarrow> bool" where
  "root_ok r \<longleftrightarrow> (\<exists>!t. \<exists>tok. tokens (r_tokens r) t = Some tok \<and> tok_owner tok = root_id (r_beta r))"

definition rete_inv ::
  "(node_id \<Rightarrow> nat) \<Rightarrow> (fact_id \<Rightarrow> fact) \<Rightarrow> fact_id list \<Rightarrow> host \<Rightarrow> pending_ncc_result list \<Rightarrow> rete \<Rightarrow> bool" where
  "rete_inv rank content live h outer r \<longleftrightarrow> host_ok h \<and> graph_ok rank (r_beta r) \<and> net_ok content live (r_alpha r) \<and>
     tokens_ok content h r \<and> memories_ok r \<and> root_ok r \<and> agenda_sound h r \<and> events_ok h r \<and> sides_ok h r \<and>
     orders_kept (block_view r) \<and> batch_ok h outer r"

lemma rete_invD:
  assumes "rete_inv rank content live h outer r"
  shows "host_ok h" "graph_ok rank (r_beta r)" "net_ok content live (r_alpha r)" "tokens_ok content h r" "memories_ok r"
    "root_ok r" "agenda_sound h r" "events_ok h r" "sides_ok h r" "orders_kept (block_view r)" "batch_ok h outer r"
  using assms by (simp_all add: rete_inv_def)

text \<open>The fact base knows the facts of the alpha memories, with timestamps that have a recency tag.\<close>

definition facts_known :: "(fact_id \<Rightarrow> fact) \<Rightarrow> fact_base \<Rightarrow> alpha_network \<Rightarrow> bool" where
  "facts_known content fb alpha \<longleftrightarrow>
     (\<forall>am \<in> set (memories alpha). \<forall>f \<in> set (mem_facts am). \<exists>entry. fact_base_get fb f = Some entry \<and>
        entry_fact entry = content f \<and> entry_timestamp entry \<noteq> u64_max)"

section \<open>Evolution\<close>

definition batch_evolves :: "(node_id \<Rightarrow> nat) \<Rightarrow> nat \<Rightarrow> rete \<Rightarrow> rete \<Rightarrow> bool" where
  "batch_evolves rank b r r' \<longleftrightarrow>
     (case (pending_ncc_results r, pending_ncc_results r') of
        (None, None) \<Rightarrow> True
      | (Some b1, Some b2) \<Rightarrow>
          length (suspended_reserved (batch_orders b2)) = length (suspended_reserved (batch_orders b1)) \<and>
          (\<exists>new. batch_results b2 = batch_results b1 @ new \<and> (\<forall>e \<in> set new. b \<le> rank (res_partner e)))
      | _ \<Rightarrow> False)"

definition evolves :: "host \<Rightarrow> (node_id \<Rightarrow> nat) \<Rightarrow> nat \<Rightarrow> rete \<Rightarrow> rete \<Rightarrow> bool" where
  "evolves h rank b r r' \<longleftrightarrow> r_alpha r' = r_alpha r \<and> same_graph (r_beta r) (r_beta r') \<and>
     disabled_rules r' = disabled_rules r \<and> auto_focus_rules r' = auto_focus_rules r \<and>
     tokens_issued r \<le> tokens_issued r' \<and>
     (\<forall>t. issued h r t \<longrightarrow> tokens (r_tokens r') t = None \<or> tokens (r_tokens r') t = tokens (r_tokens r) t) \<and>
     (\<exists>new. pending_events r' = pending_events r @ new) \<and> batch_evolves rank b r r'"

lemma batch_evolves_refl [simp]: "batch_evolves rank b r r"
  by (cases "pending_ncc_results r") (simp_all add: batch_evolves_def)

lemma batch_evolves_trans:
  assumes "batch_evolves rank b r r'" "batch_evolves rank b r' r''"
  shows "batch_evolves rank b r r''"
  using assms by (cases "pending_ncc_results r"; cases "pending_ncc_results r'"; cases "pending_ncc_results r''")
    (auto simp: batch_evolves_def)

lemma evolves_refl [simp]: "evolves h rank b r r"
  by (simp add: evolves_def)

lemma evolves_trans: "evolves h rank b r r' \<Longrightarrow> evolves h rank b r' r'' \<Longrightarrow> evolves h rank b r r''"
proof -
  assume a: "evolves h rank b r r'" "evolves h rank b r' r''"
  have "issued h r t \<Longrightarrow> issued h r' t" for t using a(1) by (auto simp: evolves_def issued_def intro: less_le_trans)
  with a show ?thesis
    unfolding evolves_def by (auto intro: same_graph_trans batch_evolves_trans) (metis)+
qed

lemma evolves_mono: "evolves h rank b r r' \<Longrightarrow> b' \<le> b \<Longrightarrow> evolves h rank b' r r'"
  unfolding evolves_def batch_evolves_def by (fastforce split: option.splits)

text \<open>Knowledge about tokens survives evolution.\<close>

lemma issued_evolves: "issued h r t \<Longrightarrow> evolves h rank b r r' \<Longrightarrow> issued h r' t"
  by (auto simp: issued_def evolves_def intro: less_le_trans)

lemma owned_evolves: "owned h r t n \<Longrightarrow> evolves h rank b r r' \<Longrightarrow> owned h r' t n"
  using issued_evolves [of h r t rank b r'] by (fastforce simp: owned_def evolves_def)

definition at :: "host \<Rightarrow> rete \<Rightarrow> token_id \<Rightarrow> node_id list \<Rightarrow> bool" where
  "at h r t kids \<longleftrightarrow> (\<forall>c \<in> set kids. \<forall>child. get_node (r_beta r) c = Some child \<longrightarrow>
     (\<exists>q. parent_node child = Some q \<and> owned h r t q))"

lemma evolves_node: "evolves h rank b r r' \<Longrightarrow> get_node (r_beta r') = get_node (r_beta r)"
  by (simp add: evolves_def same_graph_node)

lemma at_evolves: "at h r t kids \<Longrightarrow> evolves h rank b r r' \<Longrightarrow> at h r' t kids"
  by (force simp: at_def evolves_node dest: owned_evolves)

lemma owned_live: "owned h r t n \<Longrightarrow> tokens (r_tokens r) t = Some tok \<Longrightarrow> tok_owner tok = n"
  by (simp add: owned_def)

end
