(* ===== verification/Rete_Primitives.thy ===== *)
theory Rete_Primitives
  imports Rete_Invariant
begin

text \<open>
  The steps from which the activations are built keep the invariant of the network: updates of the
  side memories, allocation of block orders, admission of tokens, activations, events, and the
  removal of a token with its descendants from all stores.
\<close>

section \<open>Framing\<close>

text \<open>Side memories that know no more tokens than before, and keep their chronology complete.\<close>

definition neg_shrinks :: "negative_memory \<Rightarrow> negative_memory \<Rightarrow> bool" where
  "neg_shrinks nm nm' \<longleftrightarrow> ran (unblocked nm') \<subseteq> ran (unblocked nm) \<and> dom (blocked nm') \<subseteq> dom (blocked nm) \<and>
     (neg_kept nm \<longrightarrow> neg_kept nm')"

definition ncc_shrinks :: "ncc_memory \<Rightarrow> ncc_memory \<Rightarrow> bool" where
  "ncc_shrinks nm nm' \<longleftrightarrow> ran (ncc_unblocked nm') \<subseteq> ran (ncc_unblocked nm) \<and>
     ran (result_owner nm') \<subseteq> ran (result_owner nm) \<and> (ncc_kept nm \<longrightarrow> ncc_kept nm')"

definition exists_shrinks :: "exists_memory \<Rightarrow> exists_memory \<Rightarrow> bool" where
  "exists_shrinks em em' \<longleftrightarrow> ran (satisfied em') \<subseteq> ran (satisfied em)"

definition net_shrinks :: "beta_network \<Rightarrow> beta_network \<Rightarrow> bool" where
  "net_shrinks net net' \<longleftrightarrow> same_graph net net' \<and> list_all2 neg_shrinks (beta_negs net) (beta_negs net') \<and>
     list_all2 ncc_shrinks (beta_nccs net) (beta_nccs net') \<and> list_all2 exists_shrinks (beta_exists net) (beta_exists net')"

lemma shrinks_refl [simp]: "neg_shrinks nm nm" "ncc_shrinks cm cm" "exists_shrinks em em" "net_shrinks net net"
  by (simp_all add: neg_shrinks_def ncc_shrinks_def exists_shrinks_def net_shrinks_def list_all2_refl)

lemma shrinks_trans:
  "neg_shrinks x y \<Longrightarrow> neg_shrinks y z \<Longrightarrow> neg_shrinks x z" "ncc_shrinks x' y' \<Longrightarrow> ncc_shrinks y' z' \<Longrightarrow> ncc_shrinks x' z'"
  "exists_shrinks x'' y'' \<Longrightarrow> exists_shrinks y'' z'' \<Longrightarrow> exists_shrinks x'' z''"
  unfolding neg_shrinks_def ncc_shrinks_def exists_shrinks_def by blast+

lemma list_all2_along: "transp R \<Longrightarrow> list_all2 R xs ys \<Longrightarrow> list_all2 R ys zs \<Longrightarrow> list_all2 R xs zs"
  by (rule list_all2_trans [of R R R]) (auto elim: transpE)

lemma net_shrinks_trans: "net_shrinks a b \<Longrightarrow> net_shrinks b c \<Longrightarrow> net_shrinks a c"
proof -
  have "transp neg_shrinks" "transp ncc_shrinks" "transp exists_shrinks"
    by (intro transpI, fact shrinks_trans)+
  then show "net_shrinks a b \<Longrightarrow> net_shrinks b c \<Longrightarrow> net_shrinks a c"
    unfolding net_shrinks_def by (meson list_all2_along same_graph_trans)
qed

lemma list_all2_modify: "(\<And>x. R x x) \<Longrightarrow> (\<And>x. list_get xs k = Some x \<Longrightarrow> R x (f x)) \<Longrightarrow> list_all2 R xs (list_modify k f xs)"
  by (auto simp: list_all2_conv_all_nth nth_list_modify list_get_def)

lemma net_shrinks_neg:
  "(\<And>nm. get_neg_memory net k = Some nm \<Longrightarrow> neg_shrinks nm (f nm)) \<Longrightarrow> net_shrinks net (with_neg_memory k f net)"
  by (simp add: net_shrinks_def list_all2_refl list_all2_modify with_neg_memory_def same_graph_def get_neg_memory_def)

lemma net_shrinks_ncc:
  "(\<And>nm. get_ncc_memory net k = Some nm \<Longrightarrow> ncc_shrinks nm (f nm)) \<Longrightarrow> net_shrinks net (with_ncc_memory k f net)"
  by (simp add: net_shrinks_def list_all2_refl list_all2_modify with_ncc_memory_def same_graph_def get_ncc_memory_def)

lemma net_shrinks_exists:
  "(\<And>nm. get_exists_memory net k = Some nm \<Longrightarrow> exists_shrinks nm (f nm)) \<Longrightarrow> net_shrinks net (with_exists_memory k f net)"
  by (simp add: net_shrinks_def list_all2_refl list_all2_modify with_exists_memory_def same_graph_def get_exists_memory_def)

lemma net_shrinks_beta: "net_shrinks net (with_beta_memory m f net)"
  by (simp add: net_shrinks_def list_all2_refl with_beta_memory_def same_graph_def)

lemma list_all2_get:
  "list_all2 R xs ys \<Longrightarrow> list_get ys k = Some y \<Longrightarrow> \<exists>x. list_get xs k = Some x \<and> R x y"
  by (auto simp: list_get_def list_all2_conv_all_nth split: if_splits)

lemma net_shrinksD:
  assumes "net_shrinks net net'"
  shows "same_graph net net'"
    "get_neg_memory net' k = Some nm' \<Longrightarrow> \<exists>nm. get_neg_memory net k = Some nm \<and> neg_shrinks nm nm'"
    "get_ncc_memory net' k = Some cm' \<Longrightarrow> \<exists>cm. get_ncc_memory net k = Some cm \<and> ncc_shrinks cm cm'"
    "get_exists_memory net' k = Some em' \<Longrightarrow> \<exists>em. get_exists_memory net k = Some em \<and> exists_shrinks em em'"
  using assms by (auto simp: net_shrinks_def get_neg_memory_def get_ncc_memory_def get_exists_memory_def dest: list_all2_get)

lemma side_ok_evolves:
  assumes side: "side_ok h r n node" and ev: "evolves h rank b r r'" and sh: "net_shrinks (r_beta r) (r_beta r')"
  shows "side_ok h r' n node"
proof (cases node)
  case (Negative q a ts sq m k cs)
  show ?thesis
    using side owned_evolves [OF _ ev] net_shrinksD(2) [OF sh, of k]
    unfolding Negative side_ok_def beta_node.case neg_shrinks_def by (meson subsetD)
next
  case (Ncc q p m k cs)
  show ?thesis
    using side owned_evolves [OF _ ev] net_shrinksD(3) [OF sh, of k]
    unfolding Ncc side_ok_def beta_node.case ncc_shrinks_def by (meson subsetD)
next
  case (Exists q a ts sq m k cs)
  show ?thesis
    using side owned_evolves [OF _ ev] net_shrinksD(4) [OF sh, of k]
    unfolding Exists side_ok_def beta_node.case exists_shrinks_def by (meson subsetD)
qed (simp_all add: side_ok_def)

lemma sides_ok_evolves:
  "sides_ok h r \<Longrightarrow> evolves h rank b r r' \<Longrightarrow> net_shrinks (r_beta r) (r_beta r') \<Longrightarrow> sides_ok h r'"
  unfolding sides_ok_def by (metis evolves_node side_ok_evolves)

lemma event_sound_evolves: "event_sound h r e \<Longrightarrow> evolves h rank b r r' \<Longrightarrow> event_sound h r' e"
  by (auto simp: event_sound_def evolves_node split: pending_event.splits dest: owned_evolves)

lemma events_ok_evolves:
  assumes "events_ok h r" "evolves h rank b r r'" "pending_events r' = pending_events r"
    "pending_auto_focus_count r' = pending_auto_focus_count r" "pending_ncc_left_count r' = pending_ncc_left_count r"
  shows "events_ok h r'"
  using assms event_sound_evolves [OF _ assms(2)] by (simp add: events_ok_def)

lemma result_sound_evolves: "result_sound h r e \<Longrightarrow> evolves h rank b r r' \<Longrightarrow> result_sound h r' e"
  unfolding result_sound_def by (metis evolves_node owned_evolves)

lemma batch_ok_evolves:
  assumes "batch_ok h outer r" "evolves h rank b r r'"
    "map_option batch_results (pending_ncc_results r') = map_option batch_results (pending_ncc_results r)"
    "map_option batch_parents (pending_ncc_results r') = map_option batch_parents (pending_ncc_results r)"
  shows "batch_ok h outer r'"
  using assms result_sound_evolves [OF _ assms(2)]
  by (cases "pending_ncc_results r"; cases "pending_ncc_results r'") (simp_all add: batch_ok_def)

lemma orders_kept_shrinks:
  assumes "net_shrinks net net'" "\<forall>nm \<in> set (beta_negs net). neg_kept nm" "\<forall>nm \<in> set (beta_nccs net). ncc_kept nm"
  shows "\<forall>nm \<in> set (beta_negs net'). neg_kept nm" "\<forall>nm \<in> set (beta_nccs net'). ncc_kept nm"
  using assms unfolding net_shrinks_def list_all2_conv_all_nth
  by (metis in_set_conv_nth neg_shrinks_def, metis in_set_conv_nth ncc_shrinks_def)

lemma block_view_fields [simp]:
  "neg_memories (block_view r) = beta_negs (r_beta r)" "ncc_memories (block_view r) = beta_nccs (r_beta r)"
  "pending_batch (block_view r) = map_option batch_orders (pending_ncc_results r)"
  "next_block_order (block_view r) = block_counter r"
  by (simp_all add: block_view_def)

text \<open>Steps that leave the tokens alone.\<close>

lemma stores_same_tokens:
  assumes "evolves h rank b r r'" "r_tokens r' = r_tokens r" "tokens_issued r' = tokens_issued r"
  shows "tokens_ok content h r \<Longrightarrow> tokens_ok content h r'" "root_ok r \<Longrightarrow> root_ok r'"
    "node_memory_at (r_beta r') = node_memory_at (r_beta r) \<Longrightarrow> memories_ok r \<Longrightarrow> memories_ok r'"
    "r_agenda r' = r_agenda r \<Longrightarrow> activations_issued r' = activations_issued r \<Longrightarrow> agenda_sound h r \<Longrightarrow> agenda_sound h r'"
proof -
  have n: "get_node (r_beta r') = get_node (r_beta r)" "r_alpha r' = r_alpha r" "root_id (r_beta r') = root_id (r_beta r)"
    using assms(1) by (simp_all add: evolves_def same_graph_node) (simp add: same_graph_def)
  show "tokens_ok content h r \<Longrightarrow> tokens_ok content h r'"
    using assms(2,3) n by (simp add: tokens_ok_def issued_def token_sound_def)
  show "root_ok r \<Longrightarrow> root_ok r'" using assms(2) n by (simp add: root_ok_def)
  show "node_memory_at (r_beta r') = node_memory_at (r_beta r) \<Longrightarrow> memories_ok r \<Longrightarrow> memories_ok r'"
    using assms(2) by (simp add: memories_ok_def)
  show "r_agenda r' = r_agenda r \<Longrightarrow> activations_issued r' = activations_issued r \<Longrightarrow> agenda_sound h r \<Longrightarrow> agenda_sound h r'"
    using assms(2) n by (simp add: agenda_sound_def activation_sound_def)
qed

lemma rete_inv_same_tokens:
  assumes inv: "rete_inv rank content live h outer r" and ev: "evolves h rank b r r'"
    and same: "r_tokens r' = r_tokens r" "tokens_issued r' = tokens_issued r" "r_agenda r' = r_agenda r"
      "activations_issued r' = activations_issued r" "node_memory_at (r_beta r') = node_memory_at (r_beta r)"
    and rest: "sides_ok h r'" "events_ok h r'" "orders_kept (block_view r')" "batch_ok h outer' r'"
  shows "rete_inv rank content live h outer' r'"
proof -
  note i = rete_invD [OF inv] and s = stores_same_tokens [OF ev same(1,2)]
  have "graph_ok rank (r_beta r')" "r_alpha r' = r_alpha r"
    using graph_ok_same [OF i(2)] ev by (simp_all add: evolves_def)
  with i rest s(1) [OF i(4)] s(2) [OF i(6)] s(3) [OF same(5) i(5)] s(4) [OF same(3,4) i(7)]
  show ?thesis by (simp add: rete_inv_def)
qed

text \<open>Steps that, besides, only let the side memories shrink.\<close>

lemma rete_inv_shrinks:
  assumes inv: "rete_inv rank content live h outer r" and sh: "net_shrinks (r_beta r) net"
    and mem: "node_memory_at net = node_memory_at (r_beta r)"
  shows "rete_inv rank content live h outer (r\<lparr>r_beta := net\<rparr>)" "evolves h rank b r (r\<lparr>r_beta := net\<rparr>)"
proof -
  show ev: "evolves h rank b r (r\<lparr>r_beta := net\<rparr>)" for b
    using net_shrinksD(1) [OF sh] by (simp add: evolves_def batch_evolves_def split: option.split)
  note i = rete_invD [OF inv]
  show "rete_inv rank content live h outer (r\<lparr>r_beta := net\<rparr>)"
  proof (rule rete_inv_same_tokens [OF inv ev])
    show "sides_ok h (r\<lparr>r_beta := net\<rparr>)" by (rule sides_ok_evolves [OF i(9) ev]) (simp add: sh)
    show "events_ok h (r\<lparr>r_beta := net\<rparr>)" by (rule events_ok_evolves [OF i(8) ev]) simp_all
    show "orders_kept (block_view (r\<lparr>r_beta := net\<rparr>))"
      using i(10) orders_kept_shrinks [OF sh] by (simp add: orders_kept_def)
    show "batch_ok h outer (r\<lparr>r_beta := net\<rparr>)" by (rule batch_ok_evolves [OF i(11) ev]) simp_all
  qed (simp_all add: mem)
qed

section \<open>Side memories that learn of tokens\<close>

lemma list_get_modify: "list_get (list_modify k f xs) j = (if j = k then map_option f (list_get xs k) else list_get xs j)"
  by (simp add: list_get_def nth_list_modify)

lemma get_side_with:
  "get_neg_memory (with_neg_memory k f net) k' = (if k' = k then map_option f (get_neg_memory net k) else get_neg_memory net k')"
  "get_ncc_memory (with_ncc_memory k g net) k' = (if k' = k then map_option g (get_ncc_memory net k) else get_ncc_memory net k')"
  "get_exists_memory (with_exists_memory k e net) k' =
    (if k' = k then map_option e (get_exists_memory net k) else get_exists_memory net k')"
  by (auto simp: get_neg_memory_def with_neg_memory_def get_ncc_memory_def with_ncc_memory_def
      get_exists_memory_def with_exists_memory_def list_get_modify word_unat_eq_iff)

lemma get_side_other [simp]:
  "get_neg_memory (with_ncc_memory k g net) = get_neg_memory net" "get_neg_memory (with_exists_memory k e net) = get_neg_memory net"
  "get_neg_memory (with_beta_memory m u net) = get_neg_memory net"
  "get_ncc_memory (with_neg_memory k f net) = get_ncc_memory net" "get_ncc_memory (with_exists_memory k e net) = get_ncc_memory net"
  "get_ncc_memory (with_beta_memory m u net) = get_ncc_memory net"
  "get_exists_memory (with_neg_memory k f net) = get_exists_memory net"
  "get_exists_memory (with_ncc_memory k g net) = get_exists_memory net"
  "get_exists_memory (with_beta_memory m u net) = get_exists_memory net"
  by (simp_all add: fun_eq_iff get_neg_memory_def with_neg_memory_def get_ncc_memory_def with_ncc_memory_def
      get_exists_memory_def with_exists_memory_def with_beta_memory_def)

lemma set_list_modify:
  "(\<And>x. x \<in> set xs \<Longrightarrow> P x) \<Longrightarrow> (\<And>x. list_get xs k = Some x \<Longrightarrow> P (f x)) \<Longrightarrow> x \<in> set (list_modify k f xs) \<Longrightarrow> P x"
  by (force simp: in_set_conv_nth nth_list_modify list_get_def split: if_splits)

lemma orders_kept_with:
  assumes "orders_kept (block_view r)"
  shows "(\<And>nm. get_neg_memory (r_beta r) k = Some nm \<Longrightarrow> neg_kept nm \<Longrightarrow> neg_kept (f nm)) \<Longrightarrow>
      orders_kept (block_view (update_beta (with_neg_memory k f) r))"
    "(\<And>nm. get_ncc_memory (r_beta r) k = Some nm \<Longrightarrow> ncc_kept nm \<Longrightarrow> ncc_kept (g nm)) \<Longrightarrow>
      orders_kept (block_view (update_beta (with_ncc_memory k g) r))"
    "orders_kept (block_view (update_beta (with_exists_memory k e) r))"
proof -
  have neg: "\<And>nm. list_get (beta_negs (r_beta r)) j = Some nm \<Longrightarrow> neg_kept nm" for j
    using assms by (auto simp: orders_kept_def list_get_def split: if_splits)
  have ncc: "\<And>nm. list_get (beta_nccs (r_beta r)) j = Some nm \<Longrightarrow> ncc_kept nm" for j
    using assms by (auto simp: orders_kept_def list_get_def split: if_splits)
  show "orders_kept (block_view (update_beta (with_neg_memory k f) r))"
    if "\<And>nm. get_neg_memory (r_beta r) k = Some nm \<Longrightarrow> neg_kept nm \<Longrightarrow> neg_kept (f nm)"
    using assms that neg
    by (auto simp: orders_kept_def with_neg_memory_def get_neg_memory_def elim!: set_list_modify [rotated 2])
  show "orders_kept (block_view (update_beta (with_ncc_memory k g) r))"
    if "\<And>nm. get_ncc_memory (r_beta r) k = Some nm \<Longrightarrow> ncc_kept nm \<Longrightarrow> ncc_kept (g nm)"
    using assms that ncc
    by (auto simp: orders_kept_def with_ncc_memory_def get_ncc_memory_def elim!: set_list_modify [rotated 2])
  show "orders_kept (block_view (update_beta (with_exists_memory k e) r))"
    using assms by (simp add: orders_kept_def with_exists_memory_def)
qed

text \<open>An update of the side memory of one node that records tokens known to belong where they should.\<close>

lemma rete_inv_side:
  assumes inv: "rete_inv rank content live h outer r"
    and net: "same_graph (r_beta r) net" "node_memory_at net = node_memory_at (r_beta r)"
    and kept: "orders_kept (block_view (r\<lparr>r_beta := net\<rparr>))"
    and others: "\<And>n' node'. get_node (r_beta r) n' = Some node' \<Longrightarrow> n' \<noteq> n \<Longrightarrow>
      side_ok h r n' node' \<Longrightarrow> side_ok h (r\<lparr>r_beta := net\<rparr>) n' node'"
    and own: "\<And>node. get_node (r_beta r) n = Some node \<Longrightarrow> side_ok h r n node \<Longrightarrow> side_ok h (r\<lparr>r_beta := net\<rparr>) n node"
  shows "rete_inv rank content live h outer (r\<lparr>r_beta := net\<rparr>)" "evolves h rank b r (r\<lparr>r_beta := net\<rparr>)"
proof -
  show ev: "evolves h rank b r (r\<lparr>r_beta := net\<rparr>)" for b
    using net(1) by (simp add: evolves_def batch_evolves_def split: option.split)
  note i = rete_invD [OF inv]
  show "rete_inv rank content live h outer (r\<lparr>r_beta := net\<rparr>)"
  proof (rule rete_inv_same_tokens [OF inv ev])
    show "sides_ok h (r\<lparr>r_beta := net\<rparr>)"
      using i(9) others own unfolding sides_ok_def by (metis evolves_node [OF ev])
    show "events_ok h (r\<lparr>r_beta := net\<rparr>)" by (rule events_ok_evolves [OF i(8) ev]) simp_all
    show "batch_ok h outer (r\<lparr>r_beta := net\<rparr>)" by (rule batch_ok_evolves [OF i(11) ev]) simp_all
  qed (simp_all add: net kept)
qed

lemma owned_beta [simp]: "owned h (r\<lparr>r_beta := net\<rparr>) = owned h r"
  by (simp add: fun_eq_iff owned_def issued_def)

lemma side_other:
  assumes g: "graph_ok rank net" and n: "get_node net n = Some node" "side_memory node = Some (i, k)"
    and n': "get_node net n' = Some node'" "n' \<noteq> n"
  shows "side_memory node' \<noteq> Some (i, k)"
  using graph_okD(8) [OF g n'(1) n(1) _ n(2)] n'(2) by blast

lemma inv_with_neg:
  assumes inv: "rete_inv rank content live h outer r" and n: "get_node (r_beta r) n = Some (Negative q a ts sq m k cs)"
    and f: "\<And>nm. get_neg_memory (r_beta r) k = Some nm \<Longrightarrow> ran (unblocked (f nm)) \<subseteq> ran (unblocked nm) \<union> {t. owned h r t n} \<and>
      dom (blocked (f nm)) \<subseteq> dom (blocked nm) \<union> {t. owned h r t q} \<and> (neg_kept nm \<longrightarrow> neg_kept (f nm))"
  shows "rete_inv rank content live h outer (update_beta (with_neg_memory k f) r)"
    "evolves h rank b r (update_beta (with_neg_memory k f) r)"
proof -
  note i = rete_invD [OF inv]
  have kept: "orders_kept (block_view (update_beta (with_neg_memory k f) r))"
    by (rule orders_kept_with(1) [OF i(10)]) (use f in blast)
  have others: "side_ok h (update_beta (with_neg_memory k f) r) n' node'"
    if "get_node (r_beta r) n' = Some node'" "n' \<noteq> n" "side_ok h r n' node'" for n' node'
    using side_other [OF i(2) n _ that(1,2), of 0 k] that(3)
    by (cases node') (auto simp: side_ok_def side_memory_def get_side_with split: if_splits)
  have own: "side_ok h (update_beta (with_neg_memory k f) r) n node"
    if "get_node (r_beta r) n = Some node" "side_ok h r n node" for node
  proof -
    have node: "node = Negative q a ts sq m k cs" using that(1) n by simp
    show ?thesis using that(2) f unfolding node side_ok_def by (fastforce simp: get_side_with)
  qed
  show "rete_inv rank content live h outer (update_beta (with_neg_memory k f) r)"
    "evolves h rank b r (update_beta (with_neg_memory k f) r)"
    by (rule rete_inv_side [OF inv, where n = n], simp_all add: kept others own)+
qed

lemma inv_with_ncc:
  assumes inv: "rete_inv rank content live h outer r" and n: "get_node (r_beta r) n = Some (Ncc q p m k cs)"
    and f: "\<And>nm. get_ncc_memory (r_beta r) k = Some nm \<Longrightarrow> ran (ncc_unblocked (f nm)) \<subseteq> ran (ncc_unblocked nm) \<union> {t. owned h r t n} \<and>
      ran (result_owner (f nm)) \<subseteq> ran (result_owner nm) \<union> {t. owned h r t q} \<and> (ncc_kept nm \<longrightarrow> ncc_kept (f nm))"
  shows "rete_inv rank content live h outer (update_beta (with_ncc_memory k f) r)"
    "evolves h rank b r (update_beta (with_ncc_memory k f) r)"
proof -
  note i = rete_invD [OF inv]
  have kept: "orders_kept (block_view (update_beta (with_ncc_memory k f) r))"
    by (rule orders_kept_with(2) [OF i(10)]) (use f in blast)
  have others: "side_ok h (update_beta (with_ncc_memory k f) r) n' node'"
    if "get_node (r_beta r) n' = Some node'" "n' \<noteq> n" "side_ok h r n' node'" for n' node'
    using side_other [OF i(2) n _ that(1,2), of 1 k] that(3)
    by (cases node') (auto simp: side_ok_def side_memory_def get_side_with split: if_splits)
  have own: "side_ok h (update_beta (with_ncc_memory k f) r) n node"
    if "get_node (r_beta r) n = Some node" "side_ok h r n node" for node
  proof -
    have node: "node = Ncc q p m k cs" using that(1) n by simp
    show ?thesis using that(2) f unfolding node side_ok_def by (fastforce simp: get_side_with)
  qed
  show "rete_inv rank content live h outer (update_beta (with_ncc_memory k f) r)"
    "evolves h rank b r (update_beta (with_ncc_memory k f) r)"
    by (rule rete_inv_side [OF inv, where n = n], simp_all add: kept others own)+
qed

lemma inv_with_exists:
  assumes inv: "rete_inv rank content live h outer r" and n: "get_node (r_beta r) n = Some (Exists q a ts sq m k cs)"
    and f: "\<And>em. get_exists_memory (r_beta r) k = Some em \<Longrightarrow> ran (satisfied (f em)) \<subseteq> ran (satisfied em) \<union> {t. owned h r t n}"
  shows "rete_inv rank content live h outer (update_beta (with_exists_memory k f) r)"
    "evolves h rank b r (update_beta (with_exists_memory k f) r)"
proof -
  note i = rete_invD [OF inv]
  have kept: "orders_kept (block_view (update_beta (with_exists_memory k f) r))"
    by (rule orders_kept_with(3) [OF i(10)])
  have others: "side_ok h (update_beta (with_exists_memory k f) r) n' node'"
    if "get_node (r_beta r) n' = Some node'" "n' \<noteq> n" "side_ok h r n' node'" for n' node'
    using side_other [OF i(2) n _ that(1,2), of 2 k] that(3)
    by (cases node') (auto simp: side_ok_def side_memory_def get_side_with split: if_splits)
  have own: "side_ok h (update_beta (with_exists_memory k f) r) n node"
    if "get_node (r_beta r) n = Some node" "side_ok h r n node" for node
  proof -
    have node: "node = Exists q a ts sq m k cs" using that(1) n by simp
    show ?thesis using that(2) f unfolding node side_ok_def by (fastforce simp: get_side_with)
  qed
  show "rete_inv rank content live h outer (update_beta (with_exists_memory k f) r)"
    "evolves h rank b r (update_beta (with_exists_memory k f) r)"
    by (rule rete_inv_side [OF inv, where n = n], simp_all add: kept others own)+
qed

section \<open>Allocating block orders\<close>

lemma finite_order_cells:
  assumes "orders_kept bs"
  shows "finite (order_cells bs)"
proof -
  have neg: "finite (dom (block_order (neg_memories bs ! m)))" if "m < length (neg_memories bs)" for m
    using assms that by (auto simp: orders_kept_def neg_kept_def)
  have ncc: "finite (dom (ncc_block_order (ncc_memories bs ! m)))" if "m < length (ncc_memories bs)" for m
    using assms that by (auto simp: orders_kept_def ncc_kept_def)
  let ?N = "\<Union>m<length (neg_memories bs). NegCell m ` dom (block_order (neg_memories bs ! m))"
  let ?C = "\<Union>m<length (ncc_memories bs). NccCell m ` dom (ncc_block_order (ncc_memories bs ! m))"
  let ?B = "case pending_batch bs of None \<Rightarrow> {} | Some b \<Rightarrow> ReservedCell ` dom (reserved_orders b) \<union>
    (\<Union>j<length (suspended_reserved b). SuspendedCell j ` dom (suspended_reserved b ! j))"
  have "c \<in> ?N \<union> ?C \<union> ?B" if cell: "c \<in> order_cells bs" for c
  proof (cases c)
    case (NegCell m p)
    then have "m < length (neg_memories bs)" "p \<in> dom (block_order (neg_memories bs ! m))"
      using that by (auto simp: order_cells_def split: if_splits)
    with NegCell show ?thesis by blast
  next
    case (NccCell m p)
    then have "m < length (ncc_memories bs)" "p \<in> dom (ncc_block_order (ncc_memories bs ! m))"
      using that by (auto simp: order_cells_def split: if_splits)
    with NccCell show ?thesis by blast
  next
    case (ReservedCell k)
    then show ?thesis using that by (cases "pending_batch bs") (auto simp: order_cells_def)
  next
    case (SuspendedCell j k)
    then obtain b where "pending_batch bs = Some b" "j < length (suspended_reserved b)" "k \<in> dom (suspended_reserved b ! j)"
      using cell by (cases "pending_batch bs") (auto simp: order_cells_def domIff simp del: not_None_eq split: if_splits)
    then have "c \<in> (\<Union>j<length (suspended_reserved b). SuspendedCell j ` dom (suspended_reserved b ! j))"
      using SuspendedCell by blast
    with \<open>pending_batch bs = Some b\<close> show ?thesis by simp
  qed
  then have "order_cells bs \<subseteq> ?N \<union> ?C \<union> ?B" by blast
  moreover have "finite ?N" "finite ?C" by (simp_all add: neg ncc)
  moreover have "finite ?B"
    using assms by (auto simp: orders_kept_def batch_kept_def split: option.split)
  ultimately show ?thesis by (meson finite_UnI finite_subset)
qed

text \<open>What renumbering leaves alone: which cells hold a number, and everything but the numbers.\<close>

definition suspended_depth :: "block_state \<Rightarrow> nat option" where
  "suspended_depth bs = map_option (\<lambda>b. length (suspended_reserved b)) (pending_batch bs)"

definition same_cells :: "block_state \<Rightarrow> block_state \<Rightarrow> bool" where
  "same_cells bs bs' \<longleftrightarrow> same_frame bs bs' \<and> order_cells bs' = order_cells bs \<and> suspended_depth bs' = suspended_depth bs"

lemma suspended_depth_set [simp]: "suspended_depth (set_order c n bs) = suspended_depth bs"
  by (cases c) (simp_all add: suspended_depth_def option.map_comp comp_def)

lemma suspended_depth_write: "suspended_depth (write_orders n cs bs) = suspended_depth bs"
proof (induction cs arbitrary: n bs)
  case (Cons c cs)
  from Cons.IH [of "Suc n" "set_order c (word_of_nat n) bs"] show ?case by (simp add: write_orders_def)
qed (simp add: write_orders_def)

lemma same_cells_next [simp]: "same_cells bs (bs'\<lparr>next_block_order := n\<rparr>) = same_cells bs bs'"
  by (simp add: same_cells_def same_frame_def order_cells_def suspended_depth_def)

lemma same_cells_allocate:
  assumes "enumerates walk (order_cells bs)" "allocate_block_order walk bs = Some (order, bs')"
  shows "same_cells bs bs'"
proof -
  define cs where "cs = sort_key (\<lambda>c. the (order_at bs c)) walk"
  have cs: "distinct cs" "set cs = order_cells bs" using assms(1) by (auto simp: cs_def enumerates_def)
  have live: "\<And>c. c \<in> set cs \<Longrightarrow> order_at bs c \<noteq> None" by (auto simp: cs(2) order_cells_def)
  note set = set_orders [OF cs(1) live, where n = 0]
  have "order_at (write_orders 0 cs bs) c \<noteq> None \<longleftrightarrow> order_at bs c \<noteq> None" for c
  proof (cases "c \<in> set cs")
    case True
    then obtain k where "k < length cs" "c = cs ! k" by (auto simp: in_set_conv_nth)
    with set(1) live [OF True] show ?thesis by simp
  qed (use set(2) in simp)
  then have "order_cells (write_orders 0 cs bs) = order_cells bs" by (auto simp: order_cells_def)
  then have "same_cells bs (write_orders 0 cs bs)"
    using set(4) by (simp add: same_cells_def suspended_depth_write)
  moreover have "same_cells bs bs" by (simp add: same_cells_def)
  ultimately show ?thesis
    using assms(2) by (auto simp: allocate_block_order_def Let_def cs_def [symmetric] split: if_splits)
qed

lemma same_frame_nth:
  assumes "same_frame bs bs'"
  shows "length (neg_memories bs') = length (neg_memories bs)" "length (ncc_memories bs') = length (ncc_memories bs)"
    "m < length (neg_memories bs) \<Longrightarrow> unblocked (neg_memories bs' ! m) = unblocked (neg_memories bs ! m)"
    "m < length (neg_memories bs) \<Longrightarrow> blocked (neg_memories bs' ! m) = blocked (neg_memories bs ! m)"
    "k < length (ncc_memories bs) \<Longrightarrow> ncc_unblocked (ncc_memories bs' ! k) = ncc_unblocked (ncc_memories bs ! k)"
    "k < length (ncc_memories bs) \<Longrightarrow> result_owner (ncc_memories bs' ! k) = result_owner (ncc_memories bs ! k)"
    "k < length (ncc_memories bs) \<Longrightarrow> primary_result (ncc_memories bs' ! k) = primary_result (ncc_memories bs ! k)"
proof -
  from assms have eq: "map (\<lambda>nm. nm\<lparr>block_order := Map.empty\<rparr>) (neg_memories bs') = map (\<lambda>nm. nm\<lparr>block_order := Map.empty\<rparr>) (neg_memories bs)"
    "map (\<lambda>nm. nm\<lparr>ncc_block_order := Map.empty\<rparr>) (ncc_memories bs') = map (\<lambda>nm. nm\<lparr>ncc_block_order := Map.empty\<rparr>) (ncc_memories bs)"
    by (simp_all add: same_frame_def)
  show l: "length (neg_memories bs') = length (neg_memories bs)" "length (ncc_memories bs') = length (ncc_memories bs)"
    using arg_cong [OF eq(1), of length] arg_cong [OF eq(2), of length] by simp_all
  have n: "(neg_memories bs' ! m)\<lparr>block_order := Map.empty\<rparr> = (neg_memories bs ! m)\<lparr>block_order := Map.empty\<rparr>"
    if "m < length (neg_memories bs)" for m
    using arg_cong [OF eq(1), of "\<lambda>xs. xs ! m"] that l by simp
  have c: "(ncc_memories bs' ! k)\<lparr>ncc_block_order := Map.empty\<rparr> = (ncc_memories bs ! k)\<lparr>ncc_block_order := Map.empty\<rparr>"
    if "k < length (ncc_memories bs)" for k
    using arg_cong [OF eq(2), of "\<lambda>xs. xs ! k"] that l by simp
  show "m < length (neg_memories bs) \<Longrightarrow> unblocked (neg_memories bs' ! m) = unblocked (neg_memories bs ! m)"
    "m < length (neg_memories bs) \<Longrightarrow> blocked (neg_memories bs' ! m) = blocked (neg_memories bs ! m)"
    using arg_cong [OF n, of m unblocked] arg_cong [OF n, of m blocked] by simp_all
  show "k < length (ncc_memories bs) \<Longrightarrow> ncc_unblocked (ncc_memories bs' ! k) = ncc_unblocked (ncc_memories bs ! k)"
    "k < length (ncc_memories bs) \<Longrightarrow> result_owner (ncc_memories bs' ! k) = result_owner (ncc_memories bs ! k)"
    "k < length (ncc_memories bs) \<Longrightarrow> primary_result (ncc_memories bs' ! k) = primary_result (ncc_memories bs ! k)"
    using arg_cong [OF c, of k ncc_unblocked] arg_cong [OF c, of k result_owner] arg_cong [OF c, of k primary_result] by simp_all
qed

lemma same_cells_orders:
  assumes "same_cells bs bs'"
  shows "m < length (neg_memories bs) \<Longrightarrow> dom (block_order (neg_memories bs' ! m)) = dom (block_order (neg_memories bs ! m))"
    "k < length (ncc_memories bs) \<Longrightarrow> dom (ncc_block_order (ncc_memories bs' ! k)) = dom (ncc_block_order (ncc_memories bs ! k))"
    "batch_kept (pending_batch bs) \<Longrightarrow> batch_kept (pending_batch bs')"
proof -
  have cells: "order_at bs' c \<noteq> None \<longleftrightarrow> order_at bs c \<noteq> None" for c
    using assms by (auto simp: same_cells_def order_cells_def)
  have frame: "same_frame bs bs'" and depth: "suspended_depth bs' = suspended_depth bs"
    using assms by (simp_all add: same_cells_def)
  note len = same_frame_nth(1,2) [OF frame]
  show "dom (block_order (neg_memories bs' ! m)) = dom (block_order (neg_memories bs ! m))" if "m < length (neg_memories bs)"
    using cells [of "NegCell m p" for p] that len by (auto simp: dom_def)
  show "dom (ncc_block_order (ncc_memories bs' ! k)) = dom (ncc_block_order (ncc_memories bs ! k))" if "k < length (ncc_memories bs)"
    using cells [of "NccCell k p" for p] that len by (auto simp: dom_def)
  assume kept: "batch_kept (pending_batch bs)"
  show "batch_kept (pending_batch bs')"
  proof (cases "pending_batch bs'")
    case (Some b')
    with depth obtain b where b: "pending_batch bs = Some b"
      "length (suspended_reserved b') = length (suspended_reserved b)"
      by (cases "pending_batch bs") (auto simp: suspended_depth_def)
    have "dom (reserved_orders b') = dom (reserved_orders b)"
      using cells [of "ReservedCell k" for k] Some b by (auto simp: dom_def)
    moreover have "dom (suspended_reserved b' ! j) = dom (suspended_reserved b ! j)" if "j < length (suspended_reserved b)" for j
      using cells [of "SuspendedCell j k" for k] Some b that by (auto simp: dom_def)
    ultimately have "\<forall>j<length (suspended_reserved b'). finite (dom (suspended_reserved b' ! j))" "finite (dom (reserved_orders b'))"
      using kept b by (simp_all add: batch_kept_def)
    then show ?thesis using Some by (auto simp: batch_kept_def in_set_conv_nth)
  qed (simp add: batch_kept_def)
qed

lemma net_shrinks_cells:
  assumes "same_cells (block_view r) bs'"
  shows "net_shrinks (r_beta r) ((r_beta r)\<lparr>beta_negs := neg_memories bs', beta_nccs := ncc_memories bs'\<rparr>)"
proof -
  have frame: "same_frame (block_view r) bs'" using assms by (simp add: same_cells_def)
  note f = same_frame_nth [OF frame, simplified] and o' = same_cells_orders(1,2) [OF assms, simplified]
  have "list_all2 neg_shrinks (beta_negs (r_beta r)) (neg_memories bs')"
    by (simp add: list_all2_conv_all_nth f o' neg_shrinks_def neg_kept_def)
  moreover have "list_all2 ncc_shrinks (beta_nccs (r_beta r)) (ncc_memories bs')"
    by (simp add: list_all2_conv_all_nth f o' ncc_shrinks_def ncc_kept_def)
  ultimately show ?thesis by (simp add: net_shrinks_def same_graph_def list_all2_refl f)
qed

lemma get_memory_orders: "get_memory (net\<lparr>beta_negs := negs, beta_nccs := nccs\<rparr>) = get_memory net"
  by (simp add: fun_eq_iff get_memory_def)

lemma allocate_order_inv:
  assumes inv: "rete_inv rank content live h outer r"
  shows "returns (\<lambda>(order, r'). rete_inv rank content live h outer r' \<and> evolves h rank b r r' \<and>
      net_shrinks (r_beta r) (r_beta r') \<and> r_tokens r' = r_tokens r) (allocate_order h r)"
proof (cases "allocate_block_order (walk_cells h (order_cells (block_view r))) (block_view r)")
  case (Some res)
  obtain order bs' where res: "res = (order, bs')" by (cases res)
  note i = rete_invD [OF inv]
  have walk: "enumerates (walk_cells h (order_cells (block_view r))) (order_cells (block_view r))"
    using i(1) finite_order_cells [OF i(10)] by (simp add: host_ok_def walks_def)
  have same: "same_cells (block_view r) bs'" by (rule same_cells_allocate [OF walk]) (simp add: Some res)
  let ?net = "(r_beta r)\<lparr>beta_negs := neg_memories bs', beta_nccs := ncc_memories bs'\<rparr>"
  let ?r = "set_block_view bs' r"
  have sh: "net_shrinks (r_beta r) ?net" by (rule net_shrinks_cells [OF same])
  have depth: "suspended_depth bs' = suspended_depth (block_view r)" using same by (simp add: same_cells_def)
  have ev: "evolves h rank b r ?r" for b
    using net_shrinksD(1) [OF sh] depth
    by (auto simp: evolves_def set_block_view_def batch_evolves_def suspended_depth_def split: option.split)
  have batch: "map_option batch_results (pending_ncc_results ?r) = map_option batch_results (pending_ncc_results r)"
    "map_option batch_parents (pending_ncc_results ?r) = map_option batch_parents (pending_ncc_results r)"
    "map_option batch_orders (pending_ncc_results ?r) = pending_batch bs'"
    using depth by (cases "pending_ncc_results r"; cases "pending_batch bs'";
      simp add: set_block_view_def suspended_depth_def)+
  have "rete_inv rank content live h outer ?r"
  proof (rule rete_inv_same_tokens [OF inv ev])
    show "sides_ok h ?r" by (rule sides_ok_evolves [OF i(9) ev]) (use sh in \<open>simp add: set_block_view_def\<close>)
    show "events_ok h ?r" by (rule events_ok_evolves [OF i(8) ev]) (simp_all add: set_block_view_def)
    show "batch_ok h outer ?r" by (rule batch_ok_evolves [OF i(11) ev]) (simp_all add: batch)
    show "orders_kept (block_view ?r)"
      using i(10) orders_kept_shrinks [OF sh] same_cells_orders(3) [OF same] batch(3)
      by (simp add: orders_kept_def) (simp add: set_block_view_def)
    show "node_memory_at (r_beta ?r) = node_memory_at (r_beta r)"
      by (simp add: fun_eq_iff set_block_view_def node_memory_at_def memory_id_for_node_def get_node_def get_memory_orders)
  qed (simp_all add: set_block_view_def)
  with ev sh show ?thesis by (simp add: allocate_order_def Some res) (simp add: set_block_view_def)
qed (simp add: allocate_order_def)

end
