(* ===== verification/Rete_Tokens.thy ===== *)
theory Rete_Tokens
  imports Rete_Primitives
begin

text \<open>
  Steps on tokens, activations and events keep the invariant of the network: the admission of a
  token into the store and the memory of its node, and what a terminal node does.
\<close>

section \<open>Admission of tokens\<close>

lemma unissued_None: "tokens_ok content h r \<Longrightarrow> \<not> issued h r t \<Longrightarrow> tokens (r_tokens r) t = None"
  by (cases "tokens (r_tokens r) t") (auto simp: tokens_ok_def)

lemma issued_beta [simp]: "issued h (r\<lparr>r_beta := net\<rparr>) = issued h r"
  by (simp add: fun_eq_iff issued_def)

lemma key_never_used:
  assumes "host_ok h" "tokens_ok content h r"
  shows "never_used (token_key h (tokens_issued r)) (r_tokens r)" "\<not> issued h r (token_key h (tokens_issued r))"
proof -
  let ?t = "token_key h (tokens_issued r)"
  show fresh: "\<not> issued h r ?t"
    using assms(1) by (auto simp: issued_def host_ok_def inj_on_def)
  have "(?t, c) \<notin> parent_rel (r_tokens r)" for c
  proof
    assume "(?t, c) \<in> parent_rel (r_tokens r)"
    then obtain tok where "tokens (r_tokens r) c = Some tok" "tok_parent tok = Some ?t" by (auto simp: parent_rel_iff)
    with assms(2) have "tokens (r_tokens r) ?t \<noteq> None" by (fastforce simp: tokens_ok_def token_sound_def)
    with assms(2) fresh show False by (auto simp: tokens_ok_def)
  qed
  moreover have "tokens (r_tokens r) ?t = None" by (rule unissued_None [OF assms(2) fresh])
  ultimately show "never_used ?t (r_tokens r)" by (simp add: never_used_def fresh_key_def domIff)
qed

lemma token_sound_insert:
  "token_sound content alpha net ts tok \<Longrightarrow> tokens ts t = None \<Longrightarrow> tokens ts' = (tokens ts)(t \<mapsto> u) \<Longrightarrow>
    token_sound content alpha net ts' tok"
  unfolding token_sound_def by (cases "tok_parent tok") fastforce+

lemma beta_index_ok_cong:
  assumes "\<And>t. t \<in> set (bm_tokens bm) \<Longrightarrow> bind' t = bind t"
  shows "beta_index_ok bind' bm = beta_index_ok bind bm"
proof -
  have "column (bound_key bind') (bm_tokens bm) s = column (bound_key bind) (bm_tokens bm) s" for s
    unfolding column_def bound_key_def by (simp add: assms cong: filter_cong)
  then show ?thesis by (simp add: beta_index_ok_def index_ok_def)
qed

lemma bindings_of_insert:
  "tokens ts' = (tokens ts)(t \<mapsto> tok) \<Longrightarrow> bindings_of ts' = (bindings_of ts)(t := tok_bindings tok)"
  by (auto simp: bindings_of_def fun_eq_iff)

lemma memories_ok_insert:
  assumes mem: "memories_ok r" and g: "graph_ok rank (r_beta r)" and m: "memory_id_for_node (r_beta r) n = Some m"
    and t: "tokens (r_tokens r) t = None" and ts: "tokens ts = (tokens (r_tokens r))(t \<mapsto> tok)" and own: "tok_owner tok = n"
    and r': "r_tokens r' = ts" "r_beta r' = with_beta_memory m (beta_insert_indexed t (tok_bindings tok)) (r_beta r)"
  shows "memories_ok r'"
proof -
  have "beta_index_ok (bindings_of ts) bm' \<and>
      set (bm_tokens bm') = {x. \<exists>tok. tokens ts x = Some tok \<and> tok_owner tok = n'}"
    if bm': "node_memory_at (r_beta r') n' = Some bm'" for n' bm'
  proof -
    obtain bm where bm: "node_memory_at (r_beta r) n' = Some bm"
      "bm' = (if n' = n then beta_insert_indexed t (tok_bindings tok) bm else bm)"
      using bm' node_memory_with [OF g m, of _ n'] by (auto simp: r' split: if_splits)
    have ok: "beta_index_ok (bindings_of (r_tokens r)) bm"
      "set (bm_tokens bm) = {x. \<exists>tok. tokens (r_tokens r) x = Some tok \<and> tok_owner tok = n'}"
      using mem bm(1) by (simp_all add: memories_ok_def)
    have new: "t \<notin> set (bm_tokens bm)" using ok(2) t by auto
    have "beta_index_ok (bindings_of ts) bm = beta_index_ok (bindings_of (r_tokens r)) bm"
      by (rule beta_index_ok_cong) (use new in \<open>auto simp: bindings_of_insert [OF ts]\<close>)
    with ok(1) have bm_ok: "beta_index_ok (bindings_of ts) bm" by simp
    then have "beta_index_ok (bindings_of ts) bm'"
      by (simp add: bm(2) beta_index_ok_insert bindings_of_insert [OF ts])
    moreover have "set (bm_tokens bm') = {x. \<exists>tok. tokens ts x = Some tok \<and> tok_owner tok = n'}"
      using ok(2) own t by (auto simp: bm(2) ts)
    ultimately show ?thesis by simp
  qed
  then show ?thesis unfolding memories_ok_def r'(1) by blast
qed

lemma not_root:
  assumes "graph_ok rank net" "get_node net n = Some node" "parent_node node \<noteq> None"
  shows "n \<noteq> root_id net"
  using graph_okD(1) [OF assms(1)] assms(2,3) by auto

lemma root_ok_insert:
  "root_ok r \<Longrightarrow> tokens (r_tokens r) t = None \<Longrightarrow> tokens (r_tokens r') = (tokens (r_tokens r))(t \<mapsto> tok) \<Longrightarrow>
    root_id (r_beta r') = root_id (r_beta r) \<Longrightarrow> tok_owner tok \<noteq> root_id (r_beta r) \<Longrightarrow> root_ok r'"
proof -
  assume a: "root_ok r" "tokens (r_tokens r) t = None" "tokens (r_tokens r') = (tokens (r_tokens r))(t \<mapsto> tok)"
    "root_id (r_beta r') = root_id (r_beta r)" "tok_owner tok \<noteq> root_id (r_beta r)"
  have "(\<exists>tok. tokens (r_tokens r') x = Some tok \<and> tok_owner tok = root_id (r_beta r')) \<longleftrightarrow>
      (\<exists>tok. tokens (r_tokens r) x = Some tok \<and> tok_owner tok = root_id (r_beta r))" for x
    using a(2-5) by auto
  with a(1) show "root_ok r'" by (simp add: root_ok_def)
qed

lemma activation_sound_insert:
  "activation_sound net ts a \<Longrightarrow> tokens ts t = None \<Longrightarrow> tokens ts' = (tokens ts)(t \<mapsto> tok) \<Longrightarrow> activation_sound net ts' a"
  unfolding activation_sound_def by fastforce

text \<open>A new token is added to the store and to the memory of its node.\<close>

lemma admit_state:
  assumes inv: "rete_inv rank content live h outer r" and n: "get_node (r_beta r) n = Some node" "own_memory node = Some m"
    and tok: "tok_owner tok = n" "tok_parent tok \<noteq> None" "token_sound content (r_alpha r) (r_beta r) (r_tokens r) tok"
    and ts: "ts_ok ts" "tokens ts = (tokens (r_tokens r))(t \<mapsto> tok)" and t: "t = token_key h (tokens_issued r)"
    and r': "r' = r\<lparr>tokens_issued := tokens_issued r + 1, r_tokens := ts,
      r_beta := with_beta_memory m (beta_insert_indexed t (tok_bindings tok)) (r_beta r)\<rparr>"
  shows "rete_inv rank content live h outer r'" "evolves h rank b r r'" "issued h r' t"
proof -
  note i = rete_invD [OF inv]
  have fresh: "\<not> issued h r t" using key_never_used [OF i(1,4)] by (simp add: t)
  then have none: "tokens (r_tokens r) t = None" using unissued_None [OF i(4)] fresh by simp
  note ts' = ts(2)
  show ev: "evolves h rank b r r'" for b
    using fresh by (auto simp: r' evolves_def ts' batch_evolves_def split: option.split)
  show issued: "issued h r' t" by (auto simp: r' issued_def t)
  have mem: "memory_id_for_node (r_beta r) n = Some m" using n by (simp add: memory_id_for_node_def)
  obtain p where p: "parent_node node = Some p"
    using tok n by (auto simp: token_sound_def split: option.splits)
  have nroot: "n \<noteq> root_id (r_beta r)" by (rule not_root [OF i(2) n(1)]) (simp add: p)
  have toks: "tokens_ok content h r'"
  proof -
    have "issued h r' t' \<and> token_sound content (r_alpha r) (r_beta r') ts tok'" if "tokens ts t' = Some tok'" for t' tok'
    proof (cases "t' = t")
      case True
      with that ts' have "tok' = tok" by simp
      with True issued token_sound_insert [OF tok(3) none ts'] show ?thesis by (simp add: r' token_sound_def)
    next
      case False
      with that ts' have old: "tokens (r_tokens r) t' = Some tok'" by simp
      then have "issued h r t'" "token_sound content (r_alpha r) (r_beta r) (r_tokens r) tok'"
        using i(4) by (auto simp: tokens_ok_def)
      with issued_evolves [OF _ ev] token_sound_insert [OF _ none ts'] show ?thesis by (simp add: r' token_sound_def)
    qed
    with ts(1) show ?thesis by (simp add: r' tokens_ok_def)
  qed
  have mems: "memories_ok r'"
    by (rule memories_ok_insert [OF i(5) i(2) mem none ts' tok(1)]) (simp_all add: r')
  have root: "root_ok r'"
    by (rule root_ok_insert [OF i(6) none, of _ tok])
      (use nroot tok(1) in \<open>simp_all add: r' ts' with_beta_memory_def\<close>)
  have ag: "agenda_sound h r'"
    using i(7) activation_sound_insert [OF _ none ts'] by (auto simp: r' agenda_sound_def activation_sound_def)
  have sh: "net_shrinks (r_beta r) (r_beta r')" by (simp add: r' net_shrinks_beta)
  have sides: "sides_ok h r'" by (rule sides_ok_evolves [OF i(9) ev sh])
  have evs: "events_ok h r'" by (rule events_ok_evolves [OF i(8) ev]) (simp_all add: r')
  have kept: "orders_kept (block_view r')"
    using i(10) orders_kept_shrinks [OF sh] by (simp add: r' orders_kept_def)
  have batch: "batch_ok h outer r'" by (rule batch_ok_evolves [OF i(11) ev]) (simp_all add: r')
  have graph: "graph_ok rank (r_beta r')" by (rule graph_ok_same [OF i(2)]) (simp add: r')
  show "rete_inv rank content live h outer r'"
    using i(1,3) graph toks mems root ag sides evs kept batch by (simp add: r' rete_inv_def)
qed

definition admitted :: "host \<Rightarrow> (node_id \<Rightarrow> nat) \<Rightarrow> nat \<Rightarrow> rete \<Rightarrow> token \<Rightarrow> token_id \<Rightarrow> rete \<Rightarrow> bool" where
  "admitted h rank b r tok t r' \<longleftrightarrow> evolves h rank b r r' \<and> owned h r' t (tok_owner tok) \<and>
     tokens (r_tokens r') = (tokens (r_tokens r))(t \<mapsto> tok)"

lemma admit_token_inv:
  assumes inv: "rete_inv rank content live h outer r" and n: "get_node (r_beta r) (tok_owner tok) = Some node" "own_memory node = Some m"
    and tok: "tok_parent tok \<noteq> None" "token_sound content (r_alpha r) (r_beta r) (r_tokens r) tok"
      "lengths \<noteq> None \<Longrightarrow> tok_fact tok \<noteq> None"
  shows "returns (\<lambda>(t, r'). rete_inv rank content live h outer r' \<and> admitted h rank b r tok t r')
    (admit_token h tok lengths m r)"
proof -
  let ?t = "token_key h (tokens_issued r)"
  let ?ts = "case lengths of None \<Rightarrow> token_insert ?t tok (r_tokens r) | Some ls \<Rightarrow> insert_sequence_match ?t tok ls (r_tokens r)"
  note i = rete_invD [OF inv]
  have live: "parent_live tok (r_tokens r)" using tok(1,2) by (auto simp: parent_live_def token_sound_def split: option.splits)
  have ok: "ts_ok ?ts"
    using token_insert_ok [OF _ key_never_used(1) [OF i(1,4)] live] i(4) tok(3)
      insert_sequence_match_ok [OF _ key_never_used(1) [OF i(1,4)] live]
    by (auto simp: tokens_ok_def split: option.split)
  have tokens: "tokens ?ts = (tokens (r_tokens r))(?t \<mapsto> tok)"
    by (simp add: insert_sequence_match_def Let_def split: option.split)
  let ?r = "r\<lparr>tokens_issued := tokens_issued r + 1, r_tokens := ?ts,
      r_beta := with_beta_memory m (beta_insert_indexed ?t (tok_bindings tok)) (r_beta r)\<rparr>"
  note s = admit_state [OF inv n refl tok(1,2) ok tokens refl refl]
  from s(3) have own: "owned h ?r ?t (tok_owner tok)" by (simp add: owned_def tokens)
  show ?thesis
    using s(1,2) own tokens by (simp add: admit_token_def insert_token_def Let_def admitted_def)
qed

section \<open>Terminal nodes\<close>

text \<open>The walk from a stored token up to the root ends and finds a tag for every step.\<close>

lemma recency_loop_returns:
  assumes ok: "ts_ok ts" and sound: "\<And>t tok. tokens ts t = Some tok \<Longrightarrow> token_sound content alpha net ts tok"
    and known: "facts_known content fb alpha"
  shows "tokens ts t = Some tok \<Longrightarrow> \<exists>tags. recency_loop net ts fb t acc = Some (Some tags)"
proof (induction t arbitrary: tok acc rule: wf_induct_rule [OF wf_parent_rel [OF ok]])
  case (1 t)
  from sound [OF 1(2)] obtain node where node: "get_node net (tok_owner tok) = Some node" "own_memory node \<noteq> None"
    by (auto simp: token_sound_def)
  have next_tags: "\<exists>tags. (case tok_parent tok of None \<Rightarrow> Some (Some acc)
      | Some parent \<Rightarrow> recency_loop net ts fb parent acc) = Some (Some tags)" for acc
  proof (cases "tok_parent tok")
    case (Some p)
    with sound [OF 1(2)] obtain parent_token where p: "tokens ts p = Some parent_token"
      by (auto simp: token_sound_def)
    have "(p, t) \<in> parent_rel ts" using Some 1(2) by (simp add: parent_rel_iff)
    from 1(1) [OF this p] Some show ?thesis by simp
  qed simp
  have join: "\<exists>f entry tag. tok_fact tok = Some f \<and> fact_base_get fb f = Some entry \<and>
      recency_from_timestamp (entry_timestamp entry) = Some tag"
    if join: "node = Join q a tests sq bs m cs" for q a tests sq bs m cs
  proof -
    obtain f where f: "tok_fact tok = Some f"
      using sound [OF 1(2)] node(1) join by (fastforce simp: token_sound_def derived_def split: option.splits)
    then obtain am where "alpha_memory_at alpha a = Some am" "f \<in> set (mem_facts am)"
      using sound [OF 1(2)] node(1) join by (fastforce simp: token_sound_def)
    then have "am \<in> set (memories alpha)" by (auto simp: alpha_memory_at_def list_get_def split: if_splits)
    with known \<open>f \<in> set (mem_facts am)\<close> obtain entry where "fact_base_get fb f = Some entry"
      "entry_timestamp entry \<noteq> u64_max" unfolding facts_known_def by blast
    moreover have "\<exists>tag. recency_from_timestamp (entry_timestamp entry) = Some tag"
    proof -
      have "unat (entry_timestamp entry) \<noteq> unat u64_max" using calculation(2) by (simp add: word_unat_eq_iff)
      then show ?thesis using unsigned_less [where 'a = nat, of "entry_timestamp entry"]
        by (simp add: recency_from_timestamp_def checked_add_u_def u64_max_def unsigned_minus_1_eq_mask mask_eq_exp_minus_1)
    qed
    ultimately show ?thesis using f by blast
  qed
  show ?case
  proof (cases node)
    case (Join q a tests sq bs m cs)
    from join [OF this] node 1(2) Join next_tags show ?thesis
      by (subst recency_loop.simps) (auto simp: token_get_def)
  qed (use node 1(2) next_tags in \<open>subst recency_loop.simps, simp add: token_get_def\<close>)+
qed

lemma push_event:
  assumes inv: "rete_inv rank content live h outer r" and e: "event_sound h r e"
    and r': "r' = r\<lparr>pending_events := pending_events r @ [e],
      pending_auto_focus_count := pending_auto_focus_count r + (if is_auto_focus e then 1 else 0),
      pending_ncc_left_count := pending_ncc_left_count r + (if is_ncc_left e then 1 else 0)\<rparr>"
  shows "rete_inv rank content live h outer r'" "evolves h rank b r r'"
proof -
  note i = rete_invD [OF inv]
  show ev: "evolves h rank b r r'" for b by (simp add: r' evolves_def batch_evolves_def split: option.split)
  show "rete_inv rank content live h outer r'"
  proof (rule rete_inv_same_tokens [OF inv ev])
    show "sides_ok h r'" by (rule sides_ok_evolves [OF i(9) ev]) (simp add: r')
    show "events_ok h r'"
      using i(8) e event_sound_evolves [OF _ ev] by (auto simp: events_ok_def r')
    show "orders_kept (block_view r')" using i(10) by (simp add: r' orders_kept_def)
    show "batch_ok h outer r'" by (rule batch_ok_evolves [OF i(11) ev]) (simp_all add: r')
  qed (simp_all add: r')
qed

lemma add_activation_inv:
  assumes inv: "rete_inv rank content live h outer r" and a: "activation_sound (r_beta r) (r_tokens r) a"
  shows "returns (\<lambda>(i, r'). rete_inv rank content live h outer r' \<and> evolves h rank b r r') (add_activation h a r)"
proof (cases "slot_map_capacity \<le> agenda_len (r_agenda r)")
  case False
  let ?i = "activation_key h (activations_issued r)" and ?walk = "walk_activations h (dom (activations (r_agenda r)))"
  define r' where "r' = r\<lparr>activations_issued := activations_issued r + 1, r_agenda := agenda_add ?walk ?i a (r_agenda r)\<rparr>"
  note i = rete_invD [OF inv]
  have ag: "ag_ok (r_agenda r)" "\<And>j x. activations (r_agenda r) j = Some x \<Longrightarrow>
      (\<exists>k<activations_issued r. j = activation_key h k) \<and> activation_sound (r_beta r) (r_tokens r) x"
    using i(7) by (simp_all add: agenda_sound_def)
  have inj: "inj (activation_key h)" and w: "walks (walk_activations h)" using i(1) by (simp_all add: host_ok_def)
  have fresh: "fresh_key ?i (activations (r_agenda r))"
    using ag(2) [of ?i] inj by (cases "activations (r_agenda r) ?i") (auto simp: fresh_key_def inj_on_def)
  have "finite (dom (activations (r_agenda r)))" using ag(1) by (simp add: ag_ok_def acts_ok_def)
  then have walk: "enumerates ?walk (dom (activations (r_agenda r)))" using w by (simp add: walks_def)
  have room: "agenda_room (r_agenda r)" using False by (simp add: agenda_room_def agenda_len_def slot_map_capacity_def)
  note add = agenda_add_ok [OF ag(1) fresh room walk, where a = a]
  have "(\<exists>k<activations_issued r'. j = activation_key h k) \<and> activation_sound (r_beta r') (r_tokens r') x"
    if j: "activations (r_agenda r') j = Some x" for j x
  proof (cases "j = ?i")
    case True
    with add(5) j a have "activation_sound (r_beta r') (r_tokens r') x" by (auto simp: r'_def activation_sound_def)
    with True show ?thesis by (auto simp: r'_def)
  next
    case other: False
    from add(6) [OF other] j obtain y where y: "activations (r_agenda r) j = Some y" "y\<lparr>act_seq := 0\<rparr> = x\<lparr>act_seq := 0\<rparr>"
      by (cases "activations (r_agenda r) j") (auto simp: r'_def)
    have "act_token x = act_token y" "act_rule x = act_rule y" "act_salience x = act_salience y" "act_complexity x = act_complexity y"
      using arg_cong [OF y(2), of act_token] arg_cong [OF y(2), of act_rule] arg_cong [OF y(2), of act_salience]
        arg_cong [OF y(2), of act_complexity] by simp_all
    with ag(2) [OF y(1)] show ?thesis by (auto simp: r'_def activation_sound_def intro: less_SucI)
  qed
  with add(1) have sound: "agenda_sound h r'" by (simp add: agenda_sound_def r'_def)
  have ev: "evolves h rank b r r'" for b by (simp add: r'_def evolves_def batch_evolves_def split: option.split)
  have "sides_ok h r'" by (rule sides_ok_evolves [OF i(9) ev]) (simp add: r'_def)
  moreover have "events_ok h r'" by (rule events_ok_evolves [OF i(8) ev]) (simp_all add: r'_def)
  moreover have "batch_ok h outer r'" by (rule batch_ok_evolves [OF i(11) ev]) (simp_all add: r'_def)
  moreover have "tokens_ok content h r'" "root_ok r'" "memories_ok r'"
    by (rule stores_same_tokens [OF ev]; use i(4,5,6) in \<open>simp add: r'_def\<close>)+
  ultimately have "rete_inv rank content live h outer r'"
    using i sound by (simp add: rete_inv_def) (simp add: r'_def orders_kept_def)
  with ev False show ?thesis by (simp add: add_activation_def Let_def r'_def)
qed (simp add: add_activation_def)

lemma new_activations_inv:
  assumes inv: "rete_inv rank content live h outer r"
  shows "rete_inv rank content live h outer (r\<lparr>new_activations := x\<rparr>)" "evolves h rank b r (r\<lparr>new_activations := x\<rparr>)"
proof -
  let ?r = "r\<lparr>new_activations := x\<rparr>"
  note i = rete_invD [OF inv]
  show ev: "evolves h rank b r ?r" for b by (simp add: evolves_def batch_evolves_def split: option.split)
  show "rete_inv rank content live h outer ?r"
  proof (rule rete_inv_same_tokens [OF inv ev])
    show "sides_ok h ?r" by (rule sides_ok_evolves [OF i(9) ev]) simp
    show "events_ok h ?r" by (rule events_ok_evolves [OF i(8) ev]) simp_all
    show "batch_ok h outer ?r" by (rule batch_ok_evolves [OF i(11) ev]) simp_all
    show "orders_kept (block_view ?r)" using i(10) by (simp add: orders_kept_def)
  qed simp_all
qed

lemma terminal_activate_inv:
  assumes inv: "rete_inv rank content live h outer r" and known: "facts_known content fb (r_alpha r)"
    and n: "get_node (r_beta r) n = Some (Terminal q rule salience complexity)" and t: "owned h r t q"
  shows "returns (\<lambda>r'. rete_inv rank content live h outer r' \<and> evolves h rank b r r')
    (terminal_activate h fb rule salience complexity t r)"
proof (cases "rule \<in> disabled_rules r \<or> \<not> token_live r t")
  case False
  then obtain tok where tok: "tokens (r_tokens r) t = Some tok" by (auto simp: token_live_def token_get_def)
  note i = rete_invD [OF inv]
  have own: "tok_owner tok = q" by (rule owned_live [OF t tok])
  obtain tags where tags: "recency_loop (r_beta r) (r_tokens r) fb t [] = Some (Some tags)"
    using recency_loop_returns [OF _ _ known tok, of "r_beta r" "[]"] i(4) by (auto simp: tokens_ok_def)
  let ?a = "\<lparr>act_id = activation_key h (activations_issued r), act_rule = rule, act_token = t, act_salience = salience,
    act_complexity = complexity, act_timestamp = latest_timestamp (rev tags), act_seq = 0, act_recency = rev tags\<rparr>"
  have sound: "activation_sound (r_beta r) (r_tokens r) ?a"
    using tok own n by (auto simp: activation_sound_def)
  define log :: "activation_id \<times> rete \<Rightarrow> rete" where "log = (\<lambda>(i, r1). r1\<lparr>new_activations := new_activations r1 @ [i]\<rparr>)"
  define focus :: "rete \<Rightarrow> rete" where "focus = (\<lambda>r1. if rule \<in> auto_focus_rules r1
    then r1\<lparr>pending_events := pending_events r1 @ [EvAutoFocus rule], pending_auto_focus_count := pending_auto_focus_count r1 + 1\<rparr>
    else r1)"
  have after: "rete_inv rank content live h outer (focus (log (i, r1))) \<and> evolves h rank b r (focus (log (i, r1)))"
    if r1: "rete_inv rank content live h outer r1" "evolves h rank b r r1" for i r1
  proof -
    have inv2: "rete_inv rank content live h outer (log (i, r1))" and ev1: "evolves h rank b r1 (log (i, r1))"
      by (simp_all add: log_def new_activations_inv [OF r1(1)])
    have ev2: "evolves h rank b r (log (i, r1))" by (rule evolves_trans [OF r1(2) ev1])
    have snd: "event_sound h (log (i, r1)) (EvAutoFocus rule)" by (simp add: event_sound_def)
    note push = push_event [OF inv2 snd refl]
    show ?thesis
      using push(1) evolves_trans [OF ev2 push(2)] inv2 ev2 by (simp add: focus_def)
  qed
  have "terminal_activate h fb rule salience complexity t r = and_then (add_activation h ?a r) (\<lambda>ir. Inr (focus (log ir)))"
    using False tags
    by (cases "add_activation h ?a r")
      (simp_all add: terminal_activate_def activation_recency_def focus_def log_def Let_def case_prod_beta cong: if_cong)
  moreover have "returns (\<lambda>r'. rete_inv rank content live h outer r' \<and> evolves h rank b r r')
      (and_then (add_activation h ?a r) (\<lambda>ir. Inr (focus (log ir))))"
    by (rule returns_and_then [OF add_activation_inv [OF inv sound, where b = b]]) (use after in auto)
  ultimately show ?thesis by simp
qed (use inv in \<open>auto simp: terminal_activate_def\<close>)

end
