(* ===== verification/Rete_Cascade.thy ===== *)
theory Rete_Cascade
  imports Rete_Tokens
begin

text \<open>
  The removal of tokens. Tokens first leave the store with all their descendants, then results they
  are for negated conjunctions are withdrawn, and last they leave the agenda, the memories of their
  nodes and the bookkeeping below. In between, the memories and the agenda still describe the store
  with the removed tokens put back: the network is torn along the list of removed tokens.
\<close>

section \<open>Torn networks\<close>

definition mended :: "(token_id \<times> token) list \<Rightarrow> token_store \<Rightarrow> token_store" where
  "mended removed ts = ts\<lparr>tokens := tokens ts ++ map_of removed\<rparr>"

definition memories_hold :: "token_store \<Rightarrow> rete \<Rightarrow> bool" where
  "memories_hold ts r \<longleftrightarrow>
     (\<forall>n bm. node_memory_at (r_beta r) n = Some bm \<longrightarrow> beta_index_ok (bindings_of ts) bm \<and>
        set (bm_tokens bm) = {t. \<exists>tok. tokens ts t = Some tok \<and> tok_owner tok = n})"

definition agenda_holds :: "host \<Rightarrow> token_store \<Rightarrow> rete \<Rightarrow> bool" where
  "agenda_holds h ts r \<longleftrightarrow> ag_ok (r_agenda r) \<and>
     (\<forall>i a. activations (r_agenda r) i = Some a \<longrightarrow> (\<exists>k < activations_issued r. i = activation_key h k) \<and>
        activation_sound (r_beta r) ts a)"

definition torn ::
  "(node_id \<Rightarrow> nat) \<Rightarrow> (fact_id \<Rightarrow> fact) \<Rightarrow> fact_id list \<Rightarrow> host \<Rightarrow> pending_ncc_result list \<Rightarrow>
   (token_id \<times> token) list \<Rightarrow> rete \<Rightarrow> bool"
where
  "torn rank content live h outer removed r \<longleftrightarrow>
     host_ok h \<and> graph_ok rank (r_beta r) \<and> net_ok content live (r_alpha r) \<and>
     tokens_ok content h r \<and> memories_hold (mended removed (r_tokens r)) r \<and> root_ok r \<and>
     agenda_holds h (mended removed (r_tokens r)) r \<and> events_ok h r \<and> sides_ok h r \<and>
     orders_kept (block_view r) \<and> batch_ok h outer r \<and> distinct (map fst removed) \<and>
     (\<forall>t tok. (t, tok) \<in> set removed \<longrightarrow> tokens (r_tokens r) t = None \<and> issued h r t)"

lemma tornD:
  assumes "torn rank content live h outer removed r"
  shows "host_ok h" "graph_ok rank (r_beta r)" "net_ok content live (r_alpha r)" "tokens_ok content h r"
    "memories_hold (mended removed (r_tokens r)) r" "root_ok r" "agenda_holds h (mended removed (r_tokens r)) r"
    "events_ok h r" "sides_ok h r" "orders_kept (block_view r)" "batch_ok h outer r" "distinct (map fst removed)"
    "(t, tok) \<in> set removed \<Longrightarrow> tokens (r_tokens r) t = None \<and> issued h r t"
  using assms unfolding torn_def by blast+

lemma mended_Nil [simp]: "tokens (mended [] ts) = tokens ts"
  by (simp add: mended_def)

lemma bindings_of_cong: "tokens ts = tokens ts' \<Longrightarrow> bindings_of ts = bindings_of ts'"
  by (simp add: bindings_of_def fun_eq_iff)

lemma hold_cong:
  "tokens ts = tokens ts' \<Longrightarrow> memories_hold ts r = memories_hold ts' r"
  "tokens ts = tokens ts' \<Longrightarrow> agenda_holds h ts r = agenda_holds h ts' r"
  using bindings_of_cong [of ts ts'] by (simp_all add: memories_hold_def agenda_holds_def activation_sound_def)

lemma torn_Nil: "torn rank content live h outer [] r = rete_inv rank content live h outer r"
proof -
  have "memories_hold (mended [] (r_tokens r)) r = memories_ok r" "agenda_holds h (mended [] (r_tokens r)) r = agenda_sound h r"
    using hold_cong [of "mended [] (r_tokens r)" "r_tokens r"]
    by (simp_all add: memories_hold_def memories_ok_def agenda_holds_def agenda_sound_def)
  then show ?thesis by (simp add: torn_def rete_inv_def)
qed

text \<open>Side memories may shrink meanwhile.\<close>

lemma torn_shrinks:
  assumes inv: "torn rank content live h outer removed r" and sh: "net_shrinks (r_beta r) net"
    and mem: "node_memory_at net = node_memory_at (r_beta r)"
  shows "torn rank content live h outer removed (r\<lparr>r_beta := net\<rparr>)" "evolves h rank b r (r\<lparr>r_beta := net\<rparr>)"
proof -
  let ?r = "r\<lparr>r_beta := net\<rparr>"
  note i = tornD [OF inv]
  show ev: "evolves h rank b r ?r" for b
    using net_shrinksD(1) [OF sh] by (simp add: evolves_def batch_evolves_def split: option.split)
  note s = stores_same_tokens [OF ev, simplified]
  have "graph_ok rank net" by (rule graph_ok_same [OF i(2) net_shrinksD(1) [OF sh]])
  moreover have "sides_ok h ?r" by (rule sides_ok_evolves [OF i(9) ev]) (simp add: sh)
  moreover have "events_ok h ?r" by (rule events_ok_evolves [OF i(8) ev]) simp_all
  moreover have "orders_kept (block_view ?r)" using i(10) orders_kept_shrinks [OF sh] by (simp add: orders_kept_def)
  moreover have "batch_ok h outer ?r" by (rule batch_ok_evolves [OF i(11) ev]) simp_all
  moreover have "get_node net = get_node (r_beta r)" using same_graph_node [OF net_shrinksD(1) [OF sh]] .
  ultimately show "torn rank content live h outer removed ?r"
    using i s(1) [OF i(4)] s(2) [OF i(6)]
    by (simp add: torn_def memories_hold_def agenda_holds_def activation_sound_def mem)
qed

section \<open>Out of the store\<close>

lemma root_has_no_parent:
  assumes "tokens_ok content h r" "graph_ok rank (r_beta r)" "tokens (r_tokens r) t = Some tok" "tok_owner tok = root_id (r_beta r)"
  shows "tok_parent tok = None"
proof (rule ccontr)
  assume "tok_parent tok \<noteq> None"
  then obtain node p where "get_node (r_beta r) (tok_owner tok) = Some node" "parent_node node = Some p"
    using assms(1,3) by (fastforce simp: tokens_ok_def token_sound_def)
  with not_root [OF assms(2)] assms(4) show False by auto
qed

lemma descendants_owner:
  assumes "tokens_ok content h r" "graph_ok rank (r_beta r)"
  shows "x \<in> descendants (r_tokens r) t \<Longrightarrow> tokens (r_tokens r) t = Some tok \<Longrightarrow> tokens (r_tokens r) x = Some u \<Longrightarrow>
    rank (tok_owner tok) \<le> rank (tok_owner u)"
proof -
  assume x: "x \<in> descendants (r_tokens r) t" and t: "tokens (r_tokens r) t = Some tok" and u: "tokens (r_tokens r) x = Some u"
  from x have "(t, x) \<in> (parent_rel (r_tokens r))\<^sup>*" by (simp add: descendants_def)
  then show ?thesis using u
  proof (induction arbitrary: u)
    case base
    with t show ?case by simp
  next
    case (step y z)
    from step.hyps(2) step.prems have y: "tok_parent u = Some y" by (auto simp: parent_rel_iff)
    then obtain v node where v: "tokens (r_tokens r) y = Some v" "get_node (r_beta r) (tok_owner u) = Some node"
      "parent_node node = Some (tok_owner v)"
      using assms(1) step.prems by (fastforce simp: tokens_ok_def token_sound_def)
    from graph_okD(5) [OF assms(2) v(2,3)] obtain above cs where
      "get_node (r_beta r) (tok_owner v) = Some above" "child_nodes above = Some cs" "tok_owner u \<in> set cs" by blast
    from graph_okD(3) [OF assms(2) this] step.IH [OF v(1)] show ?case by simp
  qed
qed

lemma torn_cascade:
  assumes inv: "torn rank content live h outer removed r" and cas: "remove_cascade (walk_tokens h) t (r_tokens r) = Some (felled, ts)"
    and nroot: "\<forall>tok. tokens (r_tokens r) t = Some tok \<longrightarrow> tok_owner tok \<noteq> root_id (r_beta r)"
  shows "torn rank content live h outer (removed @ felled) (r\<lparr>r_tokens := ts\<rparr>)" (is ?torn)
    and "evolves h rank b r (r\<lparr>r_tokens := ts\<rparr>)" (is ?ev)
    and "\<And>x u. (x, u) \<in> set felled \<Longrightarrow> x \<in> descendants (r_tokens r) t \<and> tokens (r_tokens r) x = Some u"
    and "\<And>x. tokens ts x = (if x \<in> descendants (r_tokens r) t then None else tokens (r_tokens r) x)"
proof -
  let ?r = "r\<lparr>r_tokens := ts\<rparr>" and ?D = "below (r_tokens r) [t]"
  note i = tornD [OF inv]
  have ok: "ts_ok (r_tokens r)" using i(4) by (simp add: tokens_ok_def)
  have w: "walks (walk_tokens h)" using i(1) by (simp add: host_ok_def)
  from cascade_loop_ok [OF ok w, of "[t]" "[]"] cas have c: "ts_ok ts" "distinct (map fst felled)"
    "set felled = {(i, u). i \<in> ?D \<and> tokens (r_tokens r) i = Some u}"
    "tokens ts = (\<lambda>i. if i \<in> ?D then None else tokens (r_tokens r) i)"
    by (auto simp: remove_cascade_def)
  have D: "x \<in> ?D \<longleftrightarrow> x \<in> descendants (r_tokens r) t \<and> t \<in> dom (tokens (r_tokens r))" for x
    by (auto simp: below_def descendants_def)
  show "x \<in> descendants (r_tokens r) t \<and> tokens (r_tokens r) x = Some u" if "(x, u) \<in> set felled" for x u
    using that D by (auto simp: c(3))
  have dead: "x = t" if "x \<in> descendants (r_tokens r) t" "t \<notin> dom (tokens (r_tokens r))" "x \<notin> dom (tokens (r_tokens r)) \<or> True" for x
  proof -
    from that(1) have "(t, x) \<in> (parent_rel (r_tokens r))\<^sup>*" by (simp add: descendants_def)
    then show ?thesis
    proof (cases rule: converse_rtranclE)
      case (step y)
      then obtain u where "tokens (r_tokens r) y = Some u" "tok_parent u = Some t" by (auto simp: parent_rel_iff)
      then have "t \<in> dom (tokens (r_tokens r))" using i(4) by (fastforce simp: tokens_ok_def token_sound_def)
      with that(2) show ?thesis by simp
    qed simp
  qed
  show "tokens ts x = (if x \<in> descendants (r_tokens r) t then None else tokens (r_tokens r) x)" for x
    using dead [of x] D [of x] by (cases "t \<in> dom (tokens (r_tokens r))") (auto simp: c(4) domIff)
  show ev: "evolves h rank b r ?r" for b
    by (simp add: evolves_def c(4) batch_evolves_def split: option.split)
  have up: "p \<notin> ?D" if "x \<notin> ?D" "tokens (r_tokens r) x = Some u" "tok_parent u = Some p" for x u p
  proof
    assume "p \<in> ?D"
    then obtain s where "s \<in> set [t] \<inter> dom (tokens (r_tokens r))" "(s, p) \<in> (parent_rel (r_tokens r))\<^sup>*"
      by (auto simp: below_def)
    moreover have "(p, x) \<in> parent_rel (r_tokens r)" using that(2,3) by (simp add: parent_rel_iff)
    ultimately have "x \<in> ?D" unfolding below_def by (blast intro: rtrancl_into_rtrancl)
    with that(1) show False ..
  qed
  have toks: "tokens_ok content h ?r"
  proof -
    have "issued h ?r x \<and> token_sound content (r_alpha r) (r_beta r) ts u" if "tokens ts x = Some u" for x u
    proof -
      have x: "x \<notin> ?D" "tokens (r_tokens r) x = Some u" using that by (auto simp: c(4) split: if_splits)
      then have s: "issued h r x" "token_sound content (r_alpha r) (r_beta r) (r_tokens r) u"
        using i(4) by (auto simp: tokens_ok_def)
      have "token_sound content (r_alpha r) (r_beta r) ts u"
        using s(2) up [OF x] unfolding token_sound_def by (cases "tok_parent u") (auto simp: c(4))
      with issued_evolves [OF s(1) ev] show ?thesis by simp
    qed
    with c(1) show ?thesis by (simp add: tokens_ok_def)
  qed
  have root: "root_ok ?r"
  proof -
    have "x \<notin> ?D" if "tokens (r_tokens r) x = Some u" "tok_owner u = root_id (r_beta r)" for x u
    proof
      assume "x \<in> ?D"
      then have t: "t \<in> dom (tokens (r_tokens r))" "(t, x) \<in> (parent_rel (r_tokens r))\<^sup>*" by (auto simp: below_def)
      from t(2) show False
      proof (cases rule: rtranclE)
        case base
        with nroot that show ?thesis by simp
      next
        case (step y)
        with root_has_no_parent [OF i(4,2) that] that show ?thesis by (auto simp: parent_rel_iff)
      qed
    qed
    then have "(\<exists>tok. tokens ts x = Some tok \<and> tok_owner tok = root_id (r_beta r)) \<longleftrightarrow>
        (\<exists>tok. tokens (r_tokens r) x = Some tok \<and> tok_owner tok = root_id (r_beta r))" for x
      by (auto simp: c(4))
    with i(6) show ?thesis by (simp add: root_ok_def)
  qed
  have disj: "x \<notin> fst ` set removed" if "x \<in> ?D" "tokens (r_tokens r) x = Some u" for x u
    using i(13) that by force
  have live: "x \<in> dom (tokens (r_tokens r))" if "x \<in> ?D" for x
    using that below_subset by blast
  have felled: "map_of felled x = (if x \<in> ?D then tokens (r_tokens r) x else None)" for x
  proof (cases "x \<in> ?D")
    case True
    then obtain u where "tokens (r_tokens r) x = Some u" using live by blast
    with True have "(x, u) \<in> set felled" by (simp add: c(3))
    with c(2) True \<open>tokens (r_tokens r) x = Some u\<close> show ?thesis by simp
  next
    case False
    then have "x \<notin> fst ` set felled" by (auto simp: c(3))
    with False show ?thesis by (simp add: map_of_eq_None_iff)
  qed
  have removed: "map_of removed x = None" if "x \<in> ?D" for x
    using live [OF that] disj [OF that] by (auto simp: map_of_eq_None_iff)
  have same: "tokens (mended (removed @ felled) ts) = tokens (mended removed (r_tokens r))"
    using removed by (auto simp: fun_eq_iff mended_def map_add_def felled c(4) split: option.split)
  note same' = bindings_of_cong [OF same]
  have mem: "memories_hold (mended (removed @ felled) (r_tokens ?r)) ?r"
    using i(5) by (simp add: memories_hold_def same same')
  have ag: "agenda_holds h (mended (removed @ felled) (r_tokens ?r)) ?r"
    using i(7) by (simp add: agenda_holds_def activation_sound_def same)
  have sides: "sides_ok h ?r" by (rule sides_ok_evolves [OF i(9) ev]) simp
  have evs: "events_ok h ?r" by (rule events_ok_evolves [OF i(8) ev]) simp_all
  have batch: "batch_ok h outer ?r" by (rule batch_ok_evolves [OF i(11) ev]) simp_all
  have kept: "orders_kept (block_view ?r)" using i(10) by (simp add: orders_kept_def)
  have dist: "distinct (map fst (removed @ felled))"
    using i(12) c(2) disj by (force simp: c(3))
  have gone: "tokens ts x = None \<and> issued h ?r x" if "(x, u) \<in> set (removed @ felled)" for x u
  proof (cases "(x, u) \<in> set removed")
    case True
    with i(13) [OF True] show ?thesis using issued_evolves [OF _ ev] by (simp add: c(4))
  next
    case False
    with that have "x \<in> ?D" "tokens (r_tokens r) x = Some u" by (auto simp: c(3))
    with i(4) issued_evolves [OF _ ev] show ?thesis by (auto simp: c(4) tokens_ok_def)
  qed
  show ?torn
    using i(1-3) toks mem root ag evs sides kept batch dist gone unfolding torn_def by simp
qed

section \<open>Out of the side memories\<close>

lemma neg_shrinks_ops:
  "neg_shrinks nm (negative_remove_parent p nm)" "neg_shrinks nm (snd (remove_unblocked p nm))"
  "neg_shrinks nm (snd (remove_blocker p f order nm))" "p \<in> dom (blocked nm) \<Longrightarrow> neg_shrinks nm (add_blocker p f order nm)"
proof -
  show "neg_shrinks nm (negative_remove_parent p nm)"
    by (auto simp: neg_shrinks_def neg_kept_def negative_remove_parent_def Let_def ran_def split: option.split)
  show "neg_shrinks nm (snd (remove_unblocked p nm))"
    by (auto simp: neg_shrinks_def neg_kept_def remove_unblocked_def ran_def)
  show "neg_shrinks nm (snd (remove_blocker p f order nm))"
    by (auto simp: neg_shrinks_def neg_kept_def remove_blocker_def Let_def split: option.split prod.split)
  show "p \<in> dom (blocked nm) \<Longrightarrow> neg_shrinks nm (add_blocker p f order nm)"
    by (auto simp: neg_shrinks_def neg_kept_def add_blocker_def Let_def)
qed

lemma fold_forget: "fold (\<lambda>r m. m(r := None)) rs m a = Some b \<Longrightarrow> m a = Some b"
proof (induction rs arbitrary: m)
  case (Cons r rs)
  from Cons.IH [of "m(r := None)"] Cons.prems show ?case by (simp split: if_splits)
qed simp

lemma ncc_shrinks_ops:
  "ncc_shrinks nm (ncc_remove_parent p nm)" "ncc_shrinks nm (snd (ncc_remove_unblocked p nm))"
  "ncc_shrinks nm (snd (remove_result_support result nm))" "ncc_shrinks nm (snd (reassign_primary p order nm))"
proof -
  show "ncc_shrinks nm (ncc_remove_parent p nm)"
    by (auto dest: fold_forget simp: ncc_shrinks_def ncc_kept_def ncc_remove_parent_def Let_def ran_def split: option.split)
  show "ncc_shrinks nm (snd (ncc_remove_unblocked p nm))"
    by (auto simp: ncc_shrinks_def ncc_kept_def ncc_remove_unblocked_def ran_def)
  show "ncc_shrinks nm (snd (remove_result_support result nm))"
    by (auto simp: ncc_shrinks_def ncc_kept_def remove_result_support_def decrement_results_def Let_def ran_def split: option.split)
  show "ncc_shrinks nm (snd (reassign_primary p order nm))"
    by (auto simp: ncc_shrinks_def ncc_kept_def reassign_primary_def split: option.split)
qed

lemma exists_shrinks_ops:
  "exists_shrinks em (exists_remove_parent walk p em)" "exists_shrinks em (snd (remove_satisfied p em))"
  "exists_shrinks em (snd (remove_support p f em))" "exists_shrinks em (snd (add_support p f em))"
  by (auto simp: exists_shrinks_def exists_remove_parent_def remove_satisfied_def remove_support_def add_support_def
      Let_def ran_def split: option.split)

lemma forget_parent_shrinks: "net_shrinks net (forget_parent h t c net)" "node_memory_at (forget_parent h t c net) = node_memory_at net"
  by (auto simp: forget_parent_def neg_shrinks_ops ncc_shrinks_ops exists_shrinks_ops
      intro!: net_shrinks_neg net_shrinks_ncc net_shrinks_exists split: option.split beta_node.split)

lemma cleanup_shrinks:
  "net_shrinks net (cleanup_negative_memories_for_token h t n net)"
  "node_memory_at (cleanup_negative_memories_for_token h t n net) = node_memory_at net"
proof -
  have "net_shrinks net (fold (forget_parent h t) cs net) \<and> node_memory_at (fold (forget_parent h t) cs net) = node_memory_at net" for cs
    by (induction cs arbitrary: net) (auto simp: forget_parent_shrinks(2) intro: net_shrinks_trans [OF forget_parent_shrinks(1)])
  then show "net_shrinks net (cleanup_negative_memories_for_token h t n net)"
    "node_memory_at (cleanup_negative_memories_for_token h t n net) = node_memory_at net"
    by (auto simp: cleanup_negative_memories_for_token_def split: option.split)
qed

section \<open>Out of the agenda and the memories\<close>

lemma mended_Cons:
  "tokens (r_tokens r) t = None \<Longrightarrow> t \<notin> fst ` set removed \<Longrightarrow>
    tokens (mended ((t, tok) # removed) (r_tokens r)) = (tokens (mended removed (r_tokens r)))(t \<mapsto> tok) \<and>
    tokens (mended removed (r_tokens r)) t = None"
  by (auto simp: mended_def map_add_def fun_eq_iff map_of_eq_None_iff split: option.split)

lemma forget_token_torn:
  assumes inv: "torn rank content live h outer ((t, tok) # removed) r"
    and res: "forget_token h (t, tok) (gone, r) = (gone', r')"
  shows "torn rank content live h outer removed r'" "evolves h rank b r r'" "r_tokens r' = r_tokens r"
proof -
  note i = tornD [OF inv]
  define net where "net = (case memory_id_for_node (r_beta r) (tok_owner tok) of None \<Rightarrow> r_beta r
      | Some m \<Rightarrow> with_beta_memory m (beta_remove_indexed t (tok_bindings tok)) (r_beta r))"
  obtain ag ids where ag: "remove_activations_for_token t (r_agenda r) = (live_map (r_agenda r) ids, ag)" "ag_ok ag"
    "set ids = {i. \<exists>a. activations (r_agenda r) i = Some a \<and> act_token a = t}"
    "activations ag = activations (r_agenda r) |` (- set ids)"
  proof -
    have ok: "ag_ok (r_agenda r)" using i(7) by (simp add: agenda_holds_def)
    show thesis by (rule remove_for_token_ok [OF ok, of t]) (rule that)
  qed
  have r': "r' = r\<lparr>r_agenda := ag, r_beta := cleanup_negative_memories_for_token h t (tok_owner tok) net\<rparr>"
    using res ag(1) unfolding forget_token_def net_def by (simp add: Let_def)
  have sh1: "net_shrinks (r_beta r) net" by (simp add: net_def net_shrinks_beta split: option.split)
  have sh: "net_shrinks (r_beta r) (r_beta r')"
    using net_shrinks_trans [OF sh1 cleanup_shrinks(1)] by (simp add: r')
  show toks: "r_tokens r' = r_tokens r" by (simp add: r')
  show ev: "evolves h rank b r r'" for b
    using net_shrinksD(1) [OF sh] by (simp add: r' evolves_def batch_evolves_def split: option.split)
  have t: "tokens (r_tokens r) t = None" "t \<notin> fst ` set removed" "distinct (map fst removed)"
    using i(12) i(13) [of t tok] by auto
  from mended_Cons [OF t(1,2)] have old: "tokens (mended ((t, tok) # removed) (r_tokens r)) = (tokens (mended removed (r_tokens r)))(t \<mapsto> tok)"
    and new: "tokens (mended removed (r_tokens r)) t = None" by blast+
  have "memories_hold (mended removed (r_tokens r)) r'"
  proof -
    have "beta_index_ok (bindings_of (mended removed (r_tokens r))) bm' \<and>
        set (bm_tokens bm') = {x. \<exists>u. tokens (mended removed (r_tokens r)) x = Some u \<and> tok_owner u = n}"
      if bm': "node_memory_at (r_beta r') n = Some bm'" for n bm'
    proof -
      have "\<exists>bm. node_memory_at (r_beta r) n = Some bm \<and>
          bm' = (if n = tok_owner tok then beta_remove_indexed t (tok_bindings tok) bm else bm)"
      proof (cases "memory_id_for_node (r_beta r) (tok_owner tok)")
        case None
        with bm' show ?thesis by (auto simp: r' cleanup_shrinks(2) net_def node_memory_at_def)
      next
        case (Some m)
        with bm' node_memory_with [OF i(2) Some, of _ n] show ?thesis
          by (auto simp: r' cleanup_shrinks(2) net_def split: if_splits)
      qed
      then obtain bm where bm: "node_memory_at (r_beta r) n = Some bm"
        "bm' = (if n = tok_owner tok then beta_remove_indexed t (tok_bindings tok) bm else bm)" by blast
      have hold: "beta_index_ok (bindings_of (mended ((t, tok) # removed) (r_tokens r))) bm"
        "set (bm_tokens bm) = {x. \<exists>u. tokens (mended ((t, tok) # removed) (r_tokens r)) x = Some u \<and> tok_owner u = n}"
        using i(5) bm(1) by (simp_all add: memories_hold_def)
      have bind: "bindings_of (mended ((t, tok) # removed) (r_tokens r)) =
          (bindings_of (mended removed (r_tokens r)))(t := tok_bindings tok)"
        by (rule bindings_of_insert [OF old])
      have "beta_index_ok (bindings_of (mended ((t, tok) # removed) (r_tokens r))) bm'"
        using hold(1) beta_index_ok_remove [OF hold(1), of t "tok_bindings tok"] by (simp add: bm(2) bind)
      moreover have "set (bm_tokens bm') = {x. \<exists>u. tokens (mended removed (r_tokens r)) x = Some u \<and> tok_owner u = n}"
        using hold(2) new by (auto simp: bm(2) old)
      moreover from this have "beta_index_ok (bindings_of (mended ((t, tok) # removed) (r_tokens r))) bm' =
          beta_index_ok (bindings_of (mended removed (r_tokens r))) bm'"
        using new by (intro beta_index_ok_cong) (auto simp: bind)
      ultimately show ?thesis by simp
    qed
    then show ?thesis by (simp add: memories_hold_def)
  qed
  moreover have "agenda_holds h (mended removed (r_tokens r)) r'"
  proof -
    have "(\<exists>k < activations_issued r. x = activation_key h k) \<and> activation_sound (r_beta r') (mended removed (r_tokens r)) a"
      if "activations ag x = Some a" for x a
    proof -
      from that have a: "activations (r_agenda r) x = Some a" "act_token a \<noteq> t"
        by (auto simp: ag(3,4) restrict_map_def split: if_splits)
      with i(7) have "(\<exists>k < activations_issued r. x = activation_key h k)"
        "activation_sound (r_beta r) (mended ((t, tok) # removed) (r_tokens r)) a" by (simp_all add: agenda_holds_def)
      with a(2) show ?thesis by (auto simp: activation_sound_def old evolves_node [OF ev])
    qed
    with ag(2) show ?thesis by (simp add: agenda_holds_def r')
  qed
  moreover have "sides_ok h r'" by (rule sides_ok_evolves [OF i(9) ev sh])
  moreover have "events_ok h r'" by (rule events_ok_evolves [OF i(8) ev]) (simp_all add: r')
  moreover have "batch_ok h outer r'" by (rule batch_ok_evolves [OF i(11) ev]) (simp_all add: r')
  moreover have "orders_kept (block_view r')" using i(10) orders_kept_shrinks [OF sh] by (simp add: orders_kept_def r')
  moreover have "graph_ok rank (r_beta r')" by (rule graph_ok_same [OF i(2) net_shrinksD(1) [OF sh]])
  moreover have "tokens_ok content h r'" "root_ok r'"
    by (rule stores_same_tokens [OF ev]; use i(4,6) in \<open>simp add: r'\<close>)+
  moreover have "tokens (r_tokens r') x = None \<and> issued h r' x" if "(x, u) \<in> set removed" for x u
    using i(13) [of x u] that issued_evolves [OF _ ev] by (simp add: r')
  ultimately show "torn rank content live h outer removed r'"
    using i(1,3) t(3) by (simp add: torn_def toks) (simp add: r')
qed

lemma forget_tokens_torn:
  assumes "torn rank content live h outer removed r"
  shows "rete_inv rank content live h outer (snd (fold (forget_token h) removed (gone, r)))"
    "evolves h rank b r (snd (fold (forget_token h) removed (gone, r)))"
    "r_tokens (snd (fold (forget_token h) removed (gone, r))) = r_tokens r"
proof -
  have "rete_inv rank content live h outer (snd (fold (forget_token h) removed (gone, r))) \<and>
      evolves h rank b r (snd (fold (forget_token h) removed (gone, r))) \<and>
      r_tokens (snd (fold (forget_token h) removed (gone, r))) = r_tokens r"
    using assms
  proof (induction removed arbitrary: gone r)
    case Nil
    then show ?case by (simp add: torn_Nil)
  next
    case (Cons x removed)
    obtain t tok where x: "x = (t, tok)" by (cases x)
    obtain gone' r' where step: "forget_token h (t, tok) (gone, r) = (gone', r')" by (cases "forget_token h (t, tok) (gone, r)")
    note s = forget_token_torn [OF Cons.prems [unfolded x] step]
    from Cons.IH [OF s(1), of gone'] s(2,3) show ?case by (auto simp: x step intro: evolves_trans)
  qed
  then show "rete_inv rank content live h outer (snd (fold (forget_token h) removed (gone, r)))"
    "evolves h rank b r (snd (fold (forget_token h) removed (gone, r)))"
    "r_tokens (snd (fold (forget_token h) removed (gone, r))) = r_tokens r" by blast+
qed

section \<open>Withdrawing results\<close>

text \<open>A retraction concerns a conjunction node above rank \<open>c\<close> and a parent token of its parent node.\<close>

definition retraction_sound :: "(node_id \<Rightarrow> nat) \<Rightarrow> host \<Rightarrow> nat \<Rightarrow> rete \<Rightarrow> ncc_result_retraction \<Rightarrow> bool" where
  "retraction_sound rank h c r tr \<longleftrightarrow> c < rank (ret_node tr) \<and>
     (\<exists>q p m cs. get_node (r_beta r) (ret_node tr) = Some (Ncc q p m (ret_memory tr) cs) \<and> owned h r (ret_parent tr) q)"

lemma retraction_sound_evolves: "retraction_sound rank h c r tr \<Longrightarrow> evolves h rank b r r' \<Longrightarrow> retraction_sound rank h c r' tr"
  unfolding retraction_sound_def by (metis evolves_node owned_evolves)

lemma in_map_filter: "x \<in> set (List.map_filter f xs) \<longleftrightarrow> (\<exists>y \<in> set xs. f y = Some x)"
  by (induction xs) (auto simp: List.map_filter_simps split: option.split)

lemma partner_case:
  "(case get_node net c of Some (NccPartner _ ncc cm) \<Rightarrow> Some (cm, ncc) | _ \<Rightarrow> None) = Some (cm, ncc) \<longleftrightarrow>
    (\<exists>p. get_node net c = Some (NccPartner p ncc cm))"
  by (auto split: option.split beta_node.split)

lemma partners_below_ncc:
  assumes g: "graph_ok rank net" and x: "(cm, ncc) \<in> set (partners_below net n)"
  shows "rank n < rank ncc" "\<exists>q p m cs. get_node net ncc = Some (Ncc q p m cm cs)"
proof -
  from x obtain c p where c: "c \<in> set (case Option.bind (get_node net n) child_nodes of None \<Rightarrow> [] | Some cs \<Rightarrow> cs)"
    "get_node net c = Some (NccPartner p ncc cm)"
    unfolding partners_below_def in_map_filter partner_case by blast
  then obtain node cs where n: "get_node net n = Some node" "child_nodes node = Some cs" "c \<in> set cs"
    by (cases "get_node net n"; cases "Option.bind (get_node net n) child_nodes") auto
  from graph_okD(3) [OF g n] graph_okD(6,7) [OF g c(2)]
  show "rank n < rank ncc" "\<exists>q p m cs. get_node net ncc = Some (Ncc q p m cm cs)" by auto
qed

lemma get_ncc_memory_in: "get_ncc_memory net k = Some nm \<Longrightarrow> nm \<in> set (beta_nccs net)"
  by (auto simp: get_ncc_memory_def list_get_def split: if_splits)

lemma get_neg_memory_in: "get_neg_memory net k = Some nm \<Longrightarrow> nm \<in> set (beta_negs net)"
  by (auto simp: get_neg_memory_def list_get_def split: if_splits)

lemma withdraw_result_torn:
  assumes inv: "torn rank content live h outer removed r" and ncc: "c < rank ncc" "get_node (r_beta r) ncc = Some (Ncc q p m cm cs)"
    and trs: "\<forall>tr \<in> set trs. retraction_sound rank h c r tr"
  shows "returns (\<lambda>(trs', r'). torn rank content live h outer removed r' \<and> evolves h rank b r r' \<and> r_tokens r' = r_tokens r \<and>
      (\<forall>tr \<in> set trs'. retraction_sound rank h c r' tr)) (withdraw_result result (cm, ncc) (trs, r))"
proof (cases "Option.bind (get_ncc_memory (r_beta r) cm) (\<lambda>nm. map_option (Pair nm) (result_owner nm result))")
  case None
  then show ?thesis using inv trs by (simp add: withdraw_result_def)
next
  case (Some x)
  then obtain nm parent where nm: "get_ncc_memory (r_beta r) cm = Some nm" "result_owner nm result = Some parent" "x = (nm, parent)"
    by (auto simp: bind_eq_Some_conv)
  note i = tornD [OF inv]
  let ?r = "update_beta (with_ncc_memory cm (\<lambda>nm. snd (remove_result_support result nm))) r"
  have sh: "net_shrinks (r_beta r) (r_beta ?r)" by (simp add: net_shrinks_ncc ncc_shrinks_ops)
  note t = torn_shrinks [OF inv sh, simplified]
  have own: "owned h r parent q"
    using i(9) ncc(2) nm(1,2) by (fastforce simp: sides_ok_def side_ok_def ran_def)
  have keep: "\<forall>tr \<in> set trs. retraction_sound rank h c ?r tr" using trs retraction_sound_evolves [OF _ t(2)] by simp
  show ?thesis
  proof (cases "primary_result nm parent = Some result")
    case True
    have "ncc_kept nm" using i(10) get_ncc_memory_in [OF nm(1)] by (simp add: orders_kept_def)
    with True obtain order where order: "ncc_block_order nm parent = Some order" by (auto simp: ncc_kept_def)
    show ?thesis
      using Some nm True order t keep own ncc
      by (simp add: withdraw_result_def retraction_sound_def)
  next
    case False
    then show ?thesis using Some nm t keep by (simp add: withdraw_result_def)
  qed
qed

lemma collect_ncc_torn:
  assumes inv: "torn rank content live h outer removed r" and rs: "\<And>t tok. (t, tok) \<in> set rs \<Longrightarrow> c \<le> rank (tok_owner tok)"
  shows "returns (\<lambda>(trs', r'). torn rank content live h outer removed r' \<and> evolves h rank b r r' \<and> r_tokens r' = r_tokens r \<and>
      (\<forall>tr \<in> set trs'. retraction_sound rank h c r' tr)) (collect_ncc_result_retractions rs r)"
proof -
  define I where "I = (\<lambda>(trs, r'). torn rank content live h outer removed r' \<and> evolves h rank b r r' \<and> r_tokens r' = r_tokens r \<and>
      (\<forall>tr \<in> set trs. retraction_sound rank h c r' tr))"
  have start: "I ([], r)" using inv by (simp add: I_def)
  have inner: "returns I (withdraw_result result x s)"
    if x: "x \<in> set (partners_below (r_beta r) (tok_owner tok))" and tok: "c \<le> rank (tok_owner tok)" and s: "I s" for result x tok s
  proof -
    obtain cm ncc trs r1 where eq: "x = (cm, ncc)" "s = (trs, r1)" by (cases x; cases s)
    have r1: "torn rank content live h outer removed r1" "evolves h rank b r r1" "r_tokens r1 = r_tokens r"
      "\<forall>tr \<in> set trs. retraction_sound rank h c r1 tr" using s eq(2) by (simp_all add: I_def)
    from partners_below_ncc [OF tornD(2) [OF inv] x [unfolded eq(1)]] obtain q p m cs where
      ncc: "rank (tok_owner tok) < rank ncc" "get_node (r_beta r1) ncc = Some (Ncc q p m cm cs)"
      by (auto simp: evolves_node [OF r1(2)])
    show ?thesis unfolding eq
      by (rule returns_mono [OF withdraw_result_torn [OF r1(1) _ ncc(2) r1(4), where b = b]])
        (use ncc(1) tok r1(3) evolves_trans [OF r1(2)] in \<open>auto simp: I_def\<close>)
  qed
  have "returns I (for_each (\<lambda>(result, tok) (transitions, r).
      for_each (withdraw_result result) (partners_below (r_beta r) (tok_owner tok)) (transitions, r)) rs ([], r))"
  proof (rule returns_for_each [where I = I, OF start])
    fix x s assume x: "x \<in> set rs" and s: "I s"
    obtain result tok trs r1 where eq: "x = (result, tok)" "s = (trs, r1)" by (cases x; cases s)
    have net: "partners_below (r_beta r1) = partners_below (r_beta r)"
      using s by (auto simp: eq(2) I_def partners_below_def evolves_node fun_eq_iff)
    show "returns I ((\<lambda>(result, tok) (transitions, r).
        for_each (withdraw_result result) (partners_below (r_beta r) (tok_owner tok)) (transitions, r)) x s)"
      unfolding eq prod.case net
      by (rule returns_for_each [where I = I, OF s [unfolded eq(2)] inner]) (use rs x eq in auto)
  qed
  with start show ?thesis by (simp add: collect_ncc_result_retractions_def I_def)
qed

end
