(* ===== verification/Rete_Propagation.thy ===== *)
theory Rete_Propagation
  imports Rete_Cascade
begin

text \<open>
  The activations keep the invariant of the network, return, and disturb only what their contract
  names. The recursion of the code, from a node to its children, is the parameter \<open>go\<close> of a locale
  that assumes this contract for nodes of rank at least \<open>b\<close>; every handler of a node is verified once
  against it. \<open>propagate_token\<close> with enough fuel is the instance.
\<close>

section \<open>Contract\<close>

definition running ::
  "(node_id \<Rightarrow> nat) \<Rightarrow> (fact_id \<Rightarrow> fact) \<Rightarrow> fact_id list \<Rightarrow> host \<Rightarrow> fact_base \<Rightarrow> nat \<Rightarrow> pending_ncc_result list \<Rightarrow> rete \<Rightarrow> bool"
where
  "running rank content live h fb N outer r \<longleftrightarrow> rete_inv rank content live h outer r \<and>
     facts_known content fb (r_alpha r) \<and> (\<forall>n node. get_node (r_beta r) n = Some node \<longrightarrow> rank n < N)"

definition runs ::
  "(node_id \<Rightarrow> nat) \<Rightarrow> (fact_id \<Rightarrow> fact) \<Rightarrow> fact_id list \<Rightarrow> host \<Rightarrow> pending_ncc_result list \<Rightarrow> nat \<Rightarrow> rete \<Rightarrow> rete \<Rightarrow> bool"
where
  "runs rank content live h outer c r r' \<longleftrightarrow> rete_inv rank content live h outer r' \<and> evolves h rank c r r'"

lemma runningD:
  assumes "running rank content live h fb N outer r"
  shows "rete_inv rank content live h outer r" "facts_known content fb (r_alpha r)"
    "get_node (r_beta r) n = Some node \<Longrightarrow> rank n < N"
  using assms by (auto simp: running_def)

lemma running_runs: "running rank content live h fb N outer r \<Longrightarrow> runs rank content live h outer c r r' \<Longrightarrow> running rank content live h fb N outer r'"
  by (auto simp: running_def runs_def evolves_node) (simp add: evolves_def)

lemma runs_refl: "running rank content live h fb N outer r \<Longrightarrow> runs rank content live h outer c r r"
  by (simp add: running_def runs_def)

lemma runs_trans: "runs rank content live h outer c r r' \<Longrightarrow> runs rank content live h outer c r' r'' \<Longrightarrow> runs rank content live h outer c r r''"
  by (auto simp: runs_def intro: evolves_trans)

lemma runs_node: "runs rank content live h outer c r r' \<Longrightarrow> get_node (r_beta r') = get_node (r_beta r)"
  by (auto simp: runs_def dest: evolves_node)

lemma runs_inv: "runs rank content live h outer c r r' \<Longrightarrow> rete_inv rank content live h outer r'"
  by (simp add: runs_def)

lemma runs_owned: "runs rank content live h outer c r r' \<Longrightarrow> owned h r t n \<Longrightarrow> owned h r' t n"
  by (auto simp: runs_def dest: owned_evolves)

lemma runs_mono: "runs rank content live h outer c r r' \<Longrightarrow> c' \<le> c \<Longrightarrow> runs rank content live h outer c' r r'"
  by (auto simp: runs_def intro: evolves_mono)

lemma returns_runs_then:
  assumes "returns (runs rank content live h outer c r) m" "c' \<le> c"
    and "\<And>r'. runs rank content live h outer c r r' \<Longrightarrow> returns (runs rank content live h outer c' r') (f r')"
  shows "returns (runs rank content live h outer c' r) (and_then m f)"
  by (rule returns_and_then [OF assms(1)], rule returns_mono [OF assms(3)])
    (auto intro: runs_trans runs_mono [OF _ assms(2)])

lemma returns_runs_each:
  assumes r: "running rank content live h fb N outer r"
    and step: "\<And>x r'. x \<in> set xs \<Longrightarrow> runs rank content live h outer c r r' \<Longrightarrow> running rank content live h fb N outer r' \<Longrightarrow>
      returns (runs rank content live h outer c r') (f x r')"
  shows "returns (runs rank content live h outer c r) (for_each f xs r)"
proof (rule returns_for_each)
  show "runs rank content live h outer c r r" by (rule runs_refl [OF r])
  show "returns (runs rank content live h outer c r) (f x r')" if "x \<in> set xs" "runs rank content live h outer c r r'" for x r'
    by (rule returns_mono [OF step [OF that running_runs [OF r that(2)]]]) (rule runs_trans [OF that(2)])
qed

section \<open>Parents of results\<close>

lemma climb_to_owner_returns:
  assumes ok: "ts_ok ts"
  shows "\<exists>x. climb_to_owner ts owner t = Some x \<and> (\<forall>p. x = Some p \<longrightarrow> (\<exists>tok. tokens ts p = Some tok \<and> tok_owner tok = owner))"
proof (induction t rule: wf_induct_rule [OF wf_parent_rel [OF ok]])
  case (1 t)
  show ?case
  proof (cases "tokens ts t")
    case None
    then show ?thesis by (subst climb_to_owner.simps) (simp add: token_get_def)
  next
    case (Some tok)
    show ?thesis
    proof (cases "tok_parent tok")
      case None
      with Some show ?thesis by (subst climb_to_owner.simps) (simp add: token_get_def)
    next
      case p: (Some p)
      then have "(p, t) \<in> parent_rel ts" using Some by (simp add: parent_rel_iff)
      from 1 [OF this] obtain x where "climb_to_owner ts owner p = Some x"
        "\<forall>p. x = Some p \<longrightarrow> (\<exists>tok. tokens ts p = Some tok \<and> tok_owner tok = owner)" by blast
      with Some p show ?thesis
        by (subst climb_to_owner.simps) (auto simp: token_get_def split: option.split)
    qed
  qed
qed

lemma find_owner_returns:
  assumes inv: "rete_inv rank content live h outer r" and ncc: "get_node (r_beta r) ncc = Some (Ncc q p m cm cs)"
  shows "\<exists>x. find_ncc_owner_parent_token r ncc t = Some x \<and> (\<forall>parent. x = Some parent \<longrightarrow> owned h r parent q)"
proof -
  note i = rete_invD [OF inv]
  have ok: "ts_ok (r_tokens r)" using i(4) by (simp add: tokens_ok_def)
  from climb_to_owner_returns [OF ok, of q t] obtain x where x: "climb_to_owner (r_tokens r) q t = Some x"
    "\<forall>p. x = Some p \<longrightarrow> (\<exists>tok. tokens (r_tokens r) p = Some tok \<and> tok_owner tok = q)" by blast
  have "owned h r parent q" if "x = Some parent" for parent
    using x(2) that i(4) by (auto simp: owned_def tokens_ok_def)
  with x(1) ncc show ?thesis by (simp add: find_ncc_owner_parent_token_def)
qed

section \<open>Batches\<close>

lemma batch_update:
  assumes inv: "rete_inv rank content live h outer r" and b: "pending_ncc_results r = Some b"
    and r': "r' = r\<lparr>pending_ncc_results := Some (b\<lparr>batch_results := batch_results b @ new, batch_parents := parents\<rparr>)\<rparr>"
    and new: "\<forall>e \<in> set new. result_sound h r e \<and> c \<le> rank (res_partner e)"
    and count: "counted parents (outer @ batch_results b @ new)"
  shows "runs rank content live h outer c r r'"
proof -
  note i = rete_invD [OF inv]
  have ev: "evolves h rank c r r'" using new by (auto simp: r' evolves_def batch_evolves_def b)
  have "rete_inv rank content live h outer r'"
  proof (rule rete_inv_same_tokens [OF inv ev])
    show "sides_ok h r'" by (rule sides_ok_evolves [OF i(9) ev]) (simp add: r')
    show "events_ok h r'" by (rule events_ok_evolves [OF i(8) ev]) (simp_all add: r')
    show "orders_kept (block_view r')" using i(10) by (simp add: r' orders_kept_def b)
    show "batch_ok h outer r'"
      using i(11) new count result_sound_evolves [OF _ ev] by (auto simp: batch_ok_def r' b)
  qed (simp_all add: r')
  with ev show ?thesis by (simp add: runs_def)
qed

lemma waiting_for_append [simp]: "waiting_for k (xs @ ys) = waiting_for k xs + waiting_for k ys"
  by (simp add: waiting_for_def)

lemma waiting_for_single [simp]: "waiting_for k [e] = (if result_key e = k then 1 else 0)" "waiting_for k [] = 0"
  by (simp_all add: waiting_for_def)

lemma countedD: "counted parents es \<Longrightarrow> parents k = None \<Longrightarrow> waiting_for k es = 0"
  "counted parents es \<Longrightarrow> parents k = Some p \<Longrightarrow> 0 < waiting_results p \<and> waiting_results p = waiting_for k es"
  unfolding counted_def by (drule spec [of _ k], simp)+

lemma batch_results_append_Nil: "b\<lparr>batch_results := batch_results b @ [], batch_parents := parents\<rparr> = b\<lparr>batch_parents := parents\<rparr>"
  by simp

section \<open>Tokens that pass through\<close>

lemma pass_through_sound:
  assumes "get_node net n = Some node" "own_memory node \<noteq> None" "parent_node node = Some q" "node_alpha node = None \<or> side_memory node \<noteq> None"
    and "tokens ts parent = Some ptok" "tok_owner ptok = q"
  shows "token_sound content alpha net ts (pass_through n parent ptok)"
  using assms by (cases node) (simp_all add: token_sound_def derived_def pass_through_def node_alpha_def side_memory_def)

lemma pass_through_fields [simp]:
  "tok_owner (pass_through n parent ptok) = n" "tok_parent (pass_through n parent ptok) = Some parent"
  by (simp_all add: pass_through_def)

lemma same_graph_get_ncc: "same_graph net net' \<Longrightarrow> get_ncc_memory net' k = None \<longleftrightarrow> get_ncc_memory net k = None"
  by (simp add: same_graph_def get_ncc_memory_def list_get_def)

lemma add_result_fields:
  assumes "add_result parent result order nm = (counts, nm')"
  shows "ncc_unblocked nm' = ncc_unblocked nm" "ran (result_owner nm') \<subseteq> insert parent (ran (result_owner nm))"
    "ncc_kept nm \<Longrightarrow> ncc_kept nm'"
proof -
  show "ncc_unblocked nm' = ncc_unblocked nm"
    using assms by (auto simp: add_result_def increment_results_def Let_def split: option.splits if_splits)
  show "ran (result_owner nm') \<subseteq> insert parent (ran (result_owner nm))"
    using assms by (auto simp: add_result_def increment_results_def Let_def ran_def split: option.splits if_splits)
  have "primary_result nm' = primary_result nm \<and> ncc_block_order nm' = ncc_block_order nm \<or>
      primary_result nm' = (primary_result nm)(parent \<mapsto> result) \<and> ncc_block_order nm' = (ncc_block_order nm)(parent \<mapsto> order)"
    using assms by (auto simp: add_result_def increment_results_def Let_def split: option.splits if_splits)
  then show "ncc_kept nm \<Longrightarrow> ncc_kept nm'" unfolding ncc_kept_def by (elim disjE) (simp, simp, blast)
qed

section \<open>Handlers\<close>

locale propagation =
  fixes rank :: "node_id \<Rightarrow> nat" and content :: "fact_id \<Rightarrow> fact" and live :: "fact_id list" and h :: host
    and fb :: fact_base and N b :: nat and go :: propagator
  assumes go: "running rank content live h fb N outer r \<Longrightarrow> b \<le> c \<Longrightarrow> c \<le> N \<Longrightarrow> at h r t kids \<Longrightarrow>
    (\<forall>k \<in> set kids. c \<le> rank k) \<Longrightarrow> returns (runs rank content live h outer c r) (go t kids r)"
begin

lemma go_below:
  assumes run: "running rank content live h fb N outer r" and b: "b \<le> Suc (rank n)"
    and n: "get_node (r_beta r) n = Some node" "child_nodes node = Some cs" and t: "owned h r t n"
  shows "returns (runs rank content live h outer (Suc (rank n)) r) (go t cs r)"
proof (rule go [OF run b])
  note i = rete_invD [OF runningD(1) [OF run]]
  show "Suc (rank n) \<le> N" using runningD(3) [OF run n(1)] by simp
  show "at h r t cs" using graph_okD(4) [OF i(2) n] t unfolding at_def by fastforce
  show "\<forall>k \<in> set cs. Suc (rank n) \<le> rank k" using graph_okD(3) [OF i(2) n] by (simp add: Suc_le_eq)
qed

lemma admit_and_go:
  assumes run: "running rank content live h fb N outer r" and b: "b \<le> Suc (rank n)"
    and n: "get_node (r_beta r) n = Some node" "child_nodes node = Some cs" "own_memory node = Some m"
    and tok: "tok_owner tok = n" "tok_parent tok \<noteq> None" "token_sound content (r_alpha r) (r_beta r) (r_tokens r) tok"
      "lengths \<noteq> None \<Longrightarrow> tok_fact tok \<noteq> None"
    and upd: "\<And>t r'. runs rank content live h outer (Suc (rank n)) r r' \<Longrightarrow> owned h r' t n \<Longrightarrow>
      runs rank content live h outer (Suc (rank n)) r' (upd t r')"
  shows "returns (runs rank content live h outer (rank n) r)
    (and_then (admit_token h tok lengths m r) (\<lambda>(t, r'). go t cs (upd t r')))"
proof (rule returns_and_then)
  show "returns (\<lambda>(t, r'). rete_inv rank content live h outer r' \<and> admitted h rank (Suc (rank n)) r tok t r')
      (admit_token h tok lengths m r)"
    by (rule admit_token_inv [OF runningD(1) [OF run] _ n(3) tok(2,3,4)]) (simp add: tok(1) n(1))
  fix x assume x: "case x of (t, r') \<Rightarrow> rete_inv rank content live h outer r' \<and> admitted h rank (Suc (rank n)) r tok t r'"
  obtain t r' where eq: "x = (t, r')" by (cases x)
  have r': "runs rank content live h outer (Suc (rank n)) r r'" "owned h r' t n"
    using x tok(1) by (simp_all add: eq runs_def admitted_def)
  let ?r = "upd t r'"
  have u: "runs rank content live h outer (Suc (rank n)) r' ?r" by (rule upd [OF r'])
  have run2: "running rank content live h fb N outer ?r" by (rule running_runs [OF running_runs [OF run r'(1)] u])
  have all: "runs rank content live h outer (Suc (rank n)) r ?r" by (rule runs_trans [OF r'(1) u])
  have "get_node (r_beta ?r) n = Some node" by (simp add: runs_node [OF all] n(1))
  moreover have "owned h ?r t n" by (rule runs_owned [OF u r'(2)])
  ultimately have "returns (runs rank content live h outer (Suc (rank n)) ?r) (go t cs ?r)"
    by (rule go_below [OF run2 b _ n(2)])
  then show "returns (runs rank content live h outer (rank n) r) (case x of (t, r') \<Rightarrow> go t cs (upd t r'))"
    unfolding eq prod.case by (rule returns_mono) (blast intro: runs_mono runs_trans [OF all] le_SucI)
qed

subsection \<open>Negated conjunctions\<close>

lemma ncc_left_activate_now:
  assumes run: "running rank content live h fb N outer r" and b: "b \<le> Suc (rank n)"
    and n: "get_node (r_beta r) n = Some (Ncc q p m cm cs)" and parent: "owned h r parent q"
  shows "returns (runs rank content live h outer (rank n) r) (ncc_left_activate_now h go n parent r)"
proof -
  note inv = runningD(1) [OF run]
  note i = rete_invD [OF inv]
  have same: "runs rank content live h outer (rank n) r r" by (rule runs_refl [OF run])
  show ?thesis
  proof (cases "Option.bind (pending_ncc_results r) (\<lambda>b. map_option (Pair b) (batch_parents b (n, parent)))")
    case (Some x)
    then obtain ba pending where ba: "pending_ncc_results r = Some ba" "batch_parents ba (n, parent) = Some pending" "x = (ba, pending)"
      by (auto simp: bind_eq_Some_conv)
    let ?parents = "(batch_parents ba)((n, parent) \<mapsto> pending\<lparr>deferred_left := True\<rparr>)"
    have old: "counted (batch_parents ba) (outer @ batch_results ba)" using i(11) by (simp add: batch_ok_def ba)
    then have "counted ?parents (outer @ batch_results ba @ [])"
      using countedD(2) [OF old ba(2)] by (simp add: counted_def) linarith
    from batch_update [OF inv ba(1) refl _ this] show ?thesis
      by (simp add: ncc_left_activate_now_def n Some ba(3))
  next
    case None
    show ?thesis
    proof (cases "\<exists>nm ptok. get_ncc_memory (r_beta r) cm = Some nm \<and> result_count_of nm parent = 0 \<and>
        ncc_passthrough nm parent = None \<and> tokens (r_tokens r) parent = Some ptok")
      case True
      then obtain nm ptok where nm: "get_ncc_memory (r_beta r) cm = Some nm" "result_count_of nm parent = 0"
        "ncc_passthrough nm parent = None" "tokens (r_tokens r) parent = Some ptok" by blast
      have "tok_owner ptok = q" by (rule owned_live [OF parent nm(4)])
      then have sound: "token_sound content (r_alpha r) (r_beta r) (r_tokens r) (pass_through n parent ptok)"
        by (intro pass_through_sound [OF n _ _ _ nm(4)]) (simp_all add: side_memory_def)
      have eq: "ncc_left_activate_now h go n parent r = and_then (admit_token h (pass_through n parent ptok) None m r)
          (\<lambda>(t, r'). go t cs (update_beta (with_ncc_memory cm (ncc_set_unblocked parent t)) r'))"
        using None nm by (simp add: ncc_left_activate_now_def n token_get_def)
      show ?thesis unfolding eq
      proof (rule admit_and_go [OF run b n])
        fix t r' assume r': "runs rank content live h outer (Suc (rank n)) r r'" "owned h r' t n"
        have n': "get_node (r_beta r') n = Some (Ncc q p m cm cs)" by (simp add: runs_node [OF r'(1)] n)
        have inv': "rete_inv rank content live h outer r'" using r'(1) by (simp add: runs_def)
        have grow: "ran (ncc_unblocked (ncc_set_unblocked parent t nm)) \<subseteq> ran (ncc_unblocked nm) \<union> {t. owned h r' t n} \<and>
            ran (result_owner (ncc_set_unblocked parent t nm)) \<subseteq> ran (result_owner nm) \<union> {t. owned h r' t q} \<and>
            (ncc_kept nm \<longrightarrow> ncc_kept (ncc_set_unblocked parent t nm))" for nm
          using r'(2) by (auto simp: ncc_set_unblocked_def ran_def ncc_kept_def)
        note step = inv_with_ncc [OF inv' n' grow]
        show "runs rank content live h outer (Suc (rank n)) r' (update_beta (with_ncc_memory cm (ncc_set_unblocked parent t)) r')"
          using step(1) step(2) [of "Suc (rank n)"] unfolding runs_def by blast
      qed (simp_all add: sound)
    next
      case False
      then have "ncc_left_activate_now h go n parent r = Inr r"
        using None by (auto simp: ncc_left_activate_now_def n token_get_def split: option.split)
      with same show ?thesis by simp
    qed
  qed
qed

lemma ncc_left_activate:
  assumes run: "running rank content live h fb N outer r" and b: "b \<le> Suc (rank n)"
    and n: "get_node (r_beta r) n = Some (Ncc q p m cm cs)" and parent: "owned h r parent q"
  shows "returns (runs rank content live h outer (rank n) r) (ncc_left_activate h go n parent r)"
proof (cases "pending_auto_focus_count r < length (pending_events r)")
  case True
  have "event_sound h r (EvNccLeft n parent)" by (simp add: event_sound_def)
  from push_event [OF runningD(1) [OF run] this refl] True show ?thesis
    by (simp add: ncc_left_activate_def runs_def)
next
  case False
  with ncc_left_activate_now [OF assms] show ?thesis by (simp add: ncc_left_activate_def)
qed

lemma apply_ncc_result_retraction:
  assumes run: "running rank content live h fb N outer r" and b: "b \<le> Suc c" and tr: "retraction_sound rank h c r tr"
  shows "returns (runs rank content live h outer c r) (apply_ncc_result_retraction h go tr r)"
proof -
  let ?cm = "ret_memory tr" and ?parent = "ret_parent tr"
  note inv = runningD(1) [OF run]
  obtain q p m cs where n: "get_node (r_beta r) (ret_node tr) = Some (Ncc q p m ?cm cs)" "c < rank (ret_node tr)"
    and own: "owned h r ?parent q" using tr by (auto simp: retraction_sound_def)
  have same: "runs rank content live h outer c r r" by (rule runs_refl [OF run])
  show ?thesis
  proof (cases "get_ncc_memory (r_beta r) ?cm")
    case None
    with same show ?thesis by (simp add: apply_ncc_result_retraction_def)
  next
    case (Some nm)
    show ?thesis
    proof (cases "primary_result nm ?parent \<noteq> Some (ret_result tr) \<or> \<not> token_live r ?parent")
      case True
      have "net_shrinks (r_beta r) (with_ncc_memory ?cm (ncc_remove_parent ?parent) (r_beta r))"
        by (simp add: net_shrinks_ncc ncc_shrinks_ops)
      from rete_inv_shrinks [OF inv this]
      have "runs rank content live h outer c r (update_beta (with_ncc_memory ?cm (ncc_remove_parent ?parent)) r)"
        by (simp add: runs_def)
      with True Some same show ?thesis by (auto simp: apply_ncc_result_retraction_def Let_def)
    next
      case False
      define alloc where "alloc = (if 0 < result_count_of nm ?parent then allocate_order h r else Inr (0, r))"
      define after where "after = (\<lambda>(order, r). case get_ncc_memory (r_beta r) ?cm of
          None \<Rightarrow> Inl Panic
        | Some nm \<Rightarrow>
           (let (reassigned, nm') = reassign_primary ?parent order nm;
                r = update_beta (with_ncc_memory ?cm (\<lambda>_. nm')) r
            in if reassigned then Inr r else ncc_left_activate h go (ret_node tr) ?parent r))"
      have eq: "apply_ncc_result_retraction h go tr r = and_then alloc after"
        using False Some by (simp add: apply_ncc_result_retraction_def alloc_def after_def Let_def)
      have "returns (\<lambda>(order, r'). runs rank content live h outer c r r') alloc"
      proof (cases "0 < result_count_of nm ?parent")
        case True
        show ?thesis unfolding alloc_def if_P [OF True]
          by (rule returns_mono [OF allocate_order_inv [OF inv, where b = c]]) (auto simp: runs_def)
      qed (use same in \<open>simp add: alloc_def\<close>)
      then show ?thesis unfolding eq
      proof (rule returns_and_then)
        fix x :: "u64 \<times> rete" assume "case x of (order, r') \<Rightarrow> runs rank content live h outer c r r'"
        then obtain order r' where x: "x = (order, r')" and r': "runs rank content live h outer c r r'" by (cases x) auto
        have "get_ncc_memory (r_beta r') ?cm \<noteq> None"
          using r' Some by (auto simp: runs_def evolves_def dest: same_graph_get_ncc [of _ _ ?cm])
        then obtain nm1 where nm1: "get_ncc_memory (r_beta r') ?cm = Some nm1" by blast
        obtain reassigned nm2 where re: "reassign_primary ?parent order nm1 = (reassigned, nm2)"
          by (cases "reassign_primary ?parent order nm1")
        have "ncc_shrinks nm1 nm2" using ncc_shrinks_ops(4) [of nm1 ?parent order] by (simp add: re)
        then have sh: "net_shrinks (r_beta r') (with_ncc_memory ?cm (\<lambda>_. nm2) (r_beta r'))"
          by (intro net_shrinks_ncc) (simp add: nm1)
        let ?r = "update_beta (with_ncc_memory ?cm (\<lambda>_. nm2)) r'"
        have step: "runs rank content live h outer c r' ?r"
          using rete_inv_shrinks [OF runs_inv [OF r'] sh] by (simp add: runs_def)
        have all: "runs rank content live h outer c r ?r" by (rule runs_trans [OF r' step])
        have "returns (runs rank content live h outer (rank (ret_node tr)) ?r) (ncc_left_activate h go (ret_node tr) ?parent ?r)"
          by (rule ncc_left_activate [OF running_runs [OF run all]])
            (use b n runs_node [OF all] runs_owned [OF all own] in auto)
        then have "returns (runs rank content live h outer c r) (ncc_left_activate h go (ret_node tr) ?parent ?r)"
          by (rule returns_mono) (use n(2) in \<open>blast intro: runs_trans [OF all] runs_mono less_imp_le\<close>)
        then show "returns (runs rank content live h outer c r) (after x)"
          using all by (simp add: after_def x nm1 re Let_def)
      qed
    qed
  qed
qed

lemma retract_token_cascade:
  assumes run: "running rank content live h fb N outer r" and b: "b \<le> Suc c"
    and t: "\<And>tok. tokens (r_tokens r) t = Some tok \<Longrightarrow> c \<le> rank (tok_owner tok) \<and> tok_owner tok \<noteq> root_id (r_beta r)"
  shows "returns (runs rank content live h outer c r) (retract_token_cascade h go t r)"
proof -
  note inv = runningD(1) [OF run]
  note i = rete_invD [OF inv]
  have ok: "ts_ok (r_tokens r)" and w: "walks (walk_tokens h)" using i(1,4) by (simp_all add: tokens_ok_def host_ok_def)
  obtain removed ts where cas: "remove_cascade (walk_tokens h) t (r_tokens r) = Some (removed, ts)"
    using cascade_loop_ok [OF ok w, of "[t]" "[]"] by (auto simp: remove_cascade_def)
  have torn0: "torn rank content live h outer [] r" using inv by (simp add: torn_Nil)
  have nroot: "\<forall>tok. tokens (r_tokens r) t = Some tok \<longrightarrow> tok_owner tok \<noteq> root_id (r_beta r)" using t by blast
  note cut = torn_cascade [OF torn0 cas nroot]
  let ?r1 = "r\<lparr>r_tokens := ts\<rparr>"
  have torn1: "torn rank content live h outer removed ?r1" using cut(1) by simp
  have above: "c \<le> rank (tok_owner u)" if mem: "(x, u) \<in> set removed" for x u
  proof -
    from cut(3) [OF mem] have x: "x \<in> descendants (r_tokens r) t" "tokens (r_tokens r) x = Some u" by blast+
    then obtain tok where tok: "tokens (r_tokens r) t = Some tok"
    proof (cases "tokens (r_tokens r) t")
      case None
      with cas ok x(2) mem show thesis by (auto simp: remove_cascade_def cascade_loop.simps children_dead token_remove_unknown)
    qed blast
    from descendants_owner [OF i(4,2) x(1) tok x(2)] t [OF tok] show ?thesis by simp
  qed
  have "returns (\<lambda>(trs, r'). torn rank content live h outer removed r' \<and> evolves h rank c ?r1 r' \<and> r_tokens r' = r_tokens ?r1 \<and>
      (\<forall>tr \<in> set trs. retraction_sound rank h c r' tr)) (collect_ncc_result_retractions removed ?r1)"
    by (rule collect_ncc_torn [OF torn1 above])
  then show ?thesis
    unfolding retract_token_cascade_def cas or_stop_simps and_then_simps prod.case
  proof (rule returns_and_then)
    fix x assume "case x of (trs, r') \<Rightarrow> torn rank content live h outer removed r' \<and> evolves h rank c ?r1 r' \<and>
      r_tokens r' = r_tokens ?r1 \<and> (\<forall>tr \<in> set trs. retraction_sound rank h c r' tr)"
    then obtain trs r2 where x: "x = (trs, r2)" and r2: "torn rank content live h outer removed r2" "evolves h rank c ?r1 r2"
      "\<forall>tr \<in> set trs. retraction_sound rank h c r2 tr" by (cases x) auto
    let ?r3 = "snd (fold (forget_token h) removed ([], r2))"
    note f = forget_tokens_torn [OF r2(1), where gone = "[]"]
    have all: "runs rank content live h outer c r ?r3"
      using f(1) evolves_trans [OF cut(2) evolves_trans [OF r2(2) f(2)]] by (simp add: runs_def)
    have "returns (runs rank content live h outer c ?r3)
        (for_each (apply_ncc_result_retraction h go) (sort_key (\<lambda>tr. u64_max - ret_order tr) trs) ?r3)"
    proof (rule returns_runs_each [OF running_runs [OF run all]])
      fix tr r' assume tr: "tr \<in> set (sort_key (\<lambda>tr. u64_max - ret_order tr) trs)"
        and r': "runs rank content live h outer c ?r3 r'" "running rank content live h fb N outer r'"
      have "retraction_sound rank h c r' tr"
        using r2(3) tr r'(1) retraction_sound_evolves [OF retraction_sound_evolves [OF _ f(2)]]
        unfolding runs_def set_sort by blast
      then show "returns (runs rank content live h outer c r') (apply_ncc_result_retraction h go tr r')"
        by (rule apply_ncc_result_retraction [OF r'(2) b])
    qed
    then show "returns (runs rank content live h outer c r) (case x of (transitions, r) \<Rightarrow>
        for_each (apply_ncc_result_retraction h go) (sort_key (\<lambda>tr. u64_max - ret_order tr) transitions)
          (snd (fold (forget_token h) removed ([], r))))"
      unfolding x prod.case by (rule returns_mono) (rule runs_trans [OF all])
  qed
qed

lemma withdraw_pass_through:
  assumes run: "running rank content live h fb N outer r" and b: "b \<le> Suc c" and c: "c \<le> rank n"
    and n: "get_node (r_beta r) n = Some node" "parent_node node \<noteq> None" and pt: "owned h r pt n"
  shows "returns (runs rank content live h outer c r) (retract_token_cascade h go pt r)"
proof (rule retract_token_cascade [OF run b])
  fix tok assume "tokens (r_tokens r) pt = Some tok"
  then have "tok_owner tok = n" by (rule owned_live [OF pt])
  with c not_root [OF rete_invD(2) [OF runningD(1) [OF run]] n]
  show "c \<le> rank (tok_owner tok) \<and> tok_owner tok \<noteq> root_id (r_beta r)" by simp
qed

lemma ncc_partner_apply_result:
  assumes run: "running rank content live h fb N outer r" and b: "b \<le> Suc c"
    and n: "get_node (r_beta r) n = Some (NccPartner q0 ncc cm)" and c: "c \<le> rank ncc"
  shows "returns (runs rank content live h outer c r) (ncc_partner_apply_result h go n result reserved r)"
proof -
  note inv = runningD(1) [OF run]
  note i = rete_invD [OF inv]
  obtain q m cs where ncc: "get_node (r_beta r) ncc = Some (Ncc q n m cm cs)"
    using graph_okD(7) [OF i(2) n] by blast
  have same: "runs rank content live h outer c r r" by (rule runs_refl [OF run])
  obtain x where x: "find_ncc_owner_parent_token r ncc result = Some x" "\<forall>parent. x = Some parent \<longrightarrow> owned h r parent q"
    using find_owner_returns [OF inv ncc] by blast
  show ?thesis
  proof (cases x)
    case None
    with same x(1) n show ?thesis by (simp add: ncc_partner_apply_result_def)
  next
    case (Some parent)
    with x(2) have own: "owned h r parent q" by simp
    define alloc where "alloc = (if (case get_ncc_memory (r_beta r) cm of None \<Rightarrow> False | Some nm \<Rightarrow> result_count_of nm parent = 0)
       then (case reserved of Some order \<Rightarrow> Inr (order, r) | None \<Rightarrow> allocate_order h r) else Inr (0, r))"
    define after where "after = (\<lambda>(order, r). case get_ncc_memory (r_beta r) cm of
        None \<Rightarrow> Inr r
      | Some nm \<Rightarrow>
          (let ((old_count, new_count), nm) = add_result parent result order nm;
               r = update_beta (with_ncc_memory cm (\<lambda>_. nm)) r
           in if old_count = 0 \<and> new_count = 1
              then (case get_node (r_beta r) ncc of
                      Some (Ncc _ _ _ _ _) \<Rightarrow>
                        (let (pt, nm) = ncc_remove_unblocked parent nm;
                             r = update_beta (with_ncc_memory cm (\<lambda>_. nm)) r
                         in case pt of None \<Rightarrow> Inr r | Some pt \<Rightarrow> retract_token_cascade h go pt r)
                    | _ \<Rightarrow> Inr r)
              else Inr r))"
    have eq: "ncc_partner_apply_result h go n result reserved r = and_then alloc after"
      using n x(1) Some by (simp add: ncc_partner_apply_result_def alloc_def after_def)
    have "returns (\<lambda>(order, r'). runs rank content live h outer c r r') alloc"
      using same allocate_order_inv [OF inv, where b = c] unfolding alloc_def
      by (auto simp: runs_def elim!: returns_mono split: option.split)
    then show ?thesis unfolding eq
    proof (rule returns_and_then)
      fix y :: "u64 \<times> rete" assume "case y of (order, r') \<Rightarrow> runs rank content live h outer c r r'"
      then obtain order r1 where y: "y = (order, r1)" and r1: "runs rank content live h outer c r r1" by (cases y) auto
      have ncc1: "get_node (r_beta r1) ncc = Some (Ncc q n m cm cs)" by (simp add: runs_node [OF r1] ncc)
      show "returns (runs rank content live h outer c r) (after y)"
      proof (cases "get_ncc_memory (r_beta r1) cm")
        case None
        with r1 show ?thesis by (simp add: after_def y)
      next
        case (Some nm)
        obtain old new nm1 where add: "add_result parent result order nm = ((old, new), nm1)"
          by (cases "add_result parent result order nm") auto
        let ?r2 = "update_beta (with_ncc_memory cm (\<lambda>_. nm1)) r1"
        have "ran (ncc_unblocked nm1) \<subseteq> ran (ncc_unblocked nm) \<union> {t. owned h r1 t ncc} \<and>
            ran (result_owner nm1) \<subseteq> ran (result_owner nm) \<union> {t. owned h r1 t q} \<and> (ncc_kept nm \<longrightarrow> ncc_kept nm1)"
          using add_result_fields [OF add] runs_owned [OF r1 own] by auto
        with Some have grow: "\<And>x. get_ncc_memory (r_beta r1) cm = Some x \<Longrightarrow>
            ran (ncc_unblocked nm1) \<subseteq> ran (ncc_unblocked x) \<union> {t. owned h r1 t ncc} \<and>
            ran (result_owner nm1) \<subseteq> ran (result_owner x) \<union> {t. owned h r1 t q} \<and> (ncc_kept x \<longrightarrow> ncc_kept nm1)" by simp
        note step2 = inv_with_ncc [OF runs_inv [OF r1] ncc1 grow]
        have r2: "runs rank content live h outer c r ?r2"
          using runs_trans [OF r1, of ?r2] step2(1) step2(2) [of c] by (simp add: runs_def)
        have nm2: "get_ncc_memory (r_beta ?r2) cm = Some nm1" by (simp add: get_side_with Some)
        let ?nm3 = "snd (ncc_remove_unblocked parent nm1)" and ?pt = "fst (ncc_remove_unblocked parent nm1)"
        let ?r3 = "update_beta (with_ncc_memory cm (\<lambda>_. ?nm3)) ?r2"
        have sh3: "net_shrinks (r_beta ?r2) (with_ncc_memory cm (\<lambda>_. ?nm3) (r_beta ?r2))"
          using ncc_shrinks_ops(2) [of nm1 parent] nm2 by (intro net_shrinks_ncc) simp
        have step3: "runs rank content live h outer c ?r2 ?r3"
          unfolding runs_def using rete_inv_shrinks [OF runs_inv [OF r2] sh3] by simp
        have r3: "runs rank content live h outer c r ?r3" by (rule runs_trans [OF r2 step3])
        have cas: "returns (runs rank content live h outer c ?r3) (retract_token_cascade h go pt ?r3)" if "?pt = Some pt" for pt
        proof (rule withdraw_pass_through [OF running_runs [OF run r3] b])
          have "pt \<in> ran (ncc_unblocked nm1)" using that by (auto simp: ncc_remove_unblocked_def ran_def)
          then have "owned h ?r2 pt ncc"
            using rete_invD(9) [OF runs_inv [OF r2]] nm2 runs_node [OF r2] ncc by (fastforce simp: sides_ok_def side_ok_def)
          then show "owned h ?r3 pt ncc" by simp
          show "get_node (r_beta ?r3) ncc = Some (Ncc q n m cm cs)" by (simp add: ncc1)
        qed (use c in simp_all)
        have "after y = (if old = 0 \<and> new = 1 then (case ?pt of None \<Rightarrow> Inr ?r3 | Some pt \<Rightarrow> retract_token_cascade h go pt ?r3) else Inr ?r2)"
          using ncc1 by (simp add: after_def y Some add Let_def case_prod_beta split: option.split)
        moreover have "returns (runs rank content live h outer c r) (case ?pt of None \<Rightarrow> Inr ?r3 | Some pt \<Rightarrow> retract_token_cascade h go pt ?r3)"
        proof (cases ?pt)
          case (Some pt)
          have "returns (runs rank content live h outer c r) (retract_token_cascade h go pt ?r3)"
            by (rule returns_mono [OF cas [OF Some]]) (rule runs_trans [OF r3])
          with Some show ?thesis by simp
        qed (use r3 in simp)
        ultimately show ?thesis using r2 by simp
      qed
    qed
  qed
qed

lemma ncc_partner_receive_result:
  assumes run: "running rank content live h fb N outer r" and b: "b \<le> Suc (rank n)"
    and n: "get_node (r_beta r) n = Some (NccPartner q0 ncc cm)"
  shows "returns (runs rank content live h outer (rank n) r) (ncc_partner_receive_result h go n result r)"
proof (cases "pending_ncc_results r")
  case None
  have "rank n < rank ncc" by (rule graph_okD(6) [OF rete_invD(2) [OF runningD(1) [OF run]] n])
  with None ncc_partner_apply_result [OF assms, of result None] show ?thesis by (simp add: ncc_partner_receive_result_def)
next
  case (Some ba)
  note inv = runningD(1) [OF run]
  note i = rete_invD [OF inv]
  obtain q m cs where ncc: "get_node (r_beta r) ncc = Some (Ncc q n m cm cs)"
    using graph_okD(7) [OF i(2) n] by blast
  obtain x where x: "find_ncc_owner_parent_token r ncc result = Some x" "\<forall>parent. x = Some parent \<longrightarrow> owned h r parent q"
    using find_owner_returns [OF inv ncc] by blast
  show ?thesis
  proof (cases x)
    case None
    with runs_refl [OF run] x(1) n Some show ?thesis by (simp add: ncc_partner_receive_result_def)
  next
    case parent: (Some parent)
    let ?e = "\<lparr>res_partner = n, res_token = result, res_ncc = ncc, res_parent = parent\<rparr>"
    let ?entry = "case batch_parents ba (ncc, parent) of None \<Rightarrow> \<lparr>waiting_results = 0, deferred_left = False\<rparr> | Some e \<Rightarrow> e"
    let ?parents = "(batch_parents ba)((ncc, parent) \<mapsto> ?entry\<lparr>waiting_results := waiting_results ?entry + 1\<rparr>)"
    have old: "counted (batch_parents ba) (outer @ batch_results ba)" using i(11) by (simp add: batch_ok_def Some)
    have "counted ?parents (outer @ batch_results ba @ [?e])"
      unfolding counted_def
    proof
      fix k
      show "case ?parents k of None \<Rightarrow> waiting_for k (outer @ batch_results ba @ [?e]) = 0
        | Some p \<Rightarrow> 0 < waiting_results p \<and> waiting_results p = waiting_for k (outer @ batch_results ba @ [?e])"
        using countedD(1) [OF old, of k] countedD(2) [OF old, of k]
        by (cases "batch_parents ba k") (auto simp: result_key_def)
    qed
    moreover have "result_sound h r ?e" using n ncc x(2) parent by (auto simp: result_sound_def)
    ultimately have "runs rank content live h outer (rank n) r (r\<lparr>pending_ncc_results := Some (ba\<lparr>
        batch_results := batch_results ba @ [?e], batch_parents := ?parents\<rparr>)\<rparr>)"
      by (intro batch_update [OF inv Some refl]) simp_all
    with n Some x(1) parent show ?thesis by (simp add: ncc_partner_receive_result_def Let_def)
  qed
qed

end

end
