(* ===== verification/Rete_Activation.thy ===== *)
theory Rete_Activation
  imports Rete_Propagation
begin

text \<open>
  The activations of join, negative and exists nodes by a token, and the propagation to children,
  meet the contract; \<open>propagate_token\<close> is an instance of it for every rank bound below its fuel.
\<close>

section \<open>Candidates and side memories\<close>

lemma candidates_stored:
  assumes "alpha_ok content am" "i \<in> set (collect_candidate_facts am index_tests bs)"
  shows "i \<in> set (mem_facts am)"
proof -
  have "set (case lookup_by_slot am slot k of None \<Rightarrow> [] | Some fs \<Rightarrow> fs) \<subseteq> set (mem_facts am)" if "is_slot_indexed am slot" for slot k
    unfolding alpha_index.lookup_default [OF assms(1) that] by auto
  with assms(2) show ?thesis
    by (auto simp: collect_candidate_facts_def split: if_splits list.splits option.splits)
qed

lemma add_blocker_keeps:
  "unblocked (add_blocker p f order nm) = unblocked nm" "dom (blocked (add_blocker p f order nm)) = insert p (dom (blocked nm))"
  "neg_kept nm \<Longrightarrow> neg_kept (add_blocker p f order nm)"
proof -
  show "unblocked (add_blocker p f order nm) = unblocked nm" "dom (blocked (add_blocker p f order nm)) = insert p (dom (blocked nm))"
    by (simp_all add: add_blocker_def Let_def)
  show "neg_kept nm \<Longrightarrow> neg_kept (add_blocker p f order nm)"
    unfolding neg_kept_def add_blocker_def Let_def by simp blast
qed

lemma fold_add_blocker:
  "unblocked (fold (\<lambda>i. add_blocker p i order) fs nm) = unblocked nm"
  "dom (blocked (fold (\<lambda>i. add_blocker p i order) fs nm)) \<subseteq> insert p (dom (blocked nm))"
  "neg_kept nm \<Longrightarrow> neg_kept (fold (\<lambda>i. add_blocker p i order) fs nm)"
proof -
  have "unblocked (fold (\<lambda>i. add_blocker p i order) fs nm) = unblocked nm \<and>
      dom (blocked (fold (\<lambda>i. add_blocker p i order) fs nm)) \<subseteq> insert p (dom (blocked nm)) \<and>
      (neg_kept nm \<longrightarrow> neg_kept (fold (\<lambda>i. add_blocker p i order) fs nm))" for nm
  proof (induction fs arbitrary: nm)
    case (Cons f fs)
    from Cons.IH [of "add_blocker p f order nm"] show ?case
      using add_blocker_keeps [where p = p and f = f and order = order and nm = nm] by simp
  qed auto
  then show "unblocked (fold (\<lambda>i. add_blocker p i order) fs nm) = unblocked nm"
    "dom (blocked (fold (\<lambda>i. add_blocker p i order) fs nm)) \<subseteq> insert p (dom (blocked nm))"
    "neg_kept nm \<Longrightarrow> neg_kept (fold (\<lambda>i. add_blocker p i order) fs nm)" by blast+
qed

lemma fold_add_support: "satisfied (fold (\<lambda>i em. snd (add_support p i em)) fs em) = satisfied em"
  by (induction fs arbitrary: em) (simp_all add: add_support_def Let_def)

section \<open>Joins\<close>

text \<open>The alpha memories of the nodes hold known facts.\<close>

lemma alpha_memory_facts:
  assumes run: "running rank content live h fb N outer r" and am: "alpha_memory_at (r_alpha r) a = Some am"
  shows "alpha_ok content am" "i \<in> set (mem_facts am) \<Longrightarrow> fact_base_get fb i = Some entry \<Longrightarrow> entry_fact entry = content i"
proof -
  have mem: "am \<in> set (memories (r_alpha r))" using am by (auto simp: alpha_memory_at_def list_get_def split: if_splits)
  then show "alpha_ok content am" using rete_invD(3) [OF runningD(1) [OF run]] by (auto simp: net_ok_def net_filled_def)
  show "entry_fact entry = content i" if "i \<in> set (mem_facts am)" "fact_base_get fb i = Some entry"
    using runningD(2) [OF run] mem that by (fastforce simp: facts_known_def)
qed

context propagation
begin

lemma emit_join_match:
  assumes run: "running rank content live h fb N outer r" and b: "b \<le> Suc (rank n)"
    and n: "get_node (r_beta r) n = Some (Join q a tests sq bs m cs)"
    and parent: "tokens (r_tokens r) parent = Some ptok" "tok_owner ptok = q"
    and i: "alpha_memory_at (r_alpha r) a = Some am" "i \<in> set (mem_facts am)"
    and derived: "derived content (Join q a tests sq bs m cs) ptok
      \<lparr>tok_fact = Some i, tok_bindings = bindings, tok_parent = Some parent, tok_owner = n\<rparr>"
  shows "returns (runs rank content live h outer (rank n) r) (emit_join_match h go n parent i bindings lengths r)"
proof -
  let ?tok = "\<lparr>tok_fact = Some i, tok_bindings = bindings, tok_parent = Some parent, tok_owner = n\<rparr>"
  have sound: "token_sound content (r_alpha r) (r_beta r) (r_tokens r) ?tok"
    using n parent i derived by (simp add: token_sound_def)
  have "returns (runs rank content live h outer (rank n) r)
      (and_then (admit_token h ?tok lengths m r) (\<lambda>(t, r'). go t cs ((\<lambda>t r. r) t r')))"
  proof (rule admit_and_go [OF run b n])
    show "runs rank content live h outer (Suc (rank n)) r' ((\<lambda>t r. r) t r')"
      if "runs rank content live h outer (Suc (rank n)) r r'" for t r'
      using running_runs [OF run that] runs_refl by blast
  qed (simp_all add: sound)
  then show ?thesis by (simp add: emit_join_match_def n)
qed

lemma emit_sequence_matches:
  assumes run: "running rank content live h fb N outer r" and b: "b \<le> Suc (rank n)"
    and n: "get_node (r_beta r) n = Some (Join q a tests sq bs m cs)"
    and parent: "tokens (r_tokens r) parent = Some ptok \<or> tokens (r_tokens r) parent = None" "tok_owner ptok = q" "issued h r parent"
    and i: "alpha_memory_at (r_alpha r) a = Some am" "i \<in> set (mem_facts am)"
    and derived: "\<And>bindings lengths. (bindings, lengths) \<in> set ms \<Longrightarrow> derived content (Join q a tests sq bs m cs) ptok
      \<lparr>tok_fact = Some i, tok_bindings = bindings, tok_parent = Some parent, tok_owner = n\<rparr>"
  shows "returns (runs rank content live h outer (rank n) r) (emit_sequence_matches h go n parent i ms r)"
  using run n parent i derived
proof (induction ms arbitrary: r)
  case Nil
  then show ?case by (simp add: runs_refl)
next
  case (Cons x ms)
  obtain bindings lengths where x: "x = (bindings, lengths)" by (cases x)
  show ?case
  proof (cases "tokens (r_tokens r) parent")
    case None
    then show ?thesis using runs_refl [OF Cons.prems(1)] by (simp add: x token_live_def token_get_def)
  next
    case (Some tok)
    with Cons.prems(3) have live: "tokens (r_tokens r) parent = Some ptok" by simp
    have emit: "returns (runs rank content live h outer (rank n) r) (emit_join_match h go n parent i bindings (Some lengths) r)"
      by (rule emit_join_match [OF Cons.prems(1) b Cons.prems(2) live Cons.prems(4,6,7)])
        (use Cons.prems(8) [of bindings lengths] in \<open>simp add: x\<close>)
    have "returns (runs rank content live h outer (rank n) r)
        (and_then (emit_join_match h go n parent i bindings (Some lengths) r) (emit_sequence_matches h go n parent i ms))"
    proof (rule returns_runs_then [OF emit order.refl])
      fix r' assume r': "runs rank content live h outer (rank n) r r'"
      then have ev: "evolves h rank (rank n) r r'" by (simp add: runs_def)
      show "returns (runs rank content live h outer (rank n) r') (emit_sequence_matches h go n parent i ms r')"
      proof (rule Cons.IH [OF running_runs [OF Cons.prems(1) r']])
        show "get_node (r_beta r') n = Some (Join q a tests sq bs m cs)" by (simp add: runs_node [OF r'] Cons.prems(2))
        show "tokens (r_tokens r') parent = Some ptok \<or> tokens (r_tokens r') parent = None"
          using ev Cons.prems(5) live by (auto simp: evolves_def)
        show "issued h r' parent" by (rule issued_evolves [OF Cons.prems(5) ev])
        show "alpha_memory_at (r_alpha r') a = Some am" using ev Cons.prems(6) by (simp add: evolves_def)
      qed (use Cons.prems in auto)
    qed
    with live show ?thesis by (simp add: x token_live_def token_get_def)
  qed
qed

lemma propagate_join_fact:
  assumes run: "running rank content live h fb N outer r" and b: "b \<le> Suc (rank n)"
    and n: "get_node (r_beta r) n = Some (Join q a tests sq bs m cs)" and parent: "owned h r parent q"
    and i: "alpha_memory_at (r_alpha r) a = Some am" "i \<in> set (mem_facts am)" "content i = f"
  shows "returns (runs rank content live h outer (rank n) r) (propagate_join_fact h go n parent i f r)"
proof (cases "tokens (r_tokens r) parent")
  case None
  with runs_refl [OF run] n show ?thesis by (simp add: propagate_join_fact_def token_get_def)
next
  case (Some ptok)
  have own: "tok_owner ptok = q" by (rule owned_live [OF parent Some])
  show ?thesis
  proof (cases sq)
    case None
    have "returns (runs rank content live h outer (rank n) r)
        (emit_join_match h go n parent i (extract_bindings bs f (tok_bindings ptok)) None r)" if "evaluate_join f (Some ptok) tests"
      by (rule emit_join_match [OF run b n Some own i(1,2)]) (simp add: derived_def None that i(3))
    with runs_refl [OF run] n Some None show ?thesis by (simp add: propagate_join_fact_def token_get_def)
  next
    case plan: (Some plan)
    have "pattern_ok sq" using graph_okD(11) [OF rete_invD(2) [OF runningD(1) [OF run]] n] by (simp add: node_plan_def)
    then have width: "logical_width plan < usize_max" by (simp add: pattern_ok_def plan)
    obtain ms where ms: "sequence_matches f (tok_bindings ptok) tests bs plan = Some ms"
      "set ms = (\<lambda>sv. (extract_split_bindings bs sv (tok_bindings ptok), split_lengths sv)) `
        {sv \<in> set (all_splits plan f). split_matches sv (tok_bindings ptok) tests plan}"
      using sequence_matches_splits [OF width] by auto
    have "returns (runs rank content live h outer (rank n) r) (emit_sequence_matches h go n parent i ms r)"
      by (rule emit_sequence_matches [OF run b n _ own _ i(1,2)])
        (use ms(2) parent Some in \<open>auto simp: derived_def plan i(3) owned_def\<close>)
    with n Some plan ms(1) show ?thesis by (simp add: propagate_join_fact_def token_get_def)
  qed
qed

lemma left_activate:
  assumes run: "running rank content live h fb N outer r" and b: "b \<le> Suc (rank n)"
    and n: "get_node (r_beta r) n = Some (Join q a tests sq bs m cs)" and parent: "owned h r parent q"
  shows "returns (runs rank content live h outer (rank n) r) (left_activate h go fb n parent r)"
proof (cases "tokens (r_tokens r) parent = None \<or> alpha_memory_at (r_alpha r) a = None")
  case True
  with runs_refl [OF run] n show ?thesis by (auto simp: left_activate_def token_get_def split: option.split)
next
  case False
  then obtain ptok am where eq: "tokens (r_tokens r) parent = Some ptok" "alpha_memory_at (r_alpha r) a = Some am" by auto
  note facts = alpha_memory_facts [OF run eq(2)]
  have "returns (runs rank content live h outer (rank n) r)
      (for_each (\<lambda>i r. case fact_base_get fb i of None \<Rightarrow> Inr r | Some entry \<Rightarrow> propagate_join_fact h go n parent i (entry_fact entry) r)
        (collect_candidate_facts am (indexable_tests tests sq) (tok_bindings ptok)) r)"
  proof (rule returns_runs_each [OF run])
    fix i r' assume i: "i \<in> set (collect_candidate_facts am (indexable_tests tests sq) (tok_bindings ptok))"
      and r': "runs rank content live h outer (rank n) r r'" "running rank content live h fb N outer r'"
    have mem: "i \<in> set (mem_facts am)" by (rule candidates_stored [OF facts(1) i])
    have am': "alpha_memory_at (r_alpha r') a = Some am" using r'(1) eq(2) by (simp add: runs_def evolves_def)
    show "returns (runs rank content live h outer (rank n) r')
        (case fact_base_get fb i of None \<Rightarrow> Inr r' | Some entry \<Rightarrow> propagate_join_fact h go n parent i (entry_fact entry) r')"
    proof (cases "fact_base_get fb i")
      case (Some entry)
      from propagate_join_fact [OF r'(2) b _ runs_owned [OF r'(1) parent] am' mem refl] facts(2) [OF mem Some] Some
      show ?thesis by (simp add: runs_node [OF r'(1)] n)
    qed (simp add: runs_refl [OF r'(2)])
  qed
  with n eq show ?thesis by (simp add: left_activate_def token_get_def)
qed

subsection \<open>Negative and exists nodes\<close>

lemma negative_left_activate:
  assumes run: "running rank content live h fb N outer r" and b: "b \<le> Suc (rank n)"
    and n: "get_node (r_beta r) n = Some (Negative q a tests sq m k cs)" and parent: "owned h r parent q"
  shows "returns (runs rank content live h outer (rank n) r) (negative_left_activate h go fb n parent r)"
proof (cases "tokens (r_tokens r) parent = None \<or> alpha_memory_at (r_alpha r) a = None")
  case True
  with runs_refl [OF run] n show ?thesis by (auto simp: negative_left_activate_def token_get_def split: option.split)
next
  case False
  then obtain ptok am where eq: "tokens (r_tokens r) parent = Some ptok" "alpha_memory_at (r_alpha r) a = Some am" by auto
  let ?blocking = "matching_facts fb am tests sq ptok"
  show ?thesis
  proof (cases "?blocking = []")
    case True
    have "tok_owner ptok = q" by (rule owned_live [OF parent eq(1)])
    then have sound: "token_sound content (r_alpha r) (r_beta r) (r_tokens r) (pass_through n parent ptok)"
      by (intro pass_through_sound [OF n _ _ _ eq(1)]) (simp_all add: side_memory_def)
    have "returns (runs rank content live h outer (rank n) r) (and_then (admit_token h (pass_through n parent ptok) None m r)
        (\<lambda>(t, r'). go t cs (update_beta (with_neg_memory k (set_unblocked parent t)) r')))"
    proof (rule admit_and_go [OF run b n])
      fix t r' assume r': "runs rank content live h outer (Suc (rank n)) r r'" "owned h r' t n"
      have n': "get_node (r_beta r') n = Some (Negative q a tests sq m k cs)" by (simp add: runs_node [OF r'(1)] n)
      have grow: "ran (unblocked (set_unblocked parent t nm)) \<subseteq> ran (unblocked nm) \<union> {t. owned h r' t n} \<and>
          dom (blocked (set_unblocked parent t nm)) \<subseteq> dom (blocked nm) \<union> {t. owned h r' t q} \<and>
          (neg_kept nm \<longrightarrow> neg_kept (set_unblocked parent t nm))" for nm
        using r'(2) by (auto simp: set_unblocked_def ran_def neg_kept_def)
      note step = inv_with_neg [OF runs_inv [OF r'(1)] n' grow]
      show "runs rank content live h outer (Suc (rank n)) r' (update_beta (with_neg_memory k (set_unblocked parent t)) r')"
        using step(1) step(2) [of "Suc (rank n)"] unfolding runs_def by blast
    qed (simp_all add: sound)
    with n eq True show ?thesis by (simp add: negative_left_activate_def token_get_def)
  next
    case False
    let ?f = "\<lambda>order. fold (\<lambda>i. add_blocker parent i order) ?blocking"
    have "returns (runs rank content live h outer (rank n) r)
        (and_then (allocate_order h r) (\<lambda>(order, r). Inr (update_beta (with_neg_memory k (?f order)) r)))"
    proof (rule returns_and_then [OF allocate_order_inv [OF runningD(1) [OF run], where b = "rank n"]])
      fix x :: "u64 \<times> rete" assume "case x of (order, r') \<Rightarrow> rete_inv rank content live h outer r' \<and> evolves h rank (rank n) r r' \<and>
        net_shrinks (r_beta r) (r_beta r') \<and> r_tokens r' = r_tokens r"
      then obtain order r' where x: "x = (order, r')" and r': "runs rank content live h outer (rank n) r r'"
        by (cases x) (auto simp: runs_def)
      have n': "get_node (r_beta r') n = Some (Negative q a tests sq m k cs)" by (simp add: runs_node [OF r'] n)
      have grow: "ran (unblocked (?f order nm)) \<subseteq> ran (unblocked nm) \<union> {t. owned h r' t n} \<and>
          dom (blocked (?f order nm)) \<subseteq> dom (blocked nm) \<union> {t. owned h r' t q} \<and> (neg_kept nm \<longrightarrow> neg_kept (?f order nm))" for nm
        using fold_add_blocker [where p = parent and order = order and fs = ?blocking and nm = nm] runs_owned [OF r' parent] by auto
      note step = inv_with_neg [OF runs_inv [OF r'] n' grow]
      have "runs rank content live h outer (rank n) r' (update_beta (with_neg_memory k (?f order)) r')"
        using step(1) step(2) [of "rank n"] unfolding runs_def by blast
      then show "returns (runs rank content live h outer (rank n) r)
          (case x of (order, r) \<Rightarrow> Inr (update_beta (with_neg_memory k (?f order)) r))"
        by (simp add: x runs_trans [OF r'])
    qed
    with n eq False show ?thesis by (simp add: negative_left_activate_def token_get_def Let_def)
  qed
qed

lemma satisfy_and_go:
  assumes run: "running rank content live h fb N outer r" and b: "b \<le> Suc (rank n)"
    and n: "get_node (r_beta r) n = Some (Exists q a tests sq m k cs)"
    and parent: "tokens (r_tokens r) parent = Some ptok" "tok_owner ptok = q"
  shows "returns (runs rank content live h outer (rank n) r) (and_then (admit_token h (pass_through n parent ptok) None m r)
    (\<lambda>(t, r'). go t cs (update_beta (with_exists_memory k (set_satisfied parent t)) r')))"
proof (rule admit_and_go [OF run b n])
  fix t r' assume r': "runs rank content live h outer (Suc (rank n)) r r'" "owned h r' t n"
  have n': "get_node (r_beta r') n = Some (Exists q a tests sq m k cs)" by (simp add: runs_node [OF r'(1)] n)
  have grow: "ran (satisfied (set_satisfied parent t em)) \<subseteq> ran (satisfied em) \<union> {t. owned h r' t n}" for em
    using r'(2) by (auto simp: set_satisfied_def ran_def)
  note step = inv_with_exists [OF runs_inv [OF r'(1)] n' grow]
  show "runs rank content live h outer (Suc (rank n)) r' (update_beta (with_exists_memory k (set_satisfied parent t)) r')"
    using step(1) step(2) [of "Suc (rank n)"] unfolding runs_def by blast
next
  show "token_sound content (r_alpha r) (r_beta r) (r_tokens r) (pass_through n parent ptok)"
    by (intro pass_through_sound [OF n _ _ _ parent]) (simp_all add: side_memory_def)
qed simp_all

lemma support_step:
  assumes run: "running rank content live h fb N outer r" and n: "get_node (r_beta r) n = Some (Exists q a tests sq m k cs)"
    and f: "\<And>em. get_exists_memory (r_beta r) k = Some em \<Longrightarrow> ran (satisfied (f em)) \<subseteq> ran (satisfied em)"
  shows "runs rank content live h outer c r (update_beta (with_exists_memory k f) r)"
  using inv_with_exists [OF runningD(1) [OF run] n, of f] f unfolding runs_def by blast

lemma exists_left_activate:
  assumes run: "running rank content live h fb N outer r" and b: "b \<le> Suc (rank n)"
    and n: "get_node (r_beta r) n = Some (Exists q a tests sq m k cs)" and parent: "owned h r parent q"
  shows "returns (runs rank content live h outer (rank n) r) (exists_left_activate h go fb n parent r)"
proof (cases "tokens (r_tokens r) parent = None \<or> alpha_memory_at (r_alpha r) a = None")
  case True
  with runs_refl [OF run] n show ?thesis by (auto simp: exists_left_activate_def token_get_def split: option.split)
next
  case False
  then obtain ptok am where eq: "tokens (r_tokens r) parent = Some ptok" "alpha_memory_at (r_alpha r) a = Some am" by auto
  let ?sup = "matching_facts fb am tests sq ptok"
  let ?r = "update_beta (with_exists_memory k (fold (\<lambda>i em. snd (add_support parent i em)) ?sup)) r"
  have step: "runs rank content live h outer (rank n) r ?r"
    by (rule support_step [OF run n]) (simp add: fold_add_support)
  have "returns (runs rank content live h outer (rank n) ?r) (and_then (admit_token h (pass_through n parent ptok) None m ?r)
      (\<lambda>(t, r'). go t cs (update_beta (with_exists_memory k (set_satisfied parent t)) r')))"
    by (rule satisfy_and_go [OF running_runs [OF run step] b])
      (simp_all add: n eq(1) owned_live [OF parent eq(1)])
  then have "returns (runs rank content live h outer (rank n) r) (and_then (admit_token h (pass_through n parent ptok) None m ?r)
      (\<lambda>(t, r'). go t cs (update_beta (with_exists_memory k (set_satisfied parent t)) r')))"
    by (rule returns_mono) (rule runs_trans [OF step])
  with n eq step show ?thesis
    by (cases "?sup = []") (simp_all add: exists_left_activate_def token_get_def Let_def)
qed

subsection \<open>Dispatch\<close>

lemma propagate_to_child:
  assumes run: "running rank content live h fb N outer r" and b: "b \<le> Suc (rank n)" and t: "at h r t [n]"
  shows "returns (runs rank content live h outer (rank n) r) (propagate_to_child h go fb t n r)"
proof (cases "get_node (r_beta r) n")
  case None
  then show ?thesis by (simp add: propagate_to_child_def runs_refl [OF run])
next
  case (Some node)
  with t obtain q where q: "parent_node node = Some q" "owned h r t q" by (auto simp: at_def)
  show ?thesis
  proof (cases node)
    case (Terminal p rule salience complexity)
    have "runs rank content live h outer (rank n) r r' \<longleftrightarrow> rete_inv rank content live h outer r' \<and> evolves h rank (rank n) r r'" for r'
      by (simp add: runs_def)
    with terminal_activate_inv [OF runningD(1,2) [OF run], of n q rule salience complexity t "rank n"] Some Terminal q
    show ?thesis by (simp add: propagate_to_child_def returns_def split: sum.splits)
  next
    case (Predicate p rule ci m cs)
    have "event_sound h r (EvPredicate n t rule ci)" using Some Predicate q by (auto simp: event_sound_def)
    from push_event [OF runningD(1) [OF run] this refl] show ?thesis
      by (simp add: propagate_to_child_def Some Predicate runs_def)
  qed (use q Some b left_activate [OF run b] negative_left_activate [OF run b] ncc_left_activate [OF run b]
      ncc_partner_receive_result [OF run b] exists_left_activate [OF run b] in \<open>simp_all add: propagate_to_child_def\<close>)
qed

end

section \<open>Propagation\<close>

lemma postpone_nodes: "set (concat (map snd (postpone entry n ps))) = insert n (set (concat (map snd ps)))"
  by (induction entry n ps rule: postpone.induct) auto

lemma take_released_nodes:
  "take_released entry ps = Some (ns, qs) \<Longrightarrow> set (concat (map snd ps)) = set ns \<union> set (concat (map snd qs))"
proof (induction ps arbitrary: ns qs)
  case (Cons x ps)
  obtain k ms where x: "x = (k, ms)" by (cases x)
  show ?case
  proof (cases "k = entry")
    case True
    with Cons.prems show ?thesis by (auto simp: x)
  next
    case False
    with Cons.prems obtain qs' where "take_released entry ps = Some (ns, qs')" "qs = (k, ms) # qs'" by (auto simp: x)
    with Cons.IH [OF this(1)] show ?thesis by (simp add: x Un_left_commute)
  qed
qed simp

lemma release_nodes:
  "release ready postponed waiting = (seen, postponed', waiting') \<Longrightarrow>
    set seen \<union> set (concat (map snd postponed')) \<subseteq> set ready \<union> set (concat (map snd postponed))"
proof (induction ready postponed waiting arbitrary: seen rule: release.induct)
  case (2 n ready postponed waiting)
  show ?case
  proof (cases "take_released n postponed")
    case None
    with 2(1) [OF None] 2(3) show ?thesis by (auto simp: Let_def split: prod.splits)
  next
    case (Some x)
    obtain next_nodes ps where x: "x = (next_nodes, ps)" by (cases x)
    with 2(2) [OF Some x [symmetric]] 2(3) Some take_released_nodes [OF Some [unfolded x]] show ?thesis
      by (fastforce simp: Let_def split: prod.splits)
  qed
qed simp

lemma visit_order_loop_nodes:
  "index \<le> length kids \<Longrightarrow> set (visit_order_loop net kids index postponed waiting) \<subseteq> set kids \<union> set (concat (map snd postponed))"
proof (induction net kids index postponed waiting rule: visit_order_loop.induct)
  case (2 net kids index postponed waiting)
  let ?child = "kids ! index"
  have child: "?child \<in> set kids" using 2(4) by simp
  show ?case
  proof (cases "is_postponed net kids index ?child waiting")
    case (Some wait)
    with 2(3) [OF refl Some] 2(4) child show ?thesis by (auto simp: Let_def postpone_nodes [simplified])
  next
    case None
    show ?thesis
    proof (cases "take_released ?child postponed")
      case released: None
      with 2(1) [OF refl None released] 2(4) None child show ?thesis by (auto simp: Let_def)
    next
      case (Some x)
      obtain ns ps where x: "x = (ns, ps)" by (cases x)
      obtain seen ps' w' where rel: "release ns ps waiting = (seen, ps', w')" by (cases "release ns ps waiting")
      from 2(2) [OF refl None Some x [symmetric] rel [symmetric] refl] 2(4) None Some x rel child
        release_nodes [OF rel] take_released_nodes [OF Some [unfolded x]] show ?thesis
        by (fastforce simp: Let_def)
    qed
  qed
qed simp

lemma visit_order_nodes: "set (visit_order net kids) \<subseteq> set kids"
  using visit_order_loop_nodes [of "length kids" kids net "[]" "{}"] by (simp add: visit_order_def)

lemma entry_waits_ready: "ncc_entry_waits net \<noteq> None \<Longrightarrow> ensure_ncc_entry_wait_index walk net = Some net"
  by (auto simp: ensure_ncc_entry_wait_index_def)

lemma propagate_token_contract:
  "N < b + fuel \<Longrightarrow> propagation rank content live h fb N b (propagate_token fuel h fb)"
proof (induction fuel arbitrary: b)
  case 0
  show ?case by standard (use 0 in simp)
next
  case (Suc fuel)
  show ?case
  proof
    fix outer r c t kids
    assume run: "running rank content live h fb N outer r" and c: "b \<le> c" "c \<le> N" and t: "at h r t kids" "\<forall>k \<in> set kids. c \<le> rank k"
    have below: "propagation rank content live h fb N (Suc c) (propagate_token fuel h fb)"
      by (rule Suc.IH) (use Suc.prems c in simp)
    have "returns (runs rank content live h outer c r)
        (for_each (propagate_to_child h (propagate_token fuel h fb) fb t) (visit_order (r_beta r) kids) r)"
    proof (rule returns_runs_each [OF run])
      fix k r' assume k: "k \<in> set (visit_order (r_beta r) kids)"
        and r': "runs rank content live h outer c r r'" "running rank content live h fb N outer r'"
      from k visit_order_nodes have kid: "k \<in> set kids" by blast
      with t(1) r'(1) have "at h r' t [k]" using at_evolves [OF t(1), of rank c r'] by (simp add: at_def runs_def)
      from propagation.propagate_to_child [OF below r'(2) _ this] t(2) kid
      have "returns (runs rank content live h outer (rank k) r') (propagate_to_child h (propagate_token fuel h fb) fb t k r')"
        by simp
      then show "returns (runs rank content live h outer c r') (propagate_to_child h (propagate_token fuel h fb) fb t k r')"
        by (rule returns_mono) (use t(2) kid in \<open>blast intro: runs_mono\<close>)
    qed
    moreover have "ncc_entry_waits (r_beta r) \<noteq> None"
      by (rule graph_okD(13) [OF rete_invD(2) [OF runningD(1) [OF run]]])
    ultimately show "returns (runs rank content live h outer c r) (propagate_token (Suc fuel) h fb t kids r)"
      by (simp add: entry_waits_ready)
  qed
qed

text \<open>The closed recursion is an instance of the contract at every rank, with fuel for the ranks above it.\<close>

interpretation network: propagation rank content live h fb N b "propagate_token (Suc N - b) h fb"
  for rank content live h fb N b
proof (cases "b \<le> N")
  case True
  then show "propagation rank content live h fb N b (propagate_token (Suc N - b) h fb)"
    by (intro propagate_token_contract) simp
next
  case False
  then show "propagation rank content live h fb N b (propagate_token (Suc N - b) h fb)"
    by (intro propagation.intro) simp
qed

end
