(* ===== verification/Rete_Batches.thy ===== *)
theory Rete_Batches
  imports Rete_Activation
begin

text \<open>
  Batches of results of negated conjunctions meet the contract. A batch postpones the results that
  propagation finds; draining delivers them one by one and drains, before the next, whatever a
  delivery has queued. Queued results lie at higher and higher ranks, so draining ends.
\<close>

section \<open>Steps on the batch alone\<close>

lemma owned_batch [simp]: "owned h (r\<lparr>pending_ncc_results := x\<rparr>) = owned h r"
  by (simp add: fun_eq_iff owned_def issued_def)

lemma side_ok_batch [simp]: "side_ok h (r\<lparr>pending_ncc_results := x\<rparr>) n node = side_ok h r n node"
  by (cases node) (simp_all add: side_ok_def)

lemma event_sound_batch [simp]: "event_sound h (r\<lparr>pending_ncc_results := x\<rparr>) e = event_sound h r e"
  by (cases e) (simp_all add: event_sound_def)

lemma result_sound_batch [simp]: "result_sound h (r\<lparr>pending_ncc_results := x\<rparr>) e = result_sound h r e"
  by (simp add: result_sound_def)

lemma rete_inv_batch:
  assumes "rete_inv rank content live h outer r"
    and "batch_kept (map_option batch_orders x)" "batch_ok h outer' (r\<lparr>pending_ncc_results := x\<rparr>)"
  shows "rete_inv rank content live h outer' (r\<lparr>pending_ncc_results := x\<rparr>)"
proof -
  note i = rete_invD [OF assms(1)]
  have "tokens_ok content h (r\<lparr>pending_ncc_results := x\<rparr>)" using i(4) by (simp add: tokens_ok_def issued_def)
  moreover have "memories_ok (r\<lparr>pending_ncc_results := x\<rparr>)" "root_ok (r\<lparr>pending_ncc_results := x\<rparr>)"
    using i(5,6) by (simp_all add: memories_ok_def root_ok_def)
  moreover have "agenda_sound h (r\<lparr>pending_ncc_results := x\<rparr>)" using i(7) by (simp add: agenda_sound_def)
  moreover have "events_ok h (r\<lparr>pending_ncc_results := x\<rparr>)" using i(8) by (simp add: events_ok_def)
  moreover have "sides_ok h (r\<lparr>pending_ncc_results := x\<rparr>)" using i(9) by (simp add: sides_ok_def)
  moreover have "orders_kept (block_view (r\<lparr>pending_ncc_results := x\<rparr>))" using i(10) assms(2) by (simp add: orders_kept_def)
  ultimately show ?thesis using i(1-3) assms(3) by (simp add: rete_inv_def)
qed

lemma running_batch:
  "running rank content live h fb N outer r \<Longrightarrow> rete_inv rank content live h outer' (r\<lparr>pending_ncc_results := x\<rparr>) \<Longrightarrow>
    running rank content live h fb N outer' (r\<lparr>pending_ncc_results := x\<rparr>)"
  by (auto simp: running_def)

text \<open>How the network evolves while its batch is being settled.\<close>

definition depth_of :: "rete \<Rightarrow> nat option" where
  "depth_of r = map_option (\<lambda>b. length (suspended_reserved (batch_orders b))) (pending_ncc_results r)"

definition settles :: "host \<Rightarrow> (node_id \<Rightarrow> nat) \<Rightarrow> rete \<Rightarrow> rete \<Rightarrow> bool" where
  "settles h rank r r' \<longleftrightarrow> evolves h rank 0 (r\<lparr>pending_ncc_results := None\<rparr>) (r'\<lparr>pending_ncc_results := None\<rparr>) \<and>
     depth_of r' = depth_of r"

lemma settles_refl [simp]: "settles h rank r r"
  by (simp add: settles_def)

lemma settles_trans: "settles h rank r r' \<Longrightarrow> settles h rank r' r'' \<Longrightarrow> settles h rank r r''"
  by (auto simp: settles_def intro: evolves_trans)

lemma evolves_unbatched: "evolves h rank c r r' \<Longrightarrow> evolves h rank 0 (r\<lparr>pending_ncc_results := None\<rparr>) (r'\<lparr>pending_ncc_results := None\<rparr>)"
  by (simp add: evolves_def batch_evolves_def issued_def)

lemma batch_evolves_depth: "batch_evolves rank c r r' \<Longrightarrow> depth_of r' = depth_of r"
  by (auto simp: batch_evolves_def depth_of_def split: option.splits)

lemma evolves_settles: "evolves h rank c r r' \<Longrightarrow> settles h rank r r'"
  using evolves_unbatched [of h rank c r r'] batch_evolves_depth [of rank c r r'] by (simp add: settles_def evolves_def)

lemma settles_batch:
  assumes "r' = r\<lparr>pending_ncc_results := x\<rparr>" "depth_of r' = depth_of r"
  shows "settles h rank r r'"
  using assms(2) by (simp add: settles_def assms(1))

lemma settles_evolves_unbatched: "settles h rank r r' \<Longrightarrow> evolves h rank 0 (r\<lparr>pending_ncc_results := None\<rparr>) (r'\<lparr>pending_ncc_results := None\<rparr>)"
  by (simp add: settles_def)

lemma settles_owned: "settles h rank r r' \<Longrightarrow> owned h r t n \<Longrightarrow> owned h r' t n"
  using owned_evolves [of h "r\<lparr>pending_ncc_results := None\<rparr>" t n rank 0 "r'\<lparr>pending_ncc_results := None\<rparr>"]
  by (simp add: settles_def)

lemma settles_graph: "settles h rank r r' \<Longrightarrow> get_node (r_beta r') = get_node (r_beta r) \<and> r_alpha r' = r_alpha r"
  by (auto simp: settles_def evolves_def same_graph_node)

lemma running_settles:
  "running rank content live h fb N outer r \<Longrightarrow> settles h rank r r' \<Longrightarrow> rete_inv rank content live h outer' r' \<Longrightarrow>
    running rank content live h fb N outer' r'"
  using settles_graph [of h rank r r'] by (auto simp: running_def)

section \<open>Reserving orders\<close>

lemma with_reserved_inv:
  assumes inv: "rete_inv rank content live h outer r"
    and f: "\<And>m. finite (dom m) \<Longrightarrow> finite (dom (f m))"
  shows "rete_inv rank content live h outer (with_reserved f r)" "evolves h rank c r (with_reserved f r)"
proof -
  show "evolves h rank c r (with_reserved f r)"
    by (auto simp: with_batch_def evolves_def batch_evolves_def split: option.split)
  show "rete_inv rank content live h outer (with_reserved f r)"
    unfolding with_batch_def
  proof (rule rete_inv_batch [OF inv])
    show "batch_kept (map_option batch_orders (map_option (\<lambda>b. b\<lparr>batch_orders := (batch_orders b)
        \<lparr>reserved_orders := f (reserved_orders (batch_orders b))\<rparr>\<rparr>) (pending_ncc_results r)))"
      using rete_invD(10) [OF inv] f by (auto simp: orders_kept_def batch_kept_def split: option.splits)
    show "batch_ok h outer (r\<lparr>pending_ncc_results := map_option (\<lambda>b. b\<lparr>batch_orders := (batch_orders b)
        \<lparr>reserved_orders := f (reserved_orders (batch_orders b))\<rparr>\<rparr>) (pending_ncc_results r)\<rparr>)"
      using rete_invD(11) [OF inv] by (cases "pending_ncc_results r") (simp_all add: batch_ok_def)
  qed
qed

lemma reserve_order_inv:
  assumes run: "running rank content live h fb N outer r"
  shows "returns (runs rank content live h outer c r) (reserve_order h k e r)"
proof -
  have "returns (runs rank content live h outer c r) (and_then (allocate_order h r)
      (\<lambda>(order, r). Inr (with_reserved (\<lambda>m. m((res_ncc e, res_parent e) \<mapsto> order)) r)))"
  proof (rule returns_and_then [OF allocate_order_inv [OF runningD(1) [OF run], where b = c]])
    fix x :: "u64 \<times> rete" assume "case x of (order, r') \<Rightarrow> rete_inv rank content live h outer r' \<and> evolves h rank c r r' \<and>
      net_shrinks (r_beta r) (r_beta r') \<and> r_tokens r' = r_tokens r"
    then obtain order r' where x: "x = (order, r')" "runs rank content live h outer c r r'" by (cases x) (auto simp: runs_def)
    note w = with_reserved_inv [OF runs_inv [OF x(2)], of "\<lambda>m. m((res_ncc e, res_parent e) \<mapsto> order)"]
    have "runs rank content live h outer c r' (with_reserved (\<lambda>m. m((res_ncc e, res_parent e) \<mapsto> order)) r')"
      using w by (simp add: runs_def)
    with runs_trans [OF x(2)] show "returns (runs rank content live h outer c r)
        (case x of (order, r) \<Rightarrow> Inr (with_reserved (\<lambda>m. m((res_ncc e, res_parent e) \<mapsto> order)) r))"
      by (simp add: x(1))
  qed
  with runs_refl [OF run] show ?thesis by (simp add: reserve_order_def Let_def)
qed

section \<open>Queued results\<close>

text \<open>New results lie at partners of rank at least \<open>c\<close>.\<close>

definition queues :: "(node_id \<Rightarrow> nat) \<Rightarrow> nat \<Rightarrow> rete \<Rightarrow> rete \<Rightarrow> bool" where
  "queues rank c r r' \<longleftrightarrow> (\<exists>new. queued_results r' = queued_results r @ new \<and> (\<forall>e \<in> set new. c \<le> rank (res_partner e)))"

lemma queues_trans: "queues rank c r r' \<Longrightarrow> queues rank c r' r'' \<Longrightarrow> queues rank c r r''"
  by (auto simp: queues_def)

lemma queues_same: "queued_results r' = queued_results r \<Longrightarrow> queues rank c r r'"
  by (simp add: queues_def)

lemma runs_queues: "runs rank content live h outer c r r' \<Longrightarrow> queues rank c r r'"
  by (auto simp: runs_def evolves_def batch_evolves_def queues_def queued_results_def split: option.splits)

lemma queued_sound: "rete_inv rank content live h outer r \<Longrightarrow> e \<in> set (outer @ queued_results r) \<Longrightarrow> pending_ncc_results r \<noteq> None \<Longrightarrow> result_sound h r e"
  using rete_invD(11) by (fastforce simp: batch_ok_def queued_results_def)

lemma queues_none:
  assumes run: "running rank content live h fb N outer r" and r': "runs rank content live h outer N r r'"
  shows "queued_results r' = queued_results r"
proof -
  obtain new where new: "queued_results r' = queued_results r @ new" "\<forall>e \<in> set new. N \<le> rank (res_partner e)"
    using runs_queues [OF r'] by (auto simp: queues_def)
  have "new = []"
  proof (rule ccontr)
    assume "new \<noteq> []"
    then have e: "hd new \<in> set (outer @ queued_results r')" "N \<le> rank (res_partner (hd new))" using new by auto
    have "pending_ncc_results r' \<noteq> None" using \<open>new \<noteq> []\<close> new(1) by (auto simp: queued_results_def split: option.splits)
    from queued_sound [OF runs_inv [OF r'] e(1) this] obtain node where "get_node (r_beta r') (res_partner (hd new)) = Some node"
      by (auto simp: result_sound_def)
    from runningD(3) [OF running_runs [OF run r'] this] e(2) show False by simp
  qed
  with new(1) show ?thesis by simp
qed

lemma depth_of_pending: "depth_of r' = depth_of r \<Longrightarrow> pending_ncc_results r' = None \<longleftrightarrow> pending_ncc_results r = None"
  by (auto simp: depth_of_def)

lemma runs_settles: "runs rank content live h outer c r r' \<Longrightarrow> settles h rank r r'"
  by (auto simp: runs_def intro: evolves_settles)

lemma waiting_for_Cons: "waiting_for k (e # es) = (if result_key e = k then 1 else 0) + waiting_for k es"
  by (simp add: waiting_for_def)

section \<open>Nested drains\<close>

lemma suspend_inv:
  assumes inv: "rete_inv rank content live h outer r"
  shows "rete_inv rank content live h outer (suspend_batch r)" "queued_results (suspend_batch r) = queued_results r"
    "depth_of (suspend_batch r) = map_option Suc (depth_of r)"
    "(suspend_batch r)\<lparr>pending_ncc_results := None\<rparr> = r\<lparr>pending_ncc_results := None\<rparr>"
proof -
  note i = rete_invD [OF inv]
  show "rete_inv rank content live h outer (suspend_batch r)"
    unfolding suspend_batch_def with_batch_def
  proof (rule rete_inv_batch [OF inv], goal_cases)
    case 1
    then show ?case using i(10) by (cases "pending_ncc_results r") (auto simp: orders_kept_def batch_kept_def)
  next
    case 2
    then show ?case using i(11) by (cases "pending_ncc_results r") (simp_all add: batch_ok_def)
  qed
  show "queued_results (suspend_batch r) = queued_results r" "depth_of (suspend_batch r) = map_option Suc (depth_of r)"
    "(suspend_batch r)\<lparr>pending_ncc_results := None\<rparr> = r\<lparr>pending_ncc_results := None\<rparr>"
    by (cases "pending_ncc_results r"; simp add: suspend_batch_def with_batch_def queued_results_def depth_of_def)+
qed

lemma resume_inv:
  assumes inv: "rete_inv rank content live h outer r" and d: "depth_of r = Some (Suc k)"
  obtains r' where "resume_batch r = Inr r'" "rete_inv rank content live h outer r'" "queued_results r' = queued_results r"
    "depth_of r' = Some k" "r'\<lparr>pending_ncc_results := None\<rparr> = r\<lparr>pending_ncc_results := None\<rparr>"
proof -
  note i = rete_invD [OF inv]
  obtain b s ss where b: "pending_ncc_results r = Some b" "suspended_reserved (batch_orders b) = s # ss" "length ss = k"
    using d by (cases "pending_ncc_results r"; cases "suspended_reserved (batch_orders (the (pending_ncc_results r)))")
      (auto simp: depth_of_def)
  let ?x = "Some (b\<lparr>batch_orders := \<lparr>reserved_orders = last (s # ss), suspended_reserved = butlast (s # ss)\<rparr>\<rparr>)"
  have "batch_kept (Some (batch_orders b))" using i(10) by (simp add: orders_kept_def b(1))
  then have kept: "\<forall>m \<in> set (s # ss). finite (dom m)" by (simp add: batch_kept_def b(2))
  show thesis
  proof (rule that [of "r\<lparr>pending_ncc_results := ?x\<rparr>"])
    show "resume_batch r = Inr (r\<lparr>pending_ncc_results := ?x\<rparr>)" by (simp add: resume_batch_def b(1,2))
    show "rete_inv rank content live h outer (r\<lparr>pending_ncc_results := ?x\<rparr>)"
    proof (rule rete_inv_batch [OF inv])
      have "finite (dom (last (s # ss)))" using kept last_in_set [of "s # ss"] by blast
      moreover have "\<forall>m \<in> set (butlast (s # ss)). finite (dom m)" using kept in_set_butlastD [of _ "s # ss"] by blast
      ultimately show "batch_kept (map_option batch_orders ?x)" by (simp add: batch_kept_def)
      show "batch_ok h outer (r\<lparr>pending_ncc_results := ?x\<rparr>)" using i(11) by (simp add: batch_ok_def b(1))
    qed
    show "depth_of (r\<lparr>pending_ncc_results := ?x\<rparr>) = Some k" by (simp add: depth_of_def b(3) [symmetric])
  qed (simp_all add: queued_results_def b(1))
qed

section \<open>Settling one result\<close>

text \<open>A whole propagation: the contract holds at every rank.\<close>

locale engine = propagation rank content live h fb N 0 go for rank content live h fb N go
begin

lemma deliver_result:
  assumes run: "running rank content live h fb N outer r" and e: "result_sound h r e"
  shows "returns (runs rank content live h outer (rank (res_ncc e)) r)
    (if token_live r (res_token e)
     then (let order = reserved_for r (res_ncc e, res_parent e)
           in ncc_partner_apply_result h go (res_partner e) (res_token e) order
                (with_reserved (\<lambda>m. m((res_ncc e, res_parent e) := None)) r))
     else Inr r)"
proof -
  let ?r = "with_reserved (\<lambda>m. m((res_ncc e, res_parent e) := None)) r"
  note w = with_reserved_inv [OF runningD(1) [OF run], of "\<lambda>m. m((res_ncc e, res_parent e) := None)"]
  have r1: "runs rank content live h outer (rank (res_ncc e)) r ?r" using w by (simp add: runs_def)
  obtain q cm where n: "get_node (r_beta r) (res_partner e) = Some (NccPartner q (res_ncc e) cm)"
    using e by (auto simp: result_sound_def)
  have "returns (runs rank content live h outer (rank (res_ncc e)) ?r)
      (ncc_partner_apply_result h go (res_partner e) (res_token e) order ?r)" for order
    using ncc_partner_apply_result [OF running_runs [OF run r1] _ _ order.refl, where n = "res_partner e" and ncc = "res_ncc e"]
    by (simp add: runs_node [OF r1] n)
  then have "returns (runs rank content live h outer (rank (res_ncc e)) r)
      (ncc_partner_apply_result h go (res_partner e) (res_token e) order ?r)" for order
    by (rule returns_mono) (rule runs_trans [OF r1])
  with runs_refl [OF run] show ?thesis by (simp add: Let_def)
qed

text \<open>The entry of the parent counts one result less, or goes.\<close>

lemma release_entry:
  assumes inv: "rete_inv rank content live h (outer @ e # rest) r"
    and b: "pending_ncc_results r = Some ba" "batch_parents ba (result_key e) = Some p"
    and r': "r' = with_batch (\<lambda>b. b\<lparr>batch_parents := (batch_parents b)(result_key e :=
      (if waiting_results p = 1 then None else Some (p\<lparr>waiting_results := waiting_results p - 1\<rparr>)))\<rparr>) r"
  shows "rete_inv rank content live h (outer @ rest) r'" "settles h rank r r'" "queued_results r' = queued_results r"
proof -
  let ?parents = "(batch_parents ba)(result_key e :=
      (if waiting_results p = 1 then None else Some (p\<lparr>waiting_results := waiting_results p - 1\<rparr>)))"
  have eq: "r' = r\<lparr>pending_ncc_results := Some (ba\<lparr>batch_parents := ?parents\<rparr>)\<rparr>"
    by (simp add: r' with_batch_def b(1))
  note i = rete_invD [OF inv]
  have old: "counted (batch_parents ba) (outer @ e # rest @ batch_results ba)" using i(11) by (simp add: batch_ok_def b(1))
  have "counted ?parents (outer @ rest @ batch_results ba)" unfolding counted_def
  proof
    fix k
    show "case ?parents k of None \<Rightarrow> waiting_for k (outer @ rest @ batch_results ba) = 0
        | Some p \<Rightarrow> 0 < waiting_results p \<and> waiting_results p = waiting_for k (outer @ rest @ batch_results ba)"
    proof (cases "k = result_key e")
      case True
      with countedD(2) [OF old b(2)] show ?thesis by (simp add: waiting_for_Cons)
    next
      case False
      with countedD(1) [OF old, of k] countedD(2) [OF old, of k] show ?thesis
        by (cases "batch_parents ba k") (auto simp: waiting_for_Cons)
    qed
  qed
  then have "batch_ok h (outer @ rest) r'" using i(11) by (auto simp: batch_ok_def eq b(1))
  then show "rete_inv rank content live h (outer @ rest) r'"
    unfolding eq using i(10) by (intro rete_inv_batch [OF inv]) (simp_all add: orders_kept_def b(1))
  show "settles h rank r r'" by (rule settles_batch [OF eq]) (simp add: depth_of_def eq b(1))
  show "queued_results r' = queued_results r" by (simp add: queued_results_def eq b(1))
qed

definition settled :: "pending_ncc_result list \<Rightarrow> nat \<Rightarrow> rete \<Rightarrow> rete \<Rightarrow> bool" where
  "settled outer c r r' \<longleftrightarrow> rete_inv rank content live h outer r' \<and> settles h rank r r' \<and> queues rank c r r'"

lemma settle_result:
  assumes run: "running rank content live h fb N (outer @ e # rest) r" and pend: "pending_ncc_results r \<noteq> None"
  shows "returns (settled (outer @ rest) (rank (res_ncc e)) r) (settle_result h go e r)"
proof -
  let ?c = "rank (res_ncc e)"
  have e: "result_sound h r e" by (rule queued_sound [OF runningD(1) [OF run] _ pend]) simp
  then obtain q p1 m cm cs where n: "get_node (r_beta r) (res_ncc e) = Some (Ncc p1 q m cm cs)" "owned h r (res_parent e) p1"
    by (auto simp: result_sound_def)
  note deliver = deliver_result [OF run e]
  show ?thesis unfolding settle_result_def Let_def
  proof (rule returns_and_then [OF deliver [unfolded Let_def]])
    fix r1 assume r1: "runs rank content live h (outer @ e # rest) ?c r r1"
    note run1 = running_runs [OF run r1]
    obtain ba where ba: "pending_ncc_results r1 = Some ba"
      using depth_of_pending [of r1 r] runs_settles [OF r1] pend by (auto simp: settles_def)
    have old: "counted (batch_parents ba) (outer @ e # rest @ batch_results ba)"
      using rete_invD(11) [OF runs_inv [OF r1]] by (simp add: batch_ok_def ba)
    obtain p where p: "batch_parents ba (result_key e) = Some p"
      using countedD(1) [OF old, of "result_key e"] by (cases "batch_parents ba (result_key e)") (simp_all add: waiting_for_Cons)
    have pos: "0 < waiting_results p" by (rule countedD(2) [OF old p, THEN conjunct1])
    define r2 where "r2 = with_batch (\<lambda>b. b\<lparr>batch_parents := (batch_parents b)(result_key e :=
      (if waiting_results p = 1 then None else Some (p\<lparr>waiting_results := waiting_results p - 1\<rparr>)))\<rparr>) r1"
    note r2 = release_entry [OF runningD(1) [OF run1] ba p r2_def]
    have run2: "running rank content live h fb N (outer @ rest) r2" by (rule running_settles [OF run1 r2(2,1)])
    have all2: "settled (outer @ rest) ?c r r2"
      unfolding settled_def using r2 settles_trans [OF runs_settles [OF r1] r2(2)]
        queues_trans [OF runs_queues [OF r1] queues_same [OF r2(3)]] by simp
    have n2: "get_node (r_beta r2) (res_ncc e) = Some (Ncc p' q m cm cs) \<and> owned h r2 (res_parent e) p'"
      if "get_node (r_beta r) (res_ncc e) = Some (Ncc p' q m cm cs)" "owned h r (res_parent e) p'" for p'
      using settles_graph [OF r2(2)] runs_node [OF r1] settles_owned [OF r2(2) runs_owned [OF r1]] that by simp
    have left: "returns (settled (outer @ rest) ?c r) (ncc_left_activate h go (res_ncc e) (res_parent e) r2)"
    proof (rule returns_mono [OF ncc_left_activate [OF run2]])
      show "get_node (r_beta r2) (res_ncc e) = Some (Ncc p1 q m cm cs)" "owned h r2 (res_parent e) p1"
        using n2 [OF n] by simp_all
      show "settled (outer @ rest) ?c r r3" if "runs rank content live h (outer @ rest) ?c r2 r3" for r3
        using that all2 settles_trans [OF _ runs_settles [OF that]] queues_trans [OF _ runs_queues [OF that]]
        by (auto simp: settled_def runs_def)
    qed simp_all
    show "returns (settled (outer @ rest) ?c r)
      (and_then (or_stop Panic (Option.bind (pending_ncc_results r1) (\<lambda>b. batch_parents b (res_ncc e, res_parent e)))) (\<lambda>p.
       and_then (or_stop Panic (if waiting_results p = 0 then None else Some (waiting_results p - 1))) (\<lambda>n.
        if n = 0
        then if deferred_left p
             then ncc_left_activate h go (res_ncc e) (res_parent e)
               (with_batch (\<lambda>b. b\<lparr>batch_parents := (batch_parents b)((res_ncc e, res_parent e) := None)\<rparr>) r1)
             else Inr (with_batch (\<lambda>b. b\<lparr>batch_parents := (batch_parents b)((res_ncc e, res_parent e) := None)\<rparr>) r1)
        else Inr (with_batch (\<lambda>b. b\<lparr>batch_parents := (batch_parents b)((res_ncc e, res_parent e) \<mapsto> p\<lparr>waiting_results := n\<rparr>)\<rparr>) r1))))"
      using left all2 p pos by (cases "waiting_results p = 1") (simp_all add: ba result_key_def r2_def)
  qed
qed

subsection \<open>Draining\<close>

definition drained :: "pending_ncc_result list \<Rightarrow> rete \<Rightarrow> rete \<Rightarrow> bool" where
  "drained outer r r' \<longleftrightarrow> rete_inv rank content live h outer r' \<and> settles h rank r r' \<and> queued_results r' = []"

definition drains :: "nat \<Rightarrow> nat \<Rightarrow> bool" where
  "drains fuel d \<longleftrightarrow> (\<forall>outer r. running rank content live h fb N outer r \<longrightarrow> pending_ncc_results r \<noteq> None \<longrightarrow>
     (\<forall>e \<in> set (queued_results r). d \<le> rank (res_partner e)) \<longrightarrow>
     returns (drained outer r) (drain_ncc_results fuel h go r))"

lemma nested_drain:
  assumes rec: "drains fuel d" and run: "running rank content live h fb N outer r" and pend: "pending_ncc_results r \<noteq> None"
    and q: "\<forall>e \<in> set (queued_results r). d \<le> rank (res_partner e)"
  shows "returns (drained outer r) (and_then (drain_ncc_results fuel h go (suspend_batch r)) resume_batch)"
proof -
  note s = suspend_inv [OF runningD(1) [OF run]]
  have run1: "running rank content live h fb N outer (suspend_batch r)"
    using run s(1) by (auto simp: running_def suspend_batch_def with_batch_def)
  have "pending_ncc_results (suspend_batch r) \<noteq> None" using pend by (simp add: suspend_batch_def with_batch_def)
  with rec run1 q s(2) have "returns (drained outer (suspend_batch r)) (drain_ncc_results fuel h go (suspend_batch r))"
    by (simp add: drains_def)
  then show ?thesis
  proof (rule returns_and_then)
    fix r1 assume r1: "drained outer (suspend_batch r) r1"
    obtain k where k: "depth_of r = Some k" using pend by (auto simp: depth_of_def)
    then have "depth_of r1 = Some (Suc k)" using r1 s(3) by (simp add: drained_def settles_def)
    then obtain r2 where r2: "resume_batch r1 = Inr r2" "rete_inv rank content live h outer r2" "queued_results r2 = queued_results r1"
      "depth_of r2 = Some k" "r2\<lparr>pending_ncc_results := None\<rparr> = r1\<lparr>pending_ncc_results := None\<rparr>"
      using resume_inv [of rank content live h outer r1 k] r1 unfolding drained_def by blast
    with r1 s(4) k show "returns (drained outer r) (resume_batch r1)" by (simp add: drained_def settles_def)
  qed
qed

lemma settle_each:
  assumes rec: "drains fuel (Suc d)"
  shows "running rank content live h fb N (outer @ es) r \<Longrightarrow> pending_ncc_results r \<noteq> None \<Longrightarrow> queued_results r = [] \<Longrightarrow>
    (\<forall>e \<in> set es. d \<le> rank (res_partner e)) \<Longrightarrow>
    returns (drained outer r) (for_each (\<lambda>e r. and_then (settle_result h go e r) (\<lambda>r.
      if queued_results r = [] then Inr r
      else and_then (drain_ncc_results fuel h go (suspend_batch r)) resume_batch)) es r)"
proof (induction es arbitrary: r)
  case Nil
  then show ?case by (simp add: drained_def running_def)
next
  case (Cons e es)
  note run = Cons.prems(1)
  note inv = runningD(1) [OF run]
  let ?step = "\<lambda>e r. and_then (settle_result h go e r) (\<lambda>r. if queued_results r = [] then Inr r
      else and_then (drain_ncc_results fuel h go (suspend_batch r)) resume_batch)"
  have "result_sound h r e" by (rule queued_sound [OF inv _ Cons.prems(2)]) simp
  then obtain q cm where "get_node (r_beta r) (res_partner e) = Some (NccPartner q (res_ncc e) cm)" by (auto simp: result_sound_def)
  then have "rank (res_partner e) < rank (res_ncc e)" by (rule graph_okD(6) [OF rete_invD(2) [OF inv]])
  with Cons.prems(4) have up: "Suc d \<le> rank (res_ncc e)" by simp
  have "returns (drained (outer @ es) r) (?step e r)"
  proof (rule returns_and_then [OF settle_result [OF run Cons.prems(2)]])
    fix r1 assume r1: "settled (outer @ es) (rank (res_ncc e)) r r1"
    then have new: "\<forall>e \<in> set (queued_results r1). Suc d \<le> rank (res_partner e)"
      using Cons.prems(3) up by (auto simp: settled_def queues_def)
    have run1: "running rank content live h fb N (outer @ es) r1" "pending_ncc_results r1 \<noteq> None" "settles h rank r r1"
      using r1 running_settles [OF run] depth_of_pending [of r1 r] Cons.prems(2) by (auto simp: settled_def settles_def)
    have "returns (drained (outer @ es) r) (and_then (drain_ncc_results fuel h go (suspend_batch r1)) resume_batch)"
      by (rule returns_mono [OF nested_drain [OF rec run1(1,2) new]]) (auto simp: drained_def intro: settles_trans [OF run1(3)])
    with r1 show "returns (drained (outer @ es) r) (if queued_results r1 = [] then Inr r1
        else and_then (drain_ncc_results fuel h go (suspend_batch r1)) resume_batch)"
      by (simp add: drained_def settled_def)
  qed
  then show ?case unfolding for_each.simps
  proof (rule returns_and_then)
    fix r2 assume r2: "drained (outer @ es) r r2"
    then have run2: "running rank content live h fb N (outer @ es) r2" "pending_ncc_results r2 \<noteq> None" "settles h rank r r2"
      using running_settles [OF run] depth_of_pending [of r2 r] Cons.prems(2) by (auto simp: drained_def settles_def)
    have "returns (drained outer r2) (for_each ?step es r2)"
      by (rule Cons.IH [OF run2(1,2)]) (use r2 Cons.prems(4) in \<open>simp_all add: drained_def\<close>)
    then show "returns (drained outer r) (for_each ?step es r2)"
      by (rule returns_mono) (auto simp: drained_def intro: settles_trans [OF run2(3)])
  qed
qed

lemma drain_returns: "d \<le> N \<Longrightarrow> N < d + fuel \<Longrightarrow> drains fuel d"
proof (induction fuel arbitrary: d)
  case (Suc fuel)
  show ?case unfolding drains_def
  proof (intro allI impI)
    fix outer r assume run: "running rank content live h fb N outer r" and pend: "pending_ncc_results r \<noteq> None"
      and q: "\<forall>e \<in> set (queued_results r). d \<le> rank (res_partner e)"
    obtain b where b: "pending_ncc_results r = Some b" using pend by blast
    let ?r0 = "with_batch (\<lambda>b. b\<lparr>batch_results := []\<rparr>) r" and ?pending = "batch_results b"
    have eq: "?r0 = r\<lparr>pending_ncc_results := Some (b\<lparr>batch_results := []\<rparr>)\<rparr>" by (simp add: with_batch_def b)
    have inv0: "rete_inv rank content live h (outer @ ?pending) ?r0"
      using rete_invD(10,11) [OF runningD(1) [OF run]] unfolding eq
      by (intro rete_inv_batch [OF runningD(1) [OF run]]) (simp_all add: orders_kept_def b batch_ok_def)
    have set0: "settles h rank r ?r0" by (rule settles_batch [OF eq]) (simp add: depth_of_def eq b)
    have run0: "running rank content live h fb N (outer @ ?pending) ?r0" by (rule running_settles [OF run set0 inv0])
    show "returns (drained outer r) (drain_ncc_results (Suc fuel) h go r)"
    proof (cases "?pending = []")
      case True
      then show ?thesis using set0 inv0 by (simp add: b drained_def eq queued_results_def)
    next
      case False
      then obtain e where e: "e \<in> set ?pending" by (cases ?pending) auto
      then have "e \<in> set (outer @ queued_results r)" "d \<le> rank (res_partner e)" using q by (simp_all add: queued_results_def b)
      with queued_sound [OF runningD(1) [OF run] _ pend] runningD(3) [OF run] have "d < N"
        by (fastforce simp: result_sound_def)
      then have rec: "drains fuel (Suc d)" and last: "drains fuel N" using Suc.IH [of "Suc d"] Suc.IH [of N] Suc.prems by simp_all
      let ?reserve = "for_each (\<lambda>(rank, e). reserve_order h rank e)
          (map (\<lambda>e. (outer_rank ?r0 e, e)) (sort_key (reservation_key ?pending ?r0) ?pending)) ?r0"
      have reserve: "returns (runs rank content live h (outer @ ?pending) N ?r0) ?reserve"
        by (rule returns_runs_each [OF run0]) (auto intro: reserve_order_inv)
      have "returns (drained outer r) (and_then ?reserve (\<lambda>r. and_then (for_each (\<lambda>e r. and_then (settle_result h go e r) (\<lambda>r.
          if queued_results r = [] then Inr r
          else and_then (drain_ncc_results fuel h go (suspend_batch r)) resume_batch)) ?pending r) (\<lambda>r.
          drain_ncc_results fuel h go (with_reserved (\<lambda>_. Map.empty) r))))"
      proof (rule returns_and_then [OF reserve])
        fix r1 assume r1: "runs rank content live h (outer @ ?pending) N ?r0 r1"
        note run1 = running_runs [OF run0 r1]
        have set1: "settles h rank r r1" by (rule settles_trans [OF set0 runs_settles [OF r1]])
        have pend1: "pending_ncc_results r1 \<noteq> None" using depth_of_pending [of r1 r] set1 pend by (simp add: settles_def)
        have none: "queued_results r1 = []" using queues_none [OF run0 r1] by (simp add: eq queued_results_def)
        have part: "\<forall>e \<in> set ?pending. d \<le> rank (res_partner e)" using q by (simp add: queued_results_def b)
        show "returns (drained outer r) (and_then (for_each (\<lambda>e r. and_then (settle_result h go e r) (\<lambda>r.
          if queued_results r = [] then Inr r
          else and_then (drain_ncc_results fuel h go (suspend_batch r)) resume_batch)) ?pending r1) (\<lambda>r.
          drain_ncc_results fuel h go (with_reserved (\<lambda>_. Map.empty) r)))"
        proof (rule returns_and_then [OF settle_each [OF rec run1 pend1 none part]])
          fix r2 assume r2: "drained outer r1 r2"
          have run2: "running rank content live h fb N outer r2"
            by (rule running_settles [OF run1]) (use r2 in \<open>simp_all add: drained_def\<close>)
          let ?r3 = "with_reserved (\<lambda>_. Map.empty) r2"
          have r3: "runs rank content live h outer N r2 ?r3"
            using with_reserved_inv [OF runningD(1) [OF run2], of "\<lambda>_. Map.empty"] by (simp add: runs_def)
          have set3: "settles h rank r ?r3"
            using settles_trans [OF settles_trans [OF set1] runs_settles [OF r3]] r2 by (simp add: drained_def)
          have "queued_results ?r3 = []" using queues_none [OF run2 r3] r2 by (simp add: drained_def)
          moreover have "pending_ncc_results ?r3 \<noteq> None" using depth_of_pending [of ?r3 r] set3 pend by (simp add: settles_def)
          ultimately have "returns (drained outer ?r3) (drain_ncc_results fuel h go ?r3)"
            using last running_runs [OF run2 r3] by (simp add: drains_def)
          then show "returns (drained outer r) (drain_ncc_results fuel h go ?r3)"
            by (rule returns_mono) (auto simp: drained_def intro: settles_trans [OF set3])
        qed
      qed
      then show ?thesis using False by (simp add: b Let_def)
    qed
  qed
qed simp

subsection \<open>Work under a batch\<close>

lemma in_batch:
  assumes run: "running rank content live h fb N outer r" and fuel: "N < fuel"
    and work: "\<And>x. running rank content live h fb N outer (r\<lparr>pending_ncc_results := x\<rparr>) \<Longrightarrow>
      returns (runs rank content live h outer c (r\<lparr>pending_ncc_results := x\<rparr>)) (work (r\<lparr>pending_ncc_results := x\<rparr>))"
  shows "returns (runs rank content live h outer c r) (in_batch fuel h go wanted work r)"
proof (cases "wanted \<and> pending_ncc_results r = None")
  case True
  note inv = runningD(1) [OF run]
  have none: "r\<lparr>pending_ncc_results := None\<rparr> = r" using True by simp
  have outer: "outer = []" using rete_invD(11) [OF inv] True by (simp add: batch_ok_def)
  let ?r0 = "r\<lparr>pending_ncc_results := Some ncc_result_batch_new\<rparr>"
  have "rete_inv rank content live h outer ?r0"
    by (rule rete_inv_batch [OF inv])
      (simp_all add: batch_ok_def outer ncc_result_batch_new_def batch_kept_def counted_def waiting_for_def)
  then have run0: "running rank content live h fb N outer ?r0" by (rule running_batch [OF run])
  have "returns (runs rank content live h outer c r) (and_then (work ?r0) (flush_ncc_result_batch fuel h go))"
  proof (rule returns_and_then [OF work [OF run0]])
    fix r1 assume r1: "runs rank content live h outer c ?r0 r1"
    have pend1: "pending_ncc_results r1 \<noteq> None"
      using depth_of_pending [of r1 ?r0] runs_settles [OF r1] by (auto simp: settles_def)
    have "returns (drained outer r1) (drain_ncc_results fuel h go r1)"
      using drain_returns [of 0 fuel] fuel running_runs [OF run0 r1] pend1 by (simp add: drains_def)
    then show "returns (runs rank content live h outer c r) (flush_ncc_result_batch fuel h go r1)"
      unfolding flush_ncc_result_batch_def
    proof (rule returns_and_then)
      fix r2 assume r2: "drained outer r1 r2"
      have "evolves h rank 0 r (r2\<lparr>pending_ncc_results := None\<rparr>)"
        using settles_trans [OF runs_settles [OF r1]] r2 none by (fastforce simp: drained_def settles_def intro: evolves_trans)
      moreover have "pending_ncc_results r = None" using True by simp
      ultimately have ev: "evolves h rank c r (r2\<lparr>pending_ncc_results := None\<rparr>)"
        by (simp add: evolves_def batch_evolves_def)
      have "rete_inv rank content live h outer (r2\<lparr>pending_ncc_results := None\<rparr>)"
        by (rule rete_inv_batch [where outer = outer]) (use r2 in \<open>simp_all add: drained_def batch_ok_def outer batch_kept_def\<close>)
      with ev show "returns (runs rank content live h outer c r) (Inr (r2\<lparr>pending_ncc_results := None\<rparr>))"
        by (simp add: runs_def)
    qed
  qed
  with True show ?thesis by (simp add: in_batch_def)
next
  case False
  have "returns (runs rank content live h outer c r) (work r)" using work [of "pending_ncc_results r"] run by simp
  with False show ?thesis by (auto simp: in_batch_def)
qed

end

text \<open>The closed recursion with fuel beyond every rank.\<close>

lemma engine_contract: "N < fuel \<Longrightarrow> engine rank content live h fb N (propagate_token fuel h fb)"
  unfolding engine_def by (rule propagate_token_contract) simp

interpretation whole: engine rank content live h fb N "propagate_token (Suc N) h fb"
  for rank content live h fb N
  by (rule engine_contract) simp

end
