(* ===== verification/Rete_Assertion.thy ===== *)
theory Rete_Assertion
  imports Rete_Batches
begin

text \<open>
  The activations of nodes by a new fact, and the assertion of a fact, keep the invariant of the
  network and return.
\<close>

section \<open>Parents\<close>

lemma candidate_parents_stored:
  assumes "beta_index_ok bind bm" "t \<in> set (collect_candidate_parent_tokens bm index_tests f)"
  shows "t \<in> set (bm_tokens bm)"
proof -
  have "set (case lookup_by_var bm var k of None \<Rightarrow> [] | Some ts \<Rightarrow> rev ts) \<subseteq> set (bm_tokens bm)" if "is_var_indexed bm var" for var k
  proof -
    have "(case lookup_by_var bm var k of None \<Rightarrow> [] | Some ts \<Rightarrow> rev ts) =
        rev (case lookup_by_var bm var k of None \<Rightarrow> [] | Some ts \<Rightarrow> ts)" by (simp split: option.split)
    then show ?thesis unfolding beta_index.lookup_default [OF assms(1) that] by auto
  qed
  with assms(2) show ?thesis
    by (auto simp: collect_candidate_parent_tokens_def beta_iter_def split: if_splits list.splits option.splits)
qed

lemma node_memory_of_eq: "node_memory_of r n = node_memory_at (r_beta r) n"
  by (simp add: node_memory_of_def node_memory_at_def)

lemma memory_owned:
  assumes inv: "rete_inv rank content live h outer r" and bm: "node_memory_at (r_beta r) q = Some bm" "t \<in> set (bm_tokens bm)"
  shows "owned h r t q"
  using rete_invD(4,5) [OF inv] bm by (fastforce simp: memories_ok_def tokens_ok_def owned_def)

lemma candidate_parents_owned:
  assumes inv: "rete_inv rank content live h outer r"
    and p: "p \<in> set (case node_memory_of r q of None \<Rightarrow> [] | Some bm \<Rightarrow> collect_candidate_parent_tokens bm ts f)"
  shows "owned h r p q"
proof -
  obtain bm where bm: "node_memory_at (r_beta r) q = Some bm" "p \<in> set (collect_candidate_parent_tokens bm ts f)"
    using p by (cases "node_memory_at (r_beta r) q") (auto simp: node_memory_of_eq)
  have "beta_index_ok (bindings_of (r_tokens r)) bm" using rete_invD(5) [OF inv] bm(1) by (auto simp: memories_ok_def)
  from memory_owned [OF inv bm(1) candidate_parents_stored [OF this bm(2)]] show ?thesis .
qed

section \<open>Activation of nodes\<close>

lemma fold_block_shrinks:
  "set ps \<subseteq> dom (blocked nm) \<Longrightarrow> neg_shrinks nm (fold (\<lambda>p. add_blocker p i order) ps nm)"
proof (induction ps arbitrary: nm)
  case (Cons p ps)
  have "neg_shrinks nm (add_blocker p i order nm)" by (rule neg_shrinks_ops(4)) (use Cons.prems in simp)
  moreover have "neg_shrinks (add_blocker p i order nm) (fold (\<lambda>p. add_blocker p i order) ps (add_blocker p i order nm))"
    by (rule Cons.IH) (use Cons.prems in \<open>simp add: add_blocker_keeps(2), blast\<close>)
  ultimately show ?case using shrinks_trans(1) by simp
qed simp

context engine
begin

lemma right_activate:
  assumes run: "running rank content live h fb N outer r" and fuel: "N < fuel"
    and n: "get_node (r_beta r) n = Some (Join q a tests sq bs m cs)" and parents: "\<forall>p \<in> set parents. owned h r p q"
    and i: "alpha_memory_at (r_alpha r) a = Some am" "i \<in> set (mem_facts am)" "content i = f"
  shows "returns (runs rank content live h outer 0 r) (right_activate fuel h go n parents i f r)"
  unfolding right_activate_def
proof (rule in_batch [OF run fuel])
  fix x assume run': "running rank content live h fb N outer (r\<lparr>pending_ncc_results := x\<rparr>)"
  let ?r = "r\<lparr>pending_ncc_results := x\<rparr>"
  have "returns (runs rank content live h outer (rank n) ?r) (for_each (\<lambda>p. propagate_join_fact h go n p i f) parents ?r)"
  proof (rule returns_runs_each [OF run'])
    fix p r' assume p: "p \<in> set parents" and r': "runs rank content live h outer (rank n) ?r r'" "running rank content live h fb N outer r'"
    have "owned h ?r p q" using parents p by simp
    from runs_owned [OF r'(1) this] r'(1) i n show "returns (runs rank content live h outer (rank n) r') (propagate_join_fact h go n p i f r')"
      by (intro propagate_join_fact [OF r'(2)]) (simp_all add: runs_node [OF r'(1)], simp add: runs_def evolves_def)
  qed
  then show "returns (runs rank content live h outer 0 ?r) (for_each (\<lambda>p. propagate_join_fact h go n p i f) parents ?r)"
    by (rule returns_mono) (rule runs_mono, simp_all)
qed

lemma block_and_withdraw:
  assumes run: "running rank content live h fb N outer r" and n: "get_node (r_beta r) n = Some (Negative q a tests sq m k cs)"
    and own: "owned h r p q" "owned h r pt n"
  shows "returns (runs rank content live h outer (rank n) r) (and_then (allocate_order h r) (\<lambda>(order, r).
    retract_token_cascade h go pt (update_beta (with_neg_memory k (\<lambda>nm. add_blocker p i order (snd (remove_unblocked p nm)))) r)))"
proof (rule returns_and_then [OF allocate_order_inv [OF runningD(1) [OF run], where b = "rank n"]])
  fix x :: "u64 \<times> rete" assume "case x of (order, r') \<Rightarrow> rete_inv rank content live h outer r' \<and> evolves h rank (rank n) r r' \<and>
    net_shrinks (r_beta r) (r_beta r') \<and> r_tokens r' = r_tokens r"
  then obtain order r1 where x: "x = (order, r1)" and r1: "runs rank content live h outer (rank n) r r1"
    by (cases x) (auto simp: runs_def)
  let ?f = "\<lambda>nm. add_blocker p i order (snd (remove_unblocked p nm))"
  let ?r2 = "update_beta (with_neg_memory k ?f) r1"
  have n1: "get_node (r_beta r1) n = Some (Negative q a tests sq m k cs)" by (simp add: runs_node [OF r1] n)
  have grow: "ran (unblocked (?f nm)) \<subseteq> ran (unblocked nm) \<union> {t. owned h r1 t n} \<and>
      dom (blocked (?f nm)) \<subseteq> dom (blocked nm) \<union> {t. owned h r1 t q} \<and> (neg_kept nm \<longrightarrow> neg_kept (?f nm))" for nm
  proof -
    have "neg_shrinks nm (snd (remove_unblocked p nm))" by (rule neg_shrinks_ops(2))
    then show ?thesis using add_blocker_keeps [where p = p and f = i and order = order and nm = "snd (remove_unblocked p nm)"] runs_owned [OF r1 own(1)]
      unfolding neg_shrinks_def by auto
  qed
  note step = inv_with_neg [OF runs_inv [OF r1] n1 grow]
  have r2: "runs rank content live h outer (rank n) r ?r2"
    using runs_trans [OF r1, of ?r2] step(1) step(2) [of "rank n"] unfolding runs_def by blast
  have "returns (runs rank content live h outer (rank n) ?r2) (retract_token_cascade h go pt ?r2)"
    by (rule withdraw_pass_through [OF running_runs [OF run r2] _ order.refl, where node = "Negative q a tests sq m k cs"]) (use n1 runs_owned [OF r2 own(2)] in simp_all)
  then show "returns (runs rank content live h outer (rank n) r) (case x of (order, r) \<Rightarrow>
      retract_token_cascade h go pt (update_beta (with_neg_memory k (\<lambda>nm. add_blocker p i order (snd (remove_unblocked p nm)))) r))"
    unfolding x prod.case by (rule returns_mono) (rule runs_trans [OF r2])
qed

lemma negative_right_activate:
  assumes run: "running rank content live h fb N outer r" and n: "get_node (r_beta r) n = Some (Negative q a tests sq m k cs)"
  shows "returns (runs rank content live h outer (rank n) r) (negative_right_activate h go n i f r)"
proof (cases "get_neg_memory (r_beta r) k")
  case None
  with n runs_refl [OF run] show ?thesis by (simp add: negative_right_activate_def)
next
  case (Some nm)
  note inv = runningD(1) [OF run]
  note iv = rete_invD [OF inv]
  let ?entries = "List.map_filter (\<lambda>p. map_option (Pair p) (negative_passthrough nm p))
      (case node_memory_of r q of None \<Rightarrow> [] | Some bm \<Rightarrow> beta_iter bm)"
  let ?matching = "\<lambda>t. case token_get (r_tokens r) t of None \<Rightarrow> False | Some tok \<Rightarrow> evaluate_pattern f tok tests sq"
  let ?blocked = "filter ?matching (walk_tokens h (dom (blocked nm)))"
  let ?r1 = "update_beta (with_neg_memory k (fold (\<lambda>p. add_blocker p i 0) ?blocked)) r"
  have "neg_kept nm" using iv(10) get_neg_memory_in [OF Some] by (simp add: orders_kept_def)
  then have "finite (dom (blocked nm))" by (auto simp: neg_kept_def intro: finite_subset)
  then have "set (walk_tokens h (dom (blocked nm))) = dom (blocked nm)" using iv(1) by (simp add: host_ok_def walksD)
  then have "neg_shrinks nm (fold (\<lambda>p. add_blocker p i 0) ?blocked nm)" by (intro fold_block_shrinks) auto
  then have "net_shrinks (r_beta r) (r_beta ?r1)" by (auto intro!: net_shrinks_neg simp: Some)
  from rete_inv_shrinks [OF inv this] have r1: "runs rank content live h outer (rank n) r ?r1" by (simp add: runs_def)
  have entries: "owned h r p q \<and> owned h r pt n" if mem: "(p, pt) \<in> set ?entries" for p pt
  proof -
    obtain bm where bm: "node_memory_at (r_beta r) q = Some bm" "p \<in> set (bm_tokens bm)" and pt: "unblocked nm p = Some pt"
      using mem by (cases "node_memory_at (r_beta r) q") (auto simp: in_map_filter node_memory_of_eq beta_iter_def negative_passthrough_def)
    have "owned h r pt n" using iv(9) n Some pt by (fastforce simp: sides_ok_def side_ok_def ran_def)
    with memory_owned [OF inv bm] show ?thesis by simp
  qed
  have "returns (runs rank content live h outer (rank n) ?r1) (for_each (\<lambda>(p, pt) r.
      and_then (allocate_order h r) (\<lambda>(order, r). retract_token_cascade h go pt (update_beta (with_neg_memory k
        (\<lambda>nm. add_blocker p i order (snd (remove_unblocked p nm)))) r))) (filter (\<lambda>(p, pt). ?matching pt) ?entries) ?r1)"
  proof (rule returns_runs_each [OF running_runs [OF run r1]])
    fix x r' assume x: "x \<in> set (filter (\<lambda>(p, pt). ?matching pt) ?entries)"
      and r': "runs rank content live h outer (rank n) ?r1 r'" "running rank content live h fb N outer r'"
    obtain p pt where eq: "x = (p, pt)" by (cases x)
    have all: "runs rank content live h outer (rank n) r r'" by (rule runs_trans [OF r1 r'(1)])
    have "(p, pt) \<in> set ?entries" using x by (simp add: eq)
    from entries [OF this] have "owned h r' p q" "owned h r' pt n" using runs_owned [OF all] by blast+
    from block_and_withdraw [OF r'(2) _ this] n
    show "returns (runs rank content live h outer (rank n) r') ((\<lambda>(p, pt) r. and_then (allocate_order h r)
        (\<lambda>(order, r). retract_token_cascade h go pt (update_beta (with_neg_memory k
          (\<lambda>nm. add_blocker p i order (snd (remove_unblocked p nm)))) r))) x r')"
      by (simp add: eq runs_node [OF all])
  qed
  then have "returns (runs rank content live h outer (rank n) r) (for_each (\<lambda>(p, pt) r.
      and_then (allocate_order h r) (\<lambda>(order, r). retract_token_cascade h go pt (update_beta (with_neg_memory k
        (\<lambda>nm. add_blocker p i order (snd (remove_unblocked p nm)))) r))) (filter (\<lambda>(p, pt). ?matching pt) ?entries) ?r1)"
    by (rule returns_mono) (rule runs_trans [OF r1])
  with n Some show ?thesis by (simp add: negative_right_activate_def Let_def)
qed

lemma exists_right_activate:
  assumes run: "running rank content live h fb N outer r" and n: "get_node (r_beta r) n = Some (Exists q a tests sq m k cs)"
  shows "returns (runs rank content live h outer (rank n) r) (exists_right_activate h go n i f r)"
proof -
  let ?parents = "case node_memory_of r q of None \<Rightarrow> [] | Some bm \<Rightarrow> collect_candidate_parent_tokens bm (indexable_tests tests sq) f"
  define step where "step = (\<lambda>p r.
            case token_get (r_tokens r) p of
              None \<Rightarrow> Inr r
            | Some parent_token \<Rightarrow>
                if \<not> evaluate_pattern f parent_token tests sq then Inr r
                else (case get_exists_memory (r_beta r) k of
                  None \<Rightarrow> Inr r
                | Some mem \<Rightarrow>
                    (let old_count = support_count mem p;
                         (new_count, mem) = add_support p i mem;
                         r = update_beta (with_exists_memory k (\<lambda>_. mem)) r
                     in if old_count = 0 \<and> 0 < new_count
                        then and_then (admit_token h (pass_through n p parent_token) None m r) (\<lambda>(pt, r).
                               go pt cs (update_beta (with_exists_memory k (set_satisfied p pt)) r))
                        else Inr r)))"
  have "returns (runs rank content live h outer (rank n) r) (for_each step ?parents r)"
  proof (rule returns_runs_each [OF run])
    fix p r' assume p: "p \<in> set ?parents"
      and r': "runs rank content live h outer (rank n) r r'" "running rank content live h fb N outer r'"
    have own: "owned h r' p q" by (rule runs_owned [OF r'(1) candidate_parents_owned [OF runningD(1) [OF run] p]])
    have n': "get_node (r_beta r') n = Some (Exists q a tests sq m k cs)" by (simp add: runs_node [OF r'(1)] n)
    have same: "runs rank content live h outer (rank n) r' r'" by (rule runs_refl [OF r'(2)])
    show "returns (runs rank content live h outer (rank n) r') (step p r')"
    proof (cases "\<exists>tok mem. token_get (r_tokens r') p = Some tok \<and> evaluate_pattern f tok tests sq \<and>
        get_exists_memory (r_beta r') k = Some mem")
      case True
      then obtain tok mem where eq: "tokens (r_tokens r') p = Some tok" "evaluate_pattern f tok tests sq"
        "get_exists_memory (r_beta r') k = Some mem" by (auto simp: token_get_def)
      obtain count mem' where add: "add_support p i mem = (count, mem')" by (cases "add_support p i mem")
      let ?r = "update_beta (with_exists_memory k (\<lambda>_. mem')) r'"
      have "satisfied mem' = satisfied mem" using add by (auto simp: add_support_def Let_def split: if_splits)
      then have r2: "runs rank content live h outer (rank n) r' ?r"
        by (intro support_step [OF r'(2) n']) (simp add: eq(3))
      have "returns (runs rank content live h outer (rank n) ?r) (and_then (admit_token h (pass_through n p tok) None m ?r)
          (\<lambda>(t, r'). go t cs (update_beta (with_exists_memory k (set_satisfied p t)) r')))"
        by (rule satisfy_and_go [OF running_runs [OF r'(2) r2]]) (simp_all add: n' eq(1) owned_live [OF own eq(1)])
      then have "returns (runs rank content live h outer (rank n) r') (and_then (admit_token h (pass_through n p tok) None m ?r)
          (\<lambda>(t, r'). go t cs (update_beta (with_exists_memory k (set_satisfied p t)) r')))"
        by (rule returns_mono) (rule runs_trans [OF r2])
      with r2 eq show ?thesis by (simp add: step_def token_get_def add Let_def)
    next
      case False
      then have "step p r' = Inr r'" by (auto simp: step_def split: option.split)
      with same show ?thesis by simp
    qed
  qed
  then show ?thesis by (simp add: exists_right_activate_def n step_def)
qed

lemma run_right_activation:
  assumes run: "running rank content live h fb N outer r" and fuel: "N < fuel"
    and act: "\<And>n parents. act = RightJoin n parents \<Longrightarrow> \<exists>q a ts sq bs m cs am. get_node (r_beta r) n = Some (Join q a ts sq bs m cs) \<and>
      alpha_memory_at (r_alpha r) a = Some am \<and> i \<in> set (mem_facts am) \<and> (\<forall>p \<in> set parents. owned h r p q)"
    and f: "content i = f"
  shows "returns (runs rank content live h outer 0 r) (run_right_activation fuel h go i f act r)"
proof (cases act)
  case (RightJoin n parents)
  from act [OF this] obtain q a ts sq bs m cs am where "get_node (r_beta r) n = Some (Join q a ts sq bs m cs)"
    "alpha_memory_at (r_alpha r) a = Some am" "i \<in> set (mem_facts am)" "\<forall>p \<in> set parents. owned h r p q" by blast
  from right_activate [OF run fuel this(1,4,2,3) f] show ?thesis by (simp add: RightJoin)
next
  case (RightNegative n)
  show ?thesis
  proof (cases "\<exists>q a ts sq m k cs. get_node (r_beta r) n = Some (Negative q a ts sq m k cs)")
    case True
    then obtain q a ts sq m k cs where node: "get_node (r_beta r) n = Some (Negative q a ts sq m k cs)" by blast
    have "returns (runs rank content live h outer 0 r) (negative_right_activate h go n i f r)"
      by (rule returns_mono [OF negative_right_activate [OF run node]]) (rule runs_mono, simp_all)
    then show ?thesis by (simp add: RightNegative)
  next
    case False
    with runs_refl [OF run] show ?thesis
      by (auto simp: RightNegative negative_right_activate_def split: option.split beta_node.split)
  qed
next
  case (RightExists n)
  show ?thesis
  proof (cases "\<exists>q a ts sq m k cs. get_node (r_beta r) n = Some (Exists q a ts sq m k cs)")
    case True
    then obtain q a ts sq m k cs where node: "get_node (r_beta r) n = Some (Exists q a ts sq m k cs)" by blast
    have "returns (runs rank content live h outer 0 r) (exists_right_activate h go n i f r)"
      by (rule returns_mono [OF exists_right_activate [OF run node]]) (rule runs_mono, simp_all)
    then show ?thesis by (simp add: RightExists)
  next
    case False
    with runs_refl [OF run] show ?thesis
      by (auto simp: RightExists exists_right_activate_def split: option.split beta_node.split)
  qed
qed

end

section \<open>The alpha side\<close>

text \<open>Alpha memories of one graph of nodes for two sets of live facts.\<close>

lemma alpha_memory_live:
  assumes ok: "net_ok content live net" and am: "alpha_memory_at net a = Some am"
  shows "set (mem_facts am) \<subseteq> set live"
  using memory_live [OF ok, of "mem_index a"] am by (auto simp: alpha_memory_at_def list_get_def split: if_splits)

lemma alpha_memory_filter:
  assumes ok: "net_ok content live net" "net_ok content live' net'" and nodes: "nodes net' = nodes net"
    and am: "alpha_memory_at net a = Some am"
  obtains am' where "alpha_memory_at net' a = Some am'" "set (mem_facts am) \<inter> set live' \<subseteq> set (mem_facts am')"
proof -
  have a: "mem_index a < length (memories net)" "am = memories net ! mem_index a"
    using am by (auto simp: alpha_memory_at_def list_get_def split: if_splits)
  note shape = net_shapeD [OF net_okD(1) [OF ok(1)]]
  obtain n where n: "n < length (nodes net)" "node_memory (nodes net ! n) = Some a" using shape(10) [OF a(1)] by blast
  obtain e ts where path: "path (nodes net) n e ts" using shape(2) [OF n(1)] by blast
  have "mem_index a < length (memories net')"
    using net_shapeD(8) [OF net_okD(1) [OF ok(2)], of n a] n by (simp add: nodes)
  then have "alpha_memory_at net' a = Some (memories net' ! mem_index a)" by (simp add: alpha_memory_at_def list_get_def)
  moreover have "set (mem_facts am) \<inter> set live' \<subseteq> set (mem_facts (memories net' ! mem_index a))"
    using net_okD(8) [OF ok(1) path n(2)] net_okD(8) [OF ok(2), of n e ts a] path n(2) a(2) by (auto simp: nodes)
  ultimately show thesis by (rule that)
qed

text \<open>The facts that tokens stand on.\<close>

lemma token_fact_live:
  assumes inv: "rete_inv rank content live h outer r" and t: "tokens (r_tokens r) t = Some tok" "tok_fact tok = Some f"
  shows "f \<in> set live"
proof -
  have sound: "token_sound content (r_alpha r) (r_beta r) (r_tokens r) tok"
    using rete_invD(4) [OF inv] t(1) by (auto simp: tokens_ok_def)
  then obtain node where node: "get_node (r_beta r) (tok_owner tok) = Some node" by (auto simp: token_sound_def)
  then obtain q a ts sq bs m cs where "node = Join q a ts sq bs m cs"
    using t(2) sound by (cases node) (auto simp: token_sound_def derived_def split: option.splits)
  with node sound t(2) obtain am where "alpha_memory_at (r_alpha r) a = Some am" "f \<in> set (mem_facts am)"
    by (auto simp: token_sound_def)
  with alpha_memory_live [OF rete_invD(3) [OF inv]] show ?thesis by blast
qed

lemma torn_alpha:
  assumes inv: "torn rank content live h outer removed r" and ok: "net_ok content live' alpha" and nodes: "nodes alpha = nodes (r_alpha r)"
    and kept: "\<forall>t tok f. tokens (r_tokens r) t = Some tok \<longrightarrow> tok_fact tok = Some f \<longrightarrow> f \<in> set live'"
  shows "torn rank content live' h outer removed (r\<lparr>r_alpha := alpha, new_activations := new\<rparr>)"
proof -
  let ?r = "r\<lparr>r_alpha := alpha, new_activations := new\<rparr>"
  note i = tornD [OF inv]
  have iss: "issued h ?r = issued h r" by (simp add: fun_eq_iff issued_def)
  have own: "owned h ?r = owned h r" by (simp add: fun_eq_iff owned_def iss)
  have sound: "token_sound content alpha (r_beta r) (r_tokens r) tok"
    if stored: "tokens (r_tokens r) t = Some tok" and old: "token_sound content (r_alpha r) (r_beta r) (r_tokens r) tok" for t tok
  proof -
    have kept': "\<exists>am'. alpha_memory_at alpha a = Some am' \<and> f \<in> set (mem_facts am')"
      if f: "tok_fact tok = Some f" "\<exists>am. alpha_memory_at (r_alpha r) a = Some am \<and> f \<in> set (mem_facts am)" for a f
    proof -
      from f(2) obtain am where am: "alpha_memory_at (r_alpha r) a = Some am" "f \<in> set (mem_facts am)" by blast
      have "f \<in> set live'" using kept stored f(1) by blast
      moreover obtain am' where "alpha_memory_at alpha a = Some am'" "set (mem_facts am) \<inter> set live' \<subseteq> set (mem_facts am')"
        by (rule alpha_memory_filter [OF i(3) ok nodes am(1)])
      ultimately show ?thesis using am(2) by blast
    qed
    from old obtain node where node: "get_node (r_beta r) (tok_owner tok) = Some node" by (auto simp: token_sound_def)
    with old show ?thesis using kept' by (simp add: token_sound_def)
  qed
  have "tokens_ok content h ?r" using i(4) sound by (simp add: tokens_ok_def iss)
  moreover have "memories_hold (mended removed (r_tokens ?r)) ?r" "root_ok ?r" using i(5,6) by (simp_all add: memories_hold_def root_ok_def)
  moreover have "agenda_holds h (mended removed (r_tokens ?r)) ?r" using i(7) by (simp add: agenda_holds_def)
  moreover have "event_sound h ?r = event_sound h r" by (auto simp: fun_eq_iff event_sound_def own split: pending_event.split)
  then have "events_ok h ?r" using i(8) by (simp add: events_ok_def)
  moreover have "side_ok h ?r = side_ok h r" by (auto simp: fun_eq_iff side_ok_def own split: beta_node.split)
  then have "sides_ok h ?r" using i(9) by (simp add: sides_ok_def)
  moreover have "orders_kept (block_view ?r)" using i(10) by (simp add: orders_kept_def)
  moreover have "result_sound h ?r = result_sound h r" by (simp add: fun_eq_iff result_sound_def own)
  then have "batch_ok h outer ?r" using i(11) by (cases "pending_ncc_results r") (simp_all add: batch_ok_def)
  ultimately show ?thesis using i(1,2,12,13) ok by (simp add: torn_def iss)
qed

lemma rete_inv_alpha:
  assumes "rete_inv rank content live h outer r" "net_ok content live' alpha" "nodes alpha = nodes (r_alpha r)"
    and "\<forall>t tok f. tokens (r_tokens r) t = Some tok \<longrightarrow> tok_fact tok = Some f \<longrightarrow> f \<in> set live'"
  shows "rete_inv rank content live' h outer (r\<lparr>r_alpha := alpha, new_activations := new\<rparr>)"
  using torn_alpha [of rank content live h outer "[]" r live' alpha] assms by (simp add: torn_Nil)

section \<open>Assertion\<close>

text \<open>The fact base knows the live facts, with timestamps that have a recency tag.\<close>

definition base_knows :: "(fact_id \<Rightarrow> fact) \<Rightarrow> fact_base \<Rightarrow> fact_id list \<Rightarrow> bool" where
  "base_knows content fb live \<longleftrightarrow> (\<forall>f \<in> set live. \<exists>entry. fact_base_get fb f = Some entry \<and>
     entry_fact entry = content f \<and> entry_timestamp entry \<noteq> u64_max)"

lemma base_facts_known: "net_ok content live alpha \<Longrightarrow> base_knows content fb live \<Longrightarrow> facts_known content fb alpha"
  using memory_live unfolding facts_known_def base_knows_def by (metis in_set_conv_nth subsetD)

text \<open>A network between two operations.\<close>

definition at_rest ::
  "(node_id \<Rightarrow> nat) \<Rightarrow> (fact_id \<Rightarrow> fact) \<Rightarrow> fact_id list \<Rightarrow> host \<Rightarrow> nat \<Rightarrow> rete \<Rightarrow> bool"
where
  "at_rest rank content live h N r \<longleftrightarrow> rete_inv rank content live h [] r \<and> pending_ncc_results r = None \<and>
     (\<forall>n node. get_node (r_beta r) n = Some node \<longrightarrow> rank n < N) \<and> length (nodes (r_alpha r)) \<le> N"

lemma at_restD:
  assumes "at_rest rank content live h N r"
  shows "rete_inv rank content live h [] r" "pending_ncc_results r = None"
    "get_node (r_beta r) n = Some node \<Longrightarrow> rank n < N" "length (nodes (r_alpha r)) \<le> N"
  using assms by (auto simp: at_rest_def)

lemma at_rest_running: "at_rest rank content live h N r \<Longrightarrow> base_knows content fb live \<Longrightarrow> running rank content live h fb N [] r"
  using base_facts_known rete_invD(3) by (fastforce simp: at_rest_def running_def)

lemma at_rest_runs: "at_rest rank content live h N r \<Longrightarrow> runs rank content live h [] c r r' \<Longrightarrow> at_rest rank content live h N r'"
  using runs_node [of rank content live h "[]" c r r'] depth_of_pending [of r' r] runs_settles [of rank content live h "[]" c r r']
  by (auto simp: at_rest_def runs_def evolves_def settles_def)

text \<open>The nodes of both networks stay as they are.\<close>

definition kept_wiring :: "rete \<Rightarrow> rete \<Rightarrow> bool" where
  "kept_wiring r r' \<longleftrightarrow> same_graph (r_beta r) (r_beta r') \<and> nodes (r_alpha r') = nodes (r_alpha r)"

lemma kept_wiring_refl [simp]: "kept_wiring r r"
  by (simp add: kept_wiring_def)

lemma kept_wiring_trans: "kept_wiring r r' \<Longrightarrow> kept_wiring r' r'' \<Longrightarrow> kept_wiring r r''"
  using same_graph_trans by (fastforce simp: kept_wiring_def)

lemma kept_wiring_runs: "runs rank content live h outer c r r' \<Longrightarrow> kept_wiring r r'"
  by (simp add: runs_def evolves_def kept_wiring_def)

lemma assert_returns:
  assumes rest: "at_rest rank content live h N r" and fuel: "N < fuel"
    and i: "i \<notin> set live" and base: "base_knows content fb (live @ [i])"
  shows "returns (\<lambda>(acts, r'). at_rest rank content (live @ [i]) h N r' \<and> kept_wiring r r') (rete_assert_fact fuel h fb i (content i) r)"
proof -
  note inv = at_restD(1) [OF rest]
  have "length (nodes (r_alpha r)) < fuel" using at_restD(4) [OF rest] fuel by simp
  from net_ok_assert [OF rete_invD(3) [OF inv] i this] obtain ms alpha where
    alpha: "alpha_assert_fact fuel i (content i) (r_alpha r) = Some (ms, alpha)" "net_ok content (live @ [i]) alpha"
      "set ms = holders alpha i" "nodes alpha = nodes (r_alpha r)" by metis
  let ?r = "r\<lparr>r_alpha := alpha, new_activations := []\<rparr>" and ?go = "propagate_token fuel h fb"
  have "rete_inv rank content (live @ [i]) h [] ?r"
    by (rule rete_inv_alpha [OF inv alpha(2,4)]) (use token_fact_live [OF inv] in auto)
  then have rest1: "at_rest rank content (live @ [i]) h N ?r" using rest alpha(4) by (simp add: at_rest_def)
  note run = at_rest_running [OF rest1 base]
  have "returns (runs rank content (live @ [i]) h [] 0 ?r)
      (for_each (run_right_activation fuel h ?go i (content i)) (right_activations ?r (content i) ms) ?r)"
  proof (rule returns_runs_each [OF run])
    fix act r' assume act: "act \<in> set (right_activations ?r (content i) ms)"
      and r': "runs rank content (live @ [i]) h [] 0 ?r r'" "running rank content (live @ [i]) h fb N [] r'"
    show "returns (runs rank content (live @ [i]) h [] 0 r') (run_right_activation fuel h ?go i (content i) act r')"
    proof (rule engine.run_right_activation [OF engine_contract [OF fuel] r'(2) fuel _ refl])
      fix n parents assume eq: "act = RightJoin n parents"
      then obtain a where a: "a \<in> set ms" "n \<in> set (nodes_for_alpha (alpha_to_joins (r_beta r)) a)"
        "parents = right_parent_candidates ?r n (content i)"
        using act by (auto simp: right_activations_def)
      obtain q ts sq bs m cs where n: "get_node (r_beta r) n = Some (Join q a ts sq bs m cs)"
        using graph_okD(12) [OF rete_invD(2) [OF inv] a(2)] by blast
      have "a \<in> holders alpha i" using a(1) alpha(3) by simp
      then have am: "alpha_memory_at alpha a = Some (memories alpha ! mem_index a)" "i \<in> set (mem_facts (memories alpha ! mem_index a))"
        by (simp_all add: holders_def alpha_memory_at_def list_get_def)
      have "owned h ?r p q" if p: "p \<in> set parents" for p
      proof (rule candidate_parents_owned [OF runningD(1) [OF run]])
        show "p \<in> set (case node_memory_of ?r q of None \<Rightarrow> []
            | Some bm \<Rightarrow> collect_candidate_parent_tokens bm (indexable_tests ts sq) (content i))"
          using p n by (simp add: a(3) right_parent_candidates_def)
      qed
      then have "\<forall>p \<in> set parents. owned h r' p q" using runs_owned [OF r'(1)] by blast
      moreover have "alpha_memory_at (r_alpha r') a = Some (memories alpha ! mem_index a)"
        using r'(1) am(1) by (simp add: runs_def evolves_def)
      ultimately show "\<exists>q a ts sq bs m cs am. get_node (r_beta r') n = Some (Join q a ts sq bs m cs) \<and>
          alpha_memory_at (r_alpha r') a = Some am \<and> i \<in> set (mem_facts am) \<and> (\<forall>p \<in> set parents. owned h r' p q)"
        using n am(2) by (auto simp: runs_node [OF r'(1)])
    qed
  qed
  moreover have "kept_wiring r ?r" using alpha(4) by (simp add: kept_wiring_def)
  ultimately have "returns (\<lambda>(acts, r'). at_rest rank content (live @ [i]) h N r' \<and> kept_wiring r r')
      (and_then (for_each (run_right_activation fuel h ?go i (content i)) (right_activations ?r (content i) ms) ?r)
        (\<lambda>r. Inr (new_activations r, r)))"
    by (elim returns_and_then) (simp add: at_rest_runs [OF rest1] kept_wiring_trans kept_wiring_runs)
  then show ?thesis by (simp add: rete_assert_fact_def alpha(1) Let_def)
qed

end
