(* ===== verification/Rete_Retraction.thy ===== *)
theory Rete_Retraction
  imports Rete_Assertion
begin

text \<open>
  The retraction of a fact keeps the invariant of the network and returns: the tokens that stand on
  the fact leave with all that is below them, conjunctions and negations that were blocked by it are
  reconsidered in the order of their blocks, and exists nodes lose its support.
\<close>

section \<open>Removal of the roots\<close>

lemma remove_roots_torn:
  assumes "torn rank content live h outer removed r"
    and "\<forall>root \<in> set roots. \<forall>tok. tokens (r_tokens r) root = Some tok \<longrightarrow> tok_owner tok \<noteq> root_id (r_beta r)"
  shows "\<exists>removed' ts. remove_roots h roots (removed, r_tokens r) = Inr (removed', ts) \<and>
    torn rank content live h outer removed' (r\<lparr>r_tokens := ts\<rparr>) \<and> evolves h rank b r (r\<lparr>r_tokens := ts\<rparr>) \<and>
    (\<forall>x u. (x, u) \<in> set removed' \<longrightarrow> (x, u) \<in> set removed \<or> tokens (r_tokens r) x = Some u) \<and>
    (\<forall>x. tokens ts x = None \<or> tokens ts x = tokens (r_tokens r) x) \<and> (\<forall>root \<in> set roots. tokens ts root = None)"
  using assms
proof (induction roots arbitrary: removed r)
  case Nil
  have "r\<lparr>r_tokens := r_tokens r\<rparr> = r" by simp
  with Nil show ?case by (simp add: remove_roots_def)
next
  case (Cons root roots)
  note i = tornD [OF Cons.prems(1)]
  have ok: "ts_ok (r_tokens r)" and w: "walks (walk_tokens h)" using i(1,4) by (simp_all add: tokens_ok_def host_ok_def)
  obtain felled ts1 where cas: "remove_cascade (walk_tokens h) root (r_tokens r) = Some (felled, ts1)"
    using cascade_loop_ok [OF ok w, of "[root]" "[]"] by (auto simp: remove_cascade_def)
  have nroot: "\<forall>tok. tokens (r_tokens r) root = Some tok \<longrightarrow> tok_owner tok \<noteq> root_id (r_beta r)" using Cons.prems(2) by simp
  note cut = torn_cascade [OF Cons.prems(1) cas nroot]
  let ?r1 = "r\<lparr>r_tokens := ts1\<rparr>"
  have less: "tokens ts1 x = None \<or> tokens ts1 x = tokens (r_tokens r) x" for x by (simp add: cut(4))
  have rest: "\<forall>root \<in> set roots. \<forall>tok. tokens (r_tokens ?r1) root = Some tok \<longrightarrow> tok_owner tok \<noteq> root_id (r_beta ?r1)"
  proof (intro ballI allI impI)
    fix x tok assume "x \<in> set roots" "tokens (r_tokens ?r1) x = Some tok"
    with less [of x] Cons.prems(2) show "tok_owner tok \<noteq> root_id (r_beta ?r1)" by simp
  qed
  from Cons.IH [OF cut(1) rest] obtain removed' ts where s: "remove_roots h roots (removed @ felled, ts1) = Inr (removed', ts)"
    "torn rank content live h outer removed' (r\<lparr>r_tokens := ts\<rparr>)" "evolves h rank b ?r1 (r\<lparr>r_tokens := ts\<rparr>)"
    "\<forall>x u. (x, u) \<in> set removed' \<longrightarrow> (x, u) \<in> set (removed @ felled) \<or> tokens ts1 x = Some u"
    "\<forall>x. tokens ts x = None \<or> tokens ts x = tokens ts1 x" "\<forall>root \<in> set roots. tokens ts root = None"
    by auto
  have "tokens ts1 root = None" by (simp add: cut(4) descendants_def)
  then have "\<forall>x \<in> set (root # roots). tokens ts x = None" using s(5,6) by (metis set_ConsD)
  moreover have "remove_roots h (root # roots) (removed, r_tokens r) = Inr (removed', ts)"
    using s(1) by (simp add: remove_roots_def cas)
  moreover have "\<forall>x u. (x, u) \<in> set removed' \<longrightarrow> (x, u) \<in> set removed \<or> tokens (r_tokens r) x = Some u"
    using s(4) cut(3) less by (metis Un_iff option.distinct(1) set_append)
  moreover have "\<forall>x. tokens ts x = None \<or> tokens ts x = tokens (r_tokens r) x" using s(5) less by metis
  ultimately show ?case using s(2) evolves_trans [OF cut(2) s(3)] by blast
qed

lemma stored_ancestors:
  assumes ok: "tokens_ok content h r" and less: "\<forall>x. tokens (r_tokens r) x = None \<or> tokens (r_tokens r) x = tokens old x"
  shows "(a, x) \<in> (parent_rel old)\<^sup>* \<Longrightarrow> tokens (r_tokens r) x \<noteq> None \<Longrightarrow> tokens (r_tokens r) a \<noteq> None"
proof (induction rule: rtrancl_induct)
  case (step y x)
  then obtain tok where tok: "tokens old x = Some tok" "tok_parent tok = Some y" by (auto simp: parent_rel_iff)
  with less step.prems have "tokens (r_tokens r) x = Some tok" by metis
  then have "tokens (r_tokens r) y \<noteq> None" using ok tok(2) by (fastforce simp: tokens_ok_def token_sound_def)
  then show ?case by (rule step.IH)
qed simp

text \<open>After the removal of the roots no token stands on the fact.\<close>

lemma roots_removed:
  assumes ok: "ts_ok ts" and order: "set order = tokens_containing ts i" and roots: "retraction_roots ts order = Some roots"
    and after: "tokens_ok content h r" "\<forall>x. tokens (r_tokens r) x = None \<or> tokens (r_tokens r) x = tokens ts x"
      "\<forall>root \<in> set roots. tokens (r_tokens r) root = None"
    and t: "tokens (r_tokens r) t = Some tok"
  shows "tok_fact tok \<noteq> Some i"
proof
  assume fact: "tok_fact tok = Some i"
  have "tokens ts t = Some tok" using after(2) t by (metis option.distinct(1))
  then have "t \<in> members (fact_to_tokens ts) i" using ok fact by (simp add: ts_ok_def)
  then have "t \<in> set order" by (simp add: order tokens_containing_def members_def)
  moreover have "roots = filter (\<lambda>i. \<forall>a \<in> set order. (a, i) \<notin> (parent_rel ts)\<^sup>+) order"
    using roots retraction_roots_eq [OF ok, of order] by simp
  ultimately obtain root where "root \<in> set roots" "(root, t) \<in> (parent_rel ts)\<^sup>*"
    using root_above [OF ok, of t "set order"] by auto
  with stored_ancestors [OF after(1,2)] after(3) t show False by (metis option.distinct(1))
qed

section \<open>Transitions\<close>

definition transition_sound :: "(node_id \<Rightarrow> nat) \<Rightarrow> host \<Rightarrow> rete \<Rightarrow> transition \<Rightarrow> bool" where
  "transition_sound rank h r tr \<longleftrightarrow> (case tr of
     NegativeTransition n p \<Rightarrow> \<exists>q a ts sq m k cs. get_node (r_beta r) n = Some (Negative q a ts sq m k cs) \<and> owned h r p q
   | NccTransition e \<Rightarrow> retraction_sound rank h 0 r e)"

lemma transition_sound_evolves: "transition_sound rank h r tr \<Longrightarrow> evolves h rank b r r' \<Longrightarrow> transition_sound rank h r' tr"
  using retraction_sound_evolves [of rank h 0 r _ b r'] owned_evolves [of h r _ _ rank b r']
  by (cases tr) (auto simp: transition_sound_def evolves_node)

text \<open>The walk through removed tokens ends at the root or at a token that stays.\<close>

lemma retracted_memory_returns:
  assumes ok: "ts_ok ts" and sub: "\<And>x u. removed x = Some u \<Longrightarrow> tokens ts x = Some u"
  shows "\<exists>m. retracted_memory_loop net removed f (Some t) oldest = Some m"
proof (induction t arbitrary: oldest rule: wf_induct_rule [OF wf_parent_rel [OF ok]])
  case (1 t)
  show ?case
  proof (cases "removed t")
    case None
    then show ?thesis by (subst retracted_memory_loop.simps) simp
  next
    case (Some tok)
    show ?thesis
    proof (cases "tok_parent tok")
      case None
      have "\<exists>m. retracted_memory_loop net removed f None oldest' = Some m" for oldest'
        by (subst retracted_memory_loop.simps) simp
      with Some None show ?thesis by (subst retracted_memory_loop.simps) simp
    next
      case p: (Some p)
      have "(p, t) \<in> parent_rel ts" using sub [OF Some] p by (simp add: parent_rel_iff)
      from 1 [OF this] Some p show ?thesis by (subst retracted_memory_loop.simps) simp
    qed
  qed
qed

lemma withdraw_blocker_torn:
  assumes inv: "torn rank content live h outer removed r"
    and n: "get_node (r_beta r) n = Some (Negative q a' ts sq m k cs)" and evs: "\<forall>x \<in> set evs. transition_sound rank h r (snd x)"
  shows "returns (\<lambda>(evs', r'). torn rank content live h outer removed r' \<and> evolves h rank b r r' \<and> r_tokens r' = r_tokens r \<and>
      (\<forall>x \<in> set evs'. transition_sound rank h r' (snd x))) (withdraw_blocker f a n k parent (evs, r))"
proof (cases "get_neg_memory (r_beta r) k")
  case None
  with inv evs show ?thesis by (simp add: withdraw_blocker_def)
next
  case (Some nm)
  note i = tornD [OF inv]
  show ?thesis
  proof (cases "primary_blocker nm parent = Some f")
    case True
    then have dom: "parent \<in> dom (blocked nm)" by (auto simp: primary_blocker_def bind_eq_Some_conv)
    have "neg_kept nm" using i(10) get_neg_memory_in [OF Some] by (simp add: orders_kept_def)
    with dom obtain order where "block_order_of nm parent = Some order" by (auto simp: neg_kept_def block_order_of_def)
    moreover have "owned h r parent q" using i(9) n Some dom by (fastforce simp: sides_ok_def side_ok_def)
    ultimately show ?thesis using Some True inv evs n by (simp add: withdraw_blocker_def transition_sound_def)
  next
    case False
    let ?r = "update_beta (with_neg_memory k (\<lambda>nm. snd (remove_blocker parent f 0 nm))) r"
    have sh: "net_shrinks (r_beta r) (r_beta ?r)" by (simp add: net_shrinks_neg neg_shrinks_ops)
    note t = torn_shrinks [OF inv sh, simplified]
    with Some False evs transition_sound_evolves [OF _ t(2)] show ?thesis by (simp add: withdraw_blocker_def)
  qed
qed

lemma collect_negative_torn:
  assumes inv: "torn rank content live h outer removed r"
  shows "returns (\<lambda>(evs, r'). torn rank content live h outer removed r' \<and> evolves h rank b r r' \<and> r_tokens r' = r_tokens r \<and>
      (\<forall>x \<in> set evs. transition_sound rank h r' (snd x))) (collect_negative_retractions h f ams r)"
proof -
  define I where "I = (\<lambda>(evs :: ((u32 \<times> u64) \<times> transition) list, r'). torn rank content live h outer removed r' \<and> evolves h rank b r r' \<and>
      r_tokens r' = r_tokens r \<and> (\<forall>x \<in> set evs. transition_sound rank h r' (snd x)))"
  have start: "I ([], r)" using inv by (simp add: I_def)
  have step: "returns I (withdraw_blocker f a n k parent s)"
    if s: "I s" and n: "get_node (r_beta r) n = Some (Negative q a' ts sq m k cs)" for s a n q a' ts sq m k cs parent
  proof -
    obtain evs r1 where eq: "s = (evs, r1)" by (cases s)
    have r1: "torn rank content live h outer removed r1" "evolves h rank b r r1" "r_tokens r1 = r_tokens r"
      "\<forall>x \<in> set evs. transition_sound rank h r1 (snd x)" using s eq by (simp_all add: I_def)
    have n1: "get_node (r_beta r1) n = Some (Negative q a' ts sq m k cs)" by (simp add: evolves_node [OF r1(2)] n)
    show ?thesis unfolding eq
      by (rule returns_mono [OF withdraw_blocker_torn [OF r1(1) n1 r1(4), where b = b]])
        (use r1(3) evolves_trans [OF r1(2)] in \<open>auto simp: I_def\<close>)
  qed
  have "returns I (for_each (\<lambda>a (events, r).
       for_each (\<lambda>node (events, r).
         case get_node (r_beta r) node of
           Some (Negative _ _ _ _ _ cm _) \<Rightarrow>
             (case get_neg_memory (r_beta r) cm of
                None \<Rightarrow> Inr (events, r)
              | Some nm \<Rightarrow>
                  for_each (withdraw_blocker f a node cm) (walk_tokens h (tokens_blocked_by nm f)) (events, r))
         | _ \<Rightarrow> Inr (events, r)) (nodes_for_alpha (alpha_to_negatives (r_beta r)) a) (events, r)) ams ([], r))"
  proof (rule returns_for_each [where I = I, OF start], goal_cases)
    case (1 a s)
    obtain evs r1 where eq: "s = (evs, r1)" by (cases s)
    show ?case unfolding eq prod.case
    proof (rule returns_for_each [where I = I, OF 1(2) [unfolded eq]], goal_cases)
      case (1 n s)
      obtain evs2 r2 where eq2: "s = (evs2, r2)" by (cases s)
      show ?case
      proof (cases "\<exists>q a' ts sq m k cs. get_node (r_beta r2) n = Some (Negative q a' ts sq m k cs)")
        case True
        then obtain q a' ts sq m k cs where n: "get_node (r_beta r2) n = Some (Negative q a' ts sq m k cs)" by blast
        have "get_node (r_beta r) n = Some (Negative q a' ts sq m k cs)"
          using n 1(2) by (auto simp: eq2 I_def evolves_node)
        then have "returns I (for_each (withdraw_blocker f a n k) ps (evs2, r2))" for ps
          by (intro returns_for_each [where I = I, OF 1(2) [unfolded eq2]] step)
        with n 1(2) show ?thesis by (simp add: eq2 split: option.split)
      next
        case False
        with 1(2) show ?thesis by (auto simp: eq2 split: option.split beta_node.split)
      qed
    qed
  qed
  then show ?thesis by (simp add: collect_negative_retractions_def I_def)
qed

context engine
begin

lemma apply_negative_retraction:
  assumes run: "running rank content live h fb N outer r" and n: "get_node (r_beta r) n = Some (Negative q a ts sq m k cs)"
    and own: "owned h r p q"
  shows "returns (runs rank content live h outer (rank n) r) (apply_negative_retraction h go f n p r)"
proof (cases "\<exists>ptok nm. tokens (r_tokens r) p = Some ptok \<and> get_neg_memory (r_beta r) k = Some nm \<and> primary_blocker nm p = Some f")
  case False
  then have "apply_negative_retraction h go f n p r = Inr r"
    by (auto simp: apply_negative_retraction_def n token_get_def split: option.split)
  with runs_refl [OF run] show ?thesis by simp
next
  case True
  then obtain ptok nm where eq: "tokens (r_tokens r) p = Some ptok" "get_neg_memory (r_beta r) k = Some nm" "primary_blocker nm p = Some f"
    by blast
  define after where "after = (\<lambda>(order, r). and_then (or_stop Panic (get_neg_memory (r_beta r) k)) (\<lambda>nm.
      let (now_unblocked, nm) = remove_blocker p f order nm;
          r = update_beta (with_neg_memory k (\<lambda>_. nm)) r
      in if \<not> now_unblocked then Inr r
         else and_then (admit_token h (pass_through n p ptok) None m r) (\<lambda>(pt, r).
                go pt cs (update_beta (with_neg_memory k (set_unblocked p pt)) r))))"
  have unfold: "apply_negative_retraction h go f n p r = and_then (allocate_order h r) after"
    by (simp add: apply_negative_retraction_def n eq token_get_def after_def)
  show ?thesis unfolding unfold
  proof (rule returns_and_then [OF allocate_order_inv [OF runningD(1) [OF run], where b = "rank n"]])
    fix x :: "u64 \<times> rete" assume "case x of (order, r') \<Rightarrow> rete_inv rank content live h outer r' \<and> evolves h rank (rank n) r r' \<and>
      net_shrinks (r_beta r) (r_beta r') \<and> r_tokens r' = r_tokens r"
    then obtain order r1 where x: "x = (order, r1)" and r1: "runs rank content live h outer (rank n) r r1" and same: "r_tokens r1 = r_tokens r"
      by (cases x) (auto simp: runs_def)
    have "get_neg_memory (r_beta r1) k \<noteq> None"
      using r1 eq(2) by (auto simp: runs_def evolves_def same_graph_def get_neg_memory_def list_get_def split: if_splits)
    then obtain nm1 where nm1: "get_neg_memory (r_beta r1) k = Some nm1" by blast
    obtain now nm2 where rem: "remove_blocker p f order nm1 = (now, nm2)" by (cases "remove_blocker p f order nm1")
    have "neg_shrinks nm1 nm2" using neg_shrinks_ops(3) [of nm1 p f order] by (simp add: rem)
    then have sh: "net_shrinks (r_beta r1) (with_neg_memory k (\<lambda>_. nm2) (r_beta r1))"
      by (intro net_shrinks_neg) (simp add: nm1)
    let ?r = "update_beta (with_neg_memory k (\<lambda>_. nm2)) r1"
    have r2: "runs rank content live h outer (rank n) r ?r"
      using runs_trans [OF r1, of ?r] rete_inv_shrinks [OF runs_inv [OF r1] sh] by (simp add: runs_def)
    have n2: "get_node (r_beta ?r) n = Some (Negative q a ts sq m k cs)" by (simp add: runs_node [OF r1] n)
    have live2: "tokens (r_tokens ?r) p = Some ptok" by (simp add: same eq(1))
    have "token_sound content (r_alpha ?r) (r_beta ?r) (r_tokens ?r) (pass_through n p ptok)"
      by (rule pass_through_sound [OF n2 _ _ _ live2]) (simp_all add: side_memory_def owned_live [OF own eq(1)])
    then have "returns (runs rank content live h outer (rank n) ?r) (and_then (admit_token h (pass_through n p ptok) None m ?r)
        (\<lambda>(t, r'). go t cs (update_beta (with_neg_memory k (set_unblocked p t)) r')))"
    proof (intro admit_and_go [OF running_runs [OF run r2] _ n2])
      fix t r' assume r': "runs rank content live h outer (Suc (rank n)) ?r r'" "owned h r' t n"
      have n': "get_node (r_beta r') n = Some (Negative q a ts sq m k cs)" using n2 by (simp add: runs_node [OF r'(1)])
      have grow: "ran (unblocked (set_unblocked p t nm)) \<subseteq> ran (unblocked nm) \<union> {t. owned h r' t n} \<and>
          dom (blocked (set_unblocked p t nm)) \<subseteq> dom (blocked nm) \<union> {t. owned h r' t q} \<and>
          (neg_kept nm \<longrightarrow> neg_kept (set_unblocked p t nm))" for nm
        using r'(2) by (auto simp: set_unblocked_def ran_def neg_kept_def)
      note step = inv_with_neg [OF runs_inv [OF r'(1)] n' grow]
      show "runs rank content live h outer (Suc (rank n)) r' (update_beta (with_neg_memory k (set_unblocked p t)) r')"
        using step(1) step(2) [of "Suc (rank n)"] unfolding runs_def by blast
    qed simp_all
    then have "returns (runs rank content live h outer (rank n) r) (and_then (admit_token h (pass_through n p ptok) None m ?r)
        (\<lambda>(t, r'). go t cs (update_beta (with_neg_memory k (set_unblocked p t)) r')))"
      by (rule returns_mono) (rule runs_trans [OF r2])
    with r2 show "returns (runs rank content live h outer (rank n) r) (after x)"
      by (simp add: after_def x nm1 rem Let_def)
  qed
qed

lemma run_transition:
  assumes run: "running rank content live h fb N outer r" and tr: "transition_sound rank h r tr"
  shows "returns (runs rank content live h outer 0 r) (run_transition h go f tr r)"
proof (cases tr)
  case (NegativeTransition n p)
  with tr obtain q a ts sq m k cs where n: "get_node (r_beta r) n = Some (Negative q a ts sq m k cs)" "owned h r p q"
    by (auto simp: transition_sound_def)
  have "returns (runs rank content live h outer 0 r) (apply_negative_retraction h go f n p r)"
    by (rule returns_mono [OF apply_negative_retraction [OF run n]]) (rule runs_mono, simp_all)
  with NegativeTransition show ?thesis by (simp add: run_transition_def)
next
  case (NccTransition e)
  with tr apply_ncc_result_retraction [OF run, of 0 e] show ?thesis by (simp add: transition_sound_def run_transition_def)
qed

lemma withdraw_support:
  assumes run: "running rank content live h fb N outer r" and n: "get_node (r_beta r) n = Some (Exists q a ts sq m k cs)"
  shows "returns (runs rank content live h outer 0 r)
    (case get_exists_memory (r_beta r) k of
       None \<Rightarrow> Inr r
     | Some mem \<Rightarrow>
         (let ((new_count, was_removed), mem) = remove_support p f mem
          in if was_removed \<and> new_count = 0
             then (let (pt, mem) = remove_satisfied p mem;
                       r = update_beta (with_exists_memory k (\<lambda>_. mem)) r
                   in case pt of None \<Rightarrow> Inr r | Some pt \<Rightarrow> retract_token_cascade h go pt r)
             else Inr (update_beta (with_exists_memory k (\<lambda>_. mem)) r)))"
proof (cases "get_exists_memory (r_beta r) k")
  case None
  with runs_refl [OF run] show ?thesis by simp
next
  case (Some mem)
  obtain new_count was_removed mem1 where rem: "remove_support p f mem = ((new_count, was_removed), mem1)"
    by (cases "remove_support p f mem") auto
  let ?mem2 = "snd (remove_satisfied p mem1)" and ?pt = "fst (remove_satisfied p mem1)"
  have sub1: "ran (satisfied mem1) \<subseteq> ran (satisfied mem)"
    using exists_shrinks_ops(3) [of mem p f] by (simp add: rem exists_shrinks_def)
  have sub2: "ran (satisfied ?mem2) \<subseteq> ran (satisfied mem)"
    using exists_shrinks_ops(2) [of mem1 p] sub1 unfolding exists_shrinks_def by blast
  have r1: "runs rank content live h outer 0 r (update_beta (with_exists_memory k (\<lambda>_. mem1)) r)"
    by (rule support_step [OF run n]) (use sub1 Some in simp)
  let ?r2 = "update_beta (with_exists_memory k (\<lambda>_. ?mem2)) r"
  have r2: "runs rank content live h outer 0 r ?r2" by (rule support_step [OF run n]) (use sub2 Some in simp)
  have cas: "returns (runs rank content live h outer 0 r) (retract_token_cascade h go pt ?r2)" if pt: "?pt = Some pt" for pt
  proof -
    have "pt \<in> ran (satisfied mem)" using pt sub1 by (auto simp: remove_satisfied_def ran_def)
    then have "owned h r pt n"
      using rete_invD(9) [OF runningD(1) [OF run]] n Some by (fastforce simp: sides_ok_def side_ok_def)
    then have "returns (runs rank content live h outer 0 ?r2) (retract_token_cascade h go pt ?r2)"
      by (intro withdraw_pass_through [OF running_runs [OF run r2], where n = n and node = "Exists q a ts sq m k cs"]) (simp_all add: n)
    then show ?thesis by (rule returns_mono) (rule runs_trans [OF r2])
  qed
  then have "returns (runs rank content live h outer 0 r) (case ?pt of None \<Rightarrow> Inr ?r2 | Some pt \<Rightarrow> retract_token_cascade h go pt ?r2)"
    using r2 by (simp split: option.split)
  with r1 Some show ?thesis by (simp add: rem Let_def case_prod_beta)
qed

lemma exists_handle_retraction:
  assumes run: "running rank content live h fb N outer r"
  shows "returns (runs rank content live h outer 0 r) (exists_handle_retraction h go f ams r)"
  unfolding exists_handle_retraction_def
proof (rule returns_runs_each [OF run], goal_cases)
  case (1 a r1)
  show ?case
  proof (rule returns_runs_each [OF 1(3)], goal_cases)
    case (1 n r2)
    show ?case
    proof (cases "\<exists>q a ts sq m k cs. get_node (r_beta r2) n = Some (Exists q a ts sq m k cs)")
      case True
      then obtain q a ts sq m k cs where n: "get_node (r_beta r2) n = Some (Exists q a ts sq m k cs)" by blast
      have "returns (runs rank content live h outer 0 r2) (for_each (\<lambda>p r.
          case get_exists_memory (r_beta r) k of
            None \<Rightarrow> Inr r
          | Some mem \<Rightarrow>
              (let ((new_count, was_removed), mem) = remove_support p f mem
               in if was_removed \<and> new_count = 0
                  then (let (pt, mem) = remove_satisfied p mem;
                            r = update_beta (with_exists_memory k (\<lambda>_. mem)) r
                        in case pt of None \<Rightarrow> Inr r | Some pt \<Rightarrow> retract_token_cascade h go pt r)
                  else Inr (update_beta (with_exists_memory k (\<lambda>_. mem)) r))) ps r2)" for ps
      proof (rule returns_runs_each [OF 1(3)], goal_cases)
        case (1 p r3)
        have "get_node (r_beta r3) n = Some (Exists q a ts sq m k cs)" by (simp add: runs_node [OF 1(2)] n)
        from withdraw_support [OF 1(3) this] show ?case .
      qed
      then show ?thesis using runs_refl [OF 1(3)] by (simp add: n split: option.split)
    next
      case False
      with runs_refl [OF 1(3)] show ?thesis by (auto split: option.split beta_node.split)
    qed
  qed
qed

end

section \<open>Retraction\<close>

lemma transition_keys:
  assumes ok: "ts_ok ts" and sub: "\<And>x u. (x, u) \<in> set removed \<Longrightarrow> tokens ts x = Some u"
  shows "\<exists>keyed'. for_each (\<lambda>e keyed. and_then (ncc_transition_key net (map_of removed) i e) (\<lambda>k. Inr (keyed @ [k]))) es keyed =
      Inr (keyed @ keyed') \<and> snd ` set keyed' = NccTransition ` set es"
proof (induction es arbitrary: keyed)
  case (Cons e es)
  have "\<exists>m. retracted_fact_memory net (map_of removed) (ret_result e) i = Some m"
    unfolding retracted_fact_memory_def
    by (rule retracted_memory_returns [OF ok]) (rule sub, erule map_of_SomeD)
  then obtain m where "retracted_fact_memory net (map_of removed) (ret_result e) i = Some m" ..
  moreover obtain keyed' where "for_each (\<lambda>e keyed. and_then (ncc_transition_key net (map_of removed) i e) (\<lambda>k. Inr (keyed @ [k]))) es
      (keyed @ [((case m of None \<Rightarrow> - 1 | Some i \<Rightarrow> i, 0, u64_max - ret_order e), NccTransition e)]) =
      Inr ((keyed @ [((case m of None \<Rightarrow> - 1 | Some i \<Rightarrow> i, 0, u64_max - ret_order e), NccTransition e)]) @ keyed')"
    "snd ` set keyed' = NccTransition ` set es"
    using Cons.IH by blast
  ultimately show ?case
    by (intro exI [of _ "((case m of None \<Rightarrow> - 1 | Some i \<Rightarrow> i, 0, u64_max - ret_order e), NccTransition e) # keyed'"])
      (simp add: ncc_transition_key_def)
qed simp

lemma fact_not_root:
  assumes "tokens_ok content h r" "graph_ok rank (r_beta r)" "tokens (r_tokens r) t = Some tok" "tok_fact tok \<noteq> None"
  shows "tok_owner tok \<noteq> root_id (r_beta r)"
proof
  assume root: "tok_owner tok = root_id (r_beta r)"
  have "tok_parent tok = None" by (rule root_has_no_parent [OF assms(1,2,3) root])
  with assms(1,3,4) show False by (fastforce simp: tokens_ok_def token_sound_def)
qed

lemma returns_InrE: "returns Q m \<Longrightarrow> (m = Inl Full \<Longrightarrow> thesis) \<Longrightarrow> (\<And>x. m = Inr x \<Longrightarrow> Q x \<Longrightarrow> thesis) \<Longrightarrow> thesis"
  by (cases m) simp_all

lemma retract_returns:
  assumes rest: "at_rest rank content live h N r" and fuel: "N < fuel"
    and base: "base_knows content fb (filter (\<lambda>j. j \<noteq> i) live)"
  shows "returns (\<lambda>(gone, r'). at_rest rank content (filter (\<lambda>j. j \<noteq> i) live) h N r' \<and> kept_wiring r r') (rete_retract_fact fuel h fb i (content i) r)"
proof -
  let ?live = "filter (\<lambda>j. j \<noteq> i) live" and ?go = "propagate_token fuel h fb" and ?alpha = "alpha_retract_fact i (content i) (r_alpha r)"
  let ?ams = "memories_containing_fact (r_alpha r) i" and ?order = "walk_tokens h (tokens_containing (r_tokens r) i)"
  note inv = at_restD(1) [OF rest]
  note iv = rete_invD [OF inv]
  note eng = engine_contract [OF fuel, of rank content ?live h fb]
  have ok: "ts_ok (r_tokens r)" using iv(4) by (simp add: tokens_ok_def)
  have sub: "tokens_containing (r_tokens r) i \<subseteq> dom (tokens (r_tokens r))"
    and with_fact: "t \<in> tokens_containing (r_tokens r) i \<Longrightarrow> tokens (r_tokens r) t = Some tok \<Longrightarrow> tok_fact tok \<noteq> None" for t tok
    using ok by (auto simp: ts_ok_def tokens_containing_def members_def split: option.splits)
  then have "finite (tokens_containing (r_tokens r) i)" using ok finite_subset by (auto simp: ts_ok_def)
  then have order: "set ?order = tokens_containing (r_tokens r) i" using iv(1) by (simp add: host_ok_def walksD)
  obtain roots where roots: "retraction_roots (r_tokens r) ?order = Some roots" "set roots \<subseteq> set ?order"
    using retraction_roots_eq [OF ok, of ?order] by auto
  have torn0: "torn rank content live h [] [] r" using inv by (simp add: torn_Nil)
  have nroot: "\<forall>root \<in> set roots. \<forall>tok. tokens (r_tokens r) root = Some tok \<longrightarrow> tok_owner tok \<noteq> root_id (r_beta r)"
    using fact_not_root [OF iv(4,2)] with_fact roots(2) order by blast
  obtain removed ts where rem: "remove_roots h roots ([], r_tokens r) = Inr (removed, ts)"
    "torn rank content live h [] removed (r\<lparr>r_tokens := ts\<rparr>)" "evolves h rank 0 r (r\<lparr>r_tokens := ts\<rparr>)"
    "\<forall>x u. (x, u) \<in> set removed \<longrightarrow> tokens (r_tokens r) x = Some u"
    "\<forall>x. tokens ts x = None \<or> tokens ts x = tokens (r_tokens r) x" "\<forall>root \<in> set roots. tokens ts root = None"
    using remove_roots_torn [OF torn0 nroot, of 0] by auto
  let ?r1 = "r\<lparr>r_tokens := ts, r_alpha := ?alpha, new_activations := []\<rparr>"
  have gone: "tok_fact tok \<noteq> Some i" if "tokens ts t = Some tok" for t tok
    using roots_removed [OF ok order roots(1) tornD(4) [OF rem(2)]] rem(5,6) that by simp
  have old: "tok_fact tok = Some f \<Longrightarrow> f \<in> set live" if "tokens ts t = Some tok" for t tok f
    using token_fact_live [OF inv, of t tok f] rem(5) that by (metis option.distinct(1))
  have nodes: "nodes ?alpha = nodes (r_alpha r)" by (simp add: alpha_retract_fact_def split: option.split)
  have "torn rank content ?live h [] removed ((r\<lparr>r_tokens := ts\<rparr>)\<lparr>r_alpha := ?alpha, new_activations := []\<rparr>)"
    by (rule torn_alpha [OF rem(2) net_ok_retract [OF iv(3)]]) (use nodes gone old in auto)
  then have torn1: "torn rank content ?live h [] removed ?r1" by simp
  have kn: "facts_known content fb ?alpha" by (rule base_facts_known [OF net_ok_retract [OF iv(3)] base])
  define finish where "finish = (\<lambda>(ncc_keyed, negative_events, r).
      let transitions = ncc_keyed @ map (\<lambda>((m :: u32, order), tr). ((m, 1 :: nat, u64_max - order), tr)) negative_events;
          (gone, r) = fold (forget_token h) removed ([], r)
      in and_then (for_each (\<lambda>(_, tr). run_transition h ?go i tr) (sort_key fst transitions) r) (\<lambda>r.
         and_then (exists_handle_retraction h ?go i ?ams r) (\<lambda>r. Inr (gone, r))))"
  have unfold: "rete_retract_fact fuel h fb i (content i) r =
      and_then (collect_ncc_result_retractions removed ?r1) (\<lambda>(ncc_events, r).
      and_then (for_each (\<lambda>e keyed. and_then (ncc_transition_key (r_beta r) (map_of removed) i e) (\<lambda>k. Inr (keyed @ [k]))) ncc_events [])
        (\<lambda>ncc_keyed. and_then (collect_negative_retractions h i ?ams r) (\<lambda>(negative_events, r). finish (ncc_keyed, negative_events, r))))"
    by (simp add: rete_retract_fact_def roots(1) rem(1) finish_def Let_def)
  show ?thesis unfolding unfold
  proof (rule returns_and_then [OF collect_ncc_torn [OF torn1, where c = 0 and b = 0]], goal_cases)
    case 1
    then show ?case by simp
  next
    case (2 x)
    then obtain ncc_events r2 where x: "x = (ncc_events, r2)" and r2: "torn rank content ?live h [] removed r2" "evolves h rank 0 ?r1 r2"
      "r_tokens r2 = ts" "\<forall>tr \<in> set ncc_events. retraction_sound rank h 0 r2 tr" by (cases x) auto
    obtain keyed where keyed: "for_each (\<lambda>e keyed. and_then (ncc_transition_key (r_beta r2) (map_of removed) i e) (\<lambda>k. Inr (keyed @ [k])))
        ncc_events [] = Inr keyed" "snd ` set keyed = NccTransition ` set ncc_events"
      using transition_keys [OF ok, of removed "r_beta r2" i ncc_events "[]"] rem(4) by auto
    show ?case unfolding x prod.case keyed(1) and_then_simps
    proof (rule returns_and_then [OF collect_negative_torn [OF r2(1), where b = 0]])
      fix y :: "((u32 \<times> u64) \<times> transition) list \<times> rete" assume y: "case y of (evs, r') \<Rightarrow> torn rank content ?live h [] removed r' \<and> evolves h rank 0 r2 r' \<and>
        r_tokens r' = r_tokens r2 \<and> (\<forall>x \<in> set evs. transition_sound rank h r' (snd x))"
      obtain evs r3 where eq: "y = (evs, r3)" by (cases y)
      have r3: "torn rank content ?live h [] removed r3" "evolves h rank 0 r2 r3" "\<forall>x \<in> set evs. transition_sound rank h r3 (snd x)"
        using y by (simp_all add: eq)
      let ?r4 = "snd (fold (forget_token h) removed ([], r3))"
      let ?trs = "keyed @ map (\<lambda>((m, order), tr). ((m, 1 :: nat, u64_max - order), tr)) evs"
      note f = forget_tokens_torn [OF r3(1), where gone = "[]"]
      have sound: "transition_sound rank h ?r4 (snd x)" if x: "x \<in> set ?trs" for x
      proof -
        have "transition_sound rank h r3 (snd x)"
        proof (cases "x \<in> set keyed")
          case True
          then obtain e where "snd x = NccTransition e" "e \<in> set ncc_events" using keyed(2) by (metis image_iff)
          with r2(4) retraction_sound_evolves [OF _ r3(2)] show ?thesis by (simp add: transition_sound_def)
        next
          case False
          with x r3(3) show ?thesis by auto
        qed
        then show ?thesis by (rule transition_sound_evolves [OF _ f(2)])
      qed
      have ev: "evolves h rank 0 ?r1 ?r4" by (rule evolves_trans [OF evolves_trans [OF r2(2) r3(2)] f(2)])
      have rest4: "at_rest rank content ?live h N ?r4"
      proof -
        have "pending_ncc_results ?r4 = None"
          using ev at_restD(2) [OF rest] by (auto simp: evolves_def batch_evolves_def split: option.splits)
        moreover have "get_node (r_beta ?r4) = get_node (r_beta r)" "r_alpha ?r4 = ?alpha"
          using ev evolves_node [OF ev] by (simp_all add: evolves_def)
        ultimately show ?thesis using f(1) rest nodes by (simp add: at_rest_def)
      qed
      have wired4: "kept_wiring r ?r4" using ev nodes by (simp add: kept_wiring_def evolves_def)
      note run4 = at_rest_running [OF rest4 base]
      have trans: "returns (runs rank content ?live h [] 0 ?r4) (for_each (\<lambda>(_, tr). run_transition h ?go i tr) (sort_key fst ?trs) ?r4)"
      proof (rule returns_runs_each [OF run4])
        fix x r' assume x: "x \<in> set (sort_key fst ?trs)" and r': "runs rank content ?live h [] 0 ?r4 r'" "running rank content ?live h fb N [] r'"
        have "transition_sound rank h r' (snd x)"
          using transition_sound_evolves [OF sound] x r'(1) unfolding runs_def set_sort by blast
        from engine.run_transition [OF eng r'(2) this]
        show "returns (runs rank content ?live h [] 0 r') ((\<lambda>(_, tr). run_transition h ?go i tr) x r')"
          by (simp add: case_prod_beta)
      qed
      have "returns (\<lambda>(gone, r'). at_rest rank content ?live h N r' \<and> kept_wiring r r')
        (and_then (for_each (\<lambda>(_, tr). run_transition h ?go i tr) (sort_key fst ?trs) ?r4) (\<lambda>r.
         and_then (exists_handle_retraction h ?go i ?ams r) (\<lambda>r. Inr (fst (fold (forget_token h) removed ([], r3)), r))))"
      proof (rule returns_and_then [OF trans])
        fix r5 assume r5: "runs rank content ?live h [] 0 ?r4 r5"
        note run5 = running_runs [OF run4 r5]
        show "returns (\<lambda>(gone, r'). at_rest rank content ?live h N r' \<and> kept_wiring r r')
          (and_then (exists_handle_retraction h ?go i ?ams r5) (\<lambda>r. Inr (fst (fold (forget_token h) removed ([], r3)), r)))"
        proof (rule returns_and_then [OF engine.exists_handle_retraction [OF eng run5]])
          fix r6 assume "runs rank content ?live h [] 0 r5 r6"
          from at_rest_runs [OF rest4 runs_trans [OF r5 this]] kept_wiring_trans [OF wired4 kept_wiring_runs [OF runs_trans [OF r5 this]]] show "returns (\<lambda>(gone, r'). at_rest rank content ?live h N r' \<and> kept_wiring r r')
            (Inr (fst (fold (forget_token h) removed ([], r3)), r6))" by simp
        qed
      qed
      then show "returns (\<lambda>(gone, r'). at_rest rank content ?live h N r' \<and> kept_wiring r r') (case y of (negative_events, r) \<Rightarrow> finish (keyed, negative_events, r))"
        by (simp add: eq finish_def Let_def case_prod_beta)
    qed
  qed
qed

end
