(* ===== verification/Rete_Events.thy ===== *)
theory Rete_Events
  imports Rete_Retraction
begin

text \<open>
  What happens between activations keeps the invariant: rules fire and are disabled, pending
  events are taken from the queue, and predicate matches and postponed conjunctions are resolved.
\<close>

section \<open>Agenda, events and rules\<close>

lemma rete_inv_aside:
  assumes inv: "rete_inv rank content live h outer r"
    and r': "r' = r\<lparr>r_agenda := ag, disabled_rules := d, pending_events := es, pending_auto_focus_count := length (filter is_auto_focus es),
      pending_ncc_left_count := length (filter is_ncc_left es), auto_focus_rules := a, new_activations := new\<rparr>"
    and ag: "ag_ok ag" "\<And>i x. activations ag i = Some x \<Longrightarrow> activations (r_agenda r) i = Some x"
    and es: "set es \<subseteq> set (pending_events r)"
  shows "rete_inv rank content live h outer r'"
proof -
  note i = rete_invD [OF inv]
  have own: "owned h r' = owned h r" by (simp add: fun_eq_iff owned_def issued_def r')
  have stores: "tokens_ok content h r'" "memories_ok r'" "root_ok r'" using i(4-6)
    by (simp_all add: r' tokens_ok_def issued_def memories_ok_def root_ok_def)
  have agenda: "agenda_sound h r'" using i(7) ag by (fastforce simp: r' agenda_sound_def)
  have "event_sound h r' = event_sound h r" unfolding event_sound_def own by (simp add: r')
  then have events: "events_ok h r'" using i(8) es by (auto simp: r' events_ok_def)
  have "side_ok h r' = side_ok h r" unfolding side_ok_def own by (simp add: r')
  then have sides: "sides_ok h r'" using i(9) by (simp add: sides_ok_def r')
  have kept: "orders_kept (block_view r')" using i(10) by (simp add: r' orders_kept_def)
  have "result_sound h r' = result_sound h r" unfolding result_sound_def own by (simp add: r')
  moreover have "pending_ncc_results r' = pending_ncc_results r" by (simp add: r')
  ultimately have batch: "batch_ok h outer r'" using i(11)
    by (cases "pending_ncc_results r") (simp_all add: batch_ok_def)
  show ?thesis using stores agenda events sides kept batch i(1-3) by (simp add: rete_inv_def) (simp add: r')
qed

lemma events_counted:
  assumes "rete_inv rank content live h outer r"
  shows "pending_auto_focus_count r = length (filter is_auto_focus (pending_events r))"
    "pending_ncc_left_count r = length (filter is_ncc_left (pending_events r))"
  using rete_invD(8) [OF assms] by (simp_all add: events_ok_def)

lemma at_rest_aside:
  assumes rest: "at_rest rank content live h N r"
    and r': "r' = r\<lparr>r_agenda := ag, disabled_rules := d, pending_events := es, pending_auto_focus_count := length (filter is_auto_focus es),
      pending_ncc_left_count := length (filter is_ncc_left es), auto_focus_rules := a, new_activations := new\<rparr>"
    and ag: "ag_ok ag" "\<And>i x. activations ag i = Some x \<Longrightarrow> activations (r_agenda r) i = Some x"
    and es: "set es \<subseteq> set (pending_events r)"
  shows "at_rest rank content live h N r'"
  using rete_inv_aside [OF at_restD(1) [OF rest] r' ag es] rest by (simp add: at_rest_def) (simp add: r')

lemma at_rest_agenda:
  assumes rest: "at_rest rank content live h N r" and ag: "ag_ok ag" "\<And>i x. activations ag i = Some x \<Longrightarrow> activations (r_agenda r) i = Some x"
  shows "at_rest rank content live h N (r\<lparr>r_agenda := ag\<rparr>)"
  using events_counted [OF at_restD(1) [OF rest]]
  by (intro at_rest_aside [OF rest _ ag order.refl, where d = "disabled_rules r" and a = "auto_focus_rules r" and new = "new_activations r"]) simp_all

lemma at_rest_events:
  assumes rest: "at_rest rank content live h N r" and es: "set es \<subseteq> set (pending_events r)"
    and r': "r' = r\<lparr>pending_events := es, pending_auto_focus_count := length (filter is_auto_focus es),
      pending_ncc_left_count := length (filter is_ncc_left es)\<rparr>"
  shows "at_rest rank content live h N r'"
  using rete_invD(7) [OF at_restD(1) [OF rest]]
  by (intro at_rest_aside [OF rest, where ag = "r_agenda r" and d = "disabled_rules r" and es = es and a = "auto_focus_rules r" and new = "new_activations r"])
    (simp_all add: r' agenda_sound_def es)

lemma at_rest_log: "at_rest rank content live h N r \<Longrightarrow> at_rest rank content live h N (r\<lparr>new_activations := x\<rparr>)"
  by (auto simp: at_rest_def intro: new_activations_inv)

lemma agenda_ok: "at_rest rank content live h N r \<Longrightarrow> ag_ok (r_agenda r)"
  using rete_invD(7) [OF at_restD(1)] by (auto simp: agenda_sound_def)

lemma at_rest_pop_matching:
  assumes rest: "at_rest rank content live h N r"
  shows "at_rest rank content live h N (r\<lparr>r_agenda := snd (pop_matching p (r_agenda r))\<rparr>)"
  by (rule at_rest_agenda [OF rest]; rule pop_matching_ok [OF agenda_ok [OF rest], of p])
    (simp_all add: agenda_ok [OF rest] split: if_splits)

lemma at_rest_disable:
  assumes rest: "at_rest rank content live h N r"
  shows "at_rest rank content live h N (disable_rule h rule r)"
proof -
  let ?walk = "walk_activations h (dom (activations (r_agenda r)))"
  let ?es = "filter (\<lambda>e. case e of EvPredicate _ _ rule' _ \<Rightarrow> rule' \<noteq> rule | _ \<Rightarrow> True) (pending_events r)"
  have "finite (dom (activations (r_agenda r)))" using agenda_ok [OF rest] by (simp add: ag_ok_def acts_ok_def)
  then have "enumerates ?walk (dom (activations (r_agenda r)))"
    using rete_invD(1) [OF at_restD(1) [OF rest]] by (simp add: host_ok_def walks_def)
  from remove_for_rule_ok [OF agenda_ok [OF rest] this] obtain ag ids where
    ag: "snd (remove_activations_for_rule ?walk rule (r_agenda r)) = ag" "ag_ok ag" "activations ag = activations (r_agenda r) |` (- set ids)"
    by (metis snd_conv)
  have keep: "filter is_auto_focus ?es = filter is_auto_focus (pending_events r)" "filter is_ncc_left ?es = filter is_ncc_left (pending_events r)"
    unfolding filter_filter by (rule filter_cong [OF refl], simp split: pending_event.split)+
  show ?thesis
    by (rule at_rest_aside [OF rest, where ag = ag and d = "insert rule (disabled_rules r)" and es = ?es and a = "auto_focus_rules r" and new = "new_activations r"])
      (use events_counted [OF at_restD(1) [OF rest]] keep ag in
        \<open>auto simp: disable_rule_def restrict_map_def split: if_splits\<close>)
qed

lemma at_rest_auto_focus:
  assumes rest: "at_rest rank content live h N r"
  shows "at_rest rank content live h N (set_rule_auto_focus rule enabled r)"
  by (rule at_rest_aside [OF rest, where ag = "r_agenda r" and d = "disabled_rules r" and es = "pending_events r" and
        a = "if enabled then insert rule (auto_focus_rules r) else auto_focus_rules r - {rule}" and new = "new_activations r"])
    (use events_counted [OF at_restD(1) [OF rest]] agenda_ok [OF rest] in \<open>simp_all add: set_rule_auto_focus_def\<close>)

lemma at_rest_pop_event: "at_rest rank content live h N r \<Longrightarrow> at_rest rank content live h N (snd (pop_pending_event r))"
proof (cases "pending_events r")
  case (Cons e es)
  assume rest: "at_rest rank content live h N r"
  show ?thesis
  proof (rule at_rest_events [OF rest, of es])
    show "set es \<subseteq> set (pending_events r)" by (auto simp: Cons)
    show "snd (pop_pending_event r) = r\<lparr>pending_events := es, pending_auto_focus_count := length (filter is_auto_focus es),
        pending_ncc_left_count := length (filter is_ncc_left es)\<rparr>"
      using Cons events_counted [OF at_restD(1) [OF rest]] by (cases e) (simp_all add: pop_pending_event_def)
  qed
qed (simp add: pop_pending_event_def)

lemma position_less: "position P xs = Some i \<Longrightarrow> i < length xs"
  by (auto simp: position_def Let_def split: if_splits)

lemma at_rest_pop_predicate: "at_rest rank content live h N r \<Longrightarrow> at_rest rank content live h N (snd (pop_pending_predicate_match r))"
proof (cases "\<exists>i n t rule c. position (\<lambda>e. case e of EvAutoFocus _ \<Rightarrow> False | _ \<Rightarrow> True) (pending_events r) = Some i \<and>
    pending_events r ! i = EvPredicate n t rule c")
  case True
  then obtain i n t rule c where i: "position (\<lambda>e. case e of EvAutoFocus _ \<Rightarrow> False | _ \<Rightarrow> True) (pending_events r) = Some i"
    "pending_events r ! i = EvPredicate n t rule c" by blast
  assume rest: "at_rest rank content live h N r"
  let ?es = "take i (pending_events r) @ drop (Suc i) (pending_events r)"
  have split: "pending_events r = take i (pending_events r) @ EvPredicate n t rule c # drop (Suc i) (pending_events r)"
    using id_take_nth_drop [OF position_less [OF i(1)]] i(2) by simp
  have keep: "filter is_auto_focus (pending_events r) = filter is_auto_focus ?es" "filter is_ncc_left (pending_events r) = filter is_ncc_left ?es"
    by (subst split, simp)+
  show ?thesis
    by (rule at_rest_events [OF rest, of ?es])
      (use i keep events_counted [OF at_restD(1) [OF rest]] in \<open>auto simp: pop_pending_predicate_match_def dest: in_set_takeD in_set_dropD\<close>)
next
  case False
  assume rest: "at_rest rank content live h N r"
  have "snd (pop_pending_predicate_match r) = r"
    using False by (auto simp: pop_pending_predicate_match_def split: option.split pending_event.split)
  with rest show ?thesis by simp
qed

lemma at_rest_generated:
  assumes rest: "at_rest rank content live h N r"
  shows "at_rest rank content live h N (generated_first n r)"
proof (rule at_rest_events [OF rest])
  let ?es = "drop n (pending_events r) @ take n (pending_events r)"
  show "set ?es \<subseteq> set (pending_events r)" by (auto dest: in_set_takeD in_set_dropD)
  have count: "length (filter P ?es) = length (filter P (pending_events r))" for P
    by (metis add.commute append_take_drop_id filter_append length_append)
  show "generated_first n r = r\<lparr>pending_events := ?es, pending_auto_focus_count := length (filter is_auto_focus ?es),
      pending_ncc_left_count := length (filter is_ncc_left ?es)\<rparr>"
    using events_counted [OF at_restD(1) [OF rest]] unfolding count generated_first_def by simp
qed

lemma kept_wiring_generated: "kept_wiring r r' \<Longrightarrow> kept_wiring r (generated_first n r')"
  by (simp add: kept_wiring_def generated_first_def)

section \<open>Resolution\<close>

lemma resolve_ncc_returns:
  assumes rest: "at_rest rank content live h N r" and base: "base_knows content fb live" and fuel: "N < fuel"
  shows "returns (\<lambda>r'. at_rest rank content live h N r' \<and> kept_wiring r r') (resolve_ncc_left_activation fuel h fb n p r)"
proof (cases "\<exists>q partner m cm cs tok. get_node (r_beta r) n = Some (Ncc q partner m cm cs) \<and> tokens (r_tokens r) p = Some tok \<and> tok_owner tok = q")
  case False
  then have "resolve_ncc_left_activation fuel h fb n p r = Inr r"
    by (auto simp: resolve_ncc_left_activation_def token_get_def split: option.split beta_node.split)
  with rest show ?thesis by simp
next
  case True
  then obtain q partner m cm cs tok where n: "get_node (r_beta r) n = Some (Ncc q partner m cm cs)"
    and tok: "tokens (r_tokens r) p = Some tok" "tok_owner tok = q" by blast
  let ?r = "r\<lparr>new_activations := []\<rparr>"
  have rest1: "at_rest rank content live h N ?r" by (rule at_rest_log [OF rest])
  note run = at_rest_running [OF rest1 base]
  have "owned h r p q" using tok rete_invD(4) [OF at_restD(1) [OF rest]] by (auto simp: owned_def tokens_ok_def)
  then have own: "owned h ?r p q" by (simp add: owned_def issued_def)
  have n1: "get_node (r_beta ?r) n = Some (Ncc q partner m cm cs)" by (simp add: n)
  have "propagation rank content live h fb N 0 (propagate_token fuel h fb)" by (rule propagate_token_contract) (use fuel in simp)
  from propagation.ncc_left_activate_now [OF this run _ n1 own]
  have "returns (runs rank content live h [] (rank n) ?r) (ncc_left_activate_now h (propagate_token fuel h fb) n p ?r)" by simp
  moreover have "kept_wiring r ?r" by (simp add: kept_wiring_def)
  ultimately have "returns (\<lambda>r'. at_rest rank content live h N r' \<and> kept_wiring r r') (and_then (ncc_left_activate_now h (propagate_token fuel h fb) n p ?r)
      (\<lambda>r'. Inr (generated_first (length (pending_events r)) r')))"
    by (elim returns_and_then) (simp, blast intro: at_rest_generated at_rest_runs [OF rest1] kept_wiring_generated kept_wiring_trans kept_wiring_runs)
  then show ?thesis by (simp add: resolve_ncc_left_activation_def n token_get_def tok)
qed

lemma resolve_predicate_returns:
  assumes rest: "at_rest rank content live h N r" and base: "base_knows content fb live" and fuel: "N < fuel"
    and ev: "event_sound h r (EvPredicate n p rule c)"
  shows "returns (\<lambda>r'. at_rest rank content live h N r' \<and> kept_wiring r r') (resolve_predicate_match fuel h fb n p rule c passed r)"
proof (cases "tokens (r_tokens r) p = None \<or> \<not> passed")
  case True
  then have "resolve_predicate_match fuel h fb n p rule c passed r = Inr r"
    by (auto simp: resolve_predicate_match_def token_get_def split: option.split beta_node.split)
  with rest show ?thesis by simp
next
  case False
  then obtain ptok where ptok: "tokens (r_tokens r) p = Some ptok" and passed: "passed" by auto
  obtain q m cs where n: "get_node (r_beta r) n = Some (Predicate q rule c m cs)" "owned h r p q"
    using ev by (auto simp: event_sound_def)
  note inv = at_restD(1) [OF rest]
  have owner: "tok_owner ptok = q" by (rule owned_live [OF n(2) ptok])
  have sound: "token_sound content (r_alpha r) (r_beta r) (r_tokens r) (pass_through n p ptok)"
    by (rule pass_through_sound [OF n(1) _ _ _ ptok]) (simp_all add: node_alpha_def owner)
  have contract: "propagation rank content live h fb N 0 (propagate_token fuel h fb)" by (rule propagate_token_contract) (use fuel in simp)
  note run = at_rest_running [OF rest base]
  let ?go = "propagate_token fuel h fb"
  have "returns (runs rank content live h [] (rank n) r) (and_then (admit_token h (pass_through n p ptok) None m r)
      (\<lambda>(t, r'). ?go t cs (r'\<lparr>new_activations := []\<rparr>)))"
  proof (rule propagation.admit_and_go [OF contract run _ n(1), where upd = "\<lambda>t r'. r'\<lparr>new_activations := []\<rparr>"])
    fix t r' assume "runs rank content live h [] (Suc (rank n)) r r'"
    then show "runs rank content live h [] (Suc (rank n)) r' (r'\<lparr>new_activations := []\<rparr>)"
      using new_activations_inv [where outer = "[]" and r = r' and x = "[]"] unfolding runs_def by blast
  qed (simp_all add: sound)
  then have "returns (\<lambda>r'. at_rest rank content live h N r' \<and> kept_wiring r r') (and_then (and_then (admit_token h (pass_through n p ptok) None m r)
      (\<lambda>(t, r'). ?go t cs (r'\<lparr>new_activations := []\<rparr>))) (\<lambda>r'. Inr (generated_first (length (pending_events r)) r')))"
    by (rule returns_and_then) (simp, blast intro: at_rest_generated at_rest_runs [OF rest] kept_wiring_generated kept_wiring_runs)
  moreover have "resolve_predicate_match fuel h fb n p rule c passed r = and_then (and_then (admit_token h (pass_through n p ptok) None m r)
      (\<lambda>(t, r'). ?go t cs (r'\<lparr>new_activations := []\<rparr>))) (\<lambda>r'. Inr (generated_first (length (pending_events r)) r'))"
  proof -
    have mem: "memory_id_for_node (r_beta r) n = Some m" by (simp add: memory_id_for_node_def n(1))
    obtain bm where bm: "get_memory (r_beta r) m = Some bm" by (rule node_memory_ex [OF rete_invD(2) [OF inv] mem])
    show ?thesis
    proof (cases "insert_token h (pass_through n p ptok) None r")
      case (Inr x)
      obtain t r1 where x: "x = (t, r1)" by (cases x)
      have "r_beta r1 = r_beta r" "pending_events r1 = pending_events r"
        using Inr by (auto simp: x insert_token_def Let_def split: if_splits)
      then show ?thesis
        using ptok n(1) bm passed Inr
        by (cases "?go t cs (update_beta (with_beta_memory m (beta_insert_indexed t (tok_bindings ptok))) r1\<lparr>new_activations := []\<rparr>)")
          (simp_all add: x resolve_predicate_match_def token_get_def admit_token_def pass_through_def)
    qed (use ptok n(1) passed in \<open>simp add: resolve_predicate_match_def token_get_def admit_token_def\<close>)
  qed
  ultimately show ?thesis by simp
qed

end
