(* ===== verification/Rete_Installation.thy ===== *)
theory Rete_Installation
  imports Rete_Events
begin

text \<open>
  Starting, clearing and installing: a blank network is seeded with the root token, working memory
  is cleared back to it, and new nodes are activated with the tokens that are already there.
\<close>

section \<open>Seeding\<close>

lemma seed_at_rest:
  assumes rest: "at_rest rank content live h N r"
  shows "\<exists>t. seed_root_token h r = Inr (t, r) \<and> owned h r t (root_id (r_beta r))"
proof -
  note inv = at_restD(1) [OF rest]
  note i = rete_invD [OF inv]
  obtain m cs where root: "get_node (r_beta r) (root_id (r_beta r)) = Some (Root m cs)" using graph_okD(1) [OF i(2)] by blast
  then have m: "memory_id_for_node (r_beta r) (root_id (r_beta r)) = Some m" by (simp add: memory_id_for_node_def)
  obtain bm where bm: "node_memory_at (r_beta r) (root_id (r_beta r)) = Some bm" "get_memory (r_beta r) m = Some bm"
    by (rule node_memory_ex [OF i(2) m])
  obtain t where "t \<in> set (bm_tokens bm)" using i(5,6) bm(1) by (auto simp: memories_ok_def root_ok_def)
  then have ne: "beta_iter bm \<noteq> []" by (auto simp: beta_iter_def)
  then have "hd (beta_iter bm) \<in> set (bm_tokens bm)" by (metis beta_iter_def hd_in_set set_rev)
  from memory_owned [OF inv bm(1) this] have "owned h r (hd (beta_iter bm)) (root_id (r_beta r))" .
  moreover have "seed_root_token h r = Inr (hd (beta_iter bm), r)"
    using m bm(2) ne by (simp add: seed_root_token_def Let_def split: list.split)
  ultimately show ?thesis by blast
qed

text \<open>Nothing but the graph.\<close>

definition blank :: "rete \<Rightarrow> bool" where
  "blank r \<longleftrightarrow> tokens (r_tokens r) = Map.empty \<and> ts_ok (r_tokens r) \<and>
     (\<forall>n bm. node_memory_at (r_beta r) n = Some bm \<longrightarrow> bm_tokens bm = [] \<and> (\<forall>bind. beta_index_ok bind bm)) \<and>
     (\<forall>nm \<in> set (beta_negs (r_beta r)). unblocked nm = Map.empty \<and> blocked nm = Map.empty \<and> finite (dom (block_order nm))) \<and>
     (\<forall>nm \<in> set (beta_nccs (r_beta r)). ncc_unblocked nm = Map.empty \<and> result_owner nm = Map.empty \<and>
        primary_result nm = Map.empty \<and> finite (dom (ncc_block_order nm))) \<and>
     (\<forall>em \<in> set (beta_exists (r_beta r)). satisfied em = Map.empty) \<and>
     activations (r_agenda r) = Map.empty \<and> ag_ok (r_agenda r) \<and> pending_events r = [] \<and>
     pending_auto_focus_count r = 0 \<and> pending_ncc_left_count r = 0 \<and> pending_ncc_results r = None"

lemma get_exists_memory_in: "get_exists_memory net k = Some em \<Longrightarrow> em \<in> set (beta_exists net)"
  by (auto simp: get_exists_memory_def list_get_def split: if_splits)

lemma seed_blank:
  assumes blank: "blank r" and host: "host_ok h" and graph: "graph_ok rank (r_beta r)" and alpha: "net_ok content [] (r_alpha r)"
  obtains t r' where "seed_root_token h r = Inr (t, r')" "rete_inv rank content [] h [] r'" "owned h r' t (root_id (r_beta r))"
    "pending_ncc_results r' = None" "same_graph (r_beta r) (r_beta r')" "r_alpha r' = r_alpha r"
proof -
  let ?root = "root_id (r_beta r)"
  note b = blank [unfolded blank_def]
  obtain m cs where root: "get_node (r_beta r) ?root = Some (Root m cs)" using graph_okD(1) [OF graph] by blast
  then have m: "memory_id_for_node (r_beta r) ?root = Some m" by (simp add: memory_id_for_node_def)
  obtain bm where bm: "node_memory_at (r_beta r) ?root = Some bm" "get_memory (r_beta r) m = Some bm" by (rule node_memory_ex [OF graph m])
  have empty: "bm_tokens bm = []" using b bm(1) by blast
  let ?t = "token_key h (tokens_issued r)" and ?tok = "root_token ?root"
  let ?ts = "token_insert ?t ?tok (r_tokens r)" and ?net = "with_beta_memory m (beta_insert ?t) (r_beta r)"
  define r' where "r' = r\<lparr>tokens_issued := tokens_issued r + 1, r_tokens := ?ts, r_beta := ?net\<rparr>"
  have count: "token_count (r_tokens r) = 0" using b by (simp add: token_count_def)
  have seed: "seed_root_token h r = Inr (?t, r')"
    using count by (simp add: seed_root_token_def Let_def m bm(2) empty beta_iter_def insert_token_def r'_def slot_map_capacity_def)
  have tokens: "tokens ?ts = [?t \<mapsto> ?tok]" using b by simp
  have "never_used ?t (r_tokens r)" using b by (simp add: never_used_def fresh_key_def parent_rel_def)
  moreover have "parent_live ?tok (r_tokens r)" by (simp add: parent_live_def root_token_def)
  ultimately have ts: "ts_ok ?ts" using token_insert_ok b by blast
  have sound: "token_sound content (r_alpha r) ?net ?ts ?tok"
    using root by (simp add: token_sound_def root_token_def binding_set_new_def)
  have iss: "issued h r' ?t" by (auto simp: issued_def r'_def)
  have toks: "tokens_ok content h r'" using ts sound iss tokens by (simp add: tokens_ok_def r'_def)
  have binds: "bindings_of ?ts ?t = []" by (simp add: bindings_of_def tokens root_token_def binding_set_new_def)
  have mems: "memories_ok r'" unfolding memories_ok_def
  proof (intro allI impI)
    fix n bm' assume bm': "node_memory_at (r_beta r') n = Some bm'"
    then have "node_memory_at ?net n = Some bm'" by (simp add: r'_def)
    then obtain bm0 where bm0: "node_memory_at (r_beta r) n = Some bm0" "bm' = (if n = ?root then beta_insert ?t bm0 else bm0)"
      by (auto simp: node_memory_with [OF graph m] split: if_splits)
    have e: "bm_tokens bm0 = []" "\<And>bind. beta_index_ok bind bm0" using b bm0(1) by blast+
    have key: "binding_key (bindings_of ?ts ?t) var = None" for var by (simp add: binds binding_key_empty)
    have "beta_index_ok (bindings_of ?ts) bm'"
      using beta_index_ok_insert_unbound [where bind = "bindings_of ?ts" and t = ?t, OF e(2) key] e(2) by (simp add: bm0(2))
    moreover have "set (bm_tokens bm') = (if n = ?root then {?t} else {})"
      using e(1) by (simp add: bm0(2) beta_insert_def ls_insert_def)
    ultimately show "beta_index_ok (bindings_of (r_tokens r')) bm' \<and>
        set (bm_tokens bm') = {t. \<exists>tok. tokens (r_tokens r') t = Some tok \<and> tok_owner tok = n}"
      using tokens by (auto simp: r'_def root_token_def)
  qed
  have rootok: "root_ok r'" using tokens by (auto simp: root_ok_def r'_def root_token_def with_beta_memory_def)
  have ag: "agenda_sound h r'" using b by (simp add: agenda_sound_def r'_def)
  have evs: "events_ok h r'" using b by (simp add: events_ok_def r'_def)
  have sides: "sides_ok h r'" unfolding sides_ok_def
  proof (intro allI impI)
    fix n node assume "get_node (r_beta r') n = Some node"
    have neg: "get_neg_memory ?net k = Some nm \<Longrightarrow> nm \<in> set (beta_negs (r_beta r))" for k nm
      using get_neg_memory_in [of ?net k nm] by (simp add: with_beta_memory_def)
    have ncc: "get_ncc_memory ?net k = Some nm \<Longrightarrow> nm \<in> set (beta_nccs (r_beta r))" for k nm
      using get_ncc_memory_in [of ?net k nm] by (simp add: with_beta_memory_def)
    have ex: "get_exists_memory ?net k = Some em \<Longrightarrow> em \<in> set (beta_exists (r_beta r))" for k em
      using get_exists_memory_in [of ?net k em] by (simp add: with_beta_memory_def)
    show "side_ok h r' n node"
      using b neg ncc ex by (cases node) (fastforce simp: side_ok_def r'_def)+
  qed
  have kept: "orders_kept (block_view r')"
    using b by (auto simp: orders_kept_def r'_def with_beta_memory_def neg_kept_def ncc_kept_def batch_kept_def)
  have batch: "batch_ok h [] r'" using b by (simp add: batch_ok_def r'_def)
  have same: "same_graph (r_beta r) (r_beta r')" by (simp add: r'_def)
  have "rete_inv rank content [] h [] r'"
    using host graph_ok_same [OF graph same] alpha toks mems rootok ag evs sides kept batch by (simp add: rete_inv_def) (simp add: r'_def)
  moreover have "owned h r' ?t ?root" using iss tokens by (simp add: owned_def r'_def root_token_def)
  ultimately show thesis using seed same b by (intro that [of ?t r']) (simp_all add: r'_def)
qed

section \<open>A new network\<close>

lemma new_graph_ok:
  assumes "0 < root" "root < - 1" "rank root = 0"
  shows "graph_ok rank (beta_network_new root)"
proof -
  have "root + 1 \<noteq> 0" using assms(2) by (auto simp: eq_neg_iff_add_eq_0 [symmetric])
  then have "unat (root + 1) = unat root + 1" using unatSuc [of root] by (simp add: add.commute)
  with assms show ?thesis
    unfolding graph_ok_def counters_ok_def
    by (auto simp: beta_network_new_def get_node_def memory_id_for_node_def nodes_for_alpha_def pattern_ok_def node_plan_def
        side_memory_def word_less_nat_alt split: if_splits)
qed

lemma new_returns:
  assumes host: "host_ok h" and N: "0 < N"
  shows "\<exists>r. rete_new h s = Inr r \<and> at_rest (\<lambda>_. 0) content [] h N r \<and> r_alpha r = alpha_network_new"
proof -
  let ?r = "\<lparr>r_alpha = alpha_network_new, r_beta = beta_network_new 100000, r_tokens = token_store_new,
        r_agenda = with_strategy s, disabled_rules = {}, pending_events = [], pending_auto_focus_count = 0,
        pending_ncc_left_count = 0, auto_focus_rules = {}, pending_ncc_results = None, block_counter = 0,
        tokens_issued = 0, activations_issued = 0, new_activations = []\<rparr>"
  have mem: "bm_tokens bm = [] \<and> (\<forall>bind. beta_index_ok bind bm)" if "node_memory_at (beta_network_new 100000) n = Some bm" for n bm
  proof -
    have "bm = beta_memory_new (BetaMemoryId 0)"
      using that by (auto simp: node_memory_at_def memory_id_for_node_def get_node_def get_memory_def list_get_def beta_network_new_def
          bind_eq_Some_conv split: if_splits)
    moreover have "bm_tokens (beta_memory_new (BetaMemoryId 0)) = []" by (simp add: beta_memory_new_def)
    ultimately show ?thesis using beta_index_ok_new by simp
  qed
  have sides: "beta_negs (beta_network_new 100000) = []" "beta_nccs (beta_network_new 100000) = []" "beta_exists (beta_network_new 100000) = []"
    by (simp_all add: beta_network_new_def)
  have stores: "tokens token_store_new = Map.empty" "activations (with_strategy s) = Map.empty"
    by (simp_all add: token_store_new_def with_strategy_def)
  have "blank ?r" using mem by (simp add: blank_def sides stores with_strategy_ok)
  have start: "0 < (100000 :: u32)" "(100000 :: u32) < - 1" by simp_all
  from \<open>blank ?r\<close> seed_blank [OF _ host, where rank = "\<lambda>_. 0" and content = content] net_ok_new new_graph_ok [of 100000 "\<lambda>_. 0"] obtain t r' where
    r': "seed_root_token h ?r = Inr (t, r')" "rete_inv (\<lambda>_. 0) content [] h [] r'" "pending_ncc_results r' = None" "r_alpha r' = alpha_network_new"
    by (metis (mono_tags) rete.select_convs(1,2) start)
  then have "rete_new h s = Inr r'" by (simp add: rete_new_def)
  moreover have "at_rest (\<lambda>_. 0) content [] h N r'" using r' N by (simp add: at_rest_def alpha_network_new_def)
  ultimately show ?thesis using r'(4) by blast
qed

section \<open>Clearing\<close>

lemma same_graph_clear: "same_graph net (clear_all_runtime net)"
  by (simp add: same_graph_def clear_all_runtime_def)

lemma clear_returns:
  assumes rest: "at_rest rank content live h N r" and fuel: "N < fuel"
  shows "returns (\<lambda>r'. at_rest rank content [] h N r' \<and> kept_wiring r r') (clear_working_memory fuel h r)"
proof -
  note inv = at_restD(1) [OF rest]
  note i = rete_invD [OF inv]
  let ?r = "r\<lparr>r_alpha := clear_all_memories (r_alpha r), r_tokens := token_clear (r_tokens r),
            r_beta := clear_all_runtime (r_beta r), block_counter := 0, pending_events := [],
            pending_auto_focus_count := 0, pending_ncc_left_count := 0,
            r_agenda := with_strategy (strategy (r_agenda r)), activations_issued := 0\<rparr>"
  have graph: "graph_ok rank (r_beta ?r)" using graph_ok_same [OF i(2) same_graph_clear] by simp
  have alpha: "net_ok content [] (r_alpha ?r)" using net_ok_clear [OF i(3)] by simp
  have bms: "bm_tokens bm = [] \<and> (\<forall>bind. beta_index_ok bind bm)" if bm: "node_memory_at (clear_all_runtime (r_beta r)) n = Some bm" for n bm
  proof -
    have "get_memory (clear_all_runtime (r_beta r)) m = map_option beta_clear (get_memory (r_beta r) m)" for m
      by (simp add: get_memory_def list_get_def clear_all_runtime_def)
    then obtain bm0 where bm0: "node_memory_at (r_beta r) n = Some bm0" "bm = beta_clear bm0"
      using bm by (auto simp: node_memory_at_def same_graph_memory_id [OF same_graph_clear] bind_eq_Some_conv)
    have "beta_index_ok (bindings_of (r_tokens r)) bm0" using i(5) bm0(1) by (simp add: memories_ok_def)
    then have "distinct (indexed_vars bm0)" by (simp add: beta_index_ok_def index_ok_def)
    then show ?thesis by (simp add: bm0(2) beta_index_ok_def beta_clear_def index_ok_def nonempty_map_def)
  qed
  have "blank ?r"
    using with_strategy_ok ts_ok_clear at_restD(2) [OF rest] bms
    by (auto simp: blank_def clear_all_runtime_def token_clear_def negative_clear_def ncc_clear_def exists_clear_def with_strategy_def)
  from seed_blank [OF this i(1) graph alpha] obtain t r1 where
    r1: "seed_root_token h ?r = Inr (t, r1)" "rete_inv rank content [] h [] r1" "owned h r1 t (root_id (r_beta r))"
      "pending_ncc_results r1 = None" "same_graph (clear_all_runtime (r_beta r)) (r_beta r1)" "r_alpha r1 = clear_all_memories (r_alpha r)"
    by (auto simp: clear_all_runtime_def)
  have same: "same_graph (r_beta r) (r_beta r1)" by (rule same_graph_trans [OF same_graph_clear r1(5)])
  then have net: "get_node (r_beta r1) = get_node (r_beta r)" "root_id (r_beta r1) = root_id (r_beta r)"
    by (rule same_graph_node, simp add: same_graph_def)
  have rest1: "at_rest rank content [] h N r1"
    using r1(2,4,6) rest net by (simp add: at_rest_def clear_all_memories_def)
  have wired: "kept_wiring r r1" using same r1(6) by (simp add: kept_wiring_def clear_all_memories_def)
  have go: "returns (\<lambda>r'. at_rest rank content [] h N r' \<and> kept_wiring r r') (propagate_token fuel h fact_base_new t kids (r1\<lparr>new_activations := []\<rparr>))"
    if root: "get_node (r_beta r1) (root_id (r_beta r1)) = Some (Root m kids)" for m kids
  proof -
    let ?r1 = "r1\<lparr>new_activations := []\<rparr>"
    have rest2: "at_rest rank content [] h N ?r1" by (rule at_rest_log [OF rest1])
    have run: "running rank content [] h fact_base_new N [] ?r1" by (rule at_rest_running [OF rest2]) (simp add: base_knows_def)
    have own: "owned h ?r1 t (root_id (r_beta r))" using r1(3) by (simp add: owned_def issued_def)
    have "propagation rank content [] h fact_base_new N 0 (propagate_token fuel h fact_base_new)"
      by (rule propagate_token_contract) (use fuel in simp)
    from propagation.go_below [OF this run, of "root_id (r_beta r)" "Root m kids" kids t] root net own
    have "returns (runs rank content [] h [] (Suc (rank (root_id (r_beta r)))) ?r1) (propagate_token fuel h fact_base_new t kids ?r1)"
      by simp
    moreover have "kept_wiring r ?r1" using wired by (simp add: kept_wiring_def)
    ultimately show ?thesis using at_rest_runs [OF rest2] kept_wiring_trans kept_wiring_runs by (blast intro: returns_mono)
  qed
  obtain m kids where "get_node (r_beta r1) (root_id (r_beta r1)) = Some (Root m kids)"
    using graph_okD(1) [OF rete_invD(2) [OF r1(2)]] by blast
  with go show ?thesis by (simp add: clear_working_memory_def Let_def r1(1))
qed

section \<open>Activation of new nodes\<close>

lemma parent_rank:
  assumes g: "graph_ok rank net" and n: "get_node net n = Some node" "parent_node node = Some p"
  shows "rank p < rank n"
  using graph_okD(5) [OF g n] graph_okD(3) [OF g] by blast

lemma climb_returns:
  assumes g: "graph_ok rank net"
  shows "\<exists>x. climb_to_child net stop n = Some x"
proof (induction "rank n" arbitrary: n rule: less_induct)
  case less
  show ?case
  proof (cases "Option.bind (get_node net n) parent_node")
    case None
    then show ?thesis by (subst climb_to_child.simps) simp
  next
    case (Some p)
    then obtain node where "get_node net n = Some node" "parent_node node = Some p" by (auto simp: bind_eq_Some_conv)
    from less [OF parent_rank [OF g this]] Some show ?thesis by (subst climb_to_child.simps) simp
  qed
qed

lemma positive_climb_returns:
  assumes g: "graph_ok rank net"
  shows "\<exists>b. positive_climb net stop current = Some b"
proof (induction "case current of None \<Rightarrow> 0 | Some n \<Rightarrow> Suc (rank n)" arbitrary: current rule: less_induct)
  case less
  show ?case
  proof (cases "\<exists>n node. current = Some n \<and> n \<noteq> stop \<and> get_node net n = Some node")
    case True
    then obtain n node where c: "current = Some n" "n \<noteq> stop" "get_node net n = Some node" by blast
    have "(case parent_node node of None \<Rightarrow> 0 | Some p \<Rightarrow> Suc (rank p)) < Suc (rank n)"
      using parent_rank [OF g c(3)] by (simp split: option.split)
    then obtain b where "positive_climb net stop (parent_node node) = Some b" using less [of "parent_node node"] c(1) by auto
    with c show ?thesis by (subst positive_climb.simps) (cases node; simp; blast)
  next
    case False
    then show ?thesis by (subst positive_climb.simps) (auto split: option.split)
  qed
qed

lemma pure_returns:
  assumes g: "graph_ok rank net"
  shows "\<exists>b. ncc_is_pure_double_negation net n = Some b" "\<exists>x. ncc_subnetwork_entry net n = Some x"
proof -
  show entry: "\<exists>x. ncc_subnetwork_entry net n = Some x"
    using climb_returns [OF g] by (auto simp: ncc_subnetwork_entry_def split: option.split beta_node.split)
  then show "\<exists>b. ncc_is_pure_double_negation net n = Some b"
    by (auto simp: ncc_is_pure_double_negation_def split: option.split beta_node.split)
qed

lemma positive_double_returns:
  assumes g: "graph_ok rank net"
  shows "\<exists>b. is_positive_double_negation net n = Some b" "\<exists>ds. positive_double_negations net ns = Some ds"
proof -
  show one: "\<exists>b. is_positive_double_negation net n = Some b" for n
  proof -
    obtain b where b: "ncc_is_pure_double_negation net n = Some b" using pure_returns(1) [OF g] by blast
    obtain x where x: "ncc_subnetwork_entry net n = Some x" using pure_returns(2) [OF g] by blast
    show ?thesis
      using positive_climb_returns [OF g]
      by (auto simp: is_positive_double_negation_def b x split: option.split beta_node.split)
  qed
  show "\<exists>ds. positive_double_negations net ns = Some ds"
  proof (induction ns)
    case (Cons n ns)
    with one [of n] show ?case by auto
  qed simp
qed

lemma shared_results_nodes: "set (shared_results_first net edges) \<subseteq> set edges"
  by (induction net edges rule: shared_results_first.induct) (auto simp: Let_def)

lemma prime_last_nodes: "set (prime_last net n edges) \<subseteq> set edges"
proof -
  have "edges ! i \<in> set edges" if "position P edges = Some i" for P i
    using position_less [OF that] by simp
  then show ?thesis
    by (auto simp: prime_last_def insert_at_def dest: in_set_takeD in_set_dropD split: option.split beta_node.split if_splits)
qed

lemma frontier_returns:
  assumes g: "graph_ok rank net"
  obtains edges where "ncc_shared_results_first net first_new = Some edges" "set edges \<subseteq> set (installation_frontier first_new net)"
proof -
  let ?edges = "shared_results_first net (installation_frontier first_new net)"
  obtain ds where ds: "positive_double_negations net (map snd ?edges) = Some ds" using positive_double_returns(2) [OF g] by blast
  have "set (fold (prime_last net) ds edges) \<subseteq> set edges" for edges
  proof (induction ds arbitrary: edges)
    case (Cons d ds)
    from Cons.IH [of "prime_last net d edges"] prime_last_nodes [of net d edges] show ?case by simp
  qed simp
  with shared_results_nodes [of net "installation_frontier first_new net"]
  show thesis
    by (intro that [of "fold (prime_last net) ds ?edges"])
      (auto simp: ncc_shared_results_first_def prime_positive_double_negations_last_def ds)
qed

lemma frontier_edge:
  "(p, c) \<in> set (installation_frontier first_new net) \<Longrightarrow> \<exists>child. get_node net c = Some child \<and> parent_node child = Some p"
  by (auto simp: installation_frontier_def in_map_filter Let_def bind_eq_Some_conv split: option.splits if_splits)

lemma activate_child:
  assumes run: "running rank content live h fb N outer r" and fuel: "N < fuel"
    and c: "get_node (r_beta r) c = Some child" "parent_node child = Some p" and t: "owned h r t p"
  shows "returns (runs rank content live h outer 0 r) (propagate_token fuel h fb t [c] r)"
proof -
  have "propagation rank content live h fb N 0 (propagate_token fuel h fb)"
    by (rule propagate_token_contract) (use fuel in simp)
  from propagation.go [OF this run, of 0 t "[c]"] c t show ?thesis by (simp add: at_def)
qed

lemma initialize_edge_returns:
  assumes rest: "at_rest rank content live h N r" and base: "base_knows content fb live" and fuel: "N < fuel"
    and c: "get_node (r_beta r) c = Some child" "parent_node child = Some p"
  shows "returns (runs rank content live h [] 0 r) (initialize_edge fuel h fb (p, c) r)"
proof (cases "p = root_id (r_beta r)")
  case True
  obtain t where t: "seed_root_token h r = Inr (t, r)" "owned h r t p" using seed_at_rest [OF rest] True by blast
  let ?r = "r\<lparr>new_activations := []\<rparr>"
  note log = new_activations_inv [OF at_restD(1) [OF rest], where x = "[]"]
  have step: "runs rank content live h [] 0 r ?r" using log by (simp add: runs_def)
  have "returns (runs rank content live h [] 0 ?r) (propagate_token fuel h fb t [c] ?r)"
    by (rule activate_child [OF running_runs [OF at_rest_running [OF rest base] step] fuel])
      (use c runs_owned [OF step t(2)] in simp_all)
  then have "returns (runs rank content live h [] 0 r) (propagate_token fuel h fb t [c] ?r)"
    by (rule returns_mono) (rule runs_trans [OF step])
  with True t(1) show ?thesis by (simp add: initialize_edge_def activate_root_children_def)
next
  case False
  note run = at_rest_running [OF rest base]
  show ?thesis
  proof (cases "memory_id_for_node (r_beta r) p")
    case None
    with False runs_refl [OF run] show ?thesis by (simp add: initialize_edge_def)
  next
    case (Some m)
    let ?ts = "case get_memory (r_beta r) m of None \<Rightarrow> [] | Some bm \<Rightarrow> beta_iter bm"
    have own: "owned h r t p" if t: "t \<in> set ?ts" for t
    proof -
      obtain bm where "node_memory_at (r_beta r) p = Some bm" "t \<in> set (bm_tokens bm)"
        using t Some by (cases "get_memory (r_beta r) m") (auto simp: node_memory_at_def beta_iter_def)
      from memory_owned [OF at_restD(1) [OF rest] this] show ?thesis .
    qed
    have "returns (runs rank content live h [] 0 r) (in_batch fuel h (propagate_token fuel h fb) backfill
        (for_each (\<lambda>t. propagate_token fuel h fb t [c]) ts) r)" if ts: "set ts = set ?ts" for ts backfill
    proof (rule engine.in_batch [OF engine_contract [OF fuel] run fuel])
      fix x assume run': "running rank content live h fb N [] (r\<lparr>pending_ncc_results := x\<rparr>)"
      let ?r = "r\<lparr>pending_ncc_results := x\<rparr>"
      show "returns (runs rank content live h [] 0 ?r) (for_each (\<lambda>t. propagate_token fuel h fb t [c]) ts ?r)"
      proof (rule returns_runs_each [OF run'])
        fix t r' assume t: "t \<in> set ts" and r': "runs rank content live h [] 0 ?r r'" "running rank content live h fb N [] r'"
        have "owned h ?r t p" using own t ts by simp
        from activate_child [OF r'(2) fuel _ c(2) runs_owned [OF r'(1) this]] c(1)
        show "returns (runs rank content live h [] 0 r') (propagate_token fuel h fb t [c] r')" by (simp add: runs_node [OF r'(1)])
      qed
    qed
    from this [of "if is_partner (r_beta r) c then rev ?ts else ?ts" "is_partner (r_beta r) c"] False Some
    show ?thesis by (simp add: initialize_edge_def Let_def)
  qed
qed

lemma frontier_initialized:
  assumes rest: "at_rest rank content live h N r" and base: "base_knows content fb live" and fuel: "N < fuel"
  shows "returns (\<lambda>r'. at_rest rank content live h N r' \<and> kept_wiring r r') (initialize_beta_frontier fuel h fb first_new r)"
proof -
  obtain edges where edges: "ncc_shared_results_first (r_beta r) first_new = Some edges"
    "set edges \<subseteq> set (installation_frontier first_new (r_beta r))"
    by (rule frontier_returns [OF rete_invD(2) [OF at_restD(1) [OF rest]]])
  let ?r = "r\<lparr>new_activations := []\<rparr>"
  let ?edges = "filter (\<lambda>(_, c). is_partner (r_beta r) c) edges @ filter (\<lambda>(_, c). \<not> is_partner (r_beta r) c) edges"
  have rest1: "at_rest rank content live h N ?r" by (rule at_rest_log [OF rest])
  have "returns (runs rank content live h [] 0 ?r) (for_each (initialize_edge fuel h fb) ?edges ?r)"
  proof (rule returns_runs_each [OF at_rest_running [OF rest1 base]])
    fix e r' assume e: "e \<in> set ?edges" and r': "runs rank content live h [] 0 ?r r'" "running rank content live h fb N [] r'"
    obtain p c where eq: "e = (p, c)" by (cases e)
    obtain child where child: "get_node (r_beta r) c = Some child" "parent_node child = Some p"
      using frontier_edge [of p c first_new "r_beta r"] e edges(2) by (auto simp: eq)
    show "returns (runs rank content live h [] 0 r') (initialize_edge fuel h fb e r')"
      unfolding eq by (rule initialize_edge_returns [OF at_rest_runs [OF rest1 r'(1)] base fuel _ child(2)])
        (simp add: runs_node [OF r'(1)] child(1))
  qed
  moreover have "kept_wiring r ?r" by (simp add: kept_wiring_def)
  ultimately have "returns (\<lambda>r'. at_rest rank content live h N r' \<and> kept_wiring r r') (for_each (initialize_edge fuel h fb) ?edges ?r)"
    using at_rest_runs [OF rest1] kept_wiring_trans kept_wiring_runs by (blast intro: returns_mono)
  then show ?thesis by (simp add: initialize_beta_frontier_def edges(1))
qed

lemma roots_activated:
  assumes rest: "at_rest rank content live h N r" and base: "base_knows content fb live" and fuel: "N < fuel"
    and kids: "\<forall>k \<in> set kids. \<exists>child. get_node (r_beta r) k = Some child \<and> parent_node child = Some (root_id (r_beta r))"
  shows "returns (\<lambda>r'. at_rest rank content live h N r' \<and> kept_wiring r r') (activate_root_children fuel h fb kids r)"
proof (cases "kids = []")
  case True
  with rest show ?thesis by (simp add: activate_root_children_def)
next
  case False
  obtain t where t: "seed_root_token h r = Inr (t, r)" "owned h r t (root_id (r_beta r))" using seed_at_rest [OF rest] by blast
  let ?r = "r\<lparr>new_activations := []\<rparr>"
  have rest1: "at_rest rank content live h N ?r" by (rule at_rest_log [OF rest])
  have "propagation rank content live h fb N 0 (propagate_token fuel h fb)"
    by (rule propagate_token_contract) (use fuel in simp)
  from propagation.go [OF this at_rest_running [OF rest1 base], of 0 t kids]
  have "returns (runs rank content live h [] 0 ?r) (propagate_token fuel h fb t kids ?r)"
    using kids t(2) by (fastforce simp: at_def owned_def issued_def)
  moreover have "kept_wiring r ?r" by (simp add: kept_wiring_def)
  ultimately have "returns (\<lambda>r'. at_rest rank content live h N r' \<and> kept_wiring r r') (propagate_token fuel h fb t kids ?r)"
    using at_rest_runs [OF rest1] kept_wiring_trans kept_wiring_runs by (blast intro: returns_mono)
  with False t(1) show ?thesis by (simp add: activate_root_children_def)
qed

end
