(* ===== verification/Alpha_Building.thy ===== *)
theory Alpha_Building
  imports Alpha_Correct
begin

text \<open>
  Building the alpha network while facts are live: new nodes and memories keep the network exact,
  because a new memory is backfilled from the fact base in order of assertion. With this, the
  exactness theorem holds for every history of the network.
\<close>

section \<open>Growing the forest\<close>

definition same_kind :: "alpha_node \<Rightarrow> alpha_node \<Rightarrow> bool" where
  "same_kind a b \<longleftrightarrow> (\<forall>e cs m. a = EntryNode e cs m \<longrightarrow> (\<exists>cs' m'. b = EntryNode e cs' m')) \<and>
     (\<forall>t cs m. a = TestNode t cs m \<longrightarrow> (\<exists>cs' m'. b = TestNode t cs' m'))"

lemma same_kind_simps [simp]:
  "same_kind a a" "same_kind a (set_node_children cs a)" "same_kind a (set_node_memory mem a)"
  by (cases a; simp add: same_kind_def)+

lemma node_fields [simp]:
  "node_children (set_node_children cs a) = cs" "node_memory (set_node_children cs a) = node_memory a"
  "node_children (set_node_memory mem a) = node_children a" "node_memory (set_node_memory mem a) = mem"
  by (cases a; simp)+

definition grows :: "alpha_node list \<Rightarrow> alpha_node list \<Rightarrow> bool" where
  "grows ns ns' \<longleftrightarrow> length ns \<le> length ns' \<and> (\<forall>k < length ns. same_kind (ns ! k) (ns' ! k)) \<and>
     (\<forall>p c. child_of ns p c \<longrightarrow> child_of ns' p c)"

lemma path_grows: "path ns n e ts \<Longrightarrow> grows ns ns' \<Longrightarrow> path ns' n e ts"
proof (induction rule: path.induct)
  case (path_entry n e cs m)
  then have "same_kind (EntryNode e cs m) (ns' ! n)" by (auto simp: grows_def)
  then obtain cs' m' where "ns' ! n = EntryNode e cs' m'" by (auto simp: same_kind_def)
  with path_entry show ?case by (intro path.path_entry) (auto simp: grows_def)
next
  case (path_test p e ts c t cs m)
  then have "same_kind (TestNode t cs m) (ns' ! c)" by (auto simp: grows_def)
  then obtain cs' m' where "ns' ! c = TestNode t cs' m'" by (auto simp: same_kind_def)
  with path_test show ?case by (intro path.path_test [of ns' p]) (auto simp: grows_def)
qed

text \<open>Growing the node list keeps what the memories must hold.\<close>

lemma net_ok_grow:
  assumes ok: "net_ok content live net" and shape: "net_shape net'"
    and grows: "grows (nodes net) (nodes net')"
    and same: "memories net' = memories net" "fact_to_memories net' = fact_to_memories net"
    and mem: "\<And>n m. n < length (nodes net') \<Longrightarrow> node_memory (nodes net' ! n) = Some m \<Longrightarrow>
      n < length (nodes net) \<and> node_memory (nodes net ! n) = Some m"
  shows "net_ok content live net'"
proof -
  have "mem_facts (memories net' ! mem_index m) = filter (\<lambda>i. path_matches e ts (content i)) live"
    if path: "path (nodes net') n e ts" and m: "node_memory (nodes net' ! n) = Some m" for n m e ts
  proof -
    have n: "n < length (nodes net)" "node_memory (nodes net ! n) = Some m"
      using mem [OF path_less [OF path] m] by auto
    obtain e' ts' where old: "path (nodes net) n e' ts'" using net_shapeD(2) [OF net_okD(1) [OF ok] n(1)] by blast
    have "e' = e \<and> ts' = ts"
      by (rule path_unique [OF path net_shapeD(1) [OF shape] path_grows [OF old grows]])
    with net_okD(8) [OF ok old n(2)] show ?thesis by (simp add: same)
  qed
  moreover have "lists_holders net'"
    using net_okD(4) [OF ok] by (simp add: lists_holders_def holders_def memories_containing_fact_def same)
  ultimately have "net_filled content live net'"
    using ok by (simp add: net_ok_def net_filled_def same)
  with shape show ?thesis by (simp add: net_ok_def)
qed

lemma net_shape_grow:
  assumes shape: "net_shape net" and grows: "grows (nodes net) (nodes net')" and forest: "forest (nodes net')"
    and paths: "\<And>k. length (nodes net) \<le> k \<Longrightarrow> k < length (nodes net') \<Longrightarrow> \<exists>e ts. path (nodes net') k e ts"
    and ids: "next_node_id net' = of_nat (length (nodes net'))" "length (nodes net') \<le> 2 ^ 32"
      "next_memory_id net' = of_nat (length (memories net'))" "memories net' = memories net"
    and entries: "\<And>e k. entry_nodes net' e = Some k \<longleftrightarrow>
      unat k < length (nodes net') \<and> (\<exists>cs m. nodes net' ! unat k = EntryNode e cs m)"
    and mem: "\<And>n. n < length (nodes net) \<Longrightarrow> node_memory (nodes net' ! n) = node_memory (nodes net ! n)"
      "\<And>n. length (nodes net) \<le> n \<Longrightarrow> n < length (nodes net') \<Longrightarrow> node_memory (nodes net' ! n) = None"
  shows "net_shape net'"
proof -
  note old = net_shapeD [OF shape]
  have len: "length (nodes net) \<le> length (nodes net')" using grows by (simp add: grows_def)
  have mem_old: "n < length (nodes net) \<and> node_memory (nodes net ! n) = Some m"
    if "n < length (nodes net')" "node_memory (nodes net' ! n) = Some m" for n m
    using that mem [of n] by (cases "n < length (nodes net)") auto
  have "\<exists>e ts. path (nodes net') k e ts" if "k < length (nodes net')" for k
  proof (cases "k < length (nodes net)")
    case True
    from old(2) [OF this] obtain e ts where "path (nodes net) k e ts" by blast
    then show ?thesis using path_grows [OF _ grows] by blast
  qed (use paths [of k] that in auto)
  moreover have "\<exists>n < length (nodes net'). node_memory (nodes net' ! n) = Some m"
    if "mem_index m < length (memories net)" for m
    using old(10) [OF that] mem(1) len by (metis less_le_trans)
  ultimately show ?thesis
    using forest ids entries old(6) unfolding net_shape_def
    by (auto dest!: mem_old intro: old(8,9))
qed

lemma child_of_append: "child_of (ns @ [a]) n c \<longleftrightarrow> child_of ns n c \<or> (n = length ns \<and> c \<in> unat ` set (node_children a))"
  by (auto simp: child_of_def nth_append less_Suc_eq)

lemma unat_next: "n < 2 ^ 32 \<Longrightarrow> unat (of_nat n :: u32) = n"
  by (simp add: unsigned_of_nat take_bit_nat_eq_self)

lemma net_ok_entry:
  assumes ok: "net_ok content live net" and room: "length (nodes net) < 2 ^ 32"
    and new: "create_entry_node e net = (n, net')"
  shows "net_ok content live net' \<and> unat n < length (nodes net') \<and> path (nodes net') (unat n) e []"
proof (cases "entry_nodes net e")
  case (Some k)
  with new ok net_shapeD(7) [OF net_okD(1) [OF ok]] show ?thesis
    by (fastforce simp: create_entry_node_def intro: path_entry)
next
  case None
  note shape = net_shapeD [OF net_okD(1) [OF ok]]
  let ?ns = "nodes net" and ?ns' = "nodes net @ [EntryNode e [] None]"
  have net': "n = of_nat (length ?ns)" "nodes net' = ?ns'" "entry_nodes net' = (entry_nodes net)(e \<mapsto> of_nat (length ?ns))"
    "next_node_id net' = of_nat (length ?ns + 1)" "memories net' = memories net"
    "fact_to_memories net' = fact_to_memories net" "next_memory_id net' = next_memory_id net"
    using new None shape(3) by (auto simp: create_entry_node_def Let_def)
  have un: "unat (of_nat (length ?ns) :: u32) = length ?ns" by (rule unat_next [OF room])
  have child: "child_of ?ns' k c \<longleftrightarrow> child_of ?ns k c" for k c by (simp add: child_of_append)
  have grows: "grows ?ns ?ns'" by (simp add: grows_def child nth_append)
  have forest: "forest ?ns'"
    using shape(1) unfolding forest_def child
    by (fastforce simp: nth_append less_Suc_eq)
  have "(entry_nodes net') e' = Some k \<longleftrightarrow>
      unat k < length ?ns' \<and> (\<exists>cs m. ?ns' ! unat k = EntryNode e' cs m)" for e' k
    using shape(7) [of e' k] None un
    by (auto simp: net' nth_append less_Suc_eq word_unat_eq_iff)
  moreover have "path ?ns' (length ?ns) e []" by (rule path_entry) simp_all
  ultimately have "net_shape net'"
    using grows forest room shape(5)
    by (intro net_shape_grow [OF net_okD(1) [OF ok]]) (auto simp: net' nth_append le_less_Suc_eq)
  then have "net_ok content live net'"
    by (rule net_ok_grow [OF ok]) (use grows in \<open>auto simp: net' nth_append less_Suc_eq split: if_splits\<close>)
  then show ?thesis by (auto simp: net' un intro: path_entry)
qed

lemma net_ok_test:
  assumes ok: "net_ok content live net" and room: "length (nodes net) < 2 ^ 32"
    and parent: "unat p < length (nodes net)" "path (nodes net) (unat p) e ts"
    and new: "create_constant_test_node p t net = (n, net')"
  shows "net_ok content live net' \<and> unat n < length (nodes net') \<and> path (nodes net') (unat n) e (ts @ [t])"
proof -
  note shape = net_shapeD [OF net_okD(1) [OF ok]]
  let ?ns = "nodes net" and ?new = "of_nat (length (nodes net)) :: u32"
  let ?g = "\<lambda>node. set_node_children (node_children node @ [?new]) node"
  let ?ns' = "list_modify (unat p) ?g (?ns @ [TestNode t [] None])"
  have net': "n = ?new" "nodes net' = ?ns'" "entry_nodes net' = entry_nodes net"
    "next_node_id net' = of_nat (length ?ns + 1)" "memories net' = memories net"
    "fact_to_memories net' = fact_to_memories net" "next_memory_id net' = next_memory_id net"
    using new shape(3) by (auto simp: create_constant_test_node_def Let_def)
  have un: "unat ?new = length ?ns" by (rule unat_next [OF room])
  have nth: "?ns' ! k = (if k = unat p then ?g (?ns ! k) else if k < length ?ns then ?ns ! k else TestNode t [] None)"
    if "k < Suc (length ?ns)" for k
    using that parent(1) by (auto simp: nth_list_modify nth_append less_Suc_eq)
  have child: "child_of ?ns' k c \<longleftrightarrow> child_of ?ns k c \<or> (k = unat p \<and> c = length ?ns)" for k c
  proof (cases "k = unat p")
    case True
    then show ?thesis using parent(1) un by (auto simp: child_of_def nth)
  next
    case False
    then show ?thesis using parent(1) by (cases "k = length ?ns") (auto simp: child_of_def nth less_Suc_eq)
  qed
  have grows: "grows ?ns ?ns'" by (simp add: grows_def child nth)
  have old_child: "child_of ?ns k c \<Longrightarrow> c < length ?ns" for k c by (rule forestD(2) [OF shape(1)])
  have forest: "forest ?ns'"
    unfolding forest_def
  proof (intro conjI allI impI)
    fix k c assume *: "child_of ?ns' k c"
    then consider "child_of ?ns k c" | "k = unat p" "c = length ?ns" by (auto simp: child)
    then show "k < c" "c < length ?ns'"
      using forestD(1,2) [OF shape(1), of k c] parent(1) by (cases; simp)+
    show "\<exists>t cs m. ?ns' ! c = TestNode t cs m"
    proof (cases "c < length ?ns")
      case True
      with * have "child_of ?ns k c" by (simp add: child)
      with forestD(3) [OF shape(1)] obtain t cs m where "?ns ! c = TestNode t cs m" by blast
      with True show ?thesis by (auto simp: nth)
    next
      case False
      with * old_child have "c = length ?ns" by (auto simp: child)
      with parent(1) show ?thesis by (simp add: nth)
    qed
  next
    fix k k' c assume *: "child_of ?ns' k c" "child_of ?ns' k' c"
    show "k = k'"
    proof (cases "c = length ?ns")
      case True
      have "\<not> child_of ?ns j (length ?ns)" for j using old_child by fastforce
      with True * show ?thesis by (simp add: child)
    next
      case False
      with * have "child_of ?ns k c" "child_of ?ns k' c" by (simp_all add: child)
      then show ?thesis by (rule forestD(4) [OF shape(1)])
    qed
  next
    fix k assume "k < length ?ns'"
    have "?new \<notin> set (node_children (?ns ! unat p))"
      using old_child [of "unat p" "length ?ns"] parent(1) un by (force simp: child_of_def)
    with \<open>k < length ?ns'\<close> forestD(5) [OF shape(1)] parent(1) show "distinct (node_children (?ns' ! k))"
      by (auto simp: nth less_Suc_eq)
  qed
  have entry_kind: "(\<exists>cs m. set_node_children cs' a = EntryNode e' cs m) \<longleftrightarrow> (\<exists>cs m. a = EntryNode e' cs m)" for cs' a e'
    by (cases a) auto
  have "entry_nodes net' e' = Some k \<longleftrightarrow>
      unat k < length ?ns' \<and> (\<exists>cs m. ?ns' ! unat k = EntryNode e' cs m)" for e' k
    using shape(7) [of e' k] parent(1)
    by (cases "unat k = unat p"; cases "unat k < length ?ns") (auto simp: net' nth less_Suc_eq entry_kind)
  moreover have path: "path ?ns' (length ?ns) e (ts @ [t])"
    by (rule path.path_test [OF path_grows [OF parent(2) grows]]) (use parent(1) in \<open>auto simp: child nth\<close>)
  ultimately have "net_shape net'"
    using grows forest room shape(5) parent(1)
    by (intro net_shape_grow [OF net_okD(1) [OF ok]]) (auto simp: net' nth le_less_Suc_eq)
  then have "net_ok content live net'"
    by (rule net_ok_grow [OF ok]) (use grows parent(1) in \<open>auto simp: net' nth less_Suc_eq split: if_splits\<close>)
  with path show ?thesis by (simp add: net' un)
qed

section \<open>New memories\<close>

text \<open>The fact base behind a backfill: it holds the live facts, and they were asserted in the order of the list.\<close>

definition fact_age :: "fact_base \<Rightarrow> fact_id \<Rightarrow> timestamp" where
  "fact_age fb i = (case fact_base_get fb i of None \<Rightarrow> 0 | Some entry \<Rightarrow> entry_timestamp entry)"

definition holds_live :: "(fact_id \<Rightarrow> fact) \<Rightarrow> fact_id list \<Rightarrow> fact_base \<Rightarrow> fact_id list \<Rightarrow> bool" where
  "holds_live content live fb walk \<longleftrightarrow> agrees content fb (set live) \<and> enumerates walk (set live) \<and>
     sorted_wrt (<) (map (fact_age fb) live)"

lemma backfill_order:
  assumes "holds_live content live fb walk"
  shows "map snd (sort_key fst (List.map_filter (\<lambda>i.
      case fact_base_get fb i of
        None \<Rightarrow> None
      | Some entry \<Rightarrow> if P (entry_fact entry) then Some (entry_timestamp entry, i) else None) walk)) =
    filter (\<lambda>i. P (content i)) live" (is "map snd (sort_key fst ?L) = ?R")
proof -
  have sorted: "sorted_wrt (<) (map (fact_age fb) live)" and walk: "distinct walk" "set walk = set live"
    and agree: "agrees content fb (set live)"
    using assms by (auto simp: holds_live_def)
  have L: "?L = map (\<lambda>i. (fact_age fb i, i)) (filter (\<lambda>i. P (content i)) walk)"
    using agree unfolding walk(2) [symmetric]
    by (induction walk) (auto simp: List.map_filter_simps agrees_def fact_age_def)
  then have mem: "x \<in> set ?L \<longleftrightarrow> (\<exists>i \<in> set live. P (content i) \<and> x = (fact_age fb i, i))" for x
    using walk by auto
  have "distinct ?L" unfolding L using walk by (simp add: distinct_map inj_on_def)
  let ?S = "map snd (sort_key fst ?L)"
  have ages: "map (fact_age fb) ?S = map fst (sort_key fst ?L)"
    using mem by (auto simp: comp_def)
  have inj: "inj_on (fact_age fb) (set live)"
    using sorted strict_sorted_iff [of "map (fact_age fb) live"] by (simp add: distinct_map)
  have set: "set ?S = set ?R" using mem by force
  show ?thesis
  proof (rule map_sorted_distinct_set_unique)
    show "inj_on (fact_age fb) (set ?S \<union> set ?R)"
      unfolding set using inj by (auto intro: inj_on_subset)
    show "sorted (map (fact_age fb) ?S)" unfolding ages by simp
    have "distinct (map fst (sort_key fst ?L))"
      using \<open>distinct ?L\<close> inj mem by (auto simp: distinct_map inj_on_def)
    then show "distinct (map (fact_age fb) ?S)" unfolding ages .
    have "sorted_wrt (<) (map (fact_age fb) ?R)"
      using sorted by (simp add: sorted_wrt_map sorted_wrt_filter)
    then show "sorted (map (fact_age fb) ?R)" "distinct (map (fact_age fb) ?R)"
      by (simp_all add: strict_sorted_iff)
    show "set ?S = set ?R" by (rule set)
  qed
qed

text \<open>The backfill loop fills the memory and extends the reverse index.\<close>

definition with_memory :: "(fact_id \<Rightarrow> fact) \<Rightarrow> alpha_memory_id \<Rightarrow> fact_id list \<Rightarrow> alpha_network \<Rightarrow> alpha_network" where
  "with_memory content m xs net = net\<lparr>
     memories := list_modify (mem_index m) (fold (\<lambda>i. alpha_insert i (content i)) xs) (memories net),
     fact_to_memories := (\<lambda>i. if i \<in> set xs then Some (memories_containing_fact net i @ [m]) else fact_to_memories net i)\<rparr>"

lemma list_modify_modify [simp]: "list_modify k g (list_modify k h xs) = list_modify k (\<lambda>x. g (h x)) xs"
  by (simp add: list_modify_def)

lemma backfill_loop:
  assumes "agrees content fb (set xs)" "distinct xs" "mem_index m < length (memories net)"
    and "\<And>i. i \<in> set xs \<Longrightarrow> m \<notin> set (memories_containing_fact net i)"
  shows "fold (\<lambda>i st. Option.bind st (backfill_step m fb i)) xs (Some net) = Some (with_memory content m xs net)"
  using assms
proof (induction xs arbitrary: net)
  case Nil
  have "list_modify (mem_index m) (\<lambda>x. x) (memories net) = memories net" by (simp add: list_modify_def)
  then show ?case by (simp add: with_memory_def id_def)
next
  case (Cons i xs)
  let ?net = "with_memory content m [i] net"
  have "backfill_step m fb i net = Some ?net"
  proof -
    obtain entry where entry: "fact_base_get fb i = Some entry" "entry_fact entry = content i"
      using Cons.prems(1) by (auto simp: agrees_def)
    have "m \<notin> set (memories_containing_fact net i)" using Cons.prems(4) by simp
    then have "(case fact_to_memories net i of Some ms \<Rightarrow> if m \<in> set ms then ms else ms @ [m] | None \<Rightarrow> [m]) =
        memories_containing_fact net i @ [m]"
      by (auto simp: memories_containing_fact_def split: option.split)
    with entry Cons.prems(3) show ?thesis
      by (auto simp: backfill_step_def with_memory_def alpha_memory_at_def list_get_def list_modify_def fun_eq_iff
          intro!: alpha_network.equality)
  qed
  moreover have "fold (\<lambda>i st. Option.bind st (backfill_step m fb i)) xs (Some ?net) = Some (with_memory content m xs ?net)"
    using Cons.prems by (intro Cons.IH) (auto simp: agrees_def with_memory_def memories_containing_fact_def)
  moreover have "with_memory content m xs ?net = with_memory content m (i # xs) net"
    using Cons.prems(2)
    by (auto simp: with_memory_def memories_containing_fact_def comp_def intro!: alpha_network.equality)
  ultimately show ?case by simp
qed

lemma fill_new_memory:
  "distinct xs \<Longrightarrow> mem_facts (fold (\<lambda>i. alpha_insert i (content i)) xs (alpha_memory_new m)) = xs \<and>
    alpha_ok content (fold (\<lambda>i. alpha_insert i (content i)) xs (alpha_memory_new m))"
proof (induction xs rule: rev_induct)
  case Nil
  show ?case using alpha_ok_new by (simp add: alpha_memory_new_def)
next
  case (snoc i xs)
  then show ?case by (simp add: alpha_ok_insert)
qed

text \<open>Attaching a memory to a node leaves the forest and its paths alone.\<close>

lemma attach_nodes:
  assumes "forest ns" "n < length ns" and ns'_def: "ns' = list_modify n (set_node_memory (Some m)) ns"
  shows "forest ns'" "grows ns ns'" "length ns' = length ns"
    "k < length ns \<Longrightarrow> node_memory (ns' ! k) = (if k = n then Some m else node_memory (ns ! k))"
    "k < length ns \<Longrightarrow> (\<exists>cs m'. ns' ! k = EntryNode e cs m') \<longleftrightarrow> (\<exists>cs m'. ns ! k = EntryNode e cs m')"
proof -
  have nth: "ns' ! k = (if k = n then set_node_memory (Some m) (ns ! k) else ns ! k)" if "k < length ns" for k
    using that by (simp add: ns'_def nth_list_modify)
  show len: "length ns' = length ns" by (simp add: ns'_def)
  have child: "child_of ns' k c = child_of ns k c" for k c
    by (cases "k = n") (auto simp: child_of_def nth len)
  have kind: "(\<exists>cs m'. set_node_memory mem a = EntryNode e' cs m') \<longleftrightarrow> (\<exists>cs m'. a = EntryNode e' cs m')"
    "(\<exists>t cs m'. set_node_memory mem a = TestNode t cs m') \<longleftrightarrow> (\<exists>t cs m'. a = TestNode t cs m')" for mem a e'
    by (cases a; auto)+
  show "grows ns ns'" by (simp add: grows_def child nth len)
  show "forest ns'" using assms(1) unfolding forest_def child by (simp add: nth kind len)
  show "k < length ns \<Longrightarrow> node_memory (ns' ! k) = (if k = n then Some m else node_memory (ns ! k))"
    by (simp add: nth)
  show "k < length ns \<Longrightarrow> (\<exists>cs m'. ns' ! k = EntryNode e cs m') \<longleftrightarrow> (\<exists>cs m'. ns ! k = EntryNode e cs m')"
    by (cases "k = n") (simp_all add: nth kind)
qed

lemma net_shape_attach:
  assumes ok: "net_shape net" and n: "n < length (nodes net)" "node_memory (nodes net ! n) = None"
    and m: "mem_index m = length (memories net)" "length (memories net) < 2 ^ 32"
    and nodes': "nodes net' = list_modify n (set_node_memory (Some m)) (nodes net)"
    and same: "entry_nodes net' = entry_nodes net" "next_node_id net' = next_node_id net"
      "next_memory_id net' = of_nat (Suc (length (memories net)))" "length (memories net') = Suc (length (memories net))"
  shows "net_shape net'"
proof -
  note shape = net_shapeD [OF ok]
  note attach = attach_nodes [OF shape(1) n(1) nodes']
  show ?thesis
    unfolding net_shape_def
  proof (intro conjI allI impI)
    show "\<exists>e ts. path (nodes net') k e ts" if "k < length (nodes net')" for k
      using shape(2) [of k] path_grows [OF _ attach(2)] that attach(3) by metis
    show "(entry_nodes net' e' = Some k) = (unat k < length (nodes net') \<and> (\<exists>cs m. nodes net' ! unat k = EntryNode e' cs m))"
      for e' k using shape(7) [of e' k] attach(3) attach(5) [of "unat k" e'] by (auto simp: same)
    show "mem_index m' < length (memories net')"
      if "k < length (nodes net')" "node_memory (nodes net' ! k) = Some m'" for k m'
      using that shape(8) [of k m'] m by (auto simp: same attach split: if_splits)
    show "k = k'" if "k < length (nodes net')" "k' < length (nodes net')" "node_memory (nodes net' ! k) = Some m'"
      "node_memory (nodes net' ! k') = Some m'" for k k' m'
      using that shape(8) [of k m] shape(8) [of k' m] shape(9) [of k k' m'] m
      by (auto simp: attach split: if_splits)
    show "\<exists>k < length (nodes net'). node_memory (nodes net' ! k) = Some m'" if "mem_index m' < length (memories net')" for m'
    proof (cases "m' = m")
      case True
      with n attach show ?thesis by (auto intro!: exI [of _ n])
    next
      case False
      with that m have "mem_index m' < length (memories net)"
        using mem_index_inj [of m' m] by (simp add: same less_Suc_eq)
      then obtain k where "k < length (nodes net)" "node_memory (nodes net ! k) = Some m'" using shape(10) by blast
      with n attach show ?thesis by (auto intro!: exI [of _ k])
    qed
  qed (use attach shape(3-6) m in \<open>simp_all add: same\<close>)
qed

lemma net_ok_memory:
  assumes ok: "net_ok content live net" and room: "length (memories net) < 2 ^ 32"
    and node: "path (nodes net) (unat n) e ts" "node_memory (nodes net ! unat n) = None"
    and new: "create_memory n net = (m, net1)" and fb: "holds_live content live fb walk"
  obtains net2 where "backfill_memory walk m e ts fb net1 = Some net2" "net_ok content live net2"
    "nodes net2 = list_modify (unat n) (set_node_memory (Some m)) (nodes net)"
proof -
  note shape = net_shapeD [OF net_okD(1) [OF ok]]
  let ?ns = "nodes net" and ?xs = "filter (\<lambda>i. path_matches e ts (content i)) live"
  have n: "unat n < length ?ns" by (rule path_less [OF node(1)])
  have m: "mem_index m = length (memories net)"
    using new room shape(5) by (auto simp: create_memory_def Let_def unat_next)
  have net1: "nodes net1 = list_modify (unat n) (set_node_memory (Some m)) ?ns"
    "memories net1 = memories net @ [alpha_memory_new m]" "entry_nodes net1 = entry_nodes net"
    "fact_to_memories net1 = fact_to_memories net" "next_node_id net1 = next_node_id net"
    "next_memory_id net1 = of_nat (Suc (length (memories net)))"
    using new shape(5) by (auto simp: create_memory_def Let_def)
  have fresh: "m \<notin> holders net i" for i by (simp add: holders_def m)
  have distinct: "distinct ?xs" using net_okD(2) [OF ok] by simp
  define net2 where "net2 = with_memory content m ?xs net1"
  have res: "backfill_memory walk m e ts fb net1 = Some net2"
    unfolding backfill_memory_def backfill_order [OF fb] net2_def
    by (rule backfill_loop [OF _ distinct])
      (use fb net_okD(6) [OF ok] fresh in \<open>auto simp: holds_live_def agrees_def net1 m memories_containing_fact_def\<close>)
  have fields: "nodes net2 = nodes net1" "entry_nodes net2 = entry_nodes net" "next_node_id net2 = next_node_id net"
    "next_memory_id net2 = of_nat (Suc (length (memories net)))" "length (memories net2) = Suc (length (memories net))"
    "fact_to_memories net2 i = (if i \<in> set ?xs then Some (memories_containing_fact net i @ [m]) else fact_to_memories net i)" for i
    by (simp_all add: net2_def with_memory_def net1 memories_containing_fact_def)
  have mems: "memories net2 ! k = (if k = length (memories net)
      then fold (\<lambda>i. alpha_insert i (content i)) ?xs (alpha_memory_new m) else memories net ! k)"
    if "k < Suc (length (memories net))" for k
    using that by (auto simp: net2_def with_memory_def net1 nth_list_modify m nth_append)
  note filled = fill_new_memory [OF distinct, of content m]
  have net_shape: "net_shape net2"
    by (rule net_shape_attach [OF net_okD(1) [OF ok] n node(2) m room]) (simp_all add: fields net1)
  note attach = attach_nodes [OF shape(1) n fields(1) [unfolded net1(1)]]
  have holders: "holders net2 i = (if i \<in> set ?xs then insert m (holders net i) else holders net i)" for i
  proof -
    have "mem_index m' < Suc (length (memories net)) \<longleftrightarrow> m' = m \<or> mem_index m' < length (memories net)" for m'
      using m mem_index_inj [of m' m] by (auto simp: less_Suc_eq)
    then show ?thesis using filled by (auto simp: holders_def mems fields m)
  qed
  have "lists_holders net2"
    using net_okD(5-7) [OF ok] fresh unfolding lists_holders_def holders
    by (auto simp: memories_containing_fact_def fields)
  moreover have "alpha_ok content am" if "am \<in> set (memories net2)" for am
  proof -
    from that obtain k where "k < Suc (length (memories net))" "am = memories net2 ! k"
      by (auto simp: in_set_conv_nth fields)
    then show ?thesis using filled net_okD(3) [OF ok, of "memories net ! k"] by (auto simp: mems less_Suc_eq)
  qed
  moreover have "mem_facts (memories net2 ! mem_index m') = filter (\<lambda>i. path_matches e' ts' (content i)) live"
    if p: "path (nodes net2) k e' ts'" and m': "node_memory (nodes net2 ! k) = Some m'" for k m' e' ts'
  proof -
    have k: "k < length ?ns" using path_less [OF p] attach(3) by simp
    obtain e'' ts'' where old: "path ?ns k e'' ts''" using shape(2) [OF k] by blast
    have same: "e'' = e' \<and> ts'' = ts'" by (rule path_unique [OF p attach(1) path_grows [OF old attach(2)]])
    show ?thesis
    proof (cases "k = unat n")
      case True
      have "e' = e \<and> ts' = ts" using path_unique [OF node(1) shape(1)] old same True by blast
      moreover have "m' = m" using True m' attach(4) [OF k] by simp
      ultimately show ?thesis using filled by (simp add: mems m)
    next
      case False
      then have "node_memory (?ns ! k) = Some m'" using m' attach(4) [OF k] by simp
      with net_okD(8) [OF ok old] shape(8) [OF k] same show ?thesis by (simp add: mems)
    qed
  qed
  ultimately have "net_filled content live net2"
    using net_okD(2) [OF ok] by (simp add: net_filled_def)
  with net_shape res show ?thesis by (intro that [of net2]) (simp_all add: net_ok_def fields net1)
qed

section \<open>Histories\<close>

text \<open>
  The network together with the live facts, oldest first. A test node is created under an existing
  node, a memory on a node without one and backfilled at once, as the compiler does.
\<close>

inductive alpha_reach :: "(fact_id \<Rightarrow> fact) \<Rightarrow> fact_id list \<Rightarrow> alpha_network \<Rightarrow> bool" for content where
  alpha_start: "alpha_reach content [] alpha_network_new"
| alpha_entry: "alpha_reach content live net \<Longrightarrow> length (nodes net) < 2 ^ 32 \<Longrightarrow>
    create_entry_node e net = (n, net') \<Longrightarrow> alpha_reach content live net'"
| alpha_test: "alpha_reach content live net \<Longrightarrow> length (nodes net) < 2 ^ 32 \<Longrightarrow> unat p < length (nodes net) \<Longrightarrow>
    create_constant_test_node p t net = (n, net') \<Longrightarrow> alpha_reach content live net'"
| alpha_memory: "alpha_reach content live net \<Longrightarrow> length (memories net) < 2 ^ 32 \<Longrightarrow>
    path (nodes net) (unat n) e ts \<Longrightarrow> node_memory (nodes net ! unat n) = None \<Longrightarrow>
    create_memory n net = (m, net1) \<Longrightarrow> holds_live content live fb walk \<Longrightarrow>
    backfill_memory walk m e ts fb net1 = Some net' \<Longrightarrow> alpha_reach content live net'"
| alpha_assert: "alpha_reach content live net \<Longrightarrow> i \<notin> set live \<Longrightarrow> length (nodes net) < fuel \<Longrightarrow>
    alpha_assert_fact fuel i (content i) net = Some (ms, net') \<Longrightarrow> alpha_reach content (live @ [i]) net'"
| alpha_retract: "alpha_reach content live net \<Longrightarrow>
    alpha_reach content (filter (\<lambda>j. j \<noteq> i) live) (alpha_retract_fact i (content i) net)"
| alpha_clearing: "alpha_reach content live net \<Longrightarrow> alpha_reach content [] (clear_all_memories net)"
| alpha_index: "alpha_reach content live net \<Longrightarrow> agrees content fb (set live) \<Longrightarrow>
    alpha_reach content live (alpha_request_index m slot fb net)"

lemma alpha_reach_ok: "alpha_reach content live net \<Longrightarrow> net_ok content live net"
proof (induction rule: alpha_reach.induct)
  case (alpha_test live net p t n net')
  then obtain e ts where "path (nodes net) (unat p) e ts" using net_shapeD(2) [OF net_okD(1)] by blast
  with alpha_test show ?case using net_ok_test by blast
next
  case (alpha_memory live net n e ts m net1 fb walk net')
  from net_ok_memory [OF alpha_memory(8,2-6)] alpha_memory(7) show ?case by (metis option.inject)
next
  case (alpha_assert live net i fuel ms net')
  from net_ok_assert [OF alpha_assert(5,2,3)] alpha_assert(4) show ?case by (metis option.inject prod.inject)
qed (auto simp: net_ok_new net_ok_retract net_ok_clear net_ok_request dest: net_ok_entry)

lemmas alpha_reach_okD = net_okD [OF alpha_reach_ok]

end
