(* ===== verification/Alpha_Results.thy ===== *)
theory Alpha_Results
  imports Alpha_Building
begin

text \<open>
  What the alpha network promises in every history: well-formed ids, exact memories and reverse
  index, and assertions that return.
\<close>

text \<open>
  C37: In every reachable alpha network each node lies on exactly one chain of tests below one entry
  node, the ids handed out next are fresh, the entry table names exactly the entry nodes, and the
  memories are attached one-to-one to nodes: every id stored in the network is in range.
\<close>

theorem alpha_network_well_formed:
  assumes "alpha_reach content live net"
  shows "(\<forall>n < length (nodes net). \<exists>!p. path (nodes net) n (fst p) (snd p)) \<and>
    (\<forall>n < length (nodes net). \<forall>c \<in> set (node_children (nodes net ! n)). n < unat c \<and> unat c < length (nodes net)) \<and>
    (\<forall>e n. entry_nodes net e = Some n \<longleftrightarrow>
       unat n < length (nodes net) \<and> (\<exists>cs m. nodes net ! unat n = EntryNode e cs m)) \<and>
    (\<forall>m. mem_index m < length (memories net) \<longleftrightarrow>
       (\<exists>n < length (nodes net). node_memory (nodes net ! n) = Some m)) \<and>
    (\<forall>n n' m. n < length (nodes net) \<longrightarrow> n' < length (nodes net) \<longrightarrow> node_memory (nodes net ! n) = Some m \<longrightarrow>
       node_memory (nodes net ! n') = Some m \<longrightarrow> n = n')"
proof -
  note shape = net_shapeD [OF alpha_reach_okD(1) [OF assms]]
  have paths: "\<exists>!p. path (nodes net) n (fst p) (snd p)" if n: "n < length (nodes net)" for n
  proof -
    obtain e ts where p: "path (nodes net) n e ts" using shape(2) [OF n] by blast
    show ?thesis
    proof (rule ex1I [of _ "(e, ts)"])
      show "q = (e, ts)" if "path (nodes net) n (fst q) (snd q)" for q
        using path_unique [OF p shape(1) that] by (metis prod.collapse)
    qed (simp add: p)
  qed
  have children: "n < unat c \<and> unat c < length (nodes net)"
    if "n < length (nodes net)" "c \<in> set (node_children (nodes net ! n))" for n c
    using forestD(1,2) [OF shape(1), of n "unat c"] that by (auto simp: child_of_def)
  have mems: "mem_index m < length (memories net) \<longleftrightarrow>
      (\<exists>n < length (nodes net). node_memory (nodes net ! n) = Some m)" for m
    using shape(8,10) by blast
  show ?thesis by (intro conjI allI impI ballI paths children shape(7,9) mems)
qed

text \<open>
  C36: In every reachable alpha network the memory at the end of a chain of tests holds, in order of
  assertion, exactly the live facts of the entry kind that pass the tests, whether they were asserted
  before or after the memory was built, and the reverse index lists each memory of a fact once.
\<close>

theorem alpha_network_exact:
  assumes "alpha_reach content live net"
  shows "(\<forall>n m e ts. path (nodes net) n e ts \<longrightarrow> node_memory (nodes net ! n) = Some m \<longrightarrow>
      mem_facts (memories net ! mem_index m) = filter (\<lambda>i. path_matches e ts (content i)) live) \<and>
    (\<forall>i. distinct (memories_containing_fact net i) \<and> set (memories_containing_fact net i) =
      {m. mem_index m < length (memories net) \<and> i \<in> set (mem_facts (memories net ! mem_index m))})"
proof -
  note ok = alpha_reach_okD [OF assms]
  have "set (memories_containing_fact net i) =
      {m. mem_index m < length (memories net) \<and> i \<in> set (mem_facts (memories net ! mem_index m))}" for i
    using ok(6) [of i] by (simp add: holders_def)
  then show ?thesis using ok(5,8) by blast
qed

text \<open>
  Asserting a new fact always returns once the depth allowed exceeds the number of nodes, and it
  reports, each once, exactly the memories that hold the fact afterwards.
\<close>

theorem alpha_assert_returns:
  assumes "alpha_reach content live net" and "i \<notin> set live" and "length (nodes net) < fuel"
  shows "\<exists>ms net'. alpha_assert_fact fuel i (content i) net = Some (ms, net') \<and> distinct ms \<and>
    set ms = {m. mem_index m < length (memories net') \<and> i \<in> set (mem_facts (memories net' ! mem_index m))} \<and>
    alpha_reach content (live @ [i]) net'"
proof -
  obtain ms net' where res: "alpha_assert_fact fuel i (content i) net = Some (ms, net')"
    and ms: "distinct ms" "set ms = holders net' i"
    using net_ok_assert [OF alpha_reach_ok [OF assms(1)] assms(2,3)] by metis
  from alpha_reach.alpha_assert [OF assms res] res ms show ?thesis by (auto simp: holders_def)
qed

section \<open>A network with a test, built between two assertions\<close>

definition sample_entry_type :: alpha_entry_type where
  "sample_entry_type = EntryOrdered (Symbol (AsciiId 0))"

definition sample_test :: constant_test where
  "sample_test = ConstantTest (OrderedSlot 0) (TEqual (KInteger 2))"

definition sample_fact_base :: fact_base where
  "sample_fact_base = fact_base_new\<lparr>facts := [FactId 2 \<mapsto> \<lparr>entry_fact = sample_alpha_fact (FactId 2),
     entry_id = FactId 2, entry_timestamp = 7\<rparr>]\<rparr>"

definition sample_nodes :: alpha_network where
  "sample_nodes = snd (create_constant_test_node 0 sample_test (snd (create_entry_node sample_entry_type alpha_network_new)))"

definition sample_network :: alpha_network where
  "sample_network = (let (m, net) = create_memory 1 sample_nodes
     in the (backfill_memory [FactId 2] m sample_entry_type [sample_test] sample_fact_base net))"

lemma sample_facts [simp]:
  "evaluate_test (sample_alpha_fact (FactId 2)) sample_test" "\<not> evaluate_test (sample_alpha_fact (FactId 3)) sample_test"
  by (simp_all add: sample_alpha_fact_def sample_test_def evaluate_test_def get_slot_value_def evaluate_field_test.simps atom_key_matches_def)

lemma sample_nodes_simps:
  "nodes sample_nodes = [EntryNode sample_entry_type [1] None, TestNode sample_test [] None]"
  "memories sample_nodes = []" "fact_to_memories sample_nodes = Map.empty" "next_memory_id sample_nodes = 0"
  "next_node_id sample_nodes = 2" "entry_nodes sample_nodes = [sample_entry_type \<mapsto> 0]"
  by (simp_all add: sample_nodes_def create_constant_test_node_def create_entry_node_def alpha_network_new_def
      Let_def list_modify_def)

lemma sample_nodes_reach: "alpha_reach sample_alpha_fact [] sample_nodes"
proof -
  have "alpha_reach sample_alpha_fact [] (snd (create_entry_node sample_entry_type alpha_network_new))"
    by (rule alpha_entry [OF alpha_start _ prod.collapse [symmetric]]) (simp add: alpha_network_new_def)
  then show ?thesis
    unfolding sample_nodes_def
    by (rule alpha_test [OF _ _ _ prod.collapse [symmetric]])
      (simp_all add: create_entry_node_def alpha_network_new_def Let_def)
qed

lemma sample_path: "path (nodes sample_nodes) (Suc 0) sample_entry_type [sample_test]"
proof -
  have "path (nodes sample_nodes) 0 sample_entry_type []"
    by (rule path_entry) (simp_all add: sample_nodes_simps)
  from path_test [OF this, of "Suc 0" sample_test] show ?thesis
    by (simp add: sample_nodes_simps child_of_def)
qed

lemma sample_assert: "alpha_assert_fact 3 (FactId 2) (sample_alpha_fact (FactId 2)) sample_nodes = Some ([], sample_nodes)"
proof -
  have "entry_type_of (sample_alpha_fact (FactId 2)) = sample_entry_type"
    by (simp add: entry_type_of_def sample_alpha_fact_def sample_entry_type_def)
  then show ?thesis
    by (simp add: alpha_assert_fact_def sample_nodes_simps numeral_3_eq_3 list_get_def node_passes_def enter_memory_def)
qed

lemma sample_network_nodes: "nodes sample_network =
    [EntryNode sample_entry_type [1] None, TestNode sample_test [] (Some (AlphaMemoryId 0))]"
  and sample_network_reach: "alpha_reach sample_alpha_fact [FactId 2] sample_network"
proof -
  have live: "alpha_reach sample_alpha_fact [FactId 2] sample_nodes"
    using alpha_assert [OF sample_nodes_reach _ _ sample_assert] by (simp add: sample_nodes_simps)
  obtain m net where new: "create_memory 1 sample_nodes = (m, net)" by force
  then have m: "m = AlphaMemoryId 0" by (simp add: create_memory_def sample_nodes_simps Let_def)
  have base: "holds_live sample_alpha_fact [FactId 2] sample_fact_base [FactId 2]"
    by (simp add: holds_live_def agrees_def enumerates_def sample_fact_base_def fact_base_get_def)
  have room: "length (memories sample_nodes) < 2 ^ 32" "node_memory (nodes sample_nodes ! unat (1 :: u32)) = None"
    "path (nodes sample_nodes) (unat (1 :: u32)) sample_entry_type [sample_test]"
    using sample_path by (simp_all add: sample_nodes_simps)
  obtain net2 where fill: "backfill_memory [FactId 2] m sample_entry_type [sample_test] sample_fact_base net = Some net2"
    and nodes2: "nodes net2 = list_modify (unat (1 :: u32)) (set_node_memory (Some m)) (nodes sample_nodes)"
    using net_ok_memory [OF alpha_reach_ok [OF live] room(1,3,2) new base] by metis
  have "sample_network = net2" by (simp add: sample_network_def new fill)
  with nodes2 m show "nodes sample_network =
      [EntryNode sample_entry_type [1] None, TestNode sample_test [] (Some (AlphaMemoryId 0))]"
    by (simp add: sample_nodes_simps list_modify_def)
  show "alpha_reach sample_alpha_fact [FactId 2] sample_network"
    unfolding \<open>sample_network = net2\<close> by (rule alpha_memory [OF live room(1,3,2) new base fill])
qed

lemma sample_network_path: "path (nodes sample_network) (Suc 0) sample_entry_type [sample_test]"
proof -
  have "path (nodes sample_network) 0 sample_entry_type []"
    by (rule path_entry) (simp_all add: sample_network_nodes)
  from path_test [OF this, of "Suc 0" sample_test] show ?thesis
    by (simp add: sample_network_nodes child_of_def)
qed

theorem alpha_network_well_formed_witness: "\<exists>!p. path (nodes sample_network) 1 (fst p) (snd p)"
  using alpha_network_well_formed [OF sample_network_reach] by (simp add: sample_network_nodes)

theorem alpha_network_exact_witness: "mem_facts (memories sample_network ! 0) = [FactId 2]"
proof -
  have "mem_facts (memories sample_network ! mem_index (AlphaMemoryId 0)) =
      filter (\<lambda>i. path_matches sample_entry_type [sample_test] (sample_alpha_fact i)) [FactId 2]"
    by (rule alpha_network_exact [OF sample_network_reach, THEN conjunct1, rule_format, OF sample_network_path])
      (simp add: sample_network_nodes)
  then show ?thesis
    by (simp add: path_matches_def) (simp add: fact_matches_entry_type_def sample_entry_type_def sample_alpha_fact_def)
qed

theorem alpha_assert_returns_witness:
  "\<exists>ms net'. alpha_assert_fact 3 (FactId 3) (sample_alpha_fact (FactId 3)) sample_network = Some (ms, net') \<and> distinct ms"
  using alpha_assert_returns [OF sample_network_reach, of "FactId 3" 3] by (auto simp: sample_network_nodes)

end
