(* ===== verification/Rete_Building.thy ===== *)
theory Rete_Building
  imports Rete_Installation Alpha_Results
begin

text \<open>
  Building the match network. A new node is a leaf below a node that is there, with empty memories,
  so the network stays consistent whatever it holds; the rank of the new node is twice its id, and a
  conjunction node is ranked anew, above its partner, when the partner closes its subnetwork.
\<close>

section \<open>Growing graphs\<close>

text \<open>A node without what building changes later: its children and the partner of a conjunction.\<close>

fun skeleton :: "beta_node \<Rightarrow> beta_node" where
  "skeleton (Ncc p _ m k _) = Ncc p 0 m k []"
| "skeleton node = set_children [] node"

lemma skeleton_keeps [simp]:
  "own_memory (skeleton node) = own_memory node" "parent_node (skeleton node) = parent_node node"
  "side_memory (skeleton node) = side_memory node" "node_plan (skeleton node) = node_plan node"
  "child_nodes (skeleton node) = map_option (\<lambda>_. []) (child_nodes node)" "skeleton (set_children cs node) = skeleton node"
  "skeleton (skeleton node) = skeleton node"
  by (cases node; simp add: side_memory_def node_plan_def)+

lemma set_children_keeps [simp]:
  "own_memory (set_children cs node) = own_memory node" "parent_node (set_children cs node) = parent_node node"
  "side_memory (set_children cs node) = side_memory node" "node_plan (set_children cs node) = node_plan node"
  "child_nodes (set_children cs node) = map_option (\<lambda>_. cs) (child_nodes node)"
  by (cases node; simp add: side_memory_def node_plan_def)+

lemma skeleton_eqD:
  assumes "skeleton node' = skeleton node"
  shows "own_memory node' = own_memory node" "parent_node node' = parent_node node" "side_memory node' = side_memory node"
    "node_plan node' = node_plan node" "child_nodes node' = None \<longleftrightarrow> child_nodes node = None"
  using assms by (metis skeleton_keeps(1-5) option.map_disc_iff)+

lemma skeleton_cases:
  assumes "skeleton node' = skeleton node"
  shows "node = Join q a ts sq bs m cs \<Longrightarrow> \<exists>cs'. node' = Join q a ts sq bs m cs'"
    "node' = Join q a ts sq bs m cs \<Longrightarrow> \<exists>cs'. node = Join q a ts sq bs m cs'"
    "node = Predicate q rule c m cs \<Longrightarrow> \<exists>cs'. node' = Predicate q rule c m cs'"
    "node = Terminal q rule s x \<Longrightarrow> node' = node" "node = NccPartner q ncc k \<Longrightarrow> node' = node"
    "node' = NccPartner q ncc k \<Longrightarrow> node = NccPartner q ncc k"
    "node = Ncc q pl m k cs \<Longrightarrow> \<exists>pl' cs'. node' = Ncc q pl' m k cs'"
    "node = Root m cs \<Longrightarrow> \<exists>cs'. node' = Root m cs'"
    "node' = Root m cs \<Longrightarrow> \<exists>cs'. node = Root m cs'"
  using assms by (cases node; cases node'; simp)+

lemma derived_skeleton: "skeleton node' = skeleton node \<Longrightarrow> derived content node' = derived content node"
  by (cases node; cases node') (simp_all add: derived_def fun_eq_iff)

definition blank_memory :: "beta_memory \<Rightarrow> bool" where
  "blank_memory bm \<longleftrightarrow> bm_tokens bm = [] \<and> (\<forall>bind. beta_index_ok bind bm)"

definition blank_side :: "beta_network \<Rightarrow> beta_network \<Rightarrow> bool" where
  "blank_side net net' \<longleftrightarrow>
     (\<exists>new. beta_negs net' = beta_negs net @ new \<and> (\<forall>nm \<in> set new. unblocked nm = Map.empty \<and> blocked nm = Map.empty \<and> neg_kept nm)) \<and>
     (\<exists>new. beta_nccs net' = beta_nccs net @ new \<and>
        (\<forall>nm \<in> set new. ncc_unblocked nm = Map.empty \<and> result_owner nm = Map.empty \<and> ncc_kept nm)) \<and>
     (\<exists>new. beta_exists net' = beta_exists net @ new \<and> (\<forall>em \<in> set new. satisfied em = Map.empty))"

text \<open>The old nodes are there, the new ones have memories of their own.\<close>

definition grown :: "beta_network \<Rightarrow> beta_network \<Rightarrow> bool" where
  "grown net net' \<longleftrightarrow> root_id net' = root_id net \<and>
     (\<forall>k node. get_node net k = Some node \<longrightarrow> (\<exists>node'. get_node net' k = Some node' \<and> skeleton node' = skeleton node)) \<and>
     (\<exists>new. beta_memories net' = beta_memories net @ new \<and> (\<forall>bm \<in> set new. blank_memory bm)) \<and> blank_side net net' \<and>
     (\<forall>k node. get_node net' k = Some node \<longrightarrow> get_node net k = None \<longrightarrow>
        (\<forall>m. own_memory node = Some m \<longrightarrow> length (beta_memories net) \<le> beta_memory_index m) \<and>
        (\<forall>kind s. side_memory node = Some (kind, s) \<longrightarrow> side_count net kind \<le> unat s))"

lemma grownD:
  assumes "grown net net'"
  shows "root_id net' = root_id net"
    "get_node net k = Some node \<Longrightarrow> \<exists>node'. get_node net' k = Some node' \<and> skeleton node' = skeleton node"
    "\<exists>new. beta_memories net' = beta_memories net @ new \<and> (\<forall>bm \<in> set new. blank_memory bm)" "blank_side net net'"
    "get_node net' k = Some node \<Longrightarrow> get_node net k = None \<Longrightarrow> own_memory node = Some m \<Longrightarrow>
      length (beta_memories net) \<le> beta_memory_index m"
    "get_node net' k = Some node \<Longrightarrow> get_node net k = None \<Longrightarrow> side_memory node = Some (kind, s) \<Longrightarrow>
      side_count net kind \<le> unat s"
  using assms unfolding grown_def by blast+

lemma list_get_append: "list_get (xs @ ys) i = Some y \<Longrightarrow> list_get xs i = Some y \<or> length xs \<le> i \<and> y \<in> set ys"
  by (auto simp: list_get_def nth_append split: if_splits)

lemma list_get_prefix: "list_get xs i = Some x \<Longrightarrow> list_get (xs @ ys) i = Some x"
  by (auto simp: list_get_def nth_append split: if_splits)

lemma grown_node:
  assumes grown: "grown net net'" and node': "get_node net' k = Some node'"
  obtains node where "get_node net k = Some node" "skeleton node' = skeleton node" | "get_node net k = None"
  using grownD(2) [OF grown, of k] node' by (cases "get_node net k") auto

lemma grown_memory:
  assumes grown: "grown net net'" and graph: "graph_ok rank net" and bm: "node_memory_at net' k = Some bm"
  shows "node_memory_at net k = Some bm \<or> get_node net k = None \<and> blank_memory bm"
proof -
  obtain node' m where node': "get_node net' k = Some node'" "own_memory node' = Some m" "list_get (beta_memories net') (beta_memory_index m) = Some bm"
    using bm by (auto simp: node_memory_at_def memory_id_for_node_def get_memory_def bind_eq_Some_conv)
  obtain new where new: "beta_memories net' = beta_memories net @ new" "\<And>x. x \<in> set new \<Longrightarrow> blank_memory x"
    using grownD(3) [OF grown] by blast
  from grown node'(1) show ?thesis
  proof (cases rule: grown_node)
    case (1 node)
    have m: "own_memory node = Some m" using skeleton_eqD(1) [OF 1(2)] node'(2) by simp
    have "beta_memory_index m < length (beta_memories net)" by (rule graph_okD(9) [OF graph 1(1) m])
    then have "list_get (beta_memories net) (beta_memory_index m) = Some bm"
      using node'(3) by (simp add: new list_get_def nth_append)
    with 1 m show ?thesis by (simp add: node_memory_at_def memory_id_for_node_def get_memory_def)
  next
    case 2
    have "length (beta_memories net) \<le> beta_memory_index m" by (rule grownD(5) [OF grown node'(1) 2 node'(2)])
    then have "blank_memory bm" using node'(3) new by (auto simp: list_get_def nth_append split: if_splits)
    with 2 show ?thesis by blast
  qed
qed

lemma grown_memory_kept:
  assumes grown: "grown net net'" and bm: "node_memory_at net k = Some bm"
  shows "node_memory_at net' k = Some bm"
proof -
  obtain node m where node: "get_node net k = Some node" "own_memory node = Some m" "list_get (beta_memories net) (beta_memory_index m) = Some bm"
    using bm by (auto simp: node_memory_at_def memory_id_for_node_def get_memory_def bind_eq_Some_conv)
  obtain node' where node': "get_node net' k = Some node'" "skeleton node' = skeleton node" using grownD(2) [OF grown node(1)] by blast
  with node(2) skeleton_eqD(1) [OF node'(2)] grownD(3) [OF grown] node(3) show ?thesis
    by (auto simp: node_memory_at_def memory_id_for_node_def get_memory_def intro: list_get_prefix)
qed

section \<open>The network around a growing graph\<close>

lemma side_of_old:
  assumes grown: "grown net net'" and graph: "graph_ok rank net" and node: "get_node net k = Some node"
  shows "side_memory node = Some (0, s) \<Longrightarrow> get_neg_memory net' s = get_neg_memory net s"
    "side_memory node = Some (1, s) \<Longrightarrow> get_ncc_memory net' s = get_ncc_memory net s"
    "side_memory node = Some (2, s) \<Longrightarrow> get_exists_memory net' s = get_exists_memory net s"
proof -
  have less: "unat s < side_count net kind" if "side_memory node = Some (kind, s)" for kind
    using graph_okD(14) [OF graph] node that by (auto simp: counters_ok_def)
  note new = grownD(4) [OF grown, unfolded blank_side_def]
  show "side_memory node = Some (0, s) \<Longrightarrow> get_neg_memory net' s = get_neg_memory net s"
    "side_memory node = Some (1, s) \<Longrightarrow> get_ncc_memory net' s = get_ncc_memory net s"
    "side_memory node = Some (2, s) \<Longrightarrow> get_exists_memory net' s = get_exists_memory net s"
    using new less by (auto simp: get_neg_memory_def get_ncc_memory_def get_exists_memory_def list_get_def side_count_def nth_append)
qed

lemma side_of_new:
  assumes grown: "grown net net'" and node: "get_node net' k = Some node" "get_node net k = None"
  shows "side_memory node = Some (0, s) \<Longrightarrow> get_neg_memory net' s = Some nm \<Longrightarrow> unblocked nm = Map.empty \<and> blocked nm = Map.empty"
    "side_memory node = Some (1, s) \<Longrightarrow> get_ncc_memory net' s = Some cm \<Longrightarrow> ncc_unblocked cm = Map.empty \<and> result_owner cm = Map.empty"
    "side_memory node = Some (2, s) \<Longrightarrow> get_exists_memory net' s = Some em \<Longrightarrow> satisfied em = Map.empty"
proof -
  have le: "side_count net kind \<le> unat s" if "side_memory node = Some (kind, s)" for kind
    by (rule grownD(6) [OF grown node that])
  note new = grownD(4) [OF grown, unfolded blank_side_def]
  show "side_memory node = Some (0, s) \<Longrightarrow> get_neg_memory net' s = Some nm \<Longrightarrow> unblocked nm = Map.empty \<and> blocked nm = Map.empty"
    "side_memory node = Some (1, s) \<Longrightarrow> get_ncc_memory net' s = Some cm \<Longrightarrow> ncc_unblocked cm = Map.empty \<and> result_owner cm = Map.empty"
    "side_memory node = Some (2, s) \<Longrightarrow> get_exists_memory net' s = Some em \<Longrightarrow> satisfied em = Map.empty"
    using new le
    by (auto simp: get_neg_memory_def get_ncc_memory_def get_exists_memory_def list_get_def side_count_def nth_append split: if_splits)
qed

lemma owned_update_beta [simp]: "owned h (update_beta f r) = owned h r"
  by (simp add: owned_def issued_def fun_eq_iff)

lemma side_ok_grown:
  assumes inv: "rete_inv rank content live h outer r" and grown: "grown (r_beta r) net'" and node: "get_node net' k = Some node"
  shows "side_ok h (r\<lparr>r_beta := net'\<rparr>) k node"
  using grown node
proof (cases rule: grown_node)
  case (1 old)
  note i = rete_invD [OF inv]
  have old: "side_ok h r k old" using i(9) 1(1) by (simp add: sides_ok_def)
  note same = side_of_old [OF grown i(2) 1(1)]
  show ?thesis using old 1(2) same
    by (cases old; cases node; simp add: side_ok_def side_memory_def)
next
  case 2
  note fresh = side_of_new [OF grown node 2]
  show ?thesis using fresh by (cases node) (fastforce simp: side_ok_def side_memory_def)+
qed

lemma token_sound_grown:
  assumes sound: "token_sound content alpha net ts tok" and grown: "grown net net'"
  shows "token_sound content alpha net' ts tok"
proof -
  obtain node where node: "get_node net (tok_owner tok) = Some node" using sound by (auto simp: token_sound_def)
  obtain node' where node': "get_node net' (tok_owner tok) = Some node'" "skeleton node' = skeleton node"
    using grownD(2) [OF grown node] by blast
  note same = skeleton_eqD [OF node'(2)] derived_skeleton [OF node'(2)] skeleton_cases(2) [OF node'(2)]
  show ?thesis
    using sound node node'(1) same by (cases "tok_parent tok") (fastforce simp: token_sound_def)+
qed

lemma rete_inv_grown:
  assumes inv: "rete_inv rank content live h [] r" and still: "pending_ncc_results r = None"
    and grown: "grown (r_beta r) net'" and graph: "graph_ok rank' net'"
  shows "rete_inv rank' content live h [] (r\<lparr>r_beta := net'\<rparr>)"
proof -
  let ?net = "r_beta r" and ?r = "r\<lparr>r_beta := net'\<rparr>"
  note i = rete_invD [OF inv]
  have toks: "tokens_ok content h ?r"
    using i(4) token_sound_grown [OF _ grown] by (auto simp: tokens_ok_def issued_def)
  have owner: "get_node ?net (tok_owner tok) \<noteq> None" if "tokens (r_tokens r) t = Some tok" for t tok
    using i(4) that by (fastforce simp: tokens_ok_def token_sound_def)
  have mems: "memories_ok ?r" unfolding memories_ok_def
  proof (intro allI impI)
    fix n bm assume bm: "node_memory_at (r_beta ?r) n = Some bm"
    then have "node_memory_at ?net n = Some bm \<or> get_node ?net n = None \<and> blank_memory bm"
      using grown_memory [OF grown i(2)] by simp
    then show "beta_index_ok (bindings_of (r_tokens ?r)) bm \<and>
        set (bm_tokens bm) = {t. \<exists>tok. tokens (r_tokens ?r) t = Some tok \<and> tok_owner tok = n}"
    proof
      assume "node_memory_at ?net n = Some bm"
      with i(5) show ?thesis by (simp add: memories_ok_def)
    next
      assume "get_node ?net n = None \<and> blank_memory bm"
      with owner show ?thesis by (fastforce simp: blank_memory_def)
    qed
  qed
  have ag: "agenda_sound h ?r" unfolding agenda_sound_def
  proof (intro conjI allI impI)
    fix k a assume "activations (r_agenda ?r) k = Some a"
    then have old: "(\<exists>j < activations_issued r. k = activation_key h j) \<and> activation_sound ?net (r_tokens r) a"
      using i(7) by (simp add: agenda_sound_def)
    then show "\<exists>j < activations_issued ?r. k = activation_key h j" by simp
    from old obtain tok n where n: "tokens (r_tokens r) (act_token a) = Some tok"
      "get_node ?net n = Some (Terminal (tok_owner tok) (act_rule a) (act_salience a) (act_complexity a))"
      by (auto simp: activation_sound_def)
    obtain node' where "get_node net' n = Some node'" "skeleton node' = skeleton (Terminal (tok_owner tok) (act_rule a) (act_salience a) (act_complexity a))"
      using grownD(2) [OF grown n(2)] by blast
    then have "get_node net' n = Some (Terminal (tok_owner tok) (act_rule a) (act_salience a) (act_complexity a))"
      using skeleton_cases(4) [OF _ refl] by blast
    with n(1) show "activation_sound (r_beta ?r) (r_tokens ?r) a" by (auto simp: activation_sound_def)
  qed (use i(7) in \<open>simp add: agenda_sound_def\<close>)
  have sound: "event_sound h ?r e" if e: "event_sound h r e" for e
  proof (cases e)
    case (EvPredicate n t rule c)
    then obtain q m cs where n: "get_node ?net n = Some (Predicate q rule c m cs)" "owned h r t q"
      using e by (auto simp: event_sound_def)
    obtain node' where node': "get_node net' n = Some node'" "skeleton node' = skeleton (Predicate q rule c m cs)"
      using grownD(2) [OF grown n(1)] by blast
    from skeleton_cases(3) [OF node'(2) refl] node'(1) n(2) show ?thesis by (auto simp: event_sound_def EvPredicate)
  qed (simp_all add: event_sound_def)
  have sides: "sides_ok h ?r" using side_ok_grown [OF inv grown] by (simp add: sides_ok_def)
  have kept: "orders_kept (block_view ?r)"
    using i(10) grownD(4) [OF grown] by (auto simp: orders_kept_def block_view_def blank_side_def)
  show ?thesis
    using i(1,3,6,8,11) graph toks mems ag sides kept sound grownD(1) [OF grown] still
    by (auto simp: rete_inv_def root_ok_def events_ok_def batch_ok_def)
qed

text \<open>A memory that only indexes its tokens anew.\<close>

lemma rete_inv_indexed:
  assumes inv: "rete_inv rank content live h [] r" and still: "pending_ncc_results r = None"
    and tokens: "\<And>bm. bm_tokens (f bm) = bm_tokens bm"
    and index: "\<And>n bm. node_memory_at (r_beta r) n = Some bm \<Longrightarrow> beta_index_ok (bindings_of (r_tokens r)) (f bm)"
  shows "rete_inv rank content live h [] (update_beta (with_beta_memory m f) r)"
proof -
  let ?r = "update_beta (with_beta_memory m f) r"
  note i = rete_invD [OF inv]
  have own: "owned h ?r = owned h r" by simp
  have graph: "graph_ok rank (r_beta ?r)" using graph_ok_same [OF i(2)] by simp
  have mems: "memories_ok ?r" unfolding memories_ok_def
  proof (intro allI impI)
    fix n bm assume "node_memory_at (r_beta ?r) n = Some bm"
    then obtain bm0 where bm0: "node_memory_at (r_beta r) n = Some bm0" "bm = bm0 \<or> bm = f bm0"
      by (auto simp: node_memory_at_def get_memory_with bind_eq_Some_conv split: if_splits)
    with i(5) tokens index [OF bm0(1)] show "beta_index_ok (bindings_of (r_tokens ?r)) bm \<and>
        set (bm_tokens bm) = {t. \<exists>tok. tokens (r_tokens ?r) t = Some tok \<and> tok_owner tok = n}"
      by (auto simp: memories_ok_def)
  qed
  have side: "get_neg_memory (with_beta_memory m f net) = get_neg_memory net" "get_ncc_memory (with_beta_memory m f net) = get_ncc_memory net"
    "get_exists_memory (with_beta_memory m f net) = get_exists_memory net" for net
    by (simp_all add: fun_eq_iff get_neg_memory_def get_ncc_memory_def get_exists_memory_def with_beta_memory_def)
  have sides: "sides_ok h ?r"
    using i(9) by (simp add: sides_ok_def side_ok_def own side split: beta_node.split cong: beta_node.case_cong)
  have kept: "orders_kept (block_view ?r)"
    using i(10) by (simp add: orders_kept_def block_view_def with_beta_memory_def)
  have toks: "tokens_ok content h ?r" using i(4) by (simp add: tokens_ok_def token_sound_def issued_def)
  have ag: "agenda_sound h ?r" using i(7) by (simp add: agenda_sound_def activation_sound_def)
  have "event_sound h ?r e = event_sound h r e" for e by (cases e) (simp_all add: event_sound_def)
  then have evs: "events_ok h ?r" using i(8) by (simp add: events_ok_def)
  have root: "root_id (with_beta_memory m f (r_beta r)) = root_id (r_beta r)" by (simp add: with_beta_memory_def)
  show ?thesis
    using i(1,3,6,11) graph mems sides kept toks ag evs still by (simp add: rete_inv_def root_ok_def batch_ok_def root)
qed

section \<open>A new leaf\<close>

text \<open>Memories that are allocated with the node, or not at all.\<close>

definition allocates :: "nat \<Rightarrow> u32 option \<Rightarrow> u32 \<Rightarrow> u32 \<Rightarrow> nat \<Rightarrow> bool" where
  "allocates len own counter counter' len' \<longleftrightarrow>
     (case own of None \<Rightarrow> counter' = counter \<and> len' = len | Some k \<Rightarrow> k = counter \<and> counter' = counter + 1 \<and> len' = Suc len)"

definition side_index :: "nat \<Rightarrow> beta_node \<Rightarrow> u32 option" where
  "side_index kind node = (case side_memory node of None \<Rightarrow> None | Some (kind', k) \<Rightarrow> if kind' = kind then Some k else None)"

fun memory_number :: "beta_memory_id \<Rightarrow> u32" where
  "memory_number (BetaMemoryId m) = m"

text \<open>The graph after a node with a fresh id was put below \<open>p\<close>.\<close>

definition leaf_added :: "node_id \<Rightarrow> beta_node \<Rightarrow> node_id \<Rightarrow> beta_network \<Rightarrow> beta_network \<Rightarrow> bool" where
  "leaf_added n node p net net' \<longleftrightarrow> n = next_beta_node net \<and> next_beta_node net' = n + 1 \<and>
     (\<exists>above cs. get_node net p = Some above \<and> child_nodes above = Some cs \<and>
        beta_nodes net' = (beta_nodes net)(n \<mapsto> node, p \<mapsto> set_children (cs @ [n]) above)) \<and>
     parent_node node = Some p \<and> (child_nodes node = None \<or> child_nodes node = Some []) \<and> root_id net' = root_id net \<and>
     pattern_ok (node_plan node) \<and> ncc_entry_waits net' = ncc_entry_waits net \<and>
     allocates (length (beta_memories net)) (map_option memory_number (own_memory node)) (next_beta_memory net)
       (next_beta_memory net') (length (beta_memories net')) \<and>
     allocates (length (beta_negs net)) (side_index 0 node) (next_neg_memory net) (next_neg_memory net') (length (beta_negs net')) \<and>
     allocates (length (beta_nccs net)) (side_index 1 node) (next_ncc_memory net) (next_ncc_memory net') (length (beta_nccs net')) \<and>
     allocates (length (beta_exists net)) (side_index 2 node) (next_exists_memory net) (next_exists_memory net') (length (beta_exists net')) \<and>
     (\<forall>a. nodes_for_alpha (alpha_to_joins net') a = nodes_for_alpha (alpha_to_joins net) a \<or>
        nodes_for_alpha (alpha_to_joins net') a = nodes_for_alpha (alpha_to_joins net) a @ [n] \<and>
        (\<exists>ts sq bs m cs. node = Join p a ts sq bs m cs))"

text \<open>The ranks for the new graph: only those of the new node and of childless nodes without partner change.\<close>

definition ranks_extend :: "(node_id \<Rightarrow> nat) \<Rightarrow> (node_id \<Rightarrow> nat) \<Rightarrow> node_id \<Rightarrow> beta_node \<Rightarrow> node_id \<Rightarrow> beta_network \<Rightarrow> bool" where
  "ranks_extend rank rank' n node p net \<longleftrightarrow>
     (\<forall>k old cs. get_node net k = Some old \<longrightarrow> child_nodes old = Some cs \<longrightarrow> cs \<noteq> [] \<or> k = p \<longrightarrow> rank' k = rank k) \<and>
     (\<forall>k old. get_node net k = Some old \<longrightarrow> child_nodes old = None \<longrightarrow> rank' k = rank k) \<and>
     (\<forall>k old. get_node net k = Some old \<longrightarrow> rank k \<le> rank' k \<and> rank' k < 2 * unat n + 2) \<and>
     rank p < rank' n \<and> rank' n < 2 * unat n + 2 \<and>
     (\<forall>q ncc cm. node = NccPartner q ncc cm \<longrightarrow> rank' n < rank' ncc \<and>
        (\<exists>q m cs. get_node net ncc = Some (Ncc q n m cm cs)))"

lemma allocates_ok:
  assumes "allocates len own counter counter' len'" "counter = of_nat len" "len \<le> bound" "bound + 1 < 2 ^ 32"
  shows "counter' = of_nat len'" "len' \<le> bound + 1" "len \<le> len'"
    "own = Some k \<Longrightarrow> unat k = len \<and> len' = Suc len" "own = None \<Longrightarrow> len' = len"
  using assms by (auto simp: allocates_def unat_next split: option.splits)

lemma side_index_iff: "side_index kind node = Some k \<longleftrightarrow> side_memory node = Some (kind, k)"
  by (auto simp: side_index_def split: option.splits)

lemma side_kinds: "side_memory node = Some (kind, k) \<Longrightarrow> kind = 0 \<or> kind = 1 \<or> kind = 2"
  by (cases node) (auto simp: side_memory_def)

lemma leaf_counts:
  assumes graph: "graph_ok rank net" and leaf: "leaf_added n node p net net'" and room: "unat n + 1 < 2 ^ 32"
  shows "unat (next_beta_node net') = unat n + 1"
    "own_memory node = Some m \<Longrightarrow> beta_memory_index m = length (beta_memories net) \<and> length (beta_memories net') = Suc (length (beta_memories net))"
    "length (beta_memories net) \<le> length (beta_memories net')"
    "side_memory node = Some (kind, k) \<Longrightarrow> unat k = side_count net kind \<and> side_count net' kind = Suc (side_count net kind)"
    "side_count net kind \<le> side_count net' kind"
    "next_beta_memory net' = of_nat (length (beta_memories net'))" "next_neg_memory net' = of_nat (length (beta_negs net'))"
    "next_ncc_memory net' = of_nat (length (beta_nccs net'))" "next_exists_memory net' = of_nat (length (beta_exists net'))"
    "length (beta_memories net') \<le> unat n + 1" "length (beta_negs net') \<le> unat n + 1"
    "length (beta_nccs net') \<le> unat n + 1" "length (beta_exists net') \<le> unat n + 1"
proof -
  have c: "next_beta_memory net = of_nat (length (beta_memories net))" "next_neg_memory net = of_nat (length (beta_negs net))"
    "next_ncc_memory net = of_nat (length (beta_nccs net))" "next_exists_memory net = of_nat (length (beta_exists net))"
    "length (beta_memories net) \<le> unat n" "length (beta_negs net) \<le> unat n" "length (beta_nccs net) \<le> unat n" "length (beta_exists net) \<le> unat n"
    and n: "n = next_beta_node net"
    using graph_okD(14) [OF graph] leaf by (auto simp: counters_ok_def leaf_added_def)
  have a: "allocates (length (beta_memories net)) (map_option memory_number (own_memory node)) (next_beta_memory net) (next_beta_memory net') (length (beta_memories net'))"
    "allocates (length (beta_negs net)) (side_index 0 node) (next_neg_memory net) (next_neg_memory net') (length (beta_negs net'))"
    "allocates (length (beta_nccs net)) (side_index 1 node) (next_ncc_memory net) (next_ncc_memory net') (length (beta_nccs net'))"
    "allocates (length (beta_exists net)) (side_index 2 node) (next_exists_memory net) (next_exists_memory net') (length (beta_exists net'))"
    using leaf [unfolded leaf_added_def] by blast+
  note m = allocates_ok [OF a(1) c(1,5) room] and s0 = allocates_ok [OF a(2) c(2,6) room]
    and s1 = allocates_ok [OF a(3) c(3,7) room] and s2 = allocates_ok [OF a(4) c(4,8) room]
  show "unat (next_beta_node net') = unat n + 1"
  proof -
    have "unat (n + 1) = unat n + 1" using room unat_next [of "unat n + 1"] by (simp add: add.commute)
    then show ?thesis using leaf by (simp add: leaf_added_def)
  qed
  show "own_memory node = Some m \<Longrightarrow> beta_memory_index m = length (beta_memories net) \<and> length (beta_memories net') = Suc (length (beta_memories net))"
    using m(4) by (cases m) auto
  show "side_memory node = Some (kind, k) \<Longrightarrow> unat k = side_count net kind \<and> side_count net' kind = Suc (side_count net kind)"
    using s0(4) s1(4) s2(4) side_kinds [of node kind k] by (auto simp: side_index_iff side_count_def)
  show "side_count net kind \<le> side_count net' kind" using s0(3) s1(3) s2(3) by (simp add: side_count_def)
  show "next_beta_memory net' = of_nat (length (beta_memories net'))" "next_neg_memory net' = of_nat (length (beta_negs net'))"
    "next_ncc_memory net' = of_nat (length (beta_nccs net'))" "next_exists_memory net' = of_nat (length (beta_exists net'))"
    "length (beta_memories net) \<le> length (beta_memories net')" "length (beta_memories net') \<le> unat n + 1"
    "length (beta_negs net') \<le> unat n + 1" "length (beta_nccs net') \<le> unat n + 1" "length (beta_exists net') \<le> unat n + 1"
    using m(1-3) s0(1-3) s1(1-3) s2(1-3) by blast+
qed

lemma leaf_nodes:
  assumes graph: "graph_ok rank net" and leaf: "leaf_added n node p net net'"
  shows "\<exists>above cs. get_node net p = Some above \<and> child_nodes above = Some cs \<and> get_node net n = None \<and> n \<noteq> p \<and>
    (\<forall>k. get_node net' k = (if k = n then Some node else if k = p then Some (set_children (cs @ [n]) above) else get_node net k)) \<and>
    (\<forall>k x. get_node net' k = Some x \<longrightarrow> k \<noteq> n \<longrightarrow> (\<exists>old. get_node net k = Some old \<and> skeleton x = skeleton old)) \<and>
    (\<forall>k old. get_node net k = Some old \<longrightarrow> k \<noteq> n) \<and>
    (\<forall>k. k \<noteq> n \<longrightarrow> memory_id_for_node net' k = memory_id_for_node net k)"
proof -
  obtain above cs where above: "get_node net p = Some above" "child_nodes above = Some cs"
    "beta_nodes net' = (beta_nodes net)(n \<mapsto> node, p \<mapsto> set_children (cs @ [n]) above)"
    using leaf by (auto simp: leaf_added_def get_node_def)
  have old: "k \<noteq> n" if "get_node net k = Some old" for k old
    using graph_okD(14) [OF graph] leaf that by (auto simp: counters_ok_def leaf_added_def)
  then have fresh: "get_node net n = None" by (cases "get_node net n") auto
  have np: "n \<noteq> p" using old [OF above(1)] by simp
  have nodes: "get_node net' k = (if k = n then Some node else if k = p then Some (set_children (cs @ [n]) above) else get_node net k)" for k
    using above(3) np by (simp add: get_node_def)
  have "\<exists>old. get_node net k = Some old \<and> skeleton x = skeleton old" if "get_node net' k = Some x" "k \<noteq> n" for k x
    using that above(1) by (auto simp: nodes split: if_splits)
  moreover have "memory_id_for_node net' k = memory_id_for_node net k" if "k \<noteq> n" for k
    using that above(1) by (simp add: memory_id_for_node_def nodes)
  ultimately show ?thesis using above(1,2) fresh np nodes old by (intro exI [of _ above] exI [of _ cs]) blast
qed

lemma graph_ok_leaf:
  assumes graph: "graph_ok rank net" and leaf: "leaf_added n node p net net'" and room: "unat n + 1 < 2 ^ 32"
    and ranks: "ranks_extend rank rank' n node p net"
  shows "graph_ok rank' net'"
proof -
  note g = graph_okD [OF graph] and counts = leaf_counts [OF graph leaf room]
  obtain above cs where above: "get_node net p = Some above" "child_nodes above = Some cs" "get_node net n = None" "n \<noteq> p"
    and nodes: "\<And>k. get_node net' k = (if k = n then Some node else if k = p then Some (set_children (cs @ [n]) above) else get_node net k)"
    and old: "\<And>k x. get_node net' k = Some x \<Longrightarrow> k \<noteq> n \<Longrightarrow> \<exists>old. get_node net k = Some old \<and> skeleton x = skeleton old"
    and live: "\<And>k old. get_node net k = Some old \<Longrightarrow> k \<noteq> n"
    and mem: "\<And>k. k \<noteq> n \<Longrightarrow> memory_id_for_node net' k = memory_id_for_node net k"
    using leaf_nodes [OF graph leaf] by blast
  have node: "parent_node node = Some p" "child_nodes node = None \<or> child_nodes node = Some []" "root_id net' = root_id net"
    "pattern_ok (node_plan node)" "ncc_entry_waits net' = ncc_entry_waits net"
    and joins: "\<And>a. nodes_for_alpha (alpha_to_joins net') a = nodes_for_alpha (alpha_to_joins net) a \<or>
        nodes_for_alpha (alpha_to_joins net') a = nodes_for_alpha (alpha_to_joins net) a @ [n] \<and> (\<exists>ts sq bs m cs. node = Join p a ts sq bs m cs)"
    using leaf by (auto simp: leaf_added_def)
  have rank: "\<And>k old cs. get_node net k = Some old \<Longrightarrow> child_nodes old = Some cs \<Longrightarrow> cs \<noteq> [] \<or> k = p \<Longrightarrow> rank' k = rank k"
    "\<And>k old. get_node net k = Some old \<Longrightarrow> child_nodes old = None \<Longrightarrow> rank' k = rank k"
    "\<And>k old. get_node net k = Some old \<Longrightarrow> rank k \<le> rank' k \<and> rank' k < 2 * unat n + 2"
    "rank p < rank' n" "rank' n < 2 * unat n + 2"
    "\<And>q ncc cm. node = NccPartner q ncc cm \<Longrightarrow> rank' n < rank' ncc \<and> (\<exists>q m cs. get_node net ncc = Some (Ncc q n m cm cs))"
    using ranks unfolding ranks_extend_def by blast+
  have not_root: "\<And>m cs. node \<noteq> Root m cs" using node(1) by auto
  have kept: "\<exists>x. get_node net' k = Some x \<and> parent_node x = parent_node o'" if "get_node net k = Some o'" for k o'
    using that above live [OF that] by (auto simp: nodes)
  have 1: "\<exists>m cs. get_node net' (root_id net') = Some (Root m cs)"
  proof -
    obtain m cs' where r: "get_node net (root_id net) = Some (Root m cs')" using g(1) by blast
    with live [OF r] show ?thesis using above(1) by (cases "root_id net = p") (auto simp: nodes node(3))
  qed
  have 2: "k = root_id net'" if "get_node net' k = Some (Root m cs')" for k m cs'
  proof -
    have "k \<noteq> n" using that not_root by (auto simp: nodes)
    from old [OF that this] obtain o' where "get_node net k = Some o'" "skeleton (Root m cs') = skeleton o'" by blast
    with g(2) skeleton_cases(8) show ?thesis by (metis node(3))
  qed
  have 3: "rank' k < rank' c \<and> (\<exists>child. get_node net' c = Some child \<and> parent_node child = Some k)"
    if k: "get_node net' k = Some x" "child_nodes x = Some ks" "c \<in> set ks" for k x ks c
  proof -
    have kn: "k \<noteq> n" using k node(2) by (auto simp: nodes)
    show ?thesis
    proof (cases "k = p \<and> c = n")
      case True
      with above node rank(4) rank(1) [OF above(1,2)] show ?thesis by (auto simp: nodes)
    next
      case False
      then obtain o' ks' where o': "get_node net k = Some o'" "child_nodes o' = Some ks'" "c \<in> set ks'"
        using k kn above by (auto simp: nodes split: if_splits)
      from g(3) [OF o'] rank(1) [OF o'(1,2)] o'(3) have lt: "rank' k < rank c" by (cases ks') auto
      obtain child where child: "get_node net c = Some child" "parent_node child = Some k" using g(4) [OF o'] by blast
      from lt rank(3) [OF child(1)] kept [OF child(1)] child(2) show ?thesis by auto
    qed
  qed
  have 4: "\<exists>a ks. get_node net' q = Some a \<and> child_nodes a = Some ks \<and> k \<in> set ks"
    if k: "get_node net' k = Some x" "parent_node x = Some q" for k x q
  proof (cases "k = n")
    case True
    with k node(1) above show ?thesis by (auto simp: nodes)
  next
    case False
    from old [OF k(1) False] obtain o' where o': "get_node net k = Some o'" "skeleton x = skeleton o'" by blast
    then obtain a ks where a: "get_node net q = Some a" "child_nodes a = Some ks" "k \<in> set ks"
      using g(5) k(2) skeleton_eqD(2) by metis
    with above live [OF a(1)] show ?thesis by (auto simp: nodes)
  qed
  have 5: "rank' k < rank' ncc \<and> (\<exists>q m cs. get_node net' ncc = Some (Ncc q k m cm cs))"
    if k: "get_node net' k = Some (NccPartner q ncc cm)" for k q ncc cm
  proof -
    have still: "\<exists>q m cs. get_node net' ncc = Some (Ncc q k m cm cs)" if "\<exists>q m cs. get_node net ncc = Some (Ncc q k m cm cs)"
      using that above(1) live by (fastforce simp: nodes)
    show ?thesis
    proof (cases "k = n")
      case True
      with k rank(6) still show ?thesis by (simp add: nodes)
    next
      case False
      from old [OF k False] obtain o' where o': "get_node net k = Some o'" "skeleton (NccPartner q ncc cm) = skeleton o'" by blast
      then have eq: "get_node net k = Some (NccPartner q ncc cm)" using skeleton_cases(6) by metis
      from g(7) [OF eq] obtain q' m cs' where ncc: "get_node net ncc = Some (Ncc q' k m cm cs')" by blast
      have "rank' k = rank k" by (rule rank(2) [OF eq]) simp
      with g(6) [OF eq] rank(3) [OF ncc] still ncc show ?thesis by fastforce
    qed
  qed
  have less: "unat s < side_count net kind" if "get_node net k = Some o'" "side_memory o' = Some (kind, s)" for k o' kind s
    using g(14) that by (auto simp: counters_ok_def)
  have sides: "k = k'" if k: "get_node net' k = Some x" "get_node net' k' = Some x'" "side_memory x = Some s" "side_memory x' = Some s" for k k' x x' s
  proof -
    obtain kind i where s: "s = (kind, i)" by (cases s)
    have from_old: "\<exists>o'. get_node net k = Some o' \<and> side_memory o' = Some s" if "get_node net' k = Some x" "side_memory x = Some s" "k \<noteq> n" for k x
      using old [OF that(1,3)] that(2) skeleton_eqD(3) by metis
    have fresh: "k = n" if "get_node net' k = Some x" "side_memory x = Some s" "side_memory node = Some s" for k x
    proof (rule ccontr)
      assume "k \<noteq> n"
      from from_old [OF that(1,2) this] less counts(4) that(3) show False by (fastforce simp: s)
    qed
    show ?thesis
    proof (cases "k = n \<or> k' = n")
      case True
      then have "side_memory node = Some s" using k by (auto simp: nodes)
      with fresh k show ?thesis by blast
    next
      case False
      with from_old [OF k(1,3)] from_old [OF k(2,4)] g(8) show ?thesis by blast
    qed
  qed
  have own: "beta_memory_index m < length (beta_memories net')" if k: "get_node net' k = Some x" "own_memory x = Some m" for k x m
  proof (cases "k = n")
    case True
    with k counts(2) show ?thesis by (auto simp: nodes)
  next
    case False
    from old [OF k(1) False] obtain o' where "get_node net k = Some o'" "own_memory o' = Some m" using k(2) skeleton_eqD(1) by metis
    from g(9) [OF this] counts(3) show ?thesis by simp
  qed
  have alone: "k = k'" if k: "memory_id_for_node net' k = Some m" "memory_id_for_node net' k' = Some m" for k k' m
  proof -
    have fresh: "k = n" if "memory_id_for_node net' k = Some m" "own_memory node = Some m" for k
    proof (rule ccontr)
      assume "k \<noteq> n"
      then have "memory_id_for_node net k = Some m" using that(1) mem by simp
      then obtain o' where "get_node net k = Some o'" "own_memory o' = Some m" by (auto simp: memory_id_for_node_def bind_eq_Some_conv)
      from g(9) [OF this] counts(2) [OF that(2)] show False by simp
    qed
    show ?thesis
    proof (cases "k = n \<or> k' = n")
      case True
      then have "own_memory node = Some m" using k by (auto simp: memory_id_for_node_def nodes)
      with fresh k show ?thesis by blast
    next
      case False
      with k mem g(10) show ?thesis by metis
    qed
  qed
  have plans: "pattern_ok (node_plan x)" if k: "get_node net' k = Some x" for k x
  proof (cases "k = n")
    case True
    with k node(4) show ?thesis by (simp add: nodes)
  next
    case False
    from old [OF k False] g(11) skeleton_eqD(4) show ?thesis by metis
  qed
  have subs: "\<exists>q ts sq bs m cs. get_node net' k = Some (Join q a ts sq bs m cs)" if k: "k \<in> set (nodes_for_alpha (alpha_to_joins net') a)" for k a
  proof (cases "k \<in> set (nodes_for_alpha (alpha_to_joins net) a)")
    case True
    from g(12) [OF this] obtain q ts sq bs m cs' where "get_node net k = Some (Join q a ts sq bs m cs')" by blast
    with above(1) live show ?thesis by (fastforce simp: nodes)
  next
    case False
    with joins [of a] k have "k = n" "\<exists>ts sq bs m cs. node = Join p a ts sq bs m cs" by auto
    then show ?thesis by (auto simp: nodes)
  qed
  have counters: "counters_ok rank' net'" unfolding counters_ok_def
  proof (intro conjI allI impI)
    fix k x assume k: "get_node net' k = Some x"
    have "unat k \<le> unat n \<and> rank' k < 2 * unat n + 2"
    proof (cases "k = n")
      case False
      from old [OF k False] obtain o' where o': "get_node net k = Some o'" by blast
      then have "k < n" using g(14) leaf by (auto simp: counters_ok_def leaf_added_def)
      with rank(3) [OF o'] show ?thesis by (simp add: word_less_nat_alt)
    qed (use rank(5) in simp)
    then show "k < next_beta_node net'" "rank' k < 2 * unat (next_beta_node net')" by (simp_all add: word_less_nat_alt counts(1))
    fix kind s assume s: "side_memory x = Some (kind, s)"
    show "unat s < side_count net' kind"
    proof (cases "k = n")
      case True
      with k s counts(4) show ?thesis by (simp add: nodes)
    next
      case False
      from old [OF k False] obtain o' where "get_node net k = Some o'" "side_memory o' = Some (kind, s)" using s skeleton_eqD(3) by metis
      from less [OF this] counts(5) [of kind] show ?thesis by simp
    qed
  qed (use counts in simp_all)
  show ?thesis
    unfolding graph_ok_def using 1 2 3 4 5 sides own alone plans subs counters g(13) node(5) by (simp; blast)
qed

lemma leaf_grown:
  assumes graph: "graph_ok rank net" and leaf: "leaf_added n node p net net'" and room: "unat n + 1 < 2 ^ 32"
    and mems: "beta_memories net' = beta_memories net @ ms" "\<And>bm. bm \<in> set ms \<Longrightarrow> blank_memory bm" and side: "blank_side net net'"
  shows "grown net net'"
proof -
  note counts = leaf_counts [OF graph leaf room]
  obtain above cs where above: "get_node net p = Some above" "child_nodes above = Some cs" "get_node net n = None" "n \<noteq> p"
    and nodes: "\<And>k. get_node net' k = (if k = n then Some node else if k = p then Some (set_children (cs @ [n]) above) else get_node net k)"
    and live: "\<And>k old. get_node net k = Some old \<Longrightarrow> k \<noteq> n"
    using leaf_nodes [OF graph leaf] by blast
  have new: "k = n" if "get_node net' k = Some x" "get_node net k = None" for k x
    using that above(1) by (auto simp: nodes split: if_splits)
  have kept: "\<exists>x. get_node net' k = Some x \<and> skeleton x = skeleton old" if "get_node net k = Some old" for k old
    using that above(1) live [OF that] by (auto simp: nodes)
  show ?thesis
    unfolding grown_def
  proof (intro conjI allI impI)
    show "root_id net' = root_id net" using leaf by (simp add: leaf_added_def)
    show "\<exists>x. get_node net' k = Some x \<and> skeleton x = skeleton old" if "get_node net k = Some old" for k old by (rule kept [OF that])
    show "\<exists>new. beta_memories net' = beta_memories net @ new \<and> (\<forall>bm \<in> set new. blank_memory bm)" using mems by blast
    show "blank_side net net'" by (rule side)
    fix k x assume k: "get_node net' k = Some x" "get_node net k = None"
    then have x: "x = node" using new [OF k] by (simp add: nodes)
    show "length (beta_memories net) \<le> beta_memory_index m" if "own_memory x = Some m" for m
      using counts(2) that by (simp add: x)
    show "side_count net kind \<le> unat s" if "side_memory x = Some (kind, s)" for kind s
      using counts(4) that by (simp add: x)
  qed
qed

section \<open>The operations that add a leaf\<close>

definition usable :: "beta_network \<Rightarrow> node_id \<Rightarrow> bool" where
  "usable net p \<longleftrightarrow> (\<exists>node. get_node net p = Some node \<and> child_nodes node \<noteq> None)"

lemma usable_grown: "usable net p \<Longrightarrow> grown net net' \<Longrightarrow> usable net' p"
  unfolding usable_def using grownD(2) skeleton_eqD(5) by metis

lemma allocate_node_id_ok:
  "unat (next_beta_node net) + 1 < 2 ^ 32 \<Longrightarrow>
    allocate_node_id net = Inr (next_beta_node net, net\<lparr>next_beta_node := next_beta_node net + 1\<rparr>)"
  by (simp add: allocate_node_id_def checked_add_u_def)

lemma blank_new: "blank_memory (beta_memory_new m)"
  by (simp add: blank_memory_def beta_index_ok_new)

lemma blank_side_same:
  "beta_negs net' = beta_negs net \<Longrightarrow> beta_nccs net' = beta_nccs net \<Longrightarrow> beta_exists net' = beta_exists net \<Longrightarrow> blank_side net net'"
  by (simp add: blank_side_def)

lemma subscribe_nodes: "nodes_for_alpha (subscribe a n index) b = (if b = a then nodes_for_alpha index b @ [n] else nodes_for_alpha index b)"
  by (simp add: subscribe_def nodes_for_alpha_def)

lemma fresh_id: "graph_ok rank net \<Longrightarrow> get_node net k = Some node \<Longrightarrow> k \<noteq> next_beta_node net"
  using graph_okD(14) by (fastforce simp: counters_ok_def)

text \<open>The parent of a leaf, and what attaching does to the graph.\<close>

lemma attach_leaf:
  assumes graph: "graph_ok rank net" and p: "usable net p"
  obtains above cs where "get_node net p = Some above" "child_nodes above = Some cs" "p \<noteq> next_beta_node net"
    "\<And>net1. beta_nodes net1 = (beta_nodes net)(next_beta_node net \<mapsto> node) \<Longrightarrow>
      attach_child_to_parent p (next_beta_node net) net1 =
        net1\<lparr>beta_nodes := (beta_nodes net)(next_beta_node net \<mapsto> node, p \<mapsto> set_children (cs @ [next_beta_node net]) above)\<rparr>"
proof -
  obtain above cs where above: "get_node net p = Some above" "child_nodes above = Some cs" using p by (auto simp: usable_def)
  have "p \<noteq> next_beta_node net" by (rule fresh_id [OF graph above(1)])
  then show thesis
    using above by (intro that [of above cs]) (auto simp: attach_child_to_parent_def get_node_def)
qed

lemmas building_defs = leaf_added_def allocates_def side_index_def side_memory_def get_node_def allocate_beta_memory_def add_node_def
  subscribe_nodes pattern_ok_def node_plan_def

lemma join_leaf:
  assumes graph: "graph_ok rank net" and p: "usable net p" and room: "unat (next_beta_node net) + 1 < 2 ^ 32" and plan: "pattern_ok sq"
  shows "\<exists>m net1 net'. create_join_node p a tests bs net = Inr ((next_beta_node net, m), net1) \<and>
    set_sequence (next_beta_node net) sq net1 = Inr net' \<and>
    leaf_added (next_beta_node net) (Join p a tests sq bs m []) p net net' \<and> grown net net'"
proof -
  let ?n = "next_beta_node net" and ?m = "BetaMemoryId (next_beta_memory net)"
  let ?node = "Join p a tests None bs ?m []"
  obtain above cs where above: "get_node net p = Some above" "child_nodes above = Some cs" "p \<noteq> ?n"
    and attach: "\<And>net1. beta_nodes net1 = (beta_nodes net)(?n \<mapsto> ?node) \<Longrightarrow>
      attach_child_to_parent p ?n net1 = net1\<lparr>beta_nodes := (beta_nodes net)(?n \<mapsto> ?node, p \<mapsto> set_children (cs @ [?n]) above)\<rparr>"
    using attach_leaf [OF graph p] by metis
  define net1 where "net1 = net\<lparr>next_beta_node := ?n + 1, next_beta_memory := next_beta_memory net + 1,
    beta_memories := beta_memories net @ [beta_memory_new ?m],
    beta_nodes := (beta_nodes net)(?n \<mapsto> ?node, p \<mapsto> set_children (cs @ [?n]) above), alpha_to_joins := subscribe a ?n (alpha_to_joins net)\<rparr>"
  define net' where "net' = net1\<lparr>beta_nodes := (beta_nodes net)(?n \<mapsto> Join p a tests sq bs ?m [], p \<mapsto> set_children (cs @ [?n]) above)\<rparr>"
  have "create_join_node p a tests bs net = Inr ((?n, ?m), net1)"
    by (simp add: create_join_node_def allocate_node_id_ok [OF room] building_defs Let_def attach net1_def)
  moreover have "set_sequence ?n sq net1 = Inr net'"
    using above(3) by (simp add: set_sequence_def net1_def net'_def add_node_def fun_upd_twist)
  moreover have leaf: "leaf_added ?n (Join p a tests sq bs ?m []) p net net'"
    using above plan by (auto simp: net'_def net1_def building_defs)
  moreover have "grown net net'"
    by (rule leaf_grown [OF graph leaf room, of "[beta_memory_new ?m]"])
      (simp_all add: net'_def net1_def blank_new blank_side_same)
  ultimately show ?thesis by blast
qed

lemma negative_leaf:
  assumes graph: "graph_ok rank net" and p: "usable net p" and room: "unat (next_beta_node net) + 1 < 2 ^ 32" and plan: "pattern_ok sq"
  shows "\<exists>m k net1 net'. create_negative_node p a tests net = Inr ((next_beta_node net, m, k), net1) \<and>
    set_sequence (next_beta_node net) sq net1 = Inr net' \<and>
    leaf_added (next_beta_node net) (Negative p a tests sq m k []) p net net' \<and> grown net net'"
proof -
  let ?n = "next_beta_node net" and ?m = "BetaMemoryId (next_beta_memory net)" and ?k = "next_neg_memory net"
  let ?node = "Negative p a tests None ?m ?k []"
  obtain above cs where above: "get_node net p = Some above" "child_nodes above = Some cs" "p \<noteq> ?n"
    and attach: "\<And>net1. beta_nodes net1 = (beta_nodes net)(?n \<mapsto> ?node) \<Longrightarrow>
      attach_child_to_parent p ?n net1 = net1\<lparr>beta_nodes := (beta_nodes net)(?n \<mapsto> ?node, p \<mapsto> set_children (cs @ [?n]) above)\<rparr>"
    using attach_leaf [OF graph p] by metis
  define net1 where "net1 = net\<lparr>next_beta_node := ?n + 1, next_beta_memory := next_beta_memory net + 1,
    beta_memories := beta_memories net @ [beta_memory_new ?m], next_neg_memory := ?k + 1,
    beta_negs := beta_negs net @ [negative_memory_new ?k],
    beta_nodes := (beta_nodes net)(?n \<mapsto> ?node, p \<mapsto> set_children (cs @ [?n]) above), alpha_to_negatives := subscribe a ?n (alpha_to_negatives net)\<rparr>"
  define net' where "net' = net1\<lparr>beta_nodes := (beta_nodes net)(?n \<mapsto> Negative p a tests sq ?m ?k [], p \<mapsto> set_children (cs @ [?n]) above)\<rparr>"
  have "create_negative_node p a tests net = Inr ((?n, ?m, ?k), net1)"
    by (simp add: create_negative_node_def allocate_node_id_ok [OF room] building_defs Let_def attach net1_def)
  moreover have "set_sequence ?n sq net1 = Inr net'"
    using above(3) by (simp add: set_sequence_def net1_def net'_def add_node_def fun_upd_twist)
  moreover have leaf: "leaf_added ?n (Negative p a tests sq ?m ?k []) p net net'"
    using above plan by (auto simp: net'_def net1_def building_defs)
  moreover have "grown net net'"
    by (rule leaf_grown [OF graph leaf room, of "[beta_memory_new ?m]"])
      (simp_all add: net'_def net1_def blank_new blank_side_def negative_memory_new_def neg_kept_def)
  ultimately show ?thesis by blast
qed

lemma exists_leaf:
  assumes graph: "graph_ok rank net" and p: "usable net p" and room: "unat (next_beta_node net) + 1 < 2 ^ 32" and plan: "pattern_ok sq"
  shows "\<exists>m k net1 net'. create_exists_node p a tests net = Inr ((next_beta_node net, m, k), net1) \<and>
    set_sequence (next_beta_node net) sq net1 = Inr net' \<and>
    leaf_added (next_beta_node net) (Exists p a tests sq m k []) p net net' \<and> grown net net'"
proof -
  let ?n = "next_beta_node net" and ?m = "BetaMemoryId (next_beta_memory net)" and ?k = "next_exists_memory net"
  let ?node = "Exists p a tests None ?m ?k []"
  obtain above cs where above: "get_node net p = Some above" "child_nodes above = Some cs" "p \<noteq> ?n"
    and attach: "\<And>net1. beta_nodes net1 = (beta_nodes net)(?n \<mapsto> ?node) \<Longrightarrow>
      attach_child_to_parent p ?n net1 = net1\<lparr>beta_nodes := (beta_nodes net)(?n \<mapsto> ?node, p \<mapsto> set_children (cs @ [?n]) above)\<rparr>"
    using attach_leaf [OF graph p] by metis
  define net1 where "net1 = net\<lparr>next_beta_node := ?n + 1, next_beta_memory := next_beta_memory net + 1,
    beta_memories := beta_memories net @ [beta_memory_new ?m], next_exists_memory := ?k + 1,
    beta_exists := beta_exists net @ [exists_memory_new ?k],
    beta_nodes := (beta_nodes net)(?n \<mapsto> ?node, p \<mapsto> set_children (cs @ [?n]) above), alpha_to_exists := subscribe a ?n (alpha_to_exists net)\<rparr>"
  define net' where "net' = net1\<lparr>beta_nodes := (beta_nodes net)(?n \<mapsto> Exists p a tests sq ?m ?k [], p \<mapsto> set_children (cs @ [?n]) above)\<rparr>"
  have "create_exists_node p a tests net = Inr ((?n, ?m, ?k), net1)"
    by (simp add: create_exists_node_def allocate_node_id_ok [OF room] building_defs Let_def attach net1_def)
  moreover have "set_sequence ?n sq net1 = Inr net'"
    using above(3) by (simp add: set_sequence_def net1_def net'_def add_node_def fun_upd_twist)
  moreover have leaf: "leaf_added ?n (Exists p a tests sq ?m ?k []) p net net'"
    using above plan by (auto simp: net'_def net1_def building_defs)
  moreover have "grown net net'"
    by (rule leaf_grown [OF graph leaf room, of "[beta_memory_new ?m]"])
      (simp_all add: net'_def net1_def blank_new blank_side_def exists_memory_new_def)
  ultimately show ?thesis by blast
qed

lemma predicate_leaf:
  assumes graph: "graph_ok rank net" and p: "usable net p" and room: "unat (next_beta_node net) + 1 < 2 ^ 32"
  shows "\<exists>m net'. create_predicate_node p rule c net = Inr ((next_beta_node net, m), net') \<and>
    leaf_added (next_beta_node net) (Predicate p rule c m []) p net net' \<and> grown net net'"
proof -
  let ?n = "next_beta_node net" and ?m = "BetaMemoryId (next_beta_memory net)"
  let ?node = "Predicate p rule c ?m []"
  obtain above cs where above: "get_node net p = Some above" "child_nodes above = Some cs" "p \<noteq> ?n"
    and attach: "\<And>net1. beta_nodes net1 = (beta_nodes net)(?n \<mapsto> ?node) \<Longrightarrow>
      attach_child_to_parent p ?n net1 = net1\<lparr>beta_nodes := (beta_nodes net)(?n \<mapsto> ?node, p \<mapsto> set_children (cs @ [?n]) above)\<rparr>"
    using attach_leaf [OF graph p] by metis
  define net' where "net' = net\<lparr>next_beta_node := ?n + 1, next_beta_memory := next_beta_memory net + 1,
    beta_memories := beta_memories net @ [beta_memory_new ?m],
    beta_nodes := (beta_nodes net)(?n \<mapsto> ?node, p \<mapsto> set_children (cs @ [?n]) above)\<rparr>"
  have "create_predicate_node p rule c net = Inr ((?n, ?m), net')"
    by (simp add: create_predicate_node_def allocate_node_id_ok [OF room] building_defs Let_def attach net'_def)
  moreover have leaf: "leaf_added ?n ?node p net net'"
    using above by (auto simp: net'_def building_defs)
  moreover have "grown net net'"
    by (rule leaf_grown [OF graph leaf room, of "[beta_memory_new ?m]"]) (simp_all add: net'_def blank_new blank_side_same)
  ultimately show ?thesis by blast
qed

lemma terminal_leaf:
  assumes graph: "graph_ok rank net" and p: "usable net p" and room: "unat (next_beta_node net) + 1 < 2 ^ 32"
  shows "\<exists>net'. create_terminal_node p rule s c net = Inr (next_beta_node net, net') \<and>
    leaf_added (next_beta_node net) (Terminal p rule s (and c 0x07ff)) p net net' \<and> grown net net'"
proof -
  let ?n = "next_beta_node net"
  let ?node = "Terminal p rule s (and c 0x07ff)"
  obtain above cs where above: "get_node net p = Some above" "child_nodes above = Some cs" "p \<noteq> ?n"
    and attach: "\<And>net1. beta_nodes net1 = (beta_nodes net)(?n \<mapsto> ?node) \<Longrightarrow>
      attach_child_to_parent p ?n net1 = net1\<lparr>beta_nodes := (beta_nodes net)(?n \<mapsto> ?node, p \<mapsto> set_children (cs @ [?n]) above)\<rparr>"
    using attach_leaf [OF graph p] by metis
  define net' where "net' = net\<lparr>next_beta_node := ?n + 1,
    beta_nodes := (beta_nodes net)(?n \<mapsto> ?node, p \<mapsto> set_children (cs @ [?n]) above)\<rparr>"
  have "create_terminal_node p rule s c net = Inr (?n, net')"
    by (simp add: create_terminal_node_def allocate_node_id_ok [OF room] building_defs Let_def attach net'_def)
  moreover have leaf: "leaf_added ?n ?node p net net'"
    using above by (auto simp: net'_def building_defs)
  moreover have "grown net net'"
    by (rule leaf_grown [OF graph leaf room, of "[]"]) (simp_all add: net'_def blank_side_same)
  ultimately show ?thesis by blast
qed

text \<open>A conjunction node, with its memory and with ranks on the memory of its parent.\<close>

lemma usable_memory:
  assumes graph: "graph_ok rank net" and p: "usable net p"
  obtains m bm where "memory_id_for_node net p = Some m" "get_memory net m = Some bm"
proof -
  obtain m where "memory_id_for_node net p = Some m"
    using p own_memory_parent by (fastforce simp: usable_def memory_id_for_node_def)
  with graph show thesis by (metis node_memory_ex that)
qed

lemma ncc_leaf:
  assumes graph: "graph_ok rank net" and p: "usable net p" and room: "unat (next_beta_node net) + 1 < 2 ^ 32"
    and pm: "memory_id_for_node net p = Some pm" "get_memory net pm = Some bm"
  shows "\<exists>m k net1 net'. allocate_ncc_memory net = (k, net1) \<and> create_ncc_node p partner k net1 = Inr ((next_beta_node net, m), net') \<and>
    leaf_added (next_beta_node net) (Ncc p partner m k []) p (with_beta_memory pm enable_ncc_parent_ranks net) net' \<and>
    grown (with_beta_memory pm enable_ncc_parent_ranks net) net'"
proof -
  let ?net = "with_beta_memory pm enable_ncc_parent_ranks net"
  have same: "same_graph net ?net" by simp
  have graph0: "graph_ok rank ?net" by (rule graph_ok_same [OF graph same])
  have p0: "usable ?net p" using p by (simp add: usable_def)
  let ?n = "next_beta_node net" and ?m = "BetaMemoryId (next_beta_memory net)" and ?k = "next_ncc_memory net"
  have fields: "next_beta_node ?net = ?n" "next_beta_memory ?net = next_beta_memory net" "next_ncc_memory ?net = ?k"
    "beta_nodes ?net = beta_nodes net" "beta_negs ?net = beta_negs net" "beta_nccs ?net = beta_nccs net" "beta_exists ?net = beta_exists net"
    by (simp_all add: with_beta_memory_def)
  let ?node = "Ncc p partner ?m ?k []"
  obtain above cs where above: "get_node ?net p = Some above" "child_nodes above = Some cs" "p \<noteq> ?n"
    and attach: "\<And>net1. beta_nodes net1 = (beta_nodes net)(?n \<mapsto> ?node) \<Longrightarrow>
      attach_child_to_parent p ?n net1 = net1\<lparr>beta_nodes := (beta_nodes net)(?n \<mapsto> ?node, p \<mapsto> set_children (cs @ [?n]) above)\<rparr>"
    using attach_leaf [OF graph0 p0] unfolding fields by metis
  define net1 where "net1 = net\<lparr>next_ncc_memory := ?k + 1, beta_nccs := beta_nccs net @ [ncc_memory_new ?k]\<rparr>"
  define net2 where "net2 = ?net\<lparr>next_ncc_memory := ?k + 1, beta_nccs := beta_nccs net @ [ncc_memory_new ?k]\<rparr>"
  define net' where "net' = net2\<lparr>next_beta_node := ?n + 1, next_beta_memory := next_beta_memory net + 1,
    beta_memories := beta_memories ?net @ [beta_memory_new ?m],
    beta_nodes := (beta_nodes net)(?n \<mapsto> ?node, p \<mapsto> set_children (cs @ [?n]) above)\<rparr>"
  have 1: "allocate_ncc_memory net = (?k, net1)" by (simp add: allocate_ncc_memory_def net1_def Let_def)
  have mem: "memory_id_for_node net1 p = Some pm" "get_memory net1 pm = Some bm"
    using pm by (simp_all add: net1_def memory_id_for_node_def get_memory_def get_node_def)
  have swap: "with_beta_memory pm enable_ncc_parent_ranks net1 = net2" by (simp add: net1_def net2_def with_beta_memory_def)
  have alloc: "allocate_node_id net2 = Inr (?n, net2\<lparr>next_beta_node := ?n + 1\<rparr>)"
    using allocate_node_id_ok [of net2] room by (simp add: net2_def fields)
  have 2: "create_ncc_node p partner ?k net1 = Inr ((?n, ?m), net')"
    unfolding create_ncc_node_def mem or_stop_simps and_then_simps swap alloc
    by (simp add: building_defs Let_def net2_def fields attach net'_def)
  have leaf: "leaf_added ?n ?node p ?net net'"
    using above by (auto simp: net'_def net2_def building_defs fields)
  have "grown ?net net'"
    by (rule leaf_grown [OF graph0 leaf _, of "[beta_memory_new ?m]"])
      (use room in \<open>simp_all add: net'_def net2_def blank_new blank_side_def ncc_memory_new_def ncc_kept_def with_beta_memory_def\<close>)
  with 1 2 leaf show ?thesis by blast
qed

section \<open>Closing a subnetwork\<close>

text \<open>Children in another order, and another partner for a conjunction that has none yet.\<close>

definition same_wiring :: "beta_node \<Rightarrow> beta_node \<Rightarrow> bool" where
  "same_wiring a b \<longleftrightarrow> skeleton b = skeleton a \<and> map_option set (child_nodes b) = map_option set (child_nodes a)"

lemma graph_ok_rewired:
  assumes graph: "graph_ok rank net" and net': "net' = net\<lparr>beta_nodes := ns\<rparr>"
    and old: "\<And>k a. get_node net k = Some a \<Longrightarrow> \<exists>b. ns k = Some b \<and> same_wiring a b"
    and new: "\<And>k. get_node net k = None \<Longrightarrow> ns k = None"
    and partners: "\<And>n p ncc cm. get_node net n = Some (NccPartner p ncc cm) \<Longrightarrow> ns ncc = get_node net ncc \<or>
      (\<exists>q m k cs. ns ncc = Some (Ncc q n m k cs))"
  shows "graph_ok rank net'" "grown net net'"
proof -
  note g = graph_okD [OF graph]
  have get: "get_node net' k = ns k" for k by (simp add: net' get_node_def)
  have was: "\<exists>a. get_node net k = Some a \<and> same_wiring a b" if "ns k = Some b" for k b
    using that new [of k] old [of k] by (cases "get_node net k") auto
  have back_child: "\<exists>a cs. get_node net k = Some a \<and> child_nodes a = Some cs \<and> set cs = set bs"
    if b: "ns k = Some b" "child_nodes b = Some bs" for k b bs
  proof -
    obtain a where a: "get_node net k = Some a" "same_wiring a b" using was [OF b(1)] by blast
    with b(2) show ?thesis by (cases "child_nodes a") (auto simp: same_wiring_def)
  qed
  have back_parent: "\<exists>a. get_node net k = Some a \<and> parent_node a = parent_node b \<and> own_memory a = own_memory b \<and>
      side_memory a = side_memory b \<and> node_plan a = node_plan b" if b: "ns k = Some b" for k b
  proof -
    obtain a where a: "get_node net k = Some a" "skeleton b = skeleton a" using was [OF b] by (auto simp: same_wiring_def)
    from skeleton_eqD [OF a(2)] a(1) show ?thesis by simp
  qed
  have mem: "memory_id_for_node net' k = memory_id_for_node net k" for k
  proof (cases "get_node net k")
    case None
    with new [OF None] show ?thesis by (simp add: memory_id_for_node_def get)
  next
    case (Some a)
    then obtain b where b: "ns k = Some b" "skeleton b = skeleton a" using old [OF Some] by (auto simp: same_wiring_def)
    from skeleton_eqD(1) [OF b(2)] b(1) Some show ?thesis by (simp add: memory_id_for_node_def get)
  qed
  show grown: "grown net net'"
    unfolding grown_def
  proof (intro conjI allI impI)
    show "\<exists>x. get_node net' k = Some x \<and> skeleton x = skeleton a" if "get_node net k = Some a" for k a
      using old [OF that] by (auto simp: get same_wiring_def)
    fix k x assume "get_node net' k = Some x" "get_node net k = None"
    then have False using new [of k] by (simp add: get)
    then show "length (beta_memories net) \<le> beta_memory_index m" "side_count net kind \<le> unat s" for m kind s by blast+
  qed (simp_all add: net' blank_side_def)
  show "graph_ok rank net'"
    unfolding graph_ok_def
  proof (intro conjI allI impI)
    obtain m cs where "get_node net (root_id net) = Some (Root m cs)" using g(1) by blast
    then obtain b where b: "ns (root_id net) = Some b" "skeleton b = skeleton (Root m cs)" using old by (fastforce simp: same_wiring_def)
    from skeleton_cases(8) [OF b(2) refl] b(1) show "\<exists>m cs. get_node net' (root_id net') = Some (Root m cs)"
      by (auto simp: get) (auto simp: net')
    show "n = root_id net'" if n: "get_node net' n = Some (Root m cs)" for n m cs
    proof -
      from was [of n] n obtain a where a: "get_node net n = Some a" "skeleton (Root m cs) = skeleton a" by (auto simp: get same_wiring_def)
      from skeleton_cases(9) [OF a(2) refl] a(1) g(2) show ?thesis by (auto simp: net')
    qed
    fix n node
    assume n: "get_node net' n = Some node"
    then have ns: "ns n = Some node" by (simp add: get)
    show "rank n < rank c" "\<exists>child. get_node net' c = Some child \<and> parent_node child = Some n"
      if c: "child_nodes node = Some cs" "c \<in> set cs" for cs c
    proof -
      obtain a as where a: "get_node net n = Some a" "child_nodes a = Some as" "c \<in> set as" using back_child [OF ns c(1)] c(2) by blast
      from g(3) [OF a] show "rank n < rank c" .
      from g(4) [OF a] obtain child where child: "get_node net c = Some child" "parent_node child = Some n" by blast
      obtain b where b: "ns c = Some b" "skeleton b = skeleton child" using old [OF child(1)] by (auto simp: same_wiring_def)
      from skeleton_eqD(2) [OF b(2)] b(1) child(2) show "\<exists>child. get_node net' c = Some child \<and> parent_node child = Some n"
        by (simp add: get)
    qed
    show "\<exists>above cs. get_node net' p = Some above \<and> child_nodes above = Some cs \<and> n \<in> set cs" if p: "parent_node node = Some p" for p
    proof -
      obtain a where "get_node net n = Some a" "parent_node a = Some p" using back_parent [OF ns] p by auto
      from g(5) [OF this] obtain above cs where up: "get_node net p = Some above" "child_nodes above = Some cs" "n \<in> set cs" by blast
      obtain b where b: "ns p = Some b" "map_option set (child_nodes b) = Some (set cs)" using old [OF up(1)] up(2) by (auto simp: same_wiring_def)
      then obtain bs where "child_nodes b = Some bs" "set bs = set cs" by auto
      with b(1) up(3) show ?thesis by (auto simp: get)
    qed
    show "beta_memory_index m < length (beta_memories net')" if m: "own_memory node = Some m" for m
    proof -
      obtain a where "get_node net n = Some a" "own_memory a = Some m" using back_parent [OF ns] m by auto
      from g(9) [OF this] show ?thesis by (simp add: net')
    qed
    show "pattern_ok (node_plan node)" using back_parent [OF ns] g(11) by metis
    show "n = n'" if n': "get_node net' n' = Some node'" "side_memory node = Some k" "side_memory node' = Some k" for n' node' k
      using back_parent [OF ns] back_parent [of n' node'] n' g(8) by (metis get)
  next
    fix n p ncc cm assume n: "get_node net' n = Some (NccPartner p ncc cm)"
    then obtain a where a: "get_node net n = Some a" "skeleton (NccPartner p ncc cm) = skeleton a"
      using was [of n] by (auto simp: get same_wiring_def)
    then have n0: "get_node net n = Some (NccPartner p ncc cm)" using skeleton_cases(6) [OF a(2) [symmetric]] by (metis skeleton_cases(5))
    from g(6) [OF n0] show "rank n < rank ncc" .
    from g(7) [OF n0] obtain q m cs where ncc: "get_node net ncc = Some (Ncc q n m cm cs)" by blast
    obtain b where b: "ns ncc = Some b" "skeleton b = skeleton (Ncc q n m cm cs)" using old [OF ncc] by (auto simp: same_wiring_def)
    from skeleton_cases(7) [OF b(2) refl] obtain pl cs' where "b = Ncc q pl m cm cs'" by blast
    with partners [OF n0] b(1) ncc show "\<exists>q m cs. get_node net' ncc = Some (Ncc q n m cm cs)" by (auto simp: get)
  next
    show "n = n'" if "memory_id_for_node net' n = Some m" "memory_id_for_node net' n' = Some m" for n n' m
      using that mem g(10) by metis
  next
    fix a n assume "n \<in> set (nodes_for_alpha (alpha_to_joins net') a)"
    then have "\<exists>p ts sq bs m cs. get_node net n = Some (Join p a ts sq bs m cs)" using g(12) by (simp add: net')
    then obtain p ts sq bs m cs b where "ns n = Some b" "skeleton b = skeleton (Join p a ts sq bs m cs)"
      using old by (fastforce simp: same_wiring_def)
    with skeleton_cases(1) [OF this(2) refl] show "\<exists>p ts sq bs m cs. get_node net' n = Some (Join p a ts sq bs m cs)" by (auto simp: get)
  next
    show "ncc_entry_waits net' \<noteq> None" using g(13) by (simp add: net')
    have c: "counters_ok rank net" by (rule g(14))
    have same: "side_count net' = side_count net" by (simp add: fun_eq_iff side_count_def net')
    have nodes: "n < next_beta_node net \<and> rank n < 2 * unat (next_beta_node net)" if "ns n = Some node" for n node
      using back_parent [OF that] c by (auto simp: counters_ok_def)
    have sides: "unat k < side_count net kind" if b: "ns n = Some node" "side_memory node = Some (kind, k)" for n node kind k
    proof -
      obtain a where "get_node net n = Some a" "side_memory a = Some (kind, k)" using back_parent [OF b(1)] b(2) by auto
      then show ?thesis using c by (auto simp: counters_ok_def)
    qed
    show "counters_ok rank net'"
      unfolding counters_ok_def same get
    proof (intro conjI allI impI)
      fix n node assume n: "ns n = Some node"
      from nodes [OF n] show "n < next_beta_node net'" "rank n < 2 * unat (next_beta_node net')" by (simp_all add: net')
      show "unat k < side_count net kind" if "side_memory node = Some (kind, k)" for kind k by (rule sides [OF n that])
    qed (use c in \<open>simp_all add: counters_ok_def net'\<close>)
  qed
qed

lemma grown_trans:
  assumes a: "grown net net1" and b: "grown net1 net2"
  shows "grown net net2"
proof -
  obtain ms ms' where mems: "beta_memories net1 = beta_memories net @ ms" "\<And>bm. bm \<in> set ms \<Longrightarrow> blank_memory bm"
    "beta_memories net2 = beta_memories net1 @ ms'" "\<And>bm. bm \<in> set ms' \<Longrightarrow> blank_memory bm"
    using grownD(3) [OF a] grownD(3) [OF b] by blast
  have le: "side_count net kind \<le> side_count net1 kind" for kind
    using grownD(4) [OF a] by (auto simp: blank_side_def side_count_def)
  show ?thesis
    unfolding grown_def
  proof (intro conjI allI impI)
    show "root_id net2 = root_id net" using grownD(1) [OF a] grownD(1) [OF b] by simp
    show "\<exists>x. get_node net2 k = Some x \<and> skeleton x = skeleton node" if node: "get_node net k = Some node" for k node
    proof -
      obtain x where x: "get_node net1 k = Some x" "skeleton x = skeleton node" using grownD(2) [OF a node] by blast
      from grownD(2) [OF b x(1)] x(2) show ?thesis by simp
    qed
    show "\<exists>new. beta_memories net2 = beta_memories net @ new \<and> (\<forall>bm \<in> set new. blank_memory bm)"
      by (rule exI [of _ "ms @ ms'"]) (use mems in auto)
    show "blank_side net net2"
      using grownD(4) [OF a] grownD(4) [OF b] unfolding blank_side_def
      by (elim conjE exE) (intro conjI; rule exI [where x = "_ @ _"]; simp add: ball_Un)
    fix k node assume k: "get_node net2 k = Some node" "get_node net k = None"
    show "length (beta_memories net) \<le> beta_memory_index m" if m: "own_memory node = Some m" for m
    proof (cases "get_node net1 k")
      case None
      from grownD(5) [OF b k(1) None m] mems(1) show ?thesis by simp
    next
      case (Some x)
      then have "skeleton node = skeleton x" using grownD(2) [OF b Some] k(1) by auto
      from grownD(5) [OF a Some k(2)] skeleton_eqD(1) [OF this] m show ?thesis by simp
    qed
    show "side_count net kind \<le> unat s" if m: "side_memory node = Some (kind, s)" for kind s
    proof (cases "get_node net1 k")
      case None
      from grownD(6) [OF b k(1) None m] le [of kind] show ?thesis by simp
    next
      case (Some x)
      then have "skeleton node = skeleton x" using grownD(2) [OF b Some] k(1) by auto
      from grownD(6) [OF a Some k(2)] skeleton_eqD(3) [OF this] m show ?thesis by simp
    qed
  qed
qed

text \<open>A conjunction without children whose partner is still to come.\<close>

definition opened :: "beta_network \<Rightarrow> node_id \<Rightarrow> u32 \<Rightarrow> bool" where
  "opened net ncc k \<longleftrightarrow> (\<exists>q pl m. get_node net ncc = Some (Ncc q pl m k [])) \<and>
     (\<forall>n p c. get_node net n \<noteq> Some (NccPartner p ncc c))"

lemma opened_leaf:
  assumes graph: "graph_ok rank net" and leaf: "leaf_added n node p net net'" and ncc: "opened net ncc k"
    and other: "p \<noteq> ncc" "\<And>q c. node \<noteq> NccPartner q ncc c"
  shows "opened net' ncc k"
proof -
  obtain above cs where above: "get_node net p = Some above" "child_nodes above = Some cs"
    and nodes: "\<And>k. get_node net' k = (if k = n then Some node else if k = p then Some (set_children (cs @ [n]) above) else get_node net k)"
    and live: "\<And>k old. get_node net k = Some old \<Longrightarrow> k \<noteq> n"
    using leaf_nodes [OF graph leaf] by blast
  have "ncc \<noteq> n" using ncc live by (auto simp: opened_def)
  moreover have "set_children xs above \<noteq> NccPartner q c m" for xs q c m using above(2) by (cases above) simp_all
  ultimately show ?thesis using ncc other by (auto simp: opened_def nodes)
qed

lemma set_ncc_partner_eq: "get_node net ncc = Some (Ncc q pl m k cs) \<Longrightarrow>
    set_ncc_partner ncc n net = net\<lparr>beta_nodes := (beta_nodes net)(ncc \<mapsto> Ncc q n m k cs)\<rparr>"
  by (simp add: set_ncc_partner_def get_node_def add_node_def)

lemma partner_leaf:
  assumes graph: "graph_ok rank net" and p: "usable net p" and room: "unat (next_beta_node net) + 1 < 2 ^ 32"
    and ncc: "opened net ncc k" and other: "p \<noteq> ncc"
  shows "\<exists>net0 net1 net' rank'. create_ncc_partner p ncc k net = Inr (next_beta_node net, net1) \<and>
    set_ncc_partner ncc (next_beta_node net) net1 = net' \<and> grown net net' \<and> graph_ok rank' net' \<and>
    (\<exists>q m. net0 = net\<lparr>beta_nodes := (beta_nodes net)(ncc \<mapsto> Ncc q (next_beta_node net) m k [])\<rparr>) \<and> graph_ok rank net0 \<and>
    leaf_added (next_beta_node net) (NccPartner p ncc k) p net0 net'"
proof -
  let ?n = "next_beta_node net" and ?node = "NccPartner p ncc k"
  obtain q pl m where open_ncc: "get_node net ncc = Some (Ncc q pl m k [])" and none: "\<And>n p c. get_node net n \<noteq> Some (NccPartner p ncc c)"
    using ncc by (auto simp: opened_def)
  let ?ncc = "Ncc q ?n m k []"
  define net0 where "net0 = net\<lparr>beta_nodes := (beta_nodes net)(ncc \<mapsto> ?ncc)\<rparr>"
  have rewired: "graph_ok rank net0" "grown net net0"
    by (rule graph_ok_rewired [OF graph net0_def]; use open_ncc none in \<open>auto simp: get_node_def same_wiring_def\<close>)+
  obtain above cs where above: "get_node net p = Some above" "child_nodes above = Some cs" "p \<noteq> ?n"
    and attach: "\<And>net1. beta_nodes net1 = (beta_nodes net)(?n \<mapsto> ?node) \<Longrightarrow>
      attach_child_to_parent p ?n net1 = net1\<lparr>beta_nodes := (beta_nodes net)(?n \<mapsto> ?node, p \<mapsto> set_children (cs @ [?n]) above)\<rparr>"
    using attach_leaf [OF graph p] by metis
  have ncc_n: "ncc \<noteq> ?n" by (rule fresh_id [OF graph open_ncc])
  define net1 where "net1 = net\<lparr>next_beta_node := ?n + 1, beta_nodes := (beta_nodes net)(?n \<mapsto> ?node, p \<mapsto> set_children (cs @ [?n]) above)\<rparr>"
  define net' where "net' = net\<lparr>next_beta_node := ?n + 1,
    beta_nodes := (beta_nodes net)(ncc \<mapsto> ?ncc, ?n \<mapsto> ?node, p \<mapsto> set_children (cs @ [?n]) above)\<rparr>"
  have create: "create_ncc_partner p ncc k net = Inr (?n, net1)"
    by (simp add: create_ncc_partner_def allocate_node_id_ok [OF room] building_defs Let_def attach net1_def)
  have "get_node net1 ncc = Some (Ncc q pl m k [])" using open_ncc ncc_n other by (simp add: net1_def get_node_def)
  from set_ncc_partner_eq [OF this] have close: "set_ncc_partner ncc ?n net1 = net'"
    using ncc_n other above(3) by (simp add: net1_def net'_def fun_upd_twist)
  have leaf: "leaf_added ?n ?node p net0 net'"
    using above other by (auto simp: net'_def net0_def building_defs)
  have room0: "unat ?n + 1 < 2 ^ 32" by (rule room)
  have grown: "grown net0 net'"
    by (rule leaf_grown [OF rewired(1) leaf room0, of "[]"]) (simp_all add: net'_def net0_def blank_side_same)
  let ?rank = "rank(?n := 2 * unat ?n, ncc := 2 * unat ?n + 1)"
  have less: "rank j < 2 * unat ?n" if "get_node net0 j = Some x" for j x
    using graph_okD(14) [OF rewired(1)] that by (auto simp: counters_ok_def net0_def)
  have p0: "get_node net0 p = Some above" using above(1) other by (simp add: net0_def get_node_def)
  have old: "j \<noteq> ?n" if "get_node net0 j = Some x" for j x using fresh_id [OF rewired(1) that] by (simp add: net0_def)
  have childless: "child_nodes x = Some []" if "get_node net0 ncc = Some x" for x using that by (auto simp: net0_def get_node_def)
  have "ranks_extend rank ?rank ?n ?node p net0"
    unfolding ranks_extend_def
  proof (intro conjI allI impI)
    show "?rank j = rank j" if "get_node net0 j = Some x" "child_nodes x = Some ks" "ks \<noteq> [] \<or> j = p" for j x ks
      using that childless old [OF that(1)] other by auto
    show "?rank j = rank j" if "get_node net0 j = Some x" "child_nodes x = None" for j x
      using that childless old [OF that(1)] by auto
    show "rank j \<le> ?rank j" "?rank j < 2 * unat ?n + 2" if "get_node net0 j = Some x" for j x
      using less [OF that] by auto
    show "rank p < ?rank ?n" "?rank ?n < 2 * unat ?n + 2" using less [OF p0] ncc_n by auto
    show "?rank ?n < ?rank c" "\<exists>q m cs. get_node net0 c = Some (Ncc q ?n m x cs)" if "?node = NccPartner y c x" for y c x
      using that ncc_n by (auto simp: net0_def get_node_def)
  qed
  then have "graph_ok ?rank net'" by (rule graph_ok_leaf [OF rewired(1) leaf room0])
  with create close grown_trans [OF rewired(2) grown] rewired(1) leaf net0_def show ?thesis by blast
qed

lemma set_insert_at: "set (insert_at i x xs) = insert x (set xs)"
  using append_take_drop_id [of i xs] by (metis insert_at_def set_append Un_insert_right list.simps(15) )

lemma grown_refl [simp]: "grown net net"
  by (simp add: grown_def blank_side_def)

lemma opened_nodes: "opened net j k \<Longrightarrow> get_node net' j = get_node net j \<Longrightarrow>
    (\<And>n p c. get_node net' n = Some (NccPartner p j c) \<Longrightarrow> \<exists>n p c. get_node net n = Some (NccPartner p j c)) \<Longrightarrow> opened net' j k"
  unfolding opened_def by metis

lemma link_linked:
  assumes graph: "graph_ok rank net"
  shows "\<exists>net'. link_ncc_after_subnetwork ncc net = Some net' \<and> graph_ok rank net' \<and> grown net net' \<and>
    next_beta_node net' = next_beta_node net \<and> (\<forall>j k. opened net j k \<longrightarrow> opened net' j k)"
proof (cases "\<exists>parent partner m k cs. get_node net ncc = Some (Ncc parent partner m k cs) \<and> parent \<noteq> root_id net")
  case False
  then have "link_ncc_after_subnetwork ncc net = Some net"
    by (auto simp: link_ncc_after_subnetwork_def split: option.split beta_node.split)
  with graph show ?thesis by simp
next
  case True
  then obtain parent partner m k ks where ncc: "get_node net ncc = Some (Ncc parent partner m k ks)" "parent \<noteq> root_id net" by blast
  obtain pure where pure: "ncc_is_pure_double_negation net ncc = Some pure" using pure_returns(1) [OF graph] by blast
  obtain above cs where above: "get_node net parent = Some above" "child_nodes above = Some cs" "ncc \<in> set cs"
    using graph_okD(5) [OF graph ncc(1)] by auto
  have not_root: "\<forall>m cs. above \<noteq> Root m cs" using graph_okD(2) [OF graph] above(1) ncc(2) by blast
  let ?linked = "filter (\<lambda>c. c \<noteq> ncc) cs"
  define slot where "slot = (if pure then (case position (in_subnetwork ncc partner) ?linked of None \<Rightarrow> length ?linked - 1 | Some i \<Rightarrow> i)
    else length ?linked - 1)"
  let ?new = "set_children (insert_at slot ncc ?linked) above"
  define net' where "net' = net\<lparr>beta_nodes := (beta_nodes net)(parent \<mapsto> ?new)\<rparr>"
  have link: "link_ncc_after_subnetwork ncc net = Some net'"
    using ncc above not_root pure
    by (cases above) (simp_all add: link_ncc_after_subnetwork_def net'_def slot_def Let_def add_node_def cong: option.case_cong)
  have "set (insert_at slot ncc ?linked) = set cs" using above(3) by (auto simp: set_insert_at)
  then have wiring: "same_wiring above ?new" using above(2) by (simp add: same_wiring_def)
  have no_partner: "\<And>p c k. above \<noteq> NccPartner p c k" "\<And>p c k. ?new \<noteq> NccPartner p c k" using above(2) by (cases above; simp)+
  let ?ns = "(beta_nodes net)(parent \<mapsto> ?new)"
  have old: "\<exists>b. ?ns j = Some b \<and> same_wiring a b" if "get_node net j = Some a" for j a
    using that above(1) wiring by (auto simp: get_node_def same_wiring_def)
  have none: "?ns j = None" if "get_node net j = None" for j using that above(1) by (auto simp: get_node_def)
  have partners: "?ns c = get_node net c \<or> (\<exists>q m k cs. ?ns c = Some (Ncc q n m k cs))"
    if n: "get_node net n = Some (NccPartner p c cm)" for n p c cm
    using graph_okD(7) [OF graph n] above(1) by (auto simp: get_node_def)
  have rewired: "graph_ok rank net'" "grown net net'" by (rule graph_ok_rewired [OF graph net'_def old none partners]; assumption)+
  have "opened net' j i" if o: "opened net j i" for j i
  proof (rule opened_nodes [OF o])
    have "j \<noteq> parent" using o above by (auto simp: opened_def)
    then show "get_node net' j = get_node net j" by (simp add: net'_def get_node_def)
    show "\<exists>n p c. get_node net n = Some (NccPartner p j c)" if "get_node net' n = Some (NccPartner p j c)" for n p c
      using that no_partner by (auto simp: net'_def get_node_def split: if_splits)
  qed
  with link rewired show ?thesis by (simp add: net'_def)
qed

lemma register_registered:
  assumes graph: "graph_ok rank net"
  shows "\<exists>net'. register_ncc_entry_wait ncc nested net = Some net' \<and> graph_ok rank net' \<and> grown net net' \<and>
    next_beta_node net' = next_beta_node net \<and> (\<forall>j k. opened net j k \<longrightarrow> opened net' j k)"
proof -
  obtain entry where entry: "ncc_subnetwork_entry net ncc = Some entry" using pure_returns(2) [OF graph] by blast
  obtain pure where pure: "ncc_is_pure_double_negation net ncc = Some pure" using pure_returns(1) [OF graph] by blast
  obtain w where w: "entry_wait_of net ncc nested = Some w" by (cases entry) (auto simp: entry_wait_of_def entry pure)
  obtain waits where waits: "ncc_entry_waits net = Some waits" using graph_okD(13) [OF graph] by blast
  have get: "get_node (net\<lparr>ncc_entry_waits := x\<rparr>) = get_node net" for x by (simp add: get_node_def fun_eq_iff)
  have mem: "memory_id_for_node (net\<lparr>ncc_entry_waits := x\<rparr>) = memory_id_for_node net" for x by (simp add: get memory_id_for_node_def fun_eq_iff)
  have count: "side_count (net\<lparr>ncc_entry_waits := x\<rparr>) = side_count net" for x by (simp add: side_count_def fun_eq_iff)
  have c: "counters_ok rank (net\<lparr>ncc_entry_waits := x\<rparr>)" for x
    using graph_okD(14) [OF graph] by (simp add: counters_ok_def get count)
  have g: "graph_ok rank (net\<lparr>ncc_entry_waits := Some x\<rparr>)" for x
    using graph c unfolding graph_ok_def get mem by simp
  have grown: "grown net (net\<lparr>ncc_entry_waits := x\<rparr>)" for x
    unfolding grown_def get by (simp add: blank_side_def)
  have "opened (net\<lparr>ncc_entry_waits := x\<rparr>) j k" if "opened net j k" for x j k using that by (simp add: opened_def get)
  with g grown graph show ?thesis
    by (cases w) (simp_all add: register_ncc_entry_wait_def w waits)
qed

section \<open>Steady networks\<close>

text \<open>A network between two operations, with a bound for its recursions that can be computed.\<close>

definition depth_bound :: "rete \<Rightarrow> nat" where
  "depth_bound r = 2 * unat (next_beta_node (r_beta r)) + length (nodes (r_alpha r))"

definition steady :: "(fact_id \<Rightarrow> fact) \<Rightarrow> fact_id list \<Rightarrow> host \<Rightarrow> rete \<Rightarrow> bool" where
  "steady content live h r \<longleftrightarrow> (\<exists>rank. at_rest rank content live h (depth_bound r) r)"

lemma at_rest_steady:
  assumes rest: "at_rest rank content live h N r"
  shows "steady content live h r"
proof -
  have "graph_ok rank (r_beta r)" using rete_invD(2) [OF at_restD(1) [OF rest]] .
  then have "rank n < depth_bound r" if "get_node (r_beta r) n = Some node" for n node
    using graph_okD(14) that by (fastforce simp: counters_ok_def depth_bound_def)
  with rest show ?thesis unfolding steady_def at_rest_def by (auto simp: depth_bound_def)
qed

lemma steadyE:
  assumes "steady content live h r"
  obtains rank where "at_rest rank content live h (depth_bound r) r" "graph_ok rank (r_beta r)" "pending_ncc_results r = None"
  using assms at_restD(1,2) rete_invD(2) unfolding steady_def by metis

lemma steady_grown:
  assumes steady: "steady content live h r" and grown: "grown (r_beta r) net'" and graph: "graph_ok rank' net'"
  shows "steady content live h (r\<lparr>r_beta := net'\<rparr>)"
proof -
  let ?r = "r\<lparr>r_beta := net'\<rparr>"
  obtain rank where rest: "at_rest rank content live h (depth_bound r) r" and still: "pending_ncc_results r = None"
    using steady by (rule steadyE)
  have inv: "rete_inv rank' content live h [] ?r" by (rule rete_inv_grown [OF at_restD(1) [OF rest] still grown graph])
  have "rank' n < depth_bound ?r" if "get_node net' n = Some node" for n node
    using graph_okD(14) [OF graph] that by (fastforce simp: counters_ok_def depth_bound_def)
  with inv still show ?thesis
    unfolding steady_def at_rest_def by (intro exI [of _ rank']) (auto simp: depth_bound_def)
qed

lemma steady_leaf:
  assumes steady: "steady content live h r" and graph: "graph_ok rank (r_beta r)" and room: "unat n + 1 < 2 ^ 32"
    and leaf: "leaf_added n node p (r_beta r) net'" and grown: "grown (r_beta r) net'" and plain: "\<And>q ncc cm. node \<noteq> NccPartner q ncc cm"
  shows "steady content live h (r\<lparr>r_beta := net'\<rparr>)"
proof -
  let ?rank = "rank(n := 2 * unat n)"
  have n: "n = next_beta_node (r_beta r)" using leaf by (simp add: leaf_added_def)
  have old: "j \<noteq> n \<and> rank j < 2 * unat n" if "get_node (r_beta r) j = Some x" for j x
    using graph_okD(14) [OF graph] that by (auto simp: counters_ok_def n)
  obtain above where above: "get_node (r_beta r) p = Some above" using leaf by (auto simp: leaf_added_def)
  have "ranks_extend rank ?rank n node p (r_beta r)"
    unfolding ranks_extend_def using old [OF above] plain by (auto dest: old)
  then have "graph_ok ?rank net'" by (rule graph_ok_leaf [OF graph leaf room])
  with steady grown show ?thesis by (rule steady_grown)
qed

end
