(* ===== verification/Alpha_Growth.thy ===== *)
theory Alpha_Growth
  imports Rete_Building
begin

text \<open>
  New alpha nodes, memories and indexes under a match network: what the memories held they still
  hold, so tokens and activations stay sound.
\<close>

section \<open>Growing alpha networks\<close>

definition alpha_grown :: "alpha_network \<Rightarrow> alpha_network \<Rightarrow> bool" where
  "alpha_grown net net' \<longleftrightarrow> grows (nodes net) (nodes net') \<and>
     (\<forall>k m. k < length (nodes net) \<longrightarrow> node_memory (nodes net ! k) = Some m \<longrightarrow> node_memory (nodes net' ! k) = Some m)"

lemma same_kind_trans: "same_kind a b \<Longrightarrow> same_kind b c \<Longrightarrow> same_kind a c"
  by (cases a; cases b; auto simp: same_kind_def)

lemma alpha_grown_refl [simp]: "alpha_grown net net"
  by (simp add: alpha_grown_def grows_def)

lemma alpha_grown_nodes: "nodes net' = nodes net \<Longrightarrow> alpha_grown net net'"
  by (simp add: alpha_grown_def grows_def)

lemma alpha_grown_trans: "alpha_grown net net1 \<Longrightarrow> alpha_grown net1 net2 \<Longrightarrow> alpha_grown net net2"
  unfolding alpha_grown_def grows_def using same_kind_trans by (meson le_trans less_le_trans)

lemma alpha_grown_length: "alpha_grown net net' \<Longrightarrow> length (nodes net) \<le> length (nodes net')"
  by (simp add: alpha_grown_def grows_def)

text \<open>A memory keeps its path, and with it its facts.\<close>

definition memory_path :: "alpha_network \<Rightarrow> alpha_memory_id \<Rightarrow> alpha_entry_type \<Rightarrow> constant_test list \<Rightarrow> bool" where
  "memory_path net m e ts \<longleftrightarrow> (\<exists>k. path (nodes net) k e ts \<and> node_memory (nodes net ! k) = Some m)"

lemma memory_path_grown: "memory_path net m e ts \<Longrightarrow> alpha_grown net net' \<Longrightarrow> memory_path net' m e ts"
  unfolding memory_path_def alpha_grown_def using path_grows path_less by blast

lemma memory_path_facts:
  assumes ok: "net_ok content live net" and p: "memory_path net m e ts"
  obtains am where "alpha_memory_at net m = Some am" "mem_facts am = filter (\<lambda>i. path_matches e ts (content i)) live"
proof -
  obtain k where k: "path (nodes net) k e ts" "node_memory (nodes net ! k) = Some m" using p by (auto simp: memory_path_def)
  have "mem_index m < length (memories net)" by (rule net_shapeD(8) [OF net_okD(1) [OF ok] path_less [OF k(1)] k(2)])
  with net_okD(8) [OF ok k] show thesis
    by (intro that [of "memories net ! mem_index m"]) (simp_all add: alpha_memory_at_def list_get_def)
qed

lemma memory_has_path:
  assumes ok: "net_ok content live net" and m: "alpha_memory_at net m = Some am"
  obtains e ts where "memory_path net m e ts"
proof -
  have "mem_index m < length (memories net)" using m by (auto simp: alpha_memory_at_def list_get_def split: if_splits)
  then obtain k where k: "k < length (nodes net)" "node_memory (nodes net ! k) = Some m"
    using net_shapeD(10) [OF net_okD(1) [OF ok]] by blast
  from net_shapeD(2) [OF net_okD(1) [OF ok] k(1)] k(2) that show thesis by (auto simp: memory_path_def)
qed

lemma alpha_grown_facts:
  assumes ok: "net_ok content live net" "net_ok content live net'" and grown: "alpha_grown net net'"
    and m: "alpha_memory_at net m = Some am"
  shows "\<exists>am'. alpha_memory_at net' m = Some am' \<and> mem_facts am' = mem_facts am"
proof -
  obtain e ts where p: "memory_path net m e ts" by (rule memory_has_path [OF ok(1) m])
  obtain am0 where am0: "alpha_memory_at net m = Some am0" "mem_facts am0 = filter (\<lambda>i. path_matches e ts (content i)) live"
    by (rule memory_path_facts [OF ok(1) p])
  obtain am' where "alpha_memory_at net' m = Some am'" "mem_facts am' = filter (\<lambda>i. path_matches e ts (content i)) live"
    by (rule memory_path_facts [OF ok(2) memory_path_grown [OF p grown]])
  with am0 m show ?thesis by simp
qed

section \<open>Steady networks\<close>

lemma rete_inv_alpha_grown:
  assumes inv: "rete_inv rank content live h [] r" and ok: "net_ok content live alpha" and grown: "alpha_grown (r_alpha r) alpha"
  shows "rete_inv rank content live h [] (r\<lparr>r_alpha := alpha\<rparr>)"
proof -
  let ?r = "r\<lparr>r_alpha := alpha\<rparr>"
  note i = rete_invD [OF inv]
  note kept = alpha_grown_facts [OF i(3) ok grown]
  have sound: "token_sound content alpha (r_beta r) (r_tokens r) tok"
    if old: "token_sound content (r_alpha r) (r_beta r) (r_tokens r) tok" for tok
  proof -
    have still: "\<exists>am'. alpha_memory_at alpha a = Some am' \<and> f \<in> set (mem_facts am')"
      if "\<exists>am. alpha_memory_at (r_alpha r) a = Some am \<and> f \<in> set (mem_facts am)" for a f
      using that kept by fastforce
    from old obtain node where "get_node (r_beta r) (tok_owner tok) = Some node" by (auto simp: token_sound_def)
    with old still show ?thesis by (simp add: token_sound_def)
  qed
  have iss: "issued h ?r = issued h r" by (simp add: fun_eq_iff issued_def)
  have own: "owned h ?r = owned h r" by (simp add: fun_eq_iff owned_def iss)
  have toks: "tokens_ok content h ?r" using i(4) sound by (simp add: tokens_ok_def iss)
  have evs: "events_ok h ?r"
  proof -
    have "event_sound h ?r e = event_sound h r e" for e by (cases e) (simp_all add: event_sound_def own)
    with i(8) show ?thesis by (simp add: events_ok_def)
  qed
  have side: "side_ok h ?r n node = side_ok h r n node" for n node by (cases node) (simp_all add: side_ok_def own)
  have batch: "batch_ok h [] ?r"
  proof -
    have "result_sound h ?r e = result_sound h r e" for e by (simp add: result_sound_def own)
    with i(11) show ?thesis by (cases "pending_ncc_results r") (simp_all add: batch_ok_def)
  qed
  show ?thesis
    using i(1,2,5,6,7,9,10) ok toks evs batch
    by (simp add: rete_inv_def memories_ok_def root_ok_def agenda_sound_def sides_ok_def side block_view_def)
qed

lemma steady_alpha:
  assumes steady: "steady content live h r" and ok: "net_ok content live alpha" and grown: "alpha_grown (r_alpha r) alpha"
  shows "steady content live h (r\<lparr>r_alpha := alpha\<rparr>)"
proof -
  obtain rank where rest: "at_rest rank content live h (depth_bound r) r" "pending_ncc_results r = None"
    using steady by (rule steadyE)
  have "at_rest rank content live h (depth_bound (r\<lparr>r_alpha := alpha\<rparr>)) (r\<lparr>r_alpha := alpha\<rparr>)"
    using rete_inv_alpha_grown [OF at_restD(1) [OF rest(1)] ok grown] rest alpha_grown_length [OF grown]
    by (auto simp: at_rest_def depth_bound_def intro: less_le_trans)
  then show ?thesis by (auto simp: steady_def)
qed

lemma steady_net: "steady content live h r \<Longrightarrow> net_ok content live (r_alpha r)"
  using at_restD(1) rete_invD(3) unfolding steady_def by blast

text \<open>Indexes on beta memories and ranks of the parents of conjunctions.\<close>

lemma steady_touched:
  assumes steady: "steady content live h r" and tokens: "\<And>bm. bm_tokens (f bm) = bm_tokens bm"
    and index: "\<And>n bm rank. rete_inv rank content live h [] r \<Longrightarrow> node_memory_at (r_beta r) n = Some bm \<Longrightarrow>
      beta_index_ok (bindings_of (r_tokens r)) bm \<Longrightarrow> beta_index_ok (bindings_of (r_tokens r)) (f bm)"
  shows "steady content live h (update_beta (with_beta_memory m f) r)"
proof -
  obtain rank where rest: "at_rest rank content live h (depth_bound r) r" "pending_ncc_results r = None"
    using steady by (rule steadyE)
  note inv = at_restD(1) [OF rest(1)]
  have "rete_inv rank content live h [] (update_beta (with_beta_memory m f) r)"
    by (rule rete_inv_indexed [OF inv rest(2) tokens index [OF inv]])
      (use rete_invD(5) [OF inv] in \<open>auto simp: memories_ok_def\<close>)
  then have "at_rest rank content live h (depth_bound r) (update_beta (with_beta_memory m f) r)"
    using rest by (simp add: at_rest_def)
  then show ?thesis by (rule at_rest_steady)
qed

lemma steady_ranked: "steady content live h r \<Longrightarrow> steady content live h (update_beta (with_beta_memory m enable_ncc_parent_ranks) r)"
  by (rule steady_touched) (auto intro: beta_index_ok_enable)

lemma steady_indexed: "steady content live h r \<Longrightarrow>
    steady content live h (update_beta (with_beta_memory m (request_var_index var (r_tokens r))) r)"
proof (rule steady_touched)
  fix n bm rank assume inv: "rete_inv rank content live h [] r" and bm: "node_memory_at (r_beta r) n = Some bm"
    and ok: "beta_index_ok (bindings_of (r_tokens r)) bm"
  show "beta_index_ok (bindings_of (r_tokens r)) (request_var_index var (r_tokens r) bm)"
  proof (rule beta_index_ok_request [OF ok])
    fix t assume "t \<in> set (bm_tokens bm)"
    with rete_invD(5) [OF inv] bm obtain tok where "tokens (r_tokens r) t = Some tok" by (auto simp: memories_ok_def)
    then show "\<exists>tok. token_get (r_tokens r) t = Some tok \<and> tok_bindings tok = bindings_of (r_tokens r) t"
      by (auto simp: token_get_def bindings_of_def)
  qed
qed simp_all

section \<open>Alpha paths\<close>

lemma entry_grown: "create_entry_node e net = (n, net') \<Longrightarrow> alpha_grown net net'"
  by (auto simp: create_entry_node_def Let_def alpha_grown_def grows_def nth_append child_of_append split: option.splits)

lemma test_grown:
  assumes "create_constant_test_node p t net = (n, net')" "unat p < length (nodes net)"
  shows "alpha_grown net net'"
proof -
  have nodes: "nodes net' = list_modify (unat p) (\<lambda>node. set_node_children (node_children node @ [next_node_id net]) node)
      (nodes net @ [TestNode t [] None])"
    using assms(1) by (auto simp: create_constant_test_node_def Let_def)
  have nth: "nodes net' ! k = (if k = unat p then set_node_children (node_children (nodes net ! k) @ [next_node_id net]) (nodes net ! k) else nodes net ! k)"
    if "k < length (nodes net)" for k
    using that by (simp add: nodes nth_list_modify nth_append)
  have "child_of (nodes net') k c" if "child_of (nodes net) k c" for k c
    using that nth [of k] by (auto simp: child_of_def nodes split: if_splits)
  then show ?thesis by (simp add: alpha_grown_def grows_def nth) (simp add: nodes)
qed

end
