(* ===== verification/Compiler_Correct.thy ===== *)
theory Compiler_Correct
  imports Rule_Compiler Alpha_Growth
begin

text \<open>
  What the rule compiler does to a network: it never fails once validation has passed and ids are
  left, it keeps the network consistent, and the caches name the paths and joins they stand for.
\<close>

section \<open>Normal forms of tests\<close>

lemma key_norm_norm [simp]: "key_norm (key_norm k) = key_norm k"
  by (cases k) (simp_all add: canon_address_def canon_string_def comp_def option.map_comp)

lemma key_norm_eq: "atom_key_eq k (key_norm k') = atom_key_eq k k'" "atom_key_eq (key_norm k) k' = atom_key_eq k k'"
  by (simp_all add: atom_key_eq_iff)

lemma compare_norm: "numeric_compare_matches v (atom_to_value (key_norm k)) p = numeric_compare_matches v (atom_to_value k) p"
  by (cases k; cases v) (simp_all add: numeric_compare_matches_def)

lemma evaluate_norm: "evaluate_field_test (test_norm t) field = evaluate_field_test t field"
proof (induction t field rule: evaluate_field_test.induct)
  case (1 slot ty field)
  show ?case
  proof (cases "\<exists>branches. ty = TAny branches")
    case True
    then obtain branches where ty: "ty = TAny branches" by blast
    show ?thesis
    proof (cases "field slot")
      case (Some v)
      have "evaluate_field_test (test_norm t) field = evaluate_field_test t field" if "branch \<in> set branches" "t \<in> set branch" for branch t
        by (rule 1 [OF Some ty that])
      with Some show ?thesis by (auto simp: evaluate_field_test.simps [of slot] ty)
    qed (simp add: evaluate_field_test.simps ty)
  next
    case False
    then show ?thesis
      by (cases ty) (simp_all add: evaluate_field_test.simps key_norm_eq compare_test_key_def compare_norm split: option.split)
  qed
qed

lemma plan_norm_parts: "plan_segments (plan_norm plan) = plan_segments plan" "plan_tests (plan_norm plan) = map test_norm (plan_tests plan)"
  by (cases plan; simp)+

lemma admits_iff:
  assumes "logical_width plan < usize_max"
  shows "admits plan f \<longleftrightarrow> (\<exists>sv \<in> set (all_splits plan f). accepts plan sv)"
proof -
  obtain es where "search plan f = Some es" "matches es = filter (accepts plan) (all_splits plan f)"
    using plain.search_with_prefix_exact [OF assms] by (auto simp: search_def plain_passes)
  then show ?thesis by (auto simp: admits_def any_match_iff filter_empty_conv)
qed

text \<open>Plans of a test must have a width below the saturation point of the code.\<close>

definition narrow :: "constant_test \<Rightarrow> bool" where
  "narrow t \<longleftrightarrow> (\<forall>plan. test_type t = TSequence plan \<longrightarrow> logical_width plan < usize_max)"

lemma admits_norm: "logical_width plan < usize_max \<Longrightarrow> admits (plan_norm plan) f = admits plan f"
  by (simp add: admits_iff logical_width_def plan_norm_parts accepts_def all_splits_def evaluate_norm)

lemma evaluate_test_norm:
  assumes "narrow t"
  shows "evaluate_test f (test_norm t) = evaluate_test f t"
proof (cases t)
  case (ConstantTest slot ty)
  show ?thesis
  proof (cases "\<exists>plan. ty = TSequence plan")
    case True
    with assms admits_norm show ?thesis by (auto simp: ConstantTest evaluate_test_def narrow_def)
  next
    case False
    with evaluate_norm [of t "get_slot_value f"] show ?thesis
      by (cases ty) (simp_all add: ConstantTest evaluate_test_def)
  qed
qed

lemma narrow_norm: "narrow (test_norm t) = narrow t"
proof -
  have width: "logical_width (plan_norm p) = logical_width p" for p by (simp add: logical_width_def plan_norm_parts)
  obtain slot ty where "t = ConstantTest slot ty" by (cases t)
  then show ?thesis by (cases ty) (simp_all add: narrow_def width)
qed

lemma path_matches_norm:
  assumes eq: "map test_norm ts' = map test_norm ts" and narrow: "\<And>t. t \<in> set ts \<Longrightarrow> narrow t"
  shows "path_matches e ts' f = path_matches e ts f"
proof -
  have same: "evaluate_test f t' = evaluate_test f t" if t: "test_norm t' = test_norm t" "narrow t" for t t'
  proof -
    have "narrow t'" using narrow_norm [of t'] narrow_norm [of t] t by simp
    with evaluate_test_norm [of t f] evaluate_test_norm [of t' f] t show ?thesis by simp
  qed
  have "list_all2 (=) (map test_norm ts') (map test_norm ts)" unfolding eq by (rule list.rel_refl) simp
  then have "list_all2 (\<lambda>t' t. test_norm t' = test_norm t) ts' ts" by (simp only: list_all2_map1 list_all2_map2)
  then have "list_all2 (\<lambda>t' t. evaluate_test f t' = evaluate_test f t) ts' ts"
    by (rule list.rel_mono_strong) (rule same, simp_all add: narrow)
  then have "(\<forall>t \<in> set ts'. evaluate_test f t) = (\<forall>t \<in> set ts. evaluate_test f t)"
    by (induction rule: list_all2_induct) auto
  then show ?thesis by (simp add: path_matches_def)
qed

section \<open>Alpha paths\<close>

text \<open>Cached paths end in their memory, and only a cached entry node has a memory of its own.\<close>

definition paths_ok :: "rete_compiler \<Rightarrow> alpha_network \<Rightarrow> bool" where
  "paths_ok c alpha \<longleftrightarrow>
     (\<forall>e ts m. alpha_path_cache c (e, ts) = Some m \<longrightarrow> (\<exists>ts'. map test_norm ts' = ts \<and> memory_path alpha m e ts')) \<and>
     (\<forall>e k. path (nodes alpha) k e [] \<longrightarrow> node_memory (nodes alpha ! k) \<noteq> None \<longrightarrow> alpha_path_cache c (e, []) \<noteq> None)"

text \<open>A chain of tests below a node ends in a node without memory, unless it is empty.\<close>

lemma chain_ok:
  assumes "net_ok content live net" "length (nodes net) + length ts \<le> 2 ^ 32"
    and "unat n < length (nodes net)" "path (nodes net) (unat n) e ts0" "alpha_chain n ts net = (n', net')"
  shows "net_ok content live net' \<and> alpha_grown net net' \<and> unat n' < length (nodes net') \<and>
    path (nodes net') (unat n') e (ts0 @ ts) \<and> length (nodes net') = length (nodes net) + length ts \<and>
    memories net' = memories net \<and> (ts \<noteq> [] \<longrightarrow> node_memory (nodes net' ! unat n') = None) \<and>
    (\<forall>k < length (nodes net'). node_memory (nodes net' ! k) \<noteq> None \<longrightarrow> k < length (nodes net) \<and> node_memory (nodes net ! k) \<noteq> None)"
  using assms(1-5)
proof (induction ts arbitrary: n net ts0)
  case (Cons t ts)
  obtain n1 net1 where new: "create_constant_test_node n t net = (n1, net1)" by fastforce
  have chain: "alpha_chain n1 ts net1 = (n', net')" using Cons.prems(5) new by simp
  have room: "length (nodes net) < 2 ^ 32" using Cons.prems(2) by simp
  note one = net_ok_test [OF Cons.prems(1) room Cons.prems(3,4) new]
  have nodes: "nodes net1 = list_modify (unat n) (\<lambda>node. set_node_children (node_children node @ [next_node_id net]) node) (nodes net @ [TestNode t [] None])"
    "memories net1 = memories net" and n1: "n1 = next_node_id net"
    using new by (auto simp: create_constant_test_node_def Let_def)
  have len: "length (nodes net1) = length (nodes net) + 1" by (simp add: nodes)
  have grown: "alpha_grown net net1" by (rule test_grown [OF new Cons.prems(3)])
  have old: "k < length (nodes net) \<and> node_memory (nodes net ! k) \<noteq> None"
    if "k < length (nodes net1)" "node_memory (nodes net1 ! k) \<noteq> None" for k
    using that Cons.prems(3) by (auto simp: nodes nth_list_modify nth_append less_Suc_eq split: if_splits)
  have un: "unat n1 = length (nodes net)"
    using net_shapeD(3) [OF net_okD(1) [OF Cons.prems(1)]] room by (simp add: n1 unat_next)
  have rest: "net_ok content live net' \<and> alpha_grown net1 net' \<and> unat n' < length (nodes net') \<and>
      path (nodes net') (unat n') e ((ts0 @ [t]) @ ts) \<and> length (nodes net') = length (nodes net1) + length ts \<and>
      memories net' = memories net1 \<and> (ts \<noteq> [] \<longrightarrow> node_memory (nodes net' ! unat n') = None) \<and>
      (\<forall>k < length (nodes net'). node_memory (nodes net' ! k) \<noteq> None \<longrightarrow> k < length (nodes net1) \<and> node_memory (nodes net1 ! k) \<noteq> None)"
    by (rule Cons.IH) (use one chain len Cons.prems(2) in simp_all)
  have "node_memory (nodes net' ! unat n') = None"
  proof (cases ts)
    case Nil
    then have "n' = n1" "net' = net1" using chain by simp_all
    with old [of "unat n1"] un len show ?thesis by (cases "node_memory (nodes net1 ! unat n1)") auto
  qed (use rest in simp)
  with rest grown old len nodes(2) show ?case by (auto intro: alpha_grown_trans)
qed simp

text \<open>The fact base holds just the live facts, timed in the order of the list.\<close>

definition base_live :: "(fact_id \<Rightarrow> fact) \<Rightarrow> fact_id list \<Rightarrow> fact_base \<Rightarrow> bool" where
  "base_live content live fb \<longleftrightarrow> dom (facts fb) = set live \<and> base_knows content fb live \<and> sorted_wrt (<) (map (fact_age fb) live)"

lemma base_live_holds: "base_live content live fb \<Longrightarrow> host_ok h \<Longrightarrow> holds_live content live fb (walk_facts h (dom (facts fb)))"
proof -
  assume base: "base_live content live fb" and "host_ok h"
  then have "enumerates (walk_facts h (set live)) (set live)" by (simp add: host_ok_def walks_def)
  moreover have "agrees content fb (set live)" using base by (fastforce simp: base_live_def base_knows_def agrees_def)
  ultimately show ?thesis using base by (simp add: base_live_def holds_live_def)
qed

lemma memories_less:
  assumes ok: "net_ok content live net" and n: "n < length (nodes net)" "node_memory (nodes net ! n) = None"
  shows "length (memories net) < length (nodes net)"
proof -
  note shape = net_shapeD [OF net_okD(1) [OF ok]]
  let ?at = "\<lambda>k. mem_index (the (node_memory (nodes net ! k)))" and ?with = "{k. k < length (nodes net) \<and> node_memory (nodes net ! k) \<noteq> None}"
  have "{..<length (memories net)} \<subseteq> ?at ` ?with"
  proof
    fix i assume "i \<in> {..<length (memories net)}"
    then have i: "i < length (memories net)" by simp
    obtain m where m: "i = mem_index m" by (rule memory_named [OF ok i])
    with i shape(10) obtain k where "k < length (nodes net)" "node_memory (nodes net ! k) = Some m" by blast
    then show "i \<in> ?at ` ?with" by (auto simp: m intro!: image_eqI [of _ _ k])
  qed
  then have "length (memories net) \<le> card ?with" using surj_card_le [of ?with "{..<length (memories net)}" ?at] by simp
  moreover have "?with \<subset> {..<length (nodes net)}"
  proof
    show "?with \<subseteq> {..<length (nodes net)}" by auto
    have "n \<in> {..<length (nodes net)}" "n \<notin> ?with" using n by simp_all
    then show "?with \<noteq> {..<length (nodes net)}" by metis
  qed
  then have "card ?with < card {..<length (nodes net)}" by (rule psubset_card_mono [rotated]) simp
  ultimately show ?thesis by simp
qed

lemma ensure_path_ok:
  assumes ok: "net_ok content live alpha" and paths: "paths_ok c alpha" and host: "host_ok h" and base: "base_live content live fb"
    and room: "length (nodes alpha) + 1 + length (path_tests pat) \<le> 2 ^ 32"
  shows "\<exists>m c' alpha' ts. ensure_alpha_path h fb pat c alpha = Inr (m, c', alpha') \<and> net_ok content live alpha' \<and>
    alpha_grown alpha alpha' \<and> paths_ok c' alpha' \<and> join_node_cache c' = join_node_cache c \<and>
    length (nodes alpha') \<le> length (nodes alpha) + 1 + length (path_tests pat) \<and>
    map test_norm ts = map test_norm (path_tests pat) \<and> memory_path alpha' m (pat_entry pat) ts"
proof -
  let ?e = "pat_entry pat" and ?ts = "path_tests pat"
  let ?key = "(?e, map test_norm ?ts)"
  show ?thesis
  proof (cases "alpha_path_cache c ?key")
    case (Some m)
    with paths obtain ts where "map test_norm ts = map test_norm ?ts" "memory_path alpha m ?e ts" unfolding paths_ok_def by blast
    with Some ok paths show ?thesis
      by (intro exI [of _ m] exI [of _ c] exI [of _ alpha] exI [of _ ts]) (simp add: ensure_alpha_path_def Let_def)
  next
    case None
    obtain entry net1 where new1: "create_entry_node ?e alpha = (entry, net1)" by fastforce
    have room1: "length (nodes alpha) < 2 ^ 32" using room by simp
    note one = net_ok_entry [OF ok room1 new1]
    have grown1: "alpha_grown alpha net1" by (rule entry_grown [OF new1])
    have len1: "length (nodes net1) \<le> length (nodes alpha) + 1"
      and old1: "\<And>k. k < length (nodes net1) \<Longrightarrow> node_memory (nodes net1 ! k) \<noteq> None \<Longrightarrow>
        k < length (nodes alpha) \<and> node_memory (nodes alpha ! k) \<noteq> None"
      using new1 by (auto simp: create_entry_node_def Let_def nth_append less_Suc_eq split: option.splits if_splits)
    obtain n net2 where new2: "alpha_chain entry ?ts net1 = (n, net2)" by fastforce
    have room2: "length (nodes net1) + length ?ts \<le> 2 ^ 32" using len1 room by simp
    note two = chain_ok [OF conjunct1 [OF one] room2 conjunct1 [OF conjunct2 [OF one]] conjunct2 [OF conjunct2 [OF one]] new2]
    have ok2: "net_ok content live net2" and grown2: "alpha_grown alpha net2" and n: "unat n < length (nodes net2)"
      and path2: "path (nodes net2) (unat n) ?e ?ts" and len2: "length (nodes net2) \<le> length (nodes alpha) + 1 + length ?ts"
      using two alpha_grown_trans [OF grown1] len1 by simp_all
    have old2: "k < length (nodes alpha) \<and> node_memory (nodes alpha ! k) \<noteq> None"
      if "k < length (nodes net2)" "node_memory (nodes net2 ! k) \<noteq> None" for k
      using two old1 that by blast
    note forest2 = net_shapeD(1) [OF net_okD(1) [OF ok2]]
    have old_path: "path (nodes alpha) k e ts" if k: "path (nodes net2) k e ts" "k < length (nodes alpha)" for k e ts
    proof -
      obtain e' ts' where p: "path (nodes alpha) k e' ts'" using net_shapeD(2) [OF net_okD(1) [OF ok] k(2)] by blast
      have "path (nodes net2) k e' ts'" using path_grows [OF p] grown2 by (simp add: alpha_grown_def)
      with path_unique [OF _ forest2] k(1) p show ?thesis by blast
    qed
    have cached: "alpha_path_cache c (e, []) \<noteq> None"
      if k: "path (nodes net2) k e []" "node_memory (nodes net2 ! k) \<noteq> None" for k e
      using old2 [OF path_less [OF k(1)] k(2)] old_path [OF k(1)] paths unfolding paths_ok_def by blast
    have free: "node_memory (nodes net2 ! unat n) = None"
    proof (cases "?ts = []")
      case True
      show ?thesis
      proof (rule ccontr)
        assume "node_memory (nodes net2 ! unat n) \<noteq> None"
        from cached [of "unat n" ?e] path2 this True None show False by simp
      qed
    qed (use two in simp)
    obtain m net3 where new3: "create_memory n net2 = (m, net3)" by fastforce
    have room3: "length (memories net2) < 2 ^ 32" using memories_less [OF ok2 n free] len2 room by simp
    note holds = base_live_holds [OF base host]
    obtain net4 where four: "backfill_memory (walk_facts h (dom (facts fb))) m ?e ?ts fb net3 = Some net4" "net_ok content live net4"
      "nodes net4 = list_modify (unat n) (set_node_memory (Some m)) (nodes net2)"
      by (rule net_ok_memory [OF ok2 room3 path2 free new3 holds])
    have fill: "(if fact_base_is_empty fb then Inr net3 else or_stop Panic (backfill_memory (walk_facts h (dom (facts fb))) m ?e ?ts fb net3)) = Inr net4"
    proof (cases "fact_base_is_empty fb")
      case True
      then have "dom (facts fb) = {}" using base by (auto simp: fact_base_is_empty_def fact_base_len_def base_live_def)
      then have "walk_facts h (dom (facts fb)) = []" using host by (auto simp: host_ok_def walks_def enumerates_def)
      with four(1) True show ?thesis by (simp add: backfill_memory_def List.map_filter_def)
    qed (use four(1) in simp)
    note attach = attach_nodes [OF forest2 n four(3)]
    have grown4: "alpha_grown net2 net4" using attach(2,4) free by (auto simp: alpha_grown_def)
    note grown = alpha_grown_trans [OF grown2 grown4]
    let ?c = "c\<lparr>alpha_path_cache := (alpha_path_cache c)(?key \<mapsto> m)\<rparr>"
    have here: "memory_path net4 m ?e ?ts"
      using path_grows [OF path2 attach(2)] attach(4) [OF n] by (auto simp: memory_path_def)
    have "paths_ok ?c net4"
      unfolding paths_ok_def
    proof (intro conjI allI impI)
      fix e ts m' assume cache: "alpha_path_cache ?c (e, ts) = Some m'"
      show "\<exists>ts'. map test_norm ts' = ts \<and> memory_path net4 m' e ts'"
      proof (cases "(e, ts) = ?key")
        case True
        with cache have "m' = m" by simp
        with True here show ?thesis by blast
      next
        case False
        then have "alpha_path_cache c (e, ts) = Some m'" using cache by (simp del: prod.inject)
        with paths obtain ts' where "map test_norm ts' = ts" "memory_path alpha m' e ts'" unfolding paths_ok_def by blast
        with memory_path_grown [OF _ grown] show ?thesis by blast
      qed
    next
      fix e k assume k: "path (nodes net4) k e []" "node_memory (nodes net4 ! k) \<noteq> None"
      have len: "k < length (nodes net2)" using path_less [OF k(1)] attach(3) by simp
      obtain e' ts' where p: "path (nodes net2) k e' ts'" using net_shapeD(2) [OF net_okD(1) [OF ok2] len] by blast
      have same: "e' = e \<and> ts' = []" using path_unique [OF k(1) attach(1) path_grows [OF p attach(2)]] by simp
      show "alpha_path_cache ?c (e, []) \<noteq> None"
      proof (cases "k = unat n")
        case True
        have "e' = ?e \<and> ts' = ?ts" by (rule path_unique [OF path2 forest2]) (use p True in simp)
        with same have "?key = (e, [])" by simp
        then show ?thesis by simp
      next
        case False
        then have "node_memory (nodes net2 ! k) \<noteq> None" using k(2) attach(4) [OF len] by simp
        then have "alpha_path_cache c (e, []) \<noteq> None" using cached [of k e] p same by simp
        then show ?thesis by simp
      qed
    qed
    moreover have "ensure_alpha_path h fb pat c alpha = Inr (m, ?c, net4)"
      using fill by (simp add: ensure_alpha_path_def Let_def None new1 new2 new3)
    moreover have "length (nodes net4) \<le> length (nodes alpha) + 1 + length ?ts" using attach(3) len2 by simp
    ultimately show ?thesis
      using four(2) grown here by (intro exI [of _ m] exI [of _ ?c] exI [of _ net4] exI [of _ ?ts]) simp
  qed
qed

section \<open>Joins and patterns\<close>

definition joins_ok :: "rete_compiler \<Rightarrow> beta_network \<Rightarrow> bool" where
  "joins_ok c net \<longleftrightarrow> (\<forall>key n. join_node_cache c key = Some n \<longrightarrow>
     (\<exists>sq m cs. get_node net n = Some (Join (key_parent key) (key_memory key) (key_tests key) sq (key_bindings key) m cs) \<and>
        map_option plan_norm sq = key_sequence key))"

lemma joins_ok_grown:
  assumes ok: "joins_ok c net" and grown: "grown net net'"
  shows "joins_ok c net'"
  unfolding joins_ok_def
proof (intro allI impI)
  fix key n assume "join_node_cache c key = Some n"
  then obtain sq m cs where old: "get_node net n = Some (Join (key_parent key) (key_memory key) (key_tests key) sq (key_bindings key) m cs)"
    "map_option plan_norm sq = key_sequence key"
    using ok unfolding joins_ok_def by blast
  obtain x where x: "get_node net' n = Some x" "skeleton x = skeleton (Join (key_parent key) (key_memory key) (key_tests key) sq (key_bindings key) m cs)"
    using grownD(2) [OF grown old(1)] by blast
  from skeleton_cases(1) [OF x(2) refl] x(1) old(2)
  show "\<exists>sq m cs. get_node net' n = Some (Join (key_parent key) (key_memory key) (key_tests key) sq (key_bindings key) m cs) \<and>
      map_option plan_norm sq = key_sequence key" by blast
qed

lemma joins_ok_nodes: "joins_ok c net \<Longrightarrow> get_node net' = get_node net \<Longrightarrow> joins_ok c net'"
  by (simp add: joins_ok_def)

text \<open>
  Compilation at a node: the network is steady, the caches are true, and the conjunctions in
  \<open>open_nccs\<close> still wait for their partners.
\<close>

definition compiling ::
  "(fact_id \<Rightarrow> fact) \<Rightarrow> fact_id list \<Rightarrow> host \<Rightarrow> (node_id \<times> u32) set \<Rightarrow> node_id \<Rightarrow> compile_state \<Rightarrow> bool" where
  "compiling content live h open_nccs p st \<longleftrightarrow> steady content live h (cs_rete st) \<and>
     paths_ok (cs_compiler st) (r_alpha (cs_rete st)) \<and> joins_ok (cs_compiler st) (r_beta (cs_rete st)) \<and>
     usable (r_beta (cs_rete st)) p \<and> (\<forall>(j, k) \<in> open_nccs. opened (r_beta (cs_rete st)) j k \<and> j \<noteq> p)"

lemma compilingD:
  assumes "compiling content live h open_nccs p st"
  shows "steady content live h (cs_rete st)" "paths_ok (cs_compiler st) (r_alpha (cs_rete st))"
    "joins_ok (cs_compiler st) (r_beta (cs_rete st))" "usable (r_beta (cs_rete st)) p"
    "(j, k) \<in> open_nccs \<Longrightarrow> opened (r_beta (cs_rete st)) j k" "(j, k) \<in> open_nccs \<Longrightarrow> j \<noteq> p"
  using assms by (auto simp: compiling_def)

lemma compilingI:
  "steady content live h (cs_rete st) \<Longrightarrow> paths_ok (cs_compiler st) (r_alpha (cs_rete st)) \<Longrightarrow>
    joins_ok (cs_compiler st) (r_beta (cs_rete st)) \<Longrightarrow> usable (r_beta (cs_rete st)) p \<Longrightarrow>
    (\<And>j k. (j, k) \<in> open_nccs \<Longrightarrow> opened (r_beta (cs_rete st)) j k \<and> j \<noteq> p) \<Longrightarrow> compiling content live h open_nccs p st"
  unfolding compiling_def by fast

abbreviation next_node :: "compile_state \<Rightarrow> nat" where
  "next_node st \<equiv> unat (next_beta_node (r_beta (cs_rete st)))"

abbreviation alpha_size :: "compile_state \<Rightarrow> nat" where
  "alpha_size st \<equiv> length (nodes (r_alpha (cs_rete st)))"

text \<open>A step that returns, with bounds on the beta and alpha nodes it takes.\<close>

definition steps_to ::
  "(fact_id \<Rightarrow> fact) \<Rightarrow> fact_id list \<Rightarrow> host \<Rightarrow> (node_id \<times> u32) set \<Rightarrow> nat \<Rightarrow> nat \<Rightarrow> compile_state \<Rightarrow>
   (node_id \<times> compile_state) outcome \<Rightarrow> bool" where
  "steps_to content live h open_nccs betas alphas st result \<longleftrightarrow>
     (\<exists>n st'. result = Inr (n, st') \<and> compiling content live h open_nccs n st' \<and>
        next_node st' \<le> next_node st + betas \<and> alpha_size st' \<le> alpha_size st + alphas)"

lemma compiling_leaf:
  assumes st: "compiling content live h open_nccs p st" and graph: "graph_ok rank (r_beta (cs_rete st))" and room: "unat n + 1 < 2 ^ 32"
    and leaf: "leaf_added n node p (r_beta (cs_rete st)) net'" and grown: "grown (r_beta (cs_rete st)) net'"
    and node: "child_nodes node = Some []" and st': "cs_rete st' = (cs_rete st)\<lparr>r_beta := net'\<rparr>"
    and c: "alpha_path_cache (cs_compiler st') = alpha_path_cache (cs_compiler st)" "joins_ok (cs_compiler st') net'"
  shows "compiling content live h open_nccs n st'" "next_node st' = next_node st + 1" "alpha_size st' = alpha_size st"
proof -
  note d = compilingD [OF st]
  have plain: "node \<noteq> NccPartner q ncc cm" for q ncc cm using node by auto
  have steady: "steady content live h (cs_rete st')"
    unfolding st' by (rule steady_leaf [OF d(1) graph room leaf grown plain])
  have paths: "paths_ok (cs_compiler st') (r_alpha (cs_rete st'))" using d(2) c(1) by (simp add: st' paths_ok_def)
  have n: "get_node net' n = Some node" "n = next_beta_node (r_beta (cs_rete st))"
    using leaf_nodes [OF graph leaf] leaf by (auto simp: leaf_added_def)
  have "opened net' j k \<and> j \<noteq> n" if jk: "(j, k) \<in> open_nccs" for j k
  proof
    show "opened net' j k" by (rule opened_leaf [OF graph leaf d(5) [OF jk] d(6) [OF jk, symmetric] plain])
    obtain q pl m where "get_node (r_beta (cs_rete st)) j = Some (Ncc q pl m k [])" using d(5) [OF jk] by (auto simp: opened_def)
    from fresh_id [OF graph this] show "j \<noteq> n" using n(2) by simp
  qed
  with steady paths c(2) n(1) node show "compiling content live h open_nccs n st'" by (auto simp: compiling_def st' usable_def)
  show "next_node st' = next_node st + 1" using leaf_counts(1) [OF graph leaf room] n(2) by (simp add: st')
  show "alpha_size st' = alpha_size st" by (simp add: st')
qed

lemma attach_ok:
  assumes st: "compiling content live h open_nccs p st" and room: "next_node st + 1 < 2 ^ 32" and plan: "pattern_ok (pat_sequence pat)"
  shows "steps_to content live h open_nccs 1 0 st (attach_pattern p pat m tests bindings names st)"
proof -
  let ?net = "r_beta (cs_rete st)" and ?n = "next_beta_node (r_beta (cs_rete st))" and ?sq = "pat_sequence pat"
  note d = compilingD [OF st]
  obtain rank where graph: "graph_ok rank ?net" using d(1) by (rule steadyE)
  have joins: "joins_ok (cs_compiler st) net'" if "grown ?net net'" for net' by (rule joins_ok_grown [OF d(3) that])
  show ?thesis
  proof (cases "pat_negated pat")
    case True
    obtain bm k net1 net' where new: "create_negative_node p m tests ?net = Inr ((?n, bm, k), net1)" "set_sequence ?n ?sq net1 = Inr net'"
      and leaf: "leaf_added ?n (Negative p m tests ?sq bm k []) p ?net net'" and grown: "grown ?net net'"
      using negative_leaf [OF graph d(4) room plan] by blast
    let ?st = "st\<lparr>cs_rete := (cs_rete st)\<lparr>r_beta := net'\<rparr>\<rparr>"
    have "attach_pattern p pat m tests bindings names st = Inr (?n, ?st)" using True new by (simp add: attach_pattern_def Let_def)
    with compiling_leaf [OF st graph room leaf grown, of ?st] joins [OF grown] show ?thesis by (simp add: steps_to_def)
  next
    case positive: False
    show ?thesis
    proof (cases "pat_exists pat")
      case True
      obtain bm k net1 net' where new: "create_exists_node p m tests ?net = Inr ((?n, bm, k), net1)" "set_sequence ?n ?sq net1 = Inr net'"
        and leaf: "leaf_added ?n (Exists p m tests ?sq bm k []) p ?net net'" and grown: "grown ?net net'"
        using exists_leaf [OF graph d(4) room plan] by blast
      let ?st = "st\<lparr>cs_rete := (cs_rete st)\<lparr>r_beta := net'\<rparr>\<rparr>"
      have "attach_pattern p pat m tests bindings names st = Inr (?n, ?st)" using positive True new by (simp add: attach_pattern_def Let_def)
      with compiling_leaf [OF st graph room leaf grown, of ?st] joins [OF grown] show ?thesis by (simp add: steps_to_def)
    next
      case False
      let ?key = "\<lparr>key_parent = p, key_memory = m, key_tests = tests, key_bindings = bindings, key_sequence = ?sq\<rparr>"
      show ?thesis
      proof (cases "join_node_cache (cs_compiler st) (join_key_norm ?key)")
        case (Some n)
        then obtain sq bm cs where n: "get_node ?net n = Some (Join p m tests sq bindings bm cs)"
          using d(3) unfolding joins_ok_def by (fastforce simp: join_key_norm_def)
        let ?st = "st\<lparr>cs_compiler := cs_compiler st, cs_rete := (cs_rete st)\<lparr>r_beta := ?net\<rparr>, cs_bound := symbol_extend names (cs_bound st)\<rparr>"
        have "attach_pattern p pat m tests bindings names st = Inr (n, ?st)"
          using positive False Some by (simp add: attach_pattern_def Let_def ensure_join_node_def)
        moreover have "compiling content live h open_nccs n ?st"
          using d(1-3) n d(5) by (fastforce simp: compiling_def usable_def opened_def)
        ultimately show ?thesis by (simp add: steps_to_def)
      next
        case None
        obtain bm net1 net' where new: "create_join_node p m tests bindings ?net = Inr ((?n, bm), net1)" "set_sequence ?n ?sq net1 = Inr net'"
          and leaf: "leaf_added ?n (Join p m tests ?sq bindings bm []) p ?net net'" and grown: "grown ?net net'"
          using join_leaf [OF graph d(4) room plan] by blast
        let ?c = "(cs_compiler st)\<lparr>join_node_cache := (join_node_cache (cs_compiler st))(join_key_norm ?key \<mapsto> ?n)\<rparr>"
        let ?st = "st\<lparr>cs_compiler := ?c, cs_rete := (cs_rete st)\<lparr>r_beta := net'\<rparr>, cs_bound := symbol_extend names (cs_bound st)\<rparr>"
        have "attach_pattern p pat m tests bindings names st = Inr (?n, ?st)"
          using positive False None new by (simp add: attach_pattern_def Let_def ensure_join_node_def)
        moreover have "get_node net' ?n = Some (Join p m tests ?sq bindings bm [])" using leaf_nodes [OF graph leaf] by auto
        then have "joins_ok ?c net'"
          using joins [OF grown] by (auto simp: joins_ok_def join_key_norm_def)
        ultimately show ?thesis
          using compiling_leaf [OF st graph room leaf grown, of ?st] by (simp add: steps_to_def)
      qed
    qed
  qed
qed

lemma request_alpha_ok:
  assumes "steady content live h r" "base_live content live fb"
  shows "steady content live h (request_alpha_indexes fb m keys r) \<and> r_beta (request_alpha_indexes fb m keys r) = r_beta r \<and>
    nodes (r_alpha (request_alpha_indexes fb m keys r)) = nodes (r_alpha r)"
  using assms(1)
proof (induction keys arbitrary: r)
  case (Cons key keys)
  obtain slot var where key: "key = (slot, var)" by (cases key)
  let ?r = "r\<lparr>r_alpha := alpha_request_index m slot fb (r_alpha r)\<rparr>"
  have agrees: "agrees content fb (set live)" using assms(2) by (fastforce simp: base_live_def base_knows_def agrees_def)
  have nodes: "nodes (alpha_request_index m slot fb (r_alpha r)) = nodes (r_alpha r)" by (simp add: alpha_request_index_def)
  have "steady content live h ?r"
    by (rule steady_alpha [OF Cons.prems net_ok_request [OF steady_net [OF Cons.prems] agrees] alpha_grown_nodes [OF nodes]])
  from Cons.IH [OF this] show ?case using nodes by (simp add: request_alpha_indexes_def key)
qed (simp add: request_alpha_indexes_def)

lemma request_parent_ok:
  assumes "steady content live h r"
  shows "steady content live h (request_parent_indexes parent keys r) \<and> r_alpha (request_parent_indexes parent keys r) = r_alpha r \<and>
    same_graph (r_beta r) (r_beta (request_parent_indexes parent keys r))"
proof -
  have loop: "steady content live h r' \<and> r_alpha r' = r_alpha r \<and> same_graph (r_beta r) (r_beta r')"
    if "r' = fold (\<lambda>(_, var) r. update_beta (with_beta_memory m (request_var_index var (r_tokens r))) r) keys r" for m r'
    using assms that
  proof (induction keys arbitrary: r)
    case (Cons key keys)
    obtain slot var where key: "key = (slot, var)" by (cases key)
    let ?r = "update_beta (with_beta_memory m (request_var_index var (r_tokens r))) r"
    have r': "r' = fold (\<lambda>(_, var) r. update_beta (with_beta_memory m (request_var_index var (r_tokens r))) r) keys ?r"
      using Cons.prems(2) by (simp add: key)
    have "same_graph (r_beta r) (r_beta ?r)" by simp
    from Cons.IH [OF steady_indexed [OF Cons.prems(1)] r'] same_graph_trans [OF this] show ?case by simp
  qed simp
  show ?thesis
  proof (cases "parent = root_id (r_beta r) \<or> memory_id_for_node (r_beta r) parent = None")
    case True
    then have "request_parent_indexes parent keys r = r" by (auto simp: request_parent_indexes_def)
    with assms show ?thesis by simp
  next
    case False
    then obtain m where "memory_id_for_node (r_beta r) parent = Some m" by auto
    with False have "request_parent_indexes parent keys r =
        fold (\<lambda>(_, var) r. update_beta (with_beta_memory m (request_var_index var (r_tokens r))) r) keys r"
      by (simp add: request_parent_indexes_def)
    then show ?thesis by (rule loop)
  qed
qed

definition names_known :: "var_map \<Rightarrow> symbol list \<Rightarrow> bool" where
  "names_known vm names \<longleftrightarrow> (\<forall>x \<in> set names. var_lookup vm x \<noteq> None)"

definition pattern_names :: "compilable_pattern \<Rightarrow> symbol list" where
  "pattern_names pat = map snd (variable_slots pat) @ map (fst \<circ> snd) (negated_variable_slots pat)"

lemma split_variables_ok: "names_known vm (map snd vars) \<Longrightarrow> \<exists>x. split_variables vm bound vars = Inr x"
proof (induction vars)
  case (Cons a vars)
  obtain slot var where a: "a = (slot, var)" by (cases a)
  obtain v where v: "var_lookup vm var = Some v" using Cons.prems by (auto simp: names_known_def a)
  obtain tests bindings names where "split_variables vm bound vars = Inr (tests, bindings, names)"
    using Cons by (force simp: names_known_def)
  with v show ?case by (simp add: a)
qed simp

lemma comparison_tests_ok: "names_known vm (map (fst \<circ> snd) vars) \<Longrightarrow> \<exists>x. comparison_tests vm vars = Inr x"
proof (induction vars)
  case (Cons a vars)
  obtain slot var ty where a: "a = (slot, var, ty)" by (cases a)
  obtain v where v: "var_lookup vm var = Some v" using Cons.prems by (auto simp: names_known_def a)
  obtain tests where "comparison_tests vm vars = Inr tests" using Cons by (force simp: names_known_def)
  with v show ?case by (simp add: a)
qed simp

definition pattern_fits :: "var_map \<Rightarrow> compilable_pattern \<Rightarrow> bool" where
  "pattern_fits vm pat \<longleftrightarrow> pattern_ok (pat_sequence pat) \<and> names_known vm (pattern_names pat)"

lemma opened_same: "opened net j k \<Longrightarrow> get_node net' = get_node net \<Longrightarrow> opened net' j k"
  by (simp add: opened_def)

lemma compile_pattern_ok:
  assumes st: "compiling content live h open_nccs p st" and host: "host_ok h" and base: "base_live content live fb"
    and fits: "pattern_fits vm pat" and room: "next_node st + 1 < 2 ^ 32" "alpha_size st + 1 + length (path_tests pat) \<le> 2 ^ 32"
  shows "steps_to content live h open_nccs 1 (1 + length (path_tests pat)) st (compile_pattern h fb vm pat p st)"
proof -
  let ?r = "cs_rete st"
  note d = compilingD [OF st]
  obtain m c alpha where new: "ensure_alpha_path h fb pat (cs_compiler st) (r_alpha ?r) = Inr (m, c, alpha)" "net_ok content live alpha"
    "alpha_grown (r_alpha ?r) alpha" "paths_ok c alpha" "join_node_cache c = join_node_cache (cs_compiler st)"
    "length (nodes alpha) \<le> alpha_size st + 1 + length (path_tests pat)"
    using ensure_path_ok [OF steady_net [OF d(1)] d(2) host base room(2)] by blast
  let ?st1 = "st\<lparr>cs_compiler := c, cs_rete := ?r\<lparr>r_alpha := alpha\<rparr>, cs_memories := cs_memories st @ [m]\<rparr>"
  have joins: "joins_ok c (r_beta ?r)" using d(3) new(5) by (simp add: joins_ok_def)
  have steady1: "steady content live h (?r\<lparr>r_alpha := alpha\<rparr>)" by (rule steady_alpha [OF d(1) new(2,3)])
  have known: "names_known vm (map snd (variable_slots pat))" "names_known vm (map (fst \<circ> snd) (negated_variable_slots pat))"
    using fits by (auto simp: pattern_fits_def pattern_names_def names_known_def)
  obtain equal_tests bindings names where vars: "split_variables vm (cs_bound st) (variable_slots pat) = Inr (equal_tests, bindings, names)"
    using split_variables_ok [OF known(1)] by force
  obtain other_tests where others: "comparison_tests vm (negated_variable_slots pat) = Inr other_tests" using comparison_tests_ok [OF known(2)] by blast
  let ?tests = "equal_tests @ other_tests"
  let ?keys = "indexable_tests ?tests (pat_sequence pat)"
  define r2 where "r2 = request_alpha_indexes fb m ?keys (?r\<lparr>r_alpha := alpha\<rparr>)"
  define r3 where "r3 = request_parent_indexes p ?keys r2"
  have two: "steady content live h r2" "r_beta r2 = r_beta ?r" "nodes (r_alpha r2) = nodes alpha"
    using request_alpha_ok [OF steady1 base, of m ?keys] by (simp_all add: r2_def)
  have three: "steady content live h r3" "r_alpha r3 = r_alpha r2" "same_graph (r_beta ?r) (r_beta r3)"
    using request_parent_ok [OF two(1), of p ?keys] two(2) by (simp_all add: r3_def)
  let ?st3 = "?st1\<lparr>cs_rete := r3\<rparr>"
  have nodes: "get_node (r_beta r3) = get_node (r_beta ?r)" "next_beta_node (r_beta r3) = next_beta_node (r_beta ?r)"
    using same_graph_node [OF three(3)] three(3) by (simp_all add: same_graph_def)
  have "paths_ok c (r_alpha r3)" using new(4) by (simp add: paths_ok_def memory_path_def three(2) two(3))
  moreover have "joins_ok c (r_beta r3)" using joins by (simp add: joins_ok_def nodes)
  moreover have "usable (r_beta r3) p" using d(4) by (simp add: usable_def nodes)
  moreover have "opened (r_beta r3) j k" if "(j, k) \<in> open_nccs" for j k using d(5) [OF that] by (simp add: opened_def nodes)
  ultimately have st3: "compiling content live h open_nccs p ?st3" using three(1) d(6) by (auto simp: compiling_def)
  have "steps_to content live h open_nccs 1 0 ?st3 (attach_pattern p pat m ?tests bindings names ?st3)"
    by (rule attach_ok [OF st3]) (use room(1) fits in \<open>simp_all add: nodes pattern_fits_def\<close>)
  moreover have "compile_pattern h fb vm pat p st = attach_pattern p pat m ?tests bindings names ?st3"
    by (simp add: compile_pattern_def new(1) vars others Let_def r3_def r2_def)
  ultimately show ?thesis using new(6) three(2) two(3) by (auto simp: steps_to_def nodes)
qed

section \<open>Conditions\<close>

text \<open>Alpha nodes a condition can take, and what validation and the variable map guarantee of it.\<close>

fun condition_alphas :: "compilable_condition \<Rightarrow> nat" where
  "condition_alphas (CondPattern pat) = 1 + length (path_tests pat)"
| "condition_alphas (CondPredicate _) = 0"
| "condition_alphas (CondNcc subs) = sum_list (map condition_alphas subs)"

fun condition_fits :: "var_map \<Rightarrow> compilable_condition \<Rightarrow> bool" where
  "condition_fits vm (CondPattern pat) = pattern_fits vm pat"
| "condition_fits vm (CondPredicate _) = True"
| "condition_fits vm (CondNcc subs) = (\<forall>c \<in> set subs. condition_fits vm c)"

definition condition_compiles ::
  "(fact_id \<Rightarrow> fact) \<Rightarrow> fact_id list \<Rightarrow> host \<Rightarrow> fact_base \<Rightarrow> rule_id \<Rightarrow> var_map \<Rightarrow> compilable_condition \<Rightarrow> bool" where
  "condition_compiles content live h fb rule vm c \<longleftrightarrow> (\<forall>open_nccs p st nested.
     compiling content live h open_nccs p st \<longrightarrow> condition_fits vm c \<longrightarrow> next_node st + condition_nodes c < 2 ^ 32 \<longrightarrow>
     alpha_size st + condition_alphas c \<le> 2 ^ 32 \<longrightarrow>
     steps_to content live h open_nccs (condition_nodes c) (condition_alphas c) st (compile_condition h fb rule vm nested c p st))"

lemma each_compiles:
  assumes "\<And>c. c \<in> set cs \<Longrightarrow> condition_compiles content live h fb rule vm c"
    and "compiling content live h open_nccs p st" "\<And>c. c \<in> set cs \<Longrightarrow> condition_fits vm c"
    and "next_node st + sum_list (map condition_nodes cs) < 2 ^ 32" "alpha_size st + sum_list (map condition_alphas cs) \<le> 2 ^ 32"
  shows "steps_to content live h open_nccs (sum_list (map condition_nodes cs)) (sum_list (map condition_alphas cs)) st
    (compile_each h fb rule vm nested cs p st)"
  using assms
proof (induction cs arbitrary: p st)
  case Nil
  then show ?case by (simp add: steps_to_def)
next
  case (Cons c cs)
  have "steps_to content live h open_nccs (condition_nodes c) (condition_alphas c) st (compile_condition h fb rule vm nested c p st)"
    using Cons.prems by (simp add: condition_compiles_def)
  then obtain n st1 where one: "compile_condition h fb rule vm nested c p st = Inr (n, st1)" "compiling content live h open_nccs n st1"
    "next_node st1 \<le> next_node st + condition_nodes c" "alpha_size st1 \<le> alpha_size st + condition_alphas c"
    by (auto simp: steps_to_def)
  have "steps_to content live h open_nccs (sum_list (map condition_nodes cs)) (sum_list (map condition_alphas cs)) st1
      (compile_each h fb rule vm nested cs n st1)"
    by (rule Cons.IH) (use Cons.prems one in simp_all)
  with one show ?case by (auto simp: steps_to_def)
qed

lemma predicate_compiles:
  assumes st: "compiling content live h open_nccs p st" and room: "next_node st + 1 < 2 ^ 32"
  shows "steps_to content live h open_nccs 1 0 st (compile_condition h fb rule vm nested (CondPredicate i) p st)"
proof -
  let ?net = "r_beta (cs_rete st)" and ?n = "next_beta_node (r_beta (cs_rete st))"
  note d = compilingD [OF st]
  obtain rank where graph: "graph_ok rank ?net" using d(1) by (rule steadyE)
  obtain m net' where new: "create_predicate_node p rule i ?net = Inr ((?n, m), net')"
    and leaf: "leaf_added ?n (Predicate p rule i m []) p ?net net'" and grown: "grown ?net net'"
    using predicate_leaf [OF graph d(4) room] by blast
  let ?st = "st\<lparr>cs_rete := (cs_rete st)\<lparr>r_beta := net'\<rparr>\<rparr>"
  have "compile_condition h fb rule vm nested (CondPredicate i) p st = Inr (?n, ?st)" using new by simp
  with compiling_leaf [OF st graph room leaf grown, of ?st] joins_ok_grown [OF d(3) grown] show ?thesis by (simp add: steps_to_def)
qed

lemma open_ncc:
  assumes st: "compiling content live h open_nccs p st" and room: "next_node st + 1 < 2 ^ 32"
  shows "\<exists>k net1 n m net'. allocate_ncc_memory (r_beta (cs_rete st)) = (k, net1) \<and>
    create_ncc_node p (root_id net1) k net1 = Inr ((n, m), net') \<and>
    compiling content live h (insert (n, k) open_nccs) p (st\<lparr>cs_rete := (cs_rete st)\<lparr>r_beta := net'\<rparr>\<rparr>) \<and>
    usable net' n \<and> (\<forall>(j, k) \<in> open_nccs. j \<noteq> n) \<and> unat (next_beta_node net') = next_node st + 1"
proof -
  let ?net = "r_beta (cs_rete st)" and ?n = "next_beta_node (r_beta (cs_rete st))"
  note d = compilingD [OF st]
  obtain rank where graph: "graph_ok rank ?net" using d(1) by (rule steadyE)
  obtain pm bm where pm: "memory_id_for_node ?net p = Some pm" "get_memory ?net pm = Some bm" by (rule usable_memory [OF graph d(4)])
  let ?ranked = "with_beta_memory pm enable_ncc_parent_ranks ?net"
  obtain m k net1 net' where new: "allocate_ncc_memory ?net = (k, net1)" "create_ncc_node p (root_id ?net) k net1 = Inr ((?n, m), net')"
    and leaf: "leaf_added ?n (Ncc p (root_id ?net) m k []) p ?ranked net'" and grown: "grown ?ranked net'"
    using ncc_leaf [OF graph d(4) room pm] by blast
  have root: "root_id net1 = root_id ?net" using new(1) by (auto simp: allocate_ncc_memory_def Let_def)
  have graph0: "graph_ok rank ?ranked" by (rule graph_ok_same [OF graph]) simp
  let ?prior = "st\<lparr>cs_rete := update_beta (with_beta_memory pm enable_ncc_parent_ranks) (cs_rete st)\<rparr>"
  have joins0: "joins_ok (cs_compiler st) ?ranked" using d(3) by (simp add: joins_ok_def)
  have usable0: "usable ?ranked p" using d(4) by (simp add: usable_def)
  have opened0: "opened ?ranked j k \<and> j \<noteq> p" if jk: "(j, k) \<in> open_nccs" for j k using d(5,6) [OF jk] by (simp add: opened_def)
  have st0: "compiling content live h open_nccs p ?prior"
    by (rule compilingI) (use steady_ranked [OF d(1), of pm] d(2) joins0 usable0 opened0 in simp_all)
  let ?opened = "st\<lparr>cs_rete := (cs_rete st)\<lparr>r_beta := net'\<rparr>\<rparr>"
  have leaf0: "leaf_added ?n (Ncc p (root_id ?net) m k []) p (r_beta (cs_rete ?prior)) net'" using leaf by simp
  have st1: "compiling content live h open_nccs ?n ?opened" "next_node ?opened = next_node ?prior + 1"
    using compiling_leaf [OF st0 _ room leaf0, of rank ?opened] graph0 grown joins_ok_grown [OF joins0 grown] by simp_all
  have next0: "next_node ?prior = next_node st" by (simp add: with_beta_memory_def)
  have node: "get_node net' ?n = Some (Ncc p (root_id ?net) m k [])" using leaf_nodes [OF graph0 leaf] by auto
  have none: "get_node net' j \<noteq> Some (NccPartner q ?n c)" for j q c
  proof
    assume j: "get_node net' j = Some (NccPartner q ?n c)"
    then have "j \<noteq> ?n" using node by auto
    with leaf_nodes [OF graph0 leaf] j obtain old where old: "get_node ?ranked j = Some old" "skeleton (NccPartner q ?n c) = skeleton old" by blast
    then have "get_node ?ranked j = Some (NccPartner q ?n c)" using skeleton_cases(6) [OF old(2) [symmetric]] skeleton_cases(5) by metis
    from graph_okD(7) [OF graph0 this] obtain x where "get_node ?ranked ?n = Some x" by blast
    with fresh_id [OF graph0 this] show False by (simp add: with_beta_memory_def)
  qed
  have opened: "opened net' ?n k" using node none by (simp add: opened_def)
  have p: "usable net' p" "p \<noteq> ?n"
    using usable_grown [OF _ grown] d(4) fresh_id [OF graph] by (auto simp: usable_def)
  have others: "opened net' j k'" "j \<noteq> ?n" if "(j, k') \<in> open_nccs" for j k'
    using compilingD(5,6) [OF st1(1) that] by simp_all
  have "compiling content live h (insert (?n, k) open_nccs) p ?opened"
    using st1(1) opened p others d(6) by (fastforce simp: compiling_def)
  with new root st1(2) next0 node others(2) show ?thesis
    by (intro exI [of _ k] exI [of _ net1] exI [of _ ?n] exI [of _ m] exI [of _ net']) (auto simp: usable_def)
qed

lemma close_ncc:
  assumes st: "compiling content live h (insert (ncc, k) open_nccs) p st" and room: "next_node st + 1 < 2 ^ 32"
    and ncc: "usable (r_beta (cs_rete st)) ncc" "\<forall>(j, k) \<in> open_nccs. j \<noteq> ncc"
  shows "\<exists>n net1 net2 net3. create_ncc_partner p ncc k (r_beta (cs_rete st)) = Inr (n, net1) \<and>
    link_ncc_after_subnetwork ncc (set_ncc_partner ncc n net1) = Some net2 \<and> register_ncc_entry_wait ncc nested net2 = Some net3 \<and>
    compiling content live h open_nccs ncc (st\<lparr>cs_rete := (cs_rete st)\<lparr>r_beta := net3\<rparr>, cs_bound := bound\<rparr>) \<and>
    unat (next_beta_node net3) = next_node st + 1"
proof -
  let ?net = "r_beta (cs_rete st)" and ?n = "next_beta_node (r_beta (cs_rete st))"
  note d = compilingD [OF st]
  obtain rank where graph: "graph_ok rank ?net" using d(1) by (rule steadyE)
  have opened: "opened ?net ncc k" "p \<noteq> ncc" using d(5,6) by auto
  obtain net0 net1 netp rank' q m where new: "create_ncc_partner p ncc k ?net = Inr (?n, net1)" "set_ncc_partner ncc ?n net1 = netp"
    and grown: "grown ?net netp" and graph': "graph_ok rank' netp" and graph0: "graph_ok rank net0"
    and net0: "net0 = ?net\<lparr>beta_nodes := (beta_nodes ?net)(ncc \<mapsto> Ncc q ?n m k [])\<rparr>"
    and leaf: "leaf_added ?n (NccPartner p ncc k) p net0 netp"
    using partner_leaf [OF graph d(4) room opened] by blast
  obtain net2 where link: "link_ncc_after_subnetwork ncc netp = Some net2" "graph_ok rank' net2" "grown netp net2"
    "next_beta_node net2 = next_beta_node netp" "\<And>j k. opened netp j k \<Longrightarrow> opened net2 j k"
    using link_linked [OF graph'] by blast
  obtain net3 where reg: "register_ncc_entry_wait ncc nested net2 = Some net3" "graph_ok rank' net3" "grown net2 net3"
    "next_beta_node net3 = next_beta_node net2" "\<And>j k. opened net2 j k \<Longrightarrow> opened net3 j k"
    using register_registered [OF link(2)] by blast
  note grown3 = grown_trans [OF grown_trans [OF grown link(3)] reg(3)]
  have others: "opened net3 j k'" "j \<noteq> ncc" if jk: "(j, k') \<in> open_nccs" for j k'
  proof -
    show other: "j \<noteq> ncc" using ncc(2) jk by auto
    have j: "opened ?net j k'" "j \<noteq> p" using d(5,6) [of j k'] jk by auto
    have "opened net0 j k'"
      by (rule opened_nodes [OF j(1)]) (use other in \<open>auto simp: net0 get_node_def split: if_splits\<close>)
    then have "opened netp j k'" by (rule opened_leaf [OF graph0 leaf]) (use j other in auto)
    then show "opened net3 j k'" by (intro reg(5) link(5))
  qed
  let ?st = "st\<lparr>cs_rete := (cs_rete st)\<lparr>r_beta := net3\<rparr>, cs_bound := bound\<rparr>"
  have "compiling content live h open_nccs ncc ?st"
    using steady_grown [OF d(1) grown3 reg(2)] d(2) joins_ok_grown [OF d(3) grown3] usable_grown [OF ncc(1) grown3] others
    by (auto simp: compiling_def)
  moreover have "unat (next_beta_node net3) = next_node st + 1"
    using leaf_counts(1) [OF graph0 leaf] room by (simp add: reg(4) link(4))
  ultimately show ?thesis using new link(1) reg(1) by blast
qed

lemma ncc_compiles:
  assumes each: "\<And>c. c \<in> set subs \<Longrightarrow> condition_compiles content live h fb rule vm c"
    and st: "compiling content live h open_nccs p st" and fits: "condition_fits vm (CondNcc subs)"
    and room: "next_node st + condition_nodes (CondNcc subs) < 2 ^ 32" "alpha_size st + condition_alphas (CondNcc subs) \<le> 2 ^ 32"
  shows "steps_to content live h open_nccs (condition_nodes (CondNcc subs)) (condition_alphas (CondNcc subs)) st
    (compile_condition h fb rule vm nested (CondNcc subs) p st)"
proof -
  let ?b = "sum_list (map condition_nodes subs)" and ?a = "sum_list (map condition_alphas subs)"
  have room1: "next_node st + 1 < 2 ^ 32" using room(1) by simp
  obtain k net1 ncc m net2 where new: "allocate_ncc_memory (r_beta (cs_rete st)) = (k, net1)"
    "create_ncc_node p (root_id net1) k net1 = Inr ((ncc, m), net2)" and
    st1: "compiling content live h (insert (ncc, k) open_nccs) p (st\<lparr>cs_rete := (cs_rete st)\<lparr>r_beta := net2\<rparr>\<rparr>)" and
    ncc: "usable net2 ncc" "\<forall>(j, k) \<in> open_nccs. j \<noteq> ncc" "unat (next_beta_node net2) = next_node st + 1"
    using open_ncc [OF st room1] by blast
  let ?opened = "st\<lparr>cs_rete := (cs_rete st)\<lparr>r_beta := net2\<rparr>\<rparr>"
  have "steps_to content live h (insert (ncc, k) open_nccs) ?b ?a ?opened (compile_each h fb rule vm True subs p ?opened)"
    by (rule each_compiles [OF each st1]) (use fits room ncc(3) in simp_all)
  then obtain bottom st2 where two: "compile_each h fb rule vm True subs p ?opened = Inr (bottom, st2)"
    "compiling content live h (insert (ncc, k) open_nccs) bottom st2" "next_node st2 \<le> next_node ?opened + ?b" "alpha_size st2 \<le> alpha_size ?opened + ?a"
    by (auto simp: steps_to_def)
  have "usable (r_beta (cs_rete st2)) ncc"
    using compilingD(5) [OF two(2), of ncc k] by (auto simp: opened_def usable_def)
  moreover have room2: "next_node st2 + 1 < 2 ^ 32" using two(3) ncc(3) room(1) by simp
  ultimately obtain n net3 net4 net5 where close: "create_ncc_partner bottom ncc k (r_beta (cs_rete st2)) = Inr (n, net3)"
    "link_ncc_after_subnetwork ncc (set_ncc_partner ncc n net3) = Some net4" "register_ncc_entry_wait ncc nested net4 = Some net5"
    "compiling content live h open_nccs ncc (st2\<lparr>cs_rete := (cs_rete st2)\<lparr>r_beta := net5\<rparr>, cs_bound := cs_bound st\<rparr>)"
    "unat (next_beta_node net5) = next_node st2 + 1"
    using close_ncc [OF two(2) _ _ ncc(2), of nested "cs_bound st"] by blast
  have "compile_condition h fb rule vm nested (CondNcc subs) p st =
      Inr (ncc, st2\<lparr>cs_rete := (cs_rete st2)\<lparr>r_beta := net5\<rparr>, cs_bound := cs_bound st\<rparr>)"
    by (simp add: new Let_def two(1) close(1-3))
  with close(4,5) two(3,4) ncc(3) show ?thesis by (auto simp: steps_to_def)
qed

lemma conditions_compile:
  assumes host: "host_ok h" and base: "base_live content live fb"
  shows "condition_compiles content live h fb rule vm c"
proof (induction c)
  case (CondPattern pat)
  show ?case
    using compile_pattern_ok [OF _ host base] by (simp add: condition_compiles_def)
next
  case (CondPredicate i)
  show ?case using predicate_compiles by (simp add: condition_compiles_def)
next
  case (CondNcc subs)
  show ?case
    unfolding condition_compiles_def using ncc_compiles [OF CondNcc] by blast
qed

end
