(* ===== verification/Compiler_Installation.thy ===== *)
theory Compiler_Installation
  imports Compiler_Correct
begin

text \<open>
  Installing a rule: what validation establishes of the conditions, and that compilation either
  reports an error and changes nothing or ends with a consistent network that holds the rule.
\<close>

section \<open>What is checked before the network changes\<close>

lemma try_then_Inr: "try_then m f = Inr y \<longleftrightarrow> (\<exists>x. m = Inr x \<and> f x = Inr y)"
  by (cases m) (simp_all add: try_then_def)

lemma check_limit_Inr [simp]: "check_limit what n limit = Inr x \<longleftrightarrow> n \<le> limit"
  by (auto simp: check_limit_def)

text \<open>The patterns of a condition, its conjunctions opened.\<close>

fun condition_patterns :: "compilable_condition \<Rightarrow> compilable_pattern list" where
  "condition_patterns (CondPattern pat) = [pat]"
| "condition_patterns (CondPredicate _) = []"
| "condition_patterns (CondNcc subs) = concat (map condition_patterns subs)"

lemma pattern_tests_valid:
  assumes "validate_pattern_tests pat = Inr ()" "pat_sequence pat = Some plan"
  shows "validate_plan plan = Inr ()"
  using assms by (auto simp: validate_pattern_tests_def try_then_Inr validate_entry_def Let_def split: sum.splits)

lemma conditions_valid:
  "check_conditions pending n = Inr () \<Longrightarrow> c \<in> set pending \<Longrightarrow> pat \<in> set (condition_patterns c) \<Longrightarrow>
    validate_pattern_tests pat = Inr ()"
proof (induction pending n arbitrary: c rule: check_conditions.induct)
  case (2 d pending n)
  have rest: "case d of CondPattern pat \<Rightarrow> validate_pattern_tests pat = Inr () \<and> check_conditions pending (n + 1) = Inr ()
      | CondNcc subs \<Rightarrow> check_conditions (rev subs @ pending) (n + 1) = Inr () | CondPredicate _ \<Rightarrow> check_conditions pending (n + 1) = Inr ()"
    and limit: "check_limit RuleConditions (n + 1) max_rule_conditions = Inr ()"
    using "2.prems"(1) by (auto simp: try_then_Inr split: compilable_condition.splits)
  show ?case
  proof (cases d)
    case (CondPattern pat')
    with rest "2.IH"(1) [OF CondPattern] "2.prems"(2,3) show ?thesis by auto
  next
    case (CondPredicate i)
    with rest "2.IH"(2) [OF CondPredicate] "2.prems"(2,3) show ?thesis by auto
  next
    case (CondNcc subs)
    then have checked: "check_conditions (rev subs @ pending) (n + 1) = Inr ()" using rest by simp
    have "\<exists>c' \<in> set (rev subs @ pending). pat \<in> set (condition_patterns c')"
      using "2.prems"(2,3) CondNcc by auto
    with "2.IH"(3) [OF CondNcc checked] show ?thesis by blast
  qed
qed simp

lemma validated:
  assumes "validate_conditions conditions = Inr ()" "c \<in> set conditions" "pat \<in> set (condition_patterns c)"
  shows "validate_pattern_tests pat = Inr ()"
  using assms conditions_valid [of "rev conditions" 0 c pat] by (auto simp: validate_conditions_def try_then_Inr)

text \<open>Registration keeps the names it has and adds those it is given.\<close>

definition var_extends :: "var_map \<Rightarrow> var_map \<Rightarrow> bool" where
  "var_extends vm vm' \<longleftrightarrow> (\<forall>x. var_lookup vm x \<noteq> None \<longrightarrow> var_lookup vm' x = var_lookup vm x)"

lemma var_extends_trans: "var_extends a b \<Longrightarrow> var_extends b c \<Longrightarrow> var_extends a c"
  by (simp add: var_extends_def)

lemma names_known_extends: "names_known vm xs \<Longrightarrow> var_extends vm vm' \<Longrightarrow> names_known vm' xs"
  by (simp add: names_known_def var_extends_def)

lemma condition_fits_extends: "condition_fits vm c \<Longrightarrow> var_extends vm vm' \<Longrightarrow> condition_fits vm' c"
  by (induction c) (auto simp: pattern_fits_def intro: names_known_extends)

lemma register_variables_ok: "register_variables xs vm = Inr vm' \<Longrightarrow> var_extends vm vm' \<and> names_known vm' xs"
proof (induction xs arbitrary: vm)
  case Nil
  then show ?case by (simp add: var_extends_def names_known_def)
next
  case (Cons x xs)
  obtain i vm1 where one: "get_or_create x vm = (Inr i, vm1)" "register_variables xs vm1 = Inr vm'"
    using Cons.prems by (auto split: prod.splits sum.splits)
  have "var_extends vm vm1" "var_lookup vm1 x \<noteq> None"
    using one(1) by (auto simp: get_or_create_def var_extends_def var_lookup_def Let_def split: option.splits if_splits)
  with Cons.IH [OF one(2)] show ?case by (fastforce simp: var_extends_def names_known_def)
qed

lemma register_conditions_ok:
  "register_conditions cs vm = Inr vm' \<Longrightarrow> (\<And>c pat. c \<in> set cs \<Longrightarrow> pat \<in> set (condition_patterns c) \<Longrightarrow> pattern_ok (pat_sequence pat)) \<Longrightarrow>
    var_extends vm vm' \<and> (\<forall>c \<in> set cs. condition_fits vm' c)"
proof (induction cs vm arbitrary: vm' rule: register_conditions.induct)
  case (1 vm)
  then show ?case by (simp add: var_extends_def)
next
  case (2 pat rest vm)
  obtain vm1 vm2 where r: "register_variables (map snd (variable_slots pat)) vm = Inr vm1"
    "register_variables (map (fst \<circ> snd) (negated_variable_slots pat)) vm1 = Inr vm2" "register_conditions rest vm2 = Inr vm'"
    using "2.prems"(1) by (auto simp: try_then_Inr)
  note a = register_variables_ok [OF r(1)] and b = register_variables_ok [OF r(2)]
  have c: "var_extends vm2 vm' \<and> (\<forall>c \<in> set rest. condition_fits vm' c)"
    by (rule "2.IH" [OF r(3)]) (use "2.prems"(2) in auto)
  have "pattern_ok (pat_sequence pat)" by (rule "2.prems"(2) [of "CondPattern pat"]) simp_all
  moreover have "names_known vm2 (pattern_names pat)"
    using names_known_extends [of vm1 "map snd (variable_slots pat)" vm2] a b by (auto simp: pattern_names_def names_known_def)
  ultimately have "pattern_fits vm' pat" using names_known_extends c by (simp add: pattern_fits_def)
  with a b c show ?case by (auto intro: var_extends_trans)
next
  case (3 i rest vm)
  have "var_extends vm vm' \<and> (\<forall>c \<in> set rest. condition_fits vm' c)"
    by (rule "3.IH") (use "3.prems" in auto)
  then show ?case by simp
next
  case (4 subs rest vm)
  obtain vm1 where r: "register_conditions subs vm = Inr vm1" "register_conditions rest vm1 = Inr vm'"
    using "4.prems"(1) by (auto simp: try_then_Inr)
  have a: "var_extends vm vm1 \<and> (\<forall>c \<in> set subs. condition_fits vm1 c)"
    by (rule "4.IH"(1) [OF r(1)]) (use "4.prems"(2) [of "CondNcc subs"] in auto)
  have b: "var_extends vm1 vm' \<and> (\<forall>c \<in> set rest. condition_fits vm' c)"
    by (rule "4.IH"(2) [OF r(2)]) (use "4.prems"(2) in auto)
  from a b condition_fits_extends show ?case by (auto intro: var_extends_trans)
qed

lemma capacity_checked: "ensure_capacity net n = Inr () \<Longrightarrow> unat (next_beta_node net) + n < 2 ^ 32"
proof -
  assume "ensure_capacity net n = Inr ()"
  then have "n \<le> unat ((- 1 :: u32) - next_beta_node net)"
    by (auto simp: ensure_capacity_def ensure_node_capacity_def Let_def split: if_splits)
  moreover have "unat ((- 1 :: u32) - next_beta_node net) = 2 ^ 32 - 1 - unat (next_beta_node net)"
    by (subst unat_sub) (simp_all add: unsigned_minus_1_eq_mask mask_eq_exp_minus_1)
  moreover have "unat (next_beta_node net) < 2 ^ 32" using unsigned_less [of "next_beta_node net"] by simp
  ultimately show ?thesis by simp
qed

section \<open>Installation\<close>

text \<open>The network and the compiler's caches between two operations.\<close>

definition consistent :: "(fact_id \<Rightarrow> fact) \<Rightarrow> fact_id list \<Rightarrow> host \<Rightarrow> rete_compiler \<Rightarrow> rete \<Rightarrow> bool" where
  "consistent content live h c r \<longleftrightarrow> steady content live h r \<and> paths_ok c (r_alpha r) \<and> joins_ok c (r_beta r)"

lemma consistent_kept:
  "consistent content live h c r \<Longrightarrow> steady content' live' h r' \<Longrightarrow> kept_wiring r r' \<Longrightarrow> consistent content' live' h c r'"
  using joins_ok_nodes same_graph_node by (auto simp: consistent_def kept_wiring_def paths_ok_def memory_path_def)

definition installation_fuel :: "compilable_condition list \<Rightarrow> rete \<Rightarrow> nat" where
  "installation_fuel conditions r =
     depth_bound r + 2 * maximum_new_beta_nodes conditions + sum_list (map condition_alphas conditions)"

lemma unchecked_ok:
  assumes ok: "consistent content live h c r" and host: "host_ok h" and base: "base_live content live fb"
    and fits: "\<And>x. x \<in> set conditions \<Longrightarrow> condition_fits vm x" and room: "unat (next_beta_node (r_beta r)) + maximum_new_beta_nodes conditions < 2 ^ 32"
      "length (nodes (r_alpha r)) + sum_list (map condition_alphas conditions) \<le> 2 ^ 32"
    and fuel: "installation_fuel conditions r < fuel"
  shows "returns (\<lambda>(installed, c', r'). consistent content live h c' r' \<and> result_rule installed = rule \<and> result_vars installed = vm \<and>
      (\<exists>p. get_node (r_beta r') (terminal_node installed) = Some (Terminal p rule s (and cx 0x07ff))) \<and>
      unat (next_beta_node (r_beta r')) \<le> unat (next_beta_node (r_beta r)) + maximum_new_beta_nodes conditions)
    (compile_conditions_unchecked fuel h fb rule (s, cx) conditions vm c r)"
proof -
  let ?net = "r_beta r" and ?b = "sum_list (map condition_nodes conditions)" and ?a = "sum_list (map condition_alphas conditions)"
  let ?st = "\<lparr>cs_compiler = c, cs_rete = r, cs_bound = symbol_set_new, cs_memories = []\<rparr>"
  note parts = ok [unfolded consistent_def]
  obtain rank0 where graph0: "graph_ok rank0 ?net" using parts by (meson steadyE)
  have "usable ?net (root_id ?net)" using graph_okD(1) [OF graph0] by (auto simp: usable_def)
  with parts have "compiling content live h {} (root_id ?net) ?st" by (simp add: compiling_def)
  with fits room have "steps_to content live h {} ?b ?a ?st (compile_each h fb rule vm False conditions (root_id ?net) ?st)"
    by (intro each_compiles conditions_compile [OF host base]) (simp_all add: maximum_new_beta_nodes_def)
  then obtain p st where each: "compile_each h fb rule vm False conditions (root_id ?net) ?st = Inr (p, st)"
    and st: "compiling content live h {} p st" and size: "next_node st \<le> unat (next_beta_node ?net) + ?b"
      "alpha_size st \<le> length (nodes (r_alpha r)) + ?a"
    by (auto simp: steps_to_def)
  let ?r1 = "cs_rete st"
  note d = compilingD [OF st]
  obtain rank where graph: "graph_ok rank (r_beta ?r1)" using d(1) by (rule steadyE)
  let ?n = "next_beta_node (r_beta ?r1)" and ?node = "Terminal p rule s (and cx 0x07ff)"
  have room1: "unat ?n + 1 < 2 ^ 32" using size(1) room(1) by (simp add: maximum_new_beta_nodes_def)
  obtain net where new: "create_terminal_node p rule s cx (r_beta ?r1) = Inr (?n, net)"
    and leaf: "leaf_added ?n ?node p (r_beta ?r1) net" and grown: "grown (r_beta ?r1) net"
    using terminal_leaf [OF graph d(4) room1] by blast
  let ?r2 = "?r1\<lparr>r_beta := net\<rparr>"
  have steady2: "steady content live h ?r2" by (rule steady_leaf [OF d(1) graph room1 leaf grown]) simp
  have node2: "get_node net ?n = Some ?node" using leaf_nodes [OF graph leaf] by auto
  have next2: "unat (next_beta_node net) = next_node st + 1" using leaf_counts(1) [OF graph leaf room1] by simp
  have ok2: "consistent content live h (cs_compiler st) ?r2"
    using steady2 d(2) joins_ok_grown [OF d(3) grown] by (simp add: consistent_def)
  obtain rank2 where rest: "at_rest rank2 content live h (depth_bound ?r2) ?r2" using steady2 by (rule steadyE)
  have fuel2: "depth_bound ?r2 < fuel"
    using fuel next2 size by (simp add: installation_fuel_def depth_bound_def maximum_new_beta_nodes_def)
  have known: "base_knows content fb live" using base by (simp add: base_live_def)
  define finish where "finish = (if fact_base_is_empty fb \<and> token_count (r_tokens r) = 1
      then activate_root_children fuel h fb (drop (length (root_children ?net)) (root_children net)) ?r2
      else initialize_beta_frontier fuel h fb (next_beta_node ?net) ?r2)"
  have "returns (\<lambda>r'. at_rest rank2 content live h (depth_bound ?r2) r' \<and> kept_wiring ?r2 r') finish"
  proof (cases "fact_base_is_empty fb \<and> token_count (r_tokens r) = 1")
    case True
    have graph2: "graph_ok rank2 net" using rete_invD(2) [OF at_restD(1) [OF rest]] by simp
    have "\<exists>child. get_node net k = Some child \<and> parent_node child = Some (root_id net)" if "k \<in> set (root_children net)" for k
    proof -
      obtain m cs where root: "get_node net (root_id net) = Some (Root m cs)" using graph_okD(1) [OF graph2] by blast
      with that have "k \<in> set cs" by (simp add: root_children_def)
      with graph_okD(4) [OF graph2 root] show ?thesis by simp
    qed
    then have "returns (\<lambda>r'. at_rest rank2 content live h (depth_bound ?r2) r' \<and> kept_wiring ?r2 r')
        (activate_root_children fuel h fb (drop (length (root_children ?net)) (root_children net)) ?r2)"
      by (intro roots_activated [OF rest known fuel2]) (auto dest: in_set_dropD)
    with True show ?thesis by (simp add: finish_def)
  next
    case False
    with frontier_initialized [OF rest known fuel2] show ?thesis by (auto simp: finish_def)
  qed
  moreover have "compile_conditions_unchecked fuel h fb rule (s, cx) conditions vm c r =
      and_then finish (\<lambda>r. Inr (\<lparr>result_rule = rule, terminal_node = ?n, alpha_memories = cs_memories st, result_vars = vm\<rparr>, cs_compiler st, r))"
    unfolding finish_def by (auto simp: compile_conditions_unchecked_def each new Let_def)
  moreover have "consistent content live h (cs_compiler st) r'" "get_node (r_beta r') ?n = Some ?node"
      "unat (next_beta_node (r_beta r')) \<le> unat (next_beta_node ?net) + maximum_new_beta_nodes conditions"
    if r': "at_rest rank2 content live h (depth_bound ?r2) r'" "kept_wiring ?r2 r'" for r'
  proof -
    show "consistent content live h (cs_compiler st) r'" by (rule consistent_kept [OF ok2 at_rest_steady [OF r'(1)] r'(2)])
    have same: "same_graph net (r_beta r')" using r'(2) by (simp add: kept_wiring_def)
    with node2 show "get_node (r_beta r') ?n = Some ?node" by (simp add: same_graph_node)
    show "unat (next_beta_node (r_beta r')) \<le> unat (next_beta_node ?net) + maximum_new_beta_nodes conditions"
      using same next2 size(1) by (simp add: same_graph_def maximum_new_beta_nodes_def)
  qed
  ultimately show ?thesis by (auto intro!: returns_and_then)
qed

text \<open>Conditions no plan of which is as wide as the machine's integers, and the room they need.\<close>

definition narrow_conditions :: "compilable_condition list \<Rightarrow> bool" where
  "narrow_conditions conditions \<longleftrightarrow> (\<forall>x \<in> set conditions. \<forall>pat \<in> set (condition_patterns x).
     case pat_sequence pat of None \<Rightarrow> True | Some plan \<Rightarrow> logical_width plan < usize_max)"

definition alpha_room :: "compilable_condition list \<Rightarrow> rete \<Rightarrow> bool" where
  "alpha_room conditions r \<longleftrightarrow> length (nodes (r_alpha r)) + sum_list (map condition_alphas conditions) \<le> 2 ^ 32"

lemma narrow_pattern:
  assumes "narrow_conditions conditions" "x \<in> set conditions" "pat \<in> set (condition_patterns x)" "validate_pattern_tests pat = Inr ()"
  shows "pattern_ok (pat_sequence pat)"
  using assms pattern_tests_valid [of pat] by (fastforce simp: narrow_conditions_def pattern_ok_def split: option.splits)

lemma prepared_fits:
  assumes "narrow_conditions conditions" "prepare_var_map conditions = Inr vm"
    and "\<And>x pat. x \<in> set conditions \<Longrightarrow> pat \<in> set (condition_patterns x) \<Longrightarrow> validate_pattern_tests pat = Inr ()"
    and "x \<in> set conditions"
  shows "condition_fits vm x"
proof -
  have "var_extends var_map_new vm \<and> (\<forall>c \<in> set conditions. condition_fits vm c)"
    by (rule register_conditions_ok) (use assms narrow_pattern in \<open>auto simp: prepare_var_map_def\<close>)
  with assms(4) show ?thesis by blast
qed

text \<open>What compilation guarantees, whatever way it is entered.\<close>

definition compiles ::
  "(fact_id \<Rightarrow> fact) \<Rightarrow> fact_id list \<Rightarrow> host \<Rightarrow> rule_id \<Rightarrow> salience \<Rightarrow> u16 \<Rightarrow> compilable_condition list \<Rightarrow> rete_compiler \<Rightarrow> rete \<Rightarrow>
   compile_result \<times> rete_compiler \<times> rete \<Rightarrow> bool" where
  "compiles content live h rule s cx conditions c r = (\<lambda>(installed, c', r').
     consistent content live h c' r' \<and> result_rule installed = rule \<and>
     (\<exists>p. get_node (r_beta r') (terminal_node installed) = Some (Terminal p rule s (and cx 0x07ff))) \<and>
     unat (next_beta_node (r_beta r')) \<le> unat (next_beta_node (r_beta r)) + maximum_new_beta_nodes conditions)"

lemma installed_compiles:
  assumes "consistent content live h c r" "host_ok h" "base_live content live fb"
    and "\<And>x. x \<in> set conditions \<Longrightarrow> condition_fits vm x" "unat (next_beta_node (r_beta r)) + maximum_new_beta_nodes conditions < 2 ^ 32"
      "alpha_room conditions r" "installation_fuel conditions r < fuel"
  shows "returns (compiles content live h rule s cx conditions c r) (compile_conditions_unchecked fuel h fb rule (s, cx) conditions vm c r)"
  using unchecked_ok [OF assms(1-5) _ assms(7), of rule s cx] assms(6)
  by (auto simp: alpha_room_def compiles_def elim!: returns_mono)

lemma compile_with_compiles:
  assumes ok: "consistent content live h c r" "host_ok h" "base_live content live fb" and room: "alpha_room conditions r" "installation_fuel conditions r < fuel"
    and prepared: "\<And>vm. prepared = Inr vm \<Longrightarrow> (\<forall>x \<in> set conditions. condition_fits vm x) \<and> ensure_capacity (r_beta r) (maximum_new_beta_nodes conditions) = Inr ()"
  shows "returns (\<lambda>(answer, c', r'). case answer of
      Inl e \<Rightarrow> prepared = Inl e \<and> c' = c \<and> r' = r | Inr installed \<Rightarrow> compiles content live h rule s cx conditions c r (installed, c', r'))
    (compile_with prepared (\<lambda>vm. compile_conditions_unchecked fuel h fb rule (s, cx) conditions vm c r) c r)"
proof (cases prepared)
  case (Inl e)
  then show ?thesis by (simp add: compile_with_def)
next
  case (Inr vm)
  note p = prepared [OF Inr]
  have "returns (compiles content live h rule s cx conditions c r) (compile_conditions_unchecked fuel h fb rule (s, cx) conditions vm c r)"
    by (rule installed_compiles [OF ok _ _ room]) (use p capacity_checked in auto)
  then show ?thesis unfolding compile_with_def Inr sum.case by (rule returns_and_then) auto
qed

lemma conditions_compiled:
  assumes ok: "consistent content live h c r" "host_ok h" "base_live content live fb" and room: "alpha_room conditions r" "installation_fuel conditions r < fuel"
    and narrow: "narrow_conditions conditions"
  shows "returns (\<lambda>(answer, c', r'). case answer of
      Inl e \<Rightarrow> c' = c \<and> r' = r | Inr installed \<Rightarrow> compiles content live h rule s 0 conditions c r (installed, c', r'))
    (compile_conditions fuel h fb rule s conditions c r)"
  unfolding compile_conditions_def
  by (rule returns_mono [OF compile_with_compiles [OF ok room]])
    (use validated prepared_fits [OF narrow] in \<open>auto simp: try_then_Inr split: sum.splits\<close>)

lemma each_valid_all: "each_valid pats = Inr () \<Longrightarrow> pat \<in> set pats \<Longrightarrow> validate_pattern_tests pat = Inr ()"
  by (induction pats) (auto simp: try_then_Inr)

lemma rule_compiled:
  assumes ok: "consistent content live h c r" "host_ok h" "base_live content live fb"
    and room: "alpha_room (map CondPattern (rule_patterns rule)) r" "installation_fuel (map CondPattern (rule_patterns rule)) r < fuel"
    and narrow: "narrow_conditions (map CondPattern (rule_patterns rule))"
  shows "returns (\<lambda>(answer, c', r'). case answer of
      Inl e \<Rightarrow> c' = c \<and> r' = r
    | Inr installed \<Rightarrow> compiles content live h (rule_number rule) (rule_salience rule) 0 (map CondPattern (rule_patterns rule)) c r (installed, c', r'))
    (compile_rule fuel h fb rule c r)"
proof -
  let ?conditions = "map CondPattern (rule_patterns rule)"
  have fits: "condition_fits vm x"
    if "each_valid (rule_patterns rule) = Inr ()" "prepare_var_map ?conditions = Inr vm" "x \<in> set ?conditions" for vm x
    by (rule prepared_fits [OF narrow that(2) _ that(3)]) (use each_valid_all [OF that(1)] in auto)
  show ?thesis
    unfolding compile_rule_def Let_def
    by (rule returns_mono [OF compile_with_compiles [OF ok room]])
      (use fits in \<open>auto simp: try_then_Inr split: sum.splits\<close>)
qed

lemma plan_compiled:
  assumes ok: "consistent content live h c r" "host_ok h" "base_live content live fb" and room: "alpha_room conditions r" "installation_fuel conditions r < fuel"
    and narrow: "narrow_conditions conditions" and plan: "plan_conditions s conditions = Inr plan"
    and capacity: "ensure_capacity (r_beta r) (maximum_new_beta_nodes conditions) = Inr ()"
  shows "returns (compiles content live h rule s cx conditions c r) (install_condition_plan fuel h fb rule (plan\<lparr>plan_complexity := cx\<rparr>) c r)"
proof -
  have plan': "planned plan = conditions" "plan_salience plan = s" "prepare_var_map conditions = Inr (plan_vars plan)"
    "validate_conditions conditions = Inr ()"
    using plan by (auto simp: plan_conditions_def try_then_Inr)
  have "condition_fits (plan_vars plan) x" if "x \<in> set conditions" for x
    by (rule prepared_fits [OF narrow plan'(3) validated [OF plan'(4)] that])
  then show ?thesis
    unfolding install_condition_plan_def using installed_compiles [OF ok _ capacity_checked [OF capacity] room] by (simp add: plan')
qed

end
