(* ===== verification/Fact_Base_Invariant.thy ===== *)
theory Fact_Base_Invariant
  imports Fact_Base
begin

text \<open>
  Every operation of the fact base keeps \<^const>\<open>fb_ok\<close>: first what storing and deleting one
  entry does to the derived sets, then each operation.
\<close>

lemma members_iff_case: "(case m k of None \<Rightarrow> {} | Some S \<Rightarrow> S) = members m k"
  by (simp add: members_def)

lemma ids_where_insert:
  assumes "facts fb' = (facts fb)(i \<mapsto> e)" "facts fb i = None"
  shows "ids_where P fb' = (if P (entry_fact e) then insert i (ids_where P fb) else ids_where P fb)"
  using assms by (auto simp: ids_where_def split: option.splits if_splits)

lemma ids_where_delete:
  assumes "facts fb' = (facts fb)(i := None)"
  shows "ids_where P fb' = ids_where P fb - {i}"
  using assms by (auto simp: ids_where_def split: option.splits if_splits)

lemma ids_where_cong: "facts fb' = facts fb \<Longrightarrow> ids_where P fb' = ids_where P fb"
  by (simp add: ids_where_def)

lemma fact_time_cong: "facts fb' = facts fb \<Longrightarrow> fact_time fb' = fact_time fb"
  by (simp add: fact_time_def fun_eq_iff)

lemma fact_time_upd: "facts fb' = (facts fb)(i \<mapsto> e) \<Longrightarrow>
    fact_time fb' j = (if j = i then entry_timestamp e else fact_time fb j)"
  by (simp add: fact_time_def)

lemma fact_time_delete: "facts fb' = (facts fb)(i := None) \<Longrightarrow> j \<noteq> i \<Longrightarrow> fact_time fb' j = fact_time fb j"
  by (simp add: fact_time_def)

lemma ids_where_dom: "ids_where P fb \<subseteq> dom (facts fb)"
  by (auto simp: ids_where_def split: option.splits)

lemma ids_where_iff: "i \<in> ids_where P fb \<longleftrightarrow> (\<exists>e. facts fb i = Some e \<and> P (entry_fact e))"
  by (auto simp: ids_where_def split: option.splits)

lemma fact_time_less: "entries_ok fb \<Longrightarrow> i \<in> dom (facts fb) \<Longrightarrow> fact_time fb i < next_timestamp fb"
  by (auto simp: entries_ok_def fact_time_def)

lemma fact_time_eq: "facts fb i = Some e \<Longrightarrow> fact_time fb i = entry_timestamp e"
  by (simp add: fact_time_def)

lemma chron_ok_cong: "facts fb' = facts fb \<Longrightarrow> chron_ok fb' P chron = chron_ok fb P chron"
  by (simp add: chron_ok_def ids_where_cong [of fb' fb] fact_time_cong [of fb' fb])

lemma candidates_ok_cong: "facts fb' = facts fb \<Longrightarrow> candidates_ok finish fb' c = candidates_ok finish fb c"
  by (simp add: candidates_ok_def ids_where_cong [of fb' fb] fact_time_cong [of fb' fb])

lemma entries_ok_cong:
  "facts fb' = facts fb \<Longrightarrow> next_timestamp fb' = next_timestamp fb \<Longrightarrow> entries_ok fb' = entries_ok fb"
  by (simp add: entries_ok_def fact_time_cong [of fb' fb])

lemma entries_ok_insert:
  assumes ok: "entries_ok fb" and new: "facts fb i = None" and room: "next_timestamp fb \<noteq> u64_max"
    and fs: "facts fb' = (facts fb)(i \<mapsto> \<lparr>entry_fact = f, entry_id = i, entry_timestamp = next_timestamp fb\<rparr>)"
    and nt: "next_timestamp fb' = next_timestamp fb + 1"
  shows "entries_ok fb'"
proof -
  have times: "fact_time fb' j = fact_time fb j" "fact_time fb j \<noteq> next_timestamp fb"
    if "j \<in> dom (facts fb)" for j
  proof -
    have "j \<noteq> i" using that new by auto
    then show "fact_time fb' j = fact_time fb j" by (simp add: fact_time_upd [OF fs])
    show "fact_time fb j \<noteq> next_timestamp fb" using fact_time_less [OF ok that] by simp
  qed
  have i: "fact_time fb' i = next_timestamp fb" by (simp add: fact_time_upd [OF fs])
  have "inj_on (fact_time fb') (dom (facts fb))"
    using ok times(1) by (simp add: entries_ok_def inj_on_def)
  moreover have "fact_time fb' i \<notin> fact_time fb' ` dom (facts fb)"
    using times i by (metis imageE)
  ultimately have "inj_on (fact_time fb') (insert i (dom (facts fb)))"
    using new by (simp add: inj_on_insert domIff)
  moreover have "dom (facts fb') = insert i (dom (facts fb))" by (simp add: fs)
  ultimately show ?thesis
    using ok room by (auto simp: entries_ok_def fs nt less_Suc_u64)
qed

lemma chron_ok_insert:
  assumes c: "chron_ok fb P chron" and ok: "entries_ok fb" and new: "facts fb i = None"
    and fs: "facts fb' = (facts fb)(i \<mapsto> \<lparr>entry_fact = f, entry_id = i, entry_timestamp = next_timestamp fb\<rparr>)"
  shows "chron_ok fb' P (if P f then bt_insert (next_timestamp fb) i chron else chron)"
proof -
  have old: "j \<noteq> i" "fact_time fb' j = fact_time fb j" "fact_time fb j < next_timestamp fb"
    if "j \<in> ids_where P fb" for j
  proof -
    have j: "j \<in> dom (facts fb)" using that subsetD [OF ids_where_dom] by blast
    then show "j \<noteq> i" using new by auto
    then show "fact_time fb' j = fact_time fb j" by (simp add: fact_time_upd [OF fs])
    show "fact_time fb j < next_timestamp fb" using fact_time_less [OF ok j] .
  qed
  have i: "fact_time fb' i = next_timestamp fb" by (simp add: fact_time_upd [OF fs])
  have times: "(\<lambda>j. (fact_time fb' j, j)) ` ids_where P fb = set chron"
    using c old(2) by (simp add: chron_ok_def cong: image_cong)
  have "next_timestamp fb \<notin> fst ` set chron"
    using old(3) times [symmetric] old(2) by force
  then show ?thesis
    using c times i by (simp add: chron_ok_def ids_where_insert [OF fs new] set_bt_insert_new bt_simps)
qed

lemma candidates_ok_insert:
  assumes c: "candidates_ok finish fb index" and ok: "entries_ok fb" and new: "facts fb i = None"
    and fs: "facts fb' = (facts fb)(i \<mapsto> \<lparr>entry_fact = f, entry_id = i, entry_timestamp = next_timestamp fb\<rparr>)"
  shows "candidates_ok finish fb' (vec_index_push (structural_fingerprint finish f) i index)"
  unfolding candidates_ok_def
proof (intro conjI allI)
  fix fp
  let ?P = "\<lambda>f. structural_fingerprint finish f = fp" and ?xs = "bucket index fp"
  have xs: "sorted_wrt (\<lambda>i j. fact_time fb i < fact_time fb j) ?xs" "set ?xs = ids_where ?P fb"
    using c by (auto simp: candidates_ok_def)
  have old: "fact_time fb' j = fact_time fb j" "fact_time fb j < next_timestamp fb" if "j \<in> set ?xs" for j
  proof -
    have j: "j \<in> dom (facts fb)" using that xs(2) subsetD [OF ids_where_dom] by blast
    then have "j \<noteq> i" using new by auto
    then show "fact_time fb' j = fact_time fb j" by (simp add: fact_time_upd [OF fs])
    show "fact_time fb j < next_timestamp fb" using fact_time_less [OF ok j] .
  qed
  have i: "fact_time fb' i = next_timestamp fb" by (simp add: fact_time_upd [OF fs])
  have "sorted_wrt (\<lambda>i j. fact_time fb' i < fact_time fb' j) ?xs"
    by (rule sorted_wrt_mono_rel [OF _ xs(1)]) (simp add: old)
  then show "sorted_wrt (\<lambda>i j. fact_time fb' i < fact_time fb' j)
      (bucket (vec_index_push (structural_fingerprint finish f) i index) fp)"
    using old i by (auto simp: bucket_push sorted_wrt_append)
  show "set (bucket (vec_index_push (structural_fingerprint finish f) i index) fp) = ids_where ?P fb'"
    using xs(2) by (auto simp: bucket_push ids_where_insert [OF fs new])
qed (use c in \<open>simp add: candidates_ok_def index_simps\<close>)

lemma fb_ok_insertI:
  assumes ok: "fb_ok finish fb" and new: "facts fb i = None" and room: "next_timestamp fb \<noteq> u64_max"
    and fs: "facts fb' = (facts fb)(i \<mapsto> \<lparr>entry_fact = f, entry_id = i, entry_timestamp = next_timestamp fb\<rparr>)"
    and nt: "next_timestamp fb' = next_timestamp fb + 1"
    and bt: "by_template fb' = (case f of Template t \<Rightarrow> set_index_add (template_id t) i (by_template fb)
        | _ \<Rightarrow> by_template fb)"
    and br: "sm_get (by_relation fb') = (case f of Ordered t \<Rightarrow> set_index_add (relation t) i (sm_get (by_relation fb))
        | _ \<Rightarrow> sm_get (by_relation fb))"
    and bs: "by_structural_fingerprint fb' =
        map_option (vec_index_push (structural_fingerprint finish f) i) (by_structural_fingerprint fb)"
    and tc: "by_template_chronology fb' = (\<lambda>t. map_option (\<lambda>c. if has_template t f
        then bt_insert (next_timestamp fb) i c else c) (by_template_chronology fb t))"
    and rc: "by_relation_chronology fb' = (\<lambda>t. map_option (\<lambda>c. if has_relation t f
        then bt_insert (next_timestamp fb) i c else c) (by_relation_chronology fb t))"
  shows "fb_ok finish fb'"
proof -
  have e: "entries_ok fb" using ok by (simp add: fb_ok_def)
  have "entries_ok fb'" by (rule entries_ok_insert [OF e new room fs nt])
  moreover have "pruned (by_template fb') \<and> (\<forall>t. members (by_template fb') t = ids_where (has_template t) fb')"
    using ok by (cases f) (auto simp: fb_ok_def bt index_simps ids_where_insert [OF fs new])
  moreover have "pruned (sm_get (by_relation fb')) \<and>
      (\<forall>r. members (sm_get (by_relation fb')) r = ids_where (has_relation r) fb')"
    using ok by (cases f) (auto simp: fb_ok_def br index_simps ids_where_insert [OF fs new])
  moreover have "candidates_ok finish fb' index" if "by_structural_fingerprint fb' = Some index" for index
    using that ok candidates_ok_insert [OF _ e new fs] by (auto simp: fb_ok_def bs)
  moreover have "chron_ok fb' (has_template t) chron" if "by_template_chronology fb' t = Some chron" for t chron
    using that ok chron_ok_insert [OF _ e new fs, of "has_template t"] by (auto simp: fb_ok_def tc)
  moreover have "chron_ok fb' (has_relation r) chron" if "by_relation_chronology fb' r = Some chron" for r chron
    using that ok chron_ok_insert [OF _ e new fs, of "has_relation r"] by (auto simp: fb_ok_def rc)
  ultimately show ?thesis by (simp add: fb_ok_def)
qed

lemma insert_indexed_exhausted:
  "next_timestamp fb = u64_max \<Longrightarrow> insert_indexed i f fp fb = (Inl FactTimestampExhausted, fb)"
  by (cases f) (simp_all add: insert_indexed_def insert_fact_def checked_add_u64_1_None_iff [THEN iffD2])

lemma checked_add_u64_1_Some: "t \<noteq> u64_max \<Longrightarrow> checked_add_u (t :: u64) 1 = Some (t + 1)"
  using checked_add_u64_1_None_iff [of t] by (auto simp: checked_add_u_def split: if_splits)

lemma map_option_if: "map_option (\<lambda>c. if b then g c else c) x = (if b then map_option g x else x)"
  by (simp add: option.map_ident)

text \<open>The fingerprint an insertion is given: that of the fact whenever the index exists.\<close>

definition fingerprint_fits :: "hasher \<Rightarrow> fact \<Rightarrow> u64 option \<Rightarrow> fact_base \<Rightarrow> bool" where
  "fingerprint_fits finish f fp fb \<longleftrightarrow>
     by_structural_fingerprint fb = None \<or> fp = Some (structural_fingerprint finish f)"

lemma insert_indexed_ok:
  assumes ok: "fb_ok finish fb" and new: "facts fb i = None" and room: "next_timestamp fb \<noteq> u64_max"
    and fit: "fingerprint_fits finish f fp fb"
  obtains fb' where "insert_indexed i f fp fb = (Inr i, fb')" "fb_ok finish fb'"
    "facts fb' = (facts fb)(i \<mapsto> \<lparr>entry_fact = f, entry_id = i, entry_timestamp = next_timestamp fb\<rparr>)"
    "next_timestamp fb' = next_timestamp fb + 1"
proof -
  define fb1 where "fb1 = snd (insert_fact i f fp fb)"
  have step: "insert_fact i f fp fb = (Inr i, fb1)"
    using room by (simp add: fb1_def insert_fact_def checked_add_u64_1_Some Let_def)
  have fb1: "facts fb1 = (facts fb)(i \<mapsto> \<lparr>entry_fact = f, entry_id = i, entry_timestamp = next_timestamp fb\<rparr>)"
    "next_timestamp fb1 = next_timestamp fb + 1" "by_template fb1 = by_template fb"
    "by_relation fb1 = by_relation fb" "by_template_chronology fb1 = by_template_chronology fb"
    "by_relation_chronology fb1 = by_relation_chronology fb"
    "by_structural_fingerprint fb1 =
        map_option (vec_index_push (structural_fingerprint finish f) i) (by_structural_fingerprint fb)"
    using room fit by (auto simp: fb1_def insert_fact_def checked_add_u64_1_Some Let_def
        fingerprint_fits_def split: option.split)
  obtain fb2 where ins: "insert_indexed i f fp fb = (Inr i, fb2)"
    unfolding insert_indexed_def step by (cases f) (simp_all add: Let_def)
  note eq = ins [unfolded insert_indexed_def step, simplified Let_def, simplified]
  have fb2: "facts fb2 = facts fb1" "next_timestamp fb2 = next_timestamp fb1"
    "by_structural_fingerprint fb2 = by_structural_fingerprint fb1"
    using eq by (auto split: fact.splits option.splits)
  have time: "fact_time fb1 i = next_timestamp fb" by (simp add: fact_time_def fb1)
  have same: "fact_time (fb1\<lparr>by_relation := x\<rparr>) i = next_timestamp fb"
    "fact_time (fb1\<lparr>by_template := y\<rparr>) i = next_timestamp fb" for x y
    by (simp_all add: fact_time_def fb1)
  have "fb_ok finish fb2"
  proof (rule fb_ok_insertI [OF ok new room])
    show "by_template fb2 = (case f of Template t \<Rightarrow> set_index_add (template_id t) i (by_template fb)
        | _ \<Rightarrow> by_template fb)"
      using eq by (auto simp: fb1 split: fact.splits option.splits)
    show "sm_get (by_relation fb2) = (case f of Ordered t \<Rightarrow> set_index_add (relation t) i (sm_get (by_relation fb))
        | _ \<Rightarrow> sm_get (by_relation fb))"
      using eq by (auto simp: fb1 sm_get_update_or
          set_index_add_def split: fact.splits option.splits)
    show "by_template_chronology fb2 = (\<lambda>t. map_option (\<lambda>c. if has_template t f
        then bt_insert (next_timestamp fb) i c else c) (by_template_chronology fb t))"
      using eq by (auto simp: fb1 same fun_eq_iff
          map_option_if split: fact.splits option.splits)
    show "by_relation_chronology fb2 = (\<lambda>t. map_option (\<lambda>c. if has_relation t f
        then bt_insert (next_timestamp fb) i c else c) (by_relation_chronology fb t))"
      using eq by (auto simp: fb1 same fun_eq_iff
          map_option_if split: fact.splits option.splits)
  qed (simp_all add: fb1 fb2)
  with ins fb1 fb2 that show thesis by simp
qed

subsection \<open>Retraction\<close>

lemma entries_ok_delete:
  assumes ok: "entries_ok fb" and fs: "facts fb' = (facts fb)(i := None)"
    and nt: "next_timestamp fb' = next_timestamp fb"
  shows "entries_ok fb'"
proof -
  have sub: "dom (facts fb') \<subseteq> dom (facts fb)" by (auto simp: fs)
  have "fact_time fb' j = fact_time fb j" if "j \<in> dom (facts fb')" for j
    using that fact_time_delete [OF fs] by (auto simp: fs split: if_splits)
  then have "inj_on (fact_time fb') (dom (facts fb')) = inj_on (fact_time fb) (dom (facts fb'))"
    by (rule inj_on_cong)
  then show ?thesis
    using ok sub by (auto simp: entries_ok_def nt fs intro: finite_subset inj_on_subset split: if_splits)
qed

lemma chron_ok_delete:
  assumes c: "chron_ok fb P chron" and ok: "entries_ok fb" and e: "facts fb i = Some e"
    and fs: "facts fb' = (facts fb)(i := None)"
  shows "chron_ok fb' P (if P (entry_fact e) then bt_remove (entry_timestamp e) chron else chron)"
proof -
  have times: "(\<lambda>j. (fact_time fb' j, j)) ` (ids_where P fb - {i}) =
      (\<lambda>j. (fact_time fb j, j)) ` (ids_where P fb - {i})"
    using fact_time_delete [OF fs] by (auto intro: image_cong)
  have inj: "fact_time fb j = entry_timestamp e \<longleftrightarrow> j = i" if "j \<in> ids_where P fb" for j
  proof -
    have "j \<in> dom (facts fb)" using that subsetD [OF ids_where_dom] by blast
    moreover have "i \<in> dom (facts fb)" using e by auto
    ultimately have "fact_time fb j = fact_time fb i \<longleftrightarrow> j = i"
      using ok unfolding entries_ok_def by (blast dest: inj_onD)
    then show ?thesis by (simp only: fact_time_eq [OF e])
  qed
  have set: "set chron = (\<lambda>j. (fact_time fb j, j)) ` ids_where P fb" and bt: "bt_ok chron"
    using c by (simp_all add: chron_ok_def)
  show ?thesis
  proof (cases "P (entry_fact e)")
    case True
    have "{p \<in> set chron. fst p \<noteq> entry_timestamp e} = (\<lambda>j. (fact_time fb j, j)) ` (ids_where P fb - {i})"
      using inj by (auto simp: set)
    then show ?thesis
      using True bt times by (simp add: chron_ok_def ids_where_delete [OF fs] bt_simps)
  next
    case False
    then have "i \<notin> ids_where P fb" using e by (simp add: ids_where_iff)
    then show ?thesis
      using False bt times set by (simp add: chron_ok_def ids_where_delete [OF fs])
  qed
qed

lemma candidates_ok_delete:
  assumes c: "candidates_ok finish fb index" and e: "facts fb i = Some e"
    and fs: "facts fb' = (facts fb)(i := None)"
  shows "candidates_ok finish fb' (vec_index_del (structural_fingerprint finish (entry_fact e)) i index)"
  unfolding candidates_ok_def
proof (intro conjI allI)
  fix fp
  let ?P = "\<lambda>f. structural_fingerprint finish f = fp"
  let ?ys = "bucket (vec_index_del (structural_fingerprint finish (entry_fact e)) i index) fp"
  have xs: "sorted_wrt (\<lambda>i j. fact_time fb i < fact_time fb j) (bucket index fp)"
    "set (bucket index fp) = ids_where ?P fb"
    using c by (auto simp: candidates_ok_def)
  have "i \<notin> ids_where ?P fb" if "structural_fingerprint finish (entry_fact e) \<noteq> fp"
    using that e by (simp add: ids_where_iff)
  then show set: "set ?ys = ids_where ?P fb'"
    using xs(2) by (auto simp: bucket_del ids_where_delete [OF fs])
  have "sorted_wrt (\<lambda>i j. fact_time fb i < fact_time fb j) ?ys"
    using xs(1) by (auto simp: bucket_del intro: sorted_wrt_filter)
  then show "sorted_wrt (\<lambda>i j. fact_time fb' i < fact_time fb' j) ?ys"
    by (rule sorted_wrt_mono_rel [rotated])
      (use set in \<open>auto simp: ids_where_delete [OF fs] fact_time_delete [OF fs]\<close>)
qed (use c in \<open>simp add: candidates_ok_def index_simps\<close>)

lemma fb_ok_deleteI:
  assumes ok: "fb_ok finish fb" and e: "facts fb i = Some e"
    and fs: "facts fb' = (facts fb)(i := None)" and nt: "next_timestamp fb' = next_timestamp fb"
    and bt: "by_template fb' = (case entry_fact e of Template t \<Rightarrow> set_index_del (template_id t) i (by_template fb)
        | _ \<Rightarrow> by_template fb)"
    and br: "sm_get (by_relation fb') = (case entry_fact e of Ordered t \<Rightarrow> set_index_del (relation t) i (sm_get (by_relation fb))
        | _ \<Rightarrow> sm_get (by_relation fb))"
    and bs: "by_structural_fingerprint fb' =
        map_option (vec_index_del (structural_fingerprint finish (entry_fact e)) i) (by_structural_fingerprint fb)"
    and tc: "by_template_chronology fb' = (\<lambda>t. map_option (\<lambda>c. if has_template t (entry_fact e)
        then bt_remove (entry_timestamp e) c else c) (by_template_chronology fb t))"
    and rc: "by_relation_chronology fb' = (\<lambda>t. map_option (\<lambda>c. if has_relation t (entry_fact e)
        then bt_remove (entry_timestamp e) c else c) (by_relation_chronology fb t))"
  shows "fb_ok finish fb'"
proof -
  have eok: "entries_ok fb" using ok by (simp add: fb_ok_def)
  have outside: "i \<notin> ids_where P fb" if "\<not> P (entry_fact e)" for P
    using that e by (simp add: ids_where_iff)
  have "entries_ok fb'" by (rule entries_ok_delete [OF eok fs nt])
  moreover have "pruned (by_template fb') \<and> (\<forall>t. members (by_template fb') t = ids_where (has_template t) fb')"
    using ok outside [of "has_template _"] by (cases "entry_fact e")
      (auto simp: fb_ok_def bt index_simps ids_where_delete [OF fs])
  moreover have "pruned (sm_get (by_relation fb')) \<and>
      (\<forall>r. members (sm_get (by_relation fb')) r = ids_where (has_relation r) fb')"
    using ok outside [of "has_relation _"] by (cases "entry_fact e")
      (auto simp: fb_ok_def br index_simps ids_where_delete [OF fs])
  moreover have "candidates_ok finish fb' index" if "by_structural_fingerprint fb' = Some index" for index
    using that ok candidates_ok_delete [OF _ e fs] by (auto simp: fb_ok_def bs)
  moreover have "chron_ok fb' (has_template t) chron" if "by_template_chronology fb' t = Some chron" for t chron
    using that ok chron_ok_delete [OF _ eok e fs, of "has_template t"] by (auto simp: fb_ok_def tc)
  moreover have "chron_ok fb' (has_relation r) chron" if "by_relation_chronology fb' r = Some chron" for r chron
    using that ok chron_ok_delete [OF _ eok e fs, of "has_relation r"] by (auto simp: fb_ok_def rc)
  ultimately show ?thesis by (simp add: fb_ok_def)
qed

lemma retract_unknown: "facts fb i = None \<Longrightarrow> retract finish i fb = (None, fb)"
  by (simp add: retract_def)

lemma retract_ok:
  assumes ok: "fb_ok finish fb" and e: "facts fb i = Some e"
  obtains fb' where "retract finish i fb = (Some e, fb')" "fb_ok finish fb'"
    "facts fb' = (facts fb)(i := None)" "next_timestamp fb' = next_timestamp fb"
proof -
  obtain fb' where step: "retract finish i fb = (Some e, fb')"
    by (simp add: retract_def e Let_def)
  note eq = step [unfolded retract_def, simplified e Let_def, simplified]
  have fb': "facts fb' = (facts fb)(i := None)" "next_timestamp fb' = next_timestamp fb"
    using eq by (auto split: fact.splits option.splits)
  have "fb_ok finish fb'"
  proof (rule fb_ok_deleteI [OF ok e fb'])
    show "by_template fb' = (case entry_fact e of Template t \<Rightarrow> set_index_del (template_id t) i (by_template fb)
        | _ \<Rightarrow> by_template fb)"
      using eq by (auto split: fact.splits option.splits)
    show "sm_get (by_relation fb') = (case entry_fact e of
          Ordered t \<Rightarrow> set_index_del (relation t) i (sm_get (by_relation fb))
        | _ \<Rightarrow> sm_get (by_relation fb))"
      using eq by (auto simp: sm_get_remove_from_set_index split: fact.splits option.splits)
    show "by_structural_fingerprint fb' =
        map_option (vec_index_del (structural_fingerprint finish (entry_fact e)) i) (by_structural_fingerprint fb)"
      using eq by (auto split: fact.splits option.splits)
    show "by_template_chronology fb' = (\<lambda>t. map_option (\<lambda>c. if has_template t (entry_fact e)
        then bt_remove (entry_timestamp e) c else c) (by_template_chronology fb t))"
      using eq by (auto simp: fun_eq_iff map_option_if split: fact.splits option.splits)
    show "by_relation_chronology fb' = (\<lambda>t. map_option (\<lambda>c. if has_relation t (entry_fact e)
        then bt_remove (entry_timestamp e) c else c) (by_relation_chronology fb t))"
      using eq by (auto simp: fun_eq_iff map_option_if split: fact.splits option.splits)
  qed
  with step fb' that show thesis by simp
qed

subsection \<open>The fingerprint index\<close>

lemma rebuild_bucket:
  assumes "distinct walk" "set walk \<subseteq> dom (facts fb)"
  shows "bucket (fold (\<lambda>i index. case facts fb i of
        Some e \<Rightarrow> vec_index_push (structural_fingerprint finish (entry_fact e)) i index | None \<Rightarrow> index)
      walk m) fp = bucket m fp @ filter (\<lambda>i. i \<in> ids_where (\<lambda>f. structural_fingerprint finish f = fp) fb) walk"
  using assms
proof (induction walk arbitrary: m)
  case (Cons i walk)
  then show ?case by (auto simp: bucket_push ids_where_iff)
qed simp

lemma rebuild_pruned:
  "vec_pruned m \<Longrightarrow> vec_pruned (fold (\<lambda>i index. case facts fb i of
        Some e \<Rightarrow> vec_index_push (structural_fingerprint finish (entry_fact e)) i index | None \<Rightarrow> index)
      walk m)"
  by (induction walk arbitrary: m) (auto simp: vec_pruned_push split: option.split)

lemma ensure_structural_index_facts [simp]:
  "facts (ensure_structural_index finish walk fb) = facts fb"
  "next_timestamp (ensure_structural_index finish walk fb) = next_timestamp fb"
  "by_structural_fingerprint (ensure_structural_index finish walk fb) \<noteq> None"
  by (auto simp: ensure_structural_index_def Let_def)

lemma ensure_structural_index_ok:
  assumes ok: "fb_ok finish fb" and walk: "enumerates walk (dom (facts fb))"
  shows "fb_ok finish (ensure_structural_index finish walk fb)"
proof (cases "by_structural_fingerprint fb")
  case (Some index)
  then show ?thesis using ok by (simp add: ensure_structural_index_def)
next
  case None
  let ?fb = "ensure_structural_index finish walk fb"
  define raw where "raw = fold (\<lambda>i index. case facts fb i of
        Some e \<Rightarrow> vec_index_push (structural_fingerprint finish (entry_fact e)) i index | None \<Rightarrow> index)
      walk Map.empty"
  define index where "index = (\<lambda>fp. map_option (\<lambda>candidates. if 1 < length candidates
      then sort_key (fact_time fb) candidates else candidates) (raw fp))"
  have fb: "?fb = fb\<lparr>by_structural_fingerprint := Some index\<rparr>"
    using None by (simp add: ensure_structural_index_def index_def raw_def)
  have eok: "entries_ok fb" using ok by (simp add: fb_ok_def)
  have raw: "bucket raw fp = filter (\<lambda>i. i \<in> ids_where (\<lambda>f. structural_fingerprint finish f = fp) fb) walk" for fp
    using walk by (simp add: raw_def rebuild_bucket enumeratesD)
  have "vec_pruned raw" unfolding raw_def by (intro rebuild_pruned) simp
  then have pr: "vec_pruned index"
    by (auto simp: vec_pruned_def index_def) (metis length_0_conv length_sort)
  have sorted: "bucket index fp = sort_key (fact_time fb) (bucket raw fp)" for fp
    by (auto simp: bucket_def index_def sort_key_short split: option.split)
  have "candidates_ok finish fb index"
    unfolding candidates_ok_def
  proof (intro conjI allI)
    fix fp
    let ?S = "ids_where (\<lambda>f. structural_fingerprint finish f = fp) fb"
    have sub: "?S \<subseteq> dom (facts fb)" by (rule ids_where_dom)
    then show "set (bucket index fp) = ?S" using walk by (auto simp: sorted raw dest!: enumeratesD(2))
    show "sorted_wrt (\<lambda>i j. fact_time fb i < fact_time fb j) (bucket index fp)"
      unfolding sorted raw
      using walk eok sub by (intro sort_key_strict)
        (auto simp: entries_ok_def dest: enumeratesD(1) intro: inj_on_subset)
  qed (rule pr)
  moreover have same: "facts ?fb = facts fb" "next_timestamp ?fb = next_timestamp fb" by simp_all
  ultimately show ?thesis
    using ok ids_where_cong [OF same(1)] chron_ok_cong [OF same(1)] candidates_ok_cong [OF same(1)]
      entries_ok_cong [OF same]
    by (simp add: fb_ok_def) (simp add: fb)
qed

text \<open>The first candidate that passes the full comparison is the oldest equivalent fact.\<close>

definition equivalents :: "fact_base \<Rightarrow> fact \<Rightarrow> fact_id set" where
  "equivalents fb f = ids_where (\<lambda>g. fact_structural_eq g f) fb"

definition oldest :: "fact_base \<Rightarrow> fact_id set \<Rightarrow> fact_id \<Rightarrow> bool" where
  "oldest fb S i \<longleftrightarrow> i \<in> S \<and> (\<forall>j \<in> S. fact_time fb i \<le> fact_time fb j)"

lemma find_equivalent_with_fingerprint_ok:
  assumes ok: "fb_ok finish fb" and "by_structural_fingerprint fb \<noteq> None"
  obtains r where "find_equivalent_with_fingerprint fb f (structural_fingerprint finish f) = Some r"
    "case r of None \<Rightarrow> equivalents fb f = {} | Some i \<Rightarrow> oldest fb (equivalents fb f) i"
proof -
  let ?fp = "structural_fingerprint finish f"
  let ?Q = "\<lambda>i. case facts fb i of Some e \<Rightarrow> fact_structural_eq (entry_fact e) f | None \<Rightarrow> False"
  obtain index where index: "by_structural_fingerprint fb = Some index" using assms(2) by auto
  have c: "candidates_ok finish fb index" using ok index by (simp add: fb_ok_def)
  have res: "find_equivalent_with_fingerprint fb f ?fp = Some (find ?Q (bucket index ?fp))"
    by (simp add: find_equivalent_with_fingerprint_def index bucket_def split: option.split)
  have Q: "{i \<in> set (bucket index ?fp). ?Q i} = equivalents fb f"
  proof (rule set_eqI)
    fix i
    have mem: "i \<in> set (bucket index ?fp) \<longleftrightarrow>
        (\<exists>e. facts fb i = Some e \<and> structural_fingerprint finish (entry_fact e) = ?fp)"
      using c by (simp add: candidates_ok_def ids_where_iff)
    show "i \<in> {i \<in> set (bucket index ?fp). ?Q i} \<longleftrightarrow> i \<in> equivalents fb f"
      unfolding mem mem_Collect_eq equivalents_def ids_where_iff
      by (cases "facts fb i") (auto intro: fact_structural_eq_fingerprint)
  qed
  have sorted: "sorted_wrt (\<lambda>i j. fact_time fb i < fact_time fb j) (bucket index ?fp)"
    using c by (simp add: candidates_ok_def)
  show thesis
  proof (cases "find ?Q (bucket index ?fp)")
    case None
    then have "equivalents fb f = {}" unfolding Q [symmetric] find_None_iff by auto
    with None res that show thesis by simp
  next
    case (Some i)
    note first = find_sorted_first [OF sorted Some]
    have "i \<in> equivalents fb f" unfolding Q [symmetric] using first(1,2) by simp
    moreover have "fact_time fb i \<le> fact_time fb j" if "j \<in> equivalents fb f" for j
      using that first(3) [of j] unfolding Q [symmetric] by simp
    ultimately have "oldest fb (equivalents fb f) i" by (simp add: oldest_def)
    with Some res that show thesis by simp
  qed
qed

end
