(* ===== verification/Fact_Base_Properties.thy ===== *)
theory Fact_Base_Properties
  imports Fact_Base_Invariant
begin

text \<open>
  What the fact base promises: the invariant over every reachable state, duplicate suppression,
  retraction and the live chronological cursors.
\<close>

section \<open>Assertion\<close>

lemma fb_ok_invalidate: "fb_ok finish fb \<Longrightarrow> fb_ok finish (fb\<lparr>by_structural_fingerprint := None\<rparr>)"
  using ids_where_cong [of "fb\<lparr>by_structural_fingerprint := None\<rparr>" fb]
    chron_ok_cong [of "fb\<lparr>by_structural_fingerprint := None\<rparr>" fb]
    entries_ok_cong [of "fb\<lparr>by_structural_fingerprint := None\<rparr>" fb]
  by (simp add: fb_ok_def)

lemma fb_ok_new: "fb_ok finish fact_base_new"
  by (simp add: fb_ok_def entries_ok_def fact_base_new_def ids_where_def members_def candidates_ok_def
      pruned_def)

text \<open>What an insertion of \<open>f\<close> under \<open>i\<close> does to the stored facts.\<close>

definition stored :: "fact_id \<Rightarrow> fact \<Rightarrow> fact_base \<Rightarrow> fact_base \<Rightarrow> bool" where
  "stored i f fb fb' \<longleftrightarrow>
     facts fb' = (facts fb)(i \<mapsto> \<lparr>entry_fact = f, entry_id = i, entry_timestamp = next_timestamp fb\<rparr>) \<and>
     next_timestamp fb' = next_timestamp fb + 1"

lemma equivalents_cong: "facts fb' = facts fb \<Longrightarrow> equivalents fb' f = equivalents fb f"
  by (simp add: equivalents_def ids_where_cong [of fb' fb])

lemma oldest_cong: "facts fb' = facts fb \<Longrightarrow> oldest fb' S i = oldest fb S i"
  by (simp add: oldest_def fact_time_cong [of fb' fb])

lemma try_assert_fact_ok:
  assumes ok: "fb_ok finish fb" and new: "fresh_key i (facts fb)"
    and walk: "enumerates walk (dom (facts fb))"
  obtains r fb' where "try_assert_fact finish walk i f dup fb = Some (r, fb')" "fb_ok finish fb'"
    "case r of
       Inr (Duplicate j) \<Rightarrow> \<not> dup \<and> oldest fb (equivalents fb f) j \<and> facts fb' = facts fb
     | Inr (Inserted j) \<Rightarrow> j = i \<and> (dup \<or> equivalents fb f = {}) \<and> next_timestamp fb \<noteq> u64_max \<and> stored i f fb fb'
     | Inl _ \<Rightarrow> (dup \<or> equivalents fb f = {}) \<and> next_timestamp fb = u64_max \<and> facts fb' = facts fb"
proof -
  note conclude = that
  have insert: thesis
    if st: "fb_ok finish fb1" "facts fb1 = facts fb" "next_timestamp fb1 = next_timestamp fb"
      and fit: "fingerprint_fits finish f fp fb1" and cond: "dup \<or> equivalents fb f = {}"
      and eq: "try_assert_fact finish walk i f dup fb =
        Some (case insert_indexed i f fp fb1 of
               (Inl e, fb) \<Rightarrow> (Inl e, fb) | (Inr i, fb) \<Rightarrow> (Inr (Inserted i), fb))"
    for fb1 fp
  proof (cases "next_timestamp fb = u64_max")
    case True
    then show thesis
      using that insert_indexed_exhausted [of fb1 i f fp] eq st cond
      by (intro conclude [of "Inl FactTimestampExhausted" fb1]) auto
  next
    case False
    have "facts fb1 i = None" "next_timestamp fb1 \<noteq> u64_max"
      using new st False by (simp_all add: fresh_key_def)
    from insert_indexed_ok [OF st(1) this fit] obtain fb2 where
      "insert_indexed i f fp fb1 = (Inr i, fb2)" "fb_ok finish fb2" "stored i f fb fb2"
      using st by (metis stored_def)
    then show thesis
      using eq cond False
      by (intro conclude [of "Inr (Inserted i)" fb2]) auto
  qed
  show thesis
  proof (cases dup)
    case True
    then show thesis
      by (intro insert [of "fb\<lparr>by_structural_fingerprint := None\<rparr>" None])
        (simp_all add: fb_ok_invalidate ok fingerprint_fits_def try_assert_fact_def)
  next
    case False
    let ?fb = "ensure_structural_index finish walk fb"
    have fb1: "fb_ok finish ?fb" by (rule ensure_structural_index_ok [OF ok walk])
    obtain r where r: "find_equivalent_with_fingerprint ?fb f (structural_fingerprint finish f) = Some r"
      "case r of None \<Rightarrow> equivalents ?fb f = {} | Some j \<Rightarrow> oldest ?fb (equivalents ?fb f) j"
      using find_equivalent_with_fingerprint_ok [OF fb1] ensure_structural_index_facts(3) by blast
    show thesis
    proof (cases r)
      case None
      with r False show thesis
        by (intro insert [of ?fb "Some (structural_fingerprint finish f)"])
          (simp_all add: fb1 fingerprint_fits_def try_assert_fact_def Let_def equivalents_cong [of ?fb fb])
    next
      case (Some j)
      with r False fb1 show thesis
        by (intro that [of "Inr (Duplicate j)" ?fb])
          (simp_all add: try_assert_fact_def Let_def equivalents_cong [of ?fb fb] oldest_cong [of ?fb fb])
    qed
  qed
qed

lemma try_assert_distinct_fact_ok:
  assumes ok: "fb_ok finish fb" and new: "fresh_key i (facts fb)"
  obtains r fb' where "try_assert_distinct_fact finish i f fb = (r, fb')" "fb_ok finish fb'"
    "case r of Inr j \<Rightarrow> j = i \<and> next_timestamp fb \<noteq> u64_max \<and> stored i f fb fb'
             | Inl _ \<Rightarrow> next_timestamp fb = u64_max \<and> fb' = fb"
proof (cases "next_timestamp fb = u64_max")
  case True
  then show thesis
    using ok by (intro that [of "Inl FactTimestampExhausted" fb])
      (simp_all add: try_assert_distinct_fact_def insert_indexed_exhausted)
next
  case False
  have "fingerprint_fits finish f
      (map_option (\<lambda>_. structural_fingerprint finish f) (by_structural_fingerprint fb)) fb"
    by (auto simp: fingerprint_fits_def)
  from insert_indexed_ok [OF ok new [unfolded fresh_key_def] False this] obtain fb' where
    "insert_indexed i f (map_option (\<lambda>_. structural_fingerprint finish f) (by_structural_fingerprint fb)) fb
       = (Inr i, fb')" "fb_ok finish fb'" "stored i f fb fb'"
    by (metis stored_def)
  with False show thesis by (intro that [of "Inr i" fb']) (simp_all add: try_assert_distinct_fact_def)
qed

lemma find_equivalent_ok:
  assumes ok: "fb_ok finish fb" and walk: "enumerates walk (dom (facts fb))"
  obtains r fb' where "find_equivalent finish walk f fb = Some (r, fb')" "fb_ok finish fb'"
    "facts fb' = facts fb"
    "case r of None \<Rightarrow> equivalents fb f = {} | Some i \<Rightarrow> oldest fb (equivalents fb f) i"
proof -
  let ?fb = "ensure_structural_index finish walk fb"
  have fb1: "fb_ok finish ?fb" by (rule ensure_structural_index_ok [OF ok walk])
  obtain r where "find_equivalent_with_fingerprint ?fb f (structural_fingerprint finish f) = Some r"
    "case r of None \<Rightarrow> equivalents ?fb f = {} | Some j \<Rightarrow> oldest ?fb (equivalents ?fb f) j"
    using find_equivalent_with_fingerprint_ok [OF fb1] ensure_structural_index_facts(3) by blast
  with fb1 show thesis
    by (intro that [of r ?fb])
      (simp_all add: find_equivalent_def Let_def equivalents_cong [of ?fb fb] oldest_cong [of ?fb fb]
        split: option.splits)
qed

section \<open>Chronological cursors\<close>

definition later :: "u64 option \<Rightarrow> timestamp \<Rightarrow> bool" where
  "later after t \<longleftrightarrow> (case after of None \<Rightarrow> True | Some a \<Rightarrow> a < t)"

text \<open>The next of the facts in \<open>S\<close> in assertion order, if any.\<close>

definition next_in :: "fact_base \<Rightarrow> fact_id set \<Rightarrow> u64 option \<Rightarrow> (fact_id \<times> u64) option \<Rightarrow> bool" where
  "next_in fb S after r \<longleftrightarrow>
     (case r of
        None \<Rightarrow> \<forall>i \<in> S. \<not> later after (fact_time fb i)
      | Some (i, t) \<Rightarrow> i \<in> S \<and> t = fact_time fb i \<and> later after t \<and>
          (\<forall>j \<in> S. later after (fact_time fb j) \<longrightarrow> t \<le> fact_time fb j))"

lemma chronology_next_ok:
  assumes c: "chron_ok fb P chron"
  shows "next_in fb (ids_where P fb) after (chronology_next after chron)"
proof -
  have bt: "bt_ok chron" and set: "\<And>t i. (t, i) \<in> set chron \<longleftrightarrow> i \<in> ids_where P fb \<and> t = fact_time fb i"
    using c by (auto simp: chron_ok_def)
  show ?thesis
  proof (cases after)
    case None
    show ?thesis
    proof (cases "bt_first chron")
      case None
      then show ?thesis
        using set \<open>after = None\<close> by (simp add: chronology_next_def next_in_def) (auto simp: bt_first_def)
    next
      case (Some p)
      then obtain t i where p: "bt_first chron = Some (t, i)" by (cases p) auto
      from bt_first_least [OF bt p] \<open>after = None\<close> p show ?thesis
        by (auto simp: chronology_next_def next_in_def set later_def)
    qed
  next
    case (Some a)
    show ?thesis
    proof (cases "bt_first_after a chron")
      case None
      then show ?thesis
        using set \<open>after = Some a\<close> bt_first_after_None_iff [of a chron]
        by (simp add: chronology_next_def next_in_def) (auto simp: later_def)
    next
      case (Some p)
      then obtain t i where p: "bt_first_after a chron = Some (t, i)" by (cases p) auto
      from bt_first_after_SomeD [OF bt p] \<open>after = Some a\<close> p show ?thesis
        by (auto simp: chronology_next_def next_in_def set later_def)
    qed
  qed
qed

lemma chronology_of_ok:
  assumes eok: "entries_ok fb" and walk: "enumerates walk (ids_where P fb)"
  shows "chron_ok fb P (chronology_of fb walk)"
proof -
  define ps where "ps = List.map_filter (\<lambda>i. map_option (\<lambda>e. (entry_timestamp e, i)) (facts fb i)) walk"
  have sub: "set walk \<subseteq> dom (facts fb)" using enumeratesD(2) [OF walk] ids_where_dom by blast
  then have ps: "ps = map (\<lambda>i. (fact_time fb i, i)) walk"
    unfolding ps_def by (induction walk) (auto simp: map_filter_simps fact_time_eq)
  have "inj_on (fact_time fb) (set walk)"
    using eok sub by (auto simp: entries_ok_def intro: inj_on_subset)
  then have "distinct (map fst ps)" using walk by (auto simp: ps distinct_map comp_def dest: enumeratesD)
  then have "set (bt_of_list ps) = set ps" by (rule set_bt_of_list)
  with walk show ?thesis
    by (simp add: chron_ok_def chronology_of_def ps_def [symmetric] bt_of_list_ok)
      (auto simp: ps dest: enumeratesD)
qed

lemma fb_ok_chronology:
  assumes ok: "fb_ok finish fb"
  shows "chron_ok fb (has_template t) c \<Longrightarrow>
      fb_ok finish (fb\<lparr>by_template_chronology := (by_template_chronology fb)(t \<mapsto> c)\<rparr>)" (is "_ \<Longrightarrow> fb_ok _ ?t")
    and "chron_ok fb (has_relation r) c \<Longrightarrow>
      fb_ok finish (fb\<lparr>by_relation_chronology := (by_relation_chronology fb)(r \<mapsto> c)\<rparr>)" (is "_ \<Longrightarrow> fb_ok _ ?r")
proof -
  note cong = ids_where_cong chron_ok_cong candidates_ok_cong entries_ok_cong
  show "fb_ok finish ?t" if "chron_ok fb (has_template t) c"
    using ok that cong [of ?t fb] by (auto simp: fb_ok_def)
  show "fb_ok finish ?r" if "chron_ok fb (has_relation r) c"
    using ok that cong [of ?r fb] by (auto simp: fb_ok_def)
qed

lemma facts_by_relation_eq: "fb_ok finish fb \<Longrightarrow> facts_by_relation fb r = ids_where (has_relation r) fb"
  by (simp add: fb_ok_def facts_by_relation_def members_iff_case)

lemma facts_by_template_eq: "fb_ok finish fb \<Longrightarrow> facts_by_template fb t = ids_where (has_template t) fb"
  by (simp add: fb_ok_def facts_by_template_def members_iff_case)

lemma next_relation_fact_after_ok:
  assumes ok: "fb_ok finish fb" and walk: "enumerates walk (facts_by_relation fb r)"
    and step: "next_relation_fact_after walk r after fb = (res, fb')"
  shows "fb_ok finish fb'" "facts fb' = facts fb" "next_in fb (ids_where (has_relation r) fb) after res"
proof -
  have eok: "entries_ok fb" using ok by (simp add: fb_ok_def)
  have built: "chron_ok fb (has_relation r) (chronology_of fb walk)"
    using chronology_of_ok [OF eok] walk by (simp add: facts_by_relation_eq [OF ok])
  have kept: "chron_ok fb (has_relation r) c" if "by_relation_chronology fb r = Some c" for c
    using ok that by (simp add: fb_ok_def)
  show "fb_ok finish fb'" "facts fb' = facts fb" "next_in fb (ids_where (has_relation r) fb) after res"
    using step ok fb_ok_chronology(2) [OF ok built] chronology_next_ok [OF built] kept chronology_next_ok
    by (auto simp: next_relation_fact_after_def Let_def split: option.splits)
qed

lemma next_template_fact_after_ok:
  assumes ok: "fb_ok finish fb" and walk: "enumerates walk (facts_by_template fb t)"
    and step: "next_template_fact_after walk t after fb = (res, fb')"
  shows "fb_ok finish fb'" "facts fb' = facts fb" "next_in fb (ids_where (has_template t) fb) after res"
proof -
  have eok: "entries_ok fb" using ok by (simp add: fb_ok_def)
  have built: "chron_ok fb (has_template t) (chronology_of fb walk)"
    using chronology_of_ok [OF eok] walk by (simp add: facts_by_template_eq [OF ok])
  have kept: "chron_ok fb (has_template t) c" if "by_template_chronology fb t = Some c" for c
    using ok that by (simp add: fb_ok_def)
  show "fb_ok finish fb'" "facts fb' = facts fb" "next_in fb (ids_where (has_template t) fb) after res"
    using step ok fb_ok_chronology(1) [OF ok built] chronology_next_ok [OF built] kept chronology_next_ok
    by (auto simp: next_template_fact_after_def Let_def split: option.splits)
qed

section \<open>Reachable fact bases\<close>

text \<open>Any history of calls, whatever ids the slot map returns and whatever order it is walked in.\<close>

inductive fb_reach :: "hasher \<Rightarrow> fact_base \<Rightarrow> bool" for finish where
  reach_new: "fb_reach finish fact_base_new"
| reach_assert: "fb_reach finish fb \<Longrightarrow> fresh_key i (facts fb) \<Longrightarrow> enumerates walk (dom (facts fb)) \<Longrightarrow>
    try_assert_fact finish walk i f dup fb = Some (r, fb') \<Longrightarrow> fb_reach finish fb'"
| reach_assert_distinct: "fb_reach finish fb \<Longrightarrow> fresh_key i (facts fb) \<Longrightarrow>
    try_assert_distinct_fact finish i f fb = (d, fb') \<Longrightarrow> fb_reach finish fb'"
| reach_find: "fb_reach finish fb \<Longrightarrow> enumerates walk (dom (facts fb)) \<Longrightarrow>
    find_equivalent finish walk f fb = Some (q, fb') \<Longrightarrow> fb_reach finish fb'"
| reach_retract: "fb_reach finish fb \<Longrightarrow> retract finish i fb = (e, fb') \<Longrightarrow> fb_reach finish fb'"
| reach_template_cursor: "fb_reach finish fb \<Longrightarrow> enumerates walk (facts_by_template fb t) \<Longrightarrow>
    next_template_fact_after walk t after fb = (n, fb') \<Longrightarrow> fb_reach finish fb'"
| reach_relation_cursor: "fb_reach finish fb \<Longrightarrow> enumerates walk (facts_by_relation fb s) \<Longrightarrow>
    next_relation_fact_after walk s after fb = (n, fb') \<Longrightarrow> fb_reach finish fb'"

lemma retract_keeps: "fb_ok finish fb \<Longrightarrow> retract finish i fb = (e, fb') \<Longrightarrow> fb_ok finish fb'"
  by (cases "facts fb i") (auto simp: retract_unknown elim: retract_ok)

text \<open>
  C7: The indexes of the fact base never drift. In every state that any history of assertions
  (with and without duplicate checking, accepted, suppressed or refused for lack of timestamps),
  distinct assertions, lookups, retractions and cursor moves can reach, the template index, the
  relation index, the structural index (when present, with its candidates oldest first) and every
  chronology that was ever started describe exactly the stored facts, and timestamps are unique.
\<close>

theorem fact_base_invariant:
  assumes "fb_reach finish fb"
  shows "fb_ok finish fb"
  using assms
proof (induction rule: fb_reach.induct)
  case (reach_assert fb i walk f dup r fb')
  from try_assert_fact_ok [OF reach_assert.IH reach_assert.hyps(2,3), of f dup] reach_assert.hyps(4)
  show ?case by auto
next
  case (reach_assert_distinct fb i f d fb')
  from try_assert_distinct_fact_ok [OF reach_assert_distinct.IH reach_assert_distinct.hyps(2), of f]
    reach_assert_distinct.hyps(3) show ?case by auto
next
  case (reach_find fb walk f q fb')
  from find_equivalent_ok [OF reach_find.IH reach_find.hyps(2), of f] reach_find.hyps(3)
  show ?case by auto
qed (auto intro: fb_ok_new retract_keeps next_relation_fact_after_ok(1) next_template_fact_after_ok(1))

theorem fact_base_invariant_witness:
  "\<exists>fb. fb_reach (\<lambda>ws. of_nat (length ws)) fb \<and> facts fb \<noteq> Map.empty \<and> fb_ok (\<lambda>ws. of_nat (length ws)) fb"
proof -
  let ?h = "\<lambda>ws. of_nat (length ws) :: u64" and ?f = "Template \<lparr>template_id = TemplateId 0, slots = []\<rparr>"
  have new: "fresh_key (FactId 0) (facts fact_base_new)"
    by (simp add: fresh_key_def fact_base_new_def)
  from try_assert_distinct_fact_ok [OF fb_ok_new this, of ?h ?f] obtain r fb where
    step: "try_assert_distinct_fact ?h (FactId 0) ?f fact_base_new = (r, fb)" and
    r: "case r of Inr j \<Rightarrow> j = FactId 0 \<and> next_timestamp fact_base_new \<noteq> u64_max \<and>
        stored (FactId 0) ?f fact_base_new fb | Inl _ \<Rightarrow> next_timestamp fact_base_new = u64_max \<and> fb = fact_base_new"
    by metis
  have room: "next_timestamp fact_base_new \<noteq> u64_max"
    by (simp add: fact_base_new_def timestamp_zero_def u64_max_def)
  have "fb_reach ?h fb" by (rule reach_assert_distinct [OF reach_new new step])
  moreover from this have "fb_ok ?h fb" by (rule fact_base_invariant)
  moreover have "facts fb \<noteq> Map.empty" using r room by (auto simp: stored_def split: sum.splits)
  ultimately show ?thesis by blast
qed

text \<open>
  C8: Duplicate suppression is exact. With duplicates disallowed, asserting a fact answers
  \<open>Duplicate\<close> if and only if a live fact is structurally equal to it, whatever hash function is
  used and however often its values collide; the answer is the oldest such fact and no fact
  changes. Otherwise the fact is stored under the new id with the next timestamp and nothing else
  changes, unless all timestamps are used up, which is reported and leaves the facts untouched.
\<close>

theorem duplicate_suppression:
  assumes "fb_ok finish fb" and "fresh_key i (facts fb)" and "enumerates walk (dom (facts fb))"
  shows "case try_assert_fact finish walk i f False fb of
      None \<Rightarrow> False
    | Some (Inr (Duplicate j), fb') \<Rightarrow> oldest fb (equivalents fb f) j \<and> facts fb' = facts fb
    | Some (Inr (Inserted j), fb') \<Rightarrow> j = i \<and> equivalents fb f = {} \<and> stored i f fb fb'
    | Some (Inl FactTimestampExhausted, fb') \<Rightarrow>
        equivalents fb f = {} \<and> next_timestamp fb = u64_max \<and> facts fb' = facts fb"
proof -
  obtain r fb' where "try_assert_fact finish walk i f False fb = Some (r, fb')"
    and "case r of
       Inr (Duplicate j) \<Rightarrow> \<not> False \<and> oldest fb (equivalents fb f) j \<and> facts fb' = facts fb
     | Inr (Inserted j) \<Rightarrow> j = i \<and> (False \<or> equivalents fb f = {}) \<and> next_timestamp fb \<noteq> u64_max \<and> stored i f fb fb'
     | Inl _ \<Rightarrow> (False \<or> equivalents fb f = {}) \<and> next_timestamp fb = u64_max \<and> facts fb' = facts fb"
    using try_assert_fact_ok [OF assms, of f False] by blast
  then show ?thesis by (auto split: sum.splits fact_insertion_result.splits fact_error.splits)
qed

theorem duplicate_suppression_witness:
  "\<exists>fb'. try_assert_fact (\<lambda>_. 7) [] (FactId 5) (Ordered \<lparr>relation = Symbol (Utf8Id 0), fact_fields = [VInteger 1]\<rparr>)
     False fact_base_new = Some (Inr (Inserted (FactId 5)), fb')"
proof -
  let ?f = "Ordered \<lparr>relation = Symbol (Utf8Id 0), fact_fields = [VInteger 1]\<rparr>"
  have dom: "facts fact_base_new = Map.empty" by (simp add: fact_base_new_def)
  have none: "\<not> oldest fact_base_new (equivalents fact_base_new ?f) j" for j
    by (simp add: oldest_def equivalents_def ids_where_def dom)
  have room: "next_timestamp fact_base_new \<noteq> u64_max"
    by (simp add: fact_base_new_def timestamp_zero_def u64_max_def)
  show ?thesis
    using duplicate_suppression [of "\<lambda>_. 7" fact_base_new "FactId 5" "[]" ?f] none room
    by (auto simp: fb_ok_new fresh_key_def dom split: option.splits prod.splits sum.splits
        fact_insertion_result.splits fact_error.splits)
qed

text \<open>
  Retraction undoes assertion. Asserting a fact under a fresh id and then retracting that id
  returns exactly the stored entry and restores the set of facts; the timestamp stays consumed.
  Retracting an id that is not stored changes nothing.
\<close>

theorem retract_undoes_assert:
  assumes "fb_ok finish fb" and "fresh_key i (facts fb)" and "enumerates walk (dom (facts fb))"
    and "try_assert_fact finish walk i f dup fb = Some (Inr (Inserted j), fb')"
  shows "case retract finish j fb' of (entry, fb'') \<Rightarrow>
      entry = Some \<lparr>entry_fact = f, entry_id = i, entry_timestamp = next_timestamp fb\<rparr> \<and>
      facts fb'' = facts fb \<and> next_timestamp fb'' = next_timestamp fb + 1 \<and> fb_ok finish fb'' \<and>
      retract finish j fb'' = (None, fb'')"
proof -
  from try_assert_fact_ok [OF assms(1-3), of f dup] assms(4)
  have st: "fb_ok finish fb'" "j = i" "stored i f fb fb'" by auto
  then have e: "facts fb' j = Some \<lparr>entry_fact = f, entry_id = i, entry_timestamp = next_timestamp fb\<rparr>"
    by (simp add: stored_def)
  from retract_ok [OF st(1) e] obtain fb'' where
    "retract finish j fb' = (Some \<lparr>entry_fact = f, entry_id = i, entry_timestamp = next_timestamp fb\<rparr>, fb'')"
    "fb_ok finish fb''" "facts fb'' = (facts fb')(j := None)" "next_timestamp fb'' = next_timestamp fb'"
    by metis
  moreover from this st assms(2) have "facts fb'' = facts fb"
    by (auto simp: stored_def fresh_key_def)
  ultimately show ?thesis
    using st assms(2) by (simp add: retract_unknown fresh_key_def stored_def)
qed

theorem retract_undoes_assert_witness:
  "\<exists>fb. try_assert_fact (\<lambda>_. 7) [] (FactId 5) (Ordered \<lparr>relation = Symbol (Utf8Id 0), fact_fields = []\<rparr>)
     True fact_base_new = Some (Inr (Inserted (FactId 5)), fb) \<and>
     facts (snd (retract (\<lambda>_. 7) (FactId 5) fb)) = Map.empty"
proof -
  let ?f = "Ordered \<lparr>relation = Symbol (Utf8Id 0), fact_fields = []\<rparr>"
  have dom: "facts fact_base_new = Map.empty" by (simp add: fact_base_new_def)
  have pre: "fresh_key (FactId 5) (facts fact_base_new)" "enumerates [] (dom (facts fact_base_new))"
    by (simp_all add: fresh_key_def dom)
  have "checked_add_u (next_timestamp fact_base_new) 1 = Some (1 :: u64)"
    by (simp add: fact_base_new_def timestamp_zero_def checked_add_u_def)
  then obtain fb where step: "try_assert_fact (\<lambda>_. 7) [] (FactId 5) ?f True fact_base_new =
      Some (Inr (Inserted (FactId 5)), fb)"
    by (simp add: try_assert_fact_def insert_indexed_def insert_fact_def Let_def)
  from retract_undoes_assert [OF fb_ok_new pre step] step dom show ?thesis
    by (auto simp: case_prod_beta)
qed

text \<open>
  C10: The live cursor of a relation walks its facts in assertion order. From any cursor position
  it answers the oldest live fact of the relation asserted strictly after it, or nothing exactly
  when there is none, also when facts were asserted or retracted since the index was built and
  whatever order the index was built in; asking changes no fact and keeps the invariant.
\<close>

theorem relation_cursor_next:
  assumes "fb_ok finish fb" and "enumerates walk (facts_by_relation fb r)"
  shows "case next_relation_fact_after walk r after fb of (res, fb') \<Rightarrow>
    next_in fb (ids_where (has_relation r) fb) after res \<and> facts fb' = facts fb \<and> fb_ok finish fb'"
proof -
  obtain res fb' where step: "next_relation_fact_after walk r after fb = (res, fb')" by fastforce
  from next_relation_fact_after_ok [OF assms step] step show ?thesis by simp
qed

theorem relation_cursor_next_witness:
  "fst (next_relation_fact_after [] (Symbol (AsciiId 3)) None fact_base_new) = None"
proof -
  have dom: "facts fact_base_new = Map.empty" by (simp add: fact_base_new_def)
  have "enumerates [] (facts_by_relation fact_base_new (Symbol (AsciiId 3)))"
    by (simp add: facts_by_relation_def fact_base_new_def)
  from relation_cursor_next [OF fb_ok_new [of "\<lambda>_. 0"] this, of None] show ?thesis
    by (auto simp: next_in_def ids_where_def dom split: prod.splits option.splits)
qed

end
