(* ===== verification/Engine_Session.thy ===== *)
theory Engine_Session
  imports Compiler_Installation Fact_Base_Properties
begin

text \<open>
  The engine's core working as one: the fact base, the compiler and the network, with the
  operations the engine drives them by (\<open>engine.rs\<close>, \<open>loader.rs\<close> of the runtime crate). Modules and
  focus, host handles, tracing and diagnostics are outside, and so is the evaluation of predicates:
  what a predicate evaluates to is an argument. The engine drains the pending events at the end of
  each operation; here every turn of that loop is a step of its own, with any verdicts, so that a
  drained session is one that further \<open>session_event\<close> steps lead to.
\<close>

section \<open>State and operations\<close>

record session =
  s_base :: fact_base
  s_compiler :: rete_compiler
  s_rete :: rete

definition session_new :: "host \<Rightarrow> conflict_resolution_strategy \<Rightarrow> session outcome" where
  "session_new h s =
     and_then (rete_new h s) (\<lambda>r. Inr \<lparr>s_base = fact_base_new, s_compiler = rete_compiler_new, s_rete = r\<rparr>)"

definition propagate_fact_assertion :: "nat \<Rightarrow> host \<Rightarrow> fact_base \<Rightarrow> fact_id \<Rightarrow> rete \<Rightarrow> rete outcome" where
  "propagate_fact_assertion fuel h fb i r =
     (case fact_base_get fb i of
        None \<Rightarrow> Inl Panic
      | Some entry \<Rightarrow> and_then (rete_assert_fact fuel h fb i (entry_fact entry) r) (\<lambda>(_, r). Inr r))"

text \<open>The fresh key \<open>i\<close> is the one the slot map of the facts gives out next.\<close>

definition session_assert ::
  "nat \<Rightarrow> host \<Rightarrow> hasher \<Rightarrow> fact_id \<Rightarrow> fact \<Rightarrow> bool \<Rightarrow> session \<Rightarrow> ((fact_error + fact_insertion_result) \<times> session) outcome" where
  "session_assert fuel h finish i f duplicates s =
     (case try_assert_fact finish (walk_facts h (dom (facts (s_base s)))) i f duplicates (s_base s) of
        None \<Rightarrow> Inl Panic
      | Some (Inl e, fb) \<Rightarrow> Inr (Inl e, s\<lparr>s_base := fb\<rparr>)
      | Some (Inr (Inserted j), fb) \<Rightarrow>
          and_then (propagate_fact_assertion fuel h fb j (s_rete s)) (\<lambda>r.
            Inr (Inr (Inserted j), s\<lparr>s_base := fb, s_rete := r\<rparr>))
      | Some (Inr (Duplicate j), fb) \<Rightarrow> Inr (Inr (Duplicate j), s\<lparr>s_base := fb\<rparr>))"

definition session_assert_distinct ::
  "nat \<Rightarrow> host \<Rightarrow> hasher \<Rightarrow> fact_id \<Rightarrow> fact \<Rightarrow> session \<Rightarrow> ((fact_error + fact_id) \<times> session) outcome" where
  "session_assert_distinct fuel h finish i f s =
     (case try_assert_distinct_fact finish i f (s_base s) of
        (Inl e, fb) \<Rightarrow> Inr (Inl e, s\<lparr>s_base := fb\<rparr>)
      | (Inr j, fb) \<Rightarrow>
          and_then (propagate_fact_assertion fuel h fb j (s_rete s)) (\<lambda>r.
            Inr (Inr j, s\<lparr>s_base := fb, s_rete := r\<rparr>)))"

text \<open>The network goes first; the fact is still stored while it does.\<close>

definition session_retract :: "nat \<Rightarrow> host \<Rightarrow> hasher \<Rightarrow> fact_id \<Rightarrow> session \<Rightarrow> (bool \<times> session) outcome" where
  "session_retract fuel h finish i s =
     (case fact_base_get (s_base s) i of
        None \<Rightarrow> Inr (False, s)
      | Some entry \<Rightarrow>
          and_then (rete_retract_fact fuel h (s_base s) i (entry_fact entry) (s_rete s)) (\<lambda>(_, r).
            case retract finish i (s_base s) of
              (None, fb) \<Rightarrow> Inr (False, s\<lparr>s_base := fb, s_rete := r\<rparr>)
            | (Some _, fb) \<Rightarrow> Inr (True, s\<lparr>s_base := fb, s_rete := r\<rparr>)))"

definition session_reset :: "nat \<Rightarrow> host \<Rightarrow> session \<Rightarrow> session outcome" where
  "session_reset fuel h s =
     and_then (clear_working_memory fuel h (s_rete s)) (\<lambda>r. Inr (s\<lparr>s_base := fact_base_new, s_rete := r\<rparr>))"

text \<open>A retired rule number is used again when there is one.\<close>

definition session_install ::
  "nat \<Rightarrow> host \<Rightarrow> rule_id option \<Rightarrow> bool \<Rightarrow> compilation_plan \<Rightarrow> session \<Rightarrow> (compile_result \<times> session) outcome" where
  "session_install fuel h retired auto_focus plan s =
     and_then (case retired of Some rule \<Rightarrow> Inr (rule, s_compiler s) | None \<Rightarrow> allocate_rule_id (s_compiler s)) (\<lambda>(rule, c).
     and_then (install_condition_plan fuel h (s_base s) rule plan c (set_rule_auto_focus rule auto_focus (s_rete s))) (\<lambda>(installed, c, r).
       Inr (installed, s\<lparr>s_compiler := c, s_rete := r\<rparr>)))"

text \<open>
  One turn of the loop that drains the network's events. The verdict on a predicate is \<open>None\<close> where
  the engine goes on without one (a token that is gone, a rule without metadata).
\<close>

definition session_event :: "nat \<Rightarrow> host \<Rightarrow> (pending_event \<Rightarrow> bool option) \<Rightarrow> session \<Rightarrow> session outcome" where
  "session_event fuel h verdict s =
     (case pop_pending_event (s_rete s) of
        (None, r) \<Rightarrow> Inr (s\<lparr>s_rete := r\<rparr>)
      | (Some event, r) \<Rightarrow>
          and_then
            (case event of
               EvPredicate n t rule condition \<Rightarrow>
                 (case verdict event of
                    None \<Rightarrow> Inr r
                  | Some passed \<Rightarrow> resolve_predicate_match fuel h (s_base s) n t rule condition passed r)
             | EvNccLeft n t \<Rightarrow> resolve_ncc_left_activation fuel h (s_base s) n t r
             | EvAutoFocus _ \<Rightarrow> Inr r)
            (\<lambda>r. Inr (s\<lparr>s_rete := r\<rparr>)))"

definition session_pop :: "(rule_ordering \<Rightarrow> rule_id list) \<Rightarrow> (rule_id \<Rightarrow> bool) \<Rightarrow> session \<Rightarrow> activation option \<times> session" where
  "session_pop rules eligible s =
     (let (a, ag) = pop_matching_rule rules eligible (r_agenda (s_rete s))
      in (a, s\<lparr>s_rete := (s_rete s)\<lparr>r_agenda := ag\<rparr>\<rparr>))"

definition session_disable :: "host \<Rightarrow> rule_id \<Rightarrow> session \<Rightarrow> session" where
  "session_disable h rule s = s\<lparr>s_rete := disable_rule h rule (s_rete s)\<rparr>"

section \<open>Facts by content\<close>

text \<open>The invariant depends on the contents of live facts only.\<close>

lemma column_cong: "(\<And>e. e \<in> set elems \<Longrightarrow> key s e = key' s e) \<Longrightarrow> column key elems s = column key' elems s"
  by (auto simp: column_def fun_eq_iff intro!: arg_cong [where f = nonempty] filter_cong)

lemma alpha_ok_content:
  assumes ok: "alpha_ok content am" and same: "\<And>i. i \<in> set (mem_facts am) \<Longrightarrow> content' i = content i"
  shows "alpha_ok content' am"
proof -
  have "column (fact_key content') (mem_facts am) s = column (fact_key content) (mem_facts am) s" for s
    by (rule column_cong) (simp add: fact_key_def same)
  with ok show ?thesis by (simp add: alpha_ok_def index_ok_def)
qed

lemma net_ok_content:
  assumes ok: "net_ok content live alpha" and same: "\<And>i. i \<in> set live \<Longrightarrow> content' i = content i"
  shows "net_ok content' live alpha"
proof -
  have filled: "net_filled content live alpha" and shape: "net_shape alpha" using ok by (simp_all add: net_ok_def)
  have eq: "filter (\<lambda>i. path_matches e ts (content' i)) live = filter (\<lambda>i. path_matches e ts (content i)) live" for e ts
    by (rule filter_cong) (simp_all add: same)
  have "alpha_ok content' am" if am: "am \<in> set (memories alpha)" for am
  proof (rule alpha_ok_content)
    show "alpha_ok content am" using filled am by (simp add: net_filled_def)
    obtain k where k: "k < length (memories alpha)" "am = memories alpha ! k" using am by (auto simp: in_set_conv_nth)
    show "content' i = content i" if "i \<in> set (mem_facts am)" for i
      using memory_live [OF ok k(1)] that same k(2) by blast
  qed
  with filled shape eq show ?thesis by (simp add: net_ok_def net_filled_def)
qed

lemma tokens_ok_content:
  assumes inv: "rete_inv rank content live h outer r" and same: "\<And>i. i \<in> set live \<Longrightarrow> content' i = content i"
  shows "tokens_ok content' h r"
proof -
  have ok: "tokens_ok content h r" using rete_invD(4) [OF inv] .
  have "token_sound content' (r_alpha r) (r_beta r) (r_tokens r) tok" if t: "tokens (r_tokens r) t = Some tok" for t tok
  proof -
    have "derived content' node ptok tok = derived content node ptok tok" for node ptok
      using token_fact_live [OF inv t] same by (cases node) (auto simp: derived_def split: option.splits)
    moreover have "token_sound content (r_alpha r) (r_beta r) (r_tokens r) tok" using ok t by (auto simp: tokens_ok_def)
    ultimately show ?thesis by (simp add: token_sound_def cong: option.case_cong)
  qed
  with ok show ?thesis by (auto simp: tokens_ok_def)
qed

lemma steady_content:
  assumes steady: "steady content live h r" and same: "\<And>i. i \<in> set live \<Longrightarrow> content' i = content i"
  shows "steady content' live h r"
proof -
  obtain rank where rest: "at_rest rank content live h (depth_bound r) r" using steady by (rule steadyE)
  note inv = at_restD(1) [OF rest]
  have "rete_inv rank content' live h [] r"
    using inv net_ok_content [OF rete_invD(3) [OF inv] same] tokens_ok_content [OF inv same] unfolding rete_inv_def by blast
  with rest have "at_rest rank content' live h (depth_bound r) r" by (simp add: at_rest_def)
  then show ?thesis unfolding steady_def by blast
qed

section \<open>The live facts are the stored ones, in the order of their ages\<close>

definition fact_of :: "fact_base \<Rightarrow> fact_id \<Rightarrow> fact" where
  "fact_of fb i = entry_fact (the (facts fb i))"

definition in_age_order :: "fact_base \<Rightarrow> fact_id list \<Rightarrow> bool" where
  "in_age_order fb live \<longleftrightarrow> set live = dom (facts fb) \<and> sorted_wrt (<) (map (fact_age fb) live)"

lemma base_live_iff:
  assumes "fb_ok finish fb"
  shows "base_live (fact_of fb) live fb \<longleftrightarrow> in_age_order fb live"
proof -
  have "entry_timestamp e \<noteq> u64_max" if "facts fb i = Some e" for i e
  proof -
    have "entry_timestamp e < next_timestamp fb" using assms that by (auto simp: fb_ok_def entries_ok_def)
    moreover have "next_timestamp fb \<le> u64_max" by (simp add: u64_max_def)
    ultimately show ?thesis by simp
  qed
  then have "base_knows (fact_of fb) fb live" if "set live = dom (facts fb)"
    using that by (auto simp: base_knows_def fact_base_get_def fact_of_def)
  then show ?thesis by (auto simp: base_live_def in_age_order_def)
qed

lemma in_age_order_same: "facts fb' = facts fb \<Longrightarrow> in_age_order fb' live = in_age_order fb live"
  by (simp add: in_age_order_def fact_age_def [abs_def] fact_base_get_def)

lemma fact_of_same: "facts fb' = facts fb \<Longrightarrow> fact_of fb' = fact_of fb"
  by (simp add: fun_eq_iff fact_of_def)

lemma in_age_order_insert:
  assumes ok: "fb_ok finish fb" and order: "in_age_order fb live" and new: "fresh_key i (facts fb)" and st: "stored i f fb fb'"
  shows "in_age_order fb' (live @ [i])" "i \<notin> set live" "fact_of fb' i = f" "j \<in> set live \<Longrightarrow> fact_of fb' j = fact_of fb j"
proof -
  show fresh: "i \<notin> set live" using new order by (auto simp: fresh_key_def in_age_order_def)
  have facts': "facts fb' = (facts fb)(i \<mapsto> \<lparr>entry_fact = f, entry_id = i, entry_timestamp = next_timestamp fb\<rparr>)"
    using st by (simp add: stored_def)
  show "fact_of fb' i = f" "j \<in> set live \<Longrightarrow> fact_of fb' j = fact_of fb j"
    using fresh by (auto simp: fact_of_def facts')
  have age: "fact_age fb' j = fact_age fb j" if "j \<in> set live" for j
    using that fresh by (auto simp: fact_age_def fact_base_get_def facts')
  have "map (fact_age fb') live = map (fact_age fb) live" using age by simp
  then have "sorted_wrt (<) (map (fact_age fb') live)" using order by (simp only: in_age_order_def)
  moreover have "fact_age fb j < next_timestamp fb" if "j \<in> set live" for j
    using that order ok by (auto simp: in_age_order_def fact_age_def fact_base_get_def fb_ok_def entries_ok_def)
  moreover have "fact_age fb' i = next_timestamp fb" by (simp add: fact_age_def fact_base_get_def facts')
  moreover have "set live = dom (facts fb)" using order by (simp add: in_age_order_def)
  ultimately show "in_age_order fb' (live @ [i])"
    using age by (simp add: in_age_order_def sorted_wrt_append facts')
qed

lemma in_age_order_delete:
  assumes order: "in_age_order fb live" and facts': "facts fb' = (facts fb)(i := None)"
  shows "in_age_order fb' (filter (\<lambda>j. j \<noteq> i) live)" "j \<noteq> i \<Longrightarrow> fact_of fb' j = fact_of fb j"
proof -
  have "map (fact_age fb') (filter (\<lambda>j. j \<noteq> i) live) = map (fact_age fb) (filter (\<lambda>j. j \<noteq> i) live)"
    by (simp add: fact_age_def fact_base_get_def facts')
  moreover have "sorted_wrt (<) (map (fact_age fb) (filter (\<lambda>j. j \<noteq> i) live))"
    using order by (simp add: in_age_order_def sorted_wrt_map sorted_wrt_filter)
  ultimately have "sorted_wrt (<) (map (fact_age fb') (filter (\<lambda>j. j \<noteq> i) live))" by (simp only:)
  then show "in_age_order fb' (filter (\<lambda>j. j \<noteq> i) live)"
    using order by (auto simp: in_age_order_def facts' split: if_splits)
  show "j \<noteq> i \<Longrightarrow> fact_of fb' j = fact_of fb j" by (simp add: fact_of_def facts')
qed

section \<open>The invariant of a session\<close>

definition session_ok :: "host \<Rightarrow> hasher \<Rightarrow> session \<Rightarrow> bool" where
  "session_ok h finish s \<longleftrightarrow> host_ok h \<and> fb_ok finish (s_base s) \<and>
     (\<exists>live. in_age_order (s_base s) live \<and> consistent (fact_of (s_base s)) live h (s_compiler s) (s_rete s))"

lemma session_okE:
  assumes "session_ok h finish s"
  obtains live rank where "host_ok h" "fb_ok finish (s_base s)" "in_age_order (s_base s) live"
    "consistent (fact_of (s_base s)) live h (s_compiler s) (s_rete s)" "base_live (fact_of (s_base s)) live (s_base s)"
    "base_knows (fact_of (s_base s)) (s_base s) live"
    "at_rest rank (fact_of (s_base s)) live h (depth_bound (s_rete s)) (s_rete s)"
proof -
  obtain live where live: "host_ok h" "fb_ok finish (s_base s)" "in_age_order (s_base s) live"
    "consistent (fact_of (s_base s)) live h (s_compiler s) (s_rete s)"
    using assms by (auto simp: session_ok_def)
  then obtain rank where "at_rest rank (fact_of (s_base s)) live h (depth_bound (s_rete s)) (s_rete s)"
    by (auto simp: consistent_def elim: steadyE)
  moreover have base: "base_live (fact_of (s_base s)) live (s_base s)" using base_live_iff [OF live(2)] live(3) by blast
  moreover have "base_knows (fact_of (s_base s)) (s_base s) live" using base by (simp add: base_live_def)
  ultimately show thesis using that live by blast
qed

lemma session_okI:
  assumes "host_ok h" "fb_ok finish (s_base s)" "in_age_order (s_base s) live"
    "consistent (fact_of (s_base s)) live h (s_compiler s) (s_rete s)"
  shows "session_ok h finish s"
  using assms by (auto simp: session_ok_def)

lemma session_base:
  assumes "session_ok h finish s" "fb_ok finish fb" "facts fb = facts (s_base s)"
  shows "session_ok h finish (s\<lparr>s_base := fb\<rparr>)"
  using assms(1,2) unfolding session_ok_def by (simp add: in_age_order_same [OF assms(3)] fact_of_same [OF assms(3)])

text \<open>A step that leaves the facts, the nodes and the caches alone.\<close>

lemma session_rete:
  assumes ok: "session_ok h finish s" and live: "in_age_order (s_base s) live" "consistent (fact_of (s_base s)) live h (s_compiler s) (s_rete s)"
    and rest: "at_rest rank (fact_of (s_base s)) live h N r" and wired: "kept_wiring (s_rete s) r"
  shows "session_ok h finish (s\<lparr>s_rete := r\<rparr>)"
proof -
  have "consistent (fact_of (s_base s)) live h (s_compiler s) r"
    by (rule consistent_kept [OF live(2) at_rest_steady [OF rest] wired])
  with ok live(1) show ?thesis by (auto simp: session_ok_def)
qed

lemma session_started:
  assumes "host_ok h"
  shows "\<exists>s. session_new h cr = Inr s \<and> session_ok h finish s"
proof -
  obtain r where r: "rete_new h cr = Inr r" "at_rest (\<lambda>_. 0) (fact_of fact_base_new) [] h 1 r" "r_alpha r = alpha_network_new"
    using new_returns [OF assms, of 1] by force
  have "paths_ok rete_compiler_new alpha_network_new"
    by (auto simp: paths_ok_def rete_compiler_new_def alpha_network_new_def dest!: path_less)
  then have "consistent (fact_of fact_base_new) [] h rete_compiler_new r"
    using r(3) at_rest_steady [OF r(2)] by (simp add: consistent_def joins_ok_def rete_compiler_new_def)
  with r(1) assms fb_ok_new show ?thesis
    by (auto simp: session_new_def session_ok_def in_age_order_def fact_base_new_def)
qed

section \<open>Operations keep it, and return\<close>

definition session_keeps :: "host \<Rightarrow> hasher \<Rightarrow> session \<Rightarrow> session \<Rightarrow> bool" where
  "session_keeps h finish s s' \<longleftrightarrow> session_ok h finish s' \<and> kept_wiring (s_rete s) (s_rete s') \<and> s_compiler s' = s_compiler s"

lemma kept_depth: "kept_wiring r r' \<Longrightarrow> depth_bound r' = depth_bound r"
  by (simp add: kept_wiring_def depth_bound_def same_graph_def)

lemma propagated:
  assumes ok: "session_ok h finish s" and fuel: "depth_bound (s_rete s) < fuel" and fb: "fb_ok finish fb"
    and new: "fresh_key i (facts (s_base s))" and st: "stored i f (s_base s) fb"
  shows "returns (\<lambda>r. session_keeps h finish s (s\<lparr>s_base := fb, s_rete := r\<rparr>)) (propagate_fact_assertion fuel h fb i (s_rete s))"
proof -
  let ?r = "s_rete s"
  obtain live where live: "host_ok h" "fb_ok finish (s_base s)" "in_age_order (s_base s) live"
    "consistent (fact_of (s_base s)) live h (s_compiler s) ?r" using ok by (rule session_okE) blast
  note ins = in_age_order_insert [OF live(2,3) new st]
  have "steady (fact_of fb) live h ?r" by (rule steady_content) (use live(4) ins(4) in \<open>auto simp: consistent_def\<close>)
  then obtain rank where rest: "at_rest rank (fact_of fb) live h (depth_bound ?r) ?r" by (rule steadyE)
  have base: "base_knows (fact_of fb) fb (live @ [i])" using base_live_iff [OF fb] ins(1) by (auto simp: base_live_def)
  have get: "fact_base_get fb i = Some \<lparr>entry_fact = f, entry_id = i, entry_timestamp = next_timestamp (s_base s)\<rparr>"
    using st by (simp add: stored_def fact_base_get_def)
  from assert_returns [OF rest fuel ins(2) base] ins(3)
  have "returns (\<lambda>(acts, r'). at_rest rank (fact_of fb) (live @ [i]) h (depth_bound ?r) r' \<and> kept_wiring ?r r')
      (rete_assert_fact fuel h fb i f ?r)" by simp
  then show ?thesis unfolding propagate_fact_assertion_def get option.case fact_entry.select_convs
  proof (rule returns_and_then, goal_cases)
    case (1 x)
    obtain acts r' where x: "x = (acts, r')" by (cases x)
    with 1 have r': "at_rest rank (fact_of fb) (live @ [i]) h (depth_bound ?r) r'" "kept_wiring ?r r'" by simp_all
    have "consistent (fact_of fb) (live @ [i]) h (s_compiler s) r'"
      by (rule consistent_kept [OF live(4) at_rest_steady [OF r'(1)] r'(2)])
    with live(1) fb ins(1) r'(2) show ?case by (auto simp: x session_keeps_def session_ok_def)
  qed
qed

lemma session_assert_returns:
  assumes ok: "session_ok h finish s" and fuel: "depth_bound (s_rete s) < fuel" and new: "fresh_key i (facts (s_base s))"
  shows "returns (\<lambda>(answer, s'). session_keeps h finish s s' \<and> (case answer of
      Inl _ \<Rightarrow> facts (s_base s') = facts (s_base s)
    | Inr (Duplicate j) \<Rightarrow> facts (s_base s') = facts (s_base s)
    | Inr (Inserted j) \<Rightarrow> j = i \<and> stored i f (s_base s) (s_base s'))) (session_assert fuel h finish i f dup s)"
proof -
  have fb: "fb_ok finish (s_base s)" and host: "host_ok h" using ok by (auto simp: session_ok_def)
  then have walk: "enumerates (walk_facts h (dom (facts (s_base s)))) (dom (facts (s_base s)))"
    by (auto simp: host_ok_def walks_def fb_ok_def entries_ok_def)
  obtain answer fb' where attempt: "try_assert_fact finish (walk_facts h (dom (facts (s_base s)))) i f dup (s_base s) = Some (answer, fb')"
    "fb_ok finish fb'" and what: "case answer of
       Inr (Duplicate j) \<Rightarrow> \<not> dup \<and> oldest (s_base s) (equivalents (s_base s) f) j \<and> facts fb' = facts (s_base s)
     | Inr (Inserted j) \<Rightarrow> j = i \<and> (dup \<or> equivalents (s_base s) f = {}) \<and> next_timestamp (s_base s) \<noteq> u64_max \<and> stored i f (s_base s) fb'
     | Inl _ \<Rightarrow> (dup \<or> equivalents (s_base s) f = {}) \<and> next_timestamp (s_base s) = u64_max \<and> facts fb' = facts (s_base s)"
    using try_assert_fact_ok [OF fb new walk] by blast
  consider (full) e where "answer = Inl e" | (old) j where "answer = Inr (Duplicate j)" | (new) j where "answer = Inr (Inserted j)"
    by (metis fact_insertion_result.exhaust sum.exhaust)
  then show ?thesis
  proof cases
    case full
    with attempt what session_base [OF ok] show ?thesis by (simp add: session_assert_def session_keeps_def)
  next
    case old
    with attempt what session_base [OF ok] show ?thesis by (simp add: session_assert_def session_keeps_def)
  next
    case new: (new j)
    then have j: "j = i" "stored i f (s_base s) fb'" using what by simp_all
    have "returns (\<lambda>r. session_keeps h finish s (s\<lparr>s_base := fb', s_rete := r\<rparr>)) (propagate_fact_assertion fuel h fb' i (s_rete s))"
      by (rule propagated [OF ok fuel attempt(2) \<open>fresh_key i (facts (s_base s))\<close> j(2)])
    then have "returns (\<lambda>(answer, s'). session_keeps h finish s s' \<and> (case answer of
      Inl _ \<Rightarrow> facts (s_base s') = facts (s_base s)
    | Inr (Duplicate j) \<Rightarrow> facts (s_base s') = facts (s_base s)
    | Inr (Inserted j) \<Rightarrow> j = i \<and> stored i f (s_base s) (s_base s')))
      (and_then (propagate_fact_assertion fuel h fb' i (s_rete s)) (\<lambda>r. Inr (Inr (Inserted i), s\<lparr>s_base := fb', s_rete := r\<rparr>)))"
      by (rule returns_and_then) (simp add: j)
    with new attempt(1) j(1) show ?thesis by (simp add: session_assert_def)
  qed
qed

lemma session_assert_distinct_returns:
  assumes ok: "session_ok h finish s" and fuel: "depth_bound (s_rete s) < fuel" and new: "fresh_key i (facts (s_base s))"
  shows "returns (\<lambda>(answer, s'). session_keeps h finish s s') (session_assert_distinct fuel h finish i f s)"
proof -
  have fb: "fb_ok finish (s_base s)" using ok by (auto simp: session_ok_def)
  obtain answer fb' where attempt: "try_assert_distinct_fact finish i f (s_base s) = (answer, fb')" "fb_ok finish fb'"
    and what: "case answer of Inr j \<Rightarrow> j = i \<and> next_timestamp (s_base s) \<noteq> u64_max \<and> stored i f (s_base s) fb'
             | Inl _ \<Rightarrow> next_timestamp (s_base s) = u64_max \<and> fb' = s_base s"
    using try_assert_distinct_fact_ok [OF fb new] by blast
  show ?thesis
  proof (cases answer)
    case (Inl e)
    with attempt what ok show ?thesis by (simp add: session_assert_distinct_def session_keeps_def)
  next
    case (Inr j)
    with what have j: "j = i" "stored i f (s_base s) fb'" by simp_all
    have "returns (\<lambda>r. session_keeps h finish s (s\<lparr>s_base := fb', s_rete := r\<rparr>)) (propagate_fact_assertion fuel h fb' i (s_rete s))"
      by (rule propagated [OF ok fuel attempt(2) new j(2)])
    then have "returns (\<lambda>(answer, s'). session_keeps h finish s s')
      (and_then (propagate_fact_assertion fuel h fb' i (s_rete s)) (\<lambda>r. Inr (Inr i, s\<lparr>s_base := fb', s_rete := r\<rparr>)))"
      by (rule returns_and_then) simp
    with Inr attempt(1) j(1) show ?thesis by (simp add: session_assert_distinct_def)
  qed
qed

lemma session_retract_returns:
  assumes ok: "session_ok h finish s" and fuel: "depth_bound (s_rete s) < fuel"
  shows "returns (\<lambda>(gone, s'). session_keeps h finish s s' \<and> (gone \<longleftrightarrow> i \<in> dom (facts (s_base s))) \<and>
      facts (s_base s') = (facts (s_base s))(i := None)) (session_retract fuel h finish i s)"
proof (cases "facts (s_base s) i")
  case None
  with ok show ?thesis by (auto simp: session_retract_def fact_base_get_def session_keeps_def fun_eq_iff)
next
  case (Some e)
  let ?r = "s_rete s" and ?fb = "s_base s"
  obtain live rank where live: "host_ok h" "fb_ok finish ?fb" "in_age_order ?fb live"
    "consistent (fact_of ?fb) live h (s_compiler s) ?r" "base_knows (fact_of ?fb) ?fb live"
    and rest: "at_rest rank (fact_of ?fb) live h (depth_bound ?r) ?r" using ok by (rule session_okE) blast
  let ?live = "filter (\<lambda>j. j \<noteq> i) live"
  obtain fb' where fb': "retract finish i ?fb = (Some e, fb')" "fb_ok finish fb'" "facts fb' = (facts ?fb)(i := None)"
    using retract_ok [OF live(2) Some] by blast
  note del = in_age_order_delete [OF live(3) fb'(3)]
  have e: "entry_fact e = fact_of ?fb i" by (simp add: fact_of_def Some)
  have base: "base_knows (fact_of ?fb) ?fb ?live" using live(5) by (auto simp: base_knows_def)
  from retract_returns [OF rest fuel base]
  have "returns (\<lambda>(gone, r'). at_rest rank (fact_of ?fb) ?live h (depth_bound ?r) r' \<and> kept_wiring ?r r')
      (rete_retract_fact fuel h ?fb i (entry_fact e) ?r)" by (simp add: e)
  then have "returns (\<lambda>(gone, s'). session_keeps h finish s s' \<and> gone \<and> facts (s_base s') = (facts ?fb)(i := None))
      (and_then (rete_retract_fact fuel h ?fb i (entry_fact e) ?r) (\<lambda>(_, r). Inr (True, s\<lparr>s_base := fb', s_rete := r\<rparr>)))"
  proof (rule returns_and_then, goal_cases)
    case (1 x)
    obtain gone r' where x: "x = (gone, r')" by (cases x)
    with 1 have r': "at_rest rank (fact_of ?fb) ?live h (depth_bound ?r) r'" "kept_wiring ?r r'" by simp_all
    have "steady (fact_of fb') ?live h r'" by (rule steady_content [OF at_rest_steady [OF r'(1)]]) (simp add: del(2))
    then have "consistent (fact_of fb') ?live h (s_compiler s) r'" by (rule consistent_kept [OF live(4) _ r'(2)])
    with live(1) fb'(2,3) del(1) r'(2) show ?case by (auto simp: x session_keeps_def session_ok_def)
  qed
  then show ?thesis using Some by (simp add: session_retract_def fact_base_get_def fb'(1) domI)
qed

lemma session_reset_returns:
  assumes ok: "session_ok h finish s" and fuel: "depth_bound (s_rete s) < fuel"
  shows "returns (\<lambda>s'. session_keeps h finish s s' \<and> facts (s_base s') = Map.empty) (session_reset fuel h s)"
proof -
  let ?r = "s_rete s"
  obtain live rank where live: "host_ok h" "consistent (fact_of (s_base s)) live h (s_compiler s) ?r"
    and rest: "at_rest rank (fact_of (s_base s)) live h (depth_bound ?r) ?r" using ok by (rule session_okE) blast
  have "session_keeps h finish s (s\<lparr>s_base := fact_base_new, s_rete := r'\<rparr>)"
    if r': "at_rest rank (fact_of (s_base s)) [] h (depth_bound ?r) r'" "kept_wiring ?r r'" for r'
  proof -
    have "steady (fact_of fact_base_new) [] h r'" by (rule steady_content [OF at_rest_steady [OF r'(1)]]) simp
    then have "consistent (fact_of fact_base_new) [] h (s_compiler s) r'" by (rule consistent_kept [OF live(2) _ r'(2)])
    with live(1) fb_ok_new r'(2) show ?thesis
      by (auto simp: session_keeps_def session_ok_def in_age_order_def fact_base_new_def)
  qed
  then show ?thesis unfolding session_reset_def
    by (intro returns_and_then [OF clear_returns [OF rest fuel]]) (auto simp: fact_base_new_def)
qed

lemma session_keepsI:
  assumes ok: "session_ok h finish s" and live: "in_age_order (s_base s) live" "consistent (fact_of (s_base s)) live h (s_compiler s) (s_rete s)"
    and rest: "at_rest rank (fact_of (s_base s)) live h N r" and wired: "kept_wiring (s_rete s) r"
  shows "session_keeps h finish s (s\<lparr>s_rete := r\<rparr>)"
  using session_rete [OF ok live rest wired] wired by (simp add: session_keeps_def)

lemma session_disable_keeps:
  assumes ok: "session_ok h finish s"
  shows "session_keeps h finish s (session_disable h rule s)"
proof -
  obtain live rank where live: "in_age_order (s_base s) live" "consistent (fact_of (s_base s)) live h (s_compiler s) (s_rete s)"
    and rest: "at_rest rank (fact_of (s_base s)) live h (depth_bound (s_rete s)) (s_rete s)" using ok by (rule session_okE) blast
  show ?thesis unfolding session_disable_def
    by (rule session_keepsI [OF ok live at_rest_disable [OF rest]]) (simp add: kept_wiring_def disable_rule_def)
qed

lemma session_pop_keeps:
  assumes ok: "session_ok h finish s" and rules: "enumerates (rules (used_index (r_agenda (s_rete s)))) (dom (used_index (r_agenda (s_rete s))))"
  shows "session_keeps h finish s (snd (session_pop rules eligible s))"
proof -
  let ?r = "s_rete s" and ?p = "\<lambda>a. eligible (act_rule a)"
  obtain live rank where live: "in_age_order (s_base s) live" "consistent (fact_of (s_base s)) live h (s_compiler s) ?r"
    and rest: "at_rest rank (fact_of (s_base s)) live h (depth_bound ?r) ?r" using ok by (rule session_okE) blast
  let ?ag = "snd (pop_matching_rule rules eligible (r_agenda ?r))"
  note ag = pop_matching_rule_eq [where rules = rules and p = eligible, OF agenda_ok [OF rest] rules]
  have "activations ?ag = activations (snd (pop_matching ?p (r_agenda ?r)))"
    using arg_cong [OF ag(2), of activations] by simp
  moreover have "activations (snd (pop_matching ?p (r_agenda ?r))) i = Some x \<Longrightarrow> activations (r_agenda ?r) i = Some x" for i x
    by (rule pop_matching_ok [OF agenda_ok [OF rest], of ?p]) (simp_all split: if_splits)
  ultimately have "at_rest rank (fact_of (s_base s)) live h (depth_bound ?r) (?r\<lparr>r_agenda := ?ag\<rparr>)"
    by (intro at_rest_agenda [OF rest ag(3)]) simp
  from session_keepsI [OF ok live this] show ?thesis by (simp add: session_pop_def case_prod_beta kept_wiring_def)
qed

lemma popped_event:
  assumes "pop_pending_event r = (e, r')"
  shows "kept_wiring r r'" "e = Some ev \<Longrightarrow> ev \<in> set (pending_events r)" "event_sound h r' ev = event_sound h r ev"
proof -
  have r': "r_beta r' = r_beta r" "r_alpha r' = r_alpha r" "r_tokens r' = r_tokens r" "tokens_issued r' = tokens_issued r"
    "e = Some ev \<Longrightarrow> ev \<in> set (pending_events r)"
    using assms by (auto simp: pop_pending_event_def Let_def split: list.splits pending_event.splits)
  then show "kept_wiring r r'" "e = Some ev \<Longrightarrow> ev \<in> set (pending_events r)" by (simp_all add: kept_wiring_def)
  have "owned h r' = owned h r" by (simp add: fun_eq_iff owned_def issued_def r')
  then show "event_sound h r' ev = event_sound h r ev" by (simp add: event_sound_def r' split: pending_event.split)
qed

lemma session_event_returns:
  assumes ok: "session_ok h finish s" and fuel: "depth_bound (s_rete s) < fuel"
  shows "returns (session_keeps h finish s) (session_event fuel h verdict s)"
proof -
  let ?r = "s_rete s" and ?content = "fact_of (s_base s)" and ?N = "depth_bound (s_rete s)"
  obtain live rank where live: "in_age_order (s_base s) live" "consistent ?content live h (s_compiler s) ?r"
    and base: "base_knows ?content (s_base s) live" and rest: "at_rest rank ?content live h ?N ?r" using ok by (rule session_okE) blast
  obtain e r1 where pop: "pop_pending_event ?r = (e, r1)" by (cases "pop_pending_event ?r")
  note popped = popped_event [OF pop]
  have rest1: "at_rest rank ?content live h ?N r1" using at_rest_pop_event [OF rest] by (simp add: pop)
  have keep: "returns (session_keeps h finish s) (and_then m (\<lambda>r. Inr (s\<lparr>s_rete := r\<rparr>)))"
    if m: "returns (\<lambda>r'. at_rest rank ?content live h ?N r' \<and> kept_wiring r1 r') m" for m
    using m
  proof (rule returns_and_then)
    fix r' assume r': "at_rest rank ?content live h ?N r' \<and> kept_wiring r1 r'"
    then show "returns (session_keeps h finish s) (Inr (s\<lparr>s_rete := r'\<rparr>))"
      using session_keepsI [OF ok live, of rank ?N r'] kept_wiring_trans [OF popped(1)] by simp
  qed
  have still: "returns (session_keeps h finish s) (Inr (s\<lparr>s_rete := r1\<rparr>))" using keep [of "Inr r1"] rest1 by simp
  show ?thesis
  proof (cases e)
    case None
    with still show ?thesis by (simp add: session_event_def pop)
  next
    case (Some ev)
    have ncc: "returns (session_keeps h finish s) (and_then (resolve_ncc_left_activation fuel h (s_base s) n t r1) (\<lambda>r. Inr (s\<lparr>s_rete := r\<rparr>)))" for n t
      by (rule keep [OF resolve_ncc_returns [OF rest1 base fuel]])
    have sound: "event_sound h r1 ev"
      using rete_invD(8) [OF at_restD(1) [OF rest]] popped(2) [OF Some] popped(3) by (simp add: events_ok_def)
    have predicate: "returns (session_keeps h finish s) (and_then (resolve_predicate_match fuel h (s_base s) n t rule c passed r1) (\<lambda>r. Inr (s\<lparr>s_rete := r\<rparr>)))"
      if "ev = EvPredicate n t rule c" for n t rule c passed
      by (rule keep [OF resolve_predicate_returns [OF rest1 base fuel]]) (use sound that in simp)
    show ?thesis using Some still ncc predicate
      by (auto simp: session_event_def pop split: pending_event.split option.split)
  qed
qed

lemma allocated_rule:
  assumes "next_rule_id c \<noteq> - 1"
  shows "allocate_rule_id c = Inr (next_rule_id c, c\<lparr>next_rule_id := next_rule_id c + 1\<rparr>)"
proof -
  have "next_rule_id c < - 1" using assms by (simp add: word_order.not_eq_extremum)
  then have "unat (next_rule_id c) < unat (- 1 :: u32)" by (simp add: word_less_nat_alt)
  then show ?thesis by (simp add: allocate_rule_id_def checked_add_u_def unsigned_minus_1_eq_mask mask_eq_exp_minus_1)
qed

lemma complexity_masked: "and (and cx 0x07ff) 0x07ff = and cx (0x07ff :: u16)"
  by (simp add: and.assoc)

lemma session_install_returns:
  assumes ok: "session_ok h finish s" and plan: "plan_conditions salience conditions = Inr plan"
    and narrow: "narrow_conditions conditions" and capacity: "ensure_capacity (r_beta (s_rete s)) (maximum_new_beta_nodes conditions) = Inr ()"
    and room: "alpha_room conditions (s_rete s)" "installation_fuel conditions (s_rete s) < fuel"
    and numbers: "retired = None \<Longrightarrow> next_rule_id (s_compiler s) \<noteq> - 1"
  shows "returns (\<lambda>(installed, s'). session_ok h finish s' \<and> s_base s' = s_base s \<and>
      (\<exists>p. get_node (r_beta (s_rete s')) (terminal_node installed) =
         Some (Terminal p (result_rule installed) salience (and cx 0x07ff))))
    (session_install fuel h retired auto (with_complexity cx plan) s)"
proof -
  let ?r = "s_rete s" and ?content = "fact_of (s_base s)"
  obtain live rank where live: "host_ok h" "fb_ok finish (s_base s)" "in_age_order (s_base s) live" "consistent ?content live h (s_compiler s) ?r"
    "base_live ?content live (s_base s)" and rest: "at_rest rank ?content live h (depth_bound ?r) ?r" using ok by (rule session_okE) blast
  obtain rule c where rule: "(case retired of Some rule \<Rightarrow> Inr (rule, s_compiler s) | None \<Rightarrow> allocate_rule_id (s_compiler s)) = Inr (rule, c)"
    "alpha_path_cache c = alpha_path_cache (s_compiler s)" "join_node_cache c = join_node_cache (s_compiler s)"
    using numbers allocated_rule [of "s_compiler s"] by (cases retired) auto
  let ?r1 = "set_rule_auto_focus rule auto ?r"
  have same: "r_alpha ?r1 = r_alpha ?r" "r_beta ?r1 = r_beta ?r" by (simp_all add: set_rule_auto_focus_def)
  have "steady ?content live h ?r1" by (rule at_rest_steady [OF at_rest_auto_focus [OF rest]])
  then have ok1: "consistent ?content live h c ?r1" using live(4) rule(2,3) same by (simp add: consistent_def paths_ok_def joins_ok_def)
  have room1: "alpha_room conditions ?r1" "installation_fuel conditions ?r1 < fuel" "ensure_capacity (r_beta ?r1) (maximum_new_beta_nodes conditions) = Inr ()"
    using room capacity same by (simp_all add: alpha_room_def installation_fuel_def depth_bound_def)
  have "returns (compiles ?content live h rule salience (and cx 0x07ff) conditions c ?r1)
      (install_condition_plan fuel h (s_base s) rule (with_complexity cx plan) c ?r1)"
    unfolding with_complexity_def by (rule plan_compiled [OF ok1 live(1,5) room1(1,2) narrow plan room1(3)])
  then have "returns (\<lambda>(installed, s'). session_ok h finish s' \<and> s_base s' = s_base s \<and>
      (\<exists>p. get_node (r_beta (s_rete s')) (terminal_node installed) = Some (Terminal p (result_rule installed) salience (and cx 0x07ff))))
    (and_then (install_condition_plan fuel h (s_base s) rule (with_complexity cx plan) c ?r1)
      (\<lambda>(installed, c, r). Inr (installed, s\<lparr>s_compiler := c, s_rete := r\<rparr>)))"
  proof (rule returns_and_then, goal_cases)
    case (1 x)
    obtain installed c' r' where x: "x = (installed, c', r')" by (cases x)
    have "consistent ?content live h c' r'" using 1 by (auto simp: x compiles_def)
    then have "session_ok h finish (s\<lparr>s_compiler := c', s_rete := r'\<rparr>)" using live(1-3) by (auto simp: session_ok_def)
    with 1 complexity_masked show ?case by (auto simp: x compiles_def)
  qed
  then show ?thesis by (simp add: session_install_def rule(1))
qed

end
