(* ===== verification/Sample_Session.thy ===== *)
theory Sample_Session
  imports Engine_Session Alpha_Results "HOL-Library.List_Lexorder"
begin

text \<open>
  A concrete host and a concrete rule, on which the properties of sessions are tried. The keys are
  ordered, so that a set of keys can be walked in order.
\<close>

section \<open>Orders on keys\<close>

fun token_number :: "token_id \<Rightarrow> nat" where
  "token_number (TokenId n) = n"

fun activation_number :: "activation_id \<Rightarrow> nat" where
  "activation_number (ActivationId n) = n"

fun fact_number :: "fact_id \<Rightarrow> nat" where
  "fact_number (FactId n) = n"

fun cell_numbers :: "order_cell \<Rightarrow> nat list" where
  "cell_numbers (NegCell m t) = [0, m, token_number t]"
| "cell_numbers (NccCell m t) = [1, m, token_number t]"
| "cell_numbers (ReservedCell (n, t)) = [2, unat n, token_number t]"
| "cell_numbers (SuspendedCell k (n, t)) = [3, k, unat n, token_number t]"

lemma numbers_inj:
  "token_number a = token_number b \<longleftrightarrow> a = b" "activation_number c = activation_number d \<longleftrightarrow> c = d"
  "fact_number i = fact_number j \<longleftrightarrow> i = j"
proof -
  show "token_number a = token_number b \<longleftrightarrow> a = b" by (cases a; cases b) simp
  show "activation_number c = activation_number d \<longleftrightarrow> c = d" by (cases c; cases d) simp
  show "fact_number i = fact_number j \<longleftrightarrow> i = j" by (cases i; cases j) simp
qed

lemma cell_numbers_inj: "cell_numbers a = cell_numbers b \<longleftrightarrow> a = b"
  by (cases a rule: cell_numbers.cases; cases b rule: cell_numbers.cases) (auto simp: numbers_inj word_unat_eq_iff)

instantiation token_id :: linorder
begin

definition less_eq_token_id :: "token_id \<Rightarrow> token_id \<Rightarrow> bool" where
  "less_eq_token_id a b \<longleftrightarrow> token_number a \<le> token_number b"

definition less_token_id :: "token_id \<Rightarrow> token_id \<Rightarrow> bool" where
  "less_token_id a b \<longleftrightarrow> token_number a < token_number b"

instance
  by standard (auto simp: less_eq_token_id_def less_token_id_def numbers_inj)

end

instantiation activation_id :: linorder
begin

definition less_eq_activation_id :: "activation_id \<Rightarrow> activation_id \<Rightarrow> bool" where
  "less_eq_activation_id a b \<longleftrightarrow> activation_number a \<le> activation_number b"

definition less_activation_id :: "activation_id \<Rightarrow> activation_id \<Rightarrow> bool" where
  "less_activation_id a b \<longleftrightarrow> activation_number a < activation_number b"

instance
  by standard (auto simp: less_eq_activation_id_def less_activation_id_def numbers_inj)

end

instantiation fact_id :: linorder
begin

definition less_eq_fact_id :: "fact_id \<Rightarrow> fact_id \<Rightarrow> bool" where
  "less_eq_fact_id a b \<longleftrightarrow> fact_number a \<le> fact_number b"

definition less_fact_id :: "fact_id \<Rightarrow> fact_id \<Rightarrow> bool" where
  "less_fact_id a b \<longleftrightarrow> fact_number a < fact_number b"

instance
  by standard (auto simp: less_eq_fact_id_def less_fact_id_def numbers_inj)

end

instantiation order_cell :: linorder
begin

definition less_eq_order_cell :: "order_cell \<Rightarrow> order_cell \<Rightarrow> bool" where
  "less_eq_order_cell a b \<longleftrightarrow> cell_numbers a \<le> cell_numbers b"

definition less_order_cell :: "order_cell \<Rightarrow> order_cell \<Rightarrow> bool" where
  "less_order_cell a b \<longleftrightarrow> cell_numbers a < cell_numbers b"

instance
proof
  fix a b c :: order_cell
  show "a < b \<longleftrightarrow> a \<le> b \<and> \<not> b \<le> a" unfolding less_eq_order_cell_def less_order_cell_def by (rule less_le_not_le)
  show "a \<le> a" by (simp add: less_eq_order_cell_def)
  show "a \<le> b \<Longrightarrow> b \<le> c \<Longrightarrow> a \<le> c" unfolding less_eq_order_cell_def by (rule order.trans)
  show "a \<le> b \<Longrightarrow> b \<le> a \<Longrightarrow> a = b" unfolding less_eq_order_cell_def using cell_numbers_inj by (metis order.antisym)
  show "a \<le> b \<or> b \<le> a" unfolding less_eq_order_cell_def by (rule linear)
qed

end

section \<open>A host\<close>

definition sample_host :: host where
  "sample_host = \<lparr>token_key = TokenId, activation_key = ActivationId, walk_tokens = sorted_list_of_set,
     walk_facts = sorted_list_of_set, walk_activations = sorted_list_of_set, walk_nodes = sorted_list_of_set,
     walk_cells = sorted_list_of_set\<rparr>"

lemma sample_host_ok: "host_ok sample_host"
  by (auto simp: host_ok_def sample_host_def walks_def enumerates_def inj_def)

definition sample_hasher :: hasher where
  "sample_hasher ws = of_nat (length ws)"

section \<open>A session\<close>

text \<open>
  A session is started, a rule with one pattern is installed, and a fact is asserted that the
  pattern matches. The model is evaluated by rewriting.
\<close>

definition sample_pattern :: compilable_pattern where
  "sample_pattern = \<lparr>pat_entry = sample_entry_type, pat_tests = [sample_test], pat_sequence = None, variable_slots = [],
     negated_variable_slots = [], pat_negated = False, pat_exists = False\<rparr>"

definition sample_rule_plan :: compilation_plan where
  "sample_rule_plan = \<lparr>plan_salience = 0, plan_complexity = 0, planned = [CondPattern sample_pattern], plan_vars = var_map_new\<rparr>"

definition sample_started :: session where
  "sample_started =
     \<lparr>s_base = fact_base_new, s_compiler = rete_compiler_new,
      s_rete =
        \<lparr>r_alpha = alpha_network_new,
         r_beta = (beta_network_new 100000)\<lparr>beta_memories := [(beta_memory_new (BetaMemoryId 0))\<lparr>bm_tokens := [TokenId 0]\<rparr>]\<rparr>,
         r_tokens = token_store_new\<lparr>tokens := [TokenId 0 \<mapsto> root_token 100000]\<rparr>,
         r_agenda = with_strategy Depth, disabled_rules = {}, pending_events = [], pending_auto_focus_count = 0,
         pending_ncc_left_count = 0, auto_focus_rules = {}, pending_ncc_results = None, block_counter = 0,
         tokens_issued = 1, activations_issued = 0, new_activations = []\<rparr>\<rparr>"

definition sample_installed :: session where
  "sample_installed =
     \<lparr>s_base = fact_base_new,
      s_compiler =
        \<lparr>alpha_path_cache = [(sample_entry_type, [sample_test]) \<mapsto> AlphaMemoryId 0],
         join_node_cache = [\<lparr>key_parent = 100000, key_memory = AlphaMemoryId 0, key_tests = [], key_bindings = [],
           key_sequence = None\<rparr> \<mapsto> 100001],
         next_rule_id = 2\<rparr>,
      s_rete = (s_rete sample_started)
        \<lparr>r_alpha := \<lparr>nodes = [EntryNode sample_entry_type [1] None, TestNode sample_test [] (Some (AlphaMemoryId 0))],
           memories = [alpha_memory_new (AlphaMemoryId 0)], entry_nodes = [sample_entry_type \<mapsto> 0],
           fact_to_memories = Map.empty, next_node_id = 2, next_memory_id = 1\<rparr>,
         r_beta := (beta_network_new 100000)
           \<lparr>beta_nodes := [100000 \<mapsto> Root (BetaMemoryId 0) [100001],
              100001 \<mapsto> Join 100000 (AlphaMemoryId 0) [] None [] (BetaMemoryId 1) [100002], 100002 \<mapsto> Terminal 100001 1 0 0],
            beta_memories := [(beta_memory_new (BetaMemoryId 0))\<lparr>bm_tokens := [TokenId 0]\<rparr>, beta_memory_new (BetaMemoryId 1)],
            next_beta_node := 100003, next_beta_memory := 2, alpha_to_joins := [AlphaMemoryId 0 \<mapsto> [100001]]\<rparr>\<rparr>\<rparr>"

definition sample_matching :: fact where
  "sample_matching = Ordered \<lparr>relation = Symbol (AsciiId 0), fact_fields = [VInteger 2]\<rparr>"

lemmas store_defs = token_count_def token_insert_def token_get_def ls_insert_def root_token_def binding_set_new_def
  with_strategy_def sample_host_def fact_base_get_def token_store_new_def list_get_def list_modify_def
  slot_map_capacity_def insert_token_def seed_root_token_def record_ncc_parent_rank_def beta_iter_def beta_insert_def

lemmas graph_defs = memory_id_for_node_def get_node_def get_memory_def beta_network_new_def with_beta_memory_def beta_memory_new_def
  alpha_network_new_def create_entry_node_def create_constant_test_node_def create_memory_def alpha_memory_at_def alpha_node_at_def
  alpha_memory_new_def allocate_node_id_def checked_add_u_def allocate_beta_memory_def add_node_def attach_child_to_parent_def
  subscribe_def create_join_node_def set_sequence_def create_terminal_node_def nodes_for_alpha_def root_children_def

lemmas visit_defs = ensure_ncc_entry_wait_index_def ncc_entry_wait_for_def is_postponed_def visit_order_def propagate_to_child_def
  left_activate_def collect_candidate_facts_def index_scan_threshold_def alpha_len_def map_filter_simps indexable_tests_def

lemmas compile_defs = session_install_def allocate_rule_id_def install_condition_plan_def compile_conditions_unchecked_def
  set_rule_auto_focus_def fact_base_is_empty_def fact_base_len_def fact_base_new_def compile_pattern_def ensure_alpha_path_def
  path_tests_def rete_compiler_new_def request_alpha_indexes_def request_parent_indexes_def attach_pattern_def ensure_join_node_def
  join_key_norm_def symbol_set_new_def symbol_extend_def activate_root_children_def

lemmas assert_defs = session_assert_distinct_def try_assert_distinct_fact_def insert_indexed_def insert_fact_def
  propagate_fact_assertion_def rete_assert_fact_def alpha_assert_fact_def entry_type_of_def enter_memory_def alpha_insert_def
  right_activations_def right_parent_candidates_def run_right_activation.simps right_activate_def node_memory_of_def
  collect_candidate_parent_tokens_def propagate_join_fact_def emit_join_match_def admit_token_def beta_insert_indexed_def
  extract_bindings_def timestamp_zero_def

lemmas activation_defs = terminal_activate_def token_live_def activation_recency_def recency_loop.simps recency_from_timestamp_def
  add_activation_def agenda_add_def agenda_len_def u64_max_def

lemmas test_defs = propagate.simps node_passes_def evaluate_test_def get_slot_value_def evaluate_field_test.simps
  atom_key_matches_def slot_key_def evaluate_join_def evaluate_join_fields_def

lemmas batch_defs = in_batch_def with_batch_def flush_ncc_result_batch_def ncc_result_batch_new_def resume_batch_def
  suspend_batch_def queued_results_def beta_len_def

lemma sample_start: "session_new sample_host Depth = Inr sample_started"
  by (simp add: session_new_def rete_new_def sample_started_def store_defs graph_defs Let_def)

lemma sample_plan: "plan_conditions 0 [CondPattern sample_pattern] = Inr sample_rule_plan"
  by (simp add: plan_conditions_def try_then_def validate_conditions_def check_limit_def max_rule_conditions_def
      validate_pattern_tests_def validate_alpha_test_count_def sample_pattern_def sample_test_def constant_test_count_eq
      test_nodes.simps max_alpha_tests_def Let_def finish_validation_def validate_pattern_structure_def prepare_var_map_def
      usize_max_def sample_rule_plan_def)

lemma sample_install:
  "session_install (Suc n) sample_host None False sample_rule_plan sample_started =
     Inr (\<lparr>result_rule = 1, terminal_node = 100002, alpha_memories = [AlphaMemoryId 0], result_vars = var_map_new\<rparr>, sample_installed)"
  by (simp add: compile_defs store_defs graph_defs visit_defs sample_started_def sample_installed_def sample_pattern_def
      sample_rule_plan_def sample_test_def Let_def fun_upd_twist)

lemma sample_session_assert:
  "\<exists>s. session_assert_distinct (Suc (Suc (Suc n))) sample_host sample_hasher (FactId 0) sample_matching sample_installed =
       Inr (Inr (FactId 0), s) \<and>
     (\<exists>a. activations (r_agenda (s_rete s)) (ActivationId 0) = Some a \<and> act_rule a = 1 \<and> act_token a = TokenId 1) \<and>
     tokens (r_tokens (s_rete s)) (TokenId 1) =
       Some \<lparr>tok_fact = Some (FactId 0), tok_bindings = [], tok_parent = Some (TokenId 0), tok_owner = 100001\<rparr>"
  by (simp add: assert_defs fact_base_new_def store_defs graph_defs visit_defs test_defs batch_defs activation_defs
      sample_installed_def sample_started_def sample_matching_def sample_entry_type_def sample_test_def Let_def)

end
