(* ===== verification/Session_Results.thy ===== *)
theory Session_Results
  imports Sample_Session
begin

text \<open>
  The properties of sessions: every history keeps the fact base, the compiler and the network in
  step, every operation returns, and what the network holds stands on the facts.
\<close>

section \<open>Histories\<close>

inductive session_step :: "host \<Rightarrow> hasher \<Rightarrow> session \<Rightarrow> session \<Rightarrow> bool" for h finish where
  step_assert: "depth_bound (s_rete s) < fuel \<Longrightarrow> fresh_key i (facts (s_base s)) \<Longrightarrow>
    session_assert fuel h finish i f dup s = Inr (answer, s') \<Longrightarrow> session_step h finish s s'"
| step_assert_distinct: "depth_bound (s_rete s) < fuel \<Longrightarrow> fresh_key i (facts (s_base s)) \<Longrightarrow>
    session_assert_distinct fuel h finish i f s = Inr (stored_as, s') \<Longrightarrow> session_step h finish s s'"
| step_retract: "depth_bound (s_rete s) < fuel \<Longrightarrow> session_retract fuel h finish i s = Inr (gone, s') \<Longrightarrow> session_step h finish s s'"
| step_reset: "depth_bound (s_rete s) < fuel \<Longrightarrow> session_reset fuel h s = Inr s' \<Longrightarrow> session_step h finish s s'"
| step_event: "depth_bound (s_rete s) < fuel \<Longrightarrow> session_event fuel h verdict s = Inr s' \<Longrightarrow> session_step h finish s s'"
| step_install: "plan_conditions salience conditions = Inr plan \<Longrightarrow> narrow_conditions conditions \<Longrightarrow>
    ensure_capacity (r_beta (s_rete s)) (maximum_new_beta_nodes conditions) = Inr () \<Longrightarrow>
    alpha_room conditions (s_rete s) \<Longrightarrow> installation_fuel conditions (s_rete s) < fuel \<Longrightarrow>
    session_install fuel h retired focus (with_complexity cx plan) s = Inr (installed, s') \<Longrightarrow> session_step h finish s s'"
| step_pop: "enumerates (rules (used_index (r_agenda (s_rete s)))) (dom (used_index (r_agenda (s_rete s)))) \<Longrightarrow>
    session_pop rules eligible s = (fired, s') \<Longrightarrow> session_step h finish s s'"
| step_disable: "session_step h finish s (session_disable h rule s)"

inductive session_reach :: "host \<Rightarrow> hasher \<Rightarrow> session \<Rightarrow> bool" for h finish where
  reach_start: "session_new h cr = Inr s \<Longrightarrow> session_reach h finish s"
| reach_step: "session_reach h finish s \<Longrightarrow> session_step h finish s s' \<Longrightarrow> session_reach h finish s'"

lemma returns_Inr: "returns Q m \<Longrightarrow> m = Inr x \<Longrightarrow> Q x"
  by simp

lemma install_numbered: "session_install fuel h None focus plan s = Inr x \<Longrightarrow> next_rule_id (s_compiler s) \<noteq> - 1"
  by (auto simp: session_install_def allocate_rule_id_def checked_add_u_def unsigned_minus_1_eq_mask mask_eq_exp_minus_1)

lemma session_step_ok:
  assumes "session_ok h finish s" "session_step h finish s s'"
  shows "session_ok h finish s'"
  using assms(2,1)
proof cases
  case (step_assert fuel i f dup answer)
  from returns_Inr [OF session_assert_returns [OF assms(1) step_assert(1,2)] step_assert(3)]
  show ?thesis by (simp add: session_keeps_def)
next
  case (step_assert_distinct fuel i f stored_as)
  from returns_Inr [OF session_assert_distinct_returns [OF assms(1) step_assert_distinct(1,2)] step_assert_distinct(3)]
  show ?thesis by (simp add: session_keeps_def)
next
  case (step_retract fuel i gone)
  from returns_Inr [OF session_retract_returns [OF assms(1) step_retract(1)] step_retract(2)]
  show ?thesis by (simp add: session_keeps_def)
next
  case (step_reset fuel)
  from returns_Inr [OF session_reset_returns [OF assms(1) step_reset(1)] step_reset(2)]
  show ?thesis by (simp add: session_keeps_def)
next
  case (step_event fuel verdict)
  from returns_Inr [OF session_event_returns [OF assms(1) step_event(1)] step_event(2)]
  show ?thesis by (simp add: session_keeps_def)
next
  case (step_install salience conditions plan fuel retired focus cx installed)
  have "retired = None \<Longrightarrow> next_rule_id (s_compiler s) \<noteq> - 1" using step_install(6) install_numbered by blast
  from returns_Inr [OF session_install_returns [OF assms(1) step_install(1-5) this] step_install(6)]
  show ?thesis by simp
next
  case (step_pop rules eligible fired)
  from session_pop_keeps [where rules = rules and eligible = eligible, OF assms(1) step_pop(1)] step_pop(2)
  show ?thesis by (simp add: session_keeps_def)
next
  case (step_disable rule)
  with session_disable_keeps [OF assms(1)] show ?thesis by (simp add: session_keeps_def)
qed

lemma session_reach_ok:
  assumes "host_ok h" "session_reach h finish s"
  shows "session_ok h finish s"
  using assms(2)
proof (induction rule: session_reach.induct)
  case (reach_start cr s)
  with session_started [OF assms(1), of cr finish] show ?case by auto
next
  case (reach_step s s')
  from session_step_ok [OF reach_step.IH reach_step.hyps(2)] show ?case .
qed

section \<open>What the network stands on\<close>

text \<open>
  Partial matches, read off the graph and the facts: the facts from the root down, each stored and
  passing the constant tests on a path to the alpha memory of its join, the join tests holding for
  it and the bindings above it.
\<close>

definition joined :: "fact \<Rightarrow> join_test list \<Rightarrow> sequence_pattern option \<Rightarrow> (slot_index \<times> var_id) list \<Rightarrow> token \<Rightarrow> token \<Rightarrow> bool" where
  "joined f tests sequence bindings ptok tok \<longleftrightarrow>
     (case sequence of
        None \<Rightarrow> evaluate_join f (Some ptok) tests \<and> tok_bindings tok = extract_bindings bindings f (tok_bindings ptok)
      | Some plan \<Rightarrow> \<exists>sv \<in> set (all_splits plan f). split_matches sv (tok_bindings ptok) tests plan \<and>
          tok_bindings tok = extract_split_bindings bindings sv (tok_bindings ptok))"

inductive matched :: "fact_base \<Rightarrow> rete \<Rightarrow> token_id \<Rightarrow> fact_id list \<Rightarrow> bool" for fb r where
  matched_root: "tokens (r_tokens r) t = Some tok \<Longrightarrow> tok_parent tok = None \<Longrightarrow> tok_fact tok = None \<Longrightarrow> tok_bindings tok = [] \<Longrightarrow>
    tok_owner tok = root_id (r_beta r) \<Longrightarrow> matched fb r t []"
| matched_join: "tokens (r_tokens r) t = Some tok \<Longrightarrow> tok_parent tok = Some p \<Longrightarrow> matched fb r p fs \<Longrightarrow>
    tokens (r_tokens r) p = Some ptok \<Longrightarrow> get_node (r_beta r) (tok_owner tok) = Some (Join (tok_owner ptok) a tests sequence bindings m cs) \<Longrightarrow>
    tok_fact tok = Some f \<Longrightarrow> facts fb f = Some e \<Longrightarrow> memory_path (r_alpha r) a ety cts \<Longrightarrow> path_matches ety cts (entry_fact e) \<Longrightarrow>
    joined (entry_fact e) tests sequence bindings ptok tok \<Longrightarrow> matched fb r t (fs @ [f])"
| matched_pass: "tokens (r_tokens r) t = Some tok \<Longrightarrow> tok_parent tok = Some p \<Longrightarrow> matched fb r p fs \<Longrightarrow>
    tokens (r_tokens r) p = Some ptok \<Longrightarrow> get_node (r_beta r) (tok_owner tok) = Some node \<Longrightarrow> parent_node node = Some (tok_owner ptok) \<Longrightarrow>
    tok_fact tok = None \<Longrightarrow> tok_bindings tok = tok_bindings ptok \<Longrightarrow> matched fb r t fs"

lemma memory_fact_path:
  assumes ok: "net_ok content live alpha" and am: "alpha_memory_at alpha a = Some am" "f \<in> set (mem_facts am)"
  shows "\<exists>e ts. memory_path alpha a e ts \<and> path_matches e ts (content f) \<and> f \<in> set live"
proof -
  have a: "mem_index a < length (memories alpha)" "am = memories alpha ! mem_index a"
    using am(1) by (auto simp: alpha_memory_at_def list_get_def split: if_splits)
  then have "a \<in> holders alpha f" using am(2) by (simp add: holders_def)
  from holder_path [OF ok this] show ?thesis unfolding memory_path_def by metis
qed

lemma rest_matched:
  assumes rest: "at_rest rank (fact_of fb) live h N r" and live: "set live = dom (facts fb)"
    and anc: "ancestry (r_tokens r) t xs" and t: "tokens (r_tokens r) t \<noteq> None"
  shows "matched fb r t (concat (map (own_fact (r_tokens r)) (rev xs)))"
  using anc t
proof (induction rule: ancestry.induct)
  case (anc_dead t)
  then show ?case by simp
next
  note i = rete_invD [OF at_restD(1) [OF rest]]
  case (anc_root t tok)
  have "token_sound (fact_of fb) (r_alpha r) (r_beta r) (r_tokens r) tok" using i(4) anc_root(1) by (auto simp: tokens_ok_def)
  then obtain node where node: "get_node (r_beta r) (tok_owner tok) = Some node" "own_memory node \<noteq> None" "parent_node node = None"
    "tok_fact tok = None" "tok_bindings tok = []" using anc_root(2) by (auto simp: token_sound_def)
  then have "tok_owner tok = root_id (r_beta r)" using graph_okD(2) [OF i(2)] by (cases node) auto
  with anc_root node show ?case by (auto simp: own_fact_def intro: matched_root)
next
  note i = rete_invD [OF at_restD(1) [OF rest]]
  case (anc_step t tok p xs)
  have sound: "token_sound (fact_of fb) (r_alpha r) (r_beta r) (r_tokens r) tok" using i(4) anc_step(1) by (auto simp: tokens_ok_def)
  then obtain node ptok where node: "get_node (r_beta r) (tok_owner tok) = Some node" "tokens (r_tokens r) p = Some ptok"
    "parent_node node = Some (tok_owner ptok)" "derived (fact_of fb) node ptok tok"
    and mem: "\<And>q a tests sq bs m cs f. node = Join q a tests sq bs m cs \<Longrightarrow> tok_fact tok = Some f \<Longrightarrow>
      \<exists>am. alpha_memory_at (r_alpha r) a = Some am \<and> f \<in> set (mem_facts am)"
    using anc_step(2) unfolding token_sound_def by (auto split: option.splits)
  have above: "matched fb r p (concat (map (own_fact (r_tokens r)) (rev xs)))" using anc_step.IH node(2) by simp
  show ?case
  proof (cases "tok_fact tok")
    case None
    then have "tok_bindings tok = tok_bindings ptok" using node(4) by (auto simp: derived_def split: beta_node.splits option.splits)
    moreover have "own_fact (r_tokens r) t = []" using None anc_step(1) by (simp add: own_fact_def)
    ultimately show ?thesis using matched_pass [OF anc_step(1,2) above node(2,1,3) None] by simp
  next
    case (Some f)
    then obtain q a tests sq bs m cs where join: "node = Join q a tests sq bs m cs"
      using node(4) by (cases node) (auto simp: derived_def)
    obtain am where "alpha_memory_at (r_alpha r) a = Some am" "f \<in> set (mem_facts am)" using mem [OF join Some] by blast
    from memory_fact_path [OF i(3) this] obtain ety cts where
      path: "memory_path (r_alpha r) a ety cts" "path_matches ety cts (fact_of fb f)" "f \<in> set live" by blast
    then obtain e where e: "facts fb f = Some e" "fact_of fb f = entry_fact e" using live by (auto simp: fact_of_def)
    have "joined (fact_of fb f) tests sq bs ptok tok" using node(4) Some by (simp add: derived_def join joined_def)
    then have "joined (entry_fact e) tests sq bs ptok tok" by (simp only: e(2))
    moreover have "q = tok_owner ptok" using node(3) by (simp add: join)
    ultimately have "matched fb r t (concat (map (own_fact (r_tokens r)) (rev xs)) @ [f])"
      using matched_join [OF anc_step(1,2) above node(2) _ Some e(1) path(1)] node(1) path(2) by (simp add: join e(2))
    moreover have "own_fact (r_tokens r) t = [f]" using Some anc_step(1) by (simp add: own_fact_def)
    ultimately show ?thesis by simp
  qed
qed

lemma token_matched:
  assumes ok: "session_ok h finish s" and t: "tokens (r_tokens (s_rete s)) t = Some tok"
  shows "\<exists>fs. collect_all_facts (r_tokens (s_rete s)) t = Some fs \<and> matched (s_base s) (s_rete s) t fs"
proof -
  obtain live rank where live: "in_age_order (s_base s) live"
    and rest: "at_rest rank (fact_of (s_base s)) live h (depth_bound (s_rete s)) (s_rete s)" using ok by (rule session_okE) blast
  have "ts_ok (r_tokens (s_rete s))" using rete_invD(4) [OF at_restD(1) [OF rest]] by (simp add: tokens_ok_def)
  then obtain xs where anc: "ancestry (r_tokens (s_rete s)) t xs" using ancestry_ex by blast
  have "set live = dom (facts (s_base s))" using live by (simp add: in_age_order_def)
  from rest_matched [OF rest this anc] t collect_ancestry [OF anc] show ?thesis by simp
qed

lemma matched_stored: "matched fb r t fs \<Longrightarrow> set fs \<subseteq> dom (facts fb)"
  by (induction rule: matched.induct) auto

lemma activation_matched:
  assumes ok: "session_ok h finish s" and a: "activations (r_agenda (s_rete s)) i = Some a"
  shows "\<exists>tok n fs. tokens (r_tokens (s_rete s)) (act_token a) = Some tok \<and>
      get_node (r_beta (s_rete s)) n = Some (Terminal (tok_owner tok) (act_rule a) (act_salience a) (act_complexity a)) \<and>
      collect_all_facts (r_tokens (s_rete s)) (act_token a) = Some fs \<and> matched (s_base s) (s_rete s) (act_token a) fs"
proof -
  obtain rank live where rest: "at_rest rank (fact_of (s_base s)) live h (depth_bound (s_rete s)) (s_rete s)" using ok by (rule session_okE) blast
  have "activation_sound (r_beta (s_rete s)) (r_tokens (s_rete s)) a"
    using rete_invD(7) [OF at_restD(1) [OF rest]] a by (auto simp: agenda_sound_def)
  with token_matched [OF ok] show ?thesis unfolding activation_sound_def by metis
qed

lemma compiled_memory:
  assumes ok: "session_ok h finish s" and cached: "alpha_path_cache (s_compiler s) (e, map test_norm ts) = Some m"
    and narrow: "\<forall>t \<in> set ts. narrow t"
  shows "\<exists>live am. in_age_order (s_base s) live \<and> alpha_memory_at (r_alpha (s_rete s)) m = Some am \<and>
      mem_facts am = filter (\<lambda>i. path_matches e ts (fact_of (s_base s) i)) live"
proof -
  obtain live rank where live: "in_age_order (s_base s) live" "consistent (fact_of (s_base s)) live h (s_compiler s) (s_rete s)"
    and rest: "at_rest rank (fact_of (s_base s)) live h (depth_bound (s_rete s)) (s_rete s)" using ok by (rule session_okE) blast
  obtain ts' where ts': "map test_norm ts' = map test_norm ts" "memory_path (r_alpha (s_rete s)) m e ts'"
    using live(2) cached unfolding consistent_def paths_ok_def by blast
  have same: "path_matches e ts' = path_matches e ts" using path_matches_norm [OF ts'(1)] narrow by (simp add: fun_eq_iff)
  obtain am where "alpha_memory_at (r_alpha (s_rete s)) m = Some am"
    "mem_facts am = filter (\<lambda>i. path_matches e ts' (fact_of (s_base s) i)) live"
    by (rule memory_path_facts [OF rete_invD(3) [OF at_restD(1) [OF rest]] ts'(2)])
  with live(1) same show ?thesis by auto
qed

lemma session_compiles:
  assumes ok: "session_ok h finish s" and narrow: "narrow_conditions conditions" and room: "alpha_room conditions (s_rete s)"
    and fuel: "installation_fuel conditions (s_rete s) < fuel"
  shows "returns (\<lambda>(answer, c, r). case answer of
      Inl _ \<Rightarrow> c = s_compiler s \<and> r = s_rete s
    | Inr installed \<Rightarrow> session_ok h finish (s\<lparr>s_compiler := c, s_rete := r\<rparr>) \<and>
        (\<exists>p. get_node (r_beta r) (terminal_node installed) = Some (Terminal p rule salience 0)) \<and>
        unat (next_beta_node (r_beta r)) \<le> unat (next_beta_node (r_beta (s_rete s))) + maximum_new_beta_nodes conditions)
    (compile_conditions fuel h (s_base s) rule salience conditions (s_compiler s) (s_rete s))"
proof -
  obtain live where live: "host_ok h" "fb_ok finish (s_base s)" "in_age_order (s_base s) live"
    "consistent (fact_of (s_base s)) live h (s_compiler s) (s_rete s)" "base_live (fact_of (s_base s)) live (s_base s)"
    using ok by (rule session_okE) blast
  have "session_ok h finish (s\<lparr>s_compiler := c, s_rete := r\<rparr>)" if "consistent (fact_of (s_base s)) live h c r" for c r
    using live(1-3) that by (auto simp: session_ok_def)
  then show ?thesis
    by (intro returns_mono [OF conditions_compiled [OF live(4,1,5) room fuel narrow]])
      (auto simp: compiles_def split: sum.splits)
qed

section \<open>The properties\<close>

lemma sample_reached: "session_reach sample_host sample_hasher sample_started" "session_reach sample_host sample_hasher sample_installed"
proof -
  show one: "session_reach sample_host sample_hasher sample_started" by (rule reach_start [OF sample_start])
  have sizes: "unat (next_beta_node (r_beta (s_rete sample_started))) = 100001" "nodes (r_alpha (s_rete sample_started)) = []"
    by (simp_all add: sample_started_def beta_network_new_def alpha_network_new_def)
  have "session_step sample_host sample_hasher sample_started sample_installed"
  proof (rule step_install [OF sample_plan])
    show "narrow_conditions [CondPattern sample_pattern]" by (simp add: narrow_conditions_def sample_pattern_def)
    show "ensure_capacity (r_beta (s_rete sample_started)) (maximum_new_beta_nodes [CondPattern sample_pattern]) = Inr ()"
      by (simp add: ensure_capacity_def ensure_node_capacity_def sample_started_def beta_network_new_def maximum_new_beta_nodes_def)
    show "alpha_room [CondPattern sample_pattern] (s_rete sample_started)"
      by (simp add: alpha_room_def sizes sample_pattern_def path_tests_def)
    show "installation_fuel [CondPattern sample_pattern] (s_rete sample_started) < Suc 300000"
      by (simp add: installation_fuel_def depth_bound_def sizes maximum_new_beta_nodes_def sample_pattern_def path_tests_def)
    have "with_complexity 0 sample_rule_plan = sample_rule_plan" by (simp add: with_complexity_def sample_rule_plan_def)
    then show "session_install (Suc 300000) sample_host None False (with_complexity 0 sample_rule_plan) sample_started =
        Inr (\<lparr>result_rule = 1, terminal_node = 100002, alpha_memories = [AlphaMemoryId 0], result_vars = var_map_new\<rparr>, sample_installed)"
      using sample_install [of 300000] by simp
  qed
  with one show "session_reach sample_host sample_hasher sample_installed" by (rule reach_step)
qed

lemma sample_depth: "depth_bound (s_rete sample_installed) = 200008"
  by (simp add: depth_bound_def sample_installed_def sample_started_def beta_network_new_def)

lemma sample_fresh: "fresh_key i (facts (s_base sample_installed))"
  by (simp add: fresh_key_def sample_installed_def fact_base_new_def)

lemma sample_matched_reached:
  "\<exists>s. session_reach sample_host sample_hasher s \<and>
     (\<exists>a. activations (r_agenda (s_rete s)) (ActivationId 0) = Some a \<and> act_rule a = 1 \<and> act_token a = TokenId 1) \<and>
     tokens (r_tokens (s_rete s)) (TokenId 1) =
       Some \<lparr>tok_fact = Some (FactId 0), tok_bindings = [], tok_parent = Some (TokenId 0), tok_owner = 100001\<rparr>"
proof -
  obtain s where s: "session_assert_distinct (Suc (Suc (Suc 300000))) sample_host sample_hasher (FactId 0) sample_matching sample_installed = Inr (Inr (FactId 0), s)"
    "\<exists>a. activations (r_agenda (s_rete s)) (ActivationId 0) = Some a \<and> act_rule a = 1 \<and> act_token a = TokenId 1"
    "tokens (r_tokens (s_rete s)) (TokenId 1) =
       Some \<lparr>tok_fact = Some (FactId 0), tok_bindings = [], tok_parent = Some (TokenId 0), tok_owner = 100001\<rparr>"
    using sample_session_assert [of 300000] by blast
  have "session_step sample_host sample_hasher sample_installed s"
    by (rule step_assert_distinct [OF _ sample_fresh s(1)]) (simp add: sample_depth)
  with sample_reached(2) have "session_reach sample_host sample_hasher s" by (rule reach_step)
  with s(2,3) show ?thesis by blast
qed



text \<open>
  C2: Every activation on the agenda of a reachable session is a genuine match. It belongs to the
  terminal node of its rule; the facts collected from its token, from the root down, are all
  stored, each passes the constant tests on a path to the alpha memory of its join node, passes
  the join tests against the bindings above it (or is split as its sequence pattern asks), and the
  bindings of every token are those extracted on the way.
\<close>

theorem activations_are_matches:
  assumes "host_ok h" and "session_reach h finish s" and "activations (r_agenda (s_rete s)) i = Some a"
  shows "\<exists>tok n fs. tokens (r_tokens (s_rete s)) (act_token a) = Some tok \<and>
      get_node (r_beta (s_rete s)) n = Some (Terminal (tok_owner tok) (act_rule a) (act_salience a) (act_complexity a)) \<and>
      collect_all_facts (r_tokens (s_rete s)) (act_token a) = Some fs \<and> matched (s_base s) (s_rete s) (act_token a) fs"
  by (rule activation_matched [OF session_reach_ok [OF assms(1,2)] assms(3)])

theorem activations_are_matches_witness:
  "\<exists>s a fs. session_reach sample_host sample_hasher s \<and> activations (r_agenda (s_rete s)) (ActivationId 0) = Some a \<and>
     act_rule a = 1 \<and> collect_all_facts (r_tokens (s_rete s)) (act_token a) = Some fs \<and> matched (s_base s) (s_rete s) (act_token a) fs"
proof -
  obtain s a where s: "session_reach sample_host sample_hasher s" "activations (r_agenda (s_rete s)) (ActivationId 0) = Some a" "act_rule a = 1"
    using sample_matched_reached by blast
  with activations_are_matches [OF sample_host_ok s(1,2)] show ?thesis by blast
qed

text \<open>
  C3: With recursion deeper than the bound of the network, the operations of a reachable session
  return: they never panic and never run out of depth, and stop only when a store is at its
  documented capacity. Asserting adds the fact under its key, or changes no fact; retracting
  removes exactly the fact; a reset removes all; settling an event changes none. The session is
  consistent afterwards.
\<close>

theorem session_operations_return:
  assumes "host_ok h" and "session_reach h finish s" and "depth_bound (s_rete s) < fuel" and "fresh_key i (facts (s_base s))"
  shows "returns (\<lambda>(answer, s'). session_ok h finish s' \<and> (case answer of
        Inr (Inserted j) \<Rightarrow> j = i \<and> stored i f (s_base s) (s_base s') | _ \<Rightarrow> facts (s_base s') = facts (s_base s)))
      (session_assert fuel h finish i f dup s) \<and>
    returns (\<lambda>(gone, s'). session_ok h finish s' \<and> (gone \<longleftrightarrow> k \<in> dom (facts (s_base s))) \<and> facts (s_base s') = (facts (s_base s))(k := None))
      (session_retract fuel h finish k s) \<and>
    returns (\<lambda>s'. session_ok h finish s' \<and> facts (s_base s') = Map.empty) (session_reset fuel h s) \<and>
    returns (session_ok h finish) (session_event fuel h verdict s)"
proof (intro conjI)
  note ok = session_reach_ok [OF assms(1,2)]
  show "returns (\<lambda>(answer, s'). session_ok h finish s' \<and> (case answer of
        Inr (Inserted j) \<Rightarrow> j = i \<and> stored i f (s_base s) (s_base s') | _ \<Rightarrow> facts (s_base s') = facts (s_base s)))
      (session_assert fuel h finish i f dup s)"
    by (rule returns_mono [OF session_assert_returns [OF ok assms(3,4)]])
      (auto simp: session_keeps_def split: sum.splits fact_insertion_result.splits)
  show "returns (\<lambda>(gone, s'). session_ok h finish s' \<and> (gone \<longleftrightarrow> k \<in> dom (facts (s_base s))) \<and> facts (s_base s') = (facts (s_base s))(k := None))
      (session_retract fuel h finish k s)"
    by (rule returns_mono [OF session_retract_returns [OF ok assms(3)]]) (auto simp: session_keeps_def)
  show "returns (\<lambda>s'. session_ok h finish s' \<and> facts (s_base s') = Map.empty) (session_reset fuel h s)"
    by (rule returns_mono [OF session_reset_returns [OF ok assms(3)]]) (simp add: session_keeps_def)
  show "returns (session_ok h finish) (session_event fuel h verdict s)"
    by (rule returns_mono [OF session_event_returns [OF ok assms(3)]]) (simp add: session_keeps_def)
qed

theorem session_operations_return_witness:
  "returns (\<lambda>(gone, s'). \<not> gone \<and> facts (s_base s') = Map.empty)
     (session_retract 300000 sample_host sample_hasher (FactId 3) sample_installed)"
proof -
  have "depth_bound (s_rete sample_installed) < 300000" by (simp add: sample_depth)
  note all = session_operations_return [OF sample_host_ok sample_reached(2) this sample_fresh]
  note gone = all [THEN conjunct2, THEN conjunct1, of "FactId 3"]
  have "facts (s_base sample_installed) = Map.empty" by (simp add: sample_installed_def fact_base_new_def)
  then show ?thesis by (intro returns_mono [OF gone]) auto
qed


lemma sample_root: "tokens (r_tokens (s_rete sample_installed)) (TokenId 0) = Some (root_token 100000)"
  by (simp add: sample_installed_def sample_started_def)


text \<open>
  C4: Compiling a rule is all or nothing. On a reachable session, with conditions no plan of which
  is as wide as the machine's integers and with room for the alpha nodes, compilation either
  reports an error and leaves compiler and network untouched, or ends in a consistent session
  whose new terminal node carries the rule and its salience, having taken no more beta nodes than
  the bound that was checked against the remaining node numbers. It does not panic: after
  validation nothing fails half-way.
\<close>

theorem compilation_all_or_nothing:
  assumes "host_ok h" and "session_reach h finish s" and "narrow_conditions conditions" and "alpha_room conditions (s_rete s)"
    and "installation_fuel conditions (s_rete s) < fuel"
  shows "returns (\<lambda>(answer, c, r). case answer of
      Inl _ \<Rightarrow> c = s_compiler s \<and> r = s_rete s
    | Inr installed \<Rightarrow> session_ok h finish (s\<lparr>s_compiler := c, s_rete := r\<rparr>) \<and>
        (\<exists>p. get_node (r_beta r) (terminal_node installed) = Some (Terminal p rule salience 0)) \<and>
        unat (next_beta_node (r_beta r)) \<le> unat (next_beta_node (r_beta (s_rete s))) + maximum_new_beta_nodes conditions)
    (compile_conditions fuel h (s_base s) rule salience conditions (s_compiler s) (s_rete s))"
  by (rule session_compiles [OF session_reach_ok [OF assms(1,2)] assms(3-5)])

theorem compilation_all_or_nothing_witness:
  "returns (\<lambda>(answer, c, r). case answer of Inl _ \<Rightarrow> r = s_rete sample_installed
      | Inr installed \<Rightarrow> unat (next_beta_node (r_beta r)) \<le> 100005)
    (compile_conditions 300000 sample_host (s_base sample_installed) 2 0 [CondPattern sample_pattern]
      (s_compiler sample_installed) (s_rete sample_installed))"
proof -
  have "next_beta_node (r_beta (s_rete sample_installed)) = 100003" "length (nodes (r_alpha (s_rete sample_installed))) = 2"
    by (simp_all add: sample_installed_def sample_started_def beta_network_new_def)
  moreover have "maximum_new_beta_nodes [CondPattern sample_pattern] = 2" "condition_alphas (CondPattern sample_pattern) = 2"
    by (simp_all add: maximum_new_beta_nodes_def sample_pattern_def path_tests_def)
  moreover have "narrow_conditions [CondPattern sample_pattern]" by (simp add: narrow_conditions_def sample_pattern_def)
  ultimately show ?thesis
    using compilation_all_or_nothing [OF sample_host_ok sample_reached(2), of "[CondPattern sample_pattern]" 300000 2 0]
    by (auto simp: alpha_room_def installation_fuel_def sample_depth elim!: returns_mono split: sum.splits)
qed

text \<open>
  C6: Rules share alpha memories without confusion. Whenever the compiler's cache answers for an
  entry type and a list of tests (compared, as the code does, up to the equality of atom keys), the
  memory it names holds, in a reachable session, exactly the stored facts of that type that pass
  these tests, in the order of their assertion, however many rules were installed, before or after
  the facts arrived.
\<close>

theorem cached_memory_exact:
  assumes "host_ok h" and "session_reach h finish s" and "alpha_path_cache (s_compiler s) (e, map test_norm ts) = Some m"
    and "\<forall>t \<in> set ts. narrow t"
  shows "\<exists>live am. in_age_order (s_base s) live \<and> alpha_memory_at (r_alpha (s_rete s)) m = Some am \<and>
      mem_facts am = filter (\<lambda>i. path_matches e ts (fact_of (s_base s) i)) live"
  by (rule compiled_memory [OF session_reach_ok [OF assms(1,2)] assms(3,4)])

theorem cached_memory_exact_witness:
  "\<exists>live am. in_age_order (s_base sample_installed) live \<and>
     alpha_memory_at (r_alpha (s_rete sample_installed)) (AlphaMemoryId 0) = Some am \<and>
     mem_facts am = filter (\<lambda>i. path_matches sample_entry_type [sample_test] (fact_of (s_base sample_installed) i)) live"
proof -
  have "alpha_path_cache (s_compiler sample_installed) (sample_entry_type, map test_norm [sample_test]) = Some (AlphaMemoryId 0)"
    by (simp add: sample_installed_def sample_test_def)
  moreover have "\<forall>t \<in> set [sample_test]. narrow t" by (simp add: sample_test_def narrow_def)
  ultimately show ?thesis by (rule cached_memory_exact [OF sample_host_ok sample_reached(2)])
qed

end
