(* ===== verification/Spec2Isabelle.thy ===== *)
theory Spec2Isabelle
  imports Ordered_Set Token_Invariant Agenda_Order Exists_Memory Block_Orders Join_Results Session_Results
begin

text \<open>
  A verification development for the match engine of ferric-rules, a CLIPS-style production system
  in Rust (crate \<open>ferric-rules-core\<close>, directory \<open>src/crates/ferric-rules-core/src\<close>).

  The program. Facts enter a fact base; an alpha network sorts them by kind and constant tests into
  alpha memories; a beta network joins them into tokens (partial matches), with memories for
  negated, exists and negated-conjunction conditions; complete matches become activations on an
  agenda, from which the runtime fires rules by salience and strategy. The stores are linked by
  ids: tokens name facts and parent tokens, activations name tokens. Each keeps redundant indexes,
  and the theorems say that these always describe the primary data.

  The theories, from the bottom up:
    \<^item> \<open>Prelude\<close>, \<open>Tree_Map\<close>, \<open>Comparators\<close>, \<open>Mirrored_Index\<close>, \<open>Keyed_Index\<close>, \<open>Floats\<close>: checked arithmetic,
      slot-map keys and iteration orders, ordered maps as sorted lists, Rust's orderings, indexes
      as inverse relations, value indexes, IEEE doubles on bit patterns.
    \<^item> \<open>Symbols\<close> (\<open>encoding.rs\<close>, \<open>string.rs\<close>, \<open>symbol.rs\<close>), \<open>Values\<close> (\<open>value.rs\<close>): interning, structural
      equality, atom keys, serialisation surrogates.
    \<^item> \<open>Ordered_Set\<close> (\<open>ordered_set.rs\<close>): the linked set refines a list of distinct keys. Elsewhere
      such sets are their key lists.
    \<^item> \<open>Facts\<close>, \<open>Fact_Base\<close>, \<open>Fact_Base_Invariant\<close>, \<open>Fact_Base_Properties\<close> (\<open>fact.rs\<close>): assertion with
      duplicate suppression, retraction, cursors in order of assertion.
    \<^item> \<open>Bindings\<close> (\<open>binding.rs\<close>), \<open>Tokens\<close>, \<open>Token_Invariant\<close> (\<open>token.rs\<close>): the forest of partial matches.
    \<^item> \<open>Agenda_Keys\<close>, \<open>Agenda\<close>, \<open>Agenda_Invariant\<close>, \<open>Agenda_Properties\<close>, \<open>Agenda_Results\<close>,
      \<open>Agenda_Order\<close> (\<open>agenda.rs\<close>, \<open>strategy.rs\<close>): the conflict set and its orders.
    \<^item> \<open>Exists_Memory\<close>, \<open>Negative_Memory\<close>, \<open>Ncc_Memory\<close> (\<open>exists.rs\<close>, \<open>negative.rs\<close>, \<open>ncc.rs\<close>),
      \<open>Block_Orders\<close> (the shared blocking chronology of \<open>rete.rs\<close>).
    \<^item> \<open>Constant_Tests\<close>, \<open>Alpha_Memory\<close>, \<open>Alpha_Network\<close>, \<open>Alpha_Paths\<close>, \<open>Alpha_Correct\<close>,
      \<open>Alpha_Building\<close>, \<open>Alpha_Results\<close> (\<open>alpha.rs\<close>): tests on facts, memories with value indexes, the
      network, what its propagation visits, and its exactness in every history, in which nodes and
      backfilled memories are built while facts come and go.
    \<^item> \<open>Sequence_Plans\<close>, \<open>Sequence_Search\<close>, \<open>Sequence_Correct\<close>, \<open>Sequence_Results\<close> (\<open>sequence.rs\<close>): plans
      of multifield patterns and the pruned search for splits, against a reference enumeration.
    \<^item> \<open>Join_Tests\<close> (\<open>beta.rs\<close>, \<open>rete.rs\<close>): join tests on facts and on splits. \<open>Beta_Memory\<close> (\<open>beta.rs\<close>),
      \<open>Join_Candidates\<close>, \<open>Join_Results\<close>: token memories with value indexes and ranks, and the candidates
      a join reads through the indexes.
    \<^item> \<open>Outcome\<close>, \<open>Beta_Network\<close> (\<open>beta.rs\<close>), \<open>Rete\<close>, \<open>Rete_Operations\<close> (\<open>rete.rs\<close>): the graph of nodes and
      its construction, the left and right activations of every kind of node, propagation, batches
      of conjunction results, assertion, retraction, installation, clearing and the pending events.
    \<^item> \<open>Rete_Invariant\<close>: the invariant that ties the stores of the network together: tokens record what
      their nodes derived from their parents and from facts of the right alpha memory, memories list
      the tokens of their node, the agenda and the pending events name live matches, conjunction
      results are counted, the graph is ranked and every block has its place in the chronology.
      \<open>Rete_Primitives\<close>, \<open>Rete_Tokens\<close>, \<open>Rete_Cascade\<close>, \<open>Rete_Activation\<close>, \<open>Rete_Propagation\<close>, \<open>Rete_Batches\<close>:
      every handler keeps it and returns, by induction on the rank of nodes; the locales
      \<open>propagation\<close> and \<open>engine\<close> state what handlers may assume of the recursion they call.
      \<open>Rete_Assertion\<close>, \<open>Rete_Retraction\<close>, \<open>Rete_Events\<close>, \<open>Rete_Installation\<close>: the public operations.
    \<^item> \<open>Rete_Building\<close>, \<open>Alpha_Growth\<close>: adding nodes of every kind to a network at rest.
    \<^item> \<open>Rule_Compiler\<close> (\<open>compiler.rs\<close>): validation, variable maps, the caches for shared alpha paths and
      joins, compilation of patterns, predicates and nested conjunctions, installation.
      \<open>Compiler_Correct\<close>, \<open>Compiler_Installation\<close>: the caches stay true, compilation returns and keeps the
      network consistent, within the number of nodes it was checked for.
    \<^item> \<open>Engine_Session\<close> (\<open>engine.rs\<close>, \<open>loader.rs\<close> of the runtime crate): fact base, compiler and network
      driven together. \<open>Sample_Session\<close>: a concrete host and rule, evaluated by rewriting.
      \<open>Session_Results\<close>: the properties of every history of a session.

  Conventions. Rust integers are words, except counts of type \<open>usize\<close>, which are naturals that
  saturate or fail where the code does. Doubles are their bit patterns. A slot map is a partial
  map; the key an insertion returns is an argument, assumed never used before. Hash maps are
  partial maps; where the code walks one, the order is an argument that enumerates the domain.
  A panic is \<open>None\<close> at the outside, an error \<open>Inl\<close>. Recursions on graphs of nodes carry fuel, and
  the theorems show that it never runs out beyond \<open>depth_bound\<close>, twice the next beta node number plus
  the number of alpha nodes: ranks below that bound grow from parents to children and from partners
  to their conjunctions. \<open>installation_fuel\<close> adds the nodes a rule can take. Loops over tokens are
  partial functions shown to return. An operation of the network may also stop as \<open>Full\<close>, when a slot
  map is at its capacity of \<open>2 ^ 32 - 2\<close>.

  Parameters: the hasher, UTF-8 validation and slot-map keys, with documented behaviour of the
  standard library and of \<open>slotmap\<close> as hypotheses.

  Not modelled: serde derives, tracing, tests and benches; the removal of rules from network and
  compiler (\<open>remove_rules\<close>, \<open>retain_nodes\<close>, \<open>retain_memories\<close>), the consistency checks across
  structures and snapshots; the parser; of the runtime crate everything but the calls in
  \<open>Engine_Session\<close>, which leave out modules, host handles and the evaluation of expressions; the
  command line and the foreign bindings.
\<close>

end
